(* ===== verification/Prelude.thy ===== *)
theory Prelude
  imports Main "HOL-Library.Multiset" "HOL-Library.Word"
begin

text \<open>
  The vocabulary every component shares: the Rust standard library as the code uses it
  (\<open>Ordering\<close>, \<open>Result<T, String>\<close>, slices, \<open>partition_point\<close>, sorting, fixed-width checked
  arithmetic), the interface of a comparison function (locale \<open>comparator\<close>) with the theory of
  sorted runs and of stable merging that the ordering components rest on, and list lemmas.

  Conventions. A \<open>Result<T, String>\<close> is \<open>string + 'a\<close>, \<open>Inl\<close> the message. A panic (an index out
  of range, a failed \<open>assert!\<close>, an \<open>expect\<close>) is \<open>None\<close> of an \<open>option\<close>. \<open>usize\<close> values are \<open>nat\<close>:
  lengths of allocated vectors stay below \<open>2 ^ 63\<close>, so sums of two of them do not wrap. Slots
  (\<open>u32\<close>) are \<open>nat\<close> with \<open>2 ^ 32\<close> written out where the code checks for it, and words where the
  code works on bits.
\<close>

section \<open>Results\<close>

type_synonym 'a result = "string + 'a"

definition bind_result :: "'a result \<Rightarrow> ('a \<Rightarrow> 'b result) \<Rightarrow> 'b result" where
  "bind_result r f = (case r of Inl e \<Rightarrow> Inl e | Inr x \<Rightarrow> f x)"

lemma bind_result_simps [simp]:
  "bind_result (Inl e) f = Inl e"
  "bind_result (Inr x) f = f x"
  by (simp_all add: bind_result_def)

lemma bind_result_Inr [simp]:
  "bind_result r f = Inr y \<longleftrightarrow> (\<exists>x. r = Inr x \<and> f x = Inr y)"
  by (cases r) auto

lemma bind_result_Inl:
  "bind_result r f = Inl e \<longleftrightarrow> r = Inl e \<or> (\<exists>x. r = Inr x \<and> f x = Inl e)"
  by (cases r) auto

section \<open>Fixed-width integers\<close>

definition u32_max :: nat where "u32_max = 2 ^ 32 - 1"
definition u64_max :: nat where "u64_max = 2 ^ 64 - 1"

definition checked_add_u32 :: "nat \<Rightarrow> nat \<Rightarrow> nat option" where
  "checked_add_u32 a b = (if a + b \<le> u32_max then Some (a + b) else None)"

definition checked_add_u64 :: "nat \<Rightarrow> nat \<Rightarrow> nat option" where
  "checked_add_u64 a b = (if a + b \<le> u64_max then Some (a + b) else None)"

section \<open>Three-way comparison\<close>

text \<open>\<open>std::cmp::Ordering\<close>, with the order its derived \<open>Ord\<close> gives it.\<close>

datatype ordering = Less | Equal | Greater

instantiation ordering :: linorder
begin

fun rank_ordering :: "ordering \<Rightarrow> nat" where
  "rank_ordering Less = 0"
| "rank_ordering Equal = 1"
| "rank_ordering Greater = 2"

definition less_eq_ordering :: "ordering \<Rightarrow> ordering \<Rightarrow> bool" where
  "a \<le> b \<longleftrightarrow> rank_ordering a \<le> rank_ordering b"

definition less_ordering :: "ordering \<Rightarrow> ordering \<Rightarrow> bool" where
  "a < b \<longleftrightarrow> rank_ordering a < rank_ordering b"

instance
proof
  fix a b c :: ordering
  show "a < b \<longleftrightarrow> a \<le> b \<and> \<not> b \<le> a"
    by (auto simp: less_eq_ordering_def less_ordering_def)
  show "a \<le> a" by (simp add: less_eq_ordering_def)
  show "a \<le> b \<Longrightarrow> b \<le> c \<Longrightarrow> a \<le> c" by (simp add: less_eq_ordering_def)
  show "a \<le> b \<Longrightarrow> b \<le> a \<Longrightarrow> a = b"
    by (cases a; cases b) (auto simp: less_eq_ordering_def)
  show "a \<le> b \<or> b \<le> a" by (auto simp: less_eq_ordering_def)
qed

end

lemma ordering_le_Equal [simp]: "c \<le> Equal \<longleftrightarrow> c \<noteq> Greater"
  by (cases c) (simp_all add: less_eq_ordering_def)

lemma ordering_le_Less [simp]: "c \<le> Less \<longleftrightarrow> c = Less"
  by (cases c) (simp_all add: less_eq_ordering_def)

fun reverse_ord :: "ordering \<Rightarrow> ordering" where
  "reverse_ord Less = Greater"
| "reverse_ord Equal = Equal"
| "reverse_ord Greater = Less"

fun then_with :: "ordering \<Rightarrow> ordering \<Rightarrow> ordering" where
  "then_with Less _ = Less"
| "then_with Equal c = c"
| "then_with Greater _ = Greater"

lemma reverse_ord_involution [simp]: "reverse_ord (reverse_ord c) = c"
  by (cases c) simp_all

lemma reverse_ord_eq [simp]:
  "reverse_ord c = Less \<longleftrightarrow> c = Greater"
  "reverse_ord c = Equal \<longleftrightarrow> c = Equal"
  "reverse_ord c = Greater \<longleftrightarrow> c = Less"
  by (cases c; simp)+

lemma then_with_Equal [simp]: "then_with a b = Equal \<longleftrightarrow> a = Equal \<and> b = Equal"
  by (cases a) simp_all

lemma reverse_then_with: "reverse_ord (then_with a b) = then_with (reverse_ord a) (reverse_ord b)"
  by (cases a) simp_all

text \<open>\<open>Ord::cmp\<close> of the primitive types, and of slices: lexicographic, a proper prefix first.\<close>

definition prim_cmp :: "'a::linorder \<Rightarrow> 'a \<Rightarrow> ordering" where
  "prim_cmp x y = (if x < y then Less else if x = y then Equal else Greater)"

lemma prim_cmp_iff [simp]:
  "prim_cmp x y = Less \<longleftrightarrow> x < y"
  "prim_cmp x y = Equal \<longleftrightarrow> x = y"
  "prim_cmp x y = Greater \<longleftrightarrow> y < x"
  by (auto simp: prim_cmp_def)

lemma prim_cmp_swap: "prim_cmp y x = reverse_ord (prim_cmp x y)"
  by (auto simp: prim_cmp_def)

fun slice_cmp :: "'a::linorder list \<Rightarrow> 'a list \<Rightarrow> ordering" where
  "slice_cmp [] [] = Equal"
| "slice_cmp [] (y # ys) = Less"
| "slice_cmp (x # xs) [] = Greater"
| "slice_cmp (x # xs) (y # ys) = then_with (prim_cmp x y) (slice_cmp xs ys)"

lemma slice_cmp_Equal [simp]: "slice_cmp xs ys = Equal \<longleftrightarrow> xs = ys"
  by (induction xs ys rule: slice_cmp.induct) auto

lemma slice_cmp_swap: "slice_cmp ys xs = reverse_ord (slice_cmp xs ys)"
proof (induction xs ys rule: slice_cmp.induct)
  case (4 x xs y ys)
  then show ?case by (simp add: reverse_then_with prim_cmp_swap [of y x])
qed simp_all

lemma slice_cmp_append_same: "slice_cmp (zs @ xs) (zs @ ys) = slice_cmp xs ys"
  by (induction zs) (auto simp: prim_cmp_def)

text \<open>
  A comparison that orders lists by a comparison of their elements, the first difference
  deciding and a proper prefix coming first.
\<close>

fun list_cmp :: "('a \<Rightarrow> 'a \<Rightarrow> ordering) \<Rightarrow> 'a list \<Rightarrow> 'a list \<Rightarrow> ordering" where
  "list_cmp c [] [] = Equal"
| "list_cmp c [] (y # ys) = Less"
| "list_cmp c (x # xs) [] = Greater"
| "list_cmp c (x # xs) (y # ys) = then_with (c x y) (list_cmp c xs ys)"

lemma slice_cmp_list_cmp: "slice_cmp xs ys = list_cmp prim_cmp xs ys"
  by (induction xs ys rule: slice_cmp.induct) simp_all

section \<open>Slices\<close>

definition subslice :: "'a list \<Rightarrow> nat \<Rightarrow> nat \<Rightarrow> 'a list" where
  "subslice xs i j = take (j - i) (drop i xs)"

lemma length_subslice [simp]: "length (subslice xs i j) = min (j - i) (length xs - i)"
  by (simp add: subslice_def min.commute)

lemma subslice_same [simp]: "subslice xs i i = []"
  by (simp add: subslice_def)

lemma subslice_full [simp]: "subslice xs 0 (length xs) = xs"
  by (simp add: subslice_def)

lemma nth_subslice: "k < j - i \<Longrightarrow> i + k < length xs \<Longrightarrow> subslice xs i j ! k = xs ! (i + k)"
  by (simp add: subslice_def)

lemma subslice_to_end: "length xs \<le> j \<Longrightarrow> subslice xs i j = drop i xs"
  by (simp add: subslice_def)

lemma subslice_from_start [simp]: "subslice xs 0 j = take j xs"
  by (simp add: subslice_def)

lemma subslice_append_subslice:
  assumes "i \<le> j" "j \<le> k"
  shows "subslice xs i j @ subslice xs j k = subslice xs i k"
proof -
  have "subslice xs i k = take ((j - i) + (k - j)) (drop i xs)"
    using assms by (simp add: subslice_def)
  also have "\<dots> = subslice xs i j @ take (k - j) (drop (j - i) (drop i xs))"
    by (simp add: take_add subslice_def)
  also have "\<dots> = subslice xs i j @ subslice xs j k"
    using assms by (simp add: subslice_def)
  finally show ?thesis by simp
qed

lemma subslice_append_drop: "i \<le> j \<Longrightarrow> subslice xs i j @ drop j xs = drop i xs"
  by (metis append_take_drop_id drop_drop le_add_diff_inverse2 subslice_def)

lemma take_append_subslice: "i \<le> j \<Longrightarrow> take i xs @ subslice xs i j = take j xs"
  using subslice_append_subslice [of 0 i j xs] by simp

lemma set_subslice_subset: "set (subslice xs i j) \<subseteq> set xs"
  by (auto simp: subslice_def dest: in_set_takeD in_set_dropD)

lemma subslice_append_middle:
  "i \<le> j \<Longrightarrow> j \<le> length ys \<Longrightarrow>
     subslice (xs @ ys @ zs) (length xs + i) (length xs + j) = subslice ys i j"
  by (simp add: subslice_def)

lemma list_update_after:
  "n = length us + length vs \<Longrightarrow> (us @ vs @ x # zs)[n := r] = us @ vs @ r # zs"
  by (simp add: list_update_append)

lemma nths_same:
  "\<forall>i < length xs. i \<in> A \<longleftrightarrow> i \<in> B \<Longrightarrow> nths xs A = nths xs B"
  by (induction xs arbitrary: A B) (auto simp: nths_Cons)

lemma nths_concat:
  "nths (concat xss) A =
     concat (map (\<lambda>k. nths (xss ! k) {i. length (concat (take k xss)) + i \<in> A}) [0..<length xss])"
proof (induction xss rule: rev_induct)
  case (snoc xs xss)
  let ?f = "\<lambda>yss k. nths (yss ! k) {i. length (concat (take k yss)) + i \<in> A}"
  have same: "map (?f (xss @ [xs])) [0..<length xss] = map (?f xss) [0..<length xss]"
    by (intro map_cong) (auto simp: nth_append)
  have "nths (concat (xss @ [xs])) A = concat (map (?f xss) [0..<length xss]) @ ?f (xss @ [xs]) (length xss)"
    by (simp only: concat_append nths_append snoc.IH) (simp add: add.commute)
  also have "\<dots> = concat (map (?f (xss @ [xs])) [0..<length xss] @ [?f (xss @ [xs]) (length xss)])"
    by (simp only: same concat_append concat.simps append_Nil2)
  also have "\<dots> = concat (map (?f (xss @ [xs])) [0..<length (xss @ [xs])])"
    by (simp del: take_append)
  finally show ?case .
qed simp

text \<open>
  \<open>slice::partition_point\<close>: the length of the prefix on which the predicate holds. The standard
  library promises it for slices that the predicate partitions, which is what the sortedness
  assumptions of the theorems below provide.
\<close>

definition partition_point :: "('a \<Rightarrow> bool) \<Rightarrow> 'a list \<Rightarrow> nat" where
  "partition_point p xs = length (takeWhile p xs)"

lemma partition_point_le [simp]: "partition_point p xs \<le> length xs"
  by (simp add: partition_point_def length_takeWhile_le)

lemma partition_point_before: "i < partition_point p xs \<Longrightarrow> p (xs ! i)"
  unfolding partition_point_def
  by (metis nth_mem set_takeWhileD takeWhile_nth)

lemma partition_point_at:
  "partition_point p xs < length xs \<Longrightarrow> \<not> p (xs ! partition_point p xs)"
  unfolding partition_point_def by (rule nth_length_takeWhile)

lemma partition_point_less: "x \<in> set xs \<Longrightarrow> \<not> p x \<Longrightarrow> partition_point p xs < length xs"
  by (induction xs) (auto simp: partition_point_def)

lemma partition_point_unique:
  assumes "n \<le> length xs" "\<And>i. i < n \<Longrightarrow> p (xs ! i)" "n < length xs \<Longrightarrow> \<not> p (xs ! n)"
  shows "partition_point p xs = n"
proof (rule antisym)
  show "partition_point p xs \<le> n"
    using assms(3) partition_point_before [of n p xs] partition_point_le [of p xs]
    by (meson dual_order.strict_trans1 linorder_not_le)
  show "n \<le> partition_point p xs"
    using assms(1,2) partition_point_at [of p xs]
    by (meson dual_order.strict_trans2 linorder_not_le)
qed

lemma take_partition_point: "take (partition_point p xs) xs = takeWhile p xs"
  by (metis partition_point_def takeWhile_eq_take)

lemma drop_partition_point: "drop (partition_point p xs) xs = dropWhile p xs"
  by (metis partition_point_def dropWhile_eq_drop)

section \<open>Sorting and merging by a comparison\<close>

definition sorted_by :: "('a \<Rightarrow> 'a \<Rightarrow> ordering) \<Rightarrow> 'a list \<Rightarrow> bool" where
  "sorted_by cmp xs = sorted_wrt (\<lambda>a b. cmp a b \<noteq> Greater) xs"

text \<open>
  \<open>sort_unstable_by\<close> as an insertion sort. The standard library leaves the relative order of equal
  elements open; the theorems below speak of the sortedness and the multiset of its result only,
  or of comparisons under which equal elements are identical.
\<close>

fun insert_by :: "('a \<Rightarrow> 'a \<Rightarrow> ordering) \<Rightarrow> 'a \<Rightarrow> 'a list \<Rightarrow> 'a list" where
  "insert_by cmp x [] = [x]"
| "insert_by cmp x (y # ys) = (if cmp x y \<noteq> Greater then x # y # ys else y # insert_by cmp x ys)"

fun sort_by :: "('a \<Rightarrow> 'a \<Rightarrow> ordering) \<Rightarrow> 'a list \<Rightarrow> 'a list" where
  "sort_by cmp [] = []"
| "sort_by cmp (x # xs) = insert_by cmp x (sort_by cmp xs)"

text \<open>The reference for every merge in the code: elements of the first list precede equal ones of the second.\<close>

fun merge_by :: "('a \<Rightarrow> 'a \<Rightarrow> ordering) \<Rightarrow> 'a list \<Rightarrow> 'a list \<Rightarrow> 'a list" where
  "merge_by cmp [] ys = ys"
| "merge_by cmp xs [] = xs"
| "merge_by cmp (x # xs) (y # ys) =
     (if cmp x y \<noteq> Greater then x # merge_by cmp xs (y # ys) else y # merge_by cmp (x # xs) ys)"

lemma mset_insert_by [simp]: "mset (insert_by cmp x xs) = add_mset x (mset xs)"
  by (induction xs) auto

lemma mset_sort_by [simp]: "mset (sort_by cmp xs) = mset xs"
  by (induction xs) auto

lemma set_insert_by [simp]: "set (insert_by cmp x xs) = insert x (set xs)"
  by (metis mset_insert_by set_mset_add_mset_insert set_mset_mset)

lemma set_sort_by [simp]: "set (sort_by cmp xs) = set xs"
  by (metis mset_sort_by set_mset_mset)

lemma length_sort_by [simp]: "length (sort_by cmp xs) = length xs"
  by (metis mset_sort_by size_mset)

lemma mset_merge_by [simp]: "mset (merge_by cmp xs ys) = mset xs + mset ys"
  by (induction cmp xs ys rule: merge_by.induct) auto

lemma set_merge_by [simp]: "set (merge_by cmp xs ys) = set xs \<union> set ys"
  by (metis mset_merge_by set_mset_mset set_mset_union)

lemma length_merge_by [simp]: "length (merge_by cmp xs ys) = length xs + length ys"
  by (metis mset_merge_by size_mset size_union)

lemma merge_by_Nil2 [simp]: "merge_by cmp xs [] = xs"
  by (cases xs) simp_all

lemma merge_by_take_while:
  "merge_by cmp xs (y # ys) =
     takeWhile (\<lambda>x. cmp x y \<noteq> Greater) xs @ y # merge_by cmp (dropWhile (\<lambda>x. cmp x y \<noteq> Greater) xs) ys"
  by (induction xs) auto

lemma sorted_by_Nil [simp]: "sorted_by cmp []"
  by (simp add: sorted_by_def)

lemma sorted_by_single [simp]: "sorted_by cmp [x]"
  by (simp add: sorted_by_def)

lemma sorted_by_Cons:
  "sorted_by cmp (x # xs) \<longleftrightarrow> (\<forall>y \<in> set xs. cmp x y \<noteq> Greater) \<and> sorted_by cmp xs"
  by (simp add: sorted_by_def)

lemma sorted_by_append:
  "sorted_by cmp (xs @ ys) \<longleftrightarrow>
     sorted_by cmp xs \<and> sorted_by cmp ys \<and> (\<forall>x \<in> set xs. \<forall>y \<in> set ys. cmp x y \<noteq> Greater)"
  by (simp add: sorted_by_def sorted_wrt_append)

lemma sorted_by_nth: "sorted_by cmp xs \<Longrightarrow> i < j \<Longrightarrow> j < length xs \<Longrightarrow> cmp (xs ! i) (xs ! j) \<noteq> Greater"
  using sorted_wrt_nth_less [of "\<lambda>a b. cmp a b \<noteq> Greater" xs i j] by (simp add: sorted_by_def)

lemma sorted_by_take: "sorted_by cmp xs \<Longrightarrow> sorted_by cmp (take n xs)"
  by (simp add: sorted_by_def sorted_wrt_take)

lemma sorted_by_drop: "sorted_by cmp xs \<Longrightarrow> sorted_by cmp (drop n xs)"
  by (simp add: sorted_by_def sorted_wrt_drop)

lemma sorted_by_filter: "sorted_by cmp xs \<Longrightarrow> sorted_by cmp (filter p xs)"
  by (simp add: sorted_by_def sorted_wrt_filter)

lemma sorted_by_subslice: "sorted_by cmp xs \<Longrightarrow> sorted_by cmp (subslice xs i j)"
  by (simp add: subslice_def sorted_by_take sorted_by_drop)

text \<open>\<open>sort_unstable\<close> followed by \<open>dedup\<close> on a linearly ordered type.\<close>

lemma sorted_strict_remdups_adj: "sorted xs \<Longrightarrow> sorted_wrt (<) (remdups_adj (xs :: 'a::linorder list))"
  by (induction xs rule: remdups_adj.induct) auto

section \<open>The interface of a comparison function\<close>

text \<open>
  What \<open>sort_by\<close>, the merges and the binary searches of the code require of the comparison they are
  given: the contract of Rust's \<open>Ord\<close>, as a total preorder.
\<close>

locale comparator =
  fixes cmp :: "'a \<Rightarrow> 'a \<Rightarrow> ordering"
  assumes cmp_swap: "cmp y x = reverse_ord (cmp x y)"
    and cmp_trans: "cmp x y \<noteq> Greater \<Longrightarrow> cmp y z \<noteq> Greater \<Longrightarrow> cmp x z \<noteq> Greater"
begin

lemma cmp_refl: "cmp x x = Equal"
  using cmp_swap [of x x] by (cases "cmp x x") simp_all

lemma cmp_total: "cmp x y = Greater \<Longrightarrow> cmp y x \<noteq> Greater"
  using cmp_swap [of x y] by simp

lemma cmp_Greater_trans: "cmp x y = Greater \<Longrightarrow> cmp z y \<noteq> Greater \<Longrightarrow> cmp x z = Greater"
  using cmp_trans [of x z y] by blast

lemma cmp_Less_trans: "cmp x y = Less \<Longrightarrow> cmp y z \<noteq> Greater \<Longrightarrow> cmp x z = Less"
proof -
  assume xy: "cmp x y = Less" and yz: "cmp y z \<noteq> Greater"
  have "cmp z x \<noteq> Less \<and> cmp z x \<noteq> Equal"
  proof (rule ccontr)
    assume "\<not> ?thesis"
    then have "cmp z x \<noteq> Greater" by auto
    with yz have "cmp y x \<noteq> Greater" by (rule cmp_trans)
    with xy cmp_swap [of y x] show False by simp
  qed
  then have "cmp z x = Greater" by (cases "cmp z x") auto
  then show "cmp x z = Less" using cmp_swap [of x z] by simp
qed

lemma sorted_by_insert_by: "sorted_by cmp xs \<Longrightarrow> sorted_by cmp (insert_by cmp x xs)"
  by (induction xs) (auto simp: sorted_by_Cons dest: cmp_trans cmp_total)

lemma sorted_by_sort_by: "sorted_by cmp (sort_by cmp xs)"
  by (induction xs) (simp_all add: sorted_by_insert_by)

lemma sorted_by_merge_by:
  "sorted_by cmp xs \<Longrightarrow> sorted_by cmp ys \<Longrightarrow> sorted_by cmp (merge_by cmp xs ys)"
proof (induction xs arbitrary: ys)
  case (Cons x xs)
  then show ?case
  proof (induction ys)
    case (Cons y ys)
    then show ?case by (auto simp: sorted_by_Cons dest: cmp_trans cmp_total)
  qed simp
qed simp

text \<open>In a sorted list the elements that do not exceed a pivot are exactly a prefix.\<close>

lemma sorted_prefix_le:
  "sorted_by cmp xs \<Longrightarrow> i \<le> j \<Longrightarrow> j < length xs \<Longrightarrow> cmp (xs ! j) r \<noteq> Greater \<Longrightarrow>
     cmp (xs ! i) r \<noteq> Greater"
  using sorted_by_nth [of cmp xs i j] cmp_trans [of "xs ! i" "xs ! j" r] by (cases "i = j") auto

lemma filter_le_take_while:
  "sorted_by cmp xs \<Longrightarrow> filter (\<lambda>x. cmp x r \<noteq> Greater) xs = takeWhile (\<lambda>x. cmp x r \<noteq> Greater) xs"
proof (induction xs)
  case (Cons x xs)
  show ?case
  proof (cases "cmp x r = Greater")
    case True
    then have "\<forall>y \<in> set xs. cmp y r = Greater"
      using Cons.prems cmp_trans by (auto simp: sorted_by_Cons)
    with True show ?thesis by (simp add: filter_empty_conv)
  next
    case False
    with Cons show ?thesis by (simp add: sorted_by_Cons)
  qed
qed simp

end

text \<open>A comparison under which equal elements are identical sorts every list to one result.\<close>

locale strict_comparator = comparator +
  assumes cmp_Equal: "cmp x y = Equal \<Longrightarrow> x = y"
begin

lemma sorted_by_unique:
  "sorted_by cmp xs \<Longrightarrow> sorted_by cmp ys \<Longrightarrow> mset xs = mset ys \<Longrightarrow> xs = ys"
proof (induction xs arbitrary: ys)
  case (Cons x xs)
  then obtain y ys' where ys: "ys = y # ys'" by (cases ys) auto
  have "x = y"
  proof (rule ccontr)
    assume "x \<noteq> y"
    with Cons.prems(3) ys have "x \<in> set ys'" "y \<in> set xs"
      by (metis insert_iff list.set(2) set_mset_mset)+
    with Cons.prems(1,2) ys have "cmp x y \<noteq> Greater" "cmp y x \<noteq> Greater"
      by (auto simp: sorted_by_Cons)
    then have "cmp x y = Equal" using cmp_swap [of y x] by (cases "cmp x y") auto
    with \<open>x \<noteq> y\<close> show False using cmp_Equal by blast
  qed
  with Cons ys show ?case by (auto simp: sorted_by_Cons)
qed simp

lemma sort_by_eqI: "sorted_by cmp ys \<Longrightarrow> mset ys = mset xs \<Longrightarrow> sort_by cmp xs = ys"
  by (rule sorted_by_unique) (simp_all add: sorted_by_sort_by)

end

interpretation prim_comparator: strict_comparator "prim_cmp :: 'a::linorder \<Rightarrow> 'a \<Rightarrow> ordering"
  by unfold_locales (auto simp: prim_cmp_def split: if_splits)

text \<open>Slices inherit the laws, and a comparison through a key keeps them.\<close>

lemma slice_cmp_trans:
  "slice_cmp xs ys \<noteq> Greater \<Longrightarrow> slice_cmp ys zs \<noteq> Greater \<Longrightarrow> slice_cmp xs zs \<noteq> Greater"
proof (induction xs ys arbitrary: zs rule: slice_cmp.induct)
  case (2 y ys)
  then show ?case by (cases zs) simp_all
next
  case (4 x xs y ys)
  then show ?case by (cases zs) (auto simp: prim_cmp_def split: if_splits)
qed simp_all

interpretation slice_comparator: strict_comparator "slice_cmp :: 'a::linorder list \<Rightarrow> 'a list \<Rightarrow> ordering"
  by unfold_locales (rule slice_cmp_swap, erule (1) slice_cmp_trans, simp)

lemma comparator_key: "comparator c \<Longrightarrow> comparator (\<lambda>a b. c (f a) (f b))"
  unfolding comparator_def by blast

text \<open>Comparisons compose: in the opposite direction, and one after another as with \<open>then_with\<close>.\<close>

lemma comparator_reverse: "comparator c \<Longrightarrow> comparator (\<lambda>a b. reverse_ord (c a b))"
proof
  fix x y z
  assume "comparator c"
  then have sw: "\<And>x y. c y x = reverse_ord (c x y)"
    and tr: "\<And>x y z. c x y \<noteq> Greater \<Longrightarrow> c y z \<noteq> Greater \<Longrightarrow> c x z \<noteq> Greater"
    unfolding comparator_def by blast+
  show "reverse_ord (c y x) = reverse_ord (reverse_ord (c x y))" using sw [of y x] by simp
  assume "reverse_ord (c x y) \<noteq> Greater" "reverse_ord (c y z) \<noteq> Greater"
  then have "c y x \<noteq> Greater" "c z y \<noteq> Greater" using sw [of y x] sw [of z y] by simp_all
  then have "c z x \<noteq> Greater" using tr by blast
  then show "reverse_ord (c x z) \<noteq> Greater" using sw [of z x] by simp
qed

lemma comparator_then:
  assumes "comparator c" "comparator d"
  shows "comparator (\<lambda>a b. then_with (c a b) (d a b))"
proof
  fix x y z
  show "then_with (c y x) (d y x) = reverse_ord (then_with (c x y) (d x y))"
    using comparator.cmp_swap [OF assms(1), of y x] comparator.cmp_swap [OF assms(2), of y x]
    by (simp add: reverse_then_with)
  assume xy: "then_with (c x y) (d x y) \<noteq> Greater" and yz: "then_with (c y z) (d y z) \<noteq> Greater"
  have c: "c x y \<noteq> Greater" "c y z \<noteq> Greater" using xy yz by (auto elim: then_with.elims)
  then have "c x z \<noteq> Greater" using comparator.cmp_trans [OF assms(1)] by blast
  moreover have "d x z \<noteq> Greater" if "c x z = Equal"
  proof -
    have "c z x = Equal" using that comparator.cmp_swap [OF assms(1), of z x] by simp
    then have "c x y \<noteq> Less" "c y z \<noteq> Less"
      using comparator.cmp_Less_trans [OF assms(1), of x y z] that c
        comparator.cmp_Less_trans [OF assms(1), of y z x] comparator.cmp_swap [OF assms(1), of y x]
      by auto
    then have "c x y = Equal" "c y z = Equal" using c by (metis ordering.exhaust)+
    then have "d x y \<noteq> Greater" "d y z \<noteq> Greater" using xy yz by simp_all
    then show ?thesis using comparator.cmp_trans [OF assms(2)] by blast
  qed
  ultimately show "then_with (c x z) (d x z) \<noteq> Greater" by (cases "c x z") simp_all
qed

lemma comparator_const: "comparator (\<lambda>a b. Equal)"
  by unfold_locales simp_all

end
