(* ===== verification/Text.thy ===== *)
theory Text
  imports Prelude
begin

text \<open>
  Text as the code sees it. A Rust \<open>str\<close> is the list of its Unicode scalar values, \<open>as_bytes\<close> its
  UTF-8 encoding, and \<open>len\<close> the number of its bytes. The section ends with \<open>core/src/text_view.rs\<close>
  apart from its natural ordering, which is in the theory of natural orderings: text held as at most
  two regions, with every operation proved equal to the operation on the joined text.

  Substring search is the \<open>memchr\<close> crate's \<open>Finder\<close>; it appears as the parameter \<open>find_sub\<close> with its
  documented contract as the locale \<open>finder\<close>.
\<close>

type_synonym byte = nat
type_synonym str = "nat list"

section \<open>Strings\<close>

definition lit :: "string \<Rightarrow> str" where
  "lit s = map of_char s"

definition utf8_char :: "nat \<Rightarrow> byte list" where
  "utf8_char c =
     (if c < 128 then [c]
      else if c < 2048 then [192 + c div 64, 128 + c mod 64]
      else if c < 65536 then [224 + c div 4096, 128 + c div 64 mod 64, 128 + c mod 64]
      else [240 + c div 262144, 128 + c div 4096 mod 64, 128 + c div 64 mod 64, 128 + c mod 64])"

definition as_bytes :: "str \<Rightarrow> byte list" where
  "as_bytes s = concat (map utf8_char s)"

definition str_len :: "str \<Rightarrow> nat" where
  "str_len s = length (as_bytes s)"

definition is_ascii :: "str \<Rightarrow> bool" where
  "is_ascii s = list_all (\<lambda>c. c < 128) s"

definition ascii_lower :: "nat \<Rightarrow> nat" where
  "ascii_lower c = (if 65 \<le> c \<and> c \<le> 90 then c + 32 else c)"

definition to_ascii_lowercase :: "str \<Rightarrow> str" where
  "to_ascii_lowercase s = map ascii_lower s"

definition is_ascii_digit :: "nat \<Rightarrow> bool" where
  "is_ascii_digit c \<longleftrightarrow> 48 \<le> c \<and> c \<le> 57"

definition is_ascii_alphabetic :: "nat \<Rightarrow> bool" where
  "is_ascii_alphabetic c \<longleftrightarrow> 65 \<le> c \<and> c \<le> 90 \<or> 97 \<le> c \<and> c \<le> 122"

text \<open>\<open>char::is_whitespace\<close>: the Unicode property White\_Space.\<close>

definition is_whitespace :: "nat \<Rightarrow> bool" where
  "is_whitespace c \<longleftrightarrow> 9 \<le> c \<and> c \<le> 13 \<or> c = 32 \<or> c = 133 \<or> c = 160 \<or> c = 5760 \<or>
     8192 \<le> c \<and> c \<le> 8202 \<or> c = 8232 \<or> c = 8233 \<or> c = 8239 \<or> c = 8287 \<or> c = 12288"

abbreviation slash :: nat where "slash \<equiv> 47"

definition starts_with :: "'a list \<Rightarrow> 'a list \<Rightarrow> bool" where
  "starts_with xs p \<longleftrightarrow> take (length p) xs = p"

definition ends_with :: "'a list \<Rightarrow> 'a list \<Rightarrow> bool" where
  "ends_with xs p \<longleftrightarrow> length p \<le> length xs \<and> drop (length xs - length p) xs = p"

definition strip_prefix :: "'a list \<Rightarrow> 'a list \<Rightarrow> 'a list option" where
  "strip_prefix xs p = (if starts_with xs p then Some (drop (length p) xs) else None)"

definition strip_suffix :: "'a list \<Rightarrow> 'a list \<Rightarrow> 'a list option" where
  "strip_suffix xs p = (if ends_with xs p then Some (take (length xs - length p) xs) else None)"

text \<open>\<open>str::split_once\<close> at a character, and \<open>str::split\<close>.\<close>

definition split_once :: "'a \<Rightarrow> 'a list \<Rightarrow> ('a list \<times> 'a list) option" where
  "split_once c xs = (if c \<in> set xs then Some (takeWhile (\<lambda>x. x \<noteq> c) xs, tl (dropWhile (\<lambda>x. x \<noteq> c) xs)) else None)"

fun split_at :: "'a \<Rightarrow> 'a list \<Rightarrow> 'a list list" where
  "split_at c [] = [[]]"
| "split_at c (x # xs) =
     (if x = c then [] # split_at c xs
      else (x # hd (split_at c xs)) # tl (split_at c xs))"

definition trim_start_matches :: "'a \<Rightarrow> 'a list \<Rightarrow> 'a list" where
  "trim_start_matches c xs = dropWhile (\<lambda>x. x = c) xs"

definition trim_end_matches :: "'a \<Rightarrow> 'a list \<Rightarrow> 'a list" where
  "trim_end_matches c xs = rev (dropWhile (\<lambda>x. x = c) (rev xs))"

lemma as_bytes_append [simp]: "as_bytes (a @ b) = as_bytes a @ as_bytes b"
  by (simp add: as_bytes_def)

lemma as_bytes_Nil [simp]: "as_bytes [] = []"
  by (simp add: as_bytes_def)

lemma utf8_char_nonempty [simp]: "utf8_char c \<noteq> []"
  by (simp add: utf8_char_def)

lemma as_bytes_eq_Nil [simp]: "as_bytes s = [] \<longleftrightarrow> s = []"
  by (cases s) (simp_all add: as_bytes_def)

lemma as_bytes_ascii: "is_ascii s \<Longrightarrow> as_bytes s = s"
  by (induction s) (auto simp: as_bytes_def is_ascii_def utf8_char_def)

lemma str_len_append [simp]: "str_len (a @ b) = str_len a + str_len b"
  by (simp add: str_len_def)

lemma starts_with_iff: "starts_with xs p \<longleftrightarrow> (\<exists>ys. xs = p @ ys)"
  by (metis append_eq_conv_conj append_take_drop_id starts_with_def)

lemma ends_with_iff: "ends_with xs p \<longleftrightarrow> (\<exists>ys. xs = ys @ p)"
proof
  assume "ends_with xs p"
  then show "\<exists>ys. xs = ys @ p" by (metis append_take_drop_id ends_with_def)
qed (auto simp: ends_with_def)

lemma split_at_nonempty [simp]: "split_at c xs \<noteq> []"
  by (cases xs) simp_all

text \<open>UTF-8 keeps the order of the scalar values, and distinct strings have distinct bytes.\<close>

lemma div_mod_less: "(c::nat) < d \<Longrightarrow> c div n < d div n \<or> c div n = d div n \<and> c mod n < d mod n"
  by (metis add_less_cancel_left div_le_mono div_mult_mod_eq le_neq_implies_less less_imp_le)

lemma slice_cmp_four:
  fixes a b c d :: nat
  assumes "a < a' \<or> a = a' \<and> (b < b' \<or> b = b' \<and> (c < c' \<or> c = c' \<and> d < d'))"
  shows "slice_cmp ([240 + a, 128 + b, 128 + c, 128 + d] @ xs) ([240 + a', 128 + b', 128 + c', 128 + d'] @ ys) = Less"
  using assms by (auto simp: prim_cmp_def)

lemma slice_cmp_three:
  fixes a b c :: nat
  assumes "a < a' \<or> a = a' \<and> (b < b' \<or> b = b' \<and> c < c')"
  shows "slice_cmp ([224 + a, 128 + b, 128 + c] @ xs) ([224 + a', 128 + b', 128 + c'] @ ys) = Less"
  using assms by (auto simp: prim_cmp_def)

lemma utf8_char_less:
  assumes "c < d"
  shows "slice_cmp (utf8_char c @ xs) (utf8_char d @ ys) = Less"
proof -
  have l1: "c div 64 < d div 64 \<or> c div 64 = d div 64 \<and> c mod 64 < d mod 64"
    by (rule div_mod_less [OF assms])
  have l2: "c div 4096 < d div 4096 \<or> c div 4096 = d div 4096 \<and> (c div 64 mod 64 < d div 64 mod 64 \<or> c div 64 = d div 64)"
    using div_mod_less [of "c div 64" "d div 64" 64] l1 div_le_mono [of c d 4096] assms by (auto simp: div_mult2_eq [symmetric])
  have l3: "c div 262144 < d div 262144 \<or> c div 262144 = d div 262144 \<and> (c div 4096 mod 64 < d div 4096 mod 64 \<or> c div 4096 = d div 4096)"
    using div_mod_less [of "c div 4096" "d div 4096" 64] l2 div_le_mono [of c d 262144] assms by (auto simp: div_mult2_eq [symmetric])
  consider "d < 128" | "128 \<le> d" "d < 2048" | "2048 \<le> d" "d < 65536" | "65536 \<le> d" by linarith
  then show ?thesis
  proof cases
    case 1
    then show ?thesis using assms by (simp add: utf8_char_def prim_cmp_def)
  next
    case 2
    then show ?thesis using assms l1 by (auto simp: utf8_char_def prim_cmp_def)
  next
    case 3
    have "192 + c div 64 < 224 + d div 4096" if "c < 2048" using that by linarith
    moreover have ?thesis if "2048 \<le> c"
    proof -
      have "c div 4096 < d div 4096 \<or> c div 4096 = d div 4096 \<and>
          (c div 64 mod 64 < d div 64 mod 64 \<or> c div 64 mod 64 = d div 64 mod 64 \<and> c mod 64 < d mod 64)"
        using l1 l2 by (metis less_irrefl_nat)
      then show ?thesis using that 3 assms by (simp add: utf8_char_def slice_cmp_three [simplified])
    qed
    ultimately show ?thesis using 3 by (cases "c < 2048") (simp_all add: utf8_char_def prim_cmp_def)
  next
    case 4
    have "192 + c div 64 < 240 + d div 262144" if "c < 2048" using that by linarith
    moreover have "224 + c div 4096 < 240 + d div 262144" if "c < 65536" using that by linarith
    moreover have ?thesis if "65536 \<le> c"
    proof -
      have "c div 262144 < d div 262144 \<or> c div 262144 = d div 262144 \<and>
          (c div 4096 mod 64 < d div 4096 mod 64 \<or> c div 4096 mod 64 = d div 4096 mod 64 \<and>
           (c div 64 mod 64 < d div 64 mod 64 \<or> c div 64 mod 64 = d div 64 mod 64 \<and> c mod 64 < d mod 64))"
        using l1 l2 l3 by (metis less_irrefl_nat)
      then show ?thesis using that 4 by (simp add: utf8_char_def slice_cmp_four [simplified])
    qed
    ultimately show ?thesis using 4 by (cases "c < 65536") (simp_all add: utf8_char_def prim_cmp_def)
  qed
qed

lemma as_bytes_cmp: "slice_cmp (as_bytes a) (as_bytes b) = slice_cmp a b"
proof (induction a b rule: slice_cmp.induct)
  case (4 x xs y ys)
  show ?case
  proof (cases x y rule: linorder_cases)
    case less
    then show ?thesis using utf8_char_less [OF less, of "as_bytes xs" "as_bytes ys"] by (simp add: as_bytes_def prim_cmp_def)
  next
    case equal
    then show ?thesis using 4 by (simp add: as_bytes_def slice_cmp_append_same prim_cmp_def)
  next
    case greater
    then show ?thesis using utf8_char_less [OF greater, of "as_bytes ys" "as_bytes xs"]
      slice_cmp_swap [of "as_bytes (x # xs)" "as_bytes (y # ys)"] by (simp add: as_bytes_def prim_cmp_def)
  qed
next
  case (2 y ys)
  then show ?case by (cases "as_bytes (y # ys)") (simp_all add: as_bytes_def)
next
  case (3 x xs)
  then show ?case by (cases "as_bytes (x # xs)") (simp_all add: as_bytes_def)
qed simp
lemma as_bytes_inject [simp]: "as_bytes a = as_bytes b \<longleftrightarrow> a = b"
  using as_bytes_cmp [of a b] slice_cmp_Equal by metis

section \<open>Substring search\<close>

definition occurs_at :: "'a list \<Rightarrow> 'a list \<Rightarrow> nat \<Rightarrow> bool" where
  "occurs_at needle hay i \<longleftrightarrow> i + length needle \<le> length hay \<and> subslice hay i (i + length needle) = needle"

definition occurs :: "'a list \<Rightarrow> 'a list \<Rightarrow> bool" where
  "occurs needle hay \<longleftrightarrow> (\<exists>us vs. hay = us @ needle @ vs)"

lemma occurs_at_iff: "occurs_at needle hay i \<longleftrightarrow> (\<exists>us vs. hay = us @ needle @ vs \<and> length us = i)"
proof
  assume "occurs_at needle hay i"
  then have "hay = take i hay @ needle @ drop (i + length needle) hay" "length (take i hay) = i"
    using take_append_subslice [of i "i + length needle" hay]
    by (auto simp: occurs_at_def) (metis append_assoc append_take_drop_id)
  then show "\<exists>us vs. hay = us @ needle @ vs \<and> length us = i" by blast
qed (auto simp: occurs_at_def subslice_def)

lemma occurs_iff_at: "occurs needle hay \<longleftrightarrow> (\<exists>i. occurs_at needle hay i)"
  by (auto simp: occurs_def occurs_at_iff)

text \<open>
  The interface of \<open>memchr::memmem::Finder::find\<close>: the first position at which the needle occurs.
\<close>

locale finder =
  fixes find_sub :: "byte list \<Rightarrow> byte list \<Rightarrow> nat option"
  assumes find_Some: "find_sub needle hay = Some i \<Longrightarrow> occurs_at needle hay i \<and> (\<forall>j < i. \<not> occurs_at needle hay j)"
    and find_None: "find_sub needle hay = None \<Longrightarrow> \<not> occurs needle hay"
begin

lemma find_is_some: "find_sub needle hay \<noteq> None \<longleftrightarrow> occurs needle hay"
  using find_Some find_None occurs_iff_at by (metis not_None_eq)

end

text \<open>A direct search satisfies the interface; the witnesses of the theorems use it.\<close>

fun naive_find :: "byte list \<Rightarrow> byte list \<Rightarrow> nat option" where
  "naive_find needle [] = (if needle = [] then Some 0 else None)"
| "naive_find needle (x # xs) =
     (if starts_with (x # xs) needle then Some 0 else map_option Suc (naive_find needle xs))"

lemma occurs_at_0: "occurs_at needle hay 0 \<longleftrightarrow> starts_with hay needle"
  by (auto simp: occurs_at_iff starts_with_iff)

lemma occurs_at_Suc: "occurs_at needle (x # xs) (Suc i) \<longleftrightarrow> occurs_at needle xs i"
  by (auto simp: occurs_at_def subslice_def)

lemma naive_find_Some:
  "naive_find needle hay = Some i \<Longrightarrow> occurs_at needle hay i \<and> (\<forall>j < i. \<not> occurs_at needle hay j)"
proof (induction needle hay arbitrary: i rule: naive_find.induct)
  case (1 needle)
  then show ?case by (auto simp: occurs_at_def split: if_splits)
next
  case (2 needle x xs)
  show ?case
  proof (cases "starts_with (x # xs) needle")
    case True
    with "2.prems" show ?thesis by (simp add: occurs_at_0)
  next
    case False
    with "2.prems" obtain k where k: "naive_find needle xs = Some k" "i = Suc k" by auto
    have "\<not> occurs_at needle (x # xs) j" if "j < i" for j
      using that "2.IH" [OF False k(1)] False k(2) by (cases j) (auto simp: occurs_at_0 occurs_at_Suc)
    with "2.IH" [OF False k(1)] k(2) show ?thesis by (simp add: occurs_at_Suc)
  qed
qed

lemma naive_find_None: "naive_find needle hay = None \<Longrightarrow> \<not> occurs_at needle hay i"
proof (induction needle hay arbitrary: i rule: naive_find.induct)
  case (2 needle x xs)
  then show ?case by (cases i) (auto simp: occurs_at_0 occurs_at_Suc split: if_splits)
qed (auto simp: occurs_at_def split: if_splits)

interpretation naive: finder naive_find
  by unfold_locales (use naive_find_Some naive_find_None occurs_iff_at in blast)+

section \<open>Byte offsets and characters\<close>

text \<open>
  A byte is the first of its character or a continuation byte; so an occurrence of the encoding of a
  nonempty string starts and ends at character boundaries.
\<close>

definition continuation :: "byte \<Rightarrow> bool" where
  "continuation b \<longleftrightarrow> 128 \<le> b \<and> b < 192"

lemma utf8_char_shape: "\<exists>b bs. utf8_char c = b # bs \<and> \<not> continuation b \<and> list_all continuation bs"
  by (auto simp: utf8_char_def continuation_def)

lemma utf8_char_prefix: "utf8_char c @ xs = utf8_char d @ ys \<Longrightarrow> c = d"
proof (rule ccontr)
  assume eq: "utf8_char c @ xs = utf8_char d @ ys" and "c \<noteq> d"
  then consider "c < d" | "d < c" by linarith
  then show False
    by cases (use utf8_char_less [of c d xs ys] utf8_char_less [of d c ys xs] eq slice_cmp_Equal in \<open>metis ordering.distinct(1)\<close>)+
qed

lemma as_bytes_Cons: "as_bytes (c # cs) = utf8_char c @ as_bytes cs"
  by (simp add: as_bytes_def)

lemma as_bytes_prefix: "as_bytes s = as_bytes needle @ vs \<Longrightarrow> \<exists>b. s = needle @ b"
proof (induction needle arbitrary: s)
  case (Cons d ds)
  then obtain c cs where s: "s = c # cs" by (cases s) (auto simp: as_bytes_Cons)
  with Cons.prems have eq: "utf8_char c @ as_bytes cs = utf8_char d @ as_bytes ds @ vs" by (simp add: as_bytes_Cons)
  then have "c = d" by (rule utf8_char_prefix)
  with eq Cons.IH [of cs] s show ?case by auto
qed simp

lemma as_bytes_sync:
  assumes "as_bytes s = us @ as_bytes needle @ vs" "needle \<noteq> []"
  shows "\<exists>a b. s = a @ needle @ b \<and> us = as_bytes a"
  using assms(1)
proof (induction s arbitrary: us)
  case Nil
  then show ?case using assms(2) by (cases needle) (auto simp: as_bytes_Cons)
next
  case (Cons c cs)
  show ?case
  proof (cases "us = []")
    case True
    then obtain b where "c # cs = needle @ b" using Cons.prems as_bytes_prefix [of "c # cs" needle vs] by auto
    then have "c # cs = [] @ needle @ b \<and> us = as_bytes []" using True by simp
    then show ?thesis by blast
  next
    case False
    obtain h t where h: "as_bytes needle = h # t" "\<not> continuation h"
    proof -
      obtain d ds where "needle = d # ds" using assms(2) by (cases needle) auto
      moreover obtain h t where "utf8_char d = h # t" "\<not> continuation h" using utf8_char_shape by blast
      ultimately show ?thesis using that by (simp add: as_bytes_Cons)
    qed
    obtain b bs where b: "utf8_char c = b # bs" "list_all continuation bs" using utf8_char_shape by blast
    have "length (utf8_char c) \<le> length us"
    proof (rule ccontr)
      assume short: "\<not> ?thesis"
      have "(utf8_char c @ as_bytes cs) ! length us = h"
        using Cons.prems h(1) by (simp add: as_bytes_Cons nth_append)
      then have "utf8_char c ! length us = h" using short by (simp add: nth_append)
      moreover obtain n where n: "length us = Suc n" using False by (cases us) auto
      ultimately have "bs ! n = h" "n < length bs" using b short by simp_all
      then show False using b(2) h(2) by (auto simp: list_all_length)
    qed
    then obtain us' where us: "us = utf8_char c @ us'"
      using Cons.prems by (metis append_eq_append_conv_if append_take_drop_id as_bytes_Cons)
    then have "as_bytes cs = us' @ as_bytes needle @ vs" using Cons.prems by (simp add: as_bytes_Cons)
    then obtain a b where "cs = a @ needle @ b" "us' = as_bytes a" using Cons.IH by blast
    then have "c # cs = (c # a) @ needle @ b \<and> us = as_bytes (c # a)" using us by (simp add: as_bytes_Cons)
    then show ?thesis by blast
  qed
qed

lemma occurs_as_bytes: "occurs (as_bytes needle) (as_bytes s) \<longleftrightarrow> occurs needle s"
proof (cases "needle = []")
  case False
  then show ?thesis using as_bytes_sync [of s _ needle] by (force simp: occurs_def)
qed (metis append_Nil as_bytes_Nil occurs_def)

section \<open>Slices at byte offsets\<close>

text \<open>\<open>text[..n]\<close> and \<open>text[n..]\<close> at a byte offset, which panic off a character boundary.\<close>

fun split_bytes :: "str \<Rightarrow> nat \<Rightarrow> (str \<times> str) option" where
  "split_bytes s 0 = Some ([], s)"
| "split_bytes [] (Suc n) = None"
| "split_bytes (c # cs) (Suc n) =
     (if length (utf8_char c) \<le> Suc n
      then map_option (\<lambda>(a, b). (c # a, b)) (split_bytes cs (Suc n - length (utf8_char c)))
      else None)"

lemma split_bytes_append: "split_bytes s n = Some (a, b) \<Longrightarrow> s = a @ b \<and> n = str_len a"
proof (induction s n arbitrary: a b rule: split_bytes.induct)
  case (3 c cs n)
  then show ?case by (auto simp: str_len_def as_bytes_def split: if_splits)
qed (simp_all add: str_len_def as_bytes_def)

lemma split_bytes_complete: "split_bytes (a @ b) (str_len a) = Some (a, b)"
proof (induction a)
  case (Cons c a)
  obtain n where n: "length (utf8_char c) = Suc n" using utf8_char_nonempty [of c] by (cases "utf8_char c") auto
  then have "str_len (c # a) = Suc (n + str_len a)" by (simp add: str_len_def as_bytes_Cons)
  then show ?case using Cons n by simp
qed (simp add: str_len_def)

section \<open>Text in two regions\<close>

record text_view =
  prefix :: str
  suffix :: str

definition view_text :: "text_view \<Rightarrow> str" where
  "view_text v = prefix v @ suffix v"

definition view_of_str :: "str \<Rightarrow> text_view" where
  "view_of_str s = \<lparr>prefix = [], suffix = s\<rparr>"

definition view_len :: "text_view \<Rightarrow> nat" where
  "view_len v = str_len (prefix v) + str_len (suffix v)"

definition view_is_empty :: "text_view \<Rightarrow> bool" where
  "view_is_empty v \<longleftrightarrow> prefix v = [] \<and> suffix v = []"

definition view_bytes :: "text_view \<Rightarrow> byte list" where
  "view_bytes v = as_bytes (prefix v) @ as_bytes (suffix v)"

text \<open>\<open>write_to\<close> clears the output first; \<open>with_str\<close> avoids the copy when a region is empty.\<close>

definition write_to :: "text_view \<Rightarrow> str \<Rightarrow> str" where
  "write_to v out = [] @ prefix v @ suffix v"

definition with_str :: "text_view \<Rightarrow> (str \<Rightarrow> 'r) \<Rightarrow> 'r" where
  "with_str v work =
     (if prefix v = [] then work (suffix v)
      else if suffix v = [] then work (prefix v)
      else work (write_to v []))"

text \<open>\<open>Iterator::rposition\<close>.\<close>

definition rposition :: "('a \<Rightarrow> bool) \<Rightarrow> 'a list \<Rightarrow> nat option" where
  "rposition p xs =
     (let n = length (dropWhile (\<lambda>x. \<not> p x) (rev xs)) in if n = 0 then None else Some (n - 1))"

definition crosses_boundary :: "(byte list \<Rightarrow> byte list \<Rightarrow> nat option) \<Rightarrow> text_view \<Rightarrow> byte list \<Rightarrow> bool" where
  "crosses_boundary find_sub v needle =
     (let overlap = length needle - 1; p = as_bytes (prefix v); s = as_bytes (suffix v)
      in if overlap = 0 \<or> prefix v = [] \<or> suffix v = [] then False
         else if ends_with (prefix v) [slash] \<and> slash \<notin> set s
         then (case rposition (\<lambda>b. b = slash) needle of
                 None \<Rightarrow> False
               | Some separator \<Rightarrow>
                   (let split = separator + 1
                    in split < length needle \<and> ends_with p (take split needle) \<and>
                       starts_with s (drop split needle)))
         else find_sub needle (drop (length p - overlap) p @ take (min (length s) overlap) s) \<noteq> None)"

definition view_contains :: "(byte list \<Rightarrow> byte list \<Rightarrow> nat option) \<Rightarrow> text_view \<Rightarrow> byte list \<Rightarrow> bool" where
  "view_contains find_sub v needle \<longleftrightarrow>
     find_sub needle (as_bytes (prefix v)) \<noteq> None \<or> find_sub needle (as_bytes (suffix v)) \<noteq> None \<or>
     crosses_boundary find_sub v needle"

text \<open>
  \<open>Ord::cmp\<close>: the comparison loop over two spans on each side, with \<open>a\<close> and \<open>b\<close> counting the spans
  already exhausted. The spans are the lists' elements.
\<close>

function span_cmp :: "byte list list \<Rightarrow> byte list list \<Rightarrow> ordering" where
  "span_cmp left right =
     (let l = dropWhile (\<lambda>s. s = []) left; r = dropWhile (\<lambda>s. s = []) right
      in if l = [] \<or> r = [] then prim_cmp (l \<noteq> []) (r \<noteq> [])
         else let n = min (length (hd l)) (length (hd r));
                  c = slice_cmp (take n (hd l)) (take n (hd r))
              in if c \<noteq> Equal then c
                 else span_cmp (drop n (hd l) # tl l) (drop n (hd r) # tl r))"
  by pat_completeness auto
termination
proof (relation "measure (\<lambda>(l, r). length (concat l) + length (concat r))", goal_cases)
  case (2 left right l r n c)
  have l: "concat l = concat left" and r: "concat r = concat right"
    unfolding 2 by (induction left; simp) (induction right; simp)
  have ne: "hd l \<noteq> []" "hd r \<noteq> []" "l \<noteq> []" "r \<noteq> []"
    using 2 hd_dropWhile [of "\<lambda>s. s = []" left] hd_dropWhile [of "\<lambda>s. s = []" right] by auto
  then have "0 < n" using 2(4) by simp
  have "concat l = hd l @ concat (tl l)" "concat r = hd r @ concat (tl r)"
    using ne by (metis concat.simps(2) list.collapse)+
  then have "length (concat left) = length (hd l) + length (concat (tl l))"
      "length (concat right) = length (hd r) + length (concat (tl r))"
    using l r by (metis length_append)+
  moreover have "n \<le> length (hd l)" "n \<le> length (hd r)" using 2(4) by simp_all
  ultimately show ?case using \<open>0 < n\<close> by simp
qed simp

declare span_cmp.simps [simp del]

definition view_cmp :: "text_view \<Rightarrow> text_view \<Rightarrow> ordering" where
  "view_cmp v w =
     (if prefix v = prefix w then slice_cmp (as_bytes (suffix v)) (as_bytes (suffix w))
      else span_cmp [as_bytes (prefix v), as_bytes (suffix v)] [as_bytes (prefix w), as_bytes (suffix w)])"

definition view_eq :: "text_view \<Rightarrow> text_view \<Rightarrow> bool" where
  "view_eq v w \<longleftrightarrow> view_len v = view_len w \<and> view_cmp v w = Equal"

text \<open>\<open>PartialEq<&str>\<close>; the slice from \<open>prefix.len()\<close> is in range after the length test.\<close>

definition view_eq_str :: "text_view \<Rightarrow> str \<Rightarrow> bool" where
  "view_eq_str v s \<longleftrightarrow> view_len v = str_len s \<and> starts_with (as_bytes s) (as_bytes (prefix v)) \<and>
     drop (str_len (prefix v)) (as_bytes s) = as_bytes (suffix v)"

text \<open>The bytes fed to the hasher.\<close>

definition view_hash_input :: "text_view \<Rightarrow> byte list" where
  "view_hash_input v = view_bytes v @ [255]"

subsection \<open>The views behave as the joined text\<close>

lemma view_bytes_text: "view_bytes v = as_bytes (view_text v)"
  by (simp add: view_bytes_def view_text_def)

lemma with_str_text: "with_str v work = work (view_text v)"
  by (simp add: with_str_def view_text_def write_to_def)

lemma view_len_text: "view_len v = str_len (view_text v)"
  by (simp add: view_len_def view_text_def)

lemma concat_drop_empty: "concat (dropWhile (\<lambda>s. s = []) xss) = concat xss"
  by (induction xss) auto

lemma slice_cmp_take_less:
  "n \<le> length xs \<Longrightarrow> n \<le> length ys \<Longrightarrow> slice_cmp (take n xs) (take n ys) = c \<Longrightarrow> c \<noteq> Equal \<Longrightarrow>
     slice_cmp (xs @ us) (ys @ vs) = c"
proof (induction n arbitrary: xs ys)
  case (Suc n)
  then obtain x xs' y ys' where "xs = x # xs'" "ys = y # ys'"
    by (cases xs; cases ys) auto
  with Suc show ?case by (cases "prim_cmp x y") (auto simp del: prim_cmp_iff)
qed simp

lemma span_cmp_concat: "span_cmp left right = slice_cmp (concat left) (concat right)"
proof (induction left right rule: span_cmp.induct)
  case (1 left right)
  define l where "l = dropWhile (\<lambda>s. s = []) left"
  define r where "r = dropWhile (\<lambda>s. s = []) right"
  have cl: "concat l = concat left" and cr: "concat r = concat right"
    by (simp_all add: l_def r_def concat_drop_empty)
  show ?case
  proof (cases "l = [] \<or> r = []")
    case True
    then have "span_cmp left right = prim_cmp (l \<noteq> []) (r \<noteq> [])"
      by (subst span_cmp.simps) (simp add: l_def [symmetric] r_def [symmetric])
    moreover have "(l = []) = (concat l = [])" "(r = []) = (concat r = [])"
      by (auto simp: l_def r_def concat_drop_empty dropWhile_eq_Nil_conv)
    then have "(l = []) = (concat left = [])" "(r = []) = (concat right = [])"
      by (simp_all only: cl cr)
    ultimately show ?thesis using True
      by (cases "concat left"; cases "concat right") (simp_all add: prim_cmp_def del: concat_eq_Nil_conv)
  next
    case False
    let ?n = "min (length (hd l)) (length (hd r))"
    let ?c = "slice_cmp (take ?n (hd l)) (take ?n (hd r))"
    have L: "concat left = hd l @ concat (tl l)" and R: "concat right = hd r @ concat (tl r)"
      using False cl cr by (metis concat.simps(2) list.collapse)+
    show ?thesis
    proof (cases "?c = Equal")
      case True
      then have same: "take ?n (hd l) = take ?n (hd r)" by simp
      have "span_cmp left right = span_cmp (drop ?n (hd l) # tl l) (drop ?n (hd r) # tl r)"
        using False True by (subst span_cmp.simps) (simp add: l_def [symmetric] r_def [symmetric] Let_def)
      also have "\<dots> = slice_cmp (drop ?n (hd l) @ concat (tl l)) (drop ?n (hd r) @ concat (tl r))"
        using "1.IH" [OF l_def r_def False refl refl] True by simp
      also have "\<dots> = slice_cmp (take ?n (hd l) @ drop ?n (hd l) @ concat (tl l))
          (take ?n (hd l) @ drop ?n (hd r) @ concat (tl r))"
        by (simp add: slice_cmp_append_same)
      finally show ?thesis by (metis L R same append_assoc append_take_drop_id)
    next
      case neq: False
      then have "span_cmp left right = ?c"
        using False by (subst span_cmp.simps) (simp add: l_def [symmetric] r_def [symmetric] Let_def)
      then show ?thesis
        using slice_cmp_take_less [of ?n "hd l" "hd r" ?c "concat (tl l)" "concat (tl r)"] neq L R by simp
    qed
  qed
qed

lemma view_cmp_text: "view_cmp v w = slice_cmp (as_bytes (view_text v)) (as_bytes (view_text w))"
  by (auto simp: view_cmp_def view_text_def slice_cmp_append_same span_cmp_concat)

subsection \<open>Substring search across the boundary\<close>

lemma occurs_append_iff:
  "occurs n (p @ s) \<longleftrightarrow> occurs n p \<or> occurs n s \<or>
     (\<exists>u v. n = u @ v \<and> u \<noteq> [] \<and> v \<noteq> [] \<and> ends_with p u \<and> starts_with s v)"
proof
  assume "occurs n (p @ s)"
  then obtain us vs where eq: "p @ s = us @ n @ vs" by (auto simp: occurs_def)
  show "occurs n p \<or> occurs n s \<or> (\<exists>u v. n = u @ v \<and> u \<noteq> [] \<and> v \<noteq> [] \<and> ends_with p u \<and> starts_with s v)"
  proof (cases "length us \<le> length p")
    case False
    then obtain zs where "us = p @ zs" using eq by (metis append_eq_append_conv_if append_take_drop_id linorder_not_le order_less_imp_le append_eq_append_conv2 append_Nil2 length_append not_add_less1)
    then show ?thesis using eq by (auto simp: occurs_def)
  next
    case True
    then obtain zs where p: "p = us @ zs" using eq by (metis append_eq_append_conv_if append_take_drop_id)
    then have zs: "zs @ s = n @ vs" using eq by simp
    show ?thesis
    proof (cases "length n \<le> length zs")
      case True
      then obtain ws where "zs = n @ ws" using zs by (metis append_eq_append_conv_if append_take_drop_id)
      then show ?thesis using p by (auto simp: occurs_def)
    next
      case False
      then obtain v where v: "n = zs @ v" "v \<noteq> []"
        using zs by (metis append_eq_append_conv_if append_self_conv append_take_drop_id le_refl nat_le_linear)
      then have "s = v @ vs" using zs by simp
      then have sv: "starts_with s v" by (auto simp: starts_with_iff)
      show ?thesis
      proof (cases "zs = []")
        case True
        then have "s = [] @ n @ vs" using \<open>s = v @ vs\<close> v(1) by simp
        then show ?thesis by (auto simp only: occurs_def)
      next
        case False
        moreover have "ends_with p zs" using p by (auto simp: ends_with_iff)
        ultimately show ?thesis using v sv by blast
      qed
    qed
  qed
next
  assume "occurs n p \<or> occurs n s \<or> (\<exists>u v. n = u @ v \<and> u \<noteq> [] \<and> v \<noteq> [] \<and> ends_with p u \<and> starts_with s v)"
  then show "occurs n (p @ s)"
    by (auto simp: occurs_def ends_with_iff starts_with_iff) (metis append_assoc)+
qed

lemma rposition_Some:
  "rposition p xs = Some i \<longleftrightarrow> i < length xs \<and> p (xs ! i) \<and> (\<forall>j. i < j \<and> j < length xs \<longrightarrow> \<not> p (xs ! j))"
proof (induction xs rule: rev_induct)
  case (snoc x xs)
  show ?case
  proof (cases "p x")
    case True
    then have "rposition p (xs @ [x]) = Some (length xs)" by (simp add: rposition_def)
    moreover have "i < length (xs @ [x]) \<and> p ((xs @ [x]) ! i) \<and>
        (\<forall>j. i < j \<and> j < length (xs @ [x]) \<longrightarrow> \<not> p ((xs @ [x]) ! j)) \<longleftrightarrow> i = length xs"
      using True by (metis Suc_leI length_append_singleton lessI linorder_neqE_nat not_less_eq nth_append_length)
    ultimately show ?thesis by auto
  next
    case False
    then have "rposition p (xs @ [x]) = rposition p xs" by (simp add: rposition_def)
    with snoc False show ?thesis by (auto simp: nth_append less_Suc_eq)
  qed
qed (simp add: rposition_def)

lemma rposition_None: "rposition p xs = None \<longleftrightarrow> (\<forall>x \<in> set xs. \<not> p x)"
  by (auto simp: rposition_def Let_def dropWhile_eq_Nil_conv)

text \<open>
  Where the prefix ends with a separator and the suffix has none, the only split of the needle
  that can straddle the boundary is after its last separator.
\<close>

lemma separator_split:
  assumes "ends_with p [slash]" "slash \<notin> set s"
  shows "(\<exists>u v. n = u @ v \<and> u \<noteq> [] \<and> v \<noteq> [] \<and> ends_with p u \<and> starts_with s v) \<longleftrightarrow>
    (case rposition (\<lambda>b. b = slash) n of None \<Rightarrow> False
     | Some i \<Rightarrow> i + 1 < length n \<and> ends_with p (take (i + 1) n) \<and> starts_with s (drop (i + 1) n))"
    (is "?split \<longleftrightarrow> ?fast")
proof
  assume ?split
  then obtain u v where n: "n = u @ v" and ne: "u \<noteq> []" "v \<noteq> []" and uv: "ends_with p u" "starts_with s v"
    by blast
  have "last u = slash"
    using assms(1) uv(1) ne(1) by (auto simp: ends_with_iff) (metis last_appendR last_snoc)
  moreover have "slash \<notin> set v" using assms(2) uv(2) by (auto simp: starts_with_iff)
  moreover have "(u @ v) ! j \<in> set v" if "length u - 1 < j" "j < length (u @ v)" for j
    using that ne(1) nth_mem [of "j - length u" v] by (cases u) (auto simp: nth_append)
  ultimately have "rposition (\<lambda>b. b = slash) n = Some (length u - 1)"
    unfolding rposition_Some n
    using ne(1) by (intro conjI allI impI) (auto simp: nth_append last_conv_nth trans_less_add1, metis)
  with n ne uv show ?fast by (cases u) auto
next
  assume ?fast
  then obtain i where "rposition (\<lambda>b. b = slash) n = Some i" "i + 1 < length n"
      "ends_with p (take (i + 1) n)" "starts_with s (drop (i + 1) n)"
    by (auto split: option.splits)
  then show ?split
    by (intro exI [of _ "take (i + 1) n"] exI [of _ "drop (i + 1) n"]) auto
qed

lemma ends_with_slash_bytes: "ends_with xs [slash] \<Longrightarrow> ends_with (as_bytes xs) [slash]"
  by (auto simp: ends_with_iff as_bytes_def utf8_char_def)

lemma straddle_in_window:
  assumes "n = u @ v" "u \<noteq> []" "v \<noteq> []" "ends_with p u" "starts_with s v"
  shows "occurs n (drop (length p - (length n - 1)) p @ take (min (length s) (length n - 1)) s)"
proof -
  have "length u \<le> length n - 1" "length v \<le> length n - 1" using assms(1-3) by (cases u; cases v; simp)+
  moreover obtain us where p: "p = us @ u" using assms(4) by (auto simp: ends_with_iff)
  moreover obtain vs where s: "s = v @ vs" using assms(5) by (auto simp: starts_with_iff)
  ultimately obtain us' vs' where "drop (length p - (length n - 1)) p = us' @ u" "take (min (length s) (length n - 1)) s = v @ vs'"
    by (auto simp: min_def)
  then show ?thesis using assms(1) by (auto simp: occurs_def)
qed

context finder
begin

lemma crosses_boundary_sound:
  assumes "crosses_boundary find_sub v needle"
  shows "occurs needle (as_bytes (view_text v))"
proof (cases "ends_with (prefix v) [slash] \<and> slash \<notin> set (as_bytes (suffix v))")
  case True
  with assms separator_split [OF ends_with_slash_bytes, of "prefix v" "as_bytes (suffix v)" needle]
  have "\<exists>u w. needle = u @ w \<and> u \<noteq> [] \<and> w \<noteq> [] \<and> ends_with (as_bytes (prefix v)) u \<and> starts_with (as_bytes (suffix v)) w"
    by (auto simp: crosses_boundary_def Let_def split: if_splits option.splits)
  then show ?thesis by (auto simp: view_text_def occurs_append_iff)
next
  case False
  let ?p = "as_bytes (prefix v)" and ?s = "as_bytes (suffix v)" and ?o = "length needle - 1"
  from False assms have "occurs needle (drop (length ?p - ?o) ?p @ take (min (length ?s) ?o) ?s)"
    using find_is_some by (auto simp: crosses_boundary_def Let_def split: if_splits)
  then obtain us vs where "drop (length ?p - ?o) ?p @ take (min (length ?s) ?o) ?s = us @ needle @ vs"
    by (auto simp: occurs_def)
  moreover have "?p @ ?s = take (length ?p - ?o) ?p @ (drop (length ?p - ?o) ?p @ take (min (length ?s) ?o) ?s) @
      drop (min (length ?s) ?o) ?s" by simp
  ultimately have "?p @ ?s = (take (length ?p - ?o) ?p @ us) @ needle @ (vs @ drop (min (length ?s) ?o) ?s)"
    by (simp only: append_assoc)
  then show ?thesis unfolding view_text_def as_bytes_append occurs_def by blast
qed

lemma crosses_boundary_complete:
  assumes "needle = u @ w" "u \<noteq> []" "w \<noteq> []"
    and "ends_with (as_bytes (prefix v)) u" "starts_with (as_bytes (suffix v)) w"
  shows "crosses_boundary find_sub v needle"
proof -
  have ne: "length needle - 1 \<noteq> 0" "prefix v \<noteq> []" "suffix v \<noteq> []"
    using assms by (cases u; cases w; auto simp: ends_with_def starts_with_def)+
  show ?thesis
  proof (cases "ends_with (prefix v) [slash] \<and> slash \<notin> set (as_bytes (suffix v))")
    case True
    then show ?thesis
      using ne assms separator_split [OF ends_with_slash_bytes, of "prefix v" "as_bytes (suffix v)" needle]
      by (auto simp: crosses_boundary_def Let_def split: option.splits)
  next
    case False
    then show ?thesis using ne straddle_in_window [OF assms] find_is_some
      by (auto simp: crosses_boundary_def Let_def simp del: not_None_eq)
  qed
qed

lemma view_contains_text: "view_contains find_sub v needle \<longleftrightarrow> occurs needle (as_bytes (view_text v))"
proof
  assume "view_contains find_sub v needle"
  then show "occurs needle (as_bytes (view_text v))"
    using crosses_boundary_sound find_is_some
    by (auto simp: view_contains_def view_text_def occurs_append_iff)
next
  assume "occurs needle (as_bytes (view_text v))"
  then show "view_contains find_sub v needle"
    using crosses_boundary_complete find_is_some
    by (auto simp: view_contains_def view_text_def occurs_append_iff)
qed

end

lemma view_eq_text: "view_eq v w \<longleftrightarrow> view_text v = view_text w"
  by (auto simp: view_eq_def view_cmp_text view_len_text)

lemma view_eq_str_text: "view_eq_str v s \<longleftrightarrow> view_text v = s"
proof
  assume "view_eq_str v s"
  then have "as_bytes s = as_bytes (prefix v) @ as_bytes (suffix v)"
    by (auto simp: view_eq_str_def starts_with_iff str_len_def)
  then have "as_bytes s = as_bytes (view_text v)" by (simp add: view_text_def)
  then show "view_text v = s" by simp
qed (auto simp: view_eq_str_def view_text_def view_len_def starts_with_iff str_len_def)

lemma view_hash_input_text: "view_text v = view_text w \<Longrightarrow> view_hash_input v = view_hash_input w"
  by (simp add: view_hash_input_def view_bytes_text)

section \<open>Properties\<close>

text \<open>
  C22: substring search in a split text, done on the two halves and on a window around the boundary,
  finds the needle exactly when the joined text contains it. The search of one piece is the
  substring finder's; its documented contract is the hypothesis.
\<close>

theorem view_contains_joined:
  assumes "finder find_sub"
  shows "view_contains find_sub v needle \<longleftrightarrow> occurs needle (as_bytes (view_text v))"
  using finder.view_contains_text [OF assms] .

theorem view_contains_joined_witness:
  "view_contains naive_find \<lparr>prefix = lit ''a/b'', suffix = lit ''cd''\<rparr> (lit ''/bc'') \<longleftrightarrow>
     occurs (lit ''/bc'') (as_bytes (lit ''a/bcd''))"
  using view_contains_joined [OF naive.finder_axioms, of "\<lparr>prefix = lit ''a/b'', suffix = lit ''cd''\<rparr>" "lit ''/bc''"]
  by (simp add: view_text_def lit_def)

text \<open>Comparison, equality and hash input of split texts depend on the joined text only: comparison
  is the byte order of the joined texts, which is also the order of their characters, equality is
  equality, and equal texts feed equal bytes to the hash.\<close>

lemma view_relations_joined:
  "view_cmp v w = slice_cmp (as_bytes (view_text v)) (as_bytes (view_text w)) \<and>
   view_cmp v w = slice_cmp (view_text v) (view_text w) \<and>
   (view_eq v w \<longleftrightarrow> view_text v = view_text w) \<and>
   (view_text v = view_text w \<longrightarrow> view_hash_input v = view_hash_input w)"
  using view_hash_input_text [of v w] by (simp only: view_cmp_text as_bytes_cmp view_eq_text) simp

end
