(* ===== verification/Float64.thy ===== *)
theory Float64
  imports Complex_Main "HOL-Library.Log_Nat" Prelude
begin

text \<open>
  \<open>f64\<close> as the query language and the numeric columns use it: comparisons, minimum and maximum, the
  conversions from 64-bit integers, and correctly rounded results (round to nearest, ties to even,
  with subnormals and overflow). A finite value is a rational; the sign of zero is not kept, since
  nothing in the code divides or tells the zeros apart. The theory shows that the conversion from
  the integers is monotone, which the searches for rank boundaries rely on.
\<close>

datatype f64 = NaN | NegInf | Fin rat | PosInf

fun f64_lt :: "f64 \<Rightarrow> f64 \<Rightarrow> bool" where
  "f64_lt NaN _ = False"
| "f64_lt _ NaN = False"
| "f64_lt NegInf y = (y \<noteq> NegInf)"
| "f64_lt PosInf _ = False"
| "f64_lt (Fin x) (Fin y) = (x < y)"
| "f64_lt (Fin _) NegInf = False"
| "f64_lt (Fin _) PosInf = True"

fun f64_le :: "f64 \<Rightarrow> f64 \<Rightarrow> bool" where
  "f64_le NaN _ = False"
| "f64_le _ NaN = False"
| "f64_le NegInf _ = True"
| "f64_le _ PosInf = True"
| "f64_le (Fin x) (Fin y) = (x \<le> y)"
| "f64_le (Fin _) NegInf = False"
| "f64_le PosInf _ = False"

definition is_nan :: "f64 \<Rightarrow> bool" where
  "is_nan x \<longleftrightarrow> x = NaN"

definition is_finite :: "f64 \<Rightarrow> bool" where
  "is_finite x \<longleftrightarrow> (case x of Fin _ \<Rightarrow> True | _ \<Rightarrow> False)"

text \<open>\<open>f64::min\<close> and \<open>f64::max\<close> return the other argument when one is not a number.\<close>

definition f64_min :: "f64 \<Rightarrow> f64 \<Rightarrow> f64" where
  "f64_min x y = (if is_nan x then y else if is_nan y then x else if f64_lt y x then y else x)"

definition f64_max :: "f64 \<Rightarrow> f64 \<Rightarrow> f64" where
  "f64_max x y = (if is_nan x then y else if is_nan y then x else if f64_lt x y then y else x)"

section \<open>Rounding\<close>

definition round_half_even :: "rat \<Rightarrow> int" where
  "round_half_even x =
     (let q = \<lfloor>x\<rfloor>; r = x - of_int q
      in if r > 1 / 2 \<or> r = 1 / 2 \<and> odd q then q + 1 else q)"

text \<open>The exponent of a positive rational: the greatest \<open>e\<close> with \<open>2 powi e \<le> x\<close>.\<close>

definition ilog2_rat :: "rat \<Rightarrow> int" where
  "ilog2_rat x =
     (let (p, q) = quotient_of x; e = bitlen p - bitlen q
      in if 2 powi e \<le> x then e else e - 1)"

definition round_pos :: "rat \<Rightarrow> f64" where
  "round_pos x =
     (let u = 2 powi (max (ilog2_rat x) (-1022) - 52);
          v = of_int (round_half_even (x / u)) * u
      in if 2 ^ 1024 \<le> v then PosInf else Fin v)"

fun f64_neg :: "f64 \<Rightarrow> f64" where
  "f64_neg NaN = NaN"
| "f64_neg NegInf = PosInf"
| "f64_neg (Fin x) = Fin (- x)"
| "f64_neg PosInf = NegInf"

definition round_f64 :: "rat \<Rightarrow> f64" where
  "round_f64 x = (if x = 0 then Fin 0 else if 0 < x then round_pos x else f64_neg (round_pos (- x)))"

text \<open>The conversions \<open>value as f64\<close> of \<open>u64\<close> and \<open>i64\<close>.\<close>

definition f64_of_int :: "int \<Rightarrow> f64" where
  "f64_of_int n = round_f64 (of_int n)"

text \<open>Products and sums.\<close>

definition f64_sign_inf :: "bool \<Rightarrow> f64" where
  "f64_sign_inf negative = (if negative then NegInf else PosInf)"

fun f64_mul :: "f64 \<Rightarrow> f64 \<Rightarrow> f64" where
  "f64_mul NaN _ = NaN"
| "f64_mul _ NaN = NaN"
| "f64_mul (Fin x) (Fin y) = round_f64 (x * y)"
| "f64_mul (Fin x) y = (if x = 0 then NaN else f64_sign_inf ((x < 0) \<noteq> (y = NegInf)))"
| "f64_mul x (Fin y) = (if y = 0 then NaN else f64_sign_inf ((y < 0) \<noteq> (x = NegInf)))"
| "f64_mul x y = f64_sign_inf (x \<noteq> y)"

fun f64_add :: "f64 \<Rightarrow> f64 \<Rightarrow> f64" where
  "f64_add NaN _ = NaN"
| "f64_add _ NaN = NaN"
| "f64_add (Fin x) (Fin y) = round_f64 (x + y)"
| "f64_add (Fin _) y = y"
| "f64_add x (Fin _) = x"
| "f64_add x y = (if x = y then x else NaN)"

section \<open>Rounding is monotone\<close>

lemma round_half_even_mono: "x \<le> y \<Longrightarrow> round_half_even x \<le> round_half_even y"
proof -
  assume le: "x \<le> y"
  then have f: "\<lfloor>x\<rfloor> \<le> \<lfloor>y\<rfloor>" by (rule floor_mono)
  show ?thesis
  proof (cases "\<lfloor>x\<rfloor> = \<lfloor>y\<rfloor>")
    case True
    then show ?thesis using le by (auto simp: round_half_even_def Let_def)
  next
    case False
    then show ?thesis using f by (auto simp: round_half_even_def Let_def)
  qed
qed

lemma round_half_even_of_int [simp]: "round_half_even (of_int n) = n"
  by (simp add: round_half_even_def)

lemma powi_mono: "e \<le> f \<Longrightarrow> (2 :: rat) powi e \<le> 2 powi f"
  by (simp add: power_int_increasing)

lemma powi_pos: "(0 :: rat) < 2 powi e"
  by (simp add: zero_less_power_int)

lemma powi_add: "(2 :: rat) powi e * 2 powi f = 2 powi (e + f)"
  by (simp add: power_int_add)

lemma ilog2_rat_bounds:
  assumes "0 < x"
  shows "2 powi (ilog2_rat x) \<le> x" "x < 2 powi (ilog2_rat x + 1)"
proof -
  obtain p q where pq: "quotient_of x = (p, q)" by fastforce
  have q: "0 < q" and x: "x = of_int p / of_int q" using quotient_of_denom_pos [OF pq] quotient_of_div [OF pq] by simp_all
  then have p: "0 < p" using assms by (simp add: zero_less_divide_iff)
  let ?e = "bitlen p - bitlen q"
  have pw: "(2 :: rat) powi (bitlen n - 1) \<le> of_int n" "of_int n < (2 :: rat) powi (bitlen n)" if "0 < n" for n
  proof -
    have "1 \<le> bitlen n" using that bitlen_eq_zero_iff [of n] bitlen_nonneg [of n] by linarith
    then have "(2 :: rat) powi (bitlen n - 1) = of_int (2 ^ nat (bitlen n - 1))" "(2 :: rat) powi (bitlen n) = of_int (2 ^ nat (bitlen n))"
      by (simp_all add: power_int_def)
    with bitlen_bounds [OF that] show "(2 :: rat) powi (bitlen n - 1) \<le> of_int n" "of_int n < (2 :: rat) powi (bitlen n)"
      by (simp_all only: of_int_le_iff of_int_less_iff)
  qed
  have q': "(0 :: rat) < of_int q" using q by simp
  have "(2 :: rat) powi (?e - 1) * of_int q \<le> 2 powi (?e - 1) * 2 powi (bitlen q)"
    using pw(2) [OF q] powi_pos [of "?e - 1"] by (intro mult_left_mono) simp_all
  also have "\<dots> = 2 powi (bitlen p - 1)" by (simp add: power_int_add [symmetric])
  also have "\<dots> \<le> of_int p" by (rule pw(1) [OF p])
  finally have lo: "2 powi (?e - 1) \<le> x" using q' by (simp add: x pos_le_divide_eq)
  have "of_int p < (2 :: rat) powi (bitlen p)" by (rule pw(2) [OF p])
  also have "(2 :: rat) powi (bitlen p) = 2 powi (?e + 1) * 2 powi (bitlen q - 1)" by (simp add: powi_add)
  also have "\<dots> \<le> 2 powi (?e + 1) * of_int q"
    using pw(1) [OF q] powi_pos [of "?e + 1"] by (intro mult_left_mono) simp_all
  finally have hi: "x < 2 powi (?e + 1)" using q' by (simp add: x pos_divide_less_eq)
  show "2 powi (ilog2_rat x) \<le> x" "x < 2 powi (ilog2_rat x + 1)"
    using lo hi by (auto simp: ilog2_rat_def pq Let_def)
qed

lemma ilog2_rat_mono:
  assumes "0 < x" "x \<le> y"
  shows "ilog2_rat x \<le> ilog2_rat y"
proof (rule ccontr)
  assume "\<not> ilog2_rat x \<le> ilog2_rat y"
  then have "(2 :: rat) powi (ilog2_rat y + 1) \<le> 2 powi (ilog2_rat x)" by (intro powi_mono) simp
  then show False
    using ilog2_rat_bounds(1) [OF assms(1)] ilog2_rat_bounds(2) [of y] assms by linarith
qed

text \<open>The rounded value before the overflow test.\<close>

definition ulp :: "rat \<Rightarrow> rat" where
  "ulp x = 2 powi (max (ilog2_rat x) (-1022) - 52)"

definition round_raw :: "rat \<Rightarrow> rat" where
  "round_raw x = of_int (round_half_even (x / ulp x)) * ulp x"

lemma round_pos_raw: "round_pos x = (if 2 ^ 1024 \<le> round_raw x then PosInf else Fin (round_raw x))"
  by (simp add: round_pos_def round_raw_def ulp_def Let_def)

lemma ulp_pos: "0 < ulp x"
  by (simp add: ulp_def powi_pos)

lemma round_raw_le:
  assumes "0 < x" "max (ilog2_rat x) (-1022) = e"
  shows "round_raw x \<le> 2 powi (e + 1)"
proof -
  have "x < 2 powi (ilog2_rat x + 1)" by (rule ilog2_rat_bounds(2) [OF assms(1)])
  also have "\<dots> \<le> 2 powi (e + 1)" using assms(2) by (intro powi_mono) simp
  finally have "x / ulp x \<le> 2 powi (e + 1) / ulp x" using ulp_pos [of x] by (intro divide_right_mono) simp_all
  also have "2 powi (e + 1) / ulp x = 2 powi 53"
    by (simp add: ulp_def assms(2) power_int_diff [symmetric])
  also have "(2 :: rat) powi 53 = of_int (2 ^ 53)" by (simp add: power_int_def)
  finally have "round_half_even (x / ulp x) \<le> 2 ^ 53"
    using round_half_even_mono [of "x / ulp x" "of_int (2 ^ 53)"] by (simp only: round_half_even_of_int)
  then have "(of_int (round_half_even (x / ulp x)) :: rat) \<le> of_int (2 ^ 53)" by (simp only: of_int_le_iff)
  then have "round_raw x \<le> of_int (2 ^ 53) * ulp x"
    unfolding round_raw_def using ulp_pos [of x] by (intro mult_right_mono) simp_all
  also have "of_int (2 ^ 53) * ulp x = 2 powi 53 * 2 powi (e - 52)" by (simp add: ulp_def assms(2) power_int_def)
  also have "\<dots> = 2 powi (e + 1)" by (simp only: powi_add) (simp add: add.commute)
  finally show ?thesis .
qed

lemma round_raw_ge:
  assumes "0 < x" "- 1022 \<le> ilog2_rat x"
  shows "2 powi (ilog2_rat x) \<le> round_raw x"
proof -
  let ?e = "ilog2_rat x"
  have u: "ulp x = 2 powi (?e - 52)" using assms(2) by (simp add: ulp_def)
  have "of_int (2 ^ 52) = (2 :: rat) powi 52" by (simp add: power_int_def)
  also have "\<dots> = 2 powi ?e / ulp x" by (simp add: u power_int_diff [symmetric])
  also have "\<dots> \<le> x / ulp x"
    using ilog2_rat_bounds(1) [OF assms(1)] ulp_pos [of x] by (intro divide_right_mono) simp_all
  finally have "2 ^ 52 \<le> round_half_even (x / ulp x)"
    using round_half_even_mono [of "of_int (2 ^ 52)" "x / ulp x"] by (simp only: round_half_even_of_int)
  then have "(of_int (2 ^ 52) :: rat) \<le> of_int (round_half_even (x / ulp x))" by (simp only: of_int_le_iff)
  then have "of_int (2 ^ 52) * ulp x \<le> round_raw x"
    unfolding round_raw_def using ulp_pos [of x] by (intro mult_right_mono) simp_all
  moreover have "of_int (2 ^ 52) * ulp x = 2 powi 52 * 2 powi (?e - 52)" by (simp add: u power_int_def)
  moreover have "(2 :: rat) powi 52 * 2 powi (?e - 52) = 2 powi ?e" by (simp only: powi_add) simp
  ultimately show ?thesis by simp
qed

lemma round_raw_mono:
  assumes "0 < x" "x \<le> y"
  shows "round_raw x \<le> round_raw y"
proof (cases "max (ilog2_rat x) (-1022) = max (ilog2_rat y) (-1022)")
  case True
  then have "ulp x = ulp y" by (simp add: ulp_def)
  moreover have "x / ulp x \<le> y / ulp x" using assms(2) ulp_pos [of x] by (intro divide_right_mono) simp_all
  ultimately have "(of_int (round_half_even (x / ulp x)) :: rat) \<le> of_int (round_half_even (y / ulp y))"
    using round_half_even_mono by simp
  then show ?thesis
    unfolding round_raw_def \<open>ulp x = ulp y\<close> using ulp_pos [of y] by (intro mult_right_mono) simp_all
next
  case False
  then have e: "max (ilog2_rat x) (-1022) + 1 \<le> ilog2_rat y" "- 1022 \<le> ilog2_rat y"
    using ilog2_rat_mono [OF assms] by auto
  have "round_raw x \<le> 2 powi (max (ilog2_rat x) (-1022) + 1)" by (rule round_raw_le [OF assms(1) refl])
  also have "\<dots> \<le> 2 powi (ilog2_rat y)" by (rule powi_mono [OF e(1)])
  also have "\<dots> \<le> round_raw y" using assms e(2) by (intro round_raw_ge) simp_all
  finally show ?thesis .
qed

lemma round_raw_nonneg: "0 < x \<Longrightarrow> 0 \<le> round_raw x"
proof -
  assume "0 < x"
  then have "0 \<le> x / ulp x" using ulp_pos [of x] by simp
  then have "0 \<le> round_half_even (x / ulp x)" using round_half_even_mono [of 0 "x / ulp x"] round_half_even_of_int [of 0]
    by simp
  then show ?thesis using ulp_pos [of x] by (simp add: round_raw_def)
qed

lemma round_pos_mono: "0 < x \<Longrightarrow> x \<le> y \<Longrightarrow> f64_le (round_pos x) (round_pos y)"
  using round_raw_mono [of x y] by (auto simp: round_pos_raw)

lemma f64_le_neg: "f64_le (f64_neg x) (f64_neg y) \<longleftrightarrow> f64_le y x"
  by (cases x; cases y) auto

lemma round_pos_nonneg: "0 < x \<Longrightarrow> f64_le (Fin 0) (round_pos x)"
  using round_raw_nonneg [of x] by (auto simp: round_pos_raw)

lemma f64_le_trans: "f64_le x y \<Longrightarrow> f64_le y z \<Longrightarrow> f64_le x z"
  by (cases x; cases y; cases z) auto

lemma round_neg_nonpos: "0 < x \<Longrightarrow> f64_le (f64_neg (round_pos x)) (Fin 0)"
  using f64_le_neg [of "round_pos x" "Fin 0"] round_pos_nonneg [of x] by simp

lemma round_f64_mono: "x \<le> y \<Longrightarrow> f64_le (round_f64 x) (round_f64 y)"
proof (cases "0 < x")
  case True
  assume "x \<le> y"
  with True show ?thesis by (simp add: round_f64_def round_pos_mono)
next
  case False
  assume le: "x \<le> y"
  show ?thesis
  proof (cases "y < 0")
    case True
    then show ?thesis using le round_pos_mono [of "- y" "- x"] by (simp add: round_f64_def f64_le_neg)
  next
    case ny: False
    have "f64_le (round_f64 x) (Fin 0)" using False round_neg_nonpos [of "- x"] by (auto simp: round_f64_def)
    moreover have "f64_le (Fin 0) (round_f64 y)" using ny round_pos_nonneg [of y] by (auto simp: round_f64_def)
    ultimately show ?thesis by (rule f64_le_trans)
  qed
qed

lemma f64_of_int_mono: "m \<le> n \<Longrightarrow> f64_le (f64_of_int m) (f64_of_int n)"
  by (simp add: f64_of_int_def round_f64_mono)

text \<open>A converted integer is a number, so the comparisons on it are total.\<close>

lemma f64_of_int_not_nan: "f64_of_int n \<noteq> NaN"
  using f64_of_int_mono [of n n] by (cases "f64_of_int n") auto

lemma f64_not_le: "x \<noteq> NaN \<Longrightarrow> y \<noteq> NaN \<Longrightarrow> \<not> f64_le x y \<longleftrightarrow> f64_lt y x"
  by (cases x; cases y) auto

lemma f64_lt_le_trans: "f64_lt x y \<Longrightarrow> f64_le y z \<Longrightarrow> f64_lt x z"
  by (cases x; cases y; cases z) auto

lemma f64_le_lt_trans: "f64_le x y \<Longrightarrow> f64_lt y z \<Longrightarrow> f64_lt x z"
  by (cases x; cases y; cases z) auto

end
