(* ===== verification/File_Entry.thy ===== *)
theory File_Entry
  imports Text Float64
begin

text \<open>
  The rows every component reads: the accessors of the trait \<open>FileEntry\<close>
  (\<open>core/src/entry_table.rs\<close>) as a record, and JSON values (\<open>serde_json::Value\<close>) with the
  accessors the code uses. Integers of the file system are \<open>int\<close> and \<open>nat\<close>; the BSD flags are a
  32-bit word because the code masks them.
\<close>

datatype json =
  JNull
| JBool bool
| JNumber f64
| JString str
| JArray "json list"
| JObject "(str \<times> json) list"

fun json_get :: "json \<Rightarrow> str \<Rightarrow> json option" where
  "json_get (JObject kvs) k = map_of kvs k"
| "json_get _ k = None"

text \<open>\<open>value["key"]\<close>: null when the key is missing or the value is no object.\<close>

definition json_index :: "json \<Rightarrow> str \<Rightarrow> json" where
  "json_index v k = (case json_get v k of Some x \<Rightarrow> x | None \<Rightarrow> JNull)"

fun as_str :: "json \<Rightarrow> str option" where
  "as_str (JString s) = Some s"
| "as_str _ = None"

fun as_bool :: "json \<Rightarrow> bool option" where
  "as_bool (JBool b) = Some b"
| "as_bool _ = None"

fun as_f64 :: "json \<Rightarrow> f64 option" where
  "as_f64 (JNumber x) = Some x"
| "as_f64 _ = None"

fun as_array :: "json \<Rightarrow> json list option" where
  "as_array (JArray xs) = Some xs"
| "as_array _ = None"

record file_entry =
  id :: int
  size :: nat
  modified :: int
  created :: int
  changed :: int
  modified_ns :: int
  changed_ns :: int
  file_id :: nat
  parent_id :: nat
  flags :: "32 word"
  path :: text_view
  name :: str
  folded_name :: str
  folded_path :: text_view
  search_name :: str
  search_path :: text_view
  parent :: str
  extension :: str
  folded_extension :: str
  volume_id :: str
  is_dir :: bool
  is_symlink :: bool
  content_indexed :: bool
  properties :: json

text \<open>\<open>enum Field\<close> of \<open>query.rs\<close>, and the trait's default method \<open>text\<close>.\<close>

datatype field = Name | Path | Parent

fun entry_text :: "file_entry \<Rightarrow> field \<Rightarrow> text_view" where
  "entry_text f Name = view_of_str (name f)"
| "entry_text f Path = path f"
| "entry_text f Parent = view_of_str (parent f)"

text \<open>\<open>core/src/file_identity.rs\<close>: the identity of a file for verified reads.\<close>

record file_identity =
  device_id :: nat
  fi_file_id :: nat
  fi_size :: nat
  fi_modified :: int
  fi_modified_nsec :: int
  fi_changed :: int
  fi_changed_nsec :: int

definition fi_modified_ns :: "file_identity \<Rightarrow> int" where
  "fi_modified_ns i = fi_modified i * 1000000000 + fi_modified_nsec i"

definition fi_changed_ns :: "file_identity \<Rightarrow> int" where
  "fi_changed_ns i = fi_changed i * 1000000000 + fi_changed_nsec i"

definition matches_entry :: "file_identity \<Rightarrow> file_entry \<Rightarrow> bool" where
  "matches_entry i e \<longleftrightarrow> fi_file_id i = file_id e \<and> fi_size i = size e \<and>
     fi_modified_ns i = modified_ns e \<and> fi_changed_ns i = changed_ns e"

text \<open>
  With nanoseconds in their range the combined stamp determines seconds and nanoseconds, so two
  identities of one device that match one entry are equal.
\<close>

definition nsec_ok :: "file_identity \<Rightarrow> bool" where
  "nsec_ok i \<longleftrightarrow> 0 \<le> fi_modified_nsec i \<and> fi_modified_nsec i < 1000000000 \<and>
     0 \<le> fi_changed_nsec i \<and> fi_changed_nsec i < 1000000000"

lemma stamp_unique:
  fixes s n s' n' :: int
  assumes "s * 1000000000 + n = s' * 1000000000 + n'" "0 \<le> n" "n < 1000000000" "0 \<le> n'" "n' < 1000000000"
  shows "s = s' \<and> n = n'"
proof -
  have "s = (s * 1000000000 + n) div 1000000000" "s' = (s' * 1000000000 + n') div 1000000000"
    using assms(2-5) by (simp_all add: div_mult_self3)
  then have "s = s'" using assms(1) by metis
  then show ?thesis using assms(1) by simp
qed

lemma matches_entry_unique:
  assumes "matches_entry i e" "matches_entry j e" "nsec_ok i" "nsec_ok j" "device_id i = device_id j"
  shows "i = j"
proof -
  have "fi_modified i = fi_modified j \<and> fi_modified_nsec i = fi_modified_nsec j"
    using assms by (intro stamp_unique) (auto simp: matches_entry_def fi_modified_ns_def nsec_ok_def)
  moreover have "fi_changed i = fi_changed j \<and> fi_changed_nsec i = fi_changed_nsec j"
    using assms by (intro stamp_unique) (auto simp: matches_entry_def fi_changed_ns_def nsec_ok_def)
  ultimately show ?thesis using assms by (simp add: matches_entry_def)
qed

text \<open>A row for the witnesses of the theorems.\<close>

definition sample_entry :: file_entry where
  "sample_entry = \<lparr>id = 7, size = 3, modified = 0, created = 0, changed = 0, modified_ns = 0, changed_ns = 0,
     file_id = 1, parent_id = 0, flags = 0, path = view_of_str (lit ''/a''), name = lit ''a'',
     folded_name = lit ''a'', folded_path = view_of_str (lit ''/a''), search_name = lit ''a'',
     search_path = view_of_str (lit ''/a''), parent = lit ''/'', extension = [], folded_extension = [],
     volume_id = lit ''v'', is_dir = False, is_symlink = False, content_indexed = False, properties = JNull\<rparr>"

end
