(* ===== verification/Query_Model.thy ===== *)
theory Query_Model
  imports File_Entry
begin

text \<open>
  The data of \<open>core/src/query.rs\<close>: text normalisation, the query and term types, the match options and
  the vocabulary of keywords, modifiers and scopes.

  Code of other crates is an argument of the definitions, gathered in the record \<open>crates\<close>: Unicode
  normalisation and case folding (unicode-normalization, icu\_casemap), the substring search of memchr,
  PCRE2, chrono's calendar with the local time zone, and the two tables of the standard library whose
  contents do not matter here (\<open>char::is_alphanumeric\<close> and the last digits of \<open>10\<^sup>-\<^sup>d\<close> computed by \<open>powi\<close>).
  A compiled pattern is its source with the case flag, which is all that the build depends on. A
  \<open>DateTime<Local>\<close> is an integer that only chrono's functions interpret; a \<open>NaiveDate\<close> is a day number,
  so that adding days is addition.
\<close>

section \<open>Other crates\<close>

datatype regex = Regex (regex_source: str) (regex_caseless: bool)

record crates =
  c_nfc :: "str \<Rightarrow> str"
  c_nfd :: "str \<Rightarrow> str"
  c_fold_string :: "str \<Rightarrow> str"
  c_combining_mark :: "nat \<Rightarrow> bool"
  c_alphanumeric :: "nat \<Rightarrow> bool"
  c_find :: "byte list \<Rightarrow> byte list \<Rightarrow> nat option"
  c_regex_error :: "regex \<Rightarrow> string option"
  c_regex_match :: "regex \<Rightarrow> byte list \<Rightarrow> bool result"
  c_powi10 :: "int \<Rightarrow> f64"
  c_date_naive :: "int \<Rightarrow> int"
  c_timestamp :: "int \<Rightarrow> int"
  c_sub_seconds :: "int \<Rightarrow> int \<Rightarrow> int option"
  c_sub_months :: "int \<Rightarrow> nat \<Rightarrow> int option"
  c_from_ymd :: "int \<Rightarrow> int \<Rightarrow> int \<Rightarrow> int option"
  c_year :: "int \<Rightarrow> int"
  c_month :: "int \<Rightarrow> int"
  c_weekday :: "int \<Rightarrow> nat"
  c_parse_date :: "str \<Rightarrow> int option"
  c_succ_date :: "int \<Rightarrow> int option"
  c_local_earliest :: "int \<Rightarrow> nat \<Rightarrow> int option"
  c_first_weekday :: nat

text \<open>Error texts with embedded text hold its UTF-8 bytes.\<close>

definition text_chars :: "str \<Rightarrow> string" where
  "text_chars s = map char_of (as_bytes s)"

definition quoted_chars :: "str \<Rightarrow> string" where
  "quoted_chars s = CHR 0x27 # text_chars s @ [CHR 0x27]"

section \<open>Normalisation\<close>

definition strip_marks :: "crates \<Rightarrow> str \<Rightarrow> str" where
  "strip_marks cr s = filter (\<lambda>c. \<not> c_combining_mark cr c) (c_nfd cr s)"

definition fold_text :: "crates \<Rightarrow> str \<Rightarrow> str" where
  "fold_text cr s = (if is_ascii s then to_ascii_lowercase s else c_fold_string cr (c_nfc cr s))"

definition fold_search :: "crates \<Rightarrow> str \<Rightarrow> str" where
  "fold_search cr s = (if is_ascii s then to_ascii_lowercase s else fold_text cr (strip_marks cr s))"

datatype path_text_mode = Search | Folded | Sensitive bool

fun mode_normalize :: "crates \<Rightarrow> path_text_mode \<Rightarrow> str \<Rightarrow> str" where
  "mode_normalize cr (Sensitive diacritics) s =
     (if \<not> is_ascii s then (if diacritics then c_nfc cr s else strip_marks cr s) else s)"
| "mode_normalize cr _ s = s"

section \<open>Queries\<close>

datatype text_target = TField field | TContent | TProperty str | TExtension

record match_options =
  o_now :: int
  o_field :: field
  o_sensitive :: bool
  o_regex :: bool
  o_diacritics :: bool
  o_prefix :: bool
  o_suffix :: bool
  o_whole :: bool
  o_start :: bool
  o_end :: bool
  o_wildcards :: bool
  o_target :: "text_target option"
  o_dot_all :: bool
  o_multiline :: bool

definition default_options :: "int \<Rightarrow> match_options" where
  "default_options now = \<lparr>o_now = now, o_field = Name, o_sensitive = False, o_regex = False,
     o_diacritics = False, o_prefix = False, o_suffix = False, o_whole = False, o_start = False,
     o_end = False, o_wildcards = True, o_target = None, o_dot_all = False, o_multiline = False\<rparr>"

text \<open>
  The substring searchers that the source keeps beside a needle are built from the needle's bytes and
  are left out: the search takes the needle.
\<close>

record text_matcher =
  m_needle :: str
  m_candidate_needle :: str
  m_regex :: "regex option"
  m_options :: match_options

record resolved_predicate =
  rp_yes :: "nat set"
  rp_unknown :: "nat set"

datatype query =
  QAll
| QAnd "query list"
| QOr "query list"
| QNot query
| QTerm query_term
and query_term =
  Text field str bool
| Pattern field regex
| Related bool query
| Resolved resolved_predicate
| Extension "str list"
| IsDir bool
| IsSymlink
| Hidden
| Flags "32 word"
| Unknown str bool
| Number str f64 f64 bool bool bool
| Content str bool
| PropertyText str str
| Matched text_target text_matcher

section \<open>The vocabulary\<close>

definition keyword :: "str \<Rightarrow> str" where
  "keyword s = filter (\<lambda>c. c \<noteq> 45) (to_ascii_lowercase s)"

definition text_property :: "str \<Rightarrow> bool" where
  "text_property key \<longleftrightarrow> key \<in> lit ` {''artist'', ''album'', ''title'', ''kind'', ''author'', ''subject'',
     ''keywords'', ''creator'', ''producer'', ''genre'', ''copyright'', ''composer'', ''cameramake'', ''cameramodel''}"

definition numeric_property :: "str \<Rightarrow> bool" where
  "numeric_property key \<longleftrightarrow> key \<in> lit ` {''width'', ''height'', ''duration'', ''pages'', ''orientation'',
     ''iso'', ''focallength'', ''aperture'', ''exposuretime''}"

text \<open>\<open>relations::is_metric\<close>.\<close>

definition is_metric :: "str \<Rightarrow> bool" where
  "is_metric f \<longleftrightarrow> f \<in> lit ` {''foldersize'', ''childcount'', ''childfilecount'', ''childfoldercount'',
     ''descendantcount'', ''descendantfilecount'', ''descendantfoldercount''}"

definition relation_kind :: "str \<Rightarrow> (bool \<times> bool option) option" where
  "relation_kind key =
     (if key = lit ''child'' then Some (False, None)
      else if key = lit ''childfile'' then Some (False, Some False)
      else if key = lit ''childfolder'' then Some (False, Some True)
      else if key = lit ''descendant'' then Some (True, None)
      else if key = lit ''descendantfile'' then Some (True, Some False)
      else if key = lit ''descendantfolder'' then Some (True, Some True)
      else None)"

text \<open>\<open>modifier\<close> returns the changed options, or \<open>None\<close> when the key is none of the modifiers.\<close>

definition one_of :: "str \<Rightarrow> string list \<Rightarrow> bool" where
  "one_of key names \<longleftrightarrow> list_ex (\<lambda>n. key = lit n) names"

definition modifier :: "match_options \<Rightarrow> str \<Rightarrow> match_options option" where
  "modifier opts key =
     (let k = keyword key in
      if one_of k [''case''] then Some (opts\<lparr>o_sensitive := True\<rparr>)
      else if one_of k [''nocase''] then Some (opts\<lparr>o_sensitive := False\<rparr>)
      else if one_of k [''path''] then Some (opts\<lparr>o_field := Path\<rparr>)
      else if one_of k [''name'', ''nopath''] then Some (opts\<lparr>o_field := Name\<rparr>)
      else if one_of k [''parent''] then Some (opts\<lparr>o_field := Parent, o_whole := True\<rparr>)
      else if one_of k [''pathpart'', ''location'', ''loc''] then Some (opts\<lparr>o_field := Parent\<rparr>)
      else if one_of k [''regex''] then Some (opts\<lparr>o_regex := True\<rparr>)
      else if one_of k [''noregex''] then Some (opts\<lparr>o_regex := False\<rparr>)
      else if one_of k [''diacritics'', ''diac''] then Some (opts\<lparr>o_diacritics := True\<rparr>)
      else if one_of k [''nodiacritics'', ''nodiac''] then Some (opts\<lparr>o_diacritics := False\<rparr>)
      else if one_of k [''wholewords'', ''ww''] then Some (opts\<lparr>o_prefix := True, o_suffix := True\<rparr>)
      else if one_of k [''nowholewords'', ''noww''] then Some (opts\<lparr>o_prefix := False, o_suffix := False\<rparr>)
      else if one_of k [''prefix''] then Some (opts\<lparr>o_prefix := True\<rparr>)
      else if one_of k [''noprefix''] then Some (opts\<lparr>o_prefix := False\<rparr>)
      else if one_of k [''suffix''] then Some (opts\<lparr>o_suffix := True\<rparr>)
      else if one_of k [''nosuffix''] then Some (opts\<lparr>o_suffix := False\<rparr>)
      else if one_of k [''whole'', ''wholefilename'', ''wfn'', ''entire''] then Some (opts\<lparr>o_whole := True\<rparr>)
      else if one_of k [''nowhole'', ''nowholefilename'', ''nowfn'', ''noentire''] then Some (opts\<lparr>o_whole := False\<rparr>)
      else if one_of k [''startwith'', ''^''] then Some (opts\<lparr>o_start := True\<rparr>)
      else if one_of k [''nostartwith''] then Some (opts\<lparr>o_start := False\<rparr>)
      else if one_of k [''endwith'', ''$''] then Some (opts\<lparr>o_end := True\<rparr>)
      else if one_of k [''noendwith''] then Some (opts\<lparr>o_end := False\<rparr>)
      else if one_of k [''nowildcards''] then Some (opts\<lparr>o_wildcards := False\<rparr>)
      else if one_of k [''dotall''] then Some (opts\<lparr>o_dot_all := True\<rparr>)
      else if one_of k [''nodotall''] then Some (opts\<lparr>o_dot_all := False\<rparr>)
      else if one_of k [''multiline''] then Some (opts\<lparr>o_multiline := True\<rparr>)
      else if one_of k [''nomultiline''] then Some (opts\<lparr>o_multiline := False\<rparr>)
      else None)"

fun relation_keys :: "match_options \<Rightarrow> str list \<Rightarrow> (bool \<times> bool option \<times> match_options) option" where
  "relation_keys opts [] = None"
| "relation_keys opts [key] =
     (case relation_kind (keyword key) of None \<Rightarrow> None | Some (recursive, kind) \<Rightarrow> Some (recursive, kind, opts))"
| "relation_keys opts (key # keys) =
     (case modifier opts (keyword key) of None \<Rightarrow> None | Some opts' \<Rightarrow> relation_keys opts' keys)"

definition relation_scope :: "str \<Rightarrow> match_options \<Rightarrow> (bool \<times> bool option \<times> match_options) option" where
  "relation_scope prefix_text opts =
     Option.bind (strip_suffix prefix_text (lit '':'')) (\<lambda>p. relation_keys opts (split_at 58 p))"

fun scope_keys :: "match_options \<Rightarrow> bool option \<Rightarrow> str list \<Rightarrow> (match_options \<times> bool option) option" where
  "scope_keys opts dir [] = Some (opts, dir)"
| "scope_keys opts dir (key # keys) =
     (case modifier opts key of
        Some opts' \<Rightarrow> scope_keys opts' dir keys
      | None \<Rightarrow>
          (let k = keyword key in
           if one_of k [''file''] then scope_keys opts (Some False) keys
           else if one_of k [''folder'', ''dir''] then scope_keys opts (Some True) keys
           else if one_of k [''content''] then scope_keys (opts\<lparr>o_target := Some TContent\<rparr>) dir keys
           else if one_of k [''extension''] then scope_keys (opts\<lparr>o_target := Some TExtension\<rparr>) dir keys
           else if text_property k then scope_keys (opts\<lparr>o_target := Some (TProperty (keyword k))\<rparr>) dir keys
           else None))"

definition scoped_options :: "str \<Rightarrow> match_options \<Rightarrow> (match_options \<times> bool option) option" where
  "scoped_options prefix_text opts =
     Option.bind (strip_suffix prefix_text (lit '':'')) (\<lambda>p. scope_keys opts None (split_at 58 p))"

fun restrict_type :: "query \<Rightarrow> bool option \<Rightarrow> query" where
  "restrict_type q (Some dir) = QAnd [QTerm (IsDir dir), q]"
| "restrict_type q None = q"

lemma keyword_idem: "keyword (keyword s) = keyword s"
proof -
  have "ascii_lower (ascii_lower c) = ascii_lower c" for c by (simp add: ascii_lower_def)
  then have "to_ascii_lowercase (filter p (to_ascii_lowercase s)) = filter p (to_ascii_lowercase s)" for p
    by (induction s) (auto simp: to_ascii_lowercase_def)
  then show ?thesis by (simp add: keyword_def)
qed

end
