(* ===== verification/Query_Number.thy ===== *)
theory Query_Number
  imports Query_Model
begin

text \<open>
  The operands of numeric and date terms of \<open>core/src/query.rs\<close>: \<open>scalar\<close>, \<open>calendar_period\<close>,
  \<open>midnight\<close>, \<open>relative_date_period\<close> and \<open>number_term\<close>.
\<close>

section \<open>Numbers\<close>

definition digits_value :: "str \<Rightarrow> int" where
  "digits_value ds = foldl (\<lambda>v d. v * 10 + (int d - 48)) 0 ds"

text \<open>
  \<open>str::parse::<f64>\<close> on a text without letters: an optional sign, digits and at most one point, at
  least one digit; the value is rounded correctly.
\<close>

definition parse_f64 :: "str \<Rightarrow> f64 option" where
  "parse_f64 s =
     (let negative = starts_with s (lit ''-'');
          body = (if starts_with s (lit ''-'') \<or> starts_with s (lit ''+'') then tl s else s);
          whole = takeWhile is_ascii_digit body;
          rest = dropWhile is_ascii_digit body;
          fraction = (if starts_with rest (lit ''.'') then tl rest else rest);
          value = of_int (digits_value (whole @ fraction)) / 10 ^ length fraction
      in if (rest = [] \<or> starts_with rest (lit ''.'')) \<and> list_all is_ascii_digit fraction \<and>
            (whole \<noteq> [] \<or> fraction \<noteq> [])
         then Some (round_f64 (if negative then - value else value)) else None)"

definition trim :: "str \<Rightarrow> str" where
  "trim s = rev (dropWhile is_whitespace (rev (dropWhile is_whitespace s)))"

definition unit_multiplier :: "str \<Rightarrow> rat option" where
  "unit_multiplier u =
     (if one_of u ['''', ''b''] then Some 1
      else if one_of u [''k'', ''kb'', ''kib''] then Some 1024
      else if one_of u [''m'', ''mb'', ''mib''] then Some (1024 ^ 2)
      else if one_of u [''g'', ''gb'', ''gib''] then Some (1024 ^ 3)
      else if one_of u [''t'', ''tb'', ''tib''] then Some (1024 ^ 4)
      else None)"

definition scalar :: "str \<Rightarrow> f64 result" where
  "scalar s =
     (let n = to_ascii_lowercase (trim s);
          digits = takeWhile (\<lambda>c. \<not> is_ascii_alphabetic c) n;
          unit_text = dropWhile (\<lambda>c. \<not> is_ascii_alphabetic c) n
      in case parse_f64 digits of
           None \<Rightarrow> Inl (''Invalid number '' @ quoted_chars s)
         | Some value \<Rightarrow>
             (case unit_multiplier unit_text of
                None \<Rightarrow> Inl (''Unknown unit in '' @ quoted_chars s)
              | Some multiplier \<Rightarrow>
                  if \<not> is_finite value \<or> f64_lt value (Fin 0) then Inl ''Expected a finite non-negative number''
                  else let r = f64_mul value (Fin multiplier) in
                    if \<not> is_finite r then Inl ''Number exceeds supported range'' else Inr r))"

section \<open>Dates\<close>

definition make_date :: "crates \<Rightarrow> str \<Rightarrow> int \<Rightarrow> int \<Rightarrow> int \<Rightarrow> int result" where
  "make_date cr s y m d =
     (case c_from_ymd cr y m d of Some date \<Rightarrow> Inr date | None \<Rightarrow> Inl (''Date '' @ quoted_chars s @ '' is out of range''))"

definition next_month :: "crates \<Rightarrow> str \<Rightarrow> int \<Rightarrow> int result" where
  "next_month cr s d =
     (if c_month cr d = 12 then make_date cr s (c_year cr d + 1) 1 1
      else make_date cr s (c_year cr d) (c_month cr d + 1) 1)"

definition pair_result :: "'a result \<Rightarrow> 'b result \<Rightarrow> ('a \<times> 'b) result" where
  "pair_result a b = bind_result a (\<lambda>x. bind_result b (\<lambda>y. Inr (x, y)))"

text \<open>The periods written as digits: a year, a month or a day.\<close>

definition literal_period :: "crates \<Rightarrow> str \<Rightarrow> (int \<times> int) result" where
  "literal_period cr s =
     (if str_len s = 4 \<and> list_all is_ascii_digit s then
        pair_result (make_date cr s (digits_value s) 1 1) (make_date cr s (digits_value s + 1) 1 1)
      else if str_len s = 7 then
        (case c_parse_date cr (s @ lit ''-01'') of
           None \<Rightarrow> Inl (''Invalid month '' @ quoted_chars s)
         | Some d \<Rightarrow> pair_result (Inr d) (next_month cr s d))
      else
        (case c_parse_date cr s of
           None \<Rightarrow> Inl (''Invalid date '' @ quoted_chars s @
             ''; use YYYY-MM-DD or today/yesterday/thisweek/lastweek/thismonth/lastmonth/thisyear/lastyear'')
         | Some d \<Rightarrow>
             (case c_succ_date cr d of None \<Rightarrow> Inl ''Date out of range'' | Some e \<Rightarrow> Inr (d, e))))"

definition calendar_period :: "crates \<Rightarrow> str \<Rightarrow> int \<Rightarrow> nat \<Rightarrow> (int \<times> int) result" where
  "calendar_period cr s today first_weekday =
     bind_result (make_date cr s (c_year cr today) (c_month cr today) 1) (\<lambda>month.
       let week = today - int ((c_weekday cr today + 7 - first_weekday mod 7) mod 7);
           k = to_ascii_lowercase s
       in if one_of k [''today''] then Inr (today, today + 1)
          else if one_of k [''yesterday''] then Inr (today - 1, today)
          else if one_of k [''thisweek''] then Inr (week, week + 7)
          else if one_of k [''lastweek''] then Inr (week - 7, week)
          else if one_of k [''thismonth''] then pair_result (Inr month) (next_month cr s month)
          else if one_of k [''lastmonth''] then
            let d = month - 1 in pair_result (make_date cr s (c_year cr d) (c_month cr d) 1) (Inr month)
          else if one_of k [''thisyear''] then
            pair_result (make_date cr s (c_year cr today) 1 1) (make_date cr s (c_year cr today + 1) 1 1)
          else if one_of k [''lastyear''] then
            pair_result (make_date cr s (c_year cr today - 1) 1 1) (make_date cr s (c_year cr today) 1 1)
          else literal_period cr s)"

fun first_representable :: "crates \<Rightarrow> int \<Rightarrow> nat list \<Rightarrow> int option" where
  "first_representable cr date [] = None"
| "first_representable cr date (minute # minutes) =
     (case c_local_earliest cr date minute of
        Some t \<Rightarrow> Some t | None \<Rightarrow> first_representable cr date minutes)"

definition midnight :: "crates \<Rightarrow> int \<Rightarrow> int result" where
  "midnight cr date =
     (case first_representable cr date [0..<1441] of
        Some t \<Rightarrow> Inr t
      | None \<Rightarrow> Inl ''Calendar boundary is not representable in the local timezone'')"

definition duration_unit :: "str \<Rightarrow> int option" where
  "duration_unit u =
     (if one_of u [''s'', ''sec'', ''secs'', ''second'', ''seconds''] then Some 1
      else if one_of u [''min'', ''mins'', ''minute'', ''minutes''] then Some 60
      else if one_of u [''h'', ''hour'', ''hours''] then Some 3600
      else if one_of u [''d'', ''day'', ''days''] then Some 86400
      else if one_of u [''w'', ''week'', ''weeks''] then Some 604800
      else if one_of u [''month'', ''months'', ''year'', ''years''] then Some 0
      else None)"

definition duration_error :: string where
  "duration_error = ''Relative date duration is out of range''"

definition relative_date_period :: "crates \<Rightarrow> str \<Rightarrow> int \<Rightarrow> (f64 \<times> f64) option result" where
  "relative_date_period cr input now =
     (let count_text = takeWhile is_ascii_digit input;
          unit_text = to_ascii_lowercase (dropWhile is_ascii_digit input)
      in if count_text = [] \<or> dropWhile is_ascii_digit input = [] then Inr None
         else case duration_unit unit_text of
           None \<Rightarrow> Inr None
         | Some multiplier \<Rightarrow>
             let count = nat (digits_value count_text);
                 months = count * (if starts_with unit_text (lit ''year'') then 12 else 1)
             in if u32_max < count then Inl duration_error
                else if multiplier = 0 \<and> u32_max < months then Inl duration_error
                else case (if multiplier = 0 then c_sub_months cr now months
                           else c_sub_seconds cr now (int count * multiplier)) of
                       None \<Rightarrow> Inl duration_error
                     | Some start \<Rightarrow>
                         Inr (Some (f64_of_int (c_timestamp cr start),
                                    f64_add (f64_of_int (c_timestamp cr now)) (Fin 1))))"

definition date_period :: "crates \<Rightarrow> int \<Rightarrow> str \<Rightarrow> (f64 \<times> f64) result" where
  "date_period cr now v =
     bind_result (relative_date_period cr v now) (\<lambda>interval.
       case interval of
         Some p \<Rightarrow> Inr p
       | None \<Rightarrow>
           bind_result (calendar_period cr v (c_date_naive cr now) (c_first_weekday cr)) (\<lambda>(a, b).
             bind_result (midnight cr a) (\<lambda>low.
               bind_result (midnight cr b) (\<lambda>high. Inr (f64_of_int low, f64_of_int high)))))"

section \<open>Ranges\<close>

text \<open>\<open>split_once("..")\<close>.\<close>

fun split_dots :: "str \<Rightarrow> (str \<times> str) option" where
  "split_dots (a # b # cs) =
     (if a = 46 \<and> b = 46 then Some ([], cs)
      else map_option (\<lambda>(x, y). (a # x, y)) (split_dots (b # cs)))"
| "split_dots _ = None"

definition strip_equals :: "str \<Rightarrow> str option" where
  "strip_equals v = (case strip_prefix v (lit ''=='') of Some r \<Rightarrow> Some r | None \<Rightarrow> strip_prefix v (lit ''=''))"

definition date_range :: "crates \<Rightarrow> int \<Rightarrow> str \<Rightarrow> (f64 \<times> f64) result" where
  "date_range cr now val =
     (let period = date_period cr now in
      case split_dots val of
        Some (a, b) \<Rightarrow> bind_result (period a) (\<lambda>p. bind_result (period b) (\<lambda>q. Inr (fst p, snd q)))
      | None \<Rightarrow>
      (case strip_prefix val (lit ''>='') of
        Some v \<Rightarrow> bind_result (period v) (\<lambda>p. Inr (fst p, PosInf))
      | None \<Rightarrow>
      (case strip_prefix val (lit ''<='') of
        Some v \<Rightarrow> bind_result (period v) (\<lambda>p. Inr (NegInf, snd p))
      | None \<Rightarrow>
      (case strip_prefix val (lit ''>'') of
        Some v \<Rightarrow> bind_result (period v) (\<lambda>p. Inr (snd p, PosInf))
      | None \<Rightarrow>
      (case strip_prefix val (lit ''<'') of
        Some v \<Rightarrow> bind_result (period v) (\<lambda>p. Inr (NegInf, fst p))
      | None \<Rightarrow> period (case strip_equals val of Some v \<Rightarrow> v | None \<Rightarrow> val))))))"

text \<open>A number without an operator covers its last written digit: \<open>[n, n + step)\<close>.\<close>

definition digit_range :: "crates \<Rightarrow> str \<Rightarrow> (f64 \<times> f64 \<times> bool \<times> bool) result" where
  "digit_range cr val =
     bind_result (scalar val) (\<lambda>n.
       let lower = to_ascii_lowercase val;
           number = takeWhile (\<lambda>c. \<not> is_ascii_alphabetic c) lower;
           unit_text = dropWhile (\<lambda>c. \<not> is_ascii_alphabetic c) lower;
           decimals = (case split_once 46 number of Some (_, d) \<Rightarrow> str_len d | None \<Rightarrow> 0)
       in bind_result (if unit_text \<noteq> [] then scalar (lit ''1'' @ unit_text) else Inr (Fin 1)) (\<lambda>unit_value.
            let step = f64_mul unit_value (c_powi10 cr (- int decimals))
            in if f64_le step (Fin 0) then Inl ''Numeric precision exceeds supported range''
               else Inr (n, f64_add n step, True, False)))"

definition number_range :: "crates \<Rightarrow> str \<Rightarrow> (f64 \<times> f64 \<times> bool \<times> bool) result" where
  "number_range cr val =
     (case split_dots val of
        Some (a, b) \<Rightarrow> bind_result (scalar a) (\<lambda>x. bind_result (scalar b) (\<lambda>y. Inr (x, y, True, True)))
      | None \<Rightarrow>
      (case strip_prefix val (lit ''>='') of
        Some v \<Rightarrow> bind_result (scalar v) (\<lambda>x. Inr (x, PosInf, True, True))
      | None \<Rightarrow>
      (case strip_prefix val (lit ''<='') of
        Some v \<Rightarrow> bind_result (scalar v) (\<lambda>x. Inr (NegInf, x, True, True))
      | None \<Rightarrow>
      (case strip_prefix val (lit ''>'') of
        Some v \<Rightarrow> bind_result (scalar v) (\<lambda>x. Inr (x, PosInf, False, True))
      | None \<Rightarrow>
      (case strip_prefix val (lit ''<'') of
        Some v \<Rightarrow> bind_result (scalar v) (\<lambda>x. Inr (NegInf, x, True, False))
      | None \<Rightarrow>
      (case strip_equals val of
        Some v \<Rightarrow> bind_result (scalar v) (\<lambda>x. Inr (x, x, True, True))
      | None \<Rightarrow> digit_range cr val))))))"

definition number_term :: "crates \<Rightarrow> str \<Rightarrow> str \<Rightarrow> bool \<Rightarrow> int \<Rightarrow> query_term result" where
  "number_term cr fld input date now =
     (if one_of (to_ascii_lowercase input) [''unknown'', ''!unknown'', ''!=unknown'']
      then Inr (Unknown fld (starts_with input (lit ''!'')))
      else
        let negate = starts_with input (lit ''!'');
            val = (case strip_prefix input (lit ''!='') of
                     Some v \<Rightarrow> lit ''='' @ v
                   | None \<Rightarrow> (case strip_prefix input (lit ''!'') of Some v \<Rightarrow> v | None \<Rightarrow> input))
        in if date then
             bind_result (date_range cr now val) (\<lambda>(low, high).
               if f64_le high low then Inl ''Date range lower bound exceeds upper bound''
               else Inr (Number fld low high True False negate))
           else
             bind_result (number_range cr val) (\<lambda>(low, high, il, ih).
               if f64_lt high low then Inl ''Range lower bound exceeds upper bound''
               else Inr (Number fld low high il ih negate)))"

section \<open>Accepted ranges are ordered\<close>

lemma scalar_finite: "scalar s = Inr x \<Longrightarrow> \<exists>r. x = Fin r"
  by (auto simp: scalar_def Let_def is_finite_def split: option.splits if_splits f64.splits)

lemma round_f64_not_nan: "round_f64 x \<noteq> NaN"
  by (auto simp: round_f64_def round_pos_def Let_def)

lemma f64_add_one: "f64_add (f64_of_int n) (Fin 1) \<noteq> NaN"
  by (cases "f64_of_int n") (simp_all add: f64_of_int_not_nan round_f64_not_nan)

lemma date_period_not_nan: "date_period cr now v = Inr (low, high) \<Longrightarrow> low \<noteq> NaN \<and> high \<noteq> NaN"
  by (auto simp: date_period_def relative_date_period_def Let_def f64_of_int_not_nan f64_add_one
      split: option.splits if_splits)

lemma date_range_not_nan: "date_range cr now v = Inr (low, high) \<Longrightarrow> low \<noteq> NaN \<and> high \<noteq> NaN"
  by (auto simp: date_range_def Let_def dest: date_period_not_nan split: option.splits)

lemma digit_range_not_nan:
  assumes "\<And>k. \<exists>r. c_powi10 cr k = Fin r" "digit_range cr v = Inr (low, high, il, ih)"
  shows "low \<noteq> NaN \<and> high \<noteq> NaN"
proof -
  obtain u k where n: "scalar v = Inr low" and h: "high = f64_add low (f64_mul u (c_powi10 cr k))"
    and u: "u = Fin 1 \<or> (\<exists>s. scalar s = Inr u)"
    using assms(2) by (auto simp: digit_range_def Let_def split: if_splits)
  obtain x where x: "low = Fin x" using scalar_finite [OF n] by blast
  obtain y where y: "u = Fin y" using u scalar_finite by blast
  obtain z where z: "c_powi10 cr k = Fin z" using assms(1) by blast
  have "f64_add (Fin x) (round_f64 (y * z)) \<noteq> NaN"
    using round_f64_not_nan [of "y * z"] by (cases "round_f64 (y * z)") (simp_all add: round_f64_not_nan)
  then show ?thesis using h x y z by simp
qed

lemma number_range_not_nan:
  assumes "\<And>k. \<exists>r. c_powi10 cr k = Fin r" "number_range cr v = Inr (low, high, il, ih)"
  shows "low \<noteq> NaN \<and> high \<noteq> NaN"
  using assms(2) digit_range_not_nan [OF assms(1)]
  by (auto simp: number_range_def dest!: scalar_finite split: option.splits)

lemma f64_not_lt_le: "x \<noteq> NaN \<Longrightarrow> y \<noteq> NaN \<Longrightarrow> \<not> f64_lt y x \<Longrightarrow> f64_le x y"
  using f64_not_le by blast

lemma number_term_ordered:
  assumes "\<And>k. \<exists>r. c_powi10 cr k = Fin r" "number_term cr fld input date now = Inr (Number f low high il ih negate)"
  shows "f = fld \<and> f64_le low high \<and> (date \<longrightarrow> f64_lt low high \<and> il \<and> \<not> ih)"
proof (cases date)
  case True
  then obtain val where v: "date_range cr now val = Inr (low, high)" "\<not> f64_le high low" "f = fld" "il" "\<not> ih"
    using assms(2) by (auto simp: number_term_def Let_def split: if_splits)
  have "low \<noteq> NaN" "high \<noteq> NaN" using date_range_not_nan [OF v(1)] by simp_all
  then have "f64_lt low high" using v(2) f64_not_le by blast
  then show ?thesis using v True by (cases low; cases high) simp_all
next
  case False
  then obtain val where v: "number_range cr val = Inr (low, high, il, ih)" "\<not> f64_lt high low" "f = fld"
    using assms(2) by (auto simp: number_term_def Let_def split: if_splits)
  then show ?thesis using number_range_not_nan [OF assms(1) v(1)] f64_not_lt_le False by simp
qed

lemma first_representable_find:
  "first_representable cr date ms = Option.bind (List.find (\<lambda>m. c_local_earliest cr date m \<noteq> None) ms) (c_local_earliest cr date)"
  by (induction ms) (auto split: option.splits)

section \<open>Properties\<close>


definition plain_crates :: crates where
  "plain_crates = \<lparr>c_nfc = (\<lambda>s. s), c_nfd = (\<lambda>s. s), c_fold_string = to_ascii_lowercase,
     c_combining_mark = (\<lambda>_. False), c_alphanumeric = (\<lambda>c. is_ascii_digit c \<or> is_ascii_alphabetic c),
     c_find = naive_find, c_regex_error = (\<lambda>_. None), c_regex_match = (\<lambda>_ _. Inr False),
     c_powi10 = (\<lambda>k. Fin (10 powi k)), c_date_naive = (\<lambda>t. t div 86400), c_timestamp = (\<lambda>t. t),
     c_sub_seconds = (\<lambda>t n. Some (t - n)), c_sub_months = (\<lambda>t n. Some (t - 2592000 * int n)),
     c_from_ymd = (\<lambda>y m d. Some (365 * y + 30 * m + d)), c_year = (\<lambda>d. d div 365), c_month = (\<lambda>d. 1 + d mod 12),
     c_weekday = (\<lambda>d. nat (d mod 7)), c_parse_date = (\<lambda>_. None), c_succ_date = (\<lambda>d. Some (d + 1)),
     c_local_earliest = (\<lambda>d m. Some (86400 * d + 60 * int m)), c_first_weekday = 1\<rparr>"

lemma number_term_above:
  "number_term plain_crates (lit ''size'') (lit ''!>=0'') False 0 =
     Inr (Number (lit ''size'') (Fin 0) PosInf True True True)"
  by (simp add: number_term_def number_range_def one_of_def lit_def to_ascii_lowercase_def ascii_lower_def
      starts_with_def strip_prefix_def scalar_def trim_def is_whitespace_def is_ascii_alphabetic_def
      parse_f64_def is_ascii_digit_def digits_value_def round_f64_def unit_multiplier_def is_finite_def Let_def)


text \<open>The first instant of a day is the first of its 1441 minutes that the local time zone can represent,
  and the search fails only if none of them can.\<close>

lemma midnight_first_representable:
  "midnight cr date = Inr t \<longleftrightarrow>
     (\<exists>minute \<le> 1440. c_local_earliest cr date minute = Some t \<and>
        (\<forall>m < minute. c_local_earliest cr date m = None))"
proof -
  have "first_representable cr date [0..<1441] = Some t \<longleftrightarrow>
      (\<exists>m. List.find (\<lambda>m. c_local_earliest cr date m \<noteq> None) [0..<1441] = Some m \<and>
         c_local_earliest cr date m = Some t)"
    by (auto simp: first_representable_find bind_eq_Some_conv)
  also have "\<dots> \<longleftrightarrow> (\<exists>minute < 1441. c_local_earliest cr date minute = Some t \<and>
        (\<forall>m < minute. c_local_earliest cr date m = None))"
  proof -
    have "List.find (\<lambda>m. c_local_earliest cr date m \<noteq> None) [0..<1441] = Some m \<longleftrightarrow>
        m < 1441 \<and> c_local_earliest cr date m \<noteq> None \<and> (\<forall>j < m. c_local_earliest cr date j = None)" for m
      by (auto simp: find_Some_iff)
    then show ?thesis by auto
  qed
  finally have "first_representable cr date [0..<1441] = Some t \<longleftrightarrow>
      (\<exists>minute < 1441. c_local_earliest cr date minute = Some t \<and> (\<forall>m < minute. c_local_earliest cr date m = None))" .
  moreover have "minute \<le> 1440 \<longleftrightarrow> minute < 1441" for minute :: nat by auto
  moreover have "midnight cr date = Inr t \<longleftrightarrow> first_representable cr date [0..<1441] = Some t"
    by (simp add: midnight_def split: option.splits)
  ultimately show ?thesis by simp
qed

end
