(* ===== verification/Query_Atom.thy ===== *)
theory Query_Atom
  imports Query_Number
begin

text \<open>
  From an atom of the query language to a query, \<open>core/src/query.rs\<close>: the translation of wildcards, the
  construction of text matchers (\<open>TextMatcher::new\<close>, \<open>text_query\<close>) and \<open>atom_with_options\<close> with its
  modifiers, search functions and error texts.
\<close>

section \<open>Text matchers\<close>

definition wildcard_char :: "nat \<Rightarrow> str" where
  "wildcard_char c =
     (if c = 42 then lit ''[^/]*''
      else if c = 63 then lit ''[^/]''
      else if c \<in> set (92 # lit ''.+()[]{}^$|'') then [92, c]
      else [c])"

definition wildcard_pattern :: "str \<Rightarrow> str" where
  "wildcard_pattern s = 92 # lit ''A(?:'' @ concat (map wildcard_char s) @ lit '')'' @ 92 # lit ''z''"

definition pattern :: "crates \<Rightarrow> str \<Rightarrow> bool \<Rightarrow> regex result" where
  "pattern cr s sensitive =
     (let r = Regex (40 # lit ''*LIMIT_MATCH=100000)'' @ 40 # lit ''*LIMIT_DEPTH=1000)'' @ s) (\<not> sensitive)
      in case c_regex_error cr r of None \<Rightarrow> Inr r | Some e \<Rightarrow> Inl (''Invalid PCRE2 pattern: '' @ e))"

definition normalized :: "crates \<Rightarrow> str \<Rightarrow> match_options \<Rightarrow> str" where
  "normalized cr s opts =
     (if is_ascii s then (if o_sensitive opts then s else to_ascii_lowercase s)
      else
        let t = (if o_diacritics opts then c_nfc cr s else strip_marks cr s)
        in if o_sensitive opts then t else fold_text cr t)"

definition word_class :: "match_options \<Rightarrow> str" where
  "word_class opts =
     92 # lit ''p{L}'' @ 92 # lit ''p{N}'' @ 92 # lit ''p{M}'' @ (if o_target opts = Some TContent then lit ''_'' else [])"

definition regex_frame :: "match_options \<Rightarrow> str \<Rightarrow> str" where
  "regex_frame opts source =
     (if o_whole opts then 92 # lit ''A(?:'' @ source @ lit '')'' @ 92 # lit ''z''
      else
        let s1 = (if o_start opts then 92 # lit ''A(?:'' @ source @ lit '')'' else source);
            s2 = (if o_end opts then lit ''(?:'' @ s1 @ lit '')'' @ 92 # lit ''z'' else s1);
            s3 = (if o_prefix opts then lit ''(?<!['' @ word_class opts @ lit ''])(?:'' @ s2 @ lit '')'' else s2)
        in if o_suffix opts then lit ''(?:'' @ s3 @ lit '')(?!['' @ word_class opts @ lit ''])'' else s3)"

definition text_matcher_new :: "crates \<Rightarrow> str \<Rightarrow> match_options \<Rightarrow> bool \<Rightarrow> text_matcher result" where
  "text_matcher_new cr s opts wildcard =
     bind_result
       (if o_regex opts \<or> wildcard then
          let base = (if o_diacritics opts then c_nfc cr s else strip_marks cr s);
              source = regex_frame opts (if wildcard then wildcard_pattern base else base);
              fl = (if o_dot_all opts then lit ''(?s)'' else []) @ (if o_multiline opts then lit ''(?m)'' else [])
          in bind_result (pattern cr (fl @ source) (o_sensitive opts)) (\<lambda>r. Inr (Some r))
        else Inr None)
       (\<lambda>r. Inr \<lparr>m_needle = normalized cr s opts, m_candidate_needle = fold_search cr s, m_regex = r,
                m_options = opts\<rparr>)"

definition text_query :: "crates \<Rightarrow> str \<Rightarrow> match_options \<Rightarrow> text_target \<Rightarrow> query result" where
  "text_query cr s options target =
     (let opts = options\<lparr>o_target := Some target\<rparr>;
          plain = (\<not> o_regex opts \<and> \<not> o_diacritics opts \<and> \<not> o_sensitive opts \<and> \<not> o_prefix opts \<and>
                   \<not> o_suffix opts \<and> \<not> o_whole opts \<and> \<not> o_start opts \<and> \<not> o_end opts);
          wildcard = (\<not> o_regex opts \<and> o_wildcards opts \<and> (42 \<in> set s \<or> 63 \<in> set s) \<and> target \<noteq> TContent);
          matched = (\<lambda>w. bind_result (text_matcher_new cr s opts w) (\<lambda>m. Inr (QTerm (Matched target m))))
      in if plain \<and> \<not> wildcard then
           let needle = fold_search cr s in
           (case target of
              TField f \<Rightarrow> Inr (QTerm (Text f needle (o_sensitive opts)))
            | TContent \<Rightarrow> Inr (QTerm (Content needle (o_sensitive opts)))
            | TProperty key \<Rightarrow> if \<not> o_sensitive opts then Inr (QTerm (PropertyText key needle)) else matched False
            | TExtension \<Rightarrow> matched False)
         else matched wildcard)"

section \<open>Atoms\<close>

text \<open>The literal part of an atom has been reached: \<open>original.len() - s.len() >= offset\<close>.\<close>

definition literal_reached :: "nat option \<Rightarrow> str \<Rightarrow> str \<Rightarrow> bool" where
  "literal_reached literal_from original s =
     (case literal_from of None \<Rightarrow> False | Some offset \<Rightarrow> offset \<le> str_len original - str_len s)"

lemma split_once_length: "split_once c s = Some (a, b) \<Longrightarrow> length b < length s"
proof -
  assume "split_once c s = Some (a, b)"
  then have c: "c \<in> set s" and b: "b = tl (dropWhile (\<lambda>x. x \<noteq> c) s)" by (auto simp: split_once_def split: if_splits)
  from c have "dropWhile (\<lambda>x. x \<noteq> c) s \<noteq> []" by (simp add: dropWhile_eq_Nil_conv)
  then have "length b < length (dropWhile (\<lambda>x. x \<noteq> c) s)" by (simp add: b)
  then show ?thesis using length_dropWhile_le [of "\<lambda>x. x \<noteq> c" s] by simp
qed

text \<open>
  The loop over the leading keys. It ends with the rest of the text, the options and the type
  restriction, or at once with the query of a relationship (\<open>Inl\<close>).
\<close>

function atom_keys ::
  "crates \<Rightarrow> str \<Rightarrow> nat option \<Rightarrow> match_options \<Rightarrow> bool option \<Rightarrow> str \<Rightarrow>
     (query + str \<times> match_options \<times> bool option) result" where
  "atom_keys cr original literal_from opts dir s =
     (if literal_reached literal_from original s then Inr (Inr (s, opts, dir))
      else case split_once 58 s of
        None \<Rightarrow> Inr (Inr (s, opts, dir))
      | Some (key, val) \<Rightarrow>
         (case relation_kind (keyword key) of
            Some (recursive, kind) \<Rightarrow>
              bind_result (text_query cr val opts (TField (o_field opts))) (\<lambda>inner.
                Inr (Inl (restrict_type (QTerm (Related recursive (restrict_type inner kind))) dir)))
          | None \<Rightarrow>
             (case modifier opts key of
                Some opts' \<Rightarrow> atom_keys cr original literal_from opts' dir val
              | None \<Rightarrow>
                 (let k = keyword key in
                  if one_of k [''file''] then atom_keys cr original literal_from opts (Some False) val
                  else if one_of k [''folder'', ''dir''] then atom_keys cr original literal_from opts (Some True) val
                  else if one_of k [''extension''] then Inr (Inr (val, opts\<lparr>o_target := Some TExtension\<rparr>, dir))
                  else if one_of k [''ext''] \<and> o_regex opts
                  then Inr (Inr (val, opts\<lparr>o_target := Some TExtension, o_whole := True\<rparr>, dir))
                  else if one_of k [''content''] then Inr (Inr (val, opts\<lparr>o_target := Some TContent\<rparr>, dir))
                  else if text_property k then Inr (Inr (val, opts\<lparr>o_target := Some (TProperty (keyword k))\<rparr>, dir))
                  else Inr (Inr (s, opts, dir))))))"
  by pat_completeness auto
termination
  by (relation "measure (\<lambda>(_, _, _, _, _, s). length s)") (auto dest: split_once_length)

declare atom_keys.simps [simp del]

fun extension_queries :: "crates \<Rightarrow> match_options \<Rightarrow> str list \<Rightarrow> query list result" where
  "extension_queries cr opts [] = Inr []"
| "extension_queries cr opts (v # vs) =
     bind_result (text_query cr (trim_start_matches 46 v) (opts\<lparr>o_whole := True\<rparr>) TExtension) (\<lambda>q.
       bind_result (extension_queries cr opts vs) (\<lambda>qs. Inr (q # qs)))"

fun attribute_terms :: "str \<Rightarrow> query list result" where
  "attribute_terms [] = Inr []"
| "attribute_terms (c # cs) =
     (if ascii_lower c = 104 then bind_result (attribute_terms cs) (\<lambda>qs. Inr (QTerm Hidden # qs))
      else if ascii_lower c = 108 then bind_result (attribute_terms cs) (\<lambda>qs. Inr (QTerm IsSymlink # qs))
      else Inl ''attrib: supports macOS hidden (h) and symlink (l); use flags: for native flags'')"

definition native_flag :: "str \<Rightarrow> 32 word option" where
  "native_flag k =
     (if one_of k [''hidden''] then Some 0x8000
      else if one_of k [''immutable''] then Some 0x20002
      else if one_of k [''append''] then Some 0x40004
      else if one_of k [''nodump''] then Some 0x0001
      else if one_of k [''compressed''] then Some 0x0020
      else if one_of k [''dataless'', ''placeholder''] then Some 0x40000000
      else None)"

fun flag_mask :: "str list \<Rightarrow> 32 word \<Rightarrow> 32 word result" where
  "flag_mask [] acc = Inr acc"
| "flag_mask (n # ns) acc =
     (case native_flag (keyword n) of
        None \<Rightarrow> Inl (''Unsupported native flag '' @ quoted_chars n)
      | Some bits \<Rightarrow> flag_mask ns (or acc bits))"

definition type_term :: "str \<Rightarrow> query_term result" where
  "type_term v =
     (let k = to_ascii_lowercase v in
      if one_of k [''file''] then Inr (IsDir False)
      else if one_of k [''folder'', ''directory''] then Inr (IsDir True)
      else if one_of k [''symlink'', ''link''] then Inr IsSymlink
      else Inl ''type: accepts file, folder, or symlink'')"

text \<open>The search functions \<open>key:value\<close>.\<close>

definition search_function :: "crates \<Rightarrow> match_options \<Rightarrow> str \<Rightarrow> str \<Rightarrow> query result" where
  "search_function cr opts key val =
     (let wrap = (\<lambda>r. bind_result r (\<lambda>t. Inr (QTerm t))) in
      if one_of key [''ext'', ''extension''] \<and> \<not> o_sensitive opts \<and> \<not> o_diacritics opts
      then Inr (QTerm (Extension (map (\<lambda>v. fold_search cr (trim_start_matches 46 v)) (split_at 59 val))))
      else if one_of key [''ext'', ''extension'']
      then bind_result (extension_queries cr opts (split_at 59 val)) (\<lambda>qs. Inr (QOr qs))
      else if one_of key [''type''] then wrap (type_term val)
      else if one_of key [''hidden''] \<and> val = [] then Inr (QTerm Hidden)
      else if one_of key [''symlink''] \<and> val = [] then Inr (QTerm IsSymlink)
      else if one_of key [''empty''] \<and> val = []
      then wrap (number_term cr (lit ''childcount'') (lit ''=0'') False (o_now opts))
      else if one_of key [''size''] then wrap (number_term cr key val False (o_now opts))
      else if numeric_property key \<or> is_metric key then wrap (number_term cr key val False (o_now opts))
      else if one_of key [''dm'', ''datemodified'', ''modified'']
      then wrap (number_term cr (lit ''modified'') val True (o_now opts))
      else if one_of key [''dc'', ''datecreated'', ''created'']
      then wrap (number_term cr (lit ''created'') val True (o_now opts))
      else if one_of key [''attrib'', ''attributes''] then
        bind_result (attribute_terms val) (\<lambda>qs.
          if qs = [] then Inl ''attrib: requires at least one attribute'' else Inr (QAnd qs))
      else if one_of key [''flags''] then wrap (bind_result (flag_mask (split_at 59 val) 0) (\<lambda>m. Inr (Flags m)))
      else Inl (''Unsupported search function '' @ [CHR 0x27] @ text_chars key @ '':'' @ [CHR 0x27] @
             '' (Windows-only properties are not silently ignored)''))"

text \<open>What follows the keys: a bare type restriction, a search function, or a text.\<close>

definition atom_text :: "crates \<Rightarrow> match_options \<Rightarrow> bool option \<Rightarrow> str \<Rightarrow> query result" where
  "atom_text cr opts dir s0 =
     (let s = (if o_field opts = Parent \<and> o_whole opts \<and> 1 < str_len s0 then trim_end_matches slash s0 else s0);
          opts' = (if o_field opts = Name \<and> slash \<in> set s \<and> o_target opts = None then opts\<lparr>o_field := Path\<rparr> else opts);
          target = (case o_target opts' of Some t \<Rightarrow> t | None \<Rightarrow> TField (o_field opts'))
      in bind_result (text_query cr s opts' target) (\<lambda>q. Inr (restrict_type q dir)))"

definition atom_with_options :: "crates \<Rightarrow> str \<Rightarrow> match_options \<Rightarrow> nat option \<Rightarrow> query result" where
  "atom_with_options cr original inherited literal_from =
     bind_result (atom_keys cr original literal_from inherited None original) (\<lambda>r.
       case r of
         Inl q \<Rightarrow> Inr q
       | Inr (s, opts, dir) \<Rightarrow>
           (case (dir, s) of
              (Some d, []) \<Rightarrow> Inr (QTerm (IsDir d))
            | _ \<Rightarrow>
               (case (if o_target opts = None \<and> \<not> o_regex opts \<and> \<not> literal_reached literal_from original s
                      then split_once 58 s else None) of
                  Some (key, val) \<Rightarrow>
                    bind_result (search_function cr opts (keyword key) val) (\<lambda>q. Inr (restrict_type q dir))
                | None \<Rightarrow> atom_text cr opts dir s)))"

section \<open>What the translation of atoms can produce\<close>

text \<open>
  A query as the parser builds it. Text needles are folded, matchers come from \<open>TextMatcher::new\<close>,
  number ranges are ordered; neither a plain pattern nor a resolved relationship can occur, and
  nothing is related to a relationship's own children.
\<close>

fun wf_term :: "crates \<Rightarrow> query_term \<Rightarrow> bool" and wf_query :: "crates \<Rightarrow> query \<Rightarrow> bool"
  and wf_queries :: "crates \<Rightarrow> query list \<Rightarrow> bool" where
  "wf_term cr (Text f needle sensitive) = (\<not> sensitive \<and> (\<exists>s. needle = fold_search cr s))"
| "wf_term cr (Pattern f r) = False"
| "wf_term cr (Related recursive q) = wf_query cr q"
| "wf_term cr (Resolved r) = False"
| "wf_term cr (Content needle sensitive) = (\<not> sensitive \<and> (\<exists>s. needle = fold_search cr s))"
| "wf_term cr (PropertyText key needle) = (\<exists>s. needle = fold_search cr s)"
| "wf_term cr (Number f low high il ih neg) = f64_le low high"
| "wf_term cr (Matched target m) =
     (\<exists>s opts w. text_matcher_new cr s opts w = Inr m \<and> o_target opts = Some target)"
| "wf_term cr _ = True"
| "wf_query cr QAll = True"
| "wf_query cr (QAnd qs) = wf_queries cr qs"
| "wf_query cr (QOr qs) = wf_queries cr qs"
| "wf_query cr (QNot q) = wf_query cr q"
| "wf_query cr (QTerm t) = wf_term cr t"
| "wf_queries cr [] = True"
| "wf_queries cr (q # qs) = (wf_query cr q \<and> wf_queries cr qs)"

lemma wf_queries_iff: "wf_queries cr qs \<longleftrightarrow> (\<forall>q \<in> set qs. wf_query cr q)"
  by (induction qs) simp_all

lemma wf_restrict [simp]: "wf_query cr (restrict_type q dir) = wf_query cr q"
  by (cases dir) simp_all

lemma wf_text_query: "text_query cr s opts target = Inr q \<Longrightarrow> wf_query cr q"
  by (auto simp: text_query_def Let_def split: if_splits text_target.splits) force+

lemma wf_extension_queries: "extension_queries cr opts vs = Inr qs \<Longrightarrow> wf_queries cr qs"
  by (induction vs arbitrary: qs) (auto dest: wf_text_query)

lemma wf_attribute_terms: "attribute_terms cs = Inr qs \<Longrightarrow> wf_queries cr qs"
  by (induction cs arbitrary: qs) (auto split: if_splits)

lemma number_term_shape:
  "number_term cr fld input date now = Inr t \<Longrightarrow>
     (\<exists>neg. t = Unknown fld neg) \<or> (\<exists>low high il ih neg. t = Number fld low high il ih neg)"
  by (auto simp: number_term_def Let_def split: if_splits)

lemma wf_number_term:
  assumes "\<And>k. \<exists>r. c_powi10 cr k = Fin r" "number_term cr fld input date now = Inr t"
  shows "wf_term cr t"
  using number_term_shape [OF assms(2)] number_term_ordered [OF assms(1)] assms(2) by fastforce

lemma wf_type_term: "type_term v = Inr t \<Longrightarrow> wf_term cr t"
  by (auto simp: type_term_def Let_def split: if_splits)

lemma wf_search_function:
  assumes "\<And>k. \<exists>r. c_powi10 cr k = Fin r" "search_function cr opts key val = Inr q"
  shows "wf_query cr q"
  using assms(2) wf_number_term [OF assms(1)]
  by (auto simp: search_function_def Let_def split: if_splits
      dest!: wf_extension_queries wf_attribute_terms wf_type_term)

lemma wf_atom_keys: "atom_keys cr original literal_from opts dir s = Inr (Inl q) \<Longrightarrow> wf_query cr q"
proof (induction cr original literal_from opts dir s rule: atom_keys.induct)
  case (1 cr original literal_from opts dir s)
  then show ?case
    by (subst (asm) (4) atom_keys.simps) (auto simp: Let_def split: if_splits option.splits; erule wf_text_query)
qed

lemma wf_atom:
  assumes "\<And>k. \<exists>r. c_powi10 cr k = Fin r" "atom_with_options cr original inherited literal_from = Inr q"
  shows "wf_query cr q"
proof -
  obtain r where r: "atom_keys cr original literal_from inherited None original = Inr r"
    using assms(2) by (auto simp: atom_with_options_def)
  show ?thesis
  proof (cases r)
    case (Inl q')
    then show ?thesis using assms(2) r wf_atom_keys by (simp add: atom_with_options_def)
  next
    case (Inr p)
    obtain s opts dir where p: "p = (s, opts, dir)" by (cases p)
    have "(\<exists>d. q = QTerm (IsDir d)) \<or>
        (\<exists>key val q'. search_function cr opts key val = Inr q' \<and> q = restrict_type q' dir) \<or>
        atom_text cr opts dir s = Inr q"
      using assms(2) r Inr p
      by (cases dir; cases s; auto simp: atom_with_options_def split: if_splits option.splits; blast)
    then show ?thesis using wf_search_function [OF assms(1)]
      by (auto simp: atom_text_def Let_def dest: wf_text_query)
  qed
qed

end
