(* ===== verification/Query_Eval.thy ===== *)
theory Query_Eval
  imports Query_Atom
begin

text \<open>
  Evaluation of queries on entries, \<open>core/src/query.rs\<close>: text matching (\<open>TextMatcher\<close>), term matching,
  and the two-valued and three-valued evaluators of queries. The lazily folded content that the source
  caches per row is a function of the content and is recomputed here; the scratch buffers do not show.
\<close>

section \<open>Matching text\<close>

definition word_char :: "crates \<Rightarrow> match_options \<Rightarrow> nat \<Rightarrow> bool" where
  "word_char cr opts c \<longleftrightarrow>
     c_alphanumeric cr c \<or> (o_target opts = Some TContent \<and> c = 95) \<or> c_combining_mark cr c"

definition boundary_ok :: "crates \<Rightarrow> match_options \<Rightarrow> str \<Rightarrow> str \<Rightarrow> bool" where
  "boundary_ok cr opts before after \<longleftrightarrow>
     (\<not> o_start opts \<or> before = []) \<and>
     (\<not> o_end opts \<or> after = []) \<and>
     (\<not> o_prefix opts \<or> \<not> (before \<noteq> [] \<and> word_char cr opts (last before))) \<and>
     (\<not> o_suffix opts \<or> \<not> (after \<noteq> [] \<and> word_char cr opts (hd after)))"

text \<open>
  The loop of \<open>matches_normalized\<close>: \<open>before\<close> is the haystack up to the offset, \<open>rest\<close> what follows.
  \<open>None\<close> is a slice off a character boundary; it is shown not to occur.
\<close>

function normalized_loop :: "crates \<Rightarrow> match_options \<Rightarrow> str \<Rightarrow> str \<Rightarrow> str \<Rightarrow> bool option" where
  "normalized_loop cr opts needle before rest =
     (case c_find cr (as_bytes needle) (as_bytes rest) of
        None \<Rightarrow> Some False
      | Some relative \<Rightarrow>
          (case split_bytes rest relative of
             None \<Rightarrow> None
           | Some (skipped, tail) \<Rightarrow>
               (case split_bytes tail (str_len needle) of
                  None \<Rightarrow> None
                | Some (_, after) \<Rightarrow>
                    if boundary_ok cr opts (before @ skipped) after then Some True
                    else (case tail of
                            [] \<Rightarrow> Some False
                          | c # cs \<Rightarrow> normalized_loop cr opts needle (before @ skipped @ [c]) cs))))"
  by pat_completeness auto
termination
  by (relation "measure (\<lambda>(_, _, _, _, rest). length rest)") (auto dest: split_bytes_append)

declare normalized_loop.simps [simp del]

definition matches_normalized :: "crates \<Rightarrow> text_matcher \<Rightarrow> str \<Rightarrow> bool" where
  "matches_normalized cr m haystack =
     (if o_whole (m_options m) then haystack = m_needle m
      else normalized_loop cr (m_options m) (m_needle m) [] haystack = Some True)"

definition regex_is_match :: "crates \<Rightarrow> regex \<Rightarrow> str \<Rightarrow> bool result" where
  "regex_is_match cr r s =
     (case c_regex_match cr r (as_bytes s) of
        Inr b \<Rightarrow> Inr b | Inl e \<Rightarrow> Inl (''PCRE2 matching failed: '' @ e))"

definition matcher_matches :: "crates \<Rightarrow> text_matcher \<Rightarrow> str \<Rightarrow> bool result" where
  "matcher_matches cr m haystack =
     (case m_regex m of
        Some r \<Rightarrow>
          if is_ascii haystack then regex_is_match cr r haystack
          else regex_is_match cr r
                 (if o_diacritics (m_options m) then c_nfc cr haystack else strip_marks cr haystack)
      | None \<Rightarrow>
          if is_ascii haystack \<and> o_sensitive (m_options m) then Inr (matches_normalized cr m haystack)
          else Inr (matches_normalized cr m (normalized cr haystack (m_options m))))"

text \<open>
  \<open>Path::parent\<close> of the standard library as text: trailing separators and \<open>.\<close> components are skipped,
  the last component is removed, and the rest is trimmed in the same way; the root is kept.
\<close>

definition last_component :: "str \<Rightarrow> str" where
  "last_component body = rev (takeWhile (\<lambda>c. c \<noteq> slash) (rev body))"

definition without_last :: "str \<Rightarrow> str" where
  "without_last body = take (length body - length (last_component body) - 1) body"

function trim_components :: "str \<Rightarrow> str" where
  "trim_components body =
     (if body = [] then []
      else if last_component body = [] \<or> last_component body = [46] then trim_components (without_last body)
      else body)"
  by pat_completeness auto
termination
  by (relation "measure length") (auto simp: without_last_def)

declare trim_components.simps [simp del]

definition normalized_parent :: "str \<Rightarrow> str" where
  "normalized_parent p =
     (let k = (if starts_with p (lit ''/'') \<or> p = lit ''.'' \<or> starts_with p (lit ''./'') then 1 else 0);
          body = trim_components (drop k p)
      in if body = [] then [] else take k p @ trim_components (without_last body))"

definition matches_file :: "crates \<Rightarrow> text_matcher \<Rightarrow> file_entry \<Rightarrow> field \<Rightarrow> bool result" where
  "matches_file cr m f fld =
     (if m_regex m = None \<and> \<not> o_sensitive (m_options m) then
        let v = (case (fld, o_diacritics (m_options m)) of
                   (Name, True) \<Rightarrow> view_of_str (folded_name f)
                 | (Name, False) \<Rightarrow> view_of_str (search_name f)
                 | (_, True) \<Rightarrow> folded_path f
                 | (_, False) \<Rightarrow> search_path f)
        in Inr (with_str v (\<lambda>s. matches_normalized cr m (if fld = Parent then normalized_parent s else s)))
      else with_str (entry_text f fld) (matcher_matches cr m))"

section \<open>Terms\<close>

definition rp_truth :: "resolved_predicate \<Rightarrow> file_entry \<Rightarrow> bool option" where
  "rp_truth r f =
     (let i = nat (id f mod 2 ^ 64) in
      if i \<in> rp_yes r then Some True else if i \<in> rp_unknown r then None else Some False)"

definition inside_range :: "f64 \<Rightarrow> f64 \<Rightarrow> bool \<Rightarrow> bool \<Rightarrow> f64 \<Rightarrow> bool" where
  "inside_range low high include_low include_high n \<longleftrightarrow>
     (if include_low then f64_le low n else f64_lt low n) \<and> (if include_high then f64_le n high else f64_lt n high)"

fun matches_numeric_value :: "query_term \<Rightarrow> f64 option \<Rightarrow> bool" where
  "matches_numeric_value (Unknown _ negate) value = ((value = None) \<noteq> negate)"
| "matches_numeric_value (Number _ low high include_low include_high negate) value =
     (case value of None \<Rightarrow> False | Some n \<Rightarrow> inside_range low high include_low include_high n \<noteq> negate)"
| "matches_numeric_value _ value = False"

definition numeric_field :: "str \<Rightarrow> file_entry \<Rightarrow> f64 option" where
  "numeric_field fld f =
     (if fld = lit ''size'' then (if is_dir f then None else Some (f64_of_int (int (size f))))
      else if fld = lit ''modified'' then Some (f64_of_int (modified f))
      else if fld = lit ''created'' then Some (f64_of_int (created f))
      else Option.bind (json_get (properties f) fld) as_f64)"

definition unknown_field :: "str \<Rightarrow> file_entry \<Rightarrow> bool" where
  "unknown_field fld f =
     (if fld = lit ''size'' then is_dir f
      else if fld = lit ''modified'' \<or> fld = lit ''created'' then False
      else Option.bind (json_get (properties f) fld) as_f64 = None)"

definition str_contains :: "str \<Rightarrow> str \<Rightarrow> bool" where
  "str_contains haystack needle \<longleftrightarrow> naive_find needle haystack \<noteq> None"

definition relation_error :: string where
  "relation_error = ''Relationship predicates require a search snapshot''"

fun term_matches :: "crates \<Rightarrow> query_term \<Rightarrow> file_entry \<Rightarrow> str option \<Rightarrow> bool result" where
  "term_matches cr (Related recursive q) f content = Inl relation_error"
| "term_matches cr (Resolved r) f content = Inr (rp_truth r f = Some True)"
| "term_matches cr (Flags bits) f content = Inr (and (flags f) bits \<noteq> 0)"
| "term_matches cr (Text fld needle sensitive) f content =
     Inr (if sensitive then
            with_str (entry_text f fld)
              (\<lambda>s. c_find cr (as_bytes needle) (as_bytes (if is_ascii s then s else c_nfc cr s)) \<noteq> None)
          else (case fld of
                  Name \<Rightarrow> c_find cr (as_bytes needle) (as_bytes (search_name f)) \<noteq> None
                | Path \<Rightarrow> view_contains (c_find cr) (search_path f) (as_bytes needle)
                | Parent \<Rightarrow> with_str (search_path f)
                    (\<lambda>s. c_find cr (as_bytes needle) (as_bytes (normalized_parent s)) \<noteq> None)))"
| "term_matches cr (Pattern fld r) f content =
     with_str (entry_text f fld) (\<lambda>s. regex_is_match cr r (if is_ascii s then s else c_nfc cr s))"
| "term_matches cr (Matched target m) f content =
     (case target of
        TField fld \<Rightarrow> matches_file cr m f fld
      | TContent \<Rightarrow> (case content of Some s \<Rightarrow> matcher_matches cr m s | None \<Rightarrow> Inr False)
      | TProperty key \<Rightarrow>
          (case Option.bind (json_get (properties f) key) as_str of
             Some s \<Rightarrow> matcher_matches cr m s | None \<Rightarrow> Inr False)
      | TExtension \<Rightarrow> matcher_matches cr m (extension f))"
| "term_matches cr (Extension exts) f content =
     Inr (if is_ascii (folded_extension f) then folded_extension f \<in> set exts
          else fold_search cr (extension f) \<in> set exts)"
| "term_matches cr (IsDir dir) f content = Inr (is_dir f = dir)"
| "term_matches cr IsSymlink f content = Inr (is_symlink f)"
| "term_matches cr Hidden f content = Inr (starts_with (name f) (lit ''.'') \<or> and (flags f) 0x8000 \<noteq> 0)"
| "term_matches cr (Content needle sensitive) f content =
     Inr (case content of
            None \<Rightarrow> False
          | Some s \<Rightarrow> str_contains (if sensitive then c_nfc cr s else fold_search cr s) needle)"
| "term_matches cr (PropertyText key needle) f content =
     Inr (case Option.bind (json_get (properties f) key) as_str of
            None \<Rightarrow> False | Some s \<Rightarrow> str_contains (fold_search cr s) needle)"
| "term_matches cr (Unknown fld negate) f content =
     Inr (if negate then \<not> unknown_field fld f else unknown_field fld f)"
| "term_matches cr (Number fld low high include_low include_high negate) f content =
     Inr (case numeric_field fld f of
            None \<Rightarrow> False
          | Some n \<Rightarrow>
              (if negate then \<not> inside_range low high include_low include_high n
               else inside_range low high include_low include_high n))"

section \<open>Static properties of queries\<close>

fun requires_relations :: "query \<Rightarrow> bool" and any_relations :: "query list \<Rightarrow> bool" where
  "requires_relations (QTerm t) =
     (case t of
        Related _ _ \<Rightarrow> True
      | Resolved _ \<Rightarrow> True
      | Number fld _ _ _ _ _ \<Rightarrow> is_metric fld
      | Unknown fld _ \<Rightarrow> is_metric fld
      | _ \<Rightarrow> False)"
| "requires_relations (QAnd qs) = any_relations qs"
| "requires_relations (QOr qs) = any_relations qs"
| "requires_relations (QNot q) = requires_relations q"
| "requires_relations QAll = False"
| "any_relations [] = False"
| "any_relations (q # qs) = (requires_relations q \<or> any_relations qs)"

fun requires_content :: "query \<Rightarrow> bool" and term_requires_content :: "query_term \<Rightarrow> bool"
  and any_content :: "query list \<Rightarrow> bool" where
  "requires_content (QTerm t) = term_requires_content t"
| "requires_content (QAnd qs) = any_content qs"
| "requires_content (QOr qs) = any_content qs"
| "requires_content (QNot q) = requires_content q"
| "requires_content QAll = False"
| "term_requires_content (Related _ q) = requires_content q"
| "term_requires_content (Content _ _) = True"
| "term_requires_content (Matched target _) = (target = TContent)"
| "term_requires_content _ = False"
| "any_content [] = False"
| "any_content (q # qs) = (requires_content q \<or> any_content qs)"

fun requires_properties :: "query \<Rightarrow> bool" and term_requires_properties :: "query_term \<Rightarrow> bool"
  and any_properties :: "query list \<Rightarrow> bool" where
  "requires_properties (QTerm t) = term_requires_properties t"
| "requires_properties (QAnd qs) = any_properties qs"
| "requires_properties (QOr qs) = any_properties qs"
| "requires_properties (QNot q) = requires_properties q"
| "requires_properties QAll = False"
| "term_requires_properties (Related _ q) = requires_properties q"
| "term_requires_properties (PropertyText _ _) = True"
| "term_requires_properties (Matched target _) = (case target of TProperty _ \<Rightarrow> True | _ \<Rightarrow> False)"
| "term_requires_properties (Number fld _ _ _ _ _) = numeric_property fld"
| "term_requires_properties (Unknown fld _) = numeric_property fld"
| "term_requires_properties _ = False"
| "any_properties [] = False"
| "any_properties (q # qs) = (requires_properties q \<or> any_properties qs)"

fun may_depend_on_clock :: "query \<Rightarrow> bool" and term_clock :: "query_term \<Rightarrow> bool" and any_clock :: "query list \<Rightarrow> bool" where
  "may_depend_on_clock (QTerm t) = term_clock t"
| "may_depend_on_clock (QAnd qs) = any_clock qs"
| "may_depend_on_clock (QOr qs) = any_clock qs"
| "may_depend_on_clock (QNot q) = may_depend_on_clock q"
| "may_depend_on_clock QAll = False"
| "term_clock (Related _ q) = may_depend_on_clock q"
| "term_clock (Number fld _ _ _ _ _) = (fld = lit ''modified'' \<or> fld = lit ''created'')"
| "term_clock _ = False"
| "any_clock [] = False"
| "any_clock (q # qs) = (may_depend_on_clock q \<or> any_clock qs)"

fun path_substring :: "query \<Rightarrow> (str \<times> path_text_mode) option" where
  "path_substring (QTerm (Text Path needle sensitive)) =
     Some (needle, if sensitive then Sensitive True else Search)"
| "path_substring (QTerm (Matched (TField Path) m)) =
     (let opts = m_options m in
      if m_regex m = None \<and> \<not> o_prefix opts \<and> \<not> o_suffix opts \<and> \<not> o_whole opts \<and> \<not> o_start opts \<and> \<not> o_end opts
      then Some (m_needle m,
             if o_sensitive opts then Sensitive (o_diacritics opts)
             else if o_diacritics opts then Folded else Search)
      else None)"
| "path_substring _ = None"

fun required_name_literals :: "query \<Rightarrow> str list" and all_name_literals :: "query list \<Rightarrow> str list" where
  "required_name_literals (QTerm t) =
     (case t of
        Text Name needle sensitive \<Rightarrow> if \<not> sensitive \<and> 3 \<le> str_len needle then [needle] else []
      | Matched (TField Name) m \<Rightarrow>
          if m_regex m = None \<and> 3 \<le> str_len (m_candidate_needle m) then [m_candidate_needle m] else []
      | _ \<Rightarrow> [])"
| "required_name_literals (QAnd qs) = all_name_literals qs"
| "required_name_literals _ = []"
| "all_name_literals [] = []"
| "all_name_literals (q # qs) = required_name_literals q @ all_name_literals qs"

section \<open>Evaluators\<close>

text \<open>The two-valued evaluator with early exits.\<close>

definition inner_term :: "crates \<Rightarrow> file_entry \<Rightarrow> str option \<Rightarrow> query_term \<Rightarrow> bool result" where
  "inner_term cr f content t =
     (case t of
        Content needle sensitive \<Rightarrow>
          if \<not> sensitive then
            Inr (case content of None \<Rightarrow> False | Some body \<Rightarrow> str_contains (fold_search cr body) needle)
          else term_matches cr t f content
      | Matched target m \<Rightarrow>
          if target = TContent \<and> m_regex m = None \<and> \<not> o_sensitive (m_options m) \<and> \<not> o_diacritics (m_options m) then
            Inr (case content of None \<Rightarrow> False | Some body \<Rightarrow> matches_normalized cr m (fold_search cr body))
          else term_matches cr t f content
      | _ \<Rightarrow> term_matches cr t f content)"

fun matches_inner :: "crates \<Rightarrow> file_entry \<Rightarrow> str option \<Rightarrow> query \<Rightarrow> bool result"
  and matches_all :: "crates \<Rightarrow> file_entry \<Rightarrow> str option \<Rightarrow> query list \<Rightarrow> bool result"
  and matches_any :: "crates \<Rightarrow> file_entry \<Rightarrow> str option \<Rightarrow> query list \<Rightarrow> bool result" where
  "matches_inner cr f content QAll = Inr True"
| "matches_inner cr f content (QAnd qs) = matches_all cr f content qs"
| "matches_inner cr f content (QOr qs) = matches_any cr f content qs"
| "matches_inner cr f content (QNot q) = bind_result (matches_inner cr f content q) (\<lambda>b. Inr (\<not> b))"
| "matches_inner cr f content (QTerm t) = inner_term cr f content t"
| "matches_all cr f content [] = Inr True"
| "matches_all cr f content (q # qs) =
     bind_result (matches_inner cr f content q) (\<lambda>b. if \<not> b then Inr False else matches_all cr f content qs)"
| "matches_any cr f content [] = Inr False"
| "matches_any cr f content (q # qs) =
     bind_result (matches_inner cr f content q) (\<lambda>b. if b then Inr True else matches_any cr f content qs)"

text \<open>
  The three-valued evaluators share the loops over operands: an operand with the deciding value ends
  the loop, an unknown operand is remembered. \<open>decides = False\<close> is a conjunction.
\<close>

fun truth_loop :: "('q \<Rightarrow> bool option result) \<Rightarrow> bool \<Rightarrow> bool \<Rightarrow> 'q list \<Rightarrow> bool option result" where
  "truth_loop ev decides unknown [] = Inr (if unknown then None else Some (\<not> decides))"
| "truth_loop ev decides unknown (q # qs) =
     bind_result (ev q) (\<lambda>v.
       if v = Some decides then Inr (Some decides) else truth_loop ev decides (unknown \<or> v = None) qs)"

lemma truth_loop_cong [fundef_cong]:
  "decides = decides' \<Longrightarrow> unknown = unknown' \<Longrightarrow> qs = qs' \<Longrightarrow> (\<And>q. q \<in> set qs' \<Longrightarrow> ev q = ev' q) \<Longrightarrow>
     truth_loop ev decides unknown qs = truth_loop ev' decides' unknown' qs'"
proof -
  have "(\<And>q. q \<in> set qs' \<Longrightarrow> ev q = ev' q) \<Longrightarrow> truth_loop ev decides' u qs' = truth_loop ev' decides' u qs'" for u
  proof (induction qs' arbitrary: u)
    case (Cons q qs)
    show ?case
    proof (cases "ev q")
      case (Inl e)
      then show ?thesis using Cons.prems [of q] by simp
    next
      case (Inr v)
      then show ?thesis using Cons.prems [of q] Cons.IH [of "u \<or> v = None"] Cons.prems by simp
    qed
  qed simp
  then show "decides = decides' \<Longrightarrow> unknown = unknown' \<Longrightarrow> qs = qs' \<Longrightarrow> (\<And>q. q \<in> set qs' \<Longrightarrow> ev q = ev' q) \<Longrightarrow>
     truth_loop ev decides unknown qs = truth_loop ev' decides' unknown' qs'" by simp
qed

text \<open>\<open>indexed_truth\<close>: unknown properties and missing content give an unknown value.\<close>

definition indexed_term :: "crates \<Rightarrow> file_entry \<Rightarrow> str option \<Rightarrow> query_term \<Rightarrow> bool option result" where
  "indexed_term cr f content t =
     (let other = (if content = None \<and> term_requires_content t then Inr None
                   else bind_result (inner_term cr f content t) (\<lambda>b. Inr (Some b)))
      in case t of
           Resolved r \<Rightarrow> Inr (rp_truth r f)
         | Related _ _ \<Rightarrow> Inl relation_error
         | PropertyText key _ \<Rightarrow> if json_get (properties f) key = None then Inr None else other
         | Matched (TProperty key) _ \<Rightarrow> if json_get (properties f) key = None then Inr None else other
         | Number fld _ _ _ _ _ \<Rightarrow>
             if numeric_property fld \<and> Option.bind (json_get (properties f) fld) as_f64 = None then Inr None else other
         | _ \<Rightarrow> other)"

fun indexed_truth :: "crates \<Rightarrow> file_entry \<Rightarrow> str option \<Rightarrow> query \<Rightarrow> bool option result" where
  "indexed_truth cr f content (QAnd qs) = truth_loop (indexed_truth cr f content) False False qs"
| "indexed_truth cr f content (QOr qs) = truth_loop (indexed_truth cr f content) True False qs"
| "indexed_truth cr f content (QNot q) =
     bind_result (indexed_truth cr f content q) (\<lambda>v. Inr (map_option (\<lambda>b. \<not> b) v))"
| "indexed_truth cr f content (QTerm t) = indexed_term cr f content t"
| "indexed_truth cr f content QAll = Inr (Some True)"

definition query_matches :: "crates \<Rightarrow> query \<Rightarrow> file_entry \<Rightarrow> str option \<Rightarrow> bool result" where
  "query_matches cr q f content =
     (if requires_relations q then bind_result (indexed_truth cr f content q) (\<lambda>v. Inr (v = Some True))
      else matches_inner cr f content q)"

text \<open>\<open>extraction_truth\<close>: content and properties are still to be extracted.\<close>

definition extraction_term :: "crates \<Rightarrow> file_entry \<Rightarrow> query_term \<Rightarrow> bool option result" where
  "extraction_term cr f t =
     (let other = bind_result (query_matches cr (QTerm t) f None) (\<lambda>b. Inr (Some b))
      in case t of
           Related _ _ \<Rightarrow> Inr None
         | Resolved r \<Rightarrow> Inr (rp_truth r f)
         | Content _ _ \<Rightarrow> Inr None
         | PropertyText _ _ \<Rightarrow> Inr None
         | Matched TContent _ \<Rightarrow> Inr None
         | Matched (TProperty _) _ \<Rightarrow> Inr None
         | Number fld _ _ _ _ _ \<Rightarrow> if numeric_property fld then Inr None else other
         | Unknown fld _ \<Rightarrow> if numeric_property fld then Inr None else other
         | _ \<Rightarrow> other)"

fun extraction_truth :: "crates \<Rightarrow> file_entry \<Rightarrow> query \<Rightarrow> bool option result" where
  "extraction_truth cr f (QAnd qs) = truth_loop (extraction_truth cr f) False False qs"
| "extraction_truth cr f (QOr qs) = truth_loop (extraction_truth cr f) True False qs"
| "extraction_truth cr f (QNot q) = bind_result (extraction_truth cr f q) (\<lambda>v. Inr (map_option (\<lambda>b. \<not> b) v))"
| "extraction_truth cr f (QTerm t) = extraction_term cr f t"
| "extraction_truth cr f QAll = bind_result (query_matches cr QAll f None) (\<lambda>b. Inr (Some b))"

definition may_match_before_extraction :: "crates \<Rightarrow> query \<Rightarrow> file_entry \<Rightarrow> bool result" where
  "may_match_before_extraction cr q f = bind_result (extraction_truth cr f q) (\<lambda>v. Inr (v \<noteq> Some False))"

text \<open>\<open>metadata_truth\<close>: only the content is missing.\<close>

definition metadata_term :: "crates \<Rightarrow> file_entry \<Rightarrow> query_term \<Rightarrow> bool option result" where
  "metadata_term cr f t =
     (case t of
        Related _ _ \<Rightarrow> Inr None
      | Resolved r \<Rightarrow> Inr (rp_truth r f)
      | Content _ _ \<Rightarrow> Inr None
      | Matched TContent _ \<Rightarrow> Inr None
      | _ \<Rightarrow> bind_result (term_matches cr t f None) (\<lambda>b. Inr (Some b)))"

fun metadata_truth :: "crates \<Rightarrow> file_entry \<Rightarrow> query \<Rightarrow> bool option result" where
  "metadata_truth cr f (QAnd qs) = truth_loop (metadata_truth cr f) False False qs"
| "metadata_truth cr f (QOr qs) = truth_loop (metadata_truth cr f) True False qs"
| "metadata_truth cr f (QNot q) = bind_result (metadata_truth cr f q) (\<lambda>v. Inr (map_option (\<lambda>b. \<not> b) v))"
| "metadata_truth cr f (QTerm t) = metadata_term cr f t"
| "metadata_truth cr f QAll = Inr (Some True)"

definition may_match_without_content :: "crates \<Rightarrow> query \<Rightarrow> file_entry \<Rightarrow> bool result" where
  "may_match_without_content cr q f = bind_result (metadata_truth cr f q) (\<lambda>v. Inr (v \<noteq> Some False))"

definition matches_available :: "crates \<Rightarrow> query \<Rightarrow> file_entry \<Rightarrow> str option \<Rightarrow> bool result" where
  "matches_available cr q f content =
     (if content = None \<and> requires_content q then bind_result (metadata_truth cr f q) (\<lambda>v. Inr (v = Some True))
      else query_matches cr q f content)"

section \<open>The text loop finds every admissible occurrence\<close>

lemma str_len_pos: "0 < str_len (c # cs)"
  by (simp add: str_len_def as_bytes_Cons)

lemma found_at_boundary:
  assumes "finder (c_find cr)" "c_find cr (as_bytes needle) (as_bytes rest) = Some i"
  shows "\<exists>a b. rest = a @ needle @ b \<and> i = str_len a"
proof -
  have "occurs_at (as_bytes needle) (as_bytes rest) i" "\<forall>j < i. \<not> occurs_at (as_bytes needle) (as_bytes rest) j"
    using finder.find_Some [OF assms] by simp_all
  then obtain us vs where us: "as_bytes rest = us @ as_bytes needle @ vs" "length us = i"
    by (auto simp: occurs_at_iff)
  show ?thesis
  proof (cases "needle = []")
    case True
    then have "occurs_at (as_bytes needle) (as_bytes rest) 0" by (simp add: occurs_at_0 starts_with_def)
    then have "i = 0" using \<open>\<forall>j < i. _ j\<close> by blast
    then show ?thesis using True by (intro exI [of _ "[]"] exI [of _ rest]) (simp add: str_len_def)
  next
    case False
    then show ?thesis using as_bytes_sync [OF us(1)] us(2) by (auto simp: str_len_def)
  qed
qed

lemma found_first:
  assumes "finder (c_find cr)" "c_find cr (as_bytes needle) (as_bytes (a @ b)) = Some (str_len a)"
    "a @ b = pre @ needle @ post"
  shows "\<exists>mid. pre = a @ mid"
proof -
  have "\<not> occurs_at (as_bytes needle) (as_bytes (a @ b)) (str_len pre) \<or> str_len a \<le> str_len pre"
    using finder.find_Some [OF assms(1,2)] by (metis linorder_not_le)
  moreover have "occurs_at (as_bytes needle) (as_bytes (a @ b)) (str_len pre)"
    unfolding assms(3) occurs_at_iff by (auto simp: str_len_def)
  ultimately have le: "str_len a \<le> str_len pre" by blast
  have "length a \<le> length pre"
  proof (rule ccontr)
    assume "\<not> ?thesis"
    then obtain c cs where "a = pre @ c # cs"
      using assms(3) by (metis append_eq_append_conv2 append_self_conv le_refl list.exhaust length_append le_add1)
    then show False using le str_len_pos [of c cs] by simp
  qed
  then show ?thesis using assms(3) by (metis append_eq_append_conv_if append_take_drop_id)
qed

lemma normalized_loop_spec:
  assumes "finder (c_find cr)"
  shows "normalized_loop cr opts needle before rest =
    Some (\<exists>pre post. rest = pre @ needle @ post \<and> boundary_ok cr opts (before @ pre) post)"
proof (induction "length rest" arbitrary: before rest rule: less_induct)
  case less
  show ?case
  proof (cases "c_find cr (as_bytes needle) (as_bytes rest)")
    case None
    then have "\<not> occurs needle rest"
      using finder.find_None [OF assms, of "as_bytes needle" "as_bytes rest"] by (simp add: occurs_as_bytes)
    then show ?thesis using None by (subst normalized_loop.simps) (auto simp: occurs_def)
  next
    case (Some i)
    obtain a b where ab: "rest = a @ needle @ b" "i = str_len a" using found_at_boundary [OF assms Some] by blast
    have s1: "split_bytes rest i = Some (a, needle @ b)" "split_bytes (needle @ b) (str_len needle) = Some (needle, b)"
      using split_bytes_complete [of a "needle @ b"] split_bytes_complete [of needle b] ab by simp_all
    have first: "\<exists>mid. pre = a @ mid" if "rest = pre @ needle @ post" for pre post
      using found_first [OF assms Some [unfolded ab]] that unfolding ab(1) by blast
    show ?thesis
    proof (cases "boundary_ok cr opts (before @ a) b")
      case True
      then show ?thesis using Some s1 ab by (subst normalized_loop.simps) auto
    next
      case no: False
      show ?thesis
      proof (cases "needle @ b")
        case Nil
        then have "pre = a \<and> post = []" if "rest = pre @ needle @ post" for pre post
          using first [OF that] that ab by auto
        then show ?thesis using Some s1 no Nil by (subst normalized_loop.simps) auto
      next
        case (Cons c cs)
        have "normalized_loop cr opts needle before rest = normalized_loop cr opts needle (before @ a @ [c]) cs"
          using Some s1 no Cons by (subst normalized_loop.simps) simp
        also have "\<dots> = Some (\<exists>pre post. cs = pre @ needle @ post \<and> boundary_ok cr opts ((before @ a @ [c]) @ pre) post)"
          using ab Cons by (intro less) simp
        also have "(\<exists>pre post. cs = pre @ needle @ post \<and> boundary_ok cr opts ((before @ a @ [c]) @ pre) post) \<longleftrightarrow>
            (\<exists>pre post. rest = pre @ needle @ post \<and> boundary_ok cr opts (before @ pre) post)" (is "?l \<longleftrightarrow> ?r")
        proof
          assume ?l
          then obtain pre post where "cs = pre @ needle @ post" "boundary_ok cr opts ((before @ a @ [c]) @ pre) post" by blast
          then show ?r using ab(1) Cons by (intro exI [of _ "a @ c # pre"] exI [of _ post]) simp
        next
          assume ?r
          then obtain pre post where r: "rest = pre @ needle @ post" "boundary_ok cr opts (before @ pre) post" by blast
          obtain mid where mid: "pre = a @ mid" using first [OF r(1)] by blast
          then have eq: "needle @ b = mid @ needle @ post" using r(1) ab(1) by simp
          then have "mid \<noteq> []" using no r(2) mid by auto
          then obtain mid' where "mid = c # mid'" using eq Cons by (cases mid) auto
          then show ?l using eq Cons r(2) mid by (intro exI [of _ mid'] exI [of _ post]) simp
        qed
        finally show ?thesis .
      qed
    qed
  qed
qed

end
