(* ===== verification/Query_Truth.thy ===== *)
theory Query_Truth
  imports Query_Eval
begin

text \<open>
  What the evaluators of queries promise each other: the text loop finds exactly the admissible
  occurrences, the three-valued evaluators never contradict the evaluation with everything at hand, and
  the literals that narrow a search through the name index are contained in every matching name.
\<close>

section \<open>Three-valued loops\<close>

lemma truth_loop_Some:
  "truth_loop ev d u qs = Inr (Some v) \<Longrightarrow>
     v = d \<and> (\<exists>q \<in> set qs. ev q = Inr (Some d)) \<or> v = (\<not> d) \<and> (\<forall>q \<in> set qs. ev q = Inr (Some (\<not> d)))"
proof (induction qs arbitrary: u)
  case (Cons q qs)
  then obtain w where w: "ev q = Inr w" by (cases "ev q") auto
  show ?case
  proof (cases "w = Some d")
    case True
    then show ?thesis using Cons.prems w by auto
  next
    case False
    then have rest: "truth_loop ev d (u \<or> w = None) qs = Inr (Some v)" using Cons.prems w by simp
    have "v = d" if "w = None"
    proof -
      have "truth_loop ev d True qs = Inr (Some v) \<Longrightarrow> v = d"
        by (induction qs) (auto split: if_splits)
      then show ?thesis using rest that by simp
    qed
    then show ?thesis using Cons.IH [OF rest] w False by (cases w) auto
  qed
qed (auto split: if_splits)

text \<open>Two evaluators that agree where both know the answer still do after a loop.\<close>

lemma truth_loops_agree:
  assumes "truth_loop ev d u qs = Inr (Some v)" "truth_loop ev' d u' qs = Inr (Some b)"
    "\<And>q v b. q \<in> set qs \<Longrightarrow> ev q = Inr (Some v) \<Longrightarrow> ev' q = Inr (Some b) \<Longrightarrow> b = v"
  shows "b = v"
  using truth_loop_Some [OF assms(1)] truth_loop_Some [OF assms(2)] assms(3) by metis

definition known :: "bool result \<Rightarrow> bool option result" where
  "known r = bind_result r (\<lambda>b. Inr (Some b))"

lemma known_Inr [simp]: "known r = Inr w \<longleftrightarrow> (\<exists>b. r = Inr b \<and> w = Some b)"
  by (cases r) (auto simp: known_def)

lemma known_loops:
  "known (matches_all cr f c qs) = truth_loop (\<lambda>q. known (matches_inner cr f c q)) False False qs"
  "known (matches_any cr f c qs) = truth_loop (\<lambda>q. known (matches_inner cr f c q)) True False qs"
proof -
  show "known (matches_all cr f c qs) = truth_loop (\<lambda>q. known (matches_inner cr f c q)) False False qs"
  proof (induction qs)
    case (Cons q qs)
    then show ?case by (cases "matches_inner cr f c q") (auto simp: known_def)
  qed (simp add: known_def)
  show "known (matches_any cr f c qs) = truth_loop (\<lambda>q. known (matches_inner cr f c q)) True False qs"
  proof (induction qs)
    case (Cons q qs)
    then show ?case by (cases "matches_inner cr f c q") (auto simp: known_def)
  qed (simp add: known_def)
qed

text \<open>
  The evaluation of a whole query by structural recursion over an evaluation of terms: all five
  evaluators have this form.
\<close>

fun truth :: "(query_term \<Rightarrow> bool option result) \<Rightarrow> query \<Rightarrow> bool option result" where
  "truth ev QAll = Inr (Some True)"
| "truth ev (QAnd qs) = truth_loop (truth ev) False False qs"
| "truth ev (QOr qs) = truth_loop (truth ev) True False qs"
| "truth ev (QNot q) = bind_result (truth ev q) (\<lambda>v. Inr (map_option (\<lambda>b. \<not> b) v))"
| "truth ev (QTerm t) = ev t"

fun query_terms :: "query \<Rightarrow> query_term list" where
  "query_terms QAll = []"
| "query_terms (QAnd qs) = concat (map query_terms qs)"
| "query_terms (QOr qs) = concat (map query_terms qs)"
| "query_terms (QNot q) = query_terms q"
| "query_terms (QTerm t) = [t]"

lemma known_inner: "known (matches_inner cr f c q) = truth (\<lambda>t. known (inner_term cr f c t)) q"
proof (induction q rule: query_terms.induct)
  case (2 qs)
  then show ?case by (simp add: known_loops cong: truth_loop_cong)
next
  case (3 qs)
  then show ?case by (simp add: known_loops cong: truth_loop_cong)
next
  case (4 q)
  have "known (matches_inner cr f c (QNot q)) =
      bind_result (known (matches_inner cr f c q)) (\<lambda>v. Inr (map_option (\<lambda>b. \<not> b) v))"
    by (cases "matches_inner cr f c q") (simp_all add: known_def)
  then show ?case using 4 by simp
qed (simp_all add: known_def)

lemma indexed_truth_eq: "indexed_truth cr f c q = truth (indexed_term cr f c) q"
  by (induction q rule: query_terms.induct) (simp_all cong: truth_loop_cong)

lemma metadata_truth_eq: "metadata_truth cr f q = truth (metadata_term cr f) q"
  by (induction q rule: query_terms.induct) (simp_all cong: truth_loop_cong)

lemma extraction_truth_eq: "extraction_truth cr f q = truth (extraction_term cr f) q"
  by (induction q rule: query_terms.induct)
    (simp_all add: query_matches_def cong: truth_loop_cong)

lemma truths_agree:
  assumes "\<And>t v b. t \<in> set (query_terms q) \<Longrightarrow> ev t = Inr (Some v) \<Longrightarrow> ev' t = Inr (Some b) \<Longrightarrow> b = v"
    "truth ev q = Inr (Some v)" "truth ev' q = Inr (Some b)"
  shows "b = v"
  using assms
proof (induction q arbitrary: v b rule: query_terms.induct)
  case (2 qs)
  have IH: "b' = v'" if "q \<in> set qs" "truth ev q = Inr (Some v')" "truth ev' q = Inr (Some b')" for q v' b'
  proof (rule "2.IH" [of q v' b'])
    show "b = v" if "t \<in> set (query_terms q)" "ev t = Inr (Some v)" "ev' t = Inr (Some b)" for t v b
      using "2.prems"(1) [of t v b] that \<open>q \<in> set qs\<close> by auto
  qed (use that in simp_all)
  show ?case using "2.prems"(2,3) unfolding truth.simps by (rule truth_loops_agree) (rule IH)
next
  case (3 qs)
  have IH: "b' = v'" if "q \<in> set qs" "truth ev q = Inr (Some v')" "truth ev' q = Inr (Some b')" for q v' b'
  proof (rule "3.IH" [of q v' b'])
    show "b = v" if "t \<in> set (query_terms q)" "ev t = Inr (Some v)" "ev' t = Inr (Some b)" for t v b
      using "3.prems"(1) [of t v b] that \<open>q \<in> set qs\<close> by auto
  qed (use that in simp_all)
  show ?case using "3.prems"(2,3) unfolding truth.simps by (rule truth_loops_agree) (rule IH)
next
  case (4 q)
  from "4.prems"(2,3) obtain w x where "truth ev q = Inr (Some w)" "v = (\<not> w)" "truth ev' q = Inr (Some x)" "b = (\<not> x)"
    by auto
  then show ?case using "4.IH" [of w x] "4.prems"(1) by simp
qed auto

section \<open>Evaluation without content\<close>

lemma inner_term_content:
  "\<not> term_requires_content t \<or> (\<exists>r q. t = Related r q) \<Longrightarrow> inner_term cr f c t = term_matches cr t f None"
  by (cases t) (auto simp: inner_term_def split: text_target.splits)

lemma metadata_term_inner:
  "metadata_term cr f t = Inr (Some v) \<Longrightarrow> inner_term cr f c t = Inr b \<Longrightarrow> b = v"
  using inner_term_content [of t cr f c]
  by (cases t) (auto simp: metadata_term_def split: text_target.splits)

lemma metadata_term_indexed:
  "metadata_term cr f t = Inr (Some v) \<Longrightarrow> indexed_term cr f c t = Inr (Some b) \<Longrightarrow> b = v"
  using metadata_term_inner [of cr f t v c b]
  by (cases t) (auto simp: metadata_term_def indexed_term_def Let_def split: text_target.splits if_splits)

lemma metadata_sound:
  assumes "metadata_truth cr f q = Inr (Some v)"
  shows "matches_inner cr f c q = Inr b \<Longrightarrow> b = v" "indexed_truth cr f c q = Inr (Some b) \<Longrightarrow> b = v"
proof -
  assume "matches_inner cr f c q = Inr b"
  then have "known (matches_inner cr f c q) = Inr (Some b)" by simp
  then have "truth (\<lambda>t. known (inner_term cr f c t)) q = Inr (Some b)" by (simp only: known_inner)
  then show "b = v"
    by (rule truths_agree [OF _ assms [unfolded metadata_truth_eq], rotated]) (auto dest: metadata_term_inner)
next
  assume "indexed_truth cr f c q = Inr (Some b)"
  then show "b = v"
    by (intro truths_agree [OF _ assms [unfolded metadata_truth_eq]])
      (auto simp: indexed_truth_eq dest: metadata_term_indexed)
qed

section \<open>Evaluation before extraction\<close>

text \<open>
  Extraction sets the properties of a row and whether its content is indexed. Numeric terms outside the
  extracted properties read the metadata; folder metrics have been resolved before.
\<close>

definition extracted :: "file_entry \<Rightarrow> json \<Rightarrow> bool \<Rightarrow> file_entry" where
  "extracted f p indexed = f\<lparr>properties := p, content_indexed := indexed\<rparr>"

lemma extracted_select [simp]:
  "id (extracted f p i) = id f"
  "size (extracted f p i) = size f"
  "modified (extracted f p i) = modified f"
  "created (extracted f p i) = created f"
  "flags (extracted f p i) = flags f"
  "path (extracted f p i) = path f"
  "name (extracted f p i) = name f"
  "folded_name (extracted f p i) = folded_name f"
  "folded_path (extracted f p i) = folded_path f"
  "search_name (extracted f p i) = search_name f"
  "search_path (extracted f p i) = search_path f"
  "parent (extracted f p i) = parent f"
  "extension (extracted f p i) = extension f"
  "folded_extension (extracted f p i) = folded_extension f"
  "is_dir (extracted f p i) = is_dir f"
  "is_symlink (extracted f p i) = is_symlink f"
  by (simp_all add: extracted_def)

definition metadata_field :: "str \<Rightarrow> bool" where
  "metadata_field fld \<longleftrightarrow> fld = lit ''size'' \<or> fld = lit ''modified'' \<or> fld = lit ''created''"

fun term_fields_known :: "query_term \<Rightarrow> bool" where
  "term_fields_known (Number fld _ _ _ _ _) = (metadata_field fld \<or> numeric_property fld)"
| "term_fields_known (Unknown fld _) = (metadata_field fld \<or> numeric_property fld)"
| "term_fields_known _ = True"

definition metrics_resolved :: "query \<Rightarrow> bool" where
  "metrics_resolved q = list_all term_fields_known (query_terms q)"

lemma metadata_not_metric: "metadata_field fld \<Longrightarrow> \<not> is_metric fld"
  by (auto simp: metadata_field_def is_metric_def lit_def)

lemma metadata_field_extracted:
  "metadata_field fld \<Longrightarrow> numeric_field fld (extracted f p i) = numeric_field fld f"
  "metadata_field fld \<Longrightarrow> unknown_field fld (extracted f p i) = unknown_field fld f"
  by (auto simp: metadata_field_def numeric_field_def unknown_field_def extracted_def)

lemma matches_file_extracted: "matches_file cr m (extracted f p i) fld = matches_file cr m f fld"
proof -
  have "entry_text (extracted f p i) fld = entry_text f fld" by (cases fld) simp_all
  then show ?thesis by (cases fld; cases "o_diacritics (m_options m)") (simp_all add: matches_file_def)
qed

lemma term_extracted:
  assumes "\<not> term_requires_properties t" "term_fields_known t"
  shows "term_matches cr t (extracted f p i) c = term_matches cr t f c"
proof -
  have e: "entry_text (extracted f p i) fld = entry_text f fld" for fld by (cases fld) (simp_all add: extracted_def)
  show ?thesis
    using assms metadata_field_extracted matches_file_extracted e
    by (cases t) (simp_all add: rp_truth_def split: text_target.splits field.splits)
qed

lemma extraction_term_inner:
  assumes "term_fields_known t" "extraction_term cr f t = Inr (Some v)" "inner_term cr (extracted f p i) c t = Inr b"
  shows "b = v"
proof -
  have r: "b = v" if "\<not> term_requires_properties t" "\<not> term_requires_content t \<or> (\<exists>r q. t = Related r q)"
      "term_matches cr t f None = Inr v"
    using term_extracted [OF that(1) assms(1), of cr f p i None] inner_term_content [OF that(2), of cr "extracted f p i" c]
      assms(3) that(3) by simp
  have q: "query_matches cr (QTerm t) f None = term_matches cr t f None" if "\<not> requires_relations (QTerm t)" "\<not> term_requires_content t"
    using that inner_term_content [of t cr f None] by (simp add: query_matches_def)
  show ?thesis
  proof (cases t)
    case (Resolved x)
    then show ?thesis using assms(2,3) by (simp add: extraction_term_def inner_term_def rp_truth_def extracted_def Let_def)
  next
    case (Matched target m)
    then show ?thesis using assms(2) r q by (auto simp: extraction_term_def Let_def split: text_target.splits)
  qed (use assms(1,2) r q metadata_not_metric in \<open>auto simp: extraction_term_def Let_def split: if_splits\<close>)
qed

lemma extraction_term_indexed:
  assumes "term_fields_known t" "extraction_term cr f t = Inr (Some v)" "indexed_term cr (extracted f p i) c t = Inr (Some b)"
  shows "b = v"
proof -
  have "inner_term cr (extracted f p i) c t = Inr b \<or> (\<exists>x. t = Resolved x)"
    using assms(3) by (cases t) (auto simp: indexed_term_def Let_def split: text_target.splits if_splits)
  then show ?thesis
  proof
    assume "inner_term cr (extracted f p i) c t = Inr b"
    then show ?thesis by (rule extraction_term_inner [OF assms(1,2)])
  next
    assume "\<exists>x. t = Resolved x"
    then show ?thesis using assms(2,3)
      by (auto simp: extraction_term_def indexed_term_def rp_truth_def extracted_def Let_def)
  qed
qed

lemma extraction_sound:
  assumes "metrics_resolved q" "extraction_truth cr f q = Inr (Some v)"
  shows "matches_inner cr (extracted f p i) c q = Inr b \<Longrightarrow> b = v"
    "indexed_truth cr (extracted f p i) c q = Inr (Some b) \<Longrightarrow> b = v"
proof -
  have k: "term_fields_known t" if "t \<in> set (query_terms q)" for t
    using assms(1) that by (simp add: metrics_resolved_def list_all_iff)
  assume "matches_inner cr (extracted f p i) c q = Inr b"
  then have "known (matches_inner cr (extracted f p i) c q) = Inr (Some b)" by simp
  then have "truth (\<lambda>t. known (inner_term cr (extracted f p i) c t)) q = Inr (Some b)" by (simp only: known_inner)
  then show "b = v"
    by (rule truths_agree [OF _ assms(2) [unfolded extraction_truth_eq], rotated]) (auto dest: k extraction_term_inner)
next
  have k: "term_fields_known t" if "t \<in> set (query_terms q)" for t
    using assms(1) that by (simp add: metrics_resolved_def list_all_iff)
  assume "indexed_truth cr (extracted f p i) c q = Inr (Some b)"
  then show "b = v"
    by (intro truths_agree [OF _ assms(2) [unfolded extraction_truth_eq]])
      (auto simp: indexed_truth_eq dest: k extraction_term_indexed)
qed

section \<open>Literals that narrow a search\<close>

lemma matches_normalized_spec:
  assumes "finder (c_find cr)"
  shows "matches_normalized cr m s \<longleftrightarrow>
    (if o_whole (m_options m) then s = m_needle m
     else \<exists>pre post. s = pre @ m_needle m @ post \<and> boundary_ok cr (m_options m) pre post)"
  by (simp add: matches_normalized_def normalized_loop_spec [OF assms])

lemma matches_normalized_occurs:
  "finder (c_find cr) \<Longrightarrow> matches_normalized cr m s \<Longrightarrow> occurs (m_needle m) s"
  by (auto simp: matches_normalized_spec occurs_def split: if_splits) (metis append_Nil append_Nil2)

lemma occurs_map: "occurs a b \<Longrightarrow> occurs (map g a) (map g b)"
  unfolding occurs_def by (metis map_append)

lemma occurs_ascii: "occurs a b \<Longrightarrow> is_ascii b \<Longrightarrow> is_ascii a"
  by (auto simp: occurs_def is_ascii_def)

text \<open>What the code relies on of Unicode normalisation (UAX 15), for the literals of matchers.\<close>

definition normalization_laws :: "crates \<Rightarrow> bool" where
  "normalization_laws cr \<longleftrightarrow>
     (\<forall>s. c_nfd cr (c_nfc cr s) = c_nfd cr s) \<and>
     (\<forall>s. is_ascii s \<longrightarrow> c_nfd cr s = s) \<and>
     (\<forall>c < 128. \<not> c_combining_mark cr c)"

lemma strip_marks_ascii: "normalization_laws cr \<Longrightarrow> is_ascii s \<Longrightarrow> strip_marks cr s = s"
  by (auto simp: normalization_laws_def strip_marks_def is_ascii_def list_all_iff intro!: filter_True)

lemma sensitive_literal:
  assumes "normalization_laws cr" "is_ascii t" "o_sensitive opts" "occurs (normalized cr s opts) t"
  shows "occurs (fold_search cr s) (to_ascii_lowercase t)"
proof -
  have low: "occurs (to_ascii_lowercase (normalized cr s opts)) (to_ascii_lowercase t)"
    using occurs_map [OF assms(4)] by (simp add: to_ascii_lowercase_def)
  have asc: "is_ascii (normalized cr s opts)" using occurs_ascii assms(2,4) by blast
  show ?thesis
  proof (cases "is_ascii s")
    case True
    then show ?thesis using low assms(3) by (simp add: normalized_def fold_search_def)
  next
    case False
    have "normalized cr s opts = strip_marks cr s"
    proof (cases "o_diacritics opts")
      case True
      then have n: "normalized cr s opts = c_nfc cr s" using False assms(3) by (simp add: normalized_def)
      have "strip_marks cr s = strip_marks cr (c_nfc cr s)"
        using assms(1) by (simp add: strip_marks_def normalization_laws_def)
      then show ?thesis using strip_marks_ascii [OF assms(1), of "c_nfc cr s"] asc n by simp
    qed (use False assms(3) in \<open>simp add: normalized_def\<close>)
    then show ?thesis using low asc False by (simp add: fold_search_def fold_text_def)
  qed
qed

definition stored_folds :: "crates \<Rightarrow> file_entry \<Rightarrow> bool" where
  "stored_folds cr f \<longleftrightarrow> search_name f = fold_search cr (name f) \<and> folded_name f = fold_text cr (name f)"

text \<open>
  The matcher of a literal in the mode that keeps diacritics but ignores case has to have an ASCII
  literal; in every other mode the literal is arbitrary.
\<close>

definition ascii_folded_literals :: "query \<Rightarrow> bool" where
  "ascii_folded_literals q \<longleftrightarrow> (\<forall>t \<in> set (query_terms q). \<forall>m. t = Matched (TField Name) m \<longrightarrow>
     o_diacritics (m_options m) \<and> \<not> o_sensitive (m_options m) \<longrightarrow> m_needle m = m_candidate_needle m)"

lemma matcher_fields:
  "text_matcher_new cr s opts w = Inr m \<Longrightarrow>
     m_needle m = normalized cr s opts \<and> m_candidate_needle m = fold_search cr s \<and> m_options m = opts"
  by (auto simp: text_matcher_new_def)

lemma matched_literals:
  "required_name_literals (QTerm (Matched target m)) =
     (if target = TField Name \<and> m_regex m = None \<and> 3 \<le> str_len (m_candidate_needle m)
      then [m_candidate_needle m] else [])"
proof (cases target)
  case (TField fld)
  then show ?thesis by (cases fld) simp_all
qed simp_all

lemma literal_term:
  assumes "finder (c_find cr)" "normalization_laws cr" "stored_folds cr f" "is_ascii (name f)" "wf_term cr t"
    "\<And>m. t = Matched (TField Name) m \<Longrightarrow> o_diacritics (m_options m) \<and> \<not> o_sensitive (m_options m) \<Longrightarrow>
       m_needle m = m_candidate_needle m"
    "inner_term cr f c t = Inr True" "l \<in> set (required_name_literals (QTerm t))"
  shows "occurs l (search_name f)"
proof (cases t)
  case (Text fld needle sensitive)
  have fld: "fld = Name" "\<not> sensitive" "l = needle"
    using assms(8) Text by (cases fld; simp split: if_splits)+
  have "c_find cr (as_bytes needle) (as_bytes (search_name f)) \<noteq> None"
    using assms(7) Text fld(1,2) by (simp add: inner_term_def)
  then show ?thesis using finder.find_is_some [OF assms(1)] occurs_as_bytes fld(3) by blast
next
  case (Matched target m)
  have tgt: "target = TField Name" and re: "m_regex m = None" and l: "l = m_candidate_needle m"
    using assms(8) unfolding Matched matched_literals by (auto split: if_splits)
  obtain s opts w where m: "text_matcher_new cr s opts w = Inr m" using assms(5) Matched by auto
  note mf = matcher_fields [OF m]
  have low: "search_name f = to_ascii_lowercase (name f)" "folded_name f = to_ascii_lowercase (name f)"
    using assms(3,4) by (simp_all add: stored_folds_def fold_search_def fold_text_def)
  have hit: "matches_file cr m f Name = Inr True" using assms(7) Matched tgt by (simp add: inner_term_def)
  show ?thesis
  proof (cases "o_sensitive opts")
    case True
    then have "matches_normalized cr m (name f)"
      using hit re mf assms(4) by (simp add: matches_file_def matcher_matches_def with_str_text view_of_str_def view_text_def)
    then have "occurs (normalized cr s opts) (name f)" using matches_normalized_occurs [OF assms(1)] mf by fastforce
    then show ?thesis using sensitive_literal [OF assms(2,4) True] mf l low by simp
  next
    case False
    then have "matches_normalized cr m (search_name f)"
      using hit re mf low by (simp add: matches_file_def with_str_text view_of_str_def view_text_def split: bool.splits)
    then have occ: "occurs (m_needle m) (search_name f)" by (rule matches_normalized_occurs [OF assms(1)])
    have "m_needle m = m_candidate_needle m"
    proof (cases "o_diacritics opts")
      case True
      then show ?thesis using assms(6) [of m] Matched tgt mf False by simp
    next
      case no: False
      then show ?thesis using mf False by (simp add: normalized_def fold_search_def)
    qed
    then show ?thesis using occ l by simp
  qed
qed (use assms(8) in \<open>simp_all\<close>)

lemma all_literals: "set (all_name_literals qs) = (\<Union>q \<in> set qs. set (required_name_literals q))"
  by (induction qs) simp_all

lemma matches_all_True: "matches_all cr f c qs = Inr True \<Longrightarrow> q \<in> set qs \<Longrightarrow> matches_inner cr f c q = Inr True"
  by (induction qs) (auto split: if_splits)

lemma literals_contained:
  assumes "finder (c_find cr)" "normalization_laws cr" "stored_folds cr f" "is_ascii (name f)"
  shows "wf_query cr q \<Longrightarrow> ascii_folded_literals q \<Longrightarrow> matches_inner cr f c q = Inr True \<Longrightarrow>
    l \<in> set (required_name_literals q) \<Longrightarrow> occurs l (search_name f)"
proof (induction q rule: query_terms.induct)
  case (2 qs)
  then obtain q where q: "q \<in> set qs" "l \<in> set (required_name_literals q)" by (auto simp: all_literals)
  moreover have "ascii_folded_literals q" using "2.prems"(2) q(1) by (auto simp: ascii_folded_literals_def)
  moreover have "wf_query cr q" using "2.prems"(1) q(1) by (simp add: wf_queries_iff)
  ultimately show ?case using "2.IH" matches_all_True "2.prems"(3) by simp
next
  case (5 t)
  then show ?case
    using literal_term [OF assms, of t c l] by (simp add: ascii_folded_literals_def)
qed simp_all

section \<open>Properties\<close>

text \<open>
  C17: the literal matcher never slices a text off a character boundary, and it accepts a text exactly
  when some occurrence of the needle satisfies the requested start, end and word boundaries (or, for a
  whole match, when the text is the needle). The hypothesis is the contract of the substring search.
\<close>

theorem matcher_finds_admissible_occurrence:
  assumes "finder (c_find cr)"
  shows "normalized_loop cr (m_options m) (m_needle m) [] s \<noteq> None \<and>
    (matches_normalized cr m s \<longleftrightarrow>
      (if o_whole (m_options m) then s = m_needle m
       else \<exists>pre post. s = pre @ m_needle m @ post \<and> boundary_ok cr (m_options m) pre post))"
  using normalized_loop_spec [OF assms] matches_normalized_spec [OF assms] by simp_all

theorem matcher_finds_admissible_occurrence_witness:
  "normalized_loop plain_crates (default_options 0) [98] [] [97, 98, 252] \<noteq> None"
  using matcher_finds_admissible_occurrence
    [of plain_crates "\<lparr>m_needle = [98], m_candidate_needle = [98], m_regex = None, m_options = default_options 0\<rparr>"
       "[97, 98, 252]"] naive.finder_axioms
  by (simp add: plain_crates_def)



text \<open>
  C15: evaluation before extraction is conservative. A row that cannot match before its properties and its
  content are extracted matches for no extracted properties and no content. The hypothesis is that
  folder metrics have been resolved, as they are before rows are evaluated.
\<close>

theorem extraction_evaluation_sound:
  assumes "metrics_resolved q" "may_match_before_extraction cr q f = Inr False"
  shows "query_matches cr q (extracted f p indexed) content \<noteq> Inr True"
proof -
  have "extraction_truth cr f q = Inr (Some False)" using assms(2) by (auto simp: may_match_before_extraction_def)
  from extraction_sound [OF assms(1) this, of p indexed content] show ?thesis by (auto simp: query_matches_def)
qed

theorem extraction_evaluation_sound_witness:
  "query_matches plain_crates (QAnd [QTerm (PropertyText (lit ''artist'') [97]), QTerm (IsDir True)])
     (extracted sample_entry (JObject [(lit ''artist'', JString [97])]) True) None \<noteq> Inr True"
  by (rule extraction_evaluation_sound)
    (simp_all add: metrics_resolved_def may_match_before_extraction_def extraction_term_def query_matches_def
      inner_term_def sample_entry_def Let_def)

text \<open>
  C16: narrowing a search by the literals of a query loses no row with an ASCII name: every literal a
  query requires is contained in the folded name of every matching row. The hypotheses are the contract
  of the substring search, laws of Unicode normalisation, that the row stores its folded names, and that
  literals in the mode that keeps diacritics but ignores case fold alike in both ways, as ASCII ones do.
\<close>

theorem required_literals_contained:
  assumes "finder (c_find cr)" "normalization_laws cr" "stored_folds cr f" "is_ascii (name f)"
    "wf_query cr q" "ascii_folded_literals q" "matches_inner cr f c q = Inr True"
    "l \<in> set (required_name_literals q)"
  shows "occurs (as_bytes l) (as_bytes (search_name f))"
  using literals_contained [OF assms] by (simp add: occurs_as_bytes)

theorem required_literals_contained_witness:
  "occurs (as_bytes (lit ''abc'')) (as_bytes (search_name
     (sample_entry\<lparr>name := lit ''xAbC'', search_name := lit ''xabc'', folded_name := lit ''xabc''\<rparr>)))"
proof (rule required_literals_contained [where cr = plain_crates and c = None
      and q = "QAnd [QTerm (Text Name (lit ''abc'') False)]"])
  show "finder (c_find plain_crates)" using naive.finder_axioms by (simp add: plain_crates_def)
  show "normalization_laws plain_crates" by (simp add: normalization_laws_def plain_crates_def)
  show "stored_folds plain_crates
      (sample_entry\<lparr>name := lit ''xAbC'', search_name := lit ''xabc'', folded_name := lit ''xabc''\<rparr>)"
    by (simp add: stored_folds_def fold_search_def fold_text_def is_ascii_def to_ascii_lowercase_def ascii_lower_def lit_def)
  show "wf_query plain_crates (QAnd [QTerm (Text Name (lit ''abc'') False)])"
    by (auto simp: fold_search_def is_ascii_def to_ascii_lowercase_def ascii_lower_def lit_def intro!: exI [of _ "lit ''abc''"])
qed (simp_all add: is_ascii_def lit_def ascii_folded_literals_def inner_term_def plain_crates_def starts_with_def
      str_len_def as_bytes_def utf8_char_def)

text \<open>
  A fragment of Unicode: the Hangul syllables HA (U+D558) and HAN (U+D55C) with their decompositions.
\<close>

fun compose_hangul :: "str \<Rightarrow> str" where
  "compose_hangul (a # b # c # s) =
     (if a = 0x1112 \<and> b = 0x1161 \<and> c = 0x11AB then 0xD55C # compose_hangul s
      else if a = 0x1112 \<and> b = 0x1161 then 0xD558 # compose_hangul (c # s)
      else a # compose_hangul (b # c # s))"
| "compose_hangul [a, b] = (if a = 0x1112 \<and> b = 0x1161 then [0xD558] else [a, b])"
| "compose_hangul s = s"

definition decompose_hangul :: "str \<Rightarrow> str" where
  "decompose_hangul s = concat (map (\<lambda>c. if c = 0xD55C then [0x1112, 0x1161, 0x11AB]
     else if c = 0xD558 then [0x1112, 0x1161] else [c]) s)"

definition hangul_crates :: crates where
  "hangul_crates = plain_crates\<lparr>c_nfc := (\<lambda>s. compose_hangul (decompose_hangul s)), c_nfd := decompose_hangul,
     c_fold_string := (\<lambda>s. s)\<rparr>"

definition case_options :: match_options where
  "case_options = (default_options 0)\<lparr>o_sensitive := True, o_target := Some (TField Name)\<rparr>"

definition hangul_matcher :: text_matcher where
  "hangul_matcher = \<lparr>m_needle = [0x1112, 0x1161], m_candidate_needle = [0xD558], m_regex = None, m_options = case_options\<rparr>"

definition hangul_entry :: file_entry where
  "hangul_entry = sample_entry\<lparr>name := [0xD55C], search_name := [0xD55C], folded_name := [0xD55C]\<rparr>"

text \<open>
  C0: outside ASCII the narrowing can lose rows. With case sensitivity and without diacritics the
  evaluator compares decomposed texts, while the literal for the index is composed: the file named HAN
  matches the query \<open>case:\<close>HA, but its folded name does not contain the literal HA that the query
  requires of candidates.
\<close>

theorem composed_literal_lost:
  "text_matcher_new hangul_crates [0xD558] case_options False = Inr hangul_matcher \<and>
   stored_folds hangul_crates hangul_entry \<and>
   matches_inner hangul_crates hangul_entry None (QTerm (Matched (TField Name) hangul_matcher)) = Inr True \<and>
   required_name_literals (QTerm (Matched (TField Name) hangul_matcher)) = [[0xD558]] \<and>
   \<not> occurs (as_bytes [0xD558]) (as_bytes (search_name hangul_entry))"
proof (intro conjI)
  note defs = hangul_crates_def plain_crates_def decompose_hangul_def is_ascii_def
  show "text_matcher_new hangul_crates [0xD558] case_options False = Inr hangul_matcher"
    by (simp add: text_matcher_new_def hangul_matcher_def case_options_def default_options_def normalized_def
        strip_marks_def fold_search_def fold_text_def defs)
  show "stored_folds hangul_crates hangul_entry"
    by (simp add: stored_folds_def hangul_entry_def strip_marks_def fold_search_def fold_text_def defs)
  have "\<exists>pre post. [0x1112, 0x1161, 0x11AB] = pre @ [0x1112, 0x1161 :: nat] @ post"
    by (rule exI [of _ "[]"], rule exI [of _ "[0x11AB]"]) simp
  then have "matches_normalized hangul_crates hangul_matcher [0x1112, 0x1161, 0x11AB]"
    using matches_normalized_spec [of hangul_crates hangul_matcher "[0x1112, 0x1161, 0x11AB]"] naive.finder_axioms
    by (simp add: hangul_crates_def plain_crates_def hangul_matcher_def case_options_def default_options_def boundary_ok_def)
  then show "matches_inner hangul_crates hangul_entry None (QTerm (Matched (TField Name) hangul_matcher)) = Inr True"
    by (simp add: inner_term_def matches_file_def matcher_matches_def hangul_matcher_def case_options_def default_options_def
        hangul_entry_def with_str_def view_of_str_def normalized_def strip_marks_def defs)
  show "required_name_literals (QTerm (Matched (TField Name) hangul_matcher)) = [[0xD558]]"
    by (simp add: hangul_matcher_def str_len_def as_bytes_def utf8_char_def)
  show "\<not> occurs (as_bytes [0xD558]) (as_bytes (search_name hangul_entry))"
    unfolding occurs_as_bytes by (auto simp: hangul_entry_def occurs_def Cons_eq_append_conv)
qed

end
