(* ===== verification/Natural_Order.thy ===== *)
theory Natural_Order
  imports Text "HOL-Library.Product_Lexorder"
begin

text \<open>
  The natural ordering of names and paths: \<open>natural_cmp_folded\<close> of \<open>core/src/query.rs\<close> and the
  \<open>natural_cmp\<close> of a split text in \<open>core/src/text_view.rs\<close>. Both compare runs of digits as numbers
  without computing them. The theory gives the ordering a denotation as lists of tokens, from
  which follow that it is a total preorder, that digit runs compare by value at any length, and
  that the split-text comparison is the same function.
\<close>

section \<open>Definitions\<close>

text \<open>
  The source walks two byte slices with indexes; here the arguments are the remaining suffixes.
  Skipping zeros, taking the digit run and moving past it are \<open>dropWhile\<close> and \<open>takeWhile\<close>.
\<close>

definition skip_zeros :: "byte list \<Rightarrow> byte list" where
  "skip_zeros xs = dropWhile (\<lambda>b. b = 48) xs"

definition digit_run :: "byte list \<Rightarrow> byte list" where
  "digit_run xs = takeWhile is_ascii_digit xs"

definition after_run :: "byte list \<Rightarrow> byte list" where
  "after_run xs = dropWhile is_ascii_digit xs"

definition run_cmp :: "byte list \<Rightarrow> byte list \<Rightarrow> ordering" where
  "run_cmp xs ys = then_with (prim_cmp (length xs) (length ys)) (slice_cmp xs ys)"

lemma length_skip_zeros: "length (skip_zeros xs) \<le> length xs"
  by (simp add: skip_zeros_def length_dropWhile_le)

lemma length_after_run: "length (after_run xs) \<le> length xs"
  by (simp add: after_run_def length_dropWhile_le)

lemma after_run_digit: "is_ascii_digit x \<Longrightarrow> length (after_run (skip_zeros (x # xs))) < Suc (length xs)"
  using length_after_run [of "skip_zeros xs"] length_skip_zeros [of xs] length_after_run [of xs]
  by (auto simp: skip_zeros_def after_run_def)

function natural_cmp_folded :: "byte list \<Rightarrow> byte list \<Rightarrow> ordering" where
  "natural_cmp_folded a b =
     (if a \<noteq> [] \<and> b \<noteq> []
      then if is_ascii_digit (hd a) \<and> is_ascii_digit (hd b)
           then let a' = skip_zeros a; b' = skip_zeros b;
                    order = run_cmp (digit_run a') (digit_run b')
                in if order \<noteq> Equal then order else natural_cmp_folded (after_run a') (after_run b')
           else let order = prim_cmp (hd a) (hd b)
                in if order \<noteq> Equal then order else natural_cmp_folded (tl a) (tl b)
      else prim_cmp (length a) (length b))"
  by pat_completeness auto
termination
proof (relation "measure (\<lambda>(a, b). length a)", goal_cases)
  case (2 a b)
  then show ?case using after_run_digit [of "hd a" "tl a"] by (cases a) auto
qed auto

declare natural_cmp_folded.simps [simp del]

text \<open>
  The loop of \<open>TextView::natural_cmp\<close> over two peekable byte iterators. The runs are cloned from
  the iterators and counted, compared as iterators, and then skipped by their counts; when a side
  is exhausted the peeked options are compared, with \<open>None\<close> least.
\<close>

definition peek :: "'a list \<Rightarrow> 'a option" where
  "peek xs = (case xs of [] \<Rightarrow> None | x # _ \<Rightarrow> Some x)"

fun option_cmp :: "nat option \<Rightarrow> nat option \<Rightarrow> ordering" where
  "option_cmp None None = Equal"
| "option_cmp None (Some y) = Less"
| "option_cmp (Some x) None = Greater"
| "option_cmp (Some x) (Some y) = prim_cmp x y"

function view_natural_loop :: "byte list \<Rightarrow> byte list \<Rightarrow> ordering" where
  "view_natural_loop left right =
     (case (peek left, peek right) of
        (Some a, Some b) \<Rightarrow>
          (if is_ascii_digit a \<and> is_ascii_digit b
           then let left' = skip_zeros left; right' = skip_zeros right;
                    first = digit_run left'; second = digit_run right';
                    order = then_with (prim_cmp (length first) (length second)) (slice_cmp first second)
                in if order \<noteq> Equal then order
                   else view_natural_loop (drop (length first) left') (drop (length second) right')
           else let order = prim_cmp a b
                in if order \<noteq> Equal then order else view_natural_loop (tl left) (tl right))
      | (a, b) \<Rightarrow> option_cmp a b)"
  by pat_completeness auto
termination
proof (relation "measure (\<lambda>(a, b). length a)", goal_cases)
  case (2 left right p x y a b)
  then obtain as where left: "left = y # as" by (cases left) (auto simp: peek_def)
  have "drop (length (digit_run (skip_zeros left))) (skip_zeros left) = after_run (skip_zeros left)"
    by (simp add: digit_run_def after_run_def dropWhile_eq_drop)
  then show ?case using 2 after_run_digit [of y as] by (simp add: left)
next
  case (3 left right p x y a b)
  then show ?case by (cases left) (auto simp: peek_def)
qed simp

declare view_natural_loop.simps [simp del]

definition view_natural_cmp :: "text_view \<Rightarrow> text_view \<Rightarrow> ordering" where
  "view_natural_cmp v w =
     (let p = as_bytes (prefix v)
      in if prefix v = prefix w \<and> (p = [] \<or> \<not> is_ascii_digit (last p))
         then natural_cmp_folded (as_bytes (suffix v)) (as_bytes (suffix w))
         else view_natural_loop (view_bytes v) (view_bytes w))"

section \<open>Tokens\<close>

text \<open>A run of digits without its leading zeros, or a single byte that is no digit.\<close>

datatype token = Num "byte list" | Byte byte

function tokens :: "byte list \<Rightarrow> token list" where
  "tokens a =
     (if a = [] then []
      else if is_ascii_digit (hd a)
      then Num (digit_run (skip_zeros a)) # tokens (after_run (skip_zeros a))
      else Byte (hd a) # tokens (tl a))"
  by pat_completeness auto
termination
proof (relation "measure length", goal_cases)
  case (2 a)
  then show ?case using after_run_digit [of "hd a" "tl a"] by (cases a) auto
qed auto

declare tokens.simps [simp del]

lemma tokens_Nil [simp]: "tokens [] = []"
  by (simp add: tokens.simps)

lemma tokens_digit:
  "is_ascii_digit x \<Longrightarrow> tokens (x # xs) = Num (digit_run (skip_zeros (x # xs))) # tokens (after_run (skip_zeros (x # xs)))"
  by (subst tokens.simps) simp

lemma tokens_byte [simp]: "\<not> is_ascii_digit x \<Longrightarrow> tokens (x # xs) = Byte x # tokens xs"
  by (subst tokens.simps) simp

fun token_cmp :: "token \<Rightarrow> token \<Rightarrow> ordering" where
  "token_cmp (Num x) (Num y) = run_cmp x y"
| "token_cmp (Num x) (Byte c) = prim_cmp 48 c"
| "token_cmp (Byte c) (Num y) = prim_cmp c 48"
| "token_cmp (Byte c) (Byte d) = prim_cmp c d"

text \<open>The value a run of digits denotes.\<close>

fun run_value :: "byte list \<Rightarrow> nat" where
  "run_value [] = 0"
| "run_value (d # ds) = (d - 48) * 10 ^ length ds + run_value ds"

definition canonical_run :: "byte list \<Rightarrow> bool" where
  "canonical_run ds \<longleftrightarrow> list_all is_ascii_digit ds \<and> (ds \<noteq> [] \<longrightarrow> hd ds \<noteq> 48)"

lemma canonical_digit_run: "canonical_run (digit_run (skip_zeros xs))"
proof -
  have "hd (digit_run (skip_zeros xs)) \<noteq> 48" if "digit_run (skip_zeros xs) \<noteq> []"
  proof -
    have "skip_zeros xs \<noteq> []" using that by (auto simp: digit_run_def)
    then have "hd (skip_zeros xs) \<noteq> 48" using hd_dropWhile [of "\<lambda>b. b = 48" xs] by (simp add: skip_zeros_def)
    moreover have "hd (digit_run (skip_zeros xs)) = hd (skip_zeros xs)"
      using that by (cases "skip_zeros xs") (auto simp: digit_run_def split: if_splits)
    ultimately show ?thesis by simp
  qed
  then show ?thesis
    by (auto simp: canonical_run_def digit_run_def list_all_iff dest: set_takeWhileD)
qed

lemma run_value_bound: "list_all is_ascii_digit ds \<Longrightarrow> run_value ds < 10 ^ length ds"
proof (induction ds)
  case (Cons d ds)
  then have "d - 48 \<le> 9" by (auto simp: is_ascii_digit_def)
  then have "(d - 48) * 10 ^ length ds \<le> 9 * 10 ^ length ds" by (rule mult_le_mono1)
  moreover have "run_value ds < 10 ^ length ds" using Cons by simp
  ultimately show ?case unfolding run_value.simps length_Cons power_Suc by linarith
qed simp

lemma run_value_lower:
  assumes "canonical_run (d # ds)"
  shows "10 ^ length ds \<le> run_value (d # ds)"
proof -
  have "1 \<le> d - 48" using assms by (auto simp: canonical_run_def is_ascii_digit_def)
  then have "1 * 10 ^ length ds \<le> (d - 48) * 10 ^ length ds" by (rule mult_le_mono1)
  then show ?thesis unfolding run_value.simps by linarith
qed

lemma digit_value_less:
  assumes "is_ascii_digit x" "is_ascii_digit y" "x < y" "length xs = length ys" "list_all is_ascii_digit xs"
  shows "run_value (x # xs) < run_value (y # ys)"
proof -
  have "(x - 48) + 1 \<le> y - 48" using assms(1-3) by (auto simp: is_ascii_digit_def)
  then have "((x - 48) + 1) * 10 ^ length xs \<le> (y - 48) * 10 ^ length xs" by (rule mult_le_mono1)
  then have "(x - 48) * 10 ^ length xs + 10 ^ length xs \<le> (y - 48) * 10 ^ length ys"
    by (simp add: assms(4) algebra_simps)
  then show ?thesis using run_value_bound [OF assms(5)] unfolding run_value.simps by linarith
qed

lemma slice_cmp_value:
  "length xs = length ys \<Longrightarrow> list_all is_ascii_digit xs \<Longrightarrow> list_all is_ascii_digit ys \<Longrightarrow>
     slice_cmp xs ys = prim_cmp (run_value xs) (run_value ys)"
proof (induction xs ys rule: list_induct2)
  case (Cons x xs y ys)
  show ?case
  proof (cases x y rule: linorder_cases)
    case equal
    then show ?thesis using Cons by (simp add: prim_cmp_def)
  next
    case less
    then show ?thesis using digit_value_less [of x y xs ys] Cons by (simp add: prim_cmp_def)
  next
    case greater
    then show ?thesis using digit_value_less [of y x ys xs] Cons by (simp add: prim_cmp_def)
  qed
qed (simp add: prim_cmp_def)

lemma shorter_run_less:
  assumes "canonical_run xs" "canonical_run ys" "length xs < length ys"
  shows "run_value xs < run_value ys"
proof -
  obtain d ds where ys: "ys = d # ds" using assms(3) by (cases ys) auto
  have "run_value xs < 10 ^ length xs" using assms(1) run_value_bound by (simp add: canonical_run_def)
  also have "\<dots> \<le> 10 ^ length ds" using assms(3) ys by (intro power_increasing) auto
  also have "\<dots> \<le> run_value ys" using run_value_lower assms(2) ys by simp
  finally show ?thesis .
qed

text \<open>Comparing lengths and then bytes is comparing the numbers, at any length.\<close>

lemma run_cmp_value:
  assumes "canonical_run xs" "canonical_run ys"
  shows "run_cmp xs ys = prim_cmp (run_value xs) (run_value ys)"
proof (cases "length xs" "length ys" rule: linorder_cases)
  case less
  then show ?thesis using shorter_run_less [OF assms less] by (simp add: run_cmp_def prim_cmp_def)
next
  case greater
  then show ?thesis using shorter_run_less [OF assms(2,1) greater] by (simp add: run_cmp_def prim_cmp_def)
next
  case equal
  then have "slice_cmp xs ys = prim_cmp (run_value xs) (run_value ys)"
    using slice_cmp_value assms by (simp add: canonical_run_def)
  then show ?thesis using equal by (simp add: run_cmp_def prim_cmp_def)
qed

section \<open>The ordering is the ordering of the token lists\<close>

lemma digit_against_byte:
  "is_ascii_digit x \<Longrightarrow> \<not> is_ascii_digit c \<Longrightarrow> prim_cmp x c = prim_cmp 48 c \<and> prim_cmp c x = prim_cmp c 48 \<and> prim_cmp 48 c \<noteq> Equal"
  by (auto simp: is_ascii_digit_def prim_cmp_def)

lemma natural_cmp_digits:
  "is_ascii_digit x \<Longrightarrow> is_ascii_digit y \<Longrightarrow> natural_cmp_folded (x # xs) (y # ys) =
     (let a' = skip_zeros (x # xs); b' = skip_zeros (y # ys); order = run_cmp (digit_run a') (digit_run b')
      in if order \<noteq> Equal then order else natural_cmp_folded (after_run a') (after_run b'))"
  by (subst natural_cmp_folded.simps) simp

lemma natural_cmp_byte:
  "\<not> (is_ascii_digit x \<and> is_ascii_digit y) \<Longrightarrow> natural_cmp_folded (x # xs) (y # ys) =
     (if x = y then natural_cmp_folded xs ys else prim_cmp x y)"
  by (subst natural_cmp_folded.simps) (auto simp: Let_def)

lemma natural_cmp_Nil [simp]: "natural_cmp_folded [] b = prim_cmp 0 (length b)" "natural_cmp_folded a [] = prim_cmp (length a) 0"
  by (simp_all add: natural_cmp_folded.simps)

lemma tokens_eq_Nil [simp]: "tokens a = [] \<longleftrightarrow> a = []"
  by (subst tokens.simps) simp

lemma list_cmp_Nil: "list_cmp c [] ys = (if ys = [] then Equal else Less)" "list_cmp c xs [] = (if xs = [] then Equal else Greater)"
  by (cases ys; simp) (cases xs; simp)

lemma natural_cmp_tokens: "natural_cmp_folded a b = list_cmp token_cmp (tokens a) (tokens b)"
proof (induction a b rule: natural_cmp_folded.induct)
  case (1 a b)
  show ?case
  proof (cases "a = [] \<or> b = []")
    case True
    then show ?thesis by (auto simp: list_cmp_Nil prim_cmp_def)
  next
    case False
    then obtain x xs y ys where ab: "a = x # xs" "b = y # ys" by (cases a; cases b) auto
    show ?thesis
    proof (cases "is_ascii_digit x \<and> is_ascii_digit y")
      case True
      let ?c = "run_cmp (digit_run (skip_zeros a)) (digit_run (skip_zeros b))"
      have "?c = Equal \<Longrightarrow> natural_cmp_folded (after_run (skip_zeros a)) (after_run (skip_zeros b)) =
          list_cmp token_cmp (tokens (after_run (skip_zeros a))) (tokens (after_run (skip_zeros b)))"
        using "1.IH"(1) False True ab by simp
      then show ?thesis using True
        by (cases ?c) (simp_all add: ab natural_cmp_digits tokens_digit Let_def)
    next
      case no: False
      show ?thesis
      proof (cases "x = y")
        case True
        then have "natural_cmp_folded xs ys = list_cmp token_cmp (tokens xs) (tokens ys)"
          using "1.IH"(2) False no ab by (simp add: prim_cmp_def)
        then show ?thesis using True no by (simp add: ab natural_cmp_byte prim_cmp_def)
      next
        case neq: False
        then show ?thesis
          using no digit_against_byte [of x y] digit_against_byte [of y x]
          by (cases "is_ascii_digit x"; cases "is_ascii_digit y")
            (auto simp: ab natural_cmp_byte tokens_digit prim_cmp_def)
      qed
    qed
  qed
qed

text \<open>A prefix that does not end in a digit can be cut off: it is a whole number of tokens.\<close>

lemma tokens_append:
  "p = [] \<or> \<not> is_ascii_digit (last p) \<Longrightarrow> tokens (p @ s) = tokens p @ tokens s"
proof (induction p rule: tokens.induct)
  case (1 p)
  show ?case
  proof (cases p)
    case (Cons x xs)
    show ?thesis
    proof (cases "is_ascii_digit x")
      case True
      have stop: "\<exists>y \<in> set (skip_zeros p). \<not> is_ascii_digit y" "\<exists>y \<in> set p. y \<noteq> 48"
      proof -
        have l: "last p \<in> set p" "\<not> is_ascii_digit (last p)" using "1.prems" Cons by auto
        then show "\<exists>y \<in> set p. y \<noteq> 48" by (intro bexI [of _ "last p"]) (auto simp: is_ascii_digit_def)
        then have "skip_zeros p \<noteq> []" by (auto simp: skip_zeros_def dropWhile_eq_Nil_conv)
        then have "last (skip_zeros p) = last p" by (metis skip_zeros_def last_append takeWhile_dropWhile_id)
        with l(2) \<open>skip_zeros p \<noteq> []\<close> show "\<exists>y \<in> set (skip_zeros p). \<not> is_ascii_digit y" by (metis last_in_set)
      qed
      have z: "skip_zeros (p @ s) = skip_zeros p @ s"
        using stop(2) by (auto simp: skip_zeros_def dropWhile_append1)
      have r: "digit_run (skip_zeros p @ s) = digit_run (skip_zeros p)" "after_run (skip_zeros p @ s) = after_run (skip_zeros p) @ s"
        using stop(1) by (auto simp: digit_run_def after_run_def takeWhile_append1 dropWhile_append1)
      have "after_run (skip_zeros p) \<noteq> []" using stop(1) by (auto simp: after_run_def dropWhile_eq_Nil_conv)
      then have "last (after_run (skip_zeros p)) = last p"
        by (metis after_run_def skip_zeros_def last_append takeWhile_dropWhile_id dropWhile_eq_Nil_conv empty_iff empty_set)
      then have "tokens (after_run (skip_zeros p) @ s) = tokens (after_run (skip_zeros p)) @ tokens s"
        using "1.IH"(1) "1.prems" Cons True by simp
      then show ?thesis
        using tokens_digit [OF True, of "xs @ s"] tokens_digit [OF True, of xs] z r
        by (simp add: Cons)
    next
      case False
      then have "tokens (xs @ s) = tokens xs @ tokens s"
        using "1.IH"(2) "1.prems" Cons by (auto split: if_splits)
      then show ?thesis using False Cons by simp
    qed
  qed simp
qed

lemma run_cmp_self [simp]: "run_cmp x x = Equal"
  by (simp add: run_cmp_def)

lemma token_cmp_self [simp]: "token_cmp t t = Equal"
  by (cases t) simp_all

lemma list_cmp_append_same:
  "(\<And>x. c x x = Equal) \<Longrightarrow> list_cmp c (zs @ xs) (zs @ ys) = list_cmp c xs ys"
  by (induction zs) simp_all

lemma natural_cmp_cancel_prefix:
  assumes "p = [] \<or> \<not> is_ascii_digit (last p)"
  shows "natural_cmp_folded (p @ s) (p @ t) = natural_cmp_folded s t"
  using assms by (simp add: natural_cmp_tokens tokens_append list_cmp_append_same)

lemma view_natural_loop_eq: "view_natural_loop a b = natural_cmp_folded a b"
proof (induction a b rule: view_natural_loop.induct)
  case (1 a b)
  show ?case
  proof (cases "a = [] \<or> b = []")
    case True
    then show ?thesis
      by (subst view_natural_loop.simps) (cases a; cases b; auto simp: peek_def prim_cmp_def)
  next
    case False
    then obtain x xs y ys where ab: "a = x # xs" "b = y # ys" by (cases a; cases b) auto
    have run: "drop (length (digit_run zs)) zs = after_run zs" for zs
      by (simp add: digit_run_def after_run_def dropWhile_eq_drop)
    show ?thesis
    proof (cases "is_ascii_digit x \<and> is_ascii_digit y")
      case True
      let ?c = "run_cmp (digit_run (skip_zeros a)) (digit_run (skip_zeros b))"
      have "?c = Equal \<Longrightarrow> view_natural_loop (after_run (skip_zeros a)) (after_run (skip_zeros b)) =
          natural_cmp_folded (after_run (skip_zeros a)) (after_run (skip_zeros b))"
      proof -
        assume "?c = Equal"
        then have d: "digit_run (skip_zeros a) = digit_run (skip_zeros b)" by (simp add: run_cmp_def)
        then have "drop (length (digit_run (skip_zeros b))) (skip_zeros a) = after_run (skip_zeros a)"
          by (metis run)
        then show ?thesis
          using "1.IH"(1) [of "peek a" "peek b" x y] True ab d by (simp add: peek_def run)
      qed
      then show ?thesis using True
        by (subst view_natural_loop.simps)
          (auto simp: ab peek_def natural_cmp_digits run Let_def run_cmp_def simp del: then_with_Equal)
    next
      case no: False
      have "x = y \<Longrightarrow> view_natural_loop xs ys = natural_cmp_folded xs ys"
        using "1.IH"(2) [of "peek a" "peek b" x y] no ab by (simp add: peek_def prim_cmp_def)
      then show ?thesis using no
        by (subst view_natural_loop.simps) (auto simp: ab peek_def natural_cmp_byte Let_def)
    qed
  qed
qed

lemma view_natural_cmp_text:
  "view_natural_cmp v w = natural_cmp_folded (as_bytes (view_text v)) (as_bytes (view_text w))"
  using natural_cmp_cancel_prefix [of "as_bytes (prefix v)"]
  by (auto simp: view_natural_cmp_def Let_def view_natural_loop_eq view_bytes_text view_text_def)

section \<open>The key of a name\<close>

text \<open>
  A digit run becomes the pair of the digit position and its value, any other byte the pair of
  itself and \<open>0\<close>. The natural order is the lexicographic order of these keys.
\<close>

fun token_key :: "token \<Rightarrow> nat \<times> nat" where
  "token_key (Num ds) = (48, run_value ds)"
| "token_key (Byte c) = (c, 0)"

definition natural_key :: "byte list \<Rightarrow> (nat \<times> nat) list" where
  "natural_key a = map token_key (tokens a)"

fun proper_token :: "token \<Rightarrow> bool" where
  "proper_token (Num ds) = canonical_run ds"
| "proper_token (Byte c) = (\<not> is_ascii_digit c)"

lemma proper_tokens: "t \<in> set (tokens a) \<Longrightarrow> proper_token t"
proof (induction a rule: tokens.induct)
  case (1 a)
  then show ?case
    by (subst (asm) tokens.simps) (auto simp: canonical_digit_run split: if_splits)
qed

lemma token_cmp_key:
  "proper_token t \<Longrightarrow> proper_token u \<Longrightarrow> token_cmp t u = prim_cmp (token_key t) (token_key u)"
  by (cases t; cases u) (auto simp: run_cmp_value prim_cmp_def is_ascii_digit_def)

lemma list_cmp_key:
  "\<forall>t \<in> set ts. proper_token t \<Longrightarrow> \<forall>u \<in> set us. proper_token u \<Longrightarrow>
     list_cmp token_cmp ts us = slice_cmp (map token_key ts) (map token_key us)"
proof (induction ts arbitrary: us)
  case Nil
  then show ?case by (cases us) simp_all
next
  case (Cons t ts)
  then show ?case by (cases us) (simp_all add: token_cmp_key)
qed

lemma natural_cmp_key: "natural_cmp_folded a b = slice_cmp (natural_key a) (natural_key b)"
  using proper_tokens by (simp add: natural_cmp_tokens natural_key_def list_cmp_key)

lemma comparator_natural: "comparator natural_cmp_folded"
proof -
  have "natural_cmp_folded = (\<lambda>a b. slice_cmp (natural_key a) (natural_key b))"
    by (intro ext) (rule natural_cmp_key)
  then show ?thesis
    using comparator_key [OF slice_comparator.comparator_axioms, of natural_key] by simp
qed

interpretation natural: comparator natural_cmp_folded
  by (rule comparator_natural)

section \<open>Properties\<close>

text \<open>
  C19: the natural comparison, which never computes a number, is the lexicographic comparison of keys
  in which every digit run stands for its value: it is a total preorder, and two runs of any length
  compare by value.
\<close>

theorem natural_cmp_by_value:
  "natural_cmp_folded a b = slice_cmp (natural_key a) (natural_key b) \<and> comparator natural_cmp_folded"
  by (simp add: natural_cmp_key comparator_natural)

text \<open>The comparison of two split paths, which skips a shared prefix without reading it, agrees with
  the comparison of the joined texts; backing up to a digit run that the prefix boundary cuts is
  enough.\<close>

lemma view_natural_cmp_joined:
  "view_natural_cmp v w = natural_cmp_folded (as_bytes (view_text v)) (as_bytes (view_text w))"
  by (fact view_natural_cmp_text)

end
