(* ===== verification/Ordered_Merge.thy ===== *)
theory Ordered_Merge
  imports Prelude
begin

text \<open>
  \<open>core/src/ordered_merge.rs\<close>: inserting a sorted delta into a sorted slot vector in place. The
  insertion offsets are found by galloping, then the vector is grown once and its runs are moved
  from the back. The theorem is that the whole routine is the stable merge \<open>merge_by\<close>.
\<close>

section \<open>Definitions\<close>

text \<open>
  The galloping loop probes \<open>0, 1, 3, 7, \<dots>\<close>. The source multiplies and adds with saturation;
  \<open>gallop_bound\<close> below shows that the probe stays under twice the length of the vector, far from
  \<open>usize::MAX\<close>, so the saturation never acts.
\<close>

function gallop :: "('a \<Rightarrow> 'a \<Rightarrow> ordering) \<Rightarrow> 'a list \<Rightarrow> 'a \<Rightarrow> nat \<Rightarrow> nat \<Rightarrow> nat \<times> nat" where
  "gallop cmp remaining r low high =
     (if high < length remaining \<and> cmp (remaining ! high) r \<noteq> Greater
      then gallop cmp remaining r (high + 1) (high * 2 + 1)
      else (low, high))"
  by pat_completeness auto
termination
  by (relation "measure (\<lambda>(cmp, remaining, r, low, high). length remaining - high)") auto

declare gallop.simps [simp del]

definition insert_position :: "('a \<Rightarrow> 'a \<Rightarrow> ordering) \<Rightarrow> 'a list \<Rightarrow> nat \<Rightarrow> 'a \<Rightarrow> nat" where
  "insert_position cmp slots cursor r =
     (let remaining = drop cursor slots;
          (low, high) = gallop cmp remaining r 0 0;
          e = min high (length remaining)
      in cursor + low + partition_point (\<lambda>s. cmp s r \<noteq> Greater) (subslice remaining low e))"

fun insert_positions :: "('a \<Rightarrow> 'a \<Rightarrow> ordering) \<Rightarrow> 'a list \<Rightarrow> nat \<Rightarrow> 'a list \<Rightarrow> nat list" where
  "insert_positions cmp slots cursor [] = []"
| "insert_positions cmp slots cursor (r # rs) =
     (let cursor' = insert_position cmp slots cursor r
      in cursor' # insert_positions cmp slots cursor' rs)"

text \<open>\<open>slice::copy_within(start..e, dest)\<close>.\<close>

definition copy_within :: "'a list \<Rightarrow> nat \<Rightarrow> nat \<Rightarrow> nat \<Rightarrow> 'a list" where
  "copy_within xs start e dest = take dest xs @ subslice xs start e @ drop (dest + (e - start)) xs"

text \<open>The loop \<open>for index in (0..replacements.len()).rev()\<close>; the last argument is one past \<open>index\<close>.\<close>

fun place_runs :: "'a list \<Rightarrow> nat list \<Rightarrow> 'a list \<Rightarrow> nat \<Rightarrow> nat \<Rightarrow> 'a list" where
  "place_runs slots positions replacements e 0 = slots"
| "place_runs slots positions replacements e (Suc index) =
     (let start = positions ! index;
          moved = copy_within slots start e (start + index + 1)
      in place_runs (moved[start + index := replacements ! index]) positions replacements start index)"

definition insert_sorted :: "('a::zero \<Rightarrow> 'a \<Rightarrow> ordering) \<Rightarrow> 'a list \<Rightarrow> 'a list \<Rightarrow> 'a list" where
  "insert_sorted cmp slots replacements =
     (if replacements = [] then slots
      else let positions = insert_positions cmp slots 0 replacements;
               e = length slots;
               resized = slots @ replicate (length replacements) 0
           in place_runs resized positions replacements e (length replacements))"

section \<open>Galloping finds the insertion point\<close>

lemma gallop_bound:
  "low \<le> length remaining \<Longrightarrow> high < 2 * length remaining + 2 \<Longrightarrow>
   gallop cmp remaining r low high = (l, h) \<Longrightarrow> l \<le> length remaining \<and> h < 2 * length remaining + 2"
proof (induction cmp remaining r low high rule: gallop.induct)
  case (1 cmp remaining r low high)
  show ?case
  proof (cases "high < length remaining \<and> cmp (remaining ! high) r \<noteq> Greater")
    case True
    then show ?thesis
      using "1.IH" "1.prems" by (simp add: gallop.simps [of cmp remaining r low high])
  next
    case False
    then have "gallop cmp remaining r low high = (low, high)"
      by (subst gallop.simps) (simp only: if_False)
    then show ?thesis using "1.prems" by simp
  qed
qed

text \<open>The spine of the merge without any comparison: runs of the old vector between the new elements.\<close>

fun weave :: "'a list \<Rightarrow> nat \<Rightarrow> nat list \<Rightarrow> 'a list \<Rightarrow> 'a list" where
  "weave xs c (p # ps) (r # rs) = subslice xs c p @ r # weave xs p ps rs"
| "weave xs c _ _ = drop c xs"

context comparator
begin

lemma gallop_correct:
  "sorted_by cmp remaining \<Longrightarrow> low \<le> length remaining \<Longrightarrow>
   \<forall>i < low. cmp (remaining ! i) r \<noteq> Greater \<Longrightarrow> gallop cmp remaining r low high = (l, h) \<Longrightarrow>
   l \<le> length remaining \<and> (\<forall>i < l. cmp (remaining ! i) r \<noteq> Greater) \<and>
   (h < length remaining \<longrightarrow> cmp (remaining ! h) r = Greater) \<and> (low \<le> high \<longrightarrow> l \<le> h)"
proof (induction "length remaining - high" arbitrary: low high rule: less_induct)
  case less
  show ?case
  proof (cases "high < length remaining \<and> cmp (remaining ! high) r \<noteq> Greater")
    case True
    then have below: "\<forall>i < high + 1. cmp (remaining ! i) r \<noteq> Greater"
      using sorted_prefix_le [OF less.prems(1), of _ high r] by auto
    have "gallop cmp remaining r (high + 1) (high * 2 + 1) = (l, h)"
      using True less.prems(4) by (simp add: gallop.simps [of cmp remaining r low high])
    then show ?thesis
      using less.hyps [of "high * 2 + 1" "high + 1"] True below less.prems(1) by simp
  next
    case False
    then have "l = low" "h = high"
      using less.prems(4) by (auto simp: gallop.simps [of cmp remaining r low high])
    with False less.prems show ?thesis by auto
  qed
qed

lemma insert_position_eq:
  assumes "sorted_by cmp slots"
  shows "insert_position cmp slots cursor r =
    cursor + partition_point (\<lambda>s. cmp s r \<noteq> Greater) (drop cursor slots)"
proof -
  let ?rem = "drop cursor slots" and ?p = "\<lambda>s. cmp s r \<noteq> Greater"
  obtain l h where lh: "gallop cmp ?rem r 0 0 = (l, h)" by (cases "gallop cmp ?rem r 0 0")
  let ?e = "min h (length ?rem)"
  let ?n = "partition_point ?p (subslice ?rem l ?e)"
  have facts: "l \<le> length ?rem" "\<And>i. i < l \<Longrightarrow> ?p (?rem ! i)" "l \<le> h"
      "h < length ?rem \<Longrightarrow> cmp (?rem ! h) r = Greater"
    using gallop_correct [OF sorted_by_drop [OF assms] _ _ lh] by auto
  have len: "length (subslice ?rem l ?e) = ?e - l"
    by (simp add: min_def) linarith
  have n: "?n \<le> ?e - l" using partition_point_le [of ?p "subslice ?rem l ?e"] by (simp only: len)
  have "partition_point ?p ?rem = l + ?n"
  proof (rule partition_point_unique)
    show "l + ?n \<le> length ?rem" using n facts(1,3) by linarith
    fix i assume i: "i < l + ?n"
    show "?p (?rem ! i)"
    proof (cases "i < l")
      case False
      then have k: "i - l < ?n" using i by simp
      then have "?p (subslice ?rem l ?e ! (i - l))" by (rule partition_point_before)
      moreover have "i - l < ?e - l" "l + (i - l) < length ?rem"
        using k n False by linarith+
      ultimately have "?p (?rem ! (l + (i - l)))"
        using nth_subslice [of "i - l" ?e l ?rem] by simp
      then show ?thesis using False by simp
    qed (rule facts(2))
  next
    assume less: "l + ?n < length ?rem"
    show "\<not> ?p (?rem ! (l + ?n))"
    proof (cases "?n < ?e - l")
      case True
      then have "?n < length (subslice ?rem l ?e)" by (simp only: len)
      then have "\<not> ?p (subslice ?rem l ?e ! ?n)" by (rule partition_point_at)
      then show ?thesis using True less nth_subslice [of ?n ?e l ?rem] by simp
    next
      case False
      then have "l + ?n = ?e" using n facts(1,3) by linarith
      then show ?thesis using less facts(4) by (auto simp: min_def split: if_splits)
    qed
  qed
  then show ?thesis by (simp add: insert_position_def lh Let_def)
qed

lemma weave_insert_positions:
  "sorted_by cmp slots \<Longrightarrow> c \<le> length slots \<Longrightarrow>
   weave slots c (insert_positions cmp slots c rs) rs = merge_by cmp (drop c slots) rs"
proof (induction rs arbitrary: c)
  case (Cons r rs)
  let ?p = "\<lambda>s. cmp s r \<noteq> Greater"
  let ?n = "partition_point ?p (drop c slots)"
  have pos: "insert_position cmp slots c r = c + ?n"
    by (rule insert_position_eq [OF Cons.prems(1)])
  have n: "c + ?n \<le> length slots"
    using partition_point_le [of ?p "drop c slots"] Cons.prems(2) by simp
  have run: "subslice slots c (c + ?n) = takeWhile ?p (drop c slots)"
    by (simp add: subslice_def take_partition_point)
  have rest: "drop (c + ?n) slots = dropWhile ?p (drop c slots)"
    by (metis drop_drop drop_partition_point add.commute)
  have "weave slots (c + ?n) (insert_positions cmp slots (c + ?n) rs) rs =
      merge_by cmp (drop (c + ?n) slots) rs"
    by (rule Cons.IH [OF Cons.prems(1) n])
  then show ?case
    by (simp add: pos run rest Let_def merge_by_take_while [of cmp "drop c slots"])
qed simp

lemma insert_positions_mono:
  "sorted_by cmp slots \<Longrightarrow> c \<le> length slots \<Longrightarrow>
   sorted (c # insert_positions cmp slots c rs) \<and>
   (\<forall>p \<in> set (insert_positions cmp slots c rs). p \<le> length slots)"
proof (induction rs arbitrary: c)
  case (Cons r rs)
  have pos: "insert_position cmp slots c r = c + partition_point (\<lambda>s. cmp s r \<noteq> Greater) (drop c slots)"
    by (rule insert_position_eq [OF Cons.prems(1)])
  then have "insert_position cmp slots c r \<le> length slots"
    using partition_point_le [of "\<lambda>s. cmp s r \<noteq> Greater" "drop c slots"] Cons.prems(2) by simp
  with Cons.IH [OF Cons.prems(1) this] pos show ?case by (auto simp: Let_def)
qed simp

end

section \<open>Moving the runs in place\<close>

lemma insert_positions_length [simp]:
  "length (insert_positions cmp slots c rs) = length rs"
  by (induction rs arbitrary: c) (simp_all add: Let_def)

text \<open>One step of the reverse loop: the hole of \<open>Suc i\<close> cells shrinks by one behind the moved run.\<close>

lemma place_step:
  assumes "start \<le> e" "e \<le> length xs" "length hole = Suc i"
  obtains hole' where "length hole' = i"
    "(copy_within (take e xs @ hole @ tl') start e (start + i + 1))[start + i := r] =
     take start xs @ hole' @ r # subslice xs start e @ tl'"
proof -
  let ?s = "take e xs @ hole @ tl'"
  let ?hole = "take i (drop start ?s)"
  have "take start ?s = take start xs"
    using assms(1,2) by (simp add: min_absorb1)
  then have pre: "take (start + i + 1) ?s = take start xs @ take (i + 1) (drop start ?s)"
    using take_add [of start "i + 1" ?s] by (simp only: add.assoc)
  have len: "length (take (i + 1) (drop start ?s)) = i + 1"
    using assms by simp
  then have split: "take (i + 1) (drop start ?s) = ?hole @ [drop start ?s ! i]"
    by (metis Suc_eq_plus1 lessI length_take min_less_iff_conj take_Suc_conv_app_nth)
  have lenh: "length ?hole = i" using assms by simp
  have run: "subslice ?s start e = subslice xs start e"
    using assms(1,2) by (simp add: subslice_def drop_take)
  have rest: "drop (start + i + 1 + (e - start)) ?s = tl'"
    using assms by simp
  have "copy_within ?s start e (start + i + 1) =
      take start xs @ ?hole @ (drop start ?s ! i) # subslice xs start e @ tl'"
    by (simp only: copy_within_def pre split run rest append_assoc append_Cons append_Nil)
  moreover have "start + i = length (take start xs) + length ?hole"
    by (subst lenh) (use assms(1,2) in simp)
  ultimately have "(copy_within ?s start e (start + i + 1))[start + i := r] =
      take start xs @ ?hole @ r # subslice xs start e @ tl'"
    by (simp only: list_update_after)
  with lenh show ?thesis by (rule that)
qed

lemma place_runs_weave:
  "i \<le> length rs \<Longrightarrow> length ps = length rs \<Longrightarrow> sorted ps \<Longrightarrow> e \<le> length xs \<Longrightarrow>
   \<forall>p \<in> set (take i ps). p \<le> e \<Longrightarrow> length hole = i \<Longrightarrow>
   place_runs (take e xs @ hole @ tl') ps rs e i =
     weave (take e xs) 0 (take i ps) (take i rs) @ tl'"
proof (induction i arbitrary: e hole tl')
  case (Suc i)
  let ?start = "ps ! i"
  have i: "i < length ps" using Suc.prems(1,2) by simp
  then have start: "?start \<le> e" using Suc.prems(5) by (simp add: take_Suc_conv_app_nth)
  obtain hole' where hole': "length hole' = i"
      "(copy_within (take e xs @ hole @ tl') ?start e (?start + i + 1))[?start + i := rs ! i] =
       take ?start xs @ hole' @ rs ! i # subslice xs ?start e @ tl'"
    using place_step [OF start Suc.prems(4,6)] by metis
  have below: "\<forall>p \<in> set (take i ps). p \<le> ?start"
    using Suc.prems(3) i by (auto simp: in_set_conv_nth sorted_nth_mono)
  have "place_runs (take e xs @ hole @ tl') ps rs e (Suc i) =
      place_runs (take ?start xs @ hole' @ (rs ! i # subslice xs ?start e @ tl')) ps rs ?start i"
    by (simp add: Let_def hole'(2)[simplified])
  also have "\<dots> = weave (take ?start xs) 0 (take i ps) (take i rs) @ rs ! i # subslice xs ?start e @ tl'"
    using Suc.IH [OF _ Suc.prems(2,3) _ below hole'(1)] Suc.prems(1,4) start by simp
  also have "weave (take ?start xs) 0 (take i ps) (take i rs) @ rs ! i # subslice xs ?start e @ tl' =
      weave (take e xs) 0 (take (Suc i) ps) (take (Suc i) rs) @ tl'"
  proof -
    have "weave (take ?start xs) c qs ss @ rs ! i # subslice xs ?start e =
        weave (take e xs) c (qs @ [?start]) (ss @ [rs ! i])"
      if "length qs = length ss" "sorted (c # qs)" "\<forall>q \<in> set (c # qs). q \<le> ?start" for c qs ss
      using that
    proof (induction qs ss arbitrary: c rule: list_induct2)
      case Nil
      then show ?case using start Suc.prems(4)
        by (simp add: subslice_def drop_take min_absorb1)
    next
      case (Cons q qs s ss)
      have "subslice (take ?start xs) c q = subslice (take e xs) c q"
        using Cons.prems start by (simp add: subslice_def drop_take min_absorb1 diff_le_mono)
      then show ?case using Cons by simp
    qed
    from this [of "take i ps" "take i rs" 0] show ?thesis
      using i Suc.prems(1-3) below
      by (simp add: take_Suc_conv_app_nth sorted_wrt_take)
  qed
  finally show ?case by simp
qed simp

section \<open>The routine is the stable merge\<close>

context comparator
begin

lemma insert_sorted_merge:
  assumes "sorted_by cmp slots" "length hole = length rs"
  shows "place_runs (slots @ hole) (insert_positions cmp slots 0 rs) rs (length slots) (length rs) =
    merge_by cmp slots rs"
proof -
  let ?ps = "insert_positions cmp slots 0 rs"
  have ps: "sorted ?ps" "\<forall>p \<in> set ?ps. p \<le> length slots"
    using insert_positions_mono [OF assms(1), of 0 rs] by auto
  have "place_runs (take (length slots) slots @ hole @ []) ?ps rs (length slots) (length rs) =
      weave (take (length slots) slots) 0 (take (length rs) ?ps) (take (length rs) rs) @ []"
    by (rule place_runs_weave) (use ps assms(2) in auto)
  then show ?thesis using weave_insert_positions [OF assms(1), of 0 rs] by simp
qed

end

text \<open>The routine itself, over any comparison that satisfies the interface.\<close>

lemma insert_sorted_merge_by:
  assumes "comparator cmp" "sorted_by cmp slots"
  shows "insert_sorted cmp slots rs = merge_by cmp slots rs"
  using comparator.insert_sorted_merge [OF assms, of "replicate (length rs) 0" rs]
  by (simp add: insert_sorted_def Let_def)

section \<open>Properties\<close>

text \<open>
  C20: the in-place insertion of a sorted delta (galloping search for the positions, block copies
  from the end) computes the stable merge of the two lists, old items before new items with equal
  keys; in particular nothing is lost and the result is sorted.
\<close>

theorem insert_sorted_is_merge:
  assumes "comparator cmp" "sorted_by cmp old" "sorted_by cmp new"
  shows "insert_sorted cmp old new = merge_by cmp old new \<and>
    mset (insert_sorted cmp old new) = mset old + mset new \<and>
    sorted_by cmp (insert_sorted cmp old new)"
  using insert_sorted_merge_by [OF assms(1,2), of new] comparator.sorted_by_merge_by [OF assms]
  by simp

theorem insert_sorted_is_merge_witness:
  "insert_sorted prim_cmp [1, 4, 4, 9] [0, 4, 10 :: nat] = merge_by prim_cmp [1, 4, 4, 9] [0, 4, 10]"
  using insert_sorted_is_merge [OF prim_comparator.comparator_axioms, of "[1, 4, 4, 9]" "[0, 4, 10 :: nat]"]
  by (simp add: sorted_by_Cons del: merge_by.simps)

end
