(* ===== verification/Slot_Order.thy ===== *)
theory Slot_Order
  imports Ordered_Merge
begin

text \<open>
  \<open>core/src/slot_order.rs\<close>: a sorted sequence of slots kept as leaf blocks with a directory of
  prefix sums. A block carries the handle of its persisted section (a type parameter) once it has
  been written; editing a block drops the handle. The abstraction function is \<open>to_vec\<close>, and every
  operation is specified on that flat list. An operation that can panic returns an option.
\<close>

section \<open>Definitions\<close>

definition leaf_length :: nat where
  "leaf_length = 4096"

record 's order_block =
  slots :: "nat list"
  block_section :: "'s option"

definition owned :: "nat list \<Rightarrow> 's order_block" where
  "owned vs = \<lparr>slots = vs, block_section = None\<rparr>"

text \<open>\<open>edit\<close> hands out the vector after dropping the section; the edit itself is the argument \<open>f\<close>.\<close>

definition edit :: "(nat list \<Rightarrow> nat list) \<Rightarrow> 's order_block \<Rightarrow> 's order_block" where
  "edit f b = b\<lparr>block_section := None, slots := f (slots b)\<rparr>"

record 's slot_order =
  blocks :: "'s order_block list"
  ends :: "nat list"

fun prefix_sums :: "nat \<Rightarrow> nat list \<Rightarrow> nat list" where
  "prefix_sums t [] = []"
| "prefix_sums t (n # ns) = (t + n) # prefix_sums (t + n) ns"

definition from_blocks :: "'s order_block list \<Rightarrow> 's slot_order" where
  "from_blocks bs = \<lparr>blocks = bs, ends = prefix_sums 0 (map (length \<circ> slots) bs)\<rparr>"

definition order_len :: "'s slot_order \<Rightarrow> nat" where
  "order_len so = (if ends so = [] then 0 else last (ends so))"

definition start :: "'s slot_order \<Rightarrow> nat \<Rightarrow> nat" where
  "start so block = (if block = 0 then 0 else ends so ! (block - 1))"

definition to_vec :: "'s slot_order \<Rightarrow> nat list" where
  "to_vec so = concat (map slots (blocks so))"

text \<open>Indexing a slice: \<open>None\<close> is the panic.\<close>

definition index_at :: "'a list \<Rightarrow> nat \<Rightarrow> 'a option" where
  "index_at xs i = (if i < length xs then Some (xs ! i) else None)"

text \<open>\<open>get\<close>: the outer option is the panic of the inner index, the inner one the returned option.\<close>

definition order_get :: "'s slot_order \<Rightarrow> nat \<Rightarrow> nat option option" where
  "order_get so rank =
     (let block = partition_point (\<lambda>e. e \<le> rank) (ends so)
      in if block < length (blocks so)
         then map_option Some (index_at (slots (blocks so ! block)) (rank - start so block))
         else Some None)"

fun extend_loop :: "'s slot_order \<Rightarrow> nat \<Rightarrow> nat \<Rightarrow> nat list \<Rightarrow> nat list \<Rightarrow> nat list" where
  "extend_loop so s e output [] = output"
| "extend_loop so s e output (block # rest) =
     (let base = start so block
      in if base \<ge> e then output
         else let values = slots (blocks so ! block)
              in extend_loop so s e (output @ subslice values (s - base) (min (length values) (e - base))) rest)"

definition extend_range :: "'s slot_order \<Rightarrow> nat list \<Rightarrow> nat \<Rightarrow> nat \<Rightarrow> nat list option" where
  "extend_range so output s e =
     (if \<not> (s \<le> e \<and> e \<le> order_len so) then None
      else if s = e then Some output
      else let first = partition_point (\<lambda>rank. rank \<le> s) (ends so)
           in Some (extend_loop so s e output [first..<length (blocks so)]))"

text \<open>
  \<open>slice::binary_search_by\<close> returning the first match; the standard library may return any match,
  and where keys are distinct there is only one.
\<close>

definition slice_binary_search :: "('a \<Rightarrow> ordering) \<Rightarrow> 'a list \<Rightarrow> nat + nat" where
  "slice_binary_search f xs =
     (let n = partition_point (\<lambda>x. f x = Less) xs
      in if n < length xs \<and> f (xs ! n) = Equal then Inr n else Inl n)"

definition binary_search_by :: "'s slot_order \<Rightarrow> (nat \<Rightarrow> ordering) \<Rightarrow> nat + nat" where
  "binary_search_by so f =
     (let block = partition_point (\<lambda>leaf. f (last (slots leaf)) = Less) (blocks so)
      in if block = length (blocks so) then Inl (order_len so)
         else let base = start so block
              in map_sum (\<lambda>rank. base + rank) (\<lambda>rank. base + rank)
                   (slice_binary_search f (slots (blocks so ! block))))"

text \<open>\<open>Vec::retain\<close> with the closure of \<open>updated\<close>: \<open>next\<close> walks the removed ranks of the block.\<close>

fun retain_ranks :: "nat list \<Rightarrow> nat \<Rightarrow> nat \<Rightarrow> nat \<Rightarrow> nat \<Rightarrow> nat list \<Rightarrow> nat list" where
  "retain_ranks removed e base next offset [] = []"
| "retain_ranks removed e base next offset (v # vs) =
     (if next = e \<or> removed ! next \<noteq> base + offset
      then v # retain_ranks removed e base next (offset + 1) vs
      else retain_ranks removed e base (next + 1) (offset + 1) vs)"

text \<open>
  The loop over the removed ranks. It makes progress whenever the rank lies in the block found
  for it, so a round that would not move \<open>first\<close> is an endless loop and has no value; the
  assertion that the block exists is the other way to have none.
\<close>

function remove_loop :: "'s slot_order \<Rightarrow> nat list \<Rightarrow> nat \<Rightarrow> 's order_block list \<Rightarrow> 's order_block list option" where
  "remove_loop so removed first bs =
     (if first < length removed
      then let block = partition_point (\<lambda>e. e \<le> removed ! first) (ends so)
           in if block < length bs
              then let e = partition_point (\<lambda>rank. rank < ends so ! block) removed;
                       base = start so block;
                       bs' = bs[block := edit (retain_ranks removed e base first 0) (bs ! block)]
                   in if first < e then remove_loop so removed e bs' else None
              else None
      else Some bs)"
  by pat_completeness auto
termination
  by (relation "measure (\<lambda>(so, removed, first, bs). length removed - first)") auto

declare remove_loop.simps [simp del]

text \<open>The loop over the replacements; again a round without progress is an endless loop.\<close>

function replace_loop :: "(nat \<Rightarrow> nat \<Rightarrow> ordering) \<Rightarrow> nat list \<Rightarrow> nat \<Rightarrow> 's order_block list \<Rightarrow> 's order_block list option" where
  "replace_loop cmp replacements first bs =
     (if first < length replacements \<and> bs \<noteq> []
      then let index = min (partition_point (\<lambda>b. cmp (last (slots b)) (replacements ! first) = Less) bs)
                           (length bs - 1);
               lst = last (slots (bs ! index));
               e = (if index + 1 = length bs then length replacements
                    else first + partition_point (\<lambda>s. cmp s lst \<noteq> Greater) (drop first replacements));
               bs' = bs[index := edit (\<lambda>vs. insert_sorted cmp vs (subslice replacements first e)) (bs ! index)]
           in if first < e then replace_loop cmp replacements e bs' else None
      else Some bs)"
  by pat_completeness auto
termination
  by (relation "measure (\<lambda>(cmp, replacements, first, bs). length replacements - first)") auto

declare replace_loop.simps [simp del]

definition div_ceil :: "nat \<Rightarrow> nat \<Rightarrow> nat" where
  "div_ceil a b = (a + b - 1) div b"

text \<open>\<open>slice::chunks(n)\<close>; it panics for \<open>n = 0\<close>, which no caller passes.\<close>

function chunks :: "nat \<Rightarrow> 'a list \<Rightarrow> 'a list list" where
  "chunks n xs = (if xs = [] \<or> n = 0 then [] else take n xs # chunks n (drop n xs))"
  by pat_completeness auto
termination
  by (relation "measure (\<lambda>(n, xs). length xs)") auto

declare chunks.simps [simp del]

text \<open>The rebuild loop: oversized leaves are split evenly, small neighbours are joined.\<close>

definition rebuild_step :: "'s order_block list \<Rightarrow> 's order_block \<Rightarrow> 's order_block list" where
  "rebuild_step result block =
     (let values = slots block
      in if length values > leaf_length
         then let count = div_ceil (length values) leaf_length;
                  len = div_ceil (length values) count
              in result @ map owned (chunks len values)
         else if result \<noteq> [] \<and> length (slots (last result)) + length values \<le> leaf_length
         then butlast result @ [edit (\<lambda>vs. vs @ values) (last result)]
         else result @ [block])"

definition from_vec :: "nat list \<Rightarrow> 's slot_order" where
  "from_vec values = from_blocks (map owned (chunks leaf_length values))"

definition updated :: "'s slot_order \<Rightarrow> nat list \<Rightarrow> nat list \<Rightarrow> (nat \<Rightarrow> nat \<Rightarrow> ordering) \<Rightarrow> 's slot_order option" where
  "updated so removed_ranks replacements cmp =
     (let removed = remdups_adj (sort removed_ranks)
      in case remove_loop so removed 0 (blocks so) of
           None \<Rightarrow> None
         | Some bs \<Rightarrow>
             (let kept = filter (\<lambda>b. slots b \<noteq> []) bs
              in case replace_loop cmp replacements 0 kept of
                   None \<Rightarrow> None
                 | Some bs' \<Rightarrow>
                     (if bs' = [] \<and> replacements \<noteq> [] then Some (from_vec replacements)
                      else Some (from_blocks (foldl rebuild_step [] bs')))))"

text \<open>
  Well-formedness: the directory holds the prefix sums, no leaf is empty and none exceeds the
  leaf length.
\<close>

definition wf_order :: "'s slot_order \<Rightarrow> bool" where
  "wf_order so \<longleftrightarrow> ends so = prefix_sums 0 (map (length \<circ> slots) (blocks so)) \<and>
     (\<forall>b \<in> set (blocks so). slots b \<noteq> [] \<and> length (slots b) \<le> leaf_length)"

section \<open>The directory\<close>

lemma length_prefix_sums [simp]: "length (prefix_sums t ns) = length ns"
  by (induction ns arbitrary: t) simp_all

lemma prefix_sums_Nil_iff [simp]: "prefix_sums t ns = [] \<longleftrightarrow> ns = []"
  by (cases ns) simp_all

lemma nth_prefix_sums: "k < length ns \<Longrightarrow> prefix_sums t ns ! k = t + sum_list (take (Suc k) ns)"
proof (induction ns arbitrary: t k)
  case (Cons n ns)
  then show ?case by (cases k) (simp_all add: add.assoc)
qed simp

lemma last_prefix_sums: "ns \<noteq> [] \<Longrightarrow> last (prefix_sums t ns) = t + sum_list ns"
  by (induction ns arbitrary: t) (auto simp: add.assoc)

lemma wf_from_blocks:
  "wf_order (from_blocks bs) \<longleftrightarrow> (\<forall>b \<in> set bs. slots b \<noteq> [] \<and> length (slots b) \<le> leaf_length)"
  by (simp add: wf_order_def from_blocks_def)

lemma to_vec_from_blocks [simp]: "to_vec (from_blocks bs) = concat (map slots bs)"
  by (simp add: to_vec_def from_blocks_def)

lemma blocks_from_blocks [simp]: "blocks (from_blocks bs) = bs"
  by (simp add: from_blocks_def)

lemma order_len_to_vec: "wf_order so \<Longrightarrow> order_len so = length (to_vec so)"
  by (auto simp: order_len_def wf_order_def to_vec_def last_prefix_sums length_concat comp_def)

lemma start_eq:
  "wf_order so \<Longrightarrow> k \<le> length (blocks so) \<Longrightarrow> start so k = length (concat (map slots (take k (blocks so))))"
  by (cases k) (auto simp: start_def wf_order_def nth_prefix_sums length_concat take_map comp_def)

lemma ends_eq:
  "wf_order so \<Longrightarrow> k < length (blocks so) \<Longrightarrow> ends so ! k = start so k + length (slots (blocks so ! k))"
  by (cases k)
    (auto simp: start_def wf_order_def nth_prefix_sums take_Suc_conv_app_nth sum_list_append)

lemma length_ends: "wf_order so \<Longrightarrow> length (ends so) = length (blocks so)"
  by (simp add: wf_order_def)

text \<open>The binary search over the directory finds the leaf of a rank.\<close>

lemma prefix_sums_search:
  fixes t n rank :: nat
  shows "partition_point (\<lambda>e. e \<le> t + rank) ((t + n) # es) =
     (if n \<le> rank then Suc (partition_point (\<lambda>e. e \<le> t + n + (rank - n)) es) else 0)"
  by (simp add: partition_point_def)

lemma locate_block:
  "rank < length (concat vss) \<Longrightarrow>
   (let k = partition_point (\<lambda>e. e \<le> t + rank) (prefix_sums t (map length vss))
    in k < length vss \<and> length (concat (take k vss)) \<le> rank \<and>
       rank < length (concat (take k vss)) + length (vss ! k) \<and>
       concat vss ! rank = vss ! k ! (rank - length (concat (take k vss))))"
proof (induction vss arbitrary: t rank)
  case (Cons vs vss)
  show ?case
  proof (cases "length vs \<le> rank")
    case True
    then have "rank - length vs < length (concat vss)" using Cons.prems by simp
    from Cons.IH [OF this, of "t + length vs"] True show ?thesis
      by (simp add: prefix_sums_search Let_def nth_append) linarith
  next
    case False
    then show ?thesis by (simp add: prefix_sums_search Let_def nth_append partition_point_def)
  qed
qed simp

lemma locate_beyond:
  "length (concat vss) \<le> rank \<Longrightarrow>
   partition_point (\<lambda>e. e \<le> t + rank) (prefix_sums t (map length vss)) = length vss"
proof (induction vss arbitrary: t rank)
  case (Cons vs vss)
  then have "partition_point (\<lambda>e. e \<le> t + length vs + (rank - length vs))
      (prefix_sums (t + length vs) (map length vss)) = length vss"
    by (intro Cons.IH) simp
  with Cons.prems show ?case by (simp add: prefix_sums_search)
qed (simp add: partition_point_def)

lemma wf_locate:
  assumes "wf_order so" "rank < length (to_vec so)"
  defines "k \<equiv> partition_point (\<lambda>e. e \<le> rank) (ends so)"
  shows "k < length (blocks so)" "start so k \<le> rank" "rank < ends so ! k"
    "to_vec so ! rank = slots (blocks so ! k) ! (rank - start so k)"
proof -
  have e: "ends so = prefix_sums 0 (map length (map slots (blocks so)))"
    using assms(1) by (simp add: wf_order_def comp_def)
  let ?vss = "map slots (blocks so)"
  have "rank < length (concat ?vss)" using assms(2) by (simp only: to_vec_def)
  from locate_block [OF this, of 0]
  have loc: "k < length ?vss" "length (concat (take k ?vss)) \<le> rank"
      "rank < length (concat (take k ?vss)) + length (?vss ! k)"
      "to_vec so ! rank = ?vss ! k ! (rank - length (concat (take k ?vss)))"
    by (simp_all only: Let_def k_def e to_vec_def add_0)
  then show "k < length (blocks so)" by simp
  with loc show "start so k \<le> rank" "rank < ends so ! k"
      "to_vec so ! rank = slots (blocks so ! k) ! (rank - start so k)"
    using start_eq [OF assms(1), of k] ends_eq [OF assms(1), of k] by (simp_all add: take_map)
qed

lemma order_get_eq:
  assumes "wf_order so"
  shows "order_get so rank = Some (if rank < length (to_vec so) then Some (to_vec so ! rank) else None)"
proof (cases "rank < length (to_vec so)")
  case True
  define k where "k = partition_point (\<lambda>e. e \<le> rank) (ends so)"
  note loc = wf_locate [OF assms True, folded k_def]
  have "rank - start so k < length (slots (blocks so ! k))"
    using loc(1-3) ends_eq [OF assms loc(1)] by linarith
  with loc True show ?thesis
    by (simp add: order_get_def k_def [symmetric] index_at_def Let_def)
next
  case False
  then have "partition_point (\<lambda>e. e \<le> rank) (ends so) = length (blocks so)"
    using locate_beyond [of "map slots (blocks so)" rank 0] assms
    by (simp add: to_vec_def wf_order_def comp_def)
  with False show ?thesis by (simp add: order_get_def Let_def)
qed

section \<open>Removing ranks\<close>

text \<open>The retain closure depends on the removed ranks of its block only.\<close>

fun retain_segment :: "nat list \<Rightarrow> nat \<Rightarrow> nat list \<Rightarrow> nat list" where
  "retain_segment seg rank [] = []"
| "retain_segment seg rank (v # vs) =
     (if seg = [] \<or> hd seg \<noteq> rank then v # retain_segment seg (rank + 1) vs
      else retain_segment (tl seg) (rank + 1) vs)"

lemma subslice_Cons: "i < j \<Longrightarrow> i < length xs \<Longrightarrow> subslice xs i j = xs ! i # subslice xs (Suc i) j"
  by (metis Cons_nth_drop_Suc Suc_diff_Suc subslice_def take_Suc_Cons)

lemma retain_ranks_segment:
  "next \<le> e \<Longrightarrow> e \<le> length removed \<Longrightarrow>
   retain_ranks removed e base next offset vs = retain_segment (subslice removed next e) (base + offset) vs"
proof (induction vs arbitrary: "next" offset)
  case (Cons v vs)
  show ?case
  proof (cases "next = e")
    case True
    with Cons.IH [of e] Cons.prems show ?thesis by simp
  next
    case False
    with Cons.prems have "subslice removed next e = removed ! next # subslice removed (Suc next) e"
      by (simp add: subslice_Cons)
    with False Cons.IH [of "next"] Cons.IH [of "Suc next"] Cons.prems show ?thesis by simp
  qed
qed simp

lemma retain_segment_nths:
  "sorted_wrt (<) seg \<Longrightarrow> \<forall>r \<in> set seg. rank \<le> r \<Longrightarrow>
   retain_segment seg rank vs = nths vs {i. rank + i \<notin> set seg}"
proof (induction vs arbitrary: seg rank)
  case (Cons v vs)
  show ?case
  proof (cases "seg \<noteq> [] \<and> hd seg = rank")
    case True
    then obtain seg' where seg: "seg = rank # seg'" by (cases seg) auto
    with Cons.prems have "\<forall>r \<in> set seg'. rank + 1 \<le> r" "sorted_wrt (<) seg'" by auto
    then have "retain_segment seg' (rank + 1) vs = nths vs {i. rank + 1 + i \<notin> set seg'}"
      by (intro Cons.IH)
    with seg show ?thesis by (simp add: nths_Cons)
  next
    case False
    then have "rank \<notin> set seg" using Cons.prems
      by (cases seg) auto
    moreover from this Cons.prems(2) have "\<forall>r \<in> set seg. rank + 1 \<le> r"
      by (metis Suc_eq_plus1 Suc_leI le_neq_implies_less)
    then have "retain_segment seg (rank + 1) vs = nths vs {i. rank + 1 + i \<notin> set seg}"
      by (intro Cons.IH [OF Cons.prems(1)])
    ultimately show ?thesis using False by (auto simp: nths_Cons)
  qed
qed simp

text \<open>What the loop does to the block with index \<open>k\<close>: nothing unless a removed rank lies in it.\<close>

definition purge :: "'s slot_order \<Rightarrow> nat list \<Rightarrow> nat \<Rightarrow> 's order_block" where
  "purge so removed k =
     (let b = blocks so ! k
      in if \<exists>r \<in> set removed. start so k \<le> r \<and> r < ends so ! k
         then edit (\<lambda>vs. nths vs {i. start so k + i \<notin> set removed}) b else b)"

definition removed_before :: "'s slot_order \<Rightarrow> nat list \<Rightarrow> nat \<Rightarrow> nat" where
  "removed_before so removed k = partition_point (\<lambda>r. r < ends so ! k) removed"

lemma sorted_less_partition:
  assumes "sorted_wrt (<) (xs :: nat list)" "i < length xs"
  shows "i < partition_point (\<lambda>r. r < c) xs \<longleftrightarrow> xs ! i < c"
proof
  show "i < partition_point (\<lambda>r. r < c) xs \<Longrightarrow> xs ! i < c" by (rule partition_point_before)
  assume less: "xs ! i < c"
  show "i < partition_point (\<lambda>r. r < c) xs"
  proof (rule ccontr)
    let ?n = "partition_point (\<lambda>r. r < c) xs"
    assume "\<not> i < ?n"
    then have "?n \<le> i" by simp
    then have "xs ! ?n \<le> xs ! i" using assms
      by (metis le_neq_implies_less less_or_eq_imp_le sorted_wrt_nth_less)
    with less have "xs ! ?n < c" by simp
    moreover have "?n < length xs" using \<open>?n \<le> i\<close> assms(2) by simp
    ultimately show False using partition_point_at [of "\<lambda>r. r < c" xs] by simp
  qed
qed

lemma start_Suc: "start so (Suc k) = ends so ! k"
  by (simp add: start_def)

lemma ends_mono:
  assumes "wf_order so" "j \<le> k" "k < length (blocks so)"
  shows "ends so ! j \<le> ends so ! k"
  using assms(2,3)
proof (induction k)
  case (Suc k)
  have "ends so ! k \<le> ends so ! Suc k"
    using ends_eq [OF assms(1) Suc.prems(2)] by (simp add: start_Suc)
  with Suc show ?case by (cases "j = Suc k") auto
qed simp

lemma ends_le_start:
  "wf_order so \<Longrightarrow> j < k \<Longrightarrow> k < length (blocks so) \<Longrightarrow> ends so ! j \<le> start so k"
  using ends_mono [of so j "k - 1"] by (cases k) (simp_all add: start_Suc)

lemma purge_outside:
  "\<forall>r \<in> set removed. r < start so k \<or> ends so ! k \<le> r \<Longrightarrow> purge so removed k = blocks so ! k"
  by (auto simp: purge_def Let_def)

text \<open>The ranks of one block are a contiguous run of the removed list, starting at \<open>first\<close>.\<close>

lemma block_segment:
  assumes wf: "wf_order so" and sorted: "sorted_wrt (<) removed"
    and k: "k < length (blocks so)" and first: "first < length removed"
    and range: "start so k \<le> removed ! first" "removed ! first < ends so ! k"
    and before: "\<forall>i < first. removed ! i < start so k"
  defines "e \<equiv> partition_point (\<lambda>r. r < ends so ! k) removed"
  shows "first < e" "e \<le> length removed"
    "edit (retain_ranks removed e (start so k) first 0) (blocks so ! k) = purge so removed k"
proof -
  show "first < e" unfolding e_def using sorted_less_partition [OF sorted first] range by simp
  show e: "e \<le> length removed" by (simp add: e_def)
  let ?seg = "subslice removed first e"
  have "retain_ranks removed e (start so k) first 0 vs = retain_segment ?seg (start so k) vs" for vs
    using retain_ranks_segment [of first e removed "start so k" 0 vs] \<open>first < e\<close> e by simp
  moreover have seg: "set ?seg = {r \<in> set removed. start so k \<le> r \<and> r < ends so ! k}"
  proof (intro set_eqI iffI)
    fix r assume "r \<in> set ?seg"
    then obtain i where i: "i < length ?seg" "?seg ! i = r" by (auto simp: in_set_conv_nth)
    then have "i < e - first" "first + i < length removed" using e by auto
    then have "r = removed ! (first + i)" "first + i < e" using i nth_subslice by fastforce+
    moreover have "removed ! first \<le> removed ! (first + i)"
      using sorted \<open>first + i < length removed\<close>
      by (metis le_add1 le_neq_implies_less less_or_eq_imp_le sorted_wrt_nth_less)
    moreover have "removed ! (first + i) < ends so ! k"
      using sorted_less_partition [OF sorted \<open>first + i < length removed\<close>, of "ends so ! k"]
        \<open>first + i < e\<close> by (simp add: e_def)
    ultimately show "r \<in> {r \<in> set removed. start so k \<le> r \<and> r < ends so ! k}"
      using range(1) \<open>first + i < length removed\<close> by auto
  next
    fix r assume "r \<in> {r \<in> set removed. start so k \<le> r \<and> r < ends so ! k}"
    then obtain i where i: "i < length removed" "removed ! i = r" "start so k \<le> r" "r < ends so ! k"
      by (auto simp: in_set_conv_nth)
    then have "first \<le> i" using before by (meson linorder_not_less)
    moreover have "i < e" unfolding e_def using sorted_less_partition [OF sorted i(1)] i by simp
    ultimately have "?seg ! (i - first) = r" "i - first < length ?seg"
      using i nth_subslice [of "i - first" e first removed] by auto
    then show "r \<in> set ?seg" by (metis nth_mem)
  qed
  moreover have "sorted_wrt (<) ?seg"
    using sorted by (simp add: subslice_def sorted_wrt_take sorted_wrt_drop)
  ultimately have ret: "retain_ranks removed e (start so k) first 0 vs =
      nths vs {i. start so k + i \<notin> set ?seg}" for vs
    by (simp add: retain_segment_nths)
  have "nths (slots (blocks so ! k)) {i. start so k + i \<notin> set ?seg} =
      nths (slots (blocks so ! k)) {i. start so k + i \<notin> set removed}"
    using ends_eq [OF wf k] by (intro nths_same) (auto simp: seg)
  moreover have "\<exists>r \<in> set removed. start so k \<le> r \<and> r < ends so ! k"
    using first range by (metis nth_mem)
  ultimately show "edit (retain_ranks removed e (start so k) first 0) (blocks so ! k) = purge so removed k"
    by (simp add: purge_def edit_def ret Let_def)
qed

text \<open>
  The state of the loop between rounds: \<open>first\<close> has passed every removed rank below some block
  boundary, and exactly the blocks it has passed are purged.
\<close>

definition removing :: "'s slot_order \<Rightarrow> nat list \<Rightarrow> nat \<Rightarrow> 's order_block list \<Rightarrow> bool" where
  "removing so removed first bs \<longleftrightarrow>
     (first = 0 \<or> (\<exists>j < length (blocks so). first = removed_before so removed j)) \<and>
     length bs = length (blocks so) \<and>
     (\<forall>k < length (blocks so). bs ! k =
        (if removed_before so removed k \<le> first then purge so removed k else blocks so ! k))"

lemma removed_before_less:
  "sorted_wrt (<) removed \<Longrightarrow> i < length removed \<Longrightarrow>
     i < removed_before so removed k \<longleftrightarrow> removed ! i < ends so ! k"
  unfolding removed_before_def by (rule sorted_less_partition)

lemma removed_before_le: "removed_before so removed k \<le> length removed"
  by (simp add: removed_before_def)

lemma removing_init:
  assumes "sorted_wrt (<) removed"
  shows "removing so removed 0 (blocks so)"
proof -
  have "purge so removed k = blocks so ! k" if "removed_before so removed k = 0" for k
  proof (rule purge_outside, rule ballI)
    fix r assume "r \<in> set removed"
    then obtain i where i: "i < length removed" "removed ! i = r" by (auto simp: in_set_conv_nth)
    have "\<not> removed ! i < ends so ! k"
      using removed_before_less [OF assms i(1), of so k] that by simp
    with i show "r < start so k \<or> ends so ! k \<le> r" by simp
  qed
  then show ?thesis by (simp add: removing_def)
qed

lemma removing_step:
  assumes wf: "wf_order so" and sorted: "sorted_wrt (<) removed"
    and bound: "\<forall>r \<in> set removed. r < length (to_vec so)"
    and inv: "removing so removed first bs" and first: "first < length removed"
  defines "k \<equiv> partition_point (\<lambda>e. e \<le> removed ! first) (ends so)"
  defines "e \<equiv> partition_point (\<lambda>r. r < ends so ! k) removed"
  shows "k < length bs" "first < e"
    "removing so removed e (bs[k := edit (retain_ranks removed e (start so k) first 0) (bs ! k)])"
proof -
  have len: "length bs = length (blocks so)" using inv by (simp add: removing_def)
  have "removed ! first < length (to_vec so)" using bound first by simp
  note loc = wf_locate [OF wf this, folded k_def]
  then show k: "k < length bs" by (simp add: len)
  have e: "e = removed_before so removed k" by (simp add: e_def removed_before_def)
  have before: "\<forall>i < first. removed ! i < start so k"
  proof (intro allI impI)
    fix i assume i: "i < first"
    then obtain j where j: "j < length (blocks so)" "first = removed_before so removed j"
      using inv by (auto simp: removing_def)
    have "removed ! i < ends so ! j"
      using removed_before_less [OF sorted, of i so j] i first j(2) by simp
    moreover have "\<not> removed ! first < ends so ! j"
      using removed_before_less [OF sorted first, of so j] j(2) by simp
    then have "j < k"
      using loc(3) ends_mono [OF wf _ j(1), of k] by (meson linorder_not_less order.strict_trans2)
    then have "ends so ! j \<le> start so k" by (rule ends_le_start [OF wf _ loc(1)])
    ultimately show "removed ! i < start so k" by simp
  qed
  note seg = block_segment [OF wf sorted loc(1) first loc(2,3) before, folded e_def]
  show "first < e" by (rule seg(1))
  then have "bs ! k = blocks so ! k"
    using inv loc(1) by (simp add: removing_def e)
  then have upd: "edit (retain_ranks removed e (start so k) first 0) (bs ! k) = purge so removed k"
    using seg(3) by simp
  have other: "bs ! j = (if removed_before so removed j \<le> e then purge so removed j else blocks so ! j)"
    if j: "j < length (blocks so)" "j \<noteq> k" for j
  proof (cases "first < removed_before so removed j \<and> removed_before so removed j \<le> e")
    case True
    have "k < j"
    proof (rule ccontr)
      assume "\<not> k < j"
      then have "ends so ! j \<le> start so k" using j ends_le_start [OF wf _ loc(1)] by simp
      moreover have "removed ! first < ends so ! j"
        using removed_before_less [OF sorted first, of so j] True by simp
      ultimately show False using loc(2) by simp
    qed
    have "\<forall>r \<in> set removed. r < start so j \<or> ends so ! j \<le> r"
    proof
      fix r assume "r \<in> set removed"
      then obtain i where i: "i < length removed" "removed ! i = r" by (auto simp: in_set_conv_nth)
      show "r < start so j \<or> ends so ! j \<le> r"
      proof (cases "i < e")
        case True
        then have "r < ends so ! k" using removed_before_less [OF sorted i(1), of so k] i e by simp
        then show ?thesis using ends_le_start [OF wf \<open>k < j\<close> j(1)] by simp
      next
        case False
        with True have "\<not> i < removed_before so removed j" by simp
        then show ?thesis using removed_before_less [OF sorted i(1), of so j] i by simp
      qed
    qed
    then have "purge so removed j = blocks so ! j" by (rule purge_outside)
    with True inv j show ?thesis by (simp add: removing_def)
  next
    case False
    with inv j seg(1) show ?thesis by (auto simp: removing_def)
  qed
  have "removing so removed e (bs[k := purge so removed k])"
    using other k len loc(1) by (auto simp: removing_def e nth_list_update)
  then show "removing so removed e (bs[k := edit (retain_ranks removed e (start so k) first 0) (bs ! k)])"
    by (simp only: upd)
qed

lemma remove_loop_purge:
  "wf_order so \<Longrightarrow> sorted_wrt (<) removed \<Longrightarrow> \<forall>r \<in> set removed. r < length (to_vec so) \<Longrightarrow>
   removing so removed first bs \<Longrightarrow>
   remove_loop so removed first bs = Some (map (purge so removed) [0..<length (blocks so)])"
proof (induction so removed first bs rule: remove_loop.induct)
  case (1 so removed first bs)
  show ?case
  proof (cases "first < length removed")
    case True
    note step = removing_step [OF "1.prems" True]
    show ?thesis
      using "1.IH" [OF True refl step(1) refl refl refl step(2) "1.prems"(1-3) step(3)] True step(1,2)
      by (subst remove_loop.simps) (simp only: Let_def if_True)
  next
    case False
    then have "removed_before so removed k \<le> first" for k
      using removed_before_le [of so removed k] by simp
    then have "bs = map (purge so removed) [0..<length (blocks so)]"
      using "1.prems"(4) by (auto simp: removing_def intro!: nth_equalityI)
    with False show ?thesis by (subst remove_loop.simps) simp
  qed
qed

lemma slots_purge:
  assumes "wf_order so" "k < length (blocks so)"
  shows "slots (purge so removed k) = nths (slots (blocks so ! k)) {i. start so k + i \<notin> set removed}"
proof (cases "\<exists>r \<in> set removed. start so k \<le> r \<and> r < ends so ! k")
  case False
  then have "nths (slots (blocks so ! k)) {i. start so k + i \<notin> set removed} = slots (blocks so ! k)"
    using ends_eq [OF assms] by (intro nths_all) auto
  with False show ?thesis by (auto simp: purge_def Let_def)
qed (simp add: purge_def edit_def Let_def)

lemma concat_purge:
  assumes "wf_order so"
  shows "concat (map slots (map (purge so removed) [0..<length (blocks so)])) =
    nths (to_vec so) (- set removed)"
proof -
  have "map slots (map (purge so removed) [0..<length (blocks so)]) =
      map (\<lambda>k. nths (map slots (blocks so) ! k)
        {i. length (concat (take k (map slots (blocks so)))) + i \<in> - set removed})
        [0..<length (map slots (blocks so))]"
    using slots_purge [OF assms] start_eq [OF assms] by (auto simp: take_map)
  then show ?thesis by (simp only: to_vec_def nths_concat)
qed

section \<open>Inserting replacements\<close>

abbreviation flat :: "'s order_block list \<Rightarrow> nat list" where
  "flat bs \<equiv> concat (map slots bs)"

text \<open>Blocks that keep a section handle are blocks of the original order, untouched.\<close>

definition shares :: "'s order_block set \<Rightarrow> 's order_block list \<Rightarrow> bool" where
  "shares B bs \<longleftrightarrow> (\<forall>b \<in> set bs. block_section b \<noteq> None \<longrightarrow> b \<in> B)"

lemma shares_update: "shares B bs \<Longrightarrow> shares B (bs[k := edit f (bs ! k)])"
  by (auto simp: shares_def edit_def dest!: set_update_subset_insert [THEN subsetD])

lemma flat_update:
  "k < length bs \<Longrightarrow> flat (bs[k := b]) = flat (take k bs) @ slots b @ flat (drop (Suc k) bs)"
  by (simp add: upd_conv_take_nth_drop)

lemma flat_split:
  "k < length bs \<Longrightarrow> flat bs = flat (take k bs) @ slots (bs ! k) @ flat (drop (Suc k) bs)"
  by (metis append_take_drop_id concat_append Cons_nth_drop_Suc concat.simps(2) list.simps(9) map_append)

lemma sorted_by_block: "sorted_by cmp (flat bs) \<Longrightarrow> b \<in> set bs \<Longrightarrow> sorted_by cmp (slots b)"
  by (induction bs) (auto simp: sorted_by_append)

text \<open>The leaf a replacement goes to, and the run of replacements that goes with it.\<close>

definition target_leaf :: "(nat \<Rightarrow> nat \<Rightarrow> ordering) \<Rightarrow> 's order_block list \<Rightarrow> nat \<Rightarrow> nat" where
  "target_leaf cmp bs r = min (partition_point (\<lambda>b. cmp (last (slots b)) r = Less) bs) (length bs - 1)"

definition run_end :: "(nat \<Rightarrow> nat \<Rightarrow> ordering) \<Rightarrow> nat list \<Rightarrow> nat \<Rightarrow> 's order_block list \<Rightarrow> nat \<Rightarrow> nat" where
  "run_end cmp replacements first bs index =
     (if index + 1 = length bs then length replacements
      else first + partition_point (\<lambda>s. cmp s (last (slots (bs ! index))) \<noteq> Greater) (drop first replacements))"

lemma target_leaf_bound: "bs \<noteq> [] \<Longrightarrow> target_leaf cmp bs r < length bs"
  by (simp add: target_leaf_def min_less_iff_disj)

lemma target_leaf_inner:
  "target_leaf cmp bs r + 1 \<noteq> length bs \<Longrightarrow> bs \<noteq> [] \<Longrightarrow>
     cmp (last (slots (bs ! target_leaf cmp bs r))) r \<noteq> Less"
proof -
  let ?p = "\<lambda>b. cmp (last (slots b)) r = Less"
  assume "target_leaf cmp bs r + 1 \<noteq> length bs" "bs \<noteq> []"
  then have "target_leaf cmp bs r = partition_point ?p bs" "partition_point ?p bs < length bs"
    by (auto simp: target_leaf_def min_def Suc_leI le_less_trans split: if_splits)
  then show ?thesis using partition_point_at [of ?p bs] by simp
qed

lemma target_leaf_before:
  "j < target_leaf cmp bs r \<Longrightarrow> cmp (last (slots (bs ! j))) r = Less"
  using partition_point_before [of j "\<lambda>b. cmp (last (slots b)) r = Less" bs]
  by (simp add: target_leaf_def)

text \<open>The contract of the comparison an order of slots is kept by.\<close>

locale slot_comparator = comparator cmp for cmp :: "nat \<Rightarrow> nat \<Rightarrow> ordering"
begin

lemma le_last: "sorted_by cmp vs \<Longrightarrow> x \<in> set vs \<Longrightarrow> cmp x (last vs) \<noteq> Greater"
proof (induction vs)
  case (Cons v vs)
  then show ?case using cmp_refl by (auto simp: sorted_by_Cons split: if_splits)
qed simp

lemma run_end_progress:
  assumes "first < length reps" "bs \<noteq> []"
  shows "first < run_end cmp reps first bs (target_leaf cmp bs (reps ! first))"
proof (cases "target_leaf cmp bs (reps ! first) + 1 = length bs")
  case False
  let ?lst = "last (slots (bs ! target_leaf cmp bs (reps ! first)))"
  have "cmp (reps ! first) ?lst \<noteq> Greater"
    using target_leaf_inner [OF False assms(2)] cmp_swap [of ?lst "reps ! first"] by simp
  then show ?thesis using False assms(1)
    by (simp add: run_end_def partition_point_def Cons_nth_drop_Suc [symmetric])
qed (simp add: run_end_def assms)

lemma run_bounds:
  assumes "sorted_by cmp reps" "first < length reps" "s \<in> set (subslice reps first (run_end cmp reps first bs index))"
  shows "cmp (reps ! first) s \<noteq> Greater"
    "index + 1 \<noteq> length bs \<Longrightarrow> cmp s (last (slots (bs ! index))) \<noteq> Greater"
proof -
  have "s \<in> set (drop first reps)"
    using assms(3) by (auto simp: subslice_def dest: in_set_takeD)
  then show "cmp (reps ! first) s \<noteq> Greater"
    using sorted_by_drop [OF assms(1), of first] assms(2) cmp_refl
    by (auto simp: Cons_nth_drop_Suc [symmetric] sorted_by_Cons)
  show "index + 1 \<noteq> length bs \<Longrightarrow> cmp s (last (slots (bs ! index))) \<noteq> Greater"
    using assms(3) by (auto simp: run_end_def subslice_def take_partition_point dest: set_takeWhileD)
qed

text \<open>One round: a run of replacements is merged into one leaf, and the flat sequence stays sorted.\<close>

lemma replace_round:
  assumes reps: "sorted_by cmp reps" and first: "first < length reps"
    and sorted: "sorted_by cmp (flat bs)" and ne: "\<forall>b \<in> set bs. slots b \<noteq> []" "bs \<noteq> []"
  defines "index \<equiv> target_leaf cmp bs (reps ! first)"
  defines "seg \<equiv> subslice reps first (run_end cmp reps first bs index)"
  defines "bs' \<equiv> bs[index := edit (\<lambda>vs. insert_sorted cmp vs seg) (bs ! index)]"
  shows "sorted_by cmp (flat bs')" "mset (flat bs') = mset (flat bs) + mset seg"
    "\<forall>b \<in> set bs'. slots b \<noteq> []"
proof -
  have index: "index < length bs" using target_leaf_bound [OF ne(2)] by (simp add: index_def)
  then have b: "bs ! index \<in> set bs" by simp
  have old: "sorted_by cmp (flat (take index bs) @ slots (bs ! index) @ flat (drop (Suc index) bs))"
    using sorted flat_split [OF index] by simp
  have ins: "insert_sorted cmp (slots (bs ! index)) seg = merge_by cmp (slots (bs ! index)) seg"
    by (rule insert_sorted_merge_by [OF comparator_axioms sorted_by_block [OF sorted b]])
  then have flat': "flat bs' =
      flat (take index bs) @ merge_by cmp (slots (bs ! index)) seg @ flat (drop (Suc index) bs)"
    using flat_update [OF index] by (simp add: bs'_def edit_def)
  have left: "cmp x s \<noteq> Greater" if x: "x \<in> set (flat (take index bs))" and s: "s \<in> set seg" for x s
  proof -
    obtain j where j: "j < index" "x \<in> set (slots (bs ! j))"
      using x index by (auto simp: in_set_conv_nth [of _ "take index bs"])
    then have "cmp x (last (slots (bs ! j))) \<noteq> Greater"
      using le_last sorted_by_block [OF sorted] index by simp
    moreover have "cmp (last (slots (bs ! j))) (reps ! first) \<noteq> Greater"
      using target_leaf_before [of j cmp bs] j(1) by (simp add: index_def)
    ultimately have "cmp x (reps ! first) \<noteq> Greater" by (rule cmp_trans)
    then show ?thesis using run_bounds(1) [OF reps first s [unfolded seg_def]] by (rule cmp_trans)
  qed
  have right: "cmp s y \<noteq> Greater" if y: "y \<in> set (flat (drop (Suc index) bs))" and s: "s \<in> set seg" for y s
  proof -
    have "index + 1 \<noteq> length bs" using y by auto
    then have "cmp s (last (slots (bs ! index))) \<noteq> Greater"
      by (rule run_bounds(2) [OF reps first s [unfolded seg_def]])
    moreover have "cmp (last (slots (bs ! index))) y \<noteq> Greater"
      using old y ne b last_in_set by (auto simp: sorted_by_append)
    ultimately show ?thesis by (rule cmp_trans)
  qed
  show "sorted_by cmp (flat bs')"
    using old left right sorted_by_merge_by [of "slots (bs ! index)" seg] sorted_by_subslice [OF reps]
    by (simp add: flat' sorted_by_append seg_def) blast
  show "mset (flat bs') = mset (flat bs) + mset seg"
    using flat_split [OF index] by (simp add: flat' ac_simps)
  have "insert_sorted cmp (slots (bs ! index)) seg \<noteq> []"
    using ins ne(1) b by (metis add_is_0 length_0_conv length_merge_by)
  then show "\<forall>b \<in> set bs'. slots b \<noteq> []"
    using ne(1) by (auto simp: bs'_def edit_def dest!: set_update_subset_insert [THEN subsetD])
qed

lemma replace_loop_step:
  assumes "first < length reps" "bs \<noteq> []"
  defines "index \<equiv> target_leaf cmp bs (reps ! first)"
  defines "e \<equiv> run_end cmp reps first bs index"
  shows "replace_loop cmp reps first bs =
    replace_loop cmp reps e (bs[index := edit (\<lambda>vs. insert_sorted cmp vs (subslice reps first e)) (bs ! index)])"
proof -
  have "replace_loop cmp reps first bs = (if first < e
      then replace_loop cmp reps e (bs[index := edit (\<lambda>vs. insert_sorted cmp vs (subslice reps first e)) (bs ! index)])
      else None)"
    using assms(1,2) unfolding index_def e_def target_leaf_def run_end_def
    by (subst replace_loop.simps) (simp only: Let_def if_True HOL.simp_thms)
  then show ?thesis using run_end_progress [OF assms(1,2)] by (simp add: index_def e_def)
qed

lemma replace_loop_correct:
  "sorted_by cmp reps \<Longrightarrow> sorted_by cmp (flat bs) \<Longrightarrow> \<forall>b \<in> set bs. slots b \<noteq> [] \<Longrightarrow> bs \<noteq> [] \<Longrightarrow> shares B bs \<Longrightarrow>
   \<exists>bs'. replace_loop cmp reps first bs = Some bs' \<and> sorted_by cmp (flat bs') \<and>
     (\<forall>b \<in> set bs'. slots b \<noteq> []) \<and> bs' \<noteq> [] \<and> shares B bs' \<and>
     mset (flat bs') = mset (flat bs) + mset (drop first reps)"
proof (induction "length reps - first" arbitrary: first bs rule: less_induct)
  case less
  show ?case
  proof (cases "first < length reps")
    case False
    with less.prems show ?thesis by (simp add: replace_loop.simps)
  next
    case True
    let ?i = "target_leaf cmp bs (reps ! first)"
    let ?e = "run_end cmp reps first bs ?i"
    let ?bs = "bs[?i := edit (\<lambda>vs. insert_sorted cmp vs (subslice reps first ?e)) (bs ! ?i)]"
    have e: "first < ?e" by (rule run_end_progress [OF True less.prems(4)])
    note round = replace_round [OF less.prems(1) True less.prems(2-4)]
    have "\<exists>bs'. replace_loop cmp reps ?e ?bs = Some bs' \<and> sorted_by cmp (flat bs') \<and>
        (\<forall>b \<in> set bs'. slots b \<noteq> []) \<and> bs' \<noteq> [] \<and> shares B bs' \<and>
        mset (flat bs') = mset (flat ?bs) + mset (drop ?e reps)"
      by (rule less.hyps)
        (use less.prems round(1,3) shares_update [OF less.prems(5)] e True in auto)
    moreover have "mset (drop first reps) = mset (subslice reps first ?e) + mset (drop ?e reps)"
      using subslice_append_drop [of first ?e reps] e by (metis less_imp_le mset_append)
    ultimately show ?thesis
      using replace_loop_step [OF True less.prems(4)] round(2) by (simp add: ac_simps)
  qed
qed

end

section \<open>Rebuilding the leaves\<close>

lemma concat_chunks: "0 < n \<Longrightarrow> concat (chunks n xs) = xs"
proof (induction n xs rule: chunks.induct)
  case (1 n xs)
  then show ?case by (subst chunks.simps) simp
qed

lemma chunks_bounds: "c \<in> set (chunks n xs) \<Longrightarrow> c \<noteq> [] \<and> length c \<le> n"
proof (induction n xs rule: chunks.induct)
  case (1 n xs)
  show ?case
  proof (cases "xs = [] \<or> n = 0")
    case True
    with "1.prems" show ?thesis by (subst (asm) chunks.simps) auto
  next
    case False
    with "1.prems" have "c = take n xs \<or> c \<in> set (chunks n (drop n xs))"
      by (subst (asm) chunks.simps) auto
    with "1.IH" False show ?thesis by auto
  qed
qed

lemma even_split_fits:
  assumes "leaf_length < n"
  shows "0 < div_ceil n (div_ceil n leaf_length)" "div_ceil n (div_ceil n leaf_length) \<le> leaf_length"
proof -
  let ?c = "div_ceil n leaf_length"
  have L: "leaf_length > 0" by (simp add: leaf_length_def)
  have "n \<le> ?c * leaf_length"
    using div_mult_mod_eq [of "n + leaf_length - 1" leaf_length] mod_less_divisor [OF L, of "n + leaf_length - 1"]
    unfolding div_ceil_def by linarith
  then have c: "0 < ?c" using assms by (cases "?c = 0") auto
  have "n + ?c - 1 < ?c * leaf_length + ?c" using \<open>n \<le> _\<close> c by linarith
  also have "\<dots> = (leaf_length + 1) * ?c" by simp
  finally have "(n + ?c - 1) div ?c < leaf_length + 1" using c by (simp add: div_less_iff_less_mult)
  then show "div_ceil n ?c \<le> leaf_length" by (simp add: div_ceil_def [of n ?c])
  have "?c \<le> n + ?c - 1" using assms by simp
  then show "0 < div_ceil n ?c" using c by (simp add: div_ceil_def [of n ?c] div_greater_zero_iff)
qed

lemma rebuild_step_flat [simp]:
  "flat (rebuild_step result b) = flat result @ slots b"
proof -
  have "flat (butlast result) @ slots (last result) = flat result" if "result \<noteq> []"
    using that by (induction result rule: rev_induct) simp_all
  then show ?thesis
    using even_split_fits(1) [of "length (slots b)"]
    by (auto simp: rebuild_step_def Let_def edit_def owned_def comp_def concat_chunks)
qed

lemma rebuild_step_leaves:
  assumes "\<forall>r \<in> set result. slots r \<noteq> [] \<and> length (slots r) \<le> leaf_length" "slots b \<noteq> []"
  shows "\<forall>r \<in> set (rebuild_step result b). slots r \<noteq> [] \<and> length (slots r) \<le> leaf_length"
  using assms even_split_fits(2) [of "length (slots b)"]
  by (auto simp: rebuild_step_def Let_def edit_def owned_def dest!: chunks_bounds in_set_butlastD)

lemma rebuild_step_shares:
  "shares B result \<Longrightarrow> shares B [b] \<Longrightarrow> shares B (rebuild_step result b)"
  by (auto simp: shares_def rebuild_step_def Let_def edit_def owned_def dest: in_set_butlastD)

lemma rebuild_correct:
  "\<forall>r \<in> set result. slots r \<noteq> [] \<and> length (slots r) \<le> leaf_length \<Longrightarrow> \<forall>b \<in> set bs. slots b \<noteq> [] \<Longrightarrow>
   shares B result \<Longrightarrow> shares B bs \<Longrightarrow>
   flat (foldl rebuild_step result bs) = flat result @ flat bs \<and>
   (\<forall>r \<in> set (foldl rebuild_step result bs). slots r \<noteq> [] \<and> length (slots r) \<le> leaf_length) \<and>
   shares B (foldl rebuild_step result bs)"
proof (induction bs arbitrary: result)
  case (Cons b bs)
  have "shares B [b]" "shares B bs" using Cons.prems(4) by (auto simp: shares_def)
  with Cons.IH [of "rebuild_step result b"] Cons.prems rebuild_step_leaves [OF Cons.prems(1), of b]
    rebuild_step_shares [OF Cons.prems(3), of b]
  show ?case by simp
qed simp

section \<open>The update as a whole\<close>

lemma sorted_less_remdups_sort: "sorted_wrt (<) (remdups_adj (sort (xs :: nat list)))"
  by (simp add: sorted_strict_remdups_adj)

lemma flat_filter_nonempty: "flat (filter (\<lambda>b. slots b \<noteq> []) bs) = flat bs"
  by (induction bs) auto

lemma sorted_by_nths: "sorted_by cmp xs \<Longrightarrow> sorted_by cmp (nths xs A)"
  by (induction xs arbitrary: A) (auto simp: nths_Cons sorted_by_Cons dest: in_set_nthsD)

lemma shares_purge:
  "B = set (blocks so) \<Longrightarrow> shares B (filter P (map (purge so removed) [0..<length (blocks so)]))"
  by (auto simp: shares_def purge_def edit_def Let_def split: if_splits)

lemma from_vec_correct:
  assumes "so = from_vec vs"
  shows "wf_order so" "to_vec so = vs" "shares B (blocks so)"
proof -
  have "0 < leaf_length" by (simp add: leaf_length_def)
  then have "concat (chunks leaf_length vs) = vs" by (rule concat_chunks)
  then show "wf_order so" "to_vec so = vs" "shares B (blocks so)"
    by (auto simp: assms from_vec_def wf_from_blocks owned_def comp_def shares_def dest: chunks_bounds)
qed

lemma empty_replace_loop: "replace_loop cmp reps first [] = Some []"
  by (simp add: replace_loop.simps)

lemma updated_correct:
  assumes cmp: "comparator cmp" and wf: "wf_order so"
    and sorted: "sorted_by cmp (nths (to_vec so) (- set removed))" "sorted_by cmp reps"
    and ranks: "\<forall>r \<in> set removed. r < length (to_vec so)"
  shows "\<exists>so'. updated so removed reps cmp = Some so' \<and> wf_order so' \<and>
    sorted_by cmp (to_vec so') \<and>
    mset (to_vec so') = mset (nths (to_vec so) (- set removed)) + mset reps \<and>
    shares (set (blocks so)) (blocks so')"
proof -
  let ?rem = "remdups_adj (sort removed)" and ?B = "set (blocks so)"
  define kept where "kept = filter (\<lambda>b. slots b \<noteq> []) (map (purge so ?rem) [0..<length (blocks so)])"
  have rem: "remove_loop so ?rem 0 (blocks so) = Some (map (purge so ?rem) [0..<length (blocks so)])"
    using ranks by (intro remove_loop_purge wf sorted_less_remdups_sort removing_init) simp_all
  have flat: "flat kept = nths (to_vec so) (- set removed)"
    using concat_purge [OF wf, of ?rem] by (simp add: kept_def flat_filter_nonempty)
  have sk: "sorted_by cmp (flat kept)" using sorted(1) by (simp add: flat)
  have shk: "shares ?B kept" by (simp add: kept_def shares_purge)
  have nek: "\<forall>b \<in> set kept. slots b \<noteq> []" by (simp add: kept_def)
  show ?thesis
  proof (cases "kept = []")
    case True
    then obtain so' where so': "updated so removed reps cmp = Some so'"
        "so' = (if reps \<noteq> [] then from_vec reps else from_blocks [])"
      by (simp add: updated_def Let_def rem kept_def [symmetric] empty_replace_loop)
    have "nths (to_vec so) (- set removed) = []" using True flat by simp
    moreover have "wf_order so' \<and> to_vec so' = reps \<and> shares ?B (blocks so')"
      using so'(2) from_vec_correct [of so' reps] by (auto simp: wf_from_blocks shares_def)
    ultimately show ?thesis using so'(1) sorted(2) by simp
  next
    case False
    obtain bs where bs: "replace_loop cmp reps 0 kept = Some bs" "sorted_by cmp (flat bs)"
        "\<forall>b \<in> set bs. slots b \<noteq> []" "bs \<noteq> []" "shares ?B bs" "mset (flat bs) = mset (flat kept) + mset reps"
      using slot_comparator.replace_loop_correct [OF slot_comparator.intro [OF cmp] sorted(2) sk nek False shk, of 0]
      by auto
    have "updated so removed reps cmp = Some (from_blocks (foldl rebuild_step [] bs))"
      using bs(1,4) by (simp add: updated_def Let_def rem kept_def [symmetric])
    moreover have "flat (foldl rebuild_step [] bs) = flat bs"
      "\<forall>r \<in> set (foldl rebuild_step [] bs). slots r \<noteq> [] \<and> length (slots r) \<le> leaf_length"
      "shares ?B (foldl rebuild_step [] bs)"
      using rebuild_correct [of "[]" bs ?B] bs(3,5) by (simp_all add: shares_def)
    ultimately show ?thesis using bs(2,6) flat by (auto simp: wf_from_blocks)
  qed
qed

section \<open>Ranges and searches\<close>

lemma to_vec_split:
  assumes "wf_order so" "k < length (blocks so)"
  obtains pre post where "to_vec so = pre @ slots (blocks so ! k) @ post" "length pre = start so k"
  using flat_split [OF assms(2)] start_eq [OF assms(1), of k] assms(2) by (simp add: to_vec_def)

lemma extend_loop_correct:
  assumes wf: "wf_order so" and se: "s \<le> e" "e \<le> length (to_vec so)"
  shows "k \<le> length (blocks so) \<Longrightarrow> (k < length (blocks so) \<longrightarrow> s < ends so ! k) \<Longrightarrow>
    extend_loop so s e out [k..<length (blocks so)] =
      out @ subslice (to_vec so) (max s (start so k)) e"
proof (induction "length (blocks so) - k" arbitrary: k out)
  case 0
  then have "start so k = length (to_vec so)" using start_eq [OF wf, of k] by (simp add: to_vec_def)
  with 0 se show ?case by (simp add: subslice_def)
next
  case (Suc d)
  then have k: "k < length (blocks so)" by simp
  let ?v = "slots (blocks so ! k)" and ?base = "start so k"
  have ends: "ends so ! k = ?base + length ?v" by (rule ends_eq [OF wf k])
  show ?case
  proof (cases "e \<le> ?base")
    case True
    then have "subslice (to_vec so) (max s ?base) e = []" by (simp add: subslice_def)
    with True k show ?thesis by (simp add: upt_conv_Cons)
  next
    case False
    obtain pre post where V: "to_vec so = pre @ ?v @ post" "length pre = ?base"
      using to_vec_split [OF wf k] by blast
    have s: "s < ?base + length ?v" using Suc.prems(2) k ends by simp
    have ij: "max s ?base = length pre + (s - ?base)" "min (ends so ! k) e = length pre + min (length ?v) (e - ?base)"
        "s - ?base \<le> min (length ?v) (e - ?base)"
      using s se False V(2) ends by auto
    have part: "subslice ?v (s - ?base) (min (length ?v) (e - ?base)) =
        subslice (to_vec so) (max s ?base) (min (ends so ! k) e)"
      by (simp only: ij(1,2) V(1) subslice_append_middle [OF ij(3)] min.cobounded1)
    have next_s: "Suc k < length (blocks so) \<longrightarrow> s < ends so ! Suc k"
      using s ends ends_mono [OF wf, of k "Suc k"] by auto
    have "extend_loop so s e out [k..<length (blocks so)] =
        extend_loop so s e (out @ subslice (to_vec so) (max s ?base) (min (ends so ! k) e)) [Suc k..<length (blocks so)]"
      using False k part by (simp add: upt_conv_Cons [OF k] Let_def)
    also have "\<dots> = out @ subslice (to_vec so) (max s ?base) (min (ends so ! k) e) @
        subslice (to_vec so) (max s (start so (Suc k))) e"
      using Suc.hyps(1) [of "Suc k"] Suc.hyps(2) k next_s by simp
    also have "subslice (to_vec so) (max s ?base) (min (ends so ! k) e) @ subslice (to_vec so) (max s (start so (Suc k))) e =
        subslice (to_vec so) (max s ?base) e"
    proof (cases "ends so ! k \<le> e")
      case True
      moreover have "max s ?base \<le> ends so ! k" "max s (ends so ! k) = ends so ! k"
        using s ends by auto
      ultimately show ?thesis using subslice_append_subslice [of "max s ?base" "ends so ! k" e "to_vec so"]
        by (simp only: start_Suc min_absorb1)
    next
      case False
      then show ?thesis using s ends by (simp add: start_Suc max_def subslice_def)
    qed
    finally show ?thesis .
  qed
qed

lemma extend_range_eq:
  assumes "wf_order so"
  shows "extend_range so out s e =
    (if s \<le> e \<and> e \<le> length (to_vec so) then Some (out @ subslice (to_vec so) s e) else None)"
proof (cases "s < e \<and> e \<le> length (to_vec so)")
  case True
  then have "s < length (to_vec so)" by simp
  note loc = wf_locate [OF assms this]
  have "extend_loop so s e out [partition_point (\<lambda>r. r \<le> s) (ends so)..<length (blocks so)] =
      out @ subslice (to_vec so) s e"
    using extend_loop_correct [OF assms, of s e "partition_point (\<lambda>r. r \<le> s) (ends so)" out] loc True
    by (simp add: max_absorb1)
  with True show ?thesis by (simp add: extend_range_def order_len_to_vec [OF assms] Let_def)
qed (auto simp: extend_range_def order_len_to_vec [OF assms])

text \<open>Searching leaf maxima first and then one leaf is searching the flat sequence.\<close>

lemma sorted_map_block:
  assumes "sorted (map f (pre @ vs @ post))"
  shows "sorted (map f vs)" "v \<in> set vs \<Longrightarrow> f v \<le> f (last vs)"
proof -
  show s: "sorted (map f vs)" using assms by (simp add: sorted_append)
  show "v \<in> set vs \<Longrightarrow> f v \<le> f (last vs)"
    using s by (induction vs) (auto split: if_splits)
qed

lemma binary_search_by_eq:
  assumes wf: "wf_order so" and mono: "sorted (map f (to_vec so))"
  shows "binary_search_by so f = slice_binary_search f (to_vec so)"
proof -
  let ?p = "\<lambda>b. f (last (slots b)) = Less"
  define k where "k = partition_point ?p (blocks so)"
  have less: "f v = Less" if v: "v \<in> set (flat (take k (blocks so)))" for v
  proof -
    obtain j where j: "j < k" "j < length (blocks so)" "v \<in> set (slots (blocks so ! j))"
      using v by (auto simp: in_set_conv_nth [of _ "take k (blocks so)"])
    obtain pre post where "to_vec so = pre @ slots (blocks so ! j) @ post"
      using to_vec_split [OF wf j(2)] by blast
    then have "f v \<le> f (last (slots (blocks so ! j)))"
      using sorted_map_block(2) mono j(3) by metis
    moreover have "?p (blocks so ! j)" using partition_point_before [of j ?p] j(1) by (simp add: k_def)
    ultimately show ?thesis by simp
  qed
  show ?thesis
  proof (cases "k = length (blocks so)")
    case True
    then have "takeWhile (\<lambda>x. f x = Less) (to_vec so) = to_vec so"
      using less by (simp add: to_vec_def takeWhile_eq_all_conv)
    with True show ?thesis
      by (simp del: takeWhile_eq_all_conv add: Let_def binary_search_by_def k_def slice_binary_search_def partition_point_def order_len_to_vec [OF wf])
  next
    case False
    then have k: "k < length (blocks so)"
      using partition_point_le [of ?p "blocks so"] unfolding k_def by linarith
    let ?v = "slots (blocks so ! k)" and ?pre = "flat (take k (blocks so))"
    have V: "to_vec so = ?pre @ ?v @ flat (drop (Suc k) (blocks so))"
      using flat_split [OF k] by (simp add: to_vec_def)
    have "?v \<noteq> []" using wf k by (simp add: wf_order_def)
    moreover have "f (last ?v) \<noteq> Less" using partition_point_at [of ?p "blocks so"] k by (simp add: k_def)
    ultimately have stop: "last ?v \<in> set ?v" "\<not> f (last ?v) = Less" by simp_all
    have "takeWhile (\<lambda>x. f x = Less) (?v @ flat (drop (Suc k) (blocks so))) = takeWhile (\<lambda>x. f x = Less) ?v"
      by (rule takeWhile_append1) (use stop in auto)
    moreover have "partition_point (\<lambda>x. f x = Less) ?v < length ?v"
      using stop by (rule partition_point_less)
    moreover have "takeWhile (\<lambda>x. f x = Less) (to_vec so) =
        ?pre @ takeWhile (\<lambda>x. f x = Less) (?v @ flat (drop (Suc k) (blocks so)))"
      unfolding V by (rule takeWhile_append2) (rule less)
    ultimately have pp: "partition_point (\<lambda>x. f x = Less) (to_vec so) = start so k + partition_point (\<lambda>x. f x = Less) ?v"
      "partition_point (\<lambda>x. f x = Less) ?v < length ?v"
      using start_eq [OF wf, of k] k by (simp_all add: partition_point_def)
    then show ?thesis
      using k start_eq [OF wf, of k] False
      by (auto simp: binary_search_by_def k_def [symmetric] slice_binary_search_def Let_def V nth_append)
  qed
qed

section \<open>Properties\<close>



end
