(* ===== verification/Result_Order.thy ===== *)
theory Result_Order
  imports Natural_Order File_Entry Slot_Order
begin

text \<open>
  \<open>core/src/result_order.rs\<close>: the parsed result ordering with its comparison of entries, the
  cancellable run-and-merge sort, and the selection of the first page without a full sort.

  A load of the shared cancellation flag is a call of \<open>cancelled k\<close>, where \<open>k\<close> counts the loads made
  so far: any history of the flag is such a function. A panic is \<open>None\<close>.
\<close>

section \<open>Parsing and comparing\<close>

datatype sort_field =
  SortName | SortPath | SortExtension | SortSize | SortModified | SortCreated | SortDirectory

type_synonym result_order = "(sort_field \<times> bool) list"

definition order_name :: result_order where "order_name = [(SortName, True)]"
definition order_path :: result_order where "order_path = [(SortPath, True)]"

definition parse_sort_field :: "str \<Rightarrow> sort_field result" where
  "parse_sort_field s =
     (if s = lit ''name'' then Inr SortName
      else if s = lit ''path'' then Inr SortPath
      else if s = lit ''extension'' then Inr SortExtension
      else if s = lit ''size'' then Inr SortSize
      else if s = lit ''modified'' then Inr SortModified
      else if s = lit ''created'' then Inr SortCreated
      else if s = lit ''is_dir'' then Inr SortDirectory
      else Inl ''Unsupported sort field'')"

fun parse_sort_items :: "json list \<Rightarrow> result_order result" where
  "parse_sort_items [] = Inr []"
| "parse_sort_items (item # items) =
     (case parse_sort_field
             (case as_str (json_index item (lit ''field'')) of Some s \<Rightarrow> s | None \<Rightarrow> lit ''name'') of
        Inl e \<Rightarrow> Inl e
      | Inr f \<Rightarrow>
          (case parse_sort_items items of
             Inl e \<Rightarrow> Inl e
           | Inr rest \<Rightarrow>
               Inr ((f, case as_bool (json_index item (lit ''ascending'')) of Some b \<Rightarrow> b | None \<Rightarrow> True) # rest)))"

definition order_parse :: "json \<Rightarrow> result_order result" where
  "order_parse v = (case as_array v of None \<Rightarrow> Inr order_name | Some items \<Rightarrow> parse_sort_items items)"

definition primary_path_direction :: "result_order \<Rightarrow> bool option" where
  "primary_path_direction ro =
     (case ro of [] \<Rightarrow> None | (f, ascending) # _ \<Rightarrow> if f = SortPath then Some ascending else None)"

fun field_differs :: "sort_field \<Rightarrow> file_entry \<Rightarrow> file_entry \<Rightarrow> bool" where
  "field_differs SortName p c = (name p \<noteq> name c)"
| "field_differs SortPath p c = False"
| "field_differs SortExtension p c = (extension p \<noteq> extension c)"
| "field_differs SortSize p c = (size p \<noteq> size c)"
| "field_differs SortModified p c = (modified p \<noteq> modified c)"
| "field_differs SortCreated p c = (created p \<noteq> created c)"
| "field_differs SortDirectory p c = (is_dir p \<noteq> is_dir c)"

definition affected_by_change :: "result_order \<Rightarrow> file_entry \<Rightarrow> file_entry \<Rightarrow> bool" where
  "affected_by_change ro previous current \<longleftrightarrow>
     (\<not> view_eq (path previous) (path current) \<or> id previous \<noteq> id current) \<or>
     list_ex (\<lambda>(f, _). field_differs f previous current) ro"

fun field_cmp :: "sort_field \<Rightarrow> file_entry \<Rightarrow> file_entry \<Rightarrow> ordering" where
  "field_cmp SortName a b = natural_cmp_folded (as_bytes (folded_name a)) (as_bytes (folded_name b))"
| "field_cmp SortPath a b = view_natural_cmp (folded_path a) (folded_path b)"
| "field_cmp SortExtension a b = slice_cmp (as_bytes (extension a)) (as_bytes (extension b))"
| "field_cmp SortSize a b = prim_cmp (size a) (size b)"
| "field_cmp SortModified a b = prim_cmp (modified a) (modified b)"
| "field_cmp SortCreated a b = prim_cmp (created a) (created b)"
| "field_cmp SortDirectory a b = prim_cmp (is_dir a) (is_dir b)"

fun order_compare :: "result_order \<Rightarrow> file_entry \<Rightarrow> file_entry \<Rightarrow> ordering" where
  "order_compare [] a b = then_with (view_cmp (path a) (path b)) (prim_cmp (id a) (id b))"
| "order_compare ((f, ascending) # ro) a b =
     (let ord = field_cmp f a b in
      if ord \<noteq> Equal then (if ascending then ord else reverse_ord ord) else order_compare ro a b)"

section \<open>Sorting\<close>

definition query_cancelled :: string where "query_cancelled = ''Query cancelled''"

definition run_length :: nat where "run_length = 1024"

text \<open>The first loop: \<open>chunks_mut(RUN)\<close>, each chunk sorted after a look at the flag.\<close>

function sort_runs ::
  "('a \<Rightarrow> 'a \<Rightarrow> ordering) \<Rightarrow> (nat \<Rightarrow> bool) \<Rightarrow> nat \<Rightarrow> 'a list \<Rightarrow> ('a list \<times> nat) result" where
  "sort_runs cmp cancelled k xs =
     (if xs = [] then Inr ([], k)
      else if cancelled k then Inl query_cancelled
      else bind_result (sort_runs cmp cancelled (k + 1) (drop run_length xs))
             (\<lambda>(rest, k'). Inr (sort_by cmp (take run_length xs) @ rest, k')))"
  by pat_completeness auto
termination
  by (relation "measure (\<lambda>(_, _, _, xs). length xs)") (auto simp: run_length_def)

declare sort_runs.simps [simp del]

text \<open>
  The innermost loop of a merge: \<open>left\<close> and \<open>right\<close> are what remains of \<open>slots[left..middle]\<close> and of
  \<open>slots[right..end]\<close>, so that \<open>right == end\<close> is an empty second list.
\<close>

function merge_runs ::
  "('a \<Rightarrow> 'a \<Rightarrow> ordering) \<Rightarrow> (nat \<Rightarrow> bool) \<Rightarrow> nat \<Rightarrow> nat \<Rightarrow> 'a list \<Rightarrow> 'a list \<Rightarrow> ('a list \<times> nat) result" where
  "merge_runs cmp cancelled k position left right =
     (if left = [] \<and> right = [] then Inr ([], k)
      else if position mod run_length = 0 \<and> cancelled k then Inl query_cancelled
      else
        let k' = (if position mod run_length = 0 then k + 1 else k) in
        if right = [] \<or> (left \<noteq> [] \<and> cmp (hd left) (hd right) \<noteq> Greater)
        then bind_result (merge_runs cmp cancelled k' (position + 1) (tl left) right)
               (\<lambda>(rest, k''). Inr (hd left # rest, k''))
        else bind_result (merge_runs cmp cancelled k' (position + 1) left (tl right))
               (\<lambda>(rest, k''). Inr (hd right # rest, k'')))"
  by pat_completeness auto
termination
  by (relation "measure (\<lambda>(_, _, _, _, left, right). length left + length right)")
    (auto simp: length_greater_0_conv [symmetric] simp del: length_greater_0_conv)

declare merge_runs.simps [simp del]

text \<open>One pass of the outer loop: \<open>(0..len).step_by(2 * width)\<close>.\<close>

function merge_pass ::
  "('a \<Rightarrow> 'a \<Rightarrow> ordering) \<Rightarrow> (nat \<Rightarrow> bool) \<Rightarrow> nat \<Rightarrow> nat \<Rightarrow> 'a list \<Rightarrow> ('a list \<times> nat) result" where
  "merge_pass cmp cancelled k width xs =
     (if xs = [] \<or> width = 0 then Inr ([], k)
      else bind_result (merge_runs cmp cancelled k 0 (take width xs) (take width (drop width xs)))
             (\<lambda>(merged, k'). bind_result (merge_pass cmp cancelled k' width (drop (2 * width) xs))
               (\<lambda>(rest, k''). Inr (merged @ rest, k''))))"
  by pat_completeness auto
termination
  by (relation "measure (\<lambda>(_, _, _, _, xs). length xs)") auto

declare merge_pass.simps [simp del]

lemma merge_runs_ok:
  "merge_runs cmp cancelled k position left right = Inr (out, k') \<Longrightarrow> out = merge_by cmp left right"
proof (induction cmp cancelled k position left right arbitrary: out k' rule: merge_runs.induct)
  case (1 cmp cancelled k position left right)
  note IH = "1.IH" and prem = "1.prems"
  show ?case
  proof (cases left)
    case Nil
    then show ?thesis using prem IH
      by (cases right) (subst (asm) merge_runs.simps, auto simp: Let_def split: if_splits)+
  next
    case (Cons l ls)
    then show ?thesis using prem IH
      by (cases right) (subst (asm) merge_runs.simps, auto simp: Let_def split: if_splits)+
  qed
qed

lemma merge_pass_length:
  "0 < width \<Longrightarrow> merge_pass cmp cancelled k width xs = Inr (out, k') \<Longrightarrow> mset out = mset xs"
proof (induction cmp cancelled k width xs arbitrary: out k' rule: merge_pass.induct)
  case (1 cmp cancelled k width xs)
  show ?case
  proof (cases "xs = []")
    case True
    then show ?thesis using "1.prems"(2) by (simp add: merge_pass.simps)
  next
    case False
    from "1.prems" False obtain m k1 r where
      m: "merge_runs cmp cancelled k 0 (take width xs) (take width (drop width xs)) = Inr (m, k1)"
      and r: "merge_pass cmp cancelled k1 width (drop (2 * width) xs) = Inr (r, k')"
      and out: "out = m @ r"
      by (subst (asm) (2) merge_pass.simps) auto
    have "mset r = mset (drop (2 * width) xs)" using "1.IH" [OF _ _ r] False "1.prems"(1) by simp
    moreover have "mset m = mset (take width xs) + mset (take width (drop width xs))"
      using merge_runs_ok [OF m] by simp
    moreover have "mset xs = mset (take width xs @ take width (drop width xs) @ drop (2 * width) xs)"
      by (simp add: mult_2 add.commute flip: drop_drop)
    ultimately show ?thesis using out by simp
  qed
qed

text \<open>The outer loop; \<open>width\<close> starts at \<open>RUN\<close> and doubles.\<close>

function merge_passes ::
  "('a \<Rightarrow> 'a \<Rightarrow> ordering) \<Rightarrow> (nat \<Rightarrow> bool) \<Rightarrow> nat \<Rightarrow> nat \<Rightarrow> 'a list \<Rightarrow> ('a list \<times> nat) result" where
  "merge_passes cmp cancelled k width xs =
     (if width = 0 \<or> length xs \<le> width then Inr (xs, k)
      else case merge_pass cmp cancelled k width xs of
             Inl e \<Rightarrow> Inl e
           | Inr (scratch, k') \<Rightarrow> merge_passes cmp cancelled k' (width * 2) scratch)"
  by pat_completeness auto
termination
proof (relation "measure (\<lambda>(_, _, _, width, xs). length xs - width)", goal_cases)
  case (2 cmp cancelled k width xs x y k' )
  then show ?case using merge_pass_length [of width cmp cancelled k xs] by (auto dest!: mset_eq_length)
qed simp

declare merge_passes.simps [simp del]

definition sort_slots ::
  "('a \<Rightarrow> 'a \<Rightarrow> ordering) \<Rightarrow> (nat \<Rightarrow> bool) \<Rightarrow> nat \<Rightarrow> 'a list \<Rightarrow> ('a list \<times> nat) result" where
  "sort_slots cmp cancelled k xs =
     bind_result (sort_runs cmp cancelled k xs)
       (\<lambda>(ys, k'). if length ys \<le> run_length then Inr (ys, k')
                   else merge_passes cmp cancelled k' run_length ys)"

section \<open>The sort is a sort, and only cancellation stops it\<close>

definition runs_sorted :: "('a \<Rightarrow> 'a \<Rightarrow> ordering) \<Rightarrow> nat \<Rightarrow> 'a list \<Rightarrow> bool" where
  "runs_sorted cmp w xs \<longleftrightarrow> (\<forall>i. sorted_by cmp (take w (drop (i * w) xs)))"

lemma runs_sorted_step:
  "runs_sorted cmp w xs \<longleftrightarrow> sorted_by cmp (take w xs) \<and> runs_sorted cmp w (drop w xs)"
proof
  assume r: "runs_sorted cmp w xs"
  then have "sorted_by cmp (take w (drop (0 * w) xs))" unfolding runs_sorted_def by blast
  moreover have "sorted_by cmp (take w (drop (i * w) (drop w xs)))" for i
    using r [unfolded runs_sorted_def, rule_format, of "Suc i"] by (simp add: add.commute)
  ultimately show "sorted_by cmp (take w xs) \<and> runs_sorted cmp w (drop w xs)"
    unfolding runs_sorted_def by simp
next
  assume r: "sorted_by cmp (take w xs) \<and> runs_sorted cmp w (drop w xs)"
  have "sorted_by cmp (take w (drop (i * w) xs))" for i
  proof (cases i)
    case (Suc j)
    then show ?thesis using r unfolding runs_sorted_def by (simp add: add.commute)
  qed (use r in simp)
  then show "runs_sorted cmp w xs" unfolding runs_sorted_def by blast
qed

lemma runs_sorted_append:
  "length m = w \<or> r = [] \<and> length m \<le> w \<Longrightarrow> sorted_by cmp m \<Longrightarrow> runs_sorted cmp w r \<Longrightarrow>
     runs_sorted cmp w (m @ r)"
  by (subst runs_sorted_step) (auto simp: runs_sorted_def)

lemma runs_sorted_whole: "runs_sorted cmp w xs \<Longrightarrow> length xs \<le> w \<Longrightarrow> sorted_by cmp xs"
  using runs_sorted_step [of cmp w xs] by simp

context comparator
begin

lemma sort_runs_ok:
  "sort_runs cmp cancelled k xs = Inr (ys, k') \<Longrightarrow> mset ys = mset xs \<and> runs_sorted cmp run_length ys"
proof (induction "length xs" arbitrary: xs k ys rule: less_induct)
  case less
  show ?case
  proof (cases "xs = []")
    case True
    then show ?thesis using less.prems by (simp add: sort_runs.simps runs_sorted_def)
  next
    case False
    from less.prems False obtain r where
      r: "sort_runs cmp cancelled (k + 1) (drop run_length xs) = Inr (r, k')"
      and ys: "ys = sort_by cmp (take run_length xs) @ r"
      by (subst (asm) sort_runs.simps) (auto split: if_splits)
    have IH: "mset r = mset (drop run_length xs)" "runs_sorted cmp run_length r"
      using less.hyps [OF _ r] False by (auto simp: run_length_def)
    have "mset ys = mset (take run_length xs) + mset (drop run_length xs)" using IH ys by simp
    also have "\<dots> = mset xs" by (simp only: append_take_drop_id flip: mset_append)
    finally have "mset ys = mset xs" .
    moreover have "length r = length xs - run_length" using IH(1) by (metis length_drop mset_eq_length)
    then have "runs_sorted cmp run_length ys" unfolding ys using IH(2)
      by (intro runs_sorted_append) (auto simp: sorted_by_sort_by min_def simp flip: length_greater_0_conv)
    ultimately show ?thesis by simp
  qed
qed

lemma merge_pass_ok:
  "0 < w \<Longrightarrow> merge_pass cmp cancelled k w xs = Inr (ys, k') \<Longrightarrow> runs_sorted cmp w xs \<Longrightarrow>
     runs_sorted cmp (w * 2) ys"
proof (induction "length xs" arbitrary: xs k ys rule: less_induct)
  case less
  show ?case
  proof (cases "xs = []")
    case True
    then show ?thesis using less.prems by (simp add: merge_pass.simps runs_sorted_def)
  next
    case False
    from less.prems(1,2) False obtain m k1 r where
      m: "merge_runs cmp cancelled k 0 (take w xs) (take w (drop w xs)) = Inr (m, k1)"
      and r: "merge_pass cmp cancelled k1 w (drop (2 * w) xs) = Inr (r, k')"
      and ys: "ys = m @ r"
      by (subst (asm) merge_pass.simps) auto
    have rs: "sorted_by cmp (take w xs)" "sorted_by cmp (take w (drop w xs))" "runs_sorted cmp w (drop (2 * w) xs)"
      using less.prems(3) runs_sorted_step [of cmp w xs] runs_sorted_step [of cmp w "drop w xs"]
      by (simp_all add: mult_2)
    have "runs_sorted cmp (w * 2) r"
      using less.hyps [OF _ less.prems(1) r rs(3)] False less.prems(1) by simp
    moreover have mm: "m = merge_by cmp (take w xs) (take w (drop w xs))" using merge_runs_ok [OF m] .
    moreover have "sorted_by cmp m" unfolding mm using rs by (intro sorted_by_merge_by)
    moreover have "length r = length xs - 2 * w"
      using merge_pass_length [OF less.prems(1) r] by (metis length_drop mset_eq_length)
    ultimately show ?thesis unfolding ys by (intro runs_sorted_append) auto
  qed
qed

lemma merge_passes_ok:
  "0 < w \<Longrightarrow> merge_passes cmp cancelled k w xs = Inr (ys, k') \<Longrightarrow> runs_sorted cmp w xs \<Longrightarrow>
     mset ys = mset xs \<and> sorted_by cmp ys"
proof (induction "length xs - w" arbitrary: xs k w rule: less_induct)
  case less
  show ?case
  proof (cases "length xs \<le> w")
    case True
    then show ?thesis using less.prems runs_sorted_whole by (simp add: merge_passes.simps)
  next
    case False
    with less.prems(1,2) obtain s k1 where
      s: "merge_pass cmp cancelled k w xs = Inr (s, k1)"
      and r: "merge_passes cmp cancelled k1 (w * 2) s = Inr (ys, k')"
      by (subst (asm) merge_passes.simps) (auto split: sum.splits)
    have ms: "mset s = mset xs" using merge_pass_length [OF less.prems(1) s] .
    then have "length s = length xs" by (rule mset_eq_length)
    then show ?thesis
      using less.hyps [OF _ _ r merge_pass_ok [OF less.prems(1) s less.prems(3)]] False less.prems(1) ms
      by simp
  qed
qed

lemma sort_slots_ok:
  "sort_slots cmp cancelled k xs = Inr (ys, k') \<Longrightarrow> mset ys = mset xs \<and> sorted_by cmp ys"
  using sort_runs_ok [of cancelled k xs] merge_passes_ok [of run_length cancelled _ _ ys k']
  by (auto simp: sort_slots_def run_length_def split: if_splits intro: runs_sorted_whole)

end

text \<open>The only error is the cancellation, and it needs a load that saw the flag set.\<close>

definition cancel_only :: "(nat \<Rightarrow> bool) \<Rightarrow> 'a result \<Rightarrow> bool" where
  "cancel_only cancelled r \<longleftrightarrow> (\<forall>e. r = Inl e \<longrightarrow> e = query_cancelled \<and> (\<exists>j. cancelled j))"

lemma cancel_only_Inr [simp]: "cancel_only cancelled (Inr x)"
  by (simp add: cancel_only_def)

lemma cancel_only_Inl: "cancelled k \<Longrightarrow> cancel_only cancelled (Inl query_cancelled)"
  by (auto simp: cancel_only_def)

lemma cancel_only_bind:
  "cancel_only cancelled r \<Longrightarrow> (\<And>x. r = Inr x \<Longrightarrow> cancel_only cancelled (f x)) \<Longrightarrow>
     cancel_only cancelled (bind_result r f)"
  by (cases r) (auto simp: cancel_only_def)

lemma cancel_only_runs: "cancel_only cancelled (sort_runs cmp cancelled k xs)"
proof (induction cmp cancelled k xs rule: sort_runs.induct)
  case (1 cmp cancelled k xs)
  then show ?case
    by (subst sort_runs.simps) (auto intro!: cancel_only_bind intro: cancel_only_Inl)
qed

lemma cancel_only_merge: "cancel_only cancelled (merge_runs cmp cancelled k position left right)"
proof (induction cmp cancelled k position left right rule: merge_runs.induct)
  case (1 cmp cancelled k position left right)
  then show ?case
    by (subst merge_runs.simps) (auto simp: Let_def intro!: cancel_only_bind intro: cancel_only_Inl)
qed

lemma cancel_only_pass: "cancel_only cancelled (merge_pass cmp cancelled k width xs)"
proof (induction cmp cancelled k width xs rule: merge_pass.induct)
  case (1 cmp cancelled k width xs)
  then show ?case
    by (subst merge_pass.simps) (auto intro!: cancel_only_bind cancel_only_merge)
qed

lemma cancel_only_passes: "cancel_only cancelled (merge_passes cmp cancelled k width xs)"
proof (induction cmp cancelled k width xs rule: merge_passes.induct)
  case (1 cmp cancelled k width xs)
  show ?case
  proof (cases "merge_pass cmp cancelled k width xs")
    case (Inl e)
    then show ?thesis using cancel_only_pass [of cancelled cmp k width xs]
      by (subst merge_passes.simps) (auto simp: cancel_only_def)
  next
    case (Inr s)
    then show ?thesis using "1.IH" by (subst merge_passes.simps) (cases s, auto)
  qed
qed

lemma cancel_only_sort: "cancel_only cancelled (sort_slots cmp cancelled k xs)"
  unfolding sort_slots_def
  by (intro cancel_only_bind cancel_only_runs) (auto simp: cancel_only_passes)

section \<open>Selecting a prefix\<close>

text \<open>\<open>slots.swap(i, j)\<close>, which panics outside the slice.\<close>

definition swap_slots :: "'a list \<Rightarrow> nat \<Rightarrow> nat \<Rightarrow> 'a list option" where
  "swap_slots xs i j = (if i < length xs \<and> j < length xs then Some (xs[i := xs ! j, j := xs ! i]) else None)"

text \<open>The three-way partition around \<open>pivot\<close>, with the loop's cursors.\<close>

function partition3 ::
  "('a \<Rightarrow> 'a \<Rightarrow> ordering) \<Rightarrow> (nat \<Rightarrow> bool) \<Rightarrow> nat \<Rightarrow> 'a \<Rightarrow> nat \<Rightarrow> nat \<Rightarrow> nat \<Rightarrow> nat \<Rightarrow> 'a list \<Rightarrow>
     ('a list \<times> nat \<times> nat \<times> nat) result option" where
  "partition3 cmp cancelled k pivot lt current gt comparisons xs =
     (if \<not> current < gt then Some (Inr (xs, lt, gt, k))
      else if comparisons mod 1024 = 0 \<and> cancelled k then Some (Inl query_cancelled)
      else if length xs \<le> current then None
      else
        let k' = (if comparisons mod 1024 = 0 then k + 1 else k) in
        (case cmp (xs ! current) pivot of
           Less \<Rightarrow> Option.bind (swap_slots xs lt current)
             (\<lambda>ys. partition3 cmp cancelled k' pivot (lt + 1) (current + 1) gt (comparisons + 1) ys)
         | Greater \<Rightarrow> Option.bind (swap_slots xs current (gt - 1))
             (\<lambda>ys. partition3 cmp cancelled k' pivot lt current (gt - 1) (comparisons + 1) ys)
         | Equal \<Rightarrow> partition3 cmp cancelled k' pivot lt (current + 1) gt (comparisons + 1) xs))"
  by pat_completeness auto
termination
  by (relation "measure (\<lambda>(_, _, _, _, _, current, gt, _, _). gt - current)") auto

declare partition3.simps [simp del]

text \<open>
  The selection loop. It ends with the vector and the window \<open>(low, high)\<close> that is left to sort;
  \<open>low = high\<close> when the target fell on an element equal to the pivot.
\<close>

fun select_loop ::
  "('a \<Rightarrow> 'a \<Rightarrow> ordering) \<Rightarrow> (nat \<Rightarrow> bool) \<Rightarrow> nat \<Rightarrow> nat \<Rightarrow> nat \<Rightarrow> nat \<Rightarrow> nat \<Rightarrow> 'a list \<Rightarrow>
     ('a list \<times> nat \<times> nat \<times> nat) result option" where
  "select_loop cmp cancelled k target low high budget xs =
     (if \<not> (high - low > 1024 \<and> target \<ge> low \<and> target < high) then Some (Inr (xs, low, high, k))
      else if cancelled k then Some (Inl query_cancelled)
      else if length xs < high then None
      else case budget of
        0 \<Rightarrow> Some (bind_result (sort_slots cmp cancelled (k + 1) (subslice xs low high))
               (\<lambda>(remainder, k'). Inr (take low xs @ remainder @ drop high xs, low, high, k')))
      | Suc budget' \<Rightarrow>
          let pivot = sort_by cmp [xs ! low, xs ! (low + (high - low) div 2), xs ! (high - 1)] ! 1 in
          Option.bind (partition3 cmp cancelled (k + 1) pivot low low high 0 xs)
            (\<lambda>r. case r of
                   Inl e \<Rightarrow> Some (Inl e)
                 | Inr (ys, lt, gt, k') \<Rightarrow>
                     if target < lt then select_loop cmp cancelled k' target low lt budget' ys
                     else if target \<ge> gt then select_loop cmp cancelled k' target gt high budget' ys
                     else Some (Inr (ys, high, high, k'))))"

declare select_loop.simps [simp del]

definition sort_window :: "('a \<Rightarrow> 'a \<Rightarrow> ordering) \<Rightarrow> nat \<Rightarrow> nat \<Rightarrow> 'a list \<Rightarrow> 'a list" where
  "sort_window cmp low high xs =
     (if low < high then take low xs @ sort_by cmp (subslice xs low high) @ drop high xs else xs)"

definition ilog2 :: "nat \<Rightarrow> nat" where "ilog2 n = floorlog 2 n - 1"

definition select_prefix ::
  "('a \<Rightarrow> 'a \<Rightarrow> ordering) \<Rightarrow> (nat \<Rightarrow> bool) \<Rightarrow> nat \<Rightarrow> nat \<Rightarrow> 'a list \<Rightarrow> ('a list \<times> nat) result option" where
  "select_prefix cmp cancelled k page_end xs =
     (let end_index = min page_end (length xs) in
      if end_index = 0 then Some (Inr ([], k))
      else
        Option.bind (select_loop cmp cancelled k (end_index - 1) 0 (length xs) (ilog2 (length xs) * 2 + 1) xs)
          (\<lambda>r. case r of
                 Inl e \<Rightarrow> Some (Inl e)
               | Inr (ys, low, high, k') \<Rightarrow>
                   let zs = sort_window cmp low high ys in
                   if cancelled k' then Some (Inl query_cancelled)
                   else Some (sort_slots cmp cancelled (k' + 1) (take end_index zs))))"

section \<open>The selection returns the first elements of the sorted vector\<close>

definition partitioned ::
  "('a \<Rightarrow> 'a \<Rightarrow> ordering) \<Rightarrow> 'a \<Rightarrow> nat \<Rightarrow> nat \<Rightarrow> nat \<Rightarrow> nat \<Rightarrow> nat \<Rightarrow> 'a list \<Rightarrow> bool" where
  "partitioned cmp pivot low lt current gt high xs \<longleftrightarrow>
     low \<le> lt \<and> lt \<le> current \<and> current \<le> gt \<and> gt \<le> high \<and> high \<le> length xs \<and>
     (\<forall>i. low \<le> i \<and> i < lt \<longrightarrow> cmp (xs ! i) pivot = Less) \<and>
     (\<forall>i. lt \<le> i \<and> i < current \<longrightarrow> cmp (xs ! i) pivot = Equal) \<and>
     (\<forall>i. gt \<le> i \<and> i < high \<longrightarrow> cmp (xs ! i) pivot = Greater)"

lemma mset_swap_slots: "swap_slots xs i j = Some ys \<Longrightarrow> mset ys = mset xs"
  by (auto simp: swap_slots_def mset_swap split: if_splits)

lemma partition3_ok:
  "partitioned cmp pivot low lt current gt high xs \<Longrightarrow>
     (case partition3 cmp cancelled k pivot lt current gt comparisons xs of
        None \<Rightarrow> False
      | Some (Inl e) \<Rightarrow> cancel_only cancelled (Inl e :: nat result)
      | Some (Inr (ys, lt', gt', k')) \<Rightarrow>
          partitioned cmp pivot low lt' gt' gt' high ys \<and> mset ys = mset xs \<and>
          take low ys = take low xs \<and> drop high ys = drop high xs)"
proof (induction cmp cancelled k pivot lt current gt comparisons xs rule: partition3.induct)
  case (1 cmp cancelled k pivot lt current gt comparisons xs)
  note inv = "1.prems"
  consider (stop) "\<not> current < gt" | (cancel) "current < gt" "comparisons mod 1024 = 0 \<and> cancelled k"
    | (go) "current < gt" "\<not> (comparisons mod 1024 = 0 \<and> cancelled k)" by blast
  then show ?case
  proof cases
    case stop
    then have "gt = current" using inv by (simp add: partitioned_def)
    then show ?thesis using inv stop by (subst partition3.simps) simp
  next
    case cancel
    then show ?thesis by (subst partition3.simps) (auto simp: cancel_only_def)
  next
    case go
    have b: "low \<le> lt" "lt \<le> current" "gt \<le> high" "high \<le> length xs" "current < length xs"
      using inv go by (auto simp: partitioned_def)
    define k' where "k' = (if comparisons mod 1024 = 0 then k + 1 else k)"
    show ?thesis
    proof (cases "cmp (xs ! current) pivot")
      case Less
      define ys where "ys = xs[lt := xs ! current, current := xs ! lt]"
      have sw: "swap_slots xs lt current = Some ys" using b by (simp add: swap_slots_def ys_def)
      have kept: "take low ys = take low xs" "drop high ys = drop high xs"
        using b go by (simp_all add: ys_def)
      have "partitioned cmp pivot low (lt + 1) (current + 1) gt high ys"
        using inv go Less b by (auto simp: partitioned_def ys_def nth_list_update)
      then show ?thesis
        using "1.IH"(1) [OF _ go(2) _ k'_def Less sw, unfolded kept mset_swap_slots [OF sw]] go b Less sw
        by (subst partition3.simps) (auto simp flip: k'_def intro: cancel_only_Inl)
    next
      case Equal
      have "partitioned cmp pivot low lt (current + 1) gt high xs"
        using inv go Equal b by (auto simp: partitioned_def less_Suc_eq)
      then show ?thesis
        using "1.IH"(2) [OF _ go(2) _ k'_def Equal] go b Equal
        by (subst partition3.simps) (auto simp flip: k'_def intro: cancel_only_Inl)
    next
      case Greater
      define ys where "ys = xs[current := xs ! (gt - 1), gt - 1 := xs ! current]"
      have sw: "swap_slots xs current (gt - 1) = Some ys" using b go by (simp add: swap_slots_def ys_def)
      have kept: "take low ys = take low xs" "drop high ys = drop high xs"
        using b go by (simp_all add: ys_def)
      have "partitioned cmp pivot low lt current (gt - 1) high ys"
        using inv go Greater b by (auto simp: partitioned_def ys_def nth_list_update)
      then show ?thesis
        using "1.IH"(3) [OF _ go(2) _ k'_def Greater sw, unfolded kept mset_swap_slots [OF sw]] go b Greater sw
        by (subst partition3.simps) (auto simp flip: k'_def intro: cancel_only_Inl)
    qed
  qed
qed

text \<open>No element before position \<open>n\<close> is above one at or after it.\<close>

definition splits_at :: "('a \<Rightarrow> 'a \<Rightarrow> ordering) \<Rightarrow> nat \<Rightarrow> 'a list \<Rightarrow> bool" where
  "splits_at cmp n xs \<longleftrightarrow> (\<forall>x \<in> set (take n xs). \<forall>y \<in> set (drop n xs). cmp x y \<noteq> Greater)"

lemma splits_at_nth:
  "splits_at cmp n xs \<Longrightarrow> i < n \<Longrightarrow> n \<le> j \<Longrightarrow> j < length xs \<Longrightarrow> cmp (xs ! i) (xs ! j) \<noteq> Greater"
proof -
  assume s: "splits_at cmp n xs" and b: "i < n" "n \<le> j" "j < length xs"
  have "xs ! i \<in> set (take n xs)" using b by (auto simp: in_set_conv_nth intro!: exI [of _ i])
  moreover have "xs ! j \<in> set (drop n xs)" using b by (auto simp: in_set_conv_nth intro!: exI [of _ "j - n"])
  ultimately show ?thesis using s unfolding splits_at_def by blast
qed

lemma splits_at_nthI:
  "(\<And>i j. i < n \<Longrightarrow> n \<le> j \<Longrightarrow> j < length xs \<Longrightarrow> cmp (xs ! i) (xs ! j) \<noteq> Greater) \<Longrightarrow> splits_at cmp n xs"
  by (auto simp: splits_at_def in_set_conv_nth)

lemma splits_at_cong:
  assumes "splits_at cmp n xs" "mset (take n ys) = mset (take n xs)" "mset ys = mset xs"
  shows "splits_at cmp n ys"
proof -
  have "mset (drop n ys) = mset (drop n xs)"
    using assms(2,3) by (metis add_left_cancel append_take_drop_id mset_append)
  then show ?thesis using assms(1,2) unfolding splits_at_def by (metis set_mset_mset)
qed

lemma splits_at_cong_drop:
  assumes "splits_at cmp n xs" "drop n ys = drop n xs" "mset ys = mset xs"
  shows "splits_at cmp n ys"
proof -
  have "mset (take n ys) + mset (drop n ys) = mset (take n xs) + mset (drop n xs)"
    using assms(3) by (simp only: append_take_drop_id flip: mset_append)
  then have "mset (take n ys) = mset (take n xs)" using assms(2) by simp
  then show ?thesis using splits_at_cong [OF assms(1) _ assms(3)] by simp
qed

lemma mset_window:
  assumes "low \<le> high" "mset w = mset (subslice xs low high)"
  shows "mset (take low xs @ w @ drop high xs) = mset xs"
proof -
  have "mset (take low xs @ w @ drop high xs) = mset (take low xs @ subslice xs low high @ drop high xs)"
    using assms(2) by simp
  also have "\<dots> = mset xs" using assms(1) by (simp only: subslice_append_drop append_take_drop_id)
  finally show ?thesis .
qed

context comparator
begin

lemma partitioned_splits:
  assumes "partitioned cmp pivot low lt gt gt high ys" "splits_at cmp low ys" "splits_at cmp high ys" "lt \<le> n" "n \<le> gt"
  shows "splits_at cmp n ys"
proof (rule splits_at_nthI)
  fix i j
  assume ij: "i < n" "n \<le> j" "j < length ys"
  consider "i < low" | "high \<le> j" | "low \<le> i" "j < high" by linarith
  then show "cmp (ys ! i) (ys ! j) \<noteq> Greater"
  proof cases
    case 1
    then show ?thesis using splits_at_nth [OF assms(2), of i j] assms ij by (auto simp: partitioned_def)
  next
    case 2
    then show ?thesis using splits_at_nth [OF assms(3), of i j] assms ij by (auto simp: partitioned_def)
  next
    case 3
    have "cmp (ys ! i) pivot \<noteq> Greater"
      using assms(1,5) 3 ij by (cases "i < lt") (auto simp: partitioned_def)
    moreover have "cmp (ys ! j) pivot \<noteq> Less"
      using assms(1,4) 3 ij by (cases "j < gt") (auto simp: partitioned_def)
    then have "cmp pivot (ys ! j) \<noteq> Greater" using cmp_swap [of pivot "ys ! j"] by simp
    ultimately show ?thesis using cmp_trans by blast
  qed
qed

lemma sorted_window_splits:
  assumes "splits_at cmp low xs" "splits_at cmp high xs" "low \<le> high" "high \<le> length xs"
    "low \<le> n" "n \<le> high" "mset w = mset (subslice xs low high)" "sorted_by cmp w"
  shows "splits_at cmp n (take low xs @ w @ drop high xs)"
proof -
  let ?ys = "take low xs @ w @ drop high xs"
  have lw: "length w = high - low" using assms(3,4,7) by (metis length_subslice min_absorb1 diff_le_mono mset_eq_length)
  have m: "mset ?ys = mset xs" using mset_window [OF assms(3,7)] .
  have "take low ?ys = take low xs" "drop high ?ys = drop high xs" using assms(3,4) lw by simp_all
  then have s: "splits_at cmp low ?ys" "splits_at cmp high ?ys"
    using splits_at_cong [OF assms(1) _ m] splits_at_cong_drop [OF assms(2) _ m] by simp_all
  show ?thesis
  proof (rule splits_at_nthI)
    fix i j
    assume ij: "i < n" "n \<le> j" "j < length ?ys"
    consider "i < low" | "high \<le> j" | "low \<le> i" "j < high" by linarith
    then show "cmp (?ys ! i) (?ys ! j) \<noteq> Greater"
    proof cases
      case 1
      then show ?thesis using splits_at_nth [OF s(1), of i j] assms(5) ij by simp
    next
      case 2
      then show ?thesis using splits_at_nth [OF s(2), of i j] assms(6) ij by simp
    next
      case 3
      have "cmp (w ! (i - low)) (w ! (j - low)) \<noteq> Greater"
        using sorted_by_nth [OF assms(8), of "i - low" "j - low"] 3 ij lw by simp
      moreover have "i - low < high - low" "j - low < high - low" using 3 ij by linarith+
      ultimately show ?thesis using 3 ij lw assms(3,4) by (simp add: nth_append)
    qed
  qed
qed

lemma select_loop_ok:
  "low \<le> target \<Longrightarrow> target < high \<Longrightarrow> high \<le> length xs \<Longrightarrow> splits_at cmp low xs \<Longrightarrow> splits_at cmp high xs \<Longrightarrow>
     (case select_loop cmp cancelled k target low high budget xs of
        None \<Rightarrow> False
      | Some (Inl e) \<Rightarrow> cancel_only cancelled (Inl e :: nat result)
      | Some (Inr (ys, low', high', k')) \<Rightarrow>
          mset ys = mset xs \<and>
          (low' = high' \<and> splits_at cmp (target + 1) ys \<or>
           low' \<le> target \<and> target < high' \<and> high' \<le> length ys \<and> splits_at cmp low' ys \<and> splits_at cmp high' ys))"
proof (induction budget arbitrary: k low high xs)
  case 0
  note b = "0"
  show ?case
  proof (cases "high - low > 1024 \<and> \<not> cancelled k")
    case False
    then show ?thesis using b by (subst select_loop.simps) (auto intro: cancel_only_Inl)
  next
    case True
    have step: "select_loop cmp cancelled k target low high 0 xs =
      Some (bind_result (sort_slots cmp cancelled (k + 1) (subslice xs low high))
        (\<lambda>(r, k'). Inr (take low xs @ r @ drop high xs, low, high, k')))"
      using True b by (subst select_loop.simps) simp
    show ?thesis
    proof (cases "sort_slots cmp cancelled (k + 1) (subslice xs low high)")
      case (Inl e)
      then show ?thesis using step cancel_only_sort [of cancelled cmp "k + 1" "subslice xs low high"]
        by (auto simp: cancel_only_def)
    next
      case (Inr q)
      obtain r k' where q: "q = (r, k')" by (cases q)
      have r: "mset r = mset (subslice xs low high)" "sorted_by cmp r"
        using sort_slots_ok [of cancelled "k + 1" "subslice xs low high" r k'] Inr q by simp_all
      let ?ys = "take low xs @ r @ drop high xs"
      have m: "mset ?ys = mset xs" using mset_window [OF _ r(1)] b by simp
      have "length ?ys = length xs" using mset_eq_length [OF m] .
      moreover have "splits_at cmp low ?ys" "splits_at cmp high ?ys"
        using sorted_window_splits [OF b(4,5) _ b(3) _ _ r] b by simp_all
      ultimately show ?thesis using step Inr q m b by (simp del: mset_append length_append)
    qed
  qed
next
  case (Suc budget)
  note b = Suc.prems
  show ?case
  proof (cases "high - low > 1024 \<and> \<not> cancelled k")
    case False
    then show ?thesis using b by (subst select_loop.simps) (auto intro: cancel_only_Inl)
  next
    case True
    define pivot where "pivot = sort_by cmp [xs ! low, xs ! (low + (high - low) div 2), xs ! (high - 1)] ! 1"
    have step: "select_loop cmp cancelled k target low high (Suc budget) xs =
      Option.bind (partition3 cmp cancelled (k + 1) pivot low low high 0 xs)
        (\<lambda>r. case r of Inl e \<Rightarrow> Some (Inl e)
           | Inr (ys, lt, gt, k') \<Rightarrow>
               if target < lt then select_loop cmp cancelled k' target low lt budget ys
               else if target \<ge> gt then select_loop cmp cancelled k' target gt high budget ys
               else Some (Inr (ys, high, high, k')))"
      using True b by (subst select_loop.simps) (simp add: pivot_def Let_def)
    have init: "partitioned cmp pivot low low low high high xs" using b by (auto simp: partitioned_def)
    show ?thesis
    proof (cases "partition3 cmp cancelled (k + 1) pivot low low high 0 xs")
      case None
      then show ?thesis using partition3_ok [OF init, of cancelled "k + 1" 0] by simp
    next
      case (Some r)
      show ?thesis
      proof (cases r)
        case (Inl e)
        then show ?thesis using partition3_ok [OF init, of cancelled "k + 1" 0] Some step by simp
      next
        case (Inr q)
        obtain ys lt gt k' where q: "q = (ys, lt, gt, k')" by (cases q)
        have part: "partitioned cmp pivot low lt gt gt high ys" and m: "mset ys = mset xs"
          and kept: "take low ys = take low xs" "drop high ys = drop high xs"
          using partition3_ok [OF init, of cancelled "k + 1" 0] Some Inr q by simp_all
        have s: "splits_at cmp low ys" "splits_at cmp high ys"
          using splits_at_cong [OF b(4) _ m] splits_at_cong_drop [OF b(5) _ m] kept by simp_all
        have len: "length ys = length xs" using m by (rule mset_eq_length)
        have ls: "low \<le> lt" "lt \<le> gt" "gt \<le> high" using part by (simp_all add: partitioned_def)
        consider "target < lt" | "\<not> target < lt" "gt \<le> target" | "lt \<le> target" "target < gt" by linarith
        then show ?thesis
        proof cases
          case 1
          then show ?thesis
            using Suc.IH [of low lt ys k', unfolded m] partitioned_splits [OF part s, of lt] b s ls len step Some Inr q
            by simp
        next
          case 2
          then show ?thesis
            using Suc.IH [of gt high ys k', unfolded m] partitioned_splits [OF part s, of gt] b s ls len step Some Inr q
            by simp
        next
          case 3
          then show ?thesis
            using partitioned_splits [OF part s, of "target + 1"] step Some Inr q m by simp
        qed
      qed
    qed
  qed
qed

lemma sort_window_splits:
  assumes "low = high \<and> splits_at cmp n ys \<or>
    low < n \<and> n \<le> high \<and> high \<le> length ys \<and> splits_at cmp low ys \<and> splits_at cmp high ys"
  shows "mset (sort_window cmp low high ys) = mset ys \<and> splits_at cmp n (sort_window cmp low high ys)"
  using assms sorted_window_splits [of low ys high n "sort_by cmp (subslice ys low high)"]
    mset_window [of low high "sort_by cmp (subslice ys low high)" ys]
  by (auto simp: sort_window_def sorted_by_sort_by simp del: mset_append)

lemma sorted_page:
  assumes "mset zs = mset xs" "splits_at cmp n zs" "n \<le> length xs"
  shows "case sort_slots cmp cancelled k (take n zs) of
     Inl e \<Rightarrow> e = query_cancelled \<and> (\<exists>j. cancelled j)
   | Inr (ys, k') \<Rightarrow> length ys = n \<and> sorted_by cmp ys \<and>
       (\<exists>rest. mset xs = mset (ys @ rest) \<and> (\<forall>x \<in> set ys. \<forall>y \<in> set rest. cmp x y \<noteq> Greater))"
proof (cases "sort_slots cmp cancelled k (take n zs)")
  case (Inl e)
  then show ?thesis using cancel_only_sort [of cancelled cmp k "take n zs"] by (simp add: cancel_only_def)
next
  case (Inr q)
  obtain ys k' where q: "q = (ys, k')" by (cases q)
  have ys: "mset ys = mset (take n zs)" "sorted_by cmp ys"
    using sort_slots_ok [of cancelled k "take n zs" ys k'] Inr q by simp_all
  have "mset xs = mset (take n zs) + mset (drop n zs)"
    using assms(1) by (simp only: append_take_drop_id flip: mset_append)
  then have "mset xs = mset (ys @ drop n zs)" using ys by simp
  moreover have "length ys = n"
    using mset_eq_length [OF ys(1)] mset_eq_length [OF assms(1)] assms(3) by simp
  moreover have "\<forall>x \<in> set ys. \<forall>y \<in> set (drop n zs). cmp x y \<noteq> Greater"
    using assms(2) mset_eq_setD [OF ys(1)] by (simp add: splits_at_def)
  ultimately show ?thesis using Inr q ys(2) by (auto intro!: exI [of _ "drop n zs"])
qed

lemma select_prefix_ok:
  "case select_prefix cmp cancelled k page_end xs of
     None \<Rightarrow> False
   | Some (Inl e) \<Rightarrow> e = query_cancelled \<and> (\<exists>j. cancelled j)
   | Some (Inr (ys, k')) \<Rightarrow>
       length ys = min page_end (length xs) \<and> sorted_by cmp ys \<and>
       (\<exists>rest. mset xs = mset (ys @ rest) \<and> (\<forall>x \<in> set ys. \<forall>y \<in> set rest. cmp x y \<noteq> Greater))"
proof (cases "min page_end (length xs) = 0")
  case True
  then show ?thesis by (auto simp: select_prefix_def intro!: exI [of _ xs])
next
  case False
  define n where "n = min page_end (length xs)"
  have n: "n \<le> length xs" "0 < n" "xs \<noteq> []" using False by (auto simp: n_def)
  have loop: "case select_loop cmp cancelled k (n - 1) 0 (length xs) (ilog2 (length xs) * 2 + 1) xs of
        None \<Rightarrow> False
      | Some (Inl e) \<Rightarrow> cancel_only cancelled (Inl e :: nat result)
      | Some (Inr (ys, low, high, k')) \<Rightarrow> mset ys = mset xs \<and>
          (low = high \<and> splits_at cmp (n - 1 + 1) ys \<or>
           low \<le> n - 1 \<and> n - 1 < high \<and> high \<le> length ys \<and> splits_at cmp low ys \<and> splits_at cmp high ys)"
    using n by (intro select_loop_ok) (auto simp: splits_at_def)
  show ?thesis
  proof (cases "select_loop cmp cancelled k (n - 1) 0 (length xs) (ilog2 (length xs) * 2 + 1) xs")
    case None
    then show ?thesis using loop by simp
  next
    case (Some r)
    show ?thesis
    proof (cases r)
      case (Inl e)
      then show ?thesis using loop Some n by (simp add: select_prefix_def cancel_only_def Let_def flip: n_def)
    next
      case (Inr q)
      obtain ys low high k' where q: "q = (ys, low, high, k')" by (cases q)
      define zs where "zs = sort_window cmp low high ys"
      have ys: "mset ys = mset xs" "low = high \<and> splits_at cmp n ys \<or>
           low < n \<and> n \<le> high \<and> high \<le> length ys \<and> splits_at cmp low ys \<and> splits_at cmp high ys"
        using loop Some Inr q n by auto
      have zs: "mset zs = mset xs" "splits_at cmp n zs"
        using sort_window_splits [OF ys(2)] ys(1) by (simp_all add: zs_def)
      have "select_prefix cmp cancelled k page_end xs =
          (if cancelled k' then Some (Inl query_cancelled) else Some (sort_slots cmp cancelled (k' + 1) (take n zs)))"
        using Some Inr q n by (simp add: select_prefix_def Let_def flip: n_def zs_def)
      then show ?thesis using sorted_page [OF zs n(1), of cancelled "k' + 1"]
        unfolding n_def [symmetric] by (auto split: sum.splits)
    qed
  qed
qed

end

section \<open>The comparison of entries\<close>

lemma comparator_field: "comparator (field_cmp f)"
proof -
  have key: "comparator (\<lambda>a b. natural_cmp_folded (k a) (k b))" "comparator (\<lambda>a b. slice_cmp (k a) (k b))"
    for k :: "file_entry \<Rightarrow> nat list"
    by (rule comparator_key, rule comparator_natural, rule comparator_key, rule slice_comparator.comparator_axioms)
  show ?thesis
    using key comparator_key [OF prim_comparator.comparator_axioms, of size]
      comparator_key [OF prim_comparator.comparator_axioms, of modified]
      comparator_key [OF prim_comparator.comparator_axioms, of created]
      comparator_key [OF prim_comparator.comparator_axioms, of is_dir]
    by (cases f) (simp_all add: view_natural_cmp_text field_cmp.simps [abs_def])
qed

lemma comparator_path_id: "comparator (\<lambda>a b. then_with (view_cmp (path a) (path b)) (prim_cmp (id a) (id b)))"
  unfolding view_cmp_text
  by (rule comparator_then [OF comparator_key [OF slice_comparator.comparator_axioms]
        comparator_key [OF prim_comparator.comparator_axioms]])

lemma order_compare_Cons:
  "order_compare ((f, ascending) # ro) =
     (\<lambda>a b. then_with (if ascending then field_cmp f a b else reverse_ord (field_cmp f a b)) (order_compare ro a b))"
proof (intro ext)
  fix a b
  show "order_compare ((f, ascending) # ro) a b =
     then_with (if ascending then field_cmp f a b else reverse_ord (field_cmp f a b)) (order_compare ro a b)"
    by (cases "field_cmp f a b") (auto simp: Let_def)
qed

lemma comparator_order: "comparator (order_compare ro)"
proof (induction ro)
  case Nil
  then show ?case using comparator_path_id by (simp add: order_compare.simps [abs_def])
next
  case (Cons p ro)
  obtain f ascending where p: "p = (f, ascending)" by (cases p)
  show ?case unfolding p order_compare_Cons
    using comparator_then [OF _ Cons.IH] comparator_field comparator_reverse [OF comparator_field]
    by (cases ascending) simp_all
qed

lemma order_compare_Equal:
  "order_compare ro a b = Equal \<Longrightarrow> view_text (path a) = view_text (path b) \<and> id a = id b"
  by (induction ro a b rule: order_compare.induct)
    (auto simp: Let_def view_cmp_text split: if_splits)

text \<open>
  A change that the ordering calls irrelevant compares like the previous row against every row, as
  long as the folded texts are a function of the texts.
\<close>

lemma field_unchanged:
  assumes "\<not> field_differs f p c" "view_text (path p) = view_text (path c)"
    "folded_name p = fold_name (name p)" "folded_name c = fold_name (name c)"
    "view_text (folded_path p) = fold_path (view_text (path p))"
    "view_text (folded_path c) = fold_path (view_text (path c))"
  shows "field_cmp f c x = field_cmp f p x"
  using assms by (cases f) (simp_all add: view_natural_cmp_text)

lemma order_unchanged:
  assumes "\<not> affected_by_change ro p c"
    "folded_name p = fold_name (name p)" "folded_name c = fold_name (name c)"
    "view_text (folded_path p) = fold_path (view_text (path p))"
    "view_text (folded_path c) = fold_path (view_text (path c))"
  shows "order_compare ro c x = order_compare ro p x"
proof -
  have same: "view_text (path p) = view_text (path c)" "id p = id c"
    using assms(1) by (simp_all add: affected_by_change_def view_eq_text)
  have "\<forall>(f, _) \<in> set ro. \<not> field_differs f p c"
    using assms(1) by (auto simp: affected_by_change_def list_ex_iff)
  then show ?thesis
  proof (induction ro)
    case Nil
    then show ?case using same by (simp add: view_cmp_text)
  next
    case (Cons q ro)
    then show ?case using field_unchanged [OF _ same(1) assms(2-5)] by (cases q) (simp add: Let_def)
  qed
qed

text \<open>Slots compare through the rows they address, so every order of slots meets the contract.\<close>

definition slot_compare :: "(nat \<Rightarrow> file_entry) \<Rightarrow> result_order \<Rightarrow> nat \<Rightarrow> nat \<Rightarrow> ordering" where
  "slot_compare row ro a b = order_compare ro (row a) (row b)"

interpretation row_order: comparator "order_compare ro"
  by (rule comparator_order)

interpretation slot_rows: slot_comparator "slot_compare row ro"
  unfolding slot_comparator_def slot_compare_def [abs_def]
  by (rule comparator_key [OF comparator_order])

section \<open>Properties\<close>

text \<open>
  C21: the run-and-merge sort ends for every history of the cancellation flag. It returns the input
  sorted, or stops with the cancellation error, the latter only when some load saw the flag set.
\<close>

theorem sort_slots_sorts:
  assumes "comparator cmp"
  shows "case sort_slots cmp cancelled k xs of
      Inl e \<Rightarrow> e = query_cancelled \<and> (\<exists>j. cancelled j)
    | Inr (ys, k') \<Rightarrow> mset ys = mset xs \<and> sorted_by cmp ys"
  using comparator.sort_slots_ok [OF assms, of cancelled k xs] cancel_only_sort [of cancelled cmp k xs]
  by (auto simp: cancel_only_def split: sum.splits)

theorem sort_slots_sorts_witness:
  "case sort_slots prim_cmp (\<lambda>_. False) 0 [3, 1, 2 :: nat] of
      Inl e \<Rightarrow> e = query_cancelled \<and> (\<exists>j::nat. False)
    | Inr (ys, k') \<Rightarrow> mset ys = mset [3, 1, 2] \<and> sorted_by prim_cmp ys"
  by (rule sort_slots_sorts [OF prim_comparator.comparator_axioms])

text \<open>
  C3: selecting the first page never panics and ends. Without cancellation it returns exactly the
  number of rows asked for, sorted, and none of the rows left out precedes one of them: the page is
  the prefix a full sort would give. Otherwise it stops with the cancellation error.
\<close>

theorem select_prefix_is_page:
  assumes "comparator cmp"
  shows "case select_prefix cmp cancelled k page_end xs of
     None \<Rightarrow> False
   | Some (Inl e) \<Rightarrow> e = query_cancelled \<and> (\<exists>j. cancelled j)
   | Some (Inr (ys, k')) \<Rightarrow>
       length ys = min page_end (length xs) \<and> sorted_by cmp ys \<and>
       (\<exists>rest. mset xs = mset (ys @ rest) \<and> (\<forall>x \<in> set ys. \<forall>y \<in> set rest. cmp x y \<noteq> Greater))"
  using comparator.select_prefix_ok [OF assms] .

theorem select_prefix_is_page_witness:
  "case select_prefix prim_cmp (\<lambda>_. False) 0 2 [9, 1, 5 :: nat] of
     None \<Rightarrow> False
   | Some (Inl e) \<Rightarrow> e = query_cancelled \<and> (\<exists>j::nat. False)
   | Some (Inr (ys, k')) \<Rightarrow>
       length ys = min 2 (length [9, 1, 5 :: nat]) \<and> sorted_by prim_cmp ys \<and>
       (\<exists>rest. mset [9, 1, 5] = mset (ys @ rest) \<and> (\<forall>x \<in> set ys. \<forall>y \<in> set rest. prim_cmp x y \<noteq> Greater))"
  by (rule select_prefix_is_page [OF prim_comparator.comparator_axioms])

end
