(* ===== verification/Outcome.thy ===== *)
theory Outcome
  imports Result_Order
begin

text \<open>
  Operations that the caller can cancel: a panic is \<open>None\<close>, the error of the operation \<open>Some (Inl _)\<close>, its value
  \<open>Some (Inr _)\<close>. The flag \<open>cancelled\<close> is read at numbered moments.
\<close>

section \<open>Cancellable loops\<close>

type_synonym 'a outcome = "'a result option"

definition bind_outcome :: "'a outcome \<Rightarrow> ('a \<Rightarrow> 'b outcome) \<Rightarrow> 'b outcome" where
  "bind_outcome x f = (case x of None \<Rightarrow> None | Some (Inl e) \<Rightarrow> Some (Inl e) | Some (Inr a) \<Rightarrow> f a)"

lemma bind_outcome_simps [simp]:
  "bind_outcome None f = None"
  "bind_outcome (Some (Inl e)) f = Some (Inl e)"
  "bind_outcome (Some (Inr a)) f = f a"
  by (simp_all add: bind_outcome_def)

fun each :: "(nat \<Rightarrow> bool) \<Rightarrow> ('x \<Rightarrow> 's \<Rightarrow> 's outcome) \<Rightarrow> 'x list \<Rightarrow> nat \<times> 's \<Rightarrow> (nat \<times> 's) outcome" where
  "each cancelled f [] (k, s) = Some (Inr (k, s))"
| "each cancelled f (x # xs) (k, s) =
    (if cancelled k then Some (Inl query_cancelled)
     else bind_outcome (f x s) (\<lambda>s'. each cancelled f xs (k + 1, s')))"

definition nth_opt :: "'a list \<Rightarrow> nat \<Rightarrow> 'a option" where
  "nth_opt xs i = (if i < length xs then Some (xs ! i) else None)"

definition fine :: "'a option \<Rightarrow> 'a outcome" where
  "fine x = map_option Inr x"

section \<open>Reasoning about outcomes\<close>

text \<open>No panic, an error within \<open>E\<close> or a value within \<open>Q\<close>.\<close>

definition yields :: "'a outcome \<Rightarrow> (string \<Rightarrow> bool) \<Rightarrow> ('a \<Rightarrow> bool) \<Rightarrow> bool" where
  "yields x E Q = (case x of None \<Rightarrow> False | Some (Inl e) \<Rightarrow> E e | Some (Inr a) \<Rightarrow> Q a)"

lemma yields_simps [simp]:
  "\<not> yields None E Q"
  "yields (Some (Inl e)) E Q = E e"
  "yields (Some (Inr a)) E Q = Q a"
  "yields (fine (Some a)) E Q = Q a"
  by (simp_all add: yields_def fine_def)

lemma yields_bind:
  "yields x E P \<Longrightarrow> (\<And>a. P a \<Longrightarrow> yields (f a) E Q) \<Longrightarrow> yields (bind_outcome x f) E Q"
  by (simp add: yields_def[of x] bind_outcome_def split: option.splits sum.splits)

lemma yields_mono: "yields x E P \<Longrightarrow> (\<And>a. P a \<Longrightarrow> Q a) \<Longrightarrow> yields x E Q"
  by (auto simp: yields_def split: option.splits sum.splits)

lemma yields_each:
  assumes init: "I [] s"
    and step: "\<And>ys x zs s. xs = ys @ x # zs \<Longrightarrow> I ys s \<Longrightarrow> yields (f x s) E (I (ys @ [x]))"
    and stop: "\<And>j. cancelled j \<Longrightarrow> E query_cancelled"
  shows "yields (each cancelled f xs (k, s)) E (\<lambda>(k', s'). k' = k + length xs \<and> I xs s')"
proof -
  have "yields (each cancelled f zs (k, s)) E (\<lambda>(k', s'). k' = k + length zs \<and> I xs s')"
    if "xs = ys @ zs" "I ys s" for ys zs k s
    using that
  proof (induction zs arbitrary: ys k s)
    case (Cons x zs)
    show ?case
    proof (cases "cancelled k")
      case False
      have st: "yields (f x s) E (I (ys @ [x]))" using step Cons.prems by blast
      have rest: "yields (each cancelled f zs (k + 1, s')) E (\<lambda>(k', s'). k' = k + length (x # zs) \<and> I xs s')"
        if "I (ys @ [x]) s'" for s'
        using Cons.IH[of "ys @ [x]" s' "k + 1"] Cons.prems(1) that by (auto elim: yields_mono)
      show ?thesis unfolding each.simps if_not_P[OF False] by (rule yields_bind[OF st rest])
    qed (use stop in simp)
  qed simp
  from this[of "[]" xs s k] init show ?thesis by simp
qed

end
