(* ===== verification/Std_Path.thy ===== *)
theory Std_Path
  imports File_Entry
begin

text \<open>
  \<open>std::path::Path\<close> on Unix, as the code uses it: \<open>parent\<close> and \<open>ancestors\<close> of a path given as text. A path is
  read from its end, component by component; empty components and inner dots are skipped, the root and a
  leading dot are components of their own.
\<close>

definition sep :: nat where "sep = 47"
definition dot :: nat where "dot = 46"

definition has_root :: "str \<Rightarrow> bool" where
  "has_root p \<longleftrightarrow> starts_with p [sep]"

definition include_cur_dir :: "str \<Rightarrow> bool" where
  "include_cur_dir p \<longleftrightarrow> \<not> has_root p \<and> (p = [dot] \<or> starts_with p [dot, sep])"

definition before_body :: "str \<Rightarrow> nat" where
  "before_body p = (if has_root p \<or> include_cur_dir p then 1 else 0)"

text \<open>\<open>parse_next_component_back\<close>: the length to cut off, and the component unless it is skipped.\<close>

definition next_component_back :: "str \<Rightarrow> nat \<times> str option" where
  "next_component_back p =
    (let body = drop (before_body p) p;
         comp = rev (takeWhile (\<lambda>c. c \<noteq> sep) (rev body))
     in (length comp + (if sep \<in> set body then 1 else 0), if comp = [] \<or> comp = [dot] then None else Some comp))"

lemma next_component_back_pos: "before_body p < length p \<Longrightarrow> 0 < fst (next_component_back p)"
proof -
  assume p: "before_body p < length p"
  let ?body = "drop (before_body p) p"
  have "takeWhile (\<lambda>c. c \<noteq> sep) (rev ?body) = [] \<Longrightarrow> sep \<in> set ?body"
    using p by (cases "rev ?body") (auto simp: rev_eq_Cons_iff split: if_splits)
  then show ?thesis by (auto simp: next_component_back_def Let_def)
qed

lemma next_component_back_cut:
  "before_body p < length p \<Longrightarrow> (n, c) = next_component_back p \<Longrightarrow> length (take (length p - n) p) < length p"
  using next_component_back_pos[of p] by (cases "next_component_back p") (auto simp: min_def)

lemma next_component_back_le:
  assumes "before_body p < length p"
  shows "fst (next_component_back p) \<le> length p"
proof -
  let ?body = "drop (before_body p) p"
  let ?comp = "takeWhile (\<lambda>c. c \<noteq> sep) (rev ?body)"
  have "length ?comp + (if sep \<in> set ?body then 1 else 0) \<le> length ?body"
  proof (cases "sep \<in> set ?body")
    case True
    then have "?comp \<noteq> rev ?body" by (metis set_rev set_takeWhileD)
    then have "length ?comp < length (rev ?body)"
      by (metis length_takeWhile_le le_neq_implies_less takeWhile_eq_take take_all_iff order_refl)
    then show ?thesis using True by simp
  next
    case False
    then show ?thesis using length_takeWhile_le[of _ "rev ?body"] by simp
  qed
  then show ?thesis by (simp add: next_component_back_def Let_def)
qed

text \<open>\<open>Components::as_path\<close> drops skipped components at the end.\<close>

function trim_right :: "str \<Rightarrow> str" where
  "trim_right p = (if before_body p < length p
     then (case next_component_back p of
             (n, None) \<Rightarrow> trim_right (take (length p - n) p)
           | (n, Some _) \<Rightarrow> p)
     else p)"
  by pat_completeness auto
termination
  by (relation "measure length") (simp, simp only: in_measure, erule (1) next_component_back_cut)

declare trim_right.simps [simp del]

function path_parent :: "str \<Rightarrow> str option" where
  "path_parent p = (if before_body p < length p
     then (case next_component_back p of
             (n, None) \<Rightarrow> path_parent (take (length p - n) p)
           | (n, Some _) \<Rightarrow> Some (trim_right (take (length p - n) p)))
     else if include_cur_dir p then Some [] else None)"
  by pat_completeness auto
termination
  by (relation "measure length") (simp, simp only: in_measure, erule (1) next_component_back_cut)

declare path_parent.simps [simp del]

lemma trim_right_le: "length (trim_right p) \<le> length p"
proof (induction p rule: trim_right.induct)
  case (1 p)
  then show ?case by (subst trim_right.simps) (fastforce split: prod.splits option.splits)
qed

lemma path_parent_shorter: "path_parent p = Some q \<Longrightarrow> length q < length p"
proof (induction p rule: path_parent.induct)
  case (1 p)
  show ?case
  proof (cases "before_body p < length p")
    case True
    obtain n c where n: "next_component_back p = (n, c)" by fastforce
    then have pos: "0 < n" "n \<le> length p" using next_component_back_pos[OF True] next_component_back_le[OF True] by simp_all
    show ?thesis
    proof (cases c)
      case None
      then have "path_parent (take (length p - n) p) = Some q"
        using 1(2) True n by (subst (asm) path_parent.simps) simp
      then have "length q < length (take (length p - n) p)" using 1(1)[OF True n[symmetric] None] by blast
      then show ?thesis by simp
    next
      case (Some d)
      then have "q = trim_right (take (length p - n) p)"
        using 1(2) True n by (subst (asm) path_parent.simps) simp
      then show ?thesis using trim_right_le[of "take (length p - n) p"] pos True by simp
    qed
  next
    case False
    then show ?thesis using 1(2) by (subst (asm) path_parent.simps) (auto simp: include_cur_dir_def starts_with_def split: if_splits)
  qed
qed

text \<open>The proper ancestors, nearest first; \<open>Path::ancestors\<close> has the path itself before them.\<close>

function above :: "str \<Rightarrow> str list" where
  "above p = (case path_parent p of None \<Rightarrow> [] | Some q \<Rightarrow> q # above q)"
  by pat_completeness auto
termination
  by (relation "measure length") (auto dest: path_parent_shorter)

declare above.simps [simp del]

definition ancestors :: "str \<Rightarrow> str list" where
  "ancestors p = p # above p"

lemma above_None: "path_parent p = None \<Longrightarrow> above p = []"
  and above_Some: "path_parent p = Some q \<Longrightarrow> above p = q # above q"
  by (subst above.simps, simp)+

lemma above_shorter: "q \<in> set (above p) \<Longrightarrow> length q < length p"
proof (induction p rule: above.induct)
  case (1 p)
  then show ?case
  proof (cases "path_parent p")
    case (Some r)
    then have "q = r \<or> q \<in> set (above r)" using 1(2) by (simp add: above_Some)
    then show ?thesis using 1(1)[OF Some] path_parent_shorter[OF Some] by auto
  qed (simp add: above_None)
qed

text \<open>The proper ancestors of a path form a chain: those of one of them are the ones behind it.\<close>

lemma above_chain:
  assumes "q \<in> set (above p)"
  shows "\<exists>near. above p = near @ q # above q \<and> q \<notin> set near"
  using assms
proof (induction p rule: above.induct)
  case (1 p)
  then obtain r where r: "path_parent p = Some r" "above p = r # above r" by (cases "path_parent p") (auto simp: above_None above_Some)
  show ?case
  proof (cases "q = r")
    case True
    then show ?thesis using r by (intro exI[of _ "[]"]) simp
  next
    case False
    then obtain near where "above r = near @ q # above q \<and> q \<notin> set near" using 1(1)[OF r(1)] 1(2) r(2) by auto
    then show ?thesis using r False by (intro exI[of _ "r # near"]) simp
  qed
qed

lemma above_trans: "q \<in> set (above p) \<Longrightarrow> r \<in> set (above q) \<Longrightarrow> r \<in> set (above p)"
  using above_chain[of q p] by auto

lemma above_first: "path_parent p = Some q \<Longrightarrow> q \<in> set (above p)"
  by (simp add: above_Some)

lemma above_linear:
  assumes "q \<in> set (above p)" "r \<in> set (above p)"
  shows "q = r \<or> q \<in> set (above r) \<or> r \<in> set (above q)"
  using assms
proof (induction p rule: above.induct)
  case (1 p)
  then obtain m where m: "path_parent p = Some m" by (cases "path_parent p") (auto simp: above_None)
  then have "q = m \<or> q \<in> set (above m)" "r = m \<or> r \<in> set (above m)" using 1(2,3) by (simp_all add: above_Some)
  then show ?case using 1(1)[OF m] by blast
qed

text \<open>A parent is a prefix, so it is shorter in bytes too.\<close>

lemma trim_right_prefix: "\<exists>n. trim_right p = take n p"
proof (induction p rule: trim_right.induct)
  case (1 p)
  show ?case
  proof (cases "before_body p < length p \<and> snd (next_component_back p) = None")
    case True
    then obtain n where n: "next_component_back p = (n, None)" by (cases "next_component_back p") auto
    then obtain m where "trim_right (take (length p - n) p) = take m (take (length p - n) p)"
      using 1[OF _ n[symmetric] refl] True by auto
    then show ?thesis using True n by (subst trim_right.simps) auto
  next
    case False
    then have "trim_right p = p" by (subst trim_right.simps) (auto split: prod.splits option.splits)
    then show ?thesis by (metis take_all order_refl)
  qed
qed

lemma path_parent_prefix: "path_parent p = Some q \<Longrightarrow> \<exists>n. q = take n p"
proof (induction p rule: path_parent.induct)
  case (1 p)
  show ?case
  proof (cases "before_body p < length p")
    case True
    obtain n c where n: "next_component_back p = (n, c)" by fastforce
    show ?thesis
    proof (cases c)
      case None
      then have "path_parent (take (length p - n) p) = Some q"
        using 1(2) True n by (subst (asm) path_parent.simps) simp
      then obtain m where "q = take m (take (length p - n) p)" using 1(1)[OF True n[symmetric] None] by blast
      then show ?thesis by (metis take_take)
    next
      case (Some d)
      then have "q = trim_right (take (length p - n) p)"
        using 1(2) True n by (subst (asm) path_parent.simps) simp
      then show ?thesis using trim_right_prefix[of "take (length p - n) p"] by (metis take_take)
    qed
  next
    case False
    then have "q = []" using 1(2) by (subst (asm) path_parent.simps) (auto split: if_splits)
    then show ?thesis by (intro exI[of _ 0]) simp
  qed
qed

lemma above_prefix: "q \<in> set (above p) \<Longrightarrow> \<exists>r. p = q @ r \<and> r \<noteq> []"
proof (induction p rule: above.induct)
  case (1 p)
  then obtain m where m: "path_parent p = Some m" by (cases "path_parent p") (auto simp: above_None)
  obtain n where "m = take n p" using path_parent_prefix[OF m] by blast
  then have mp: "p = m @ drop n p" "drop n p \<noteq> []" using path_parent_shorter[OF m] by auto
  have "q = m \<or> q \<in> set (above m)" using 1(2) m by (simp add: above_Some)
  then show ?case
  proof
    assume "q \<in> set (above m)"
    then obtain r where "m = q @ r" using 1(1)[OF m] by blast
    then show ?thesis using mp by (intro exI[of _ "r @ drop n p"]) simp
  qed (use mp in blast)
qed

lemma above_str_len: "q \<in> set (above p) \<Longrightarrow> str_len q < str_len p"
proof -
  assume "q \<in> set (above p)"
  then obtain c r where "p = q @ c # r" using above_prefix[of q p] by (metis neq_Nil_conv)
  then show ?thesis using utf8_char_nonempty[of c] by (simp add: str_len_def as_bytes_append as_bytes_Cons)
qed

end
