(* ===== verification/Hierarchy.thy ===== *)
theory Hierarchy
  imports Query_Truth Outcome Std_Path "HOL-Library.Monad_Syntax"
begin

text \<open>
  The directory topology of a snapshot and the relationship predicates, \<open>core/src/relations.rs\<close>: building the
  tree of the indexed directories with its counts and sizes, and resolving the predicates \<open>child:\<close>,
  \<open>descendant:\<close> and the folder metrics to sets of rows. A panic is \<open>None\<close>; the cancellation flag is polled as
  \<open>cancelled k\<close> for the \<open>k\<close>-th load. The text of the content index is a function of the row. Comparing paths
  component by component (\<open>is_direct\<close>) is comparing texts here, since both come from one chain of parents.
\<close>

section \<open>The tree\<close>

record snapshot =
  sn_entries :: "file_entry list"
  sn_live :: "nat list"

definition no_parent :: nat where "no_parent = u32_max"

record hierarchy =
  h_parents :: "nat list"
  h_directory_slots :: "nat list"
  h_postorder :: "nat list"
  h_own_files :: "nat list"
  h_own_folders :: "nat list"
  h_all_files :: "nat list"
  h_all_folders :: "nat list"
  h_sizes :: "nat option list"

definition path_text :: "file_entry \<Rightarrow> str" where
  "path_text f = view_text (path f)"

definition is_folder :: "file_entry \<Rightarrow> bool" where
  "is_folder f \<longleftrightarrow> is_dir f \<and> \<not> is_symlink f"

definition collect_directory :: "snapshot \<Rightarrow> nat \<Rightarrow> nat list \<Rightarrow> nat list outcome" where
  "collect_directory sn slot dirs = fine (map_option (\<lambda>f. if is_folder f then dirs @ [slot] else dirs) (nth_opt (sn_entries sn) slot))"

text \<open>The map from the paths of the directories to their indexes; a later duplicate would win.\<close>

definition directory_map :: "snapshot \<Rightarrow> nat list \<Rightarrow> str \<rightharpoonup> nat" where
  "directory_map sn dirs = map_of (rev (zip (map (\<lambda>slot. path_text (sn_entries sn ! slot)) dirs) [0..<length dirs]))"

definition directory_count :: "snapshot \<Rightarrow> nat list \<Rightarrow> nat" where
  "directory_count sn dirs = length (remdups (map (\<lambda>slot. path_text (sn_entries sn ! slot)) dirs))"

function nearest :: "(str \<rightharpoonup> nat) \<Rightarrow> str option \<Rightarrow> (nat \<times> str) option" where
  "nearest directories None = None"
| "nearest directories (Some p) =
    (case directories p of Some i \<Rightarrow> Some (i, p) | None \<Rightarrow> nearest directories (path_parent p))"
  by pat_completeness auto
termination
  by (relation "measure (\<lambda>(_, p). case p of None \<Rightarrow> 0 | Some q \<Rightarrow> Suc (length q))")
    (auto split: option.splits dest: path_parent_shorter)

definition add_at :: "nat list \<Rightarrow> nat \<Rightarrow> nat \<Rightarrow> nat list option" where
  "add_at xs i n = (if i < length xs then Some (xs[i := xs ! i + n]) else None)"

definition place :: "snapshot \<Rightarrow> (str \<rightharpoonup> nat) \<Rightarrow> nat \<Rightarrow> hierarchy \<Rightarrow> hierarchy outcome" where
  "place sn directories slot h = fine (do {
    f \<leftarrow> nth_opt (sn_entries sn) slot;
    (let direct = path_parent (path_text f) in
     case nearest directories direct of
       None \<Rightarrow> Some h
     | Some (i, p) \<Rightarrow> do {
         _ \<leftarrow> nth_opt (h_parents h) slot;
         let parents = (h_parents h)[slot := i mod 2 ^ 32];
         let is_direct = (if Some p = direct then 1 else 0);
         if is_folder f then do {
           all \<leftarrow> add_at (h_all_folders h) i 1;
           own \<leftarrow> add_at (h_own_folders h) i is_direct;
           Some (h\<lparr>h_parents := parents, h_all_folders := all, h_own_folders := own\<rparr>) }
         else do {
           all \<leftarrow> add_at (h_all_files h) i 1;
           own \<leftarrow> add_at (h_own_files h) i is_direct;
           n \<leftarrow> nth_opt (h_sizes h) i;
           Some (h\<lparr>h_parents := parents, h_all_files := all, h_own_files := own,
             h_sizes := (h_sizes h)[i := Option.bind n (\<lambda>n. checked_add_u64 n (size f))]\<rparr>) } }) })"

definition by_length_descending :: "snapshot \<Rightarrow> nat list \<Rightarrow> nat \<Rightarrow> nat \<Rightarrow> ordering" where
  "by_length_descending sn dirs a b =
    prim_cmp (view_len (path (sn_entries sn ! (dirs ! b)))) (view_len (path (sn_entries sn ! (dirs ! a))))"

definition parent_of :: "hierarchy \<Rightarrow> nat \<Rightarrow> nat option" where
  "parent_of h i = Option.bind (nth_opt (h_directory_slots h) i) (nth_opt (h_parents h))"

definition gather :: "nat \<Rightarrow> hierarchy \<Rightarrow> hierarchy outcome" where
  "gather i h = fine (do {
    p \<leftarrow> parent_of h i;
    if p = no_parent then Some h
    else do {
      files \<leftarrow> nth_opt (h_all_files h) i;
      all_files \<leftarrow> add_at (h_all_files h) p files;
      folders \<leftarrow> nth_opt (h_all_folders h) i;
      all_folders \<leftarrow> add_at (h_all_folders h) p folders;
      a \<leftarrow> nth_opt (h_sizes h) p;
      b \<leftarrow> nth_opt (h_sizes h) i;
      Some (h\<lparr>h_all_files := all_files, h_all_folders := all_folders,
        h_sizes := (h_sizes h)[p := Option.bind a (\<lambda>x. Option.bind b (\<lambda>y. checked_add_u64 x y))]\<rparr>) } })"

definition build :: "(nat \<Rightarrow> bool) \<Rightarrow> nat \<Rightarrow> snapshot \<Rightarrow> (nat \<times> hierarchy) outcome" where
  "build cancelled k sn =
    bind_outcome (each cancelled (collect_directory sn) (sn_live sn) (k, [])) (\<lambda>(k, dirs).
      let directories = directory_map sn dirs;
          n = directory_count sn dirs;
          h = \<lparr>h_parents = replicate (length (sn_entries sn)) no_parent, h_directory_slots = dirs, h_postorder = [],
            h_own_files = replicate n 0, h_own_folders = replicate n 0, h_all_files = replicate n 0,
            h_all_folders = replicate n 0, h_sizes = replicate n (Some 0)\<rparr>
      in bind_outcome (each cancelled (place sn directories) (sn_live sn) (k, h)) (\<lambda>(k, h).
           let h = h\<lparr>h_postorder := sort_by (by_length_descending sn dirs) [0..<n]\<rparr>
           in each cancelled gather (h_postorder h) (k, h)))"

section \<open>Coverage\<close>

text \<open>\<open>coverage\<close> as its parts: whether the index is complete, its roots, and the places it could not read.\<close>

definition json_texts :: "json \<Rightarrow> str list" where
  "json_texts v = (case as_array v of None \<Rightarrow> [] | Some vs \<Rightarrow> List.map_filter as_str vs)"

definition cov_complete :: "json \<Rightarrow> bool" where
  "cov_complete coverage = (case as_bool (json_index coverage (lit ''complete'')) of Some b \<Rightarrow> b | None \<Rightarrow> False)"

definition gap_ancestor :: "str \<Rightarrow> str set \<Rightarrow> str set outcome" where
  "gap_ancestor gap found = fine (Some (found \<union> set (ancestors gap)))"

definition uncertain_directory :: "snapshot \<Rightarrow> bool \<Rightarrow> str set \<Rightarrow> str set \<Rightarrow> str set \<Rightarrow> nat \<Rightarrow> bool list \<Rightarrow> bool list outcome" where
  "uncertain_directory sn whole roots gaps gap_ancestors slot uncertain = fine (do {
    f \<leftarrow> nth_opt (sn_entries sn) slot;
    let p = path_text f;
    let covered = (\<exists>q \<in> set (ancestors p). q \<in> roots);
    let denied = (p \<in> gap_ancestors \<or> (\<exists>q \<in> set (ancestors p). q \<in> gaps));
    Some (uncertain @ [\<not> whole \<or> \<not> covered \<or> denied]) })"

definition incomplete :: "(nat \<Rightarrow> bool) \<Rightarrow> nat \<Rightarrow> snapshot \<Rightarrow> hierarchy \<Rightarrow> json \<Rightarrow> (nat \<times> bool list) outcome" where
  "incomplete cancelled k sn h coverage =
    (let gaps = remdups (json_texts (json_index coverage (lit ''uncovered''))) in
     bind_outcome (each cancelled gap_ancestor gaps (k, {})) (\<lambda>(k, gap_ancestors).
       each cancelled (uncertain_directory sn (cov_complete coverage)
           (set (json_texts (json_index coverage (lit ''roots'')))) (set gaps) gap_ancestors)
         (h_directory_slots h) (k, [])))"

text \<open>The rows of \<open>info\<close>, one for each requested path.\<close>

datatype folder_info =
  NotIndexed str
| FolderInfo str bool "nat option" "nat option" nat nat

definition folder_row :: "snapshot \<Rightarrow> hierarchy \<Rightarrow> bool list \<Rightarrow> str set \<Rightarrow> nat \<times> nat \<Rightarrow> (str \<rightharpoonup> folder_info) \<Rightarrow> (str \<rightharpoonup> folder_info) outcome" where
  "folder_row sn h incompletes requested = (\<lambda>(i, slot) found. fine (do {
    f \<leftarrow> nth_opt (sn_entries sn) slot;
    if path_text f \<notin> requested then Some found
    else do {
      uncertain \<leftarrow> nth_opt incompletes i;
      size \<leftarrow> nth_opt (h_sizes h) i;
      own_files \<leftarrow> nth_opt (h_own_files h) i;
      own_folders \<leftarrow> nth_opt (h_own_folders h) i;
      all_files \<leftarrow> nth_opt (h_all_files h) i;
      all_folders \<leftarrow> nth_opt (h_all_folders h) i;
      let complete = (\<not> uncertain \<and> size \<noteq> None);
      Some (found(path_text f \<mapsto> FolderInfo (path_text f) complete (if complete then size else None) size
        (own_files + own_folders) (all_files + all_folders))) } }))"

definition info :: "(nat \<Rightarrow> bool) \<Rightarrow> nat \<Rightarrow> snapshot \<Rightarrow> hierarchy \<Rightarrow> json \<Rightarrow> str list \<Rightarrow> folder_info list outcome" where
  "info cancelled k sn h coverage paths =
    bind_outcome (incomplete cancelled k sn h coverage) (\<lambda>(k, incompletes).
    bind_outcome (each cancelled (folder_row sn h incompletes (set paths))
        (zip [0..<length (h_directory_slots h)] (h_directory_slots h)) (k, Map.empty)) (\<lambda>(k, found).
      Some (Inr (map (\<lambda>p. case found p of Some row \<Rightarrow> row | None \<Rightarrow> NotIndexed p) paths))))"

section \<open>Resolving\<close>

definition mark :: "snapshot \<Rightarrow> hierarchy \<Rightarrow> crates \<Rightarrow> (file_entry \<Rightarrow> str option result) \<Rightarrow> bool \<Rightarrow> query \<Rightarrow> bool \<Rightarrow>
    nat \<Rightarrow> bool list \<times> bool list \<Rightarrow> (bool list \<times> bool list) outcome" where
  "mark sn h cr content recursive inner needs_content slot = (\<lambda>(positive, unknown). do {
    p \<leftarrow> nth_opt (h_parents h) slot;
    if p = no_parent then Some (Inr (positive, unknown))
    else do {
      f \<leftarrow> nth_opt (sn_entries sn) slot;
      dir \<leftarrow> (if recursive then Some [] else do {
        dslot \<leftarrow> nth_opt (h_directory_slots h) p;
        map_option path_text (nth_opt (sn_entries sn) dslot) });
      if \<not> recursive \<and> parent f \<noteq> dir then Some (Inr (positive, unknown))
      else bind_outcome (Some (if needs_content then content f else Inr None)) (\<lambda>body.
        bind_outcome (Some (indexed_truth cr f body inner)) (\<lambda>truth.
          case truth of
            Some True \<Rightarrow> (if p < length positive then Some (Inr (positive[p := True], unknown)) else None)
          | None \<Rightarrow> (if p < length unknown then Some (Inr (positive, unknown[p := True])) else None)
          | Some False \<Rightarrow> Some (Inr (positive, unknown)))) } })"

definition lift_marks :: "hierarchy \<Rightarrow> nat \<Rightarrow> bool list \<times> bool list \<Rightarrow> (bool list \<times> bool list) outcome" where
  "lift_marks h i = (\<lambda>(positive, unknown). fine (do {
    p \<leftarrow> parent_of h i;
    if p = no_parent then Some (positive, unknown)
    else if p < length positive \<and> i < length positive \<and> p < length unknown \<and> i < length unknown
    then Some (positive[p := positive ! p \<or> positive ! i], unknown[p := unknown ! p \<or> unknown ! i])
    else None }))"

definition row_id :: "file_entry \<Rightarrow> nat" where
  "row_id f = nat (id f mod 2 ^ 64)"

text \<open>The predicate of the marked directories, by \<open>Some True\<close>, \<open>None\<close> and \<open>Some False\<close>; \<open>None\<close> at the end is a panic.\<close>

fun predicate_of :: "snapshot \<Rightarrow> (nat \<times> bool option) list \<Rightarrow> resolved_predicate option" where
  "predicate_of sn [] = Some \<lparr>rp_yes = {}, rp_unknown = {}\<rparr>"
| "predicate_of sn ((slot, v) # rest) = do {
    f \<leftarrow> nth_opt (sn_entries sn) slot;
    r \<leftarrow> predicate_of sn rest;
    Some (case v of Some True \<Rightarrow> r\<lparr>rp_yes := insert (row_id f) (rp_yes r)\<rparr>
      | None \<Rightarrow> r\<lparr>rp_unknown := insert (row_id f) (rp_unknown r)\<rparr>
      | Some False \<Rightarrow> r) }"

definition resolve_related ::
    "(nat \<Rightarrow> bool) \<Rightarrow> snapshot \<Rightarrow> hierarchy \<Rightarrow> json \<Rightarrow> crates \<Rightarrow> (file_entry \<Rightarrow> str option result) \<Rightarrow>
     bool \<Rightarrow> nat \<Rightarrow> query \<Rightarrow> (nat \<times> resolved_predicate) outcome" where
  "resolve_related cancelled sn h coverage cr content recursive k inner =
    bind_outcome (incomplete cancelled k sn h coverage) (\<lambda>(k, incompletes).
    bind_outcome (each cancelled (mark sn h cr content recursive inner (requires_content inner)) (sn_live sn)
        (k, (replicate (length (h_directory_slots h)) False, incompletes))) (\<lambda>(k, marks).
    bind_outcome (if recursive then each cancelled (lift_marks h) (h_postorder h) (k, marks) else Some (Inr (k, marks)))
      (\<lambda>(k, (positive, unknown)).
        if length positive = length (h_directory_slots h) \<and> length unknown = length (h_directory_slots h)
        then fine (map_option (Pair k) (predicate_of sn (zip (h_directory_slots h)
          (map2 (\<lambda>p u. if p then Some True else if u then None else Some False) positive unknown))))
        else None)))"

definition plus_at :: "nat list \<Rightarrow> nat list \<Rightarrow> nat \<Rightarrow> nat option" where
  "plus_at xs ys i = do { x \<leftarrow> nth_opt xs i; y \<leftarrow> nth_opt ys i; Some (x + y) }"

definition metric_value :: "hierarchy \<Rightarrow> str \<Rightarrow> nat \<Rightarrow> nat option option" where
  "metric_value h fld i =
    (if fld = lit ''foldersize'' then nth_opt (h_sizes h) i
     else if fld = lit ''childcount'' then map_option Some (plus_at (h_own_files h) (h_own_folders h) i)
     else if fld = lit ''childfilecount'' then map_option Some (nth_opt (h_own_files h) i)
     else if fld = lit ''childfoldercount'' then map_option Some (nth_opt (h_own_folders h) i)
     else if fld = lit ''descendantcount'' then map_option Some (plus_at (h_all_files h) (h_all_folders h) i)
     else if fld = lit ''descendantfilecount'' then map_option Some (nth_opt (h_all_files h) i)
     else if fld = lit ''descendantfoldercount'' then map_option Some (nth_opt (h_all_folders h) i)
     else None)"

definition metric_step ::
    "hierarchy \<Rightarrow> bool list \<Rightarrow> query_term \<Rightarrow> str \<Rightarrow> bool \<Rightarrow> nat \<Rightarrow> bool option list \<Rightarrow> bool option list outcome" where
  "metric_step h incompletes t fld is_unknown i vs = fine (do {
    v \<leftarrow> metric_value h fld i;
    uncertain \<leftarrow> nth_opt incompletes i;
    let value = (if uncertain then None else map_option (\<lambda>n. f64_of_int (int n)) v);
    Some (vs @ [if is_unknown \<or> value \<noteq> None then Some (matches_numeric_value t value) else None]) })"

definition resolve_metric ::
    "(nat \<Rightarrow> bool) \<Rightarrow> snapshot \<Rightarrow> hierarchy \<Rightarrow> json \<Rightarrow> query_term \<Rightarrow> str \<Rightarrow> bool \<Rightarrow> nat \<Rightarrow> (nat \<times> resolved_predicate) outcome" where
  "resolve_metric cancelled sn h coverage t fld is_unknown k =
    bind_outcome (incomplete cancelled k sn h coverage) (\<lambda>(k, incompletes).
    bind_outcome (each cancelled (metric_step h incompletes t fld is_unknown) [0..<length (h_directory_slots h)] (k, []))
      (\<lambda>(k, vs). fine (map_option (Pair k) (predicate_of sn (zip (h_directory_slots h) vs)))))"

definition resolved :: "bool \<Rightarrow> (nat \<times> resolved_predicate) outcome \<Rightarrow> (nat \<times> bool \<times> query) outcome" where
  "resolved partial x = bind_outcome x (\<lambda>(k, r). Some (Inr (k, partial \<or> rp_unknown r \<noteq> {}, QTerm (Resolved r))))"

text \<open>
  \<open>resolve\<close>, with the rewritten query beside the flag. \<open>resolve_all\<close> is the loop over the children of a
  conjunction or disjunction.
\<close>

fun resolve ::
    "(nat \<Rightarrow> bool) \<Rightarrow> snapshot \<Rightarrow> hierarchy \<Rightarrow> json \<Rightarrow> crates \<Rightarrow> (file_entry \<Rightarrow> str option result) \<Rightarrow>
     nat \<Rightarrow> query \<Rightarrow> (nat \<times> bool \<times> query) outcome"
  and resolve_all ::
    "(nat \<Rightarrow> bool) \<Rightarrow> snapshot \<Rightarrow> hierarchy \<Rightarrow> json \<Rightarrow> crates \<Rightarrow> (file_entry \<Rightarrow> str option result) \<Rightarrow>
     nat \<Rightarrow> query list \<Rightarrow> (nat \<times> bool \<times> query list) outcome" where
  "resolve cancelled sn h coverage cr content k (QAnd qs) =
    (if cancelled k then Some (Inl query_cancelled)
     else bind_outcome (resolve_all cancelled sn h coverage cr content (k + 1) qs) (\<lambda>(k, p, qs). Some (Inr (k, p, QAnd qs))))"
| "resolve cancelled sn h coverage cr content k (QOr qs) =
    (if cancelled k then Some (Inl query_cancelled)
     else bind_outcome (resolve_all cancelled sn h coverage cr content (k + 1) qs) (\<lambda>(k, p, qs). Some (Inr (k, p, QOr qs))))"
| "resolve cancelled sn h coverage cr content k (QNot q) =
    (if cancelled k then Some (Inl query_cancelled)
     else bind_outcome (resolve cancelled sn h coverage cr content (k + 1) q) (\<lambda>(k, p, q). Some (Inr (k, p, QNot q))))"
| "resolve cancelled sn h coverage cr content k QAll =
    (if cancelled k then Some (Inl query_cancelled) else Some (Inr (k + 1, False, QAll)))"
| "resolve cancelled sn h coverage cr content k (QTerm t) =
    (if cancelled k then Some (Inl query_cancelled)
     else (case t of
       Related recursive inner \<Rightarrow>
         bind_outcome (resolve cancelled sn h coverage cr content (k + 1) inner) (\<lambda>(k, p, inner).
           resolved p (resolve_related cancelled sn h coverage cr content recursive k inner))
     | Number fld _ _ _ _ _ \<Rightarrow>
         (if is_metric fld then resolved False (resolve_metric cancelled sn h coverage t fld False (k + 1))
          else Some (Inr (k + 1, False, QTerm t)))
     | Unknown fld _ \<Rightarrow>
         (if is_metric fld then resolved False (resolve_metric cancelled sn h coverage t fld True (k + 1))
          else Some (Inr (k + 1, False, QTerm t)))
     | _ \<Rightarrow> Some (Inr (k + 1, False, QTerm t))))"
| "resolve_all cancelled sn h coverage cr content k [] = Some (Inr (k, False, []))"
| "resolve_all cancelled sn h coverage cr content k (q # qs) =
    bind_outcome (resolve cancelled sn h coverage cr content k q) (\<lambda>(k, p, q).
    bind_outcome (resolve_all cancelled sn h coverage cr content k qs) (\<lambda>(k, p', qs). Some (Inr (k, p \<or> p', q # qs))))"

section \<open>Directories and their members\<close>

definition row :: "snapshot \<Rightarrow> nat \<Rightarrow> file_entry" where
  "row sn slot = sn_entries sn ! slot"

definition row_path :: "snapshot \<Rightarrow> nat \<Rightarrow> str" where
  "row_path sn slot = path_text (row sn slot)"

definition directories :: "snapshot \<Rightarrow> nat list" where
  "directories sn = filter (\<lambda>slot. is_folder (row sn slot)) (sn_live sn)"

definition directory_path :: "snapshot \<Rightarrow> nat \<Rightarrow> str" where
  "directory_path sn i = row_path sn (directories sn ! i)"

text \<open>
  What holds of a snapshot: live slots are rows and occur once, paths and ids identify live rows, the parent
  column is the parent of the path (\<open>SearchEntry\<close>), and directories are fewer than \<open>u32::MAX\<close>.
\<close>

definition snapshot_ok :: "snapshot \<Rightarrow> bool" where
  "snapshot_ok sn \<longleftrightarrow> distinct (sn_live sn) \<and> (\<forall>slot \<in> set (sn_live sn). slot < length (sn_entries sn)) \<and>
    inj_on (row_path sn) (set (sn_live sn)) \<and> inj_on (\<lambda>slot. row_id (row sn slot)) (set (sn_live sn)) \<and>
    (\<forall>slot \<in> set (sn_live sn). parent (row sn slot) = (case path_parent (row_path sn slot) of Some q \<Rightarrow> q | None \<Rightarrow> []) \<and>
      row_path sn slot \<noteq> []) \<and>
    length (directories sn) < u32_max"

lemma snapshot_okD:
  assumes "snapshot_ok sn"
  shows "distinct (sn_live sn)" "slot \<in> set (sn_live sn) \<Longrightarrow> slot < length (sn_entries sn)"
    "inj_on (row_path sn) (set (sn_live sn))" "inj_on (\<lambda>slot. row_id (row sn slot)) (set (sn_live sn))"
    "slot \<in> set (sn_live sn) \<Longrightarrow> parent (row sn slot) = (case path_parent (row_path sn slot) of Some q \<Rightarrow> q | None \<Rightarrow> [])"
    "slot \<in> set (sn_live sn) \<Longrightarrow> row_path sn slot \<noteq> []"
    "length (directories sn) < u32_max"
  using assms unfolding snapshot_ok_def by simp_all

lemma distinct_directories: "snapshot_ok sn \<Longrightarrow> distinct (directories sn)"
  by (simp add: directories_def snapshot_okD(1))

lemma directory_live:
  "i < length (directories sn) \<Longrightarrow> directories sn ! i \<in> set (sn_live sn) \<and> is_folder (row sn (directories sn ! i))"
  using nth_mem[of i "directories sn"] by (simp add: directories_def)

lemma directory_path_inj:
  assumes ok: "snapshot_ok sn" and i: "i < length (directories sn)" "j < length (directories sn)"
    and eq: "directory_path sn i = directory_path sn j"
  shows "i = j"
proof -
  have "directories sn ! i = directories sn ! j"
    using inj_onD[OF snapshot_okD(3)[OF ok]] eq directory_live i by (auto simp: directory_path_def)
  then show ?thesis using distinct_directories[OF ok] i by (simp add: nth_eq_iff_index_eq)
qed

text \<open>The directory whose path is given, and the nearest indexed directory above a row.\<close>

definition dir_index :: "snapshot \<Rightarrow> str \<rightharpoonup> nat" where
  "dir_index sn = directory_map sn (directories sn)"

lemma dir_index_iff:
  assumes ok: "snapshot_ok sn"
  shows "dir_index sn p = Some i \<longleftrightarrow> i < length (directories sn) \<and> directory_path sn i = p"
proof -
  let ?zs = "zip (map (row_path sn) (directories sn)) [0..<length (directories sn)]"
  have paths: "map (\<lambda>slot. path_text (sn_entries sn ! slot)) (directories sn) = map (row_path sn) (directories sn)"
    by (simp add: row_path_def row_def)
  have "distinct (map fst ?zs)"
    using distinct_directories[OF ok] snapshot_okD(3)[OF ok] by (simp add: distinct_map directories_def inj_on_subset)
  then have "dir_index sn p = Some i \<longleftrightarrow> (p, i) \<in> set ?zs"
    by (simp add: dir_index_def directory_map_def paths map_of_eq_Some_iff rev_map[symmetric])
  also have "\<dots> \<longleftrightarrow> i < length (directories sn) \<and> directory_path sn i = p"
    by (auto simp: in_set_zip directory_path_def intro!: exI[of _ i])
  finally show ?thesis .
qed

lemma directory_count_eq: "snapshot_ok sn \<Longrightarrow> directory_count sn (directories sn) = length (directories sn)"
proof -
  assume ok: "snapshot_ok sn"
  have paths: "map (\<lambda>slot. path_text (sn_entries sn ! slot)) (directories sn) = map (row_path sn) (directories sn)"
    by (simp add: row_path_def row_def)
  have "distinct (map (row_path sn) (directories sn))"
    using distinct_directories[OF ok] snapshot_okD(3)[OF ok] by (simp add: distinct_map directories_def inj_on_subset)
  then show ?thesis by (simp add: directory_count_def paths distinct_remdups_id)
qed

text \<open>\<open>inside sn i p\<close>: the directory with index \<open>i\<close> is above the path \<open>p\<close>.\<close>

definition inside :: "snapshot \<Rightarrow> nat \<Rightarrow> str \<Rightarrow> bool" where
  "inside sn i p \<longleftrightarrow> i < length (directories sn) \<and> directory_path sn i \<in> set (above p)"

definition up :: "snapshot \<Rightarrow> str \<Rightarrow> nat option" where
  "up sn p = map_option fst (nearest (dir_index sn) (path_parent p))"

lemma nearest_above:
  "nearest D (path_parent p) = map_option (\<lambda>q. (the (D q), q)) (List.find (\<lambda>q. D q \<noteq> None) (above p))"
proof (induction p rule: above.induct)
  case (1 p)
  show ?case
  proof (cases "path_parent p")
    case (Some q)
    then show ?thesis using 1[OF Some] by (auto simp: above_Some split: option.splits)
  qed (simp add: above_None)
qed

lemma up_Some:
  assumes ok: "snapshot_ok sn" and up: "up sn p = Some i"
  shows "inside sn i p" "\<And>j. inside sn j p \<Longrightarrow> j = i \<or> inside sn j (directory_path sn i)"
    "nearest (dir_index sn) (path_parent p) = Some (i, directory_path sn i)"
proof -
  obtain q where q: "List.find (\<lambda>q. dir_index sn q \<noteq> None) (above p) = Some q" "i = the (dir_index sn q)"
    using up by (auto simp: up_def nearest_above)
  then obtain k where k: "k < length (above p)" "above p ! k = q" "dir_index sn q \<noteq> None"
    "\<forall>j < k. dir_index sn (above p ! j) = None" by (auto simp: find_Some_iff)
  then have i: "dir_index sn q = Some i" using q(2) by auto
  then have iq: "i < length (directories sn)" "directory_path sn i = q" using dir_index_iff[OF ok] by auto
  have mem: "q \<in> set (above p)" using k(1,2) nth_mem by blast
  then show ins: "inside sn i p" using iq by (simp add: inside_def)
  show "nearest (dir_index sn) (path_parent p) = Some (i, directory_path sn i)"
    using q(1) i iq(2) by (simp add: nearest_above)
  fix j assume j: "inside sn j p"
  obtain near where near: "above p = near @ q # above q" "q \<notin> set near" using above_chain[OF mem] by blast
  have dj: "dir_index sn (directory_path sn j) = Some j" using j dir_index_iff[OF ok] by (auto simp: inside_def)
  have "directory_path sn j \<notin> set near"
  proof
    assume "directory_path sn j \<in> set near"
    then obtain m where m: "m < length near" "near ! m = directory_path sn j" by (auto simp: in_set_conv_nth)
    have "k = length near"
    proof (rule ccontr)
      assume "k \<noteq> length near"
      moreover have "above p ! length near = q" using near(1) by simp
      ultimately have "k < length near \<or> length near < k" by auto
      then show False
      proof
        assume "k < length near"
        then have "near ! k = q" using k(2) near(1) by (simp add: nth_append)
        then show False using near(2) \<open>k < length near\<close> nth_mem by metis
      next
        assume "length near < k"
        then have "dir_index sn (above p ! length near) = None" using k(4) by blast
        then show False using near(1) i by simp
      qed
    qed
    then have "dir_index sn (above p ! m) = None" using k(4) m(1) by blast
    then show False using m near(1) dj by (simp add: nth_append)
  qed
  then have "directory_path sn j = q \<or> directory_path sn j \<in> set (above q)"
    using j near(1) by (auto simp: inside_def)
  then show "j = i \<or> inside sn j (directory_path sn i)"
    using directory_path_inj[OF ok] iq j by (auto simp: inside_def)
qed

lemma up_None:
  assumes ok: "snapshot_ok sn" and up: "up sn p = None"
  shows "\<not> inside sn i p"
proof
  assume "inside sn i p"
  then have "dir_index sn (directory_path sn i) \<noteq> None" "directory_path sn i \<in> set (above p)"
    using dir_index_iff[OF ok, of "directory_path sn i" i] by (auto simp: inside_def)
  moreover have "List.find (\<lambda>q. dir_index sn q \<noteq> None) (above p) = None" using up by (simp add: up_def nearest_above)
  ultimately show False by (auto simp: find_None_iff)
qed

lemma inside_step:
  assumes ok: "snapshot_ok sn"
  shows "inside sn i p \<longleftrightarrow> up sn p = Some i \<or> (\<exists>j. up sn p = Some j \<and> inside sn i (directory_path sn j))"
proof
  assume i: "inside sn i p"
  then obtain j where j: "up sn p = Some j" using up_None[OF ok] by (cases "up sn p") auto
  then show "up sn p = Some i \<or> (\<exists>j. up sn p = Some j \<and> inside sn i (directory_path sn j))"
    using up_Some(2)[OF ok j i] by auto
next
  assume "up sn p = Some i \<or> (\<exists>j. up sn p = Some j \<and> inside sn i (directory_path sn j))"
  then show "inside sn i p"
  proof (elim disjE exE conjE)
    fix j assume j: "up sn p = Some j" "inside sn i (directory_path sn j)"
    have "directory_path sn j \<in> set (above p)" using up_Some(1)[OF ok j(1)] by (simp add: inside_def)
    then show ?thesis using j(2) above_trans by (auto simp: inside_def)
  qed (rule up_Some(1)[OF ok])
qed

section \<open>Building the tree\<close>

text \<open>The weight of what lies directly below a directory, nearest to it, and anywhere inside it.\<close>

definition nearest_in :: "snapshot \<Rightarrow> nat list \<Rightarrow> nat \<Rightarrow> nat set" where
  "nearest_in sn ss i = {slot \<in> set ss. up sn (row_path sn slot) = Some i}"

definition direct_in :: "snapshot \<Rightarrow> nat list \<Rightarrow> nat \<Rightarrow> nat set" where
  "direct_in sn ss i = {slot \<in> set ss. path_parent (row_path sn slot) = Some (directory_path sn i)}"

definition members :: "snapshot \<Rightarrow> nat \<Rightarrow> nat set" where
  "members sn i = {slot \<in> set (sn_live sn). inside sn i (row_path sn slot)}"

definition files_in :: "snapshot \<Rightarrow> nat \<Rightarrow> nat" where
  "files_in sn slot = (if is_folder (row sn slot) then 0 else 1)"

definition folders_in :: "snapshot \<Rightarrow> nat \<Rightarrow> nat" where
  "folders_in sn slot = (if is_folder (row sn slot) then 1 else 0)"

definition bytes_in :: "snapshot \<Rightarrow> nat \<Rightarrow> nat" where
  "bytes_in sn slot = (if is_folder (row sn slot) then 0 else size (row sn slot))"

definition capped :: "nat \<Rightarrow> nat option" where
  "capped n = (if n \<le> u64_max then Some n else None)"

lemma capped_add: "Option.bind (capped a) (\<lambda>x. checked_add_u64 x b) = capped (a + b)"
  by (auto simp: capped_def checked_add_u64_def)

lemma capped_add2: "Option.bind (capped a) (\<lambda>x. Option.bind (capped b) (\<lambda>y. checked_add_u64 x y)) = capped (a + b)"
  by (auto simp: capped_def checked_add_u64_def)

lemma capped_0: "capped 0 = Some 0" by (simp add: capped_def)

lemma direct_nearest:
  assumes ok: "snapshot_ok sn" and d: "path_parent p = Some (directory_path sn i)" "i < length (directories sn)"
  shows "up sn p = Some i"
proof -
  have "dir_index sn (directory_path sn i) = Some i" using dir_index_iff[OF ok] d(2) by blast
  then show ?thesis by (simp add: up_def d(1))
qed

lemma inside_shorter: "inside sn i p \<Longrightarrow> length (directory_path sn i) < length p"
  by (auto simp: inside_def dest: above_shorter)

lemma inside_trans: "inside sn i (directory_path sn j) \<Longrightarrow> inside sn j p \<Longrightarrow> inside sn i p"
  by (auto simp: inside_def intro: above_trans)

lemma inside_via:
  assumes ok: "snapshot_ok sn"
  shows "inside sn i p \<Longrightarrow> up sn p \<noteq> Some i \<Longrightarrow> \<exists>j. inside sn j p \<and> up sn (directory_path sn j) = Some i"
proof (induction p rule: measure_induct_rule[of length])
  case (less p)
  obtain j where j: "up sn p = Some j" "inside sn i (directory_path sn j)"
    using less.prems inside_step[OF ok, of i p] by blast
  have jp: "inside sn j p" by (rule up_Some(1)[OF ok j(1)])
  show ?case
  proof (cases "up sn (directory_path sn j) = Some i")
    case False
    obtain m where "inside sn m (directory_path sn j)" "up sn (directory_path sn m) = Some i"
      using less.IH[OF inside_shorter[OF jp] j(2) False] by blast
    then show ?thesis using inside_trans jp by blast
  qed (use jp in blast)
qed

lemma nearest_not_deeper:
  assumes ok: "snapshot_ok sn" and up: "up sn p = Some i" and j: "inside sn j p"
  shows "up sn (directory_path sn j) \<noteq> Some i"
proof
  assume "up sn (directory_path sn j) = Some i"
  then have i: "length (directory_path sn i) < length (directory_path sn j)"
    by (intro inside_shorter up_Some(1)[OF ok])
  from up_Some(2)[OF ok up j] show False using i by (auto dest: inside_shorter)
qed

lemma one_way_down:
  assumes ok: "snapshot_ok sn" and j: "inside sn j p" "inside sn m p"
    and up: "up sn (directory_path sn j) = Some i" "up sn (directory_path sn m) = Some i"
  shows "j = m"
proof -
  have "directory_path sn j = directory_path sn m \<or> directory_path sn j \<in> set (above (directory_path sn m)) \<or>
      directory_path sn m \<in> set (above (directory_path sn j))"
    using j above_linear[of "directory_path sn j" p "directory_path sn m"] by (auto simp: inside_def)
  then show ?thesis
  proof (elim disjE)
    assume "directory_path sn j \<in> set (above (directory_path sn m))"
    then have "inside sn j (directory_path sn m)" using j by (simp add: inside_def)
    from nearest_not_deeper[OF ok up(2) this] up(1) show ?thesis by simp
  next
    assume "directory_path sn m \<in> set (above (directory_path sn j))"
    then have "inside sn m (directory_path sn j)" using j by (simp add: inside_def)
    from nearest_not_deeper[OF ok up(1) this] up(2) show ?thesis by simp
  qed (use j directory_path_inj[OF ok] in \<open>auto simp: inside_def\<close>)
qed

text \<open>What lies inside a directory lies nearest to it or inside one of the directories nearest to it.\<close>

definition children :: "snapshot \<Rightarrow> nat \<Rightarrow> nat set" where
  "children sn i = {j. j < length (directories sn) \<and> up sn (directory_path sn j) = Some i}"

lemma members_eq:
  assumes ok: "snapshot_ok sn"
  shows "members sn i = nearest_in sn (sn_live sn) i \<union> (\<Union>j \<in> children sn i. members sn j)"
proof (intro set_eqI iffI)
  fix slot assume "slot \<in> members sn i"
  then have live: "slot \<in> set (sn_live sn)" and ins: "inside sn i (row_path sn slot)" by (auto simp: members_def)
  show "slot \<in> nearest_in sn (sn_live sn) i \<union> (\<Union>j \<in> children sn i. members sn j)"
  proof (cases "up sn (row_path sn slot) = Some i")
    case True
    then show ?thesis using live by (simp add: nearest_in_def)
  next
    case False
    from inside_via[OF ok ins this] show ?thesis using live by (auto simp: members_def inside_def children_def)
  qed
next
  fix slot assume "slot \<in> nearest_in sn (sn_live sn) i \<union> (\<Union>j \<in> children sn i. members sn j)"
  then show "slot \<in> members sn i"
    using up_Some(1)[OF ok] inside_trans by (fastforce simp: members_def nearest_in_def children_def)
qed

lemma finite_members [simp]: "finite (members sn i)" "finite (nearest_in sn ss i)" "finite (children sn i)"
  by (simp_all add: members_def nearest_in_def children_def)

lemma members_split:
  fixes w :: "nat \<Rightarrow> nat"
  assumes ok: "snapshot_ok sn"
  shows "(\<Sum>slot \<in> members sn i. w slot) = (\<Sum>slot \<in> nearest_in sn (sn_live sn) i. w slot) +
    (\<Sum>j \<in> children sn i. \<Sum>slot \<in> members sn j. w slot)"
proof -
  have "nearest_in sn (sn_live sn) i \<inter> (\<Union>j \<in> children sn i. members sn j) = {}"
    using nearest_not_deeper[OF ok] by (fastforce simp: nearest_in_def children_def members_def)
  then have "(\<Sum>slot \<in> members sn i. w slot) = (\<Sum>slot \<in> nearest_in sn (sn_live sn) i. w slot) +
      (\<Sum>slot \<in> (\<Union>j \<in> children sn i. members sn j). w slot)"
    unfolding members_eq[OF ok, of i] by (intro sum.union_disjoint) auto
  also have "(\<Sum>slot \<in> (\<Union>j \<in> children sn i. members sn j). w slot) = (\<Sum>j \<in> children sn i. \<Sum>slot \<in> members sn j. w slot)"
    by (rule sum.UNION_disjoint) (auto simp: members_def children_def dest: one_way_down[OF ok])
  finally show ?thesis .
qed

text \<open>The tree after placing the slots \<open>ys\<close> and passing on the totals of the directories in \<open>done\<close>.\<close>

definition total_in :: "snapshot \<Rightarrow> (nat \<Rightarrow> nat) \<Rightarrow> nat list \<Rightarrow> nat set \<Rightarrow> nat \<Rightarrow> nat" where
  "total_in sn w ys passed i = (\<Sum>slot \<in> nearest_in sn ys i. w slot) +
    (\<Sum>j \<in> children sn i \<inter> passed. \<Sum>slot \<in> members sn j. w slot)"

definition own_in :: "snapshot \<Rightarrow> (nat \<Rightarrow> nat) \<Rightarrow> nat list \<Rightarrow> nat \<Rightarrow> nat" where
  "own_in sn w ys i = (\<Sum>slot \<in> direct_in sn ys i. w slot)"

definition parent_index :: "snapshot \<Rightarrow> nat \<Rightarrow> nat" where
  "parent_index sn slot = (case up sn (row_path sn slot) of Some i \<Rightarrow> i | None \<Rightarrow> no_parent)"

definition tree :: "snapshot \<Rightarrow> nat list \<Rightarrow> nat list \<Rightarrow> nat set \<Rightarrow> hierarchy" where
  "tree sn ys order passed =
    (let is = [0..<length (directories sn)] in
     \<lparr>h_parents = map (\<lambda>slot. if slot \<in> set ys then parent_index sn slot else no_parent) [0..<length (sn_entries sn)],
      h_directory_slots = directories sn, h_postorder = order,
      h_own_files = map (own_in sn (files_in sn) ys) is,
      h_own_folders = map (own_in sn (folders_in sn) ys) is,
      h_all_files = map (total_in sn (files_in sn) ys passed) is,
      h_all_folders = map (total_in sn (folders_in sn) ys passed) is,
      h_sizes = map (\<lambda>i. capped (total_in sn (bytes_in sn) ys passed i)) is\<rparr>)"

lemma tree_simps [simp]:
  "h_parents (tree sn ys order G) = map (\<lambda>slot. if slot \<in> set ys then parent_index sn slot else no_parent) [0..<length (sn_entries sn)]"
  "h_directory_slots (tree sn ys order G) = directories sn"
  "h_postorder (tree sn ys order G) = order"
  "h_own_files (tree sn ys order G) = map (own_in sn (files_in sn) ys) [0..<length (directories sn)]"
  "h_own_folders (tree sn ys order G) = map (own_in sn (folders_in sn) ys) [0..<length (directories sn)]"
  "h_all_files (tree sn ys order G) = map (total_in sn (files_in sn) ys G) [0..<length (directories sn)]"
  "h_all_folders (tree sn ys order G) = map (total_in sn (folders_in sn) ys G) [0..<length (directories sn)]"
  "h_sizes (tree sn ys order G) = map (\<lambda>i. capped (total_in sn (bytes_in sn) ys G i)) [0..<length (directories sn)]"
  by (simp_all add: tree_def Let_def)

lemma nth_opt_row: "snapshot_ok sn \<Longrightarrow> slot \<in> set (sn_live sn) \<Longrightarrow> nth_opt (sn_entries sn) slot = Some (row sn slot)"
  by (simp add: nth_opt_def row_def snapshot_okD(2))

lemma nth_opt_map [simp]: "i < n \<Longrightarrow> nth_opt (map f [0..<n]) i = Some (f i)"
  by (simp add: nth_opt_def)

lemma map_upt_update: "i < n \<Longrightarrow> (map f [0..<n])[i := x] = map (f(i := x)) [0..<n]"
  by (rule nth_equalityI) (auto simp: nth_list_update)

lemma add_at_map [simp]: "i < n \<Longrightarrow> add_at (map f [0..<n]) i m = Some (map (f(i := f i + m)) [0..<n])"
  by (simp add: add_at_def map_upt_update)

lemma nearest_in_snoc:
  "nearest_in sn (ys @ [slot]) i = (if up sn (row_path sn slot) = Some i then insert slot (nearest_in sn ys i) else nearest_in sn ys i)"
  by (auto simp: nearest_in_def)

lemma direct_in_snoc:
  "direct_in sn (ys @ [slot]) i = (if path_parent (row_path sn slot) = Some (directory_path sn i)
    then insert slot (direct_in sn ys i) else direct_in sn ys i)"
  by (auto simp: direct_in_def)

lemma finite_direct [simp]: "finite (direct_in sn ys i)"
  by (simp add: direct_in_def)

lemma total_in_snoc:
  "slot \<notin> set ys \<Longrightarrow> total_in sn w (ys @ [slot]) G i = total_in sn w ys G i + (if up sn (row_path sn slot) = Some i then w slot else 0)"
proof -
  assume "slot \<notin> set ys"
  then have "slot \<notin> nearest_in sn ys i" by (simp add: nearest_in_def)
  then show ?thesis by (simp add: total_in_def nearest_in_snoc)
qed

lemma direct_sum_snoc:
  "slot \<notin> set ys \<Longrightarrow> own_in sn w (ys @ [slot]) i = own_in sn w ys i +
    (if path_parent (row_path sn slot) = Some (directory_path sn i) then w slot else 0)"
proof -
  assume "slot \<notin> set ys"
  then have "slot \<notin> direct_in sn ys i" by (simp add: direct_in_def)
  then show ?thesis by (simp add: direct_in_snoc own_in_def)
qed

lemma collect_directories:
  assumes ok: "snapshot_ok sn" and stop: "\<And>j. cancelled j \<Longrightarrow> E query_cancelled"
  shows "yields (each cancelled (collect_directory sn) (sn_live sn) (k, [])) E
    (\<lambda>(k', dirs). k' = k + length (sn_live sn) \<and> dirs = directories sn)"
  unfolding directories_def
  by (rule yields_each[where I = "\<lambda>ys dirs. dirs = filter (\<lambda>slot. is_folder (row sn slot)) ys"])
    (auto simp: collect_directory_def nth_opt_row[OF ok] stop)

lemma up_less: "snapshot_ok sn \<Longrightarrow> up sn p = Some i \<Longrightarrow> i < length (directories sn) \<and> i mod 2 ^ 32 = i \<and> i \<noteq> no_parent"
  using up_Some(1)[of sn p i] snapshot_okD(7)[of sn] by (auto simp: inside_def no_parent_def u32_max_def)

lemma place_tree:
  assumes ok: "snapshot_ok sn" and slot: "slot \<in> set (sn_live sn)" "slot \<notin> set ys"
  shows "place sn (dir_index sn) slot (tree sn ys [] {}) = fine (Some (tree sn (ys @ [slot]) [] {}))"
proof -
  have row: "nth_opt (sn_entries sn) slot = Some (row sn slot)" by (rule nth_opt_row[OF ok slot(1)])
  have len: "slot < length (sn_entries sn)" by (rule snapshot_okD(2)[OF ok slot(1)])
  let ?p = "row_path sn slot"
  have pt: "path_text (row sn slot) = ?p" by (simp add: row_path_def)
  note snoc = total_in_snoc[OF slot(2)] direct_sum_snoc[OF slot(2)]
  show ?thesis
  proof (cases "up sn ?p")
    case None
    then have n: "nearest (dir_index sn) (path_parent ?p) = None" by (simp add: up_def)
    have d: "path_parent ?p \<noteq> Some (directory_path sn i)" if "i < length (directories sn)" for i
      using direct_nearest[OF ok _ that] None by auto
    have "tree sn (ys @ [slot]) [] {} = tree sn ys [] {}"
      using None d by (intro hierarchy.equality) (auto simp: snoc parent_index_def intro!: map_cong)
    then show ?thesis by (simp add: place_def row pt n)
  next
    case (Some i)
    note near = up_Some(3)[OF ok Some] and i = up_less[OF ok Some]
    let ?one = "if Some (directory_path sn i) = path_parent ?p then 1 else 0 :: nat"
    have d: "path_parent ?p = Some (directory_path sn j) \<Longrightarrow> j < length (directories sn) \<Longrightarrow> j = i" for j
      using direct_nearest[OF ok] Some by fastforce
    let ?t = "tree sn ys [] {}" and ?parents = "(h_parents (tree sn ys [] {}))[slot := i]"
    have parents: "?parents = h_parents (tree sn (ys @ [slot]) [] {})"
      using Some by (simp add: map_upt_update[OF len] parent_index_def)
    show ?thesis
    proof (cases "is_folder (row sn slot)")
      case True
      then have w: "files_in sn slot = 0" "folders_in sn slot = 1" "bytes_in sn slot = 0"
        by (simp_all add: files_in_def folders_in_def bytes_in_def)
      let ?all = "total_in sn (folders_in sn) ys {}" and ?own = "own_in sn (folders_in sn) ys"
      let ?new = "?t\<lparr>h_parents := ?parents, h_all_folders := map (?all(i := ?all i + 1)) [0..<length (directories sn)],
        h_own_folders := map (?own(i := ?own i + ?one)) [0..<length (directories sn)]\<rparr>"
      have "place sn (dir_index sn) slot ?t = fine (Some ?new)"
        using len i True by (simp add: place_def row pt near Let_def del: fun_upd_apply)
      moreover have "?new = tree sn (ys @ [slot]) [] {}"
      proof (rule hierarchy.equality)
        show "h_own_folders ?new = h_own_folders (tree sn (ys @ [slot]) [] {})"
          using d by (auto simp: snoc w)
      qed (use Some in \<open>simp_all add: snoc w parents[simplified]\<close>)
      ultimately show ?thesis by simp
    next
      case False
      then have w: "files_in sn slot = 1" "folders_in sn slot = 0" "bytes_in sn slot = size (row sn slot)"
        by (simp_all add: files_in_def folders_in_def bytes_in_def)
      let ?all = "total_in sn (files_in sn) ys {}" and ?own = "own_in sn (files_in sn) ys"
      let ?bytes = "\<lambda>i. capped (total_in sn (bytes_in sn) ys {} i)"
      let ?new = "?t\<lparr>h_parents := ?parents, h_all_files := map (?all(i := ?all i + 1)) [0..<length (directories sn)],
        h_own_files := map (?own(i := ?own i + ?one)) [0..<length (directories sn)],
        h_sizes := map (?bytes(i := capped (total_in sn (bytes_in sn) ys {} i + size (row sn slot)))) [0..<length (directories sn)]\<rparr>"
      have "place sn (dir_index sn) slot ?t = fine (Some ?new)"
        using len i False by (simp add: place_def row pt near Let_def map_upt_update capped_add del: fun_upd_apply)
      moreover have "?new = tree sn (ys @ [slot]) [] {}"
      proof (rule hierarchy.equality)
        show "h_own_files ?new = h_own_files (tree sn (ys @ [slot]) [] {})"
          using d by (auto simp: snoc w)
      qed (use Some in \<open>simp_all add: snoc w parents[simplified]\<close>)
      ultimately show ?thesis by simp
    qed
  qed
qed

text \<open>Passing the totals upwards, the directories with the longest paths first.\<close>

lemma total_in_all: "snapshot_ok sn \<Longrightarrow> children sn i \<subseteq> G \<Longrightarrow>
  total_in sn w (sn_live sn) G i = (\<Sum>slot \<in> members sn i. w slot)"
  by (simp add: total_in_def members_split Int_absorb2)

lemma total_in_pass:
  assumes "i \<notin> G"
  shows "total_in sn w ys (insert i G) p = total_in sn w ys G p + (if i \<in> children sn p then \<Sum>slot \<in> members sn i. w slot else 0)"
proof (cases "i \<in> children sn p")
  case True
  then have "children sn p \<inter> insert i G = insert i (children sn p \<inter> G)" by blast
  then show ?thesis using assms True by (simp add: total_in_def)
qed (simp add: total_in_def)

lemma gather_tree:
  assumes ok: "snapshot_ok sn" and i: "i < length (directories sn)" "i \<notin> G" "children sn i \<subseteq> G"
  shows "gather i (tree sn (sn_live sn) order G) = fine (Some (tree sn (sn_live sn) order (insert i G)))"
proof -
  let ?t = "tree sn (sn_live sn) order G" and ?p = "directory_path sn i" and ?n = "length (directories sn)"
  have slot: "directories sn ! i \<in> set (sn_live sn)" using directory_live[OF i(1)] by simp
  have parent: "parent_of ?t i = Some (parent_index sn (directories sn ! i))"
    using i(1) slot snapshot_okD(2)[OF ok slot] by (simp add: parent_of_def nth_opt_def)
  have index: "parent_index sn (directories sn ! i) = (case up sn ?p of Some i \<Rightarrow> i | None \<Rightarrow> no_parent)"
    by (simp add: parent_index_def directory_path_def)
  note full = total_in_all[OF ok i(3)] and pass = total_in_pass[OF i(2)]
  show ?thesis
  proof (cases "up sn ?p")
    case None
    then have "i \<notin> children sn p" for p by (simp add: children_def)
    then have "tree sn (sn_live sn) order (insert i G) = ?t" by (intro hierarchy.equality) (auto simp: pass intro!: map_cong)
    then show ?thesis by (simp add: gather_def parent index None)
  next
    case (Some p)
    have p: "p < ?n" "p \<noteq> no_parent" using up_less[OF ok Some] by simp_all
    have child: "i \<in> children sn q \<longleftrightarrow> q = p" for q using Some i(1) by (auto simp: children_def)
    let ?files = "total_in sn (files_in sn) (sn_live sn) G" and ?folders = "total_in sn (folders_in sn) (sn_live sn) G"
    let ?bytes = "total_in sn (bytes_in sn) (sn_live sn) G"
    let ?new = "?t\<lparr>h_all_files := map (?files(p := ?files p + ?files i)) [0..<?n],
      h_all_folders := map (?folders(p := ?folders p + ?folders i)) [0..<?n],
      h_sizes := map ((\<lambda>i. capped (?bytes i))(p := capped (?bytes p + ?bytes i))) [0..<?n]\<rparr>"
    have "gather i ?t = fine (Some ?new)"
      using p i(1) by (simp add: gather_def parent index Some map_upt_update capped_add2 del: fun_upd_apply)
    moreover have "?new = tree sn (sn_live sn) order (insert i G)"
      by (rule hierarchy.equality) (auto simp: pass child full)
    ultimately show ?thesis by simp
  qed
qed

lemma postorder_children:
  assumes ok: "snapshot_ok sn"
    and order: "sort_by (by_length_descending sn (directories sn)) [0..<length (directories sn)] = ys @ i # zs"
  shows "i < length (directories sn)" "i \<notin> set ys" "children sn i \<subseteq> set ys"
proof -
  let ?cmp = "by_length_descending sn (directories sn)" and ?n = "length (directories sn)"
  have len: "view_len (path (sn_entries sn ! (directories sn ! j))) = str_len (directory_path sn j)" for j
    by (simp add: view_len_text directory_path_def row_path_def row_def path_text_def)
  have cmp: "?cmp a b \<noteq> Greater \<longleftrightarrow> str_len (directory_path sn b) \<le> str_len (directory_path sn a)" for a b
    by (simp add: by_length_descending_def len prim_cmp_def)
  have ms: "mset (ys @ i # zs) = mset [0..<?n]" using mset_sort_by[of ?cmp "[0..<?n]"] unfolding order .
  then have set: "set (ys @ i # zs) = {0..<?n}" by (metis set_mset_mset set_upt)
  have dist: "distinct (ys @ i # zs)" using ms distinct_upt by (metis mset_eq_imp_distinct_iff)
  show "i < ?n" "i \<notin> set ys" using set dist by auto
  have c: "comparator ?cmp"
    by unfold_locales (auto simp: by_length_descending_def prim_cmp_def split: if_splits)
  have "sorted_by ?cmp (ys @ i # zs)" using comparator.sorted_by_sort_by[OF c, of "[0..<?n]"] unfolding order .
  then have below: "str_len (directory_path sn j) \<le> str_len (directory_path sn i)" if "j \<in> set zs" for j
    using that by (auto simp: sorted_by_def sorted_wrt_append cmp)
  show "children sn i \<subseteq> set ys"
  proof
    fix j assume "j \<in> children sn i"
    then have j: "j < ?n" "up sn (directory_path sn j) = Some i" by (simp_all add: children_def)
    then have "directory_path sn i \<in> set (above (directory_path sn j))" using up_Some(1)[OF ok j(2)] by (simp add: inside_def)
    then have less: "str_len (directory_path sn i) < str_len (directory_path sn j)" by (rule above_str_len)
    have "j \<in> set (ys @ i # zs)" using j(1) set by simp
    then show "j \<in> set ys" using below[of j] less by auto
  qed
qed

definition postorder :: "snapshot \<Rightarrow> nat list" where
  "postorder sn = sort_by (by_length_descending sn (directories sn)) [0..<length (directories sn)]"

definition built :: "snapshot \<Rightarrow> hierarchy" where
  "built sn = tree sn (sn_live sn) (postorder sn) {0..<length (directories sn)}"

lemma set_postorder: "set (postorder sn) = {0..<length (directories sn)}"
  by (simp add: postorder_def)

lemma build_built:
  assumes ok: "snapshot_ok sn" and stop: "\<And>j. cancelled j \<Longrightarrow> E query_cancelled"
  shows "yields (build cancelled k sn) E (\<lambda>(k', h). h = built sn)"
proof -
  let ?n = "length (directories sn)"
  have start: "\<lparr>h_parents = replicate (length (sn_entries sn)) no_parent, h_directory_slots = directories sn, h_postorder = [],
      h_own_files = replicate ?n 0, h_own_folders = replicate ?n 0, h_all_files = replicate ?n 0,
      h_all_folders = replicate ?n 0, h_sizes = replicate ?n (Some 0)\<rparr> = tree sn [] [] {}"
    by (rule hierarchy.equality)
      (auto simp: own_in_def direct_in_def total_in_def nearest_in_def capped_0 intro!: nth_equalityI)
  have place: "yields (each cancelled (place sn (dir_index sn)) (sn_live sn) (k, tree sn [] [] {})) E
      (\<lambda>(k', h). k' = k + length (sn_live sn) \<and> h = tree sn (sn_live sn) [] {})" for k
  proof (rule yields_each[where I = "\<lambda>ys h. h = tree sn ys [] {}"])
    fix ys slot zs h assume "sn_live sn = ys @ slot # zs" "h = tree sn ys [] {}"
    then show "yields (place sn (dir_index sn) slot h) E (\<lambda>h. h = tree sn (ys @ [slot]) [] {})"
      using place_tree[OF ok, of slot ys] snapshot_okD(1)[OF ok] by simp
  qed (simp_all add: stop)
  have gather: "yields (each cancelled gather (postorder sn) (k, tree sn (sn_live sn) (postorder sn) {})) E
      (\<lambda>(k', h). k' = k + length (postorder sn) \<and> h = tree sn (sn_live sn) (postorder sn) (set (postorder sn)))" for k
  proof (rule yields_each[where I = "\<lambda>ys h. h = tree sn (sn_live sn) (postorder sn) (set ys)"])
    fix ys i zs h assume o: "postorder sn = ys @ i # zs" and h: "h = tree sn (sn_live sn) (postorder sn) (set ys)"
    from postorder_children[OF ok o[unfolded postorder_def]]
    show "yields (gather i h) E (\<lambda>h. h = tree sn (sn_live sn) (postorder sn) (set (ys @ [i])))"
      using gather_tree[OF ok, of i "set ys" "postorder sn"] by (simp add: h)
  qed (simp_all add: stop)
  have reorder: "tree sn (sn_live sn) [] {}\<lparr>h_postorder := sort_by (by_length_descending sn (directories sn)) [0..<?n]\<rparr> =
      tree sn (sn_live sn) (postorder sn) {}"
    by (rule hierarchy.equality) (simp_all add: postorder_def)
  have collect: "yields (each cancelled (collect_directory sn) (sn_live sn) (k, [])) E
      (\<lambda>(k', dirs). k' = k + length (sn_live sn) \<and> dirs = directories sn)"
    by (rule collect_directories[OF ok]) (rule stop)
  show ?thesis
    unfolding build_def
  proof (rule yields_bind[OF collect])
    fix a assume "case a of (k', dirs) \<Rightarrow> k' = k + length (sn_live sn) \<and> dirs = directories sn"
    then obtain k' where a: "a = (k', directories sn)" by (cases a) auto
    show "yields (case a of (k, dirs) \<Rightarrow>
        let directories = directory_map sn dirs; n = directory_count sn dirs;
            h = \<lparr>h_parents = replicate (length (sn_entries sn)) no_parent, h_directory_slots = dirs, h_postorder = [],
              h_own_files = replicate n 0, h_own_folders = replicate n 0, h_all_files = replicate n 0,
              h_all_folders = replicate n 0, h_sizes = replicate n (Some 0)\<rparr>
        in bind_outcome (each cancelled (place sn directories) (sn_live sn) (k, h)) (\<lambda>(k, h).
             let h = h\<lparr>h_postorder := sort_by (by_length_descending sn dirs) [0..<n]\<rparr>
             in each cancelled gather (h_postorder h) (k, h))) E (\<lambda>(k', h). h = built sn)"
      unfolding a prod.case Let_def directory_count_eq[OF ok] dir_index_def[symmetric] start
    proof (rule yields_bind[OF place])
      fix b assume "case b of (k'', h) \<Rightarrow> k'' = k' + length (sn_live sn) \<and> h = tree sn (sn_live sn) [] {}"
      then obtain k'' where b: "b = (k'', tree sn (sn_live sn) [] {})" by (cases b) auto
      show "yields (case b of (k, h) \<Rightarrow> each cancelled gather
          (h_postorder (h\<lparr>h_postorder := sort_by (by_length_descending sn (directories sn)) [0..<?n]\<rparr>))
          (k, h\<lparr>h_postorder := sort_by (by_length_descending sn (directories sn)) [0..<?n]\<rparr>)) E (\<lambda>(k', h). h = built sn)"
        unfolding b prod.case reorder tree_simps
        by (rule yields_mono[OF gather]) (auto simp: built_def set_postorder)
    qed
  qed
qed

end
