(* ===== verification/Relations.thy ===== *)
theory Relations
  imports Hierarchy
begin

text \<open>
  What the tree of \<open>Hierarchy\<close> is for: coverage of a directory, the marks of \<open>child:\<close> and \<open>descendant:\<close>, folder
  metrics and folder reports, against reference definitions that quantify over the live rows
  (\<open>core/src/relations.rs\<close>).
\<close>

section \<open>Coverage of a directory\<close>

definition uncertain :: "json \<Rightarrow> str \<Rightarrow> bool" where
  "uncertain coverage p \<longleftrightarrow> \<not> cov_complete coverage \<or>
    \<not> (\<exists>q \<in> set (ancestors p). q \<in> set (json_texts (json_index coverage (lit ''roots'')))) \<or>
    (\<exists>gap \<in> set (json_texts (json_index coverage (lit ''uncovered''))). p \<in> set (ancestors gap) \<or> gap \<in> set (ancestors p))"

lemma ancestors_trans: "q \<in> set (above p) \<Longrightarrow> r \<in> set (ancestors q) \<Longrightarrow> r \<in> set (ancestors p)"
  by (auto simp: ancestors_def intro: above_trans)

lemma uncertain_above: "q \<in> set (above p) \<Longrightarrow> uncertain coverage p \<Longrightarrow> uncertain coverage q"
proof -
  assume q: "q \<in> set (above p)" and u: "uncertain coverage p"
  have gap: "q \<in> set (ancestors gap) \<or> gap \<in> set (ancestors q)" if "p \<in> set (ancestors gap) \<or> gap \<in> set (ancestors p)" for gap
    using that
  proof
    assume "p \<in> set (ancestors gap)"
    then show ?thesis using q by (auto simp: ancestors_def intro: above_trans)
  next
    assume "gap \<in> set (ancestors p)"
    then show ?thesis using q above_linear[of q p gap] by (auto simp: ancestors_def)
  qed
  show ?thesis using u ancestors_trans[OF q] gap unfolding uncertain_def by blast
qed

lemma incomplete_uncertain:
  assumes ok: "snapshot_ok sn" and slots: "h_directory_slots h = directories sn"
    and stop: "\<And>j. cancelled j \<Longrightarrow> E query_cancelled"
  shows "yields (incomplete cancelled k sn h coverage) E
    (\<lambda>(k', us). us = map (\<lambda>slot. uncertain coverage (row_path sn slot)) (directories sn))"
proof -
  let ?gaps = "remdups (json_texts (json_index coverage (lit ''uncovered'')))"
  have gaps: "yields (each cancelled gap_ancestor ?gaps (k, {})) E
      (\<lambda>(k', s). k' = k + length ?gaps \<and> s = (\<Union>gap \<in> set ?gaps. set (ancestors gap)))"
    by (rule yields_each[where I = "\<lambda>ys s. s = (\<Union>gap \<in> set ys. set (ancestors gap))"])
      (auto simp: gap_ancestor_def stop)
  let ?f = "uncertain_directory sn (cov_complete coverage) (set (json_texts (json_index coverage (lit ''roots'')))) (set ?gaps)
      (\<Union>gap \<in> set ?gaps. set (ancestors gap))"
  have rows: "yields (each cancelled ?f (directories sn) (k, [])) E
      (\<lambda>(k', us). k' = k + length (directories sn) \<and> us = map (\<lambda>slot. uncertain coverage (row_path sn slot)) (directories sn))" for k
  proof (rule yields_each[where I = "\<lambda>ys us. us = map (\<lambda>slot. uncertain coverage (row_path sn slot)) ys"])
    fix ys slot zs us
    assume split: "directories sn = ys @ slot # zs" and us: "us = map (\<lambda>slot. uncertain coverage (row_path sn slot)) ys"
    have "slot \<in> set (directories sn)" unfolding split by simp
    then have "slot \<in> set (sn_live sn)" by (simp add: directories_def)
    then have nth: "nth_opt (sn_entries sn) slot = Some (row sn slot)" by (rule nth_opt_row[OF ok])
    let ?p = "row_path sn slot"
    have pt: "path_text (row sn slot) = ?p" by (simp add: row_path_def)
    have "?f slot us = fine (Some (us @ [\<not> cov_complete coverage \<or>
        \<not> (\<exists>q \<in> set (ancestors ?p). q \<in> set (json_texts (json_index coverage (lit ''roots'')))) \<or>
        (?p \<in> (\<Union>gap \<in> set ?gaps. set (ancestors gap)) \<or> (\<exists>q \<in> set (ancestors ?p). q \<in> set ?gaps))]))"
      by (simp only: uncertain_directory_def nth Let_def pt Option.bind.simps)
    also have "(\<not> cov_complete coverage \<or>
        \<not> (\<exists>q \<in> set (ancestors ?p). q \<in> set (json_texts (json_index coverage (lit ''roots'')))) \<or>
        (?p \<in> (\<Union>gap \<in> set ?gaps. set (ancestors gap)) \<or> (\<exists>q \<in> set (ancestors ?p). q \<in> set ?gaps))) = uncertain coverage ?p"
      unfolding uncertain_def set_remdups by blast
    finally show "yields (?f slot us) E (\<lambda>us. us = map (\<lambda>slot. uncertain coverage (row_path sn slot)) (ys @ [slot]))"
      using us by simp
  qed (simp_all add: stop)
  show ?thesis
    unfolding incomplete_def Let_def slots
  proof (rule yields_bind[OF gaps])
    fix a assume "case a of (k', s) \<Rightarrow> k' = k + length ?gaps \<and> s = (\<Union>gap \<in> set ?gaps. set (ancestors gap))"
    then show "yields (case a of (k, gap_ancestors) \<Rightarrow> each cancelled (uncertain_directory sn (cov_complete coverage)
        (set (json_texts (json_index coverage (lit ''roots'')))) (set ?gaps) gap_ancestors) (directories sn) (k, [])) E
        (\<lambda>(k', us). us = map (\<lambda>slot. uncertain coverage (row_path sn slot)) (directories sn))"
      using yields_mono[OF rows] by (cases a) fastforce
  qed
qed

section \<open>Marking directories\<close>

text \<open>The rows a relationship ranges over: those of the directory itself, or all that lie inside it.\<close>

definition near_in :: "snapshot \<Rightarrow> bool \<Rightarrow> nat list \<Rightarrow> nat \<Rightarrow> nat set" where
  "near_in sn recursive ys i = (if recursive then nearest_in sn ys i else direct_in sn ys i)"

definition any_in :: "snapshot \<Rightarrow> bool \<Rightarrow> (nat \<Rightarrow> bool) \<Rightarrow> nat list \<Rightarrow> nat set \<Rightarrow> nat \<Rightarrow> bool" where
  "any_in sn recursive P ys G i \<longleftrightarrow> (\<exists>slot \<in> near_in sn recursive ys i. P slot) \<or>
    (\<exists>j \<in> children sn i \<inter> G. \<exists>slot \<in> members sn j. P slot)"

definition marks :: "snapshot \<Rightarrow> json \<Rightarrow> bool \<Rightarrow> (nat \<Rightarrow> bool option result) \<Rightarrow> nat list \<Rightarrow> nat set \<Rightarrow> bool list \<times> bool list" where
  "marks sn coverage recursive tr ys G =
    (map (any_in sn recursive (\<lambda>slot. tr slot = Inr (Some True)) ys G) [0..<length (directories sn)],
     map (\<lambda>i. uncertain coverage (directory_path sn i) \<or> any_in sn recursive (\<lambda>slot. tr slot = Inr None) ys G i)
       [0..<length (directories sn)])"

definition row_text :: "snapshot \<Rightarrow> (file_entry \<Rightarrow> str option result) \<Rightarrow> nat \<Rightarrow> str option" where
  "row_text sn content slot = (case content (row sn slot) of Inr c \<Rightarrow> c | Inl _ \<Rightarrow> None)"

lemma requires_content_terms: "requires_content q \<longleftrightarrow> (\<exists>t \<in> set (query_terms q). term_requires_content t)"
proof -
  have "any_content qs \<longleftrightarrow> (\<exists>q \<in> set qs. requires_content q)" for qs by (induction qs) auto
  then show ?thesis by (induction q rule: query_terms.induct) auto
qed

lemma truth_cong_terms: "(\<And>t. t \<in> set (query_terms q) \<Longrightarrow> ev t = ev' t) \<Longrightarrow> truth ev q = truth ev' q"
proof (induction q rule: query_terms.induct)
  case (2 qs)
  then show ?case by (auto intro!: truth_loop_cong)
next
  case (3 qs)
  then show ?case by (auto intro!: truth_loop_cong)
qed auto

lemma indexed_term_content: "\<not> term_requires_content t \<Longrightarrow> indexed_term cr f c t = indexed_term cr f c' t"
  using inner_term_content[of t cr f c] inner_term_content[of t cr f c']
  by (cases t) (auto simp: indexed_term_def Let_def split: text_target.splits)

lemma indexed_truth_content: "\<not> requires_content q \<Longrightarrow> indexed_truth cr f c q = indexed_truth cr f c' q"
  unfolding indexed_truth_eq
  by (rule truth_cong_terms) (auto simp: requires_content_terms intro: indexed_term_content)

lemma near_in_snoc: "near_in sn recursive (ys @ [slot]) i =
  (if (if recursive then up sn (row_path sn slot) = Some i else path_parent (row_path sn slot) = Some (directory_path sn i))
   then insert slot (near_in sn recursive ys i) else near_in sn recursive ys i)"
  by (simp add: near_in_def nearest_in_snoc direct_in_snoc)

lemma any_in_snoc: "any_in sn recursive P (ys @ [slot]) G i \<longleftrightarrow> any_in sn recursive P ys G i \<or>
  (if recursive then up sn (row_path sn slot) = Some i else path_parent (row_path sn slot) = Some (directory_path sn i)) \<and> P slot"
  by (auto simp: any_in_def near_in_snoc)

lemma map_mark:
  "(\<And>j. j < n \<Longrightarrow> f' j \<longleftrightarrow> f j \<or> j = i \<and> b) \<Longrightarrow> map f' [0..<n] = (if b then (map f [0..<n])[i := True] else map f [0..<n])"
  by (cases "i < n"; rule nth_equalityI) (auto simp: nth_list_update list_update_beyond)

lemma mark_step:
  assumes ok: "snapshot_ok sn" and slot: "slot \<in> set (sn_live sn)"
    and parents: "h_parents h = h_parents (built sn)" and slots: "h_directory_slots h = directories sn"
    and tr: "\<And>slot. tr slot = indexed_truth cr (row sn slot) (row_text sn content slot) inner"
    and errors: "\<And>e. content (row sn slot) = Inl e \<Longrightarrow> E e"
      "\<And>e c. indexed_truth cr (row sn slot) c inner = Inl e \<Longrightarrow> E e"
  shows "yields (mark sn h cr content recursive inner (requires_content inner) slot (marks sn coverage recursive tr ys {})) E
    (\<lambda>m. m = marks sn coverage recursive tr (ys @ [slot]) {})"
proof -
  let ?p = "row_path sn slot" and ?n = "length (directories sn)"
  have row: "nth_opt (sn_entries sn) slot = Some (row sn slot)" by (rule nth_opt_row[OF ok slot])
  have parent: "nth_opt (h_parents h) slot = Some (parent_index sn slot)"
    using slot snapshot_okD(2)[OF ok slot] by (simp add: parents built_def)
  have d: "path_parent ?p = Some (directory_path sn j) \<Longrightarrow> j < ?n \<Longrightarrow> up sn ?p = Some j" for j
    using direct_nearest[OF ok] by blast
  show ?thesis
  proof (cases "up sn ?p")
    case None
    then have d': "path_parent ?p \<noteq> Some (directory_path sn j)" if "j < ?n" for j using d that by fastforce
    have "marks sn coverage recursive tr (ys @ [slot]) {} = marks sn coverage recursive tr ys {}"
      using None by (auto simp: marks_def any_in_snoc d')
    then show ?thesis using None by (simp add: mark_def parent parent_index_def marks_def)
  next
    case (Some i)
    have i: "i < ?n" "i \<noteq> no_parent" using up_less[OF ok Some] by simp_all
    have dir: "nth_opt (sn_entries sn) (directories sn ! i) = Some (row sn (directories sn ! i))"
      using nth_opt_row[OF ok] directory_live[OF i(1)] by blast
    have pp: "\<exists>q. path_parent ?p = Some q" using up_Some(1)[OF ok Some] by (cases "path_parent ?p") (auto simp: inside_def above_None)
    have par: "parent (row sn slot) = directory_path sn i \<longleftrightarrow> path_parent ?p = Some (directory_path sn i)"
      using snapshot_okD(5)[OF ok slot] pp by auto
    define hit where "hit = (recursive \<or> path_parent ?p = Some (directory_path sn i))"
    have near: "(if recursive then up sn ?p = Some j else path_parent ?p = Some (directory_path sn j)) \<longleftrightarrow> j = i \<and> hit"
      if "j < ?n" for j
      using d[OF _ that] Some by (auto simp: hit_def)
    have any_new: "any_in sn recursive P (ys @ [slot]) {} j \<longleftrightarrow> any_in sn recursive P ys {} j \<or> j = i \<and> hit \<and> P slot"
      if "j < ?n" for P j
      using near[OF that] by (simp only: any_in_snoc) blast
    have new: "marks sn coverage recursive tr (ys @ [slot]) {} =
        (let (pos, unk) = marks sn coverage recursive tr ys {} in
         (if hit \<and> tr slot = Inr (Some True) then pos[i := True] else pos, if hit \<and> tr slot = Inr None then unk[i := True] else unk))"
    proof -
      have "map (any_in sn recursive P (ys @ [slot]) {}) [0..<?n] =
          (if hit \<and> P slot then (map (any_in sn recursive P ys {}) [0..<?n])[i := True] else map (any_in sn recursive P ys {}) [0..<?n])" for P
        by (rule map_mark) (use any_new in blast)
      moreover have "map (\<lambda>i. uncertain coverage (directory_path sn i) \<or> any_in sn recursive P (ys @ [slot]) {} i) [0..<?n] =
          (if hit \<and> P slot then (map (\<lambda>i. uncertain coverage (directory_path sn i) \<or> any_in sn recursive P ys {} i) [0..<?n])[i := True]
           else map (\<lambda>i. uncertain coverage (directory_path sn i) \<or> any_in sn recursive P ys {} i) [0..<?n])" for P
        by (rule map_mark) (use any_new in blast)
      ultimately show ?thesis by (simp add: marks_def)
    qed
    show ?thesis
    proof (cases hit)
      case False
      then have "\<not> recursive" "parent (row sn slot) \<noteq> path_text (row sn (directories sn ! i))"
        using par by (auto simp: hit_def directory_path_def row_path_def)
      then show ?thesis using i dir False unfolding new
        by (simp add: mark_def parent parent_index_def Some row slots nth_opt_def[of "directories sn"] marks_def)
    next
      case True
      let ?body = "if requires_content inner then content (row sn slot) else Inr None"
      have t: "indexed_truth cr (row sn slot) c inner = tr slot" if "?body = Inr c" for c
        using that indexed_truth_content[of inner cr "row sn slot"] by (auto simp: tr row_text_def split: if_splits)
      obtain pos unk where pu: "marks sn coverage recursive tr ys {} = (pos, unk)" by fastforce
      then have lens: "length pos = ?n" "length unk = ?n" by (auto simp: marks_def)
      have dirs: "nth_opt (directories sn) i = Some (directories sn ! i)" using i(1) by (simp add: nth_opt_def)
      have pd: "path_text (row sn (directories sn ! i)) = directory_path sn i" by (simp add: directory_path_def row_path_def)
      have m: "mark sn h cr content recursive inner (requires_content inner) slot (pos, unk) =
          bind_outcome (Some ?body) (\<lambda>body. bind_outcome (Some (indexed_truth cr (row sn slot) body inner)) (\<lambda>truth.
            case truth of
              Some True \<Rightarrow> (if i < length pos then Some (Inr (pos[i := True], unk)) else None)
            | None \<Rightarrow> (if i < length unk then Some (Inr (pos, unk[i := True])) else None)
            | Some False \<Rightarrow> Some (Inr (pos, unk))))"
      proof (cases recursive)
        case True
        then show ?thesis using i by (simp add: mark_def parent parent_index_def Some row)
      next
        case False
        then have "parent (row sn slot) = directory_path sn i" using \<open>hit\<close> par by (simp add: hit_def)
        then show ?thesis using i False by (simp add: mark_def parent parent_index_def Some row slots dirs dir pd)
      qed
      show ?thesis
      proof (cases ?body)
        case (Inl e)
        then show ?thesis unfolding pu m using errors(1) by (auto split: if_splits)
      next
        case body: (Inr c)
        note tc = t[OF body]
        show ?thesis
        proof (cases "tr slot")
          case (Inl e)
          then show ?thesis unfolding pu m body using errors(2)[of c] tc by simp
        next
          case (Inr v)
          have "v = Some True \<or> v = Some False \<or> v = None" by (cases v) auto
          then show ?thesis unfolding pu m body bind_outcome_simps tc new using i lens True Inr
            by (elim disjE) simp_all
        qed
      qed
    qed
  qed
qed

text \<open>Passing the marks upwards.\<close>

lemma any_in_members:
  assumes ok: "snapshot_ok sn" and all: "children sn i \<subseteq> G"
  shows "any_in sn True P (sn_live sn) G i \<longleftrightarrow> (\<exists>slot \<in> members sn i. P slot)"
  using all unfolding any_in_def near_in_def members_eq[OF ok, of i] by auto

lemma any_in_pass:
  "any_in sn recursive P ys (insert i G) p \<longleftrightarrow> any_in sn recursive P ys G p \<or> i \<in> children sn p \<and> (\<exists>slot \<in> members sn i. P slot)"
  by (auto simp: any_in_def)

lemma lift_step:
  assumes ok: "snapshot_ok sn" and h: "h = built sn" and i: "i < length (directories sn)" "i \<notin> G" "children sn i \<subseteq> G"
  shows "lift_marks h i (marks sn coverage True tr (sn_live sn) G) = fine (Some (marks sn coverage True tr (sn_live sn) (insert i G)))"
proof -
  let ?p = "directory_path sn i" and ?n = "length (directories sn)"
  let ?yes = "\<lambda>slot. tr slot = Inr (Some True)" and ?unknown = "\<lambda>slot. tr slot = Inr None"
  have slot: "directories sn ! i \<in> set (sn_live sn)" using directory_live[OF i(1)] by simp
  have parent: "parent_of h i = Some (parent_index sn (directories sn ! i))"
    using i(1) slot snapshot_okD(2)[OF ok slot] by (simp add: h built_def parent_of_def nth_opt_def)
  have index: "parent_index sn (directories sn ! i) = (case up sn ?p of Some i \<Rightarrow> i | None \<Rightarrow> no_parent)"
    by (simp add: parent_index_def directory_path_def)
  note full = any_in_members[OF ok i(3)]
  show ?thesis
  proof (cases "up sn ?p")
    case None
    then have "i \<notin> children sn p" for p by (simp add: children_def)
    then have "any_in sn True P (sn_live sn) (insert i G) = any_in sn True P (sn_live sn) G" for P
      by (intro ext) (simp add: any_in_pass)
    then show ?thesis by (simp add: lift_marks_def parent index None marks_def)
  next
    case (Some p)
    have p: "p < ?n" "p \<noteq> no_parent" using up_less[OF ok Some] by simp_all
    have child: "i \<in> children sn q \<longleftrightarrow> q = p" for q using Some i(1) by (auto simp: children_def)
    have above: "uncertain coverage ?p \<Longrightarrow> uncertain coverage (directory_path sn p)"
      using up_Some(1)[OF ok Some] uncertain_above by (auto simp: inside_def)
    obtain pos unk where m: "marks sn coverage True tr (sn_live sn) G = (pos, unk)" by fastforce
    then have pu: "pos = map (any_in sn True ?yes (sn_live sn) G) [0..<?n]"
      "unk = map (\<lambda>i. uncertain coverage (directory_path sn i) \<or> any_in sn True ?unknown (sn_live sn) G i) [0..<?n]"
      by (auto simp: marks_def)
    have "pos[p := pos ! p \<or> pos ! i] = map (any_in sn True ?yes (sn_live sn) (insert i G)) [0..<?n]"
      unfolding pu using p i(1) by (intro nth_equalityI) (auto simp: nth_list_update any_in_pass child full)
    moreover have "unk[p := unk ! p \<or> unk ! i] =
        map (\<lambda>q. uncertain coverage (directory_path sn q) \<or> any_in sn True ?unknown (sn_live sn) (insert i G) q) [0..<?n]"
      unfolding pu using p i(1) above by (intro nth_equalityI) (auto simp: nth_list_update any_in_pass child full)
    ultimately show ?thesis unfolding m using p i(1) pu by (simp add: lift_marks_def parent index Some marks_def)
  qed
qed

text \<open>The rows a relationship of the directory \<open>i\<close> ranges over, and its truth.\<close>

definition scope :: "snapshot \<Rightarrow> bool \<Rightarrow> nat \<Rightarrow> nat set" where
  "scope sn recursive i = (if recursive then members sn i else direct_in sn (sn_live sn) i)"

definition directory_truth :: "snapshot \<Rightarrow> json \<Rightarrow> bool \<Rightarrow> (nat \<Rightarrow> bool option result) \<Rightarrow> nat \<Rightarrow> bool option" where
  "directory_truth sn coverage recursive tr i =
    (if \<exists>slot \<in> scope sn recursive i. tr slot = Inr (Some True) then Some True
     else if uncertain coverage (directory_path sn i) \<or> (\<exists>slot \<in> scope sn recursive i. tr slot = Inr None) then None
     else Some False)"

text \<open>A predicate holds of the listed directories, and of no other live row.\<close>

definition decides :: "snapshot \<Rightarrow> (nat \<Rightarrow> bool option) \<Rightarrow> resolved_predicate \<Rightarrow> bool" where
  "decides sn v r \<longleftrightarrow> (\<forall>slot \<in> set (sn_live sn). rp_truth r (row sn slot) =
      (if is_folder (row sn slot) then v slot else Some False))"

lemma predicate_of_ids:
  assumes "\<forall>(slot, v) \<in> set svs. slot < length (sn_entries sn)"
  shows "\<exists>r. predicate_of sn svs = Some r \<and>
    rp_yes r = {row_id (row sn slot) | slot. (slot, Some True) \<in> set svs} \<and>
    rp_unknown r = {row_id (row sn slot) | slot. (slot, None) \<in> set svs}"
  using assms
proof (induction svs)
  case (Cons sv svs)
  obtain slot v where sv: "sv = (slot, v)" by fastforce
  obtain r where r: "predicate_of sn svs = Some r" "rp_yes r = {row_id (row sn slot) | slot. (slot, Some True) \<in> set svs}"
    "rp_unknown r = {row_id (row sn slot) | slot. (slot, None) \<in> set svs}" using Cons by auto
  have f: "nth_opt (sn_entries sn) slot = Some (row sn slot)" using Cons.prems by (simp add: sv nth_opt_def row_def)
  have "v = Some True \<or> v = Some False \<or> v = None" by (cases v) auto
  then show ?case using r(1) by (elim disjE) (auto simp: sv f r(2,3))
qed simp

lemma predicate_of_decides:
  assumes ok: "snapshot_ok sn" and len: "length vs = length (directories sn)"
    and vs: "\<And>i. i < length (directories sn) \<Longrightarrow> vs ! i = v (directories sn ! i)"
  shows "\<exists>r. predicate_of sn (zip (directories sn) vs) = Some r \<and> decides sn v r"
proof -
  let ?svs = "zip (directories sn) vs"
  have svs: "(slot, x) \<in> set ?svs \<longleftrightarrow> slot \<in> set (directories sn) \<and> x = v slot" for slot x
    using len vs by (auto simp: in_set_zip in_set_conv_nth)
  have live: "slot \<in> set (sn_live sn)" if "slot \<in> set (directories sn)" for slot using that by (simp add: directories_def)
  have "\<forall>(slot, x) \<in> set ?svs. slot < length (sn_entries sn)"
    using svs live snapshot_okD(2)[OF ok] by auto
  then obtain r where r: "predicate_of sn ?svs = Some r"
    "rp_yes r = {row_id (row sn slot) | slot. (slot, Some True) \<in> set ?svs}"
    "rp_unknown r = {row_id (row sn slot) | slot. (slot, None) \<in> set ?svs}" using predicate_of_ids by blast
  have "rp_truth r (row sn slot) = (if is_folder (row sn slot) then v slot else Some False)" if slot: "slot \<in> set (sn_live sn)" for slot
  proof -
    have same: "row_id (row sn s) = row_id (row sn slot) \<Longrightarrow> s \<in> set (directories sn) \<Longrightarrow> s = slot" for s
      using inj_onD[OF snapshot_okD(4)[OF ok], of s slot] slot live by blast
    have dir: "slot \<in> set (directories sn) \<longleftrightarrow> is_folder (row sn slot)" using slot by (simp add: directories_def)
    have yes: "row_id (row sn slot) \<in> rp_yes r \<longleftrightarrow> is_folder (row sn slot) \<and> v slot = Some True"
      unfolding r(2) mem_Collect_eq svs using same dir by metis
    have unknown: "row_id (row sn slot) \<in> rp_unknown r \<longleftrightarrow> is_folder (row sn slot) \<and> v slot = None"
      unfolding r(3) mem_Collect_eq svs using same dir by metis
    have "v slot = Some True \<or> v slot = Some False \<or> v slot = None" by (cases "v slot") auto
    then show ?thesis using yes unknown by (auto simp: rp_truth_def row_id_def Let_def)
  qed
  then show ?thesis using r(1) by (auto simp: decides_def)
qed

lemma resolve_related_decides:
  assumes ok: "snapshot_ok sn" and stop: "\<And>j. cancelled j \<Longrightarrow> E query_cancelled"
    and errors: "\<And>slot e. slot \<in> set (sn_live sn) \<Longrightarrow> content (row sn slot) = Inl e \<Longrightarrow> E e"
      "\<And>slot e c. slot \<in> set (sn_live sn) \<Longrightarrow> indexed_truth cr (row sn slot) c inner = Inl e \<Longrightarrow> E e"
    and tr: "\<And>slot. tr slot = indexed_truth cr (row sn slot) (row_text sn content slot) inner"
    and v: "\<And>i. i < length (directories sn) \<Longrightarrow> v (directories sn ! i) = directory_truth sn coverage recursive tr i"
  shows "yields (resolve_related cancelled sn (built sn) coverage cr content recursive k inner) E (\<lambda>(k', r). decides sn v r)"
proof -
  let ?h = "built sn" and ?n = "length (directories sn)"
  let ?us = "map (\<lambda>slot. uncertain coverage (row_path sn slot)) (directories sn)"
  have hs: "h_directory_slots ?h = directories sn" "h_postorder ?h = postorder sn" by (simp_all add: built_def)
  have inc: "yields (incomplete cancelled k sn ?h coverage) E (\<lambda>(k', us). us = ?us)" for k
    by (rule incomplete_uncertain[OF ok hs(1)]) (rule stop)
  have start: "(replicate ?n False, ?us) = marks sn coverage recursive tr [] {}"
    by (auto simp: marks_def any_in_def near_in_def nearest_in_def direct_in_def directory_path_def
        split: if_splits intro!: nth_equalityI)
  have mark: "yields (each cancelled (mark sn ?h cr content recursive inner (requires_content inner)) (sn_live sn)
      (k, marks sn coverage recursive tr [] {})) E (\<lambda>(k', m). k' = k + length (sn_live sn) \<and> m = marks sn coverage recursive tr (sn_live sn) {})" for k
  proof (rule yields_each[where I = "\<lambda>ys m. m = marks sn coverage recursive tr ys {}"])
    fix ys slot zs m assume "sn_live sn = ys @ slot # zs" and m: "m = marks sn coverage recursive tr ys {}"
    then have live: "slot \<in> set (sn_live sn)" by simp
    show "yields (mark sn ?h cr content recursive inner (requires_content inner) slot m) E
        (\<lambda>m. m = marks sn coverage recursive tr (ys @ [slot]) {})"
      unfolding m by (rule mark_step[OF ok live refl hs(1) tr]) (use errors live in blast)+
  qed (simp_all add: stop)
  let ?G = "if recursive then set (postorder sn) else {}"
  have lift: "yields (if recursive then each cancelled (lift_marks ?h) (h_postorder ?h) (k, marks sn coverage recursive tr (sn_live sn) {})
      else Some (Inr (k, marks sn coverage recursive tr (sn_live sn) {}))) E
      (\<lambda>(k', m). m = marks sn coverage recursive tr (sn_live sn) ?G)" for k
  proof (cases recursive)
    case True
    have "yields (each cancelled (lift_marks ?h) (postorder sn) (k, marks sn coverage True tr (sn_live sn) {})) E
      (\<lambda>(k', m). k' = k + length (postorder sn) \<and> m = marks sn coverage True tr (sn_live sn) (set (postorder sn)))"
    proof (rule yields_each[where I = "\<lambda>ys m. m = marks sn coverage True tr (sn_live sn) (set ys)"])
      fix ys i zs m assume o: "postorder sn = ys @ i # zs" and m: "m = marks sn coverage True tr (sn_live sn) (set ys)"
      from postorder_children[OF ok o[unfolded postorder_def]]
      show "yields (lift_marks ?h i m) E (\<lambda>m. m = marks sn coverage True tr (sn_live sn) (set (ys @ [i])))"
        using lift_step[OF ok refl, of i "set ys"] by (simp add: m)
    qed (simp_all add: stop)
    then show ?thesis using True hs(2) by (auto elim: yields_mono)
  qed simp
  have any: "any_in sn recursive P (sn_live sn) ?G i \<longleftrightarrow> (\<exists>slot \<in> scope sn recursive i. P slot)" if "i < ?n" for P i
  proof (cases recursive)
    case True
    have "children sn i \<subseteq> set (postorder sn)" by (auto simp: children_def set_postorder)
    then show ?thesis using any_in_members[OF ok] True by (simp add: scope_def)
  qed (simp add: any_in_def near_in_def scope_def)
  obtain pos unk where m: "marks sn coverage recursive tr (sn_live sn) ?G = (pos, unk)" by fastforce
  let ?vs = "map2 (\<lambda>p u. if p then Some True else if u then None else Some False) pos unk"
  have pu: "pos = map (any_in sn recursive (\<lambda>slot. tr slot = Inr (Some True)) (sn_live sn) ?G) [0..<?n]"
    "unk = map (\<lambda>i. uncertain coverage (directory_path sn i) \<or> any_in sn recursive (\<lambda>slot. tr slot = Inr None) (sn_live sn) ?G i) [0..<?n]"
    using m by (auto simp: marks_def)
  have lens: "length pos = ?n" "length unk = ?n" by (simp_all add: pu)
  have vs: "?vs ! i = v (directories sn ! i)" if "i < ?n" for i
    using that any[OF that] by (simp add: v directory_truth_def lens) (simp add: pu)
  obtain r where r: "predicate_of sn (zip (directories sn) ?vs) = Some r" "decides sn v r"
    using predicate_of_decides[OF ok, of ?vs v] vs lens by auto
  show ?thesis
    unfolding resolve_related_def
  proof (rule yields_bind[OF inc], goal_cases)
    case (1 a)
    then obtain k1 where a: "a = (k1, ?us)" by (cases a) auto
    show ?case unfolding a prod.case hs start
    proof (rule yields_bind[OF mark], goal_cases)
      case (1 b)
      then obtain k2 where b: "b = (k2, marks sn coverage recursive tr (sn_live sn) {})" by (cases b) auto
      show ?case unfolding b prod.case
      proof (rule yields_bind[OF lift[unfolded hs]], goal_cases)
        case (1 c)
        then obtain k3 where c: "c = (k3, pos, unk)" using m by (cases c) auto
        show ?case using r lens by (simp add: c)
      qed
    qed
  qed
qed

section \<open>Relationships by quantification\<close>

text \<open>
  The reference: a relationship ranges over the live rows whose path has the folder's path as its parent, or
  anywhere above it; folder metrics count these rows. Nothing of the tree is mentioned.
\<close>

definition below :: "snapshot \<Rightarrow> bool \<Rightarrow> nat \<Rightarrow> nat set" where
  "below sn recursive slot = {s \<in> set (sn_live sn).
    if recursive then row_path sn slot \<in> set (above (row_path sn s)) else path_parent (row_path sn s) = Some (row_path sn slot)}"

definition relation_truth :: "snapshot \<Rightarrow> json \<Rightarrow> bool \<Rightarrow> (nat \<Rightarrow> bool option result) \<Rightarrow> nat \<Rightarrow> bool option" where
  "relation_truth sn coverage recursive tr slot =
    (if \<not> is_folder (row sn slot) then Some False
     else if \<exists>s \<in> below sn recursive slot. tr s = Inr (Some True) then Some True
     else if uncertain coverage (row_path sn slot) \<or> (\<exists>s \<in> below sn recursive slot. tr s = Inr None) then None
     else Some False)"

definition folder_metric :: "snapshot \<Rightarrow> str \<Rightarrow> nat \<Rightarrow> nat option" where
  "folder_metric sn fld slot =
    (if fld = lit ''foldersize'' then capped (\<Sum>s \<in> below sn True slot. bytes_in sn s)
     else if fld = lit ''childcount'' then Some (card (below sn False slot))
     else if fld = lit ''childfilecount'' then Some (card {s \<in> below sn False slot. \<not> is_folder (row sn s)})
     else if fld = lit ''childfoldercount'' then Some (card {s \<in> below sn False slot. is_folder (row sn s)})
     else if fld = lit ''descendantcount'' then Some (card (below sn True slot))
     else if fld = lit ''descendantfilecount'' then Some (card {s \<in> below sn True slot. \<not> is_folder (row sn s)})
     else Some (card {s \<in> below sn True slot. is_folder (row sn s)}))"

definition metric_truth :: "snapshot \<Rightarrow> json \<Rightarrow> query_term \<Rightarrow> str \<Rightarrow> bool \<Rightarrow> nat \<Rightarrow> bool option" where
  "metric_truth sn coverage t fld is_unknown slot =
    (let value = (if uncertain coverage (row_path sn slot) then None
        else map_option (\<lambda>n. f64_of_int (int n)) (folder_metric sn fld slot))
     in if \<not> is_folder (row sn slot) then Some False
        else if is_unknown \<or> value \<noteq> None then Some (matches_numeric_value t value) else None)"

fun meaning :: "snapshot \<Rightarrow> json \<Rightarrow> crates \<Rightarrow> (file_entry \<Rightarrow> str option result) \<Rightarrow> query \<Rightarrow> nat \<Rightarrow> str option \<Rightarrow> bool option result" where
  "meaning sn coverage cr content (QAnd qs) slot c = truth_loop (\<lambda>q. meaning sn coverage cr content q slot c) False False qs"
| "meaning sn coverage cr content (QOr qs) slot c = truth_loop (\<lambda>q. meaning sn coverage cr content q slot c) True False qs"
| "meaning sn coverage cr content (QNot q) slot c =
     bind_result (meaning sn coverage cr content q slot c) (\<lambda>v. Inr (map_option (\<lambda>b. \<not> b) v))"
| "meaning sn coverage cr content QAll slot c = Inr (Some True)"
| "meaning sn coverage cr content (QTerm t) slot c =
     (case t of
        Related recursive inner \<Rightarrow>
          Inr (relation_truth sn coverage recursive (\<lambda>s. meaning sn coverage cr content inner s (row_text sn content s)) slot)
      | Number fld _ _ _ _ _ \<Rightarrow>
          (if is_metric fld then Inr (metric_truth sn coverage t fld False slot) else indexed_term cr (row sn slot) c t)
      | Unknown fld _ \<Rightarrow>
          (if is_metric fld then Inr (metric_truth sn coverage t fld True slot) else indexed_term cr (row sn slot) c t)
      | _ \<Rightarrow> indexed_term cr (row sn slot) c t)"

lemma scope_below: "i < length (directories sn) \<Longrightarrow> scope sn recursive i = below sn recursive (directories sn ! i)"
  by (auto simp: scope_def below_def members_def direct_in_def inside_def directory_path_def)

lemma directory_relation:
  "i < length (directories sn) \<Longrightarrow> relation_truth sn coverage recursive tr (directories sn ! i) = directory_truth sn coverage recursive tr i"
  using directory_live[of i sn] by (simp add: relation_truth_def directory_truth_def scope_below directory_path_def)

lemma card_by_sum:
  assumes "finite A"
  shows "card {s \<in> A. \<not> is_folder (row sn s)} = (\<Sum>s \<in> A. files_in sn s)"
    "card {s \<in> A. is_folder (row sn s)} = (\<Sum>s \<in> A. folders_in sn s)"
    "card A = (\<Sum>s \<in> A. files_in sn s) + (\<Sum>s \<in> A. folders_in sn s)"
proof -
  show "card {s \<in> A. \<not> is_folder (row sn s)} = (\<Sum>s \<in> A. files_in sn s)"
    using sum.inter_filter[OF assms, of "\<lambda>_. 1 :: nat" "\<lambda>s. \<not> is_folder (row sn s)"] by (simp add: files_in_def) (rule sum.cong; simp)
  show "card {s \<in> A. is_folder (row sn s)} = (\<Sum>s \<in> A. folders_in sn s)"
    using sum.inter_filter[OF assms, of "\<lambda>_. 1 :: nat" "\<lambda>s. is_folder (row sn s)"] by (simp add: folders_in_def)
  have "(\<Sum>s \<in> A. files_in sn s) + (\<Sum>s \<in> A. folders_in sn s) = (\<Sum>s \<in> A. 1)"
    unfolding sum.distrib[symmetric] by (rule sum.cong) (simp_all add: files_in_def folders_in_def)
  then show "card A = (\<Sum>s \<in> A. files_in sn s) + (\<Sum>s \<in> A. folders_in sn s)" by simp
qed

lemma built_lists:
  assumes ok: "snapshot_ok sn" and i: "i < length (directories sn)"
  shows "nth_opt (h_own_files (built sn)) i = Some (\<Sum>s \<in> below sn False (directories sn ! i). files_in sn s)"
    "nth_opt (h_own_folders (built sn)) i = Some (\<Sum>s \<in> below sn False (directories sn ! i). folders_in sn s)"
    "nth_opt (h_all_files (built sn)) i = Some (\<Sum>s \<in> below sn True (directories sn ! i). files_in sn s)"
    "nth_opt (h_all_folders (built sn)) i = Some (\<Sum>s \<in> below sn True (directories sn ! i). folders_in sn s)"
    "nth_opt (h_sizes (built sn)) i = Some (capped (\<Sum>s \<in> below sn True (directories sn ! i). bytes_in sn s))"
proof -
  have c: "children sn i \<subseteq> {0..<length (directories sn)}" by (auto simp: children_def)
  note t = total_in_all[OF ok c]
  note sc = scope_below[OF i, of True] scope_below[OF i, of False]
  show "nth_opt (h_own_files (built sn)) i = Some (\<Sum>s \<in> below sn False (directories sn ! i). files_in sn s)"
    "nth_opt (h_own_folders (built sn)) i = Some (\<Sum>s \<in> below sn False (directories sn ! i). folders_in sn s)"
    "nth_opt (h_all_files (built sn)) i = Some (\<Sum>s \<in> below sn True (directories sn ! i). files_in sn s)"
    "nth_opt (h_all_folders (built sn)) i = Some (\<Sum>s \<in> below sn True (directories sn ! i). folders_in sn s)"
    "nth_opt (h_sizes (built sn)) i = Some (capped (\<Sum>s \<in> below sn True (directories sn ! i). bytes_in sn s))"
    using i by (simp_all add: built_def own_in_def t sc[symmetric] scope_def)
qed

lemma finite_below [simp]: "finite (below sn recursive slot)"
  by (simp add: below_def)

lemma lit_eq: "lit a = lit b \<longleftrightarrow> a = b"
  by (auto simp: lit_def inj_map_eq_map inj_of_char)

lemma metric_names:
  "is_metric fld \<longleftrightarrow> fld = lit ''foldersize'' \<or> fld = lit ''childcount'' \<or> fld = lit ''childfilecount'' \<or>
    fld = lit ''childfoldercount'' \<or> fld = lit ''descendantcount'' \<or> fld = lit ''descendantfilecount'' \<or>
    fld = lit ''descendantfoldercount''"
  by (auto simp: is_metric_def)

lemma metric_value_built:
  assumes ok: "snapshot_ok sn" and i: "i < length (directories sn)" and fld: "is_metric fld"
  shows "metric_value (built sn) fld i = Some (folder_metric sn fld (directories sn ! i))"
proof -
  note lists = built_lists[OF ok i] and cards = card_by_sum[OF finite_below, of sn]
  show ?thesis
    using fld unfolding metric_names
    by (elim disjE) (simp_all add: metric_value_def folder_metric_def lit_eq plus_at_def lists cards(1,2) cards(3)[symmetric])
qed

lemma resolve_metric_decides:
  assumes ok: "snapshot_ok sn" and stop: "\<And>j. cancelled j \<Longrightarrow> E query_cancelled" and fld: "is_metric fld"
  shows "yields (resolve_metric cancelled sn (built sn) coverage t fld is_unknown k) E
    (\<lambda>(k', r). decides sn (metric_truth sn coverage t fld is_unknown) r)"
proof -
  let ?n = "length (directories sn)" and ?us = "map (\<lambda>slot. uncertain coverage (row_path sn slot)) (directories sn)"
  let ?v = "\<lambda>i. metric_truth sn coverage t fld is_unknown (directories sn ! i)"
  have hs: "h_directory_slots (built sn) = directories sn" by (simp add: built_def)
  have inc: "yields (incomplete cancelled k sn (built sn) coverage) E (\<lambda>(k', us). us = ?us)"
    by (rule incomplete_uncertain[OF ok hs]) (rule stop)
  have step: "yields (each cancelled (metric_step (built sn) ?us t fld is_unknown) [0..<?n] (k, [])) E
      (\<lambda>(k', vs). k' = k + length [0..<?n] \<and> vs = map ?v [0..<?n])" for k
  proof (rule yields_each[where I = "\<lambda>ys vs. vs = map ?v ys"])
    fix ys i zs vs assume split: "[0..<?n] = ys @ i # zs" and vs: "vs = map ?v ys"
    have "i \<in> set [0..<?n]" unfolding split by simp
    then have i: "i < ?n" by simp
    then show "yields (metric_step (built sn) ?us t fld is_unknown i vs) E (\<lambda>vs. vs = map ?v (ys @ [i]))"
      using metric_value_built[OF ok i fld] directory_live[OF i]
      by (simp add: metric_step_def vs nth_opt_def[of ?us] metric_truth_def Let_def)
  qed (simp_all add: stop)
  obtain r where r: "predicate_of sn (zip (directories sn) (map ?v [0..<?n])) = Some r"
    "decides sn (metric_truth sn coverage t fld is_unknown) r"
    using predicate_of_decides[OF ok, of "map ?v [0..<?n]" "metric_truth sn coverage t fld is_unknown"] by auto
  show ?thesis
    unfolding resolve_metric_def
  proof (rule yields_bind[OF inc], goal_cases)
    case (1 a)
    then obtain k1 where a: "a = (k1, ?us)" by (cases a) auto
    show ?case unfolding a prod.case hs
    proof (rule yields_bind[OF step], goal_cases)
      case (1 b)
      then obtain k2 where b: "b = (k2, map ?v [0..<?n])" by (cases b) auto
      show ?case using r by (simp add: b)
    qed
  qed
qed

text \<open>The rewritten query gives every live row the truth of the reference.\<close>

definition agrees :: "snapshot \<Rightarrow> json \<Rightarrow> crates \<Rightarrow> (file_entry \<Rightarrow> str option result) \<Rightarrow> query \<Rightarrow> query \<Rightarrow> bool" where
  "agrees sn coverage cr content q q' \<longleftrightarrow>
    (\<forall>slot \<in> set (sn_live sn). \<forall>c. indexed_truth cr (row sn slot) c q' = meaning sn coverage cr content q slot c)"

lemma truth_loop_all2:
  "list_all2 (\<lambda>q q'. ev' q' = ev q) qs qs' \<Longrightarrow> truth_loop ev' d u qs' = truth_loop ev d u qs"
proof (induction qs qs' arbitrary: u rule: list_all2_induct)
  case (Cons q qs q' qs')
  then show ?case by (cases "ev q") simp_all
qed simp

lemma agrees_all2:
  assumes "list_all2 (agrees sn coverage cr content) qs qs'" "slot \<in> set (sn_live sn)"
  shows "truth_loop (indexed_truth cr (row sn slot) c) d u qs' = truth_loop (\<lambda>q. meaning sn coverage cr content q slot c) d u qs"
  by (rule truth_loop_all2) (use assms in \<open>auto simp: agrees_def elim!: list_all2_mono\<close>)

lemma agrees_lists:
  assumes "list_all2 (agrees sn coverage cr content) qs qs'"
  shows "agrees sn coverage cr content (QAnd qs) (QAnd qs')" "agrees sn coverage cr content (QOr qs) (QOr qs')"
  by (subst agrees_def, simp add: agrees_all2[OF assms])+

lemma decided_agrees:
  assumes "decides sn v r" "\<And>slot c. slot \<in> set (sn_live sn) \<Longrightarrow>
    meaning sn coverage cr content q slot c = Inr (if is_folder (row sn slot) then v slot else Some False)"
  shows "agrees sn coverage cr content q (QTerm (Resolved r))"
  using assms by (simp add: agrees_def decides_def indexed_term_def Let_def)

text \<open>The terms of a query that are evaluated on rows, those inside relationships included.\<close>

fun deep_terms :: "query \<Rightarrow> query_term list" where
  "deep_terms QAll = []"
| "deep_terms (QAnd qs) = concat (map deep_terms qs)"
| "deep_terms (QOr qs) = concat (map deep_terms qs)"
| "deep_terms (QNot q) = deep_terms q"
| "deep_terms (QTerm t) =
    (case t of
       Related _ inner \<Rightarrow> deep_terms inner
     | Number fld _ _ _ _ _ \<Rightarrow> if is_metric fld then [] else [t]
     | Unknown fld _ \<Rightarrow> if is_metric fld then [] else [t]
     | _ \<Rightarrow> [t])"

text \<open>The errors: cancellation, those of the content index, and those of evaluating such a term on a live row.\<close>

definition failures ::
    "(nat \<Rightarrow> bool) \<Rightarrow> snapshot \<Rightarrow> crates \<Rightarrow> (file_entry \<Rightarrow> str option result) \<Rightarrow> query_term set \<Rightarrow> string \<Rightarrow> bool" where
  "failures cancelled sn cr content ts e \<longleftrightarrow> (e = query_cancelled \<and> (\<exists>j. cancelled j)) \<or>
    (\<exists>slot \<in> set (sn_live sn). content (row sn slot) = Inl e \<or> (\<exists>t \<in> ts. \<exists>c. indexed_term cr (row sn slot) c t = Inl e))"

lemma failures_stop: "cancelled j \<Longrightarrow> failures cancelled sn cr content ts query_cancelled"
  by (auto simp: failures_def)

lemma truth_loop_error: "truth_loop ev d u qs = Inl e \<Longrightarrow> \<exists>q \<in> set qs. ev q = Inl e"
proof (induction qs arbitrary: u)
  case (Cons q qs)
  then show ?case by (cases "ev q") (auto split: if_splits)
qed simp

lemma meaning_error:
  "meaning sn coverage cr content q slot c = Inl e \<Longrightarrow> \<exists>t \<in> set (deep_terms q). indexed_term cr (row sn slot) c t = Inl e"
proof (induction q rule: query_terms.induct)
  case (2 qs)
  then obtain q where "q \<in> set qs" "meaning sn coverage cr content q slot c = Inl e" by (auto dest!: truth_loop_error)
  with 2(1)[of q] show ?case by auto
next
  case (3 qs)
  then obtain q where "q \<in> set qs" "meaning sn coverage cr content q slot c = Inl e" by (auto dest!: truth_loop_error)
  with 3(1)[of q] show ?case by auto
next
  case (4 q)
  then show ?case by (cases "meaning sn coverage cr content q slot c") auto
next
  case (5 t)
  then show ?case by (cases t) (auto split: if_splits)
qed simp

lemma plain_agrees:
  "(\<And>slot c. meaning sn coverage cr content (QTerm t) slot c = indexed_term cr (row sn slot) c t) \<Longrightarrow>
   agrees sn coverage cr content (QTerm t) (QTerm t)"
  by (simp add: agrees_def)

lemma resolve_related_agrees:
  assumes ok: "snapshot_ok sn" and inner: "agrees sn coverage cr content inner inner'" and ts: "set (deep_terms inner) \<subseteq> ts"
  shows "yields (resolved p (resolve_related cancelled sn (built sn) coverage cr content recursive k inner'))
    (failures cancelled sn cr content ts) (\<lambda>(k', p, q'). agrees sn coverage cr content (QTerm (Related recursive inner)) q')"
proof -
  let ?tr = "\<lambda>slot. indexed_truth cr (row sn slot) (row_text sn content slot) inner'"
  let ?tr' = "\<lambda>slot. meaning sn coverage cr content inner slot (row_text sn content slot)"
  let ?v = "relation_truth sn coverage recursive ?tr'"
  have same: "?tr slot = ?tr' slot" if "slot \<in> set (sn_live sn)" for slot using inner that by (simp add: agrees_def)
  have v: "relation_truth sn coverage recursive ?tr slot = ?v slot" for slot
    using same by (auto simp: relation_truth_def below_def)
  have "yields (resolve_related cancelled sn (built sn) coverage cr content recursive k inner')
      (failures cancelled sn cr content ts) (\<lambda>(k', r). decides sn ?v r)"
  proof (rule resolve_related_decides[OF ok])
    show "?v (directories sn ! i) = directory_truth sn coverage recursive ?tr i" if "i < length (directories sn)" for i
      using directory_relation[OF that] v by metis
    show "failures cancelled sn cr content ts e" if "slot \<in> set (sn_live sn)" "indexed_truth cr (row sn slot) c inner' = Inl e" for slot c e
      using inner that meaning_error[of sn coverage cr content inner slot c e] ts by (auto simp: agrees_def failures_def)
  qed (auto simp: failures_def)
  then show ?thesis
    unfolding resolved_def
  proof (rule yields_bind, goal_cases)
    case (1 a)
    obtain k' r where a: "a = (k', r)" by fastforce
    have "agrees sn coverage cr content (QTerm (Related recursive inner)) (QTerm (Resolved r))"
      by (rule decided_agrees[of sn ?v]) (use 1 a in \<open>simp_all add: relation_truth_def\<close>)
    then show ?case by (simp add: a)
  qed
qed

lemma resolve_metric_agrees:
  assumes ok: "snapshot_ok sn" and fld: "is_metric fld"
    and m: "\<And>slot c. meaning sn coverage cr content (QTerm t) slot c = Inr (metric_truth sn coverage t fld is_unknown slot)"
  shows "yields (resolved p (resolve_metric cancelled sn (built sn) coverage t fld is_unknown k))
    (failures cancelled sn cr content ts) (\<lambda>(k', p, q'). agrees sn coverage cr content (QTerm t) q')"
proof -
  have "yields (resolve_metric cancelled sn (built sn) coverage t fld is_unknown k)
      (failures cancelled sn cr content ts) (\<lambda>(k', r). decides sn (metric_truth sn coverage t fld is_unknown) r)"
    by (rule resolve_metric_decides[OF ok _ fld]) (rule failures_stop)
  then show ?thesis
    unfolding resolved_def
  proof (rule yields_bind, goal_cases)
    case (1 a)
    obtain k' r where a: "a = (k', r)" by fastforce
    have "agrees sn coverage cr content (QTerm t) (QTerm (Resolved r))"
      by (rule decided_agrees[of sn "metric_truth sn coverage t fld is_unknown"])
        (use 1 a m in \<open>simp_all add: metric_truth_def Let_def\<close>)
    then show ?case by (simp add: a)
  qed
qed

lemma resolve_agrees:
  "snapshot_ok sn \<Longrightarrow> h = built sn \<Longrightarrow> set (deep_terms q) \<subseteq> ts \<Longrightarrow> yields (resolve cancelled sn h coverage cr content k q) (failures cancelled sn cr content ts)
     (\<lambda>(k', p, q'). agrees sn coverage cr content q q')"
  "snapshot_ok sn \<Longrightarrow> h = built sn \<Longrightarrow> (\<Union>q \<in> set qs. set (deep_terms q)) \<subseteq> ts \<Longrightarrow> yields (resolve_all cancelled sn h coverage cr content k qs) (failures cancelled sn cr content ts)
     (\<lambda>(k', p, qs'). list_all2 (agrees sn coverage cr content) qs qs')"
proof (induction cancelled sn h coverage cr content k q and cancelled sn h coverage cr content k qs
    rule: resolve_resolve_all.induct)
  case (1 cancelled sn h coverage cr content k qs)
  have sub: "(\<Union>q \<in> set qs. set (deep_terms q)) \<subseteq> ts" using 1(4) by auto
  show ?case
  proof (cases "cancelled k")
    case False
    show ?thesis unfolding resolve.simps if_not_P[OF False]
    proof (rule yields_bind[OF 1(1)[OF False 1(2,3) sub]], goal_cases)
      case (1 a)
      then show ?case by (cases a) (auto intro: agrees_lists)
    qed
  qed (simp add: failures_stop)
next
  case (2 cancelled sn h coverage cr content k qs)
  have sub: "(\<Union>q \<in> set qs. set (deep_terms q)) \<subseteq> ts" using 2(4) by auto
  show ?case
  proof (cases "cancelled k")
    case False
    show ?thesis unfolding resolve.simps if_not_P[OF False]
    proof (rule yields_bind[OF 2(1)[OF False 2(2,3) sub]], goal_cases)
      case (1 a)
      then show ?case by (cases a) (auto intro: agrees_lists)
    qed
  qed (simp add: failures_stop)
next
  case (3 cancelled sn h coverage cr content k q)
  have sub: "set (deep_terms q) \<subseteq> ts" using 3(4) by auto
  show ?case
  proof (cases "cancelled k")
    case False
    show ?thesis unfolding resolve.simps if_not_P[OF False]
    proof (rule yields_bind[OF 3(1)[OF False 3(2,3) sub]], goal_cases)
      case (1 a)
      then show ?case by (cases a) (auto simp: agrees_def)
    qed
  qed (simp add: failures_stop)
next
  case (4 cancelled sn h coverage cr content k)
  then show ?case by (simp add: failures_stop agrees_def)
next
  case (5 cancelled sn h coverage cr content k t)
  note ok = 5(2) and h = 5(3) and ts = 5(4)
  show ?case
  proof (cases "cancelled k")
    case False
    note go = if_not_P[OF False]
    show ?thesis
    proof (cases t)
      case (Related recursive inner)
      have sub: "set (deep_terms inner) \<subseteq> ts" using ts by (simp add: Related)
      show ?thesis unfolding resolve.simps go Related query_term.case
      proof (rule yields_bind[OF 5(1)[OF False Related ok h sub]], goal_cases)
        case (1 a)
        then show ?case using resolve_related_agrees[OF ok _ sub] by (cases a) (simp add: h)
      qed
    next
      case (Number fld low high il ih negate)
      show ?thesis
      proof (cases "is_metric fld")
        case True
        have "yields (resolved False (resolve_metric cancelled sn (built sn) coverage t fld False (k + 1)))
            (failures cancelled sn cr content ts) (\<lambda>(k', p, q'). agrees sn coverage cr content (QTerm t) q')"
          by (rule resolve_metric_agrees[OF ok True]) (simp add: Number True)
        then show ?thesis using False True by (simp add: Number h)
      qed (use False in \<open>simp add: Number plain_agrees\<close>)
    next
      case (Unknown fld negate)
      show ?thesis
      proof (cases "is_metric fld")
        case True
        have "yields (resolved False (resolve_metric cancelled sn (built sn) coverage t fld True (k + 1)))
            (failures cancelled sn cr content ts) (\<lambda>(k', p, q'). agrees sn coverage cr content (QTerm t) q')"
          by (rule resolve_metric_agrees[OF ok True]) (simp add: Unknown True)
        then show ?thesis using False True by (simp add: Unknown h)
      qed (use False in \<open>simp add: Unknown plain_agrees\<close>)
    qed (use False in \<open>simp_all add: plain_agrees\<close>)
  qed (simp add: failures_stop)
next
  case (6 cancelled sn h coverage cr content k)
  then show ?case by simp
next
  case (7 cancelled sn h coverage cr content k q qs)
  have sub: "set (deep_terms q) \<subseteq> ts" "(\<Union>q \<in> set qs. set (deep_terms q)) \<subseteq> ts" using 7(5) by auto
  show ?case unfolding resolve_all.simps
  proof (rule yields_bind[OF 7(1)[OF 7(3,4) sub(1)]], goal_cases)
    case (1 a)
    obtain k1 p q' where a: "a = (k1, p, q')" by (cases a) auto
    have rest: "yields (resolve_all cancelled sn h coverage cr content k1 qs) (failures cancelled sn cr content ts)
        (\<lambda>(k', p, qs'). list_all2 (agrees sn coverage cr content) qs qs')"
      by (rule 7(2)[OF 7(3,4) sub(2)])
    show ?case unfolding a prod.case
    proof (rule yields_bind[OF rest], goal_cases)
      case (1 b)
      then show ?case using \<open>case a of (k', p, q') \<Rightarrow> agrees sn coverage cr content q q'\<close> by (cases b) (simp add: a)
    qed
  qed
qed

section \<open>Reports on folders\<close>

definition expected_info :: "snapshot \<Rightarrow> json \<Rightarrow> str \<Rightarrow> folder_info" where
  "expected_info sn coverage p =
    (case List.find (\<lambda>slot. is_folder (row sn slot) \<and> row_path sn slot = p) (sn_live sn) of
       None \<Rightarrow> NotIndexed p
     | Some slot \<Rightarrow>
         let size = folder_metric sn (lit ''foldersize'') slot; whole = (\<not> uncertain coverage p \<and> size \<noteq> None)
         in FolderInfo p whole (if whole then size else None) size (card (below sn False slot)) (card (below sn True slot)))"

lemma expected_directory:
  assumes ok: "snapshot_ok sn" and i: "i < length (directories sn)"
  shows "expected_info sn coverage (directory_path sn i) =
    (let size = folder_metric sn (lit ''foldersize'') (directories sn ! i);
         whole = (\<not> uncertain coverage (directory_path sn i) \<and> size \<noteq> None)
     in FolderInfo (directory_path sn i) whole (if whole then size else None) size
       (card (below sn False (directories sn ! i))) (card (below sn True (directories sn ! i))))"
proof -
  let ?P = "\<lambda>slot. is_folder (row sn slot) \<and> row_path sn slot = directory_path sn i"
  have live: "directories sn ! i \<in> set (sn_live sn)" "?P (directories sn ! i)"
    using directory_live[OF i] by (simp_all add: directory_path_def)
  then have "\<exists>slot. slot \<in> set (sn_live sn) \<and> ?P slot" by blast
  then have "List.find ?P (sn_live sn) \<noteq> None" unfolding find_None_iff by simp
  then obtain slot where slot: "List.find ?P (sn_live sn) = Some slot" by auto
  then have "slot \<in> set (sn_live sn)" "?P slot" by (auto simp: find_Some_iff)
  then have "slot = directories sn ! i"
    using inj_onD[OF snapshot_okD(3)[OF ok], of slot "directories sn ! i"] live by metis
  then show ?thesis using slot unfolding expected_info_def by simp
qed

lemma expected_none:
  "p \<notin> directory_path sn ` {0..<length (directories sn)} \<Longrightarrow> expected_info sn coverage p = NotIndexed p"
proof -
  assume p: "p \<notin> directory_path sn ` {0..<length (directories sn)}"
  have "\<not> (is_folder (row sn slot) \<and> row_path sn slot = p)" if "slot \<in> set (sn_live sn)" for slot
  proof
    assume "is_folder (row sn slot) \<and> row_path sn slot = p"
    moreover from this that have "slot \<in> set (directories sn)" by (simp add: directories_def)
    ultimately show False using p by (auto simp: in_set_conv_nth directory_path_def)
  qed
  then have "List.find (\<lambda>slot. is_folder (row sn slot) \<and> row_path sn slot = p) (sn_live sn) = None"
    by (simp add: find_None_iff)
  then show ?thesis by (simp add: expected_info_def)
qed

lemma info_expected:
  assumes ok: "snapshot_ok sn" and stop: "\<And>j. cancelled j \<Longrightarrow> E query_cancelled"
  shows "yields (info cancelled k sn (built sn) coverage paths) E (\<lambda>rows. rows = map (expected_info sn coverage) paths)"
proof -
  let ?n = "length (directories sn)" and ?us = "map (\<lambda>slot. uncertain coverage (row_path sn slot)) (directories sn)"
  let ?found = "\<lambda>ys p. if p \<in> set paths \<and> p \<in> directory_path sn ` fst ` set ys then Some (expected_info sn coverage p) else None"
  have hs: "h_directory_slots (built sn) = directories sn" by (simp add: built_def)
  have inc: "yields (incomplete cancelled k sn (built sn) coverage) E (\<lambda>(k', us). us = ?us)"
    by (rule incomplete_uncertain[OF ok hs]) (rule stop)
  let ?zs = "zip [0..<?n] (directories sn)"
  have step: "yields (each cancelled (folder_row sn (built sn) ?us (set paths)) ?zs (k, Map.empty)) E
      (\<lambda>(k', found). k' = k + length ?zs \<and> found = ?found ?zs)" for k
  proof (rule yields_each[where I = "\<lambda>ys found. found = ?found ys"])
    fix ys x zs found assume split: "?zs = ys @ x # zs" and found: "found = ?found ys"
    have "x \<in> set ?zs" unfolding split by simp
    then obtain i where i: "i < ?n" "x = (i, directories sn ! i)" by (auto simp: in_set_zip)
    have row: "nth_opt (sn_entries sn) (directories sn ! i) = Some (row sn (directories sn ! i))"
      using nth_opt_row[OF ok] directory_live[OF i(1)] by blast
    have pt: "path_text (row sn (directories sn ! i)) = directory_path sn i" by (simp add: directory_path_def row_path_def)
    have us: "nth_opt ?us i = Some (uncertain coverage (directory_path sn i))"
      using i(1) by (simp add: nth_opt_def directory_path_def)
    have size: "folder_metric sn (lit ''foldersize'') (directories sn ! i) = capped (\<Sum>s \<in> below sn True (directories sn ! i). bytes_in sn s)"
      by (simp add: folder_metric_def)
    have "folder_row sn (built sn) ?us (set paths) x found =
        fine (Some (if directory_path sn i \<in> set paths then found(directory_path sn i \<mapsto> expected_info sn coverage (directory_path sn i)) else found))"
      by (simp add: i(2) folder_row_def row pt us built_lists[OF ok i(1)] expected_directory[OF ok i(1)] size Let_def
          card_by_sum(3)[OF finite_below, symmetric])
    then show "yields (folder_row sn (built sn) ?us (set paths) x found) E (\<lambda>found. found = ?found (ys @ [x]))"
      by (auto simp: found i(2))
  qed (auto simp: stop)
  have all: "fst ` set ?zs = {0..<?n}" by (simp add: set_map[symmetric] del: set_map)
  show ?thesis
    unfolding info_def
  proof (rule yields_bind[OF inc], goal_cases)
    case (1 a)
    then obtain k1 where a: "a = (k1, ?us)" by (cases a) auto
    show ?case unfolding a prod.case hs
    proof (rule yields_bind[OF step], goal_cases)
      case (1 b)
      then obtain k2 where b: "b = (k2, ?found ?zs)" by (cases b) auto
      show ?case unfolding b prod.case all using expected_none by auto
    qed
  qed
qed

section \<open>A small snapshot\<close>

definition sample_snapshot :: snapshot where
  "sample_snapshot = \<lparr>sn_entries = [sample_entry\<lparr>id := 1, path := view_of_str (lit ''/r''), parent := lit ''/'', is_dir := True\<rparr>,
     sample_entry\<lparr>id := 2, path := view_of_str (lit ''/r/d''), parent := lit ''/r'', is_dir := True\<rparr>,
     sample_entry\<lparr>id := 3, path := view_of_str (lit ''/r/d/a''), parent := lit ''/r/d'', size := 5\<rparr>],
   sn_live = [0, 1, 2]\<rparr>"

definition sample_coverage :: json where
  "sample_coverage = JObject [(lit ''complete'', JBool True), (lit ''roots'', JArray [JString (lit ''/'')]), (lit ''uncovered'', JArray [])]"

lemma sample_parents:
  "path_parent (lit ''/'') = None" "path_parent (lit ''/r'') = Some (lit ''/'')" "path_parent (lit ''/r/d'') = Some (lit ''/r'')"
  "path_parent (lit ''/r/d/a'') = Some (lit ''/r/d'')"
  by code_simp+

lemma sample_above:
  "above (lit ''/'') = []" "above (lit ''/r'') = [lit ''/'']" "above (lit ''/r/d'') = [lit ''/r'', lit ''/'']"
  "above (lit ''/r/d/a'') = [lit ''/r/d'', lit ''/r'', lit ''/'']"
  by (simp_all add: above_None above_Some sample_parents)

lemma sample_rows [simp]:
  "sn_live sample_snapshot = [0, 1, 2]"
  "row_path sample_snapshot 0 = lit ''/r''" "row_path sample_snapshot (Suc 0) = lit ''/r/d''"
  "row_path sample_snapshot 2 = lit ''/r/d/a''"
  "is_folder (row sample_snapshot 0)" "is_folder (row sample_snapshot (Suc 0))" "\<not> is_folder (row sample_snapshot 2)"
  by (simp_all add: sample_snapshot_def row_path_def row_def path_text_def is_folder_def sample_entry_def view_text_def
      view_of_str_def)

lemma sample_snapshot_ok: "snapshot_ok sample_snapshot"
proof -
  have "directories sample_snapshot = [0, 1]" by (simp add: directories_def)
  moreover have "inj_on (row_path sample_snapshot) {0, Suc 0, 2}" by (simp add: lit_eq)
  moreover have "inj_on (\<lambda>slot. row_id (row sample_snapshot slot)) {0, Suc 0, 2}"
    by (simp add: row_id_def row_def sample_snapshot_def)
  moreover have "parent (row sample_snapshot 0) = lit ''/''" "parent (row sample_snapshot (Suc 0)) = lit ''/r''"
    "parent (row sample_snapshot 2) = lit ''/r/d''" "length (sn_entries sample_snapshot) = 3"
    by (simp_all add: row_def sample_snapshot_def)
  ultimately show ?thesis by (simp add: snapshot_ok_def sample_parents u32_max_def) (simp add: lit_def)
qed

lemma sample_below:
  "below sample_snapshot True 0 = {1, 2}" "below sample_snapshot False 0 = {1}"
  by (auto simp: below_def sample_above sample_parents lit_eq)

lemma sample_info: "expected_info sample_snapshot sample_coverage (lit ''/r'') = FolderInfo (lit ''/r'') True (Some 5) (Some 5) 1 2"
proof -
  have u: "\<not> uncertain sample_coverage (lit ''/r'')"
    by (simp add: uncertain_def sample_coverage_def cov_complete_def json_index_def json_texts_def List.map_filter_def
        ancestors_def sample_above lit_eq)
  have "folder_metric sample_snapshot (lit ''foldersize'') 0 = Some 5"
    by (simp add: folder_metric_def sample_below bytes_in_def capped_def u64_max_def) (simp add: row_def sample_snapshot_def)
  then show ?thesis using u by (simp add: expected_info_def Let_def sample_below)
qed

section \<open>Properties\<close>

definition stopped :: "(nat \<Rightarrow> bool) \<Rightarrow> string \<Rightarrow> bool" where
  "stopped cancelled e \<longleftrightarrow> e = query_cancelled \<and> (\<exists>j. cancelled j)"

lemma build_stopped: "snapshot_ok sn \<Longrightarrow> yields (build cancelled k sn) (stopped cancelled) (\<lambda>(k', h). h = built sn)"
  by (rule build_built) (auto simp: stopped_def)

lemma yields_value:
  "yields x E Q \<Longrightarrow> (\<And>e. \<not> E e) \<Longrightarrow> \<exists>a. x = Some (Inr a) \<and> Q a"
  by (auto simp: yields_def split: option.splits sum.splits)

text \<open>
  C35: Building the tree of a snapshot and reporting on folders never panics, and unless it is cancelled it
  reports for each path that is a live folder exactly the number of rows whose parent it is, the number of rows
  anywhere below it and the sum of the sizes of the files among them (none when it passes 64 bits), calling the
  size complete only when coverage is certain; any other path is reported as not indexed.
\<close>

theorem folder_reports_exact:
  assumes "snapshot_ok sn"
  shows "yields (build cancelled k sn) (stopped cancelled) (\<lambda>(k', h).
    yields (info cancelled k' sn h coverage paths) (stopped cancelled) (\<lambda>rows. rows = map (expected_info sn coverage) paths))"
proof (rule yields_mono[OF build_stopped[OF assms]])
  fix a :: "nat \<times> hierarchy"
  assume "case a of (k', h) \<Rightarrow> h = built sn"
  moreover have "yields (info cancelled k' sn (built sn) coverage paths) (stopped cancelled)
      (\<lambda>rows. rows = map (expected_info sn coverage) paths)" for k'
    by (rule info_expected[OF assms]) (auto simp: stopped_def)
  ultimately show "case a of (k', h) \<Rightarrow> yields (info cancelled k' sn h coverage paths) (stopped cancelled)
      (\<lambda>rows. rows = map (expected_info sn coverage) paths)" by auto
qed

theorem folder_reports_exact_witness:
  "\<exists>k h. build (\<lambda>_. False) 0 sample_snapshot = Some (Inr (k, h)) \<and>
    info (\<lambda>_. False) k sample_snapshot h sample_coverage [lit ''/r''] =
      Some (Inr [FolderInfo (lit ''/r'') True (Some 5) (Some 5) 1 2])"
proof -
  have no: "\<not> stopped (\<lambda>_. False) e" for e by (simp add: stopped_def)
  from yields_value[OF folder_reports_exact[OF sample_snapshot_ok, of "\<lambda>_. False" 0 sample_coverage "[lit ''/r'']"] no]
  obtain k h where kh: "build (\<lambda>_. False) 0 sample_snapshot = Some (Inr (k, h))"
    "yields (info (\<lambda>_. False) k sample_snapshot h sample_coverage [lit ''/r'']) (stopped (\<lambda>_. False))
       (\<lambda>rows. rows = map (expected_info sample_snapshot sample_coverage) [lit ''/r''])" by auto
  from yields_value[OF kh(2) no] kh(1) show ?thesis by (auto simp: sample_info)
qed

text \<open>
  C0: Resolving the relationship predicates of a query bottom-up over the tree never panics, and the rewritten
  query gives every live row the three-valued truth of the original by quantification: \<open>child:\<close> over the rows
  whose parent path is the folder's, \<open>descendant:\<close> over all rows below it, unknown for uncertain coverage or
  unknown members, folder metrics by counting rows. Errors are cancellation, the content index's, or a term's.
\<close>

theorem relations_resolve_by_quantification:
  assumes "snapshot_ok sn"
  shows "yields (build cancelled k sn) (stopped cancelled) (\<lambda>(k', h).
    yields (resolve cancelled sn h coverage cr content k' q) (failures cancelled sn cr content (set (deep_terms q))) (\<lambda>(k'', partial, q').
      \<forall>slot \<in> set (sn_live sn). \<forall>c. indexed_truth cr (row sn slot) c q' = meaning sn coverage cr content q slot c))"
proof (rule yields_mono[OF build_stopped[OF assms]])
  fix a :: "nat \<times> hierarchy"
  assume "case a of (k', h) \<Rightarrow> h = built sn"
  then show "case a of (k', h) \<Rightarrow> yields (resolve cancelled sn h coverage cr content k' q) (failures cancelled sn cr content (set (deep_terms q)))
      (\<lambda>(k'', partial, q'). \<forall>slot \<in> set (sn_live sn). \<forall>c.
        indexed_truth cr (row sn slot) c q' = meaning sn coverage cr content q slot c)"
    using resolve_agrees(1)[OF assms refl order_refl, unfolded agrees_def] by (cases a) simp
qed

text \<open>The folder \<open>/r\<close> has a descendant that is no folder.\<close>

theorem relations_resolve_by_quantification_witness:
  "\<exists>k h k' p q'. build (\<lambda>_. False) 0 sample_snapshot = Some (Inr (k, h)) \<and>
    resolve (\<lambda>_. False) sample_snapshot h sample_coverage plain_crates (\<lambda>_. Inr None) k
      (QTerm (Related True (QTerm (IsDir False)))) = Some (Inr (k', p, q')) \<and>
    indexed_truth plain_crates (row sample_snapshot 0) None q' = Inr (Some True)"
proof -
  let ?q = "QTerm (Related True (QTerm (IsDir False)))"
  have no: "\<not> stopped (\<lambda>_. False) e" for e by (simp add: stopped_def)
  from yields_value[OF relations_resolve_by_quantification[OF sample_snapshot_ok, of "\<lambda>_. False" 0 sample_coverage
      plain_crates "\<lambda>_. Inr None" ?q] no]
  obtain k h where kh: "build (\<lambda>_. False) 0 sample_snapshot = Some (Inr (k, h))"
    "yields (resolve (\<lambda>_. False) sample_snapshot h sample_coverage plain_crates (\<lambda>_. Inr None) k ?q)
       (failures (\<lambda>_. False) sample_snapshot plain_crates (\<lambda>_. Inr None) (set (deep_terms ?q))) (\<lambda>(k'', partial, q').
         \<forall>slot \<in> set (sn_live sample_snapshot). \<forall>c. indexed_truth plain_crates (row sample_snapshot slot) c q' =
           meaning sample_snapshot sample_coverage plain_crates (\<lambda>_. Inr None) ?q slot c)" by auto
  have fine: "\<not> failures (\<lambda>_. False) sample_snapshot plain_crates (\<lambda>_. Inr None) (set (deep_terms ?q)) e" for e
    by (simp add: failures_def indexed_term_def inner_term_def)
  from yields_value[OF kh(2) fine] obtain k' p q' where r:
    "resolve (\<lambda>_. False) sample_snapshot h sample_coverage plain_crates (\<lambda>_. Inr None) k ?q = Some (Inr (k', p, q'))"
    "indexed_truth plain_crates (row sample_snapshot 0) None q' =
      meaning sample_snapshot sample_coverage plain_crates (\<lambda>_. Inr None) ?q 0 None" by auto
  note r(2)
  also have "meaning sample_snapshot sample_coverage plain_crates (\<lambda>_. Inr None) ?q 0 None = Inr (Some True)"
    by (simp add: relation_truth_def sample_below indexed_term_def inner_term_def Let_def) (simp add: row_def sample_snapshot_def sample_entry_def)
  finally show ?thesis using kh(1) r(1) by blast
qed

end
