(* ===== verification/Text_Pool.thy ===== *)
theory Text_Pool
  imports Text "HOL-Library.Monad_Syntax"
begin

text \<open>
  The text arenas of entry blocks: references into a text by byte offset and length (\<open>TextRef\<close> and
  \<open>TextData\<close> of \<open>core/src/entry_table.rs\<close>), and \<open>core/src/text_pool.rs\<close>, which builds an arena with shared
  values and prefixes. A failed \<open>expect\<close>, \<open>assert!\<close> or slice is \<open>None\<close>.
\<close>

section \<open>References\<close>

record text_ref =
  tr_offset :: nat
  tr_length :: nat

definition default_ref :: text_ref where
  "default_ref = \<lparr>tr_offset = 0, tr_length = 0\<rparr>"

definition text_at :: "str \<Rightarrow> text_ref \<Rightarrow> str option" where
  "text_at t r = Option.bind (split_bytes t (tr_offset r))
    (\<lambda>(_, rest). map_option fst (split_bytes rest (tr_length r)))"

definition text_append :: "str \<Rightarrow> str \<Rightarrow> (str \<times> text_ref) option" where
  "text_append pool v =
    (if str_len pool \<le> u32_max \<and> str_len v \<le> u32_max \<and> str_len pool + str_len v \<le> u32_max
     then Some (pool @ v, \<lparr>tr_offset = str_len pool, tr_length = str_len v\<rparr>) else None)"

lemma text_at_iff:
  "text_at t r = Some v \<longleftrightarrow>
    (\<exists>a b. t = a @ v @ b \<and> tr_offset r = str_len a \<and> tr_length r = str_len v)"
proof
  assume "text_at t r = Some v"
  then show "\<exists>a b. t = a @ v @ b \<and> tr_offset r = str_len a \<and> tr_length r = str_len v"
    by (fastforce simp: text_at_def split: bind_splits dest!: split_bytes_append)
next
  assume "\<exists>a b. t = a @ v @ b \<and> tr_offset r = str_len a \<and> tr_length r = str_len v"
  then show "text_at t r = Some v"
    using split_bytes_complete by (auto simp: text_at_def)
qed

lemma text_at_append: "text_at t r = Some v \<Longrightarrow> text_at (t @ u) r = Some v"
  by (fastforce simp: text_at_iff)

lemma text_at_default [simp]: "text_at t default_ref = Some []"
  by (simp add: text_at_def default_ref_def)

lemma text_append_Some:
  "text_append t v = Some (t', r) \<Longrightarrow> t' = t @ v \<and> text_at t' r = Some v"
  unfolding text_append_def text_at_iff by (fastforce split: if_splits)

lemma text_append_total: "str_len t + str_len v \<le> u32_max \<Longrightarrow> text_append t v \<noteq> None"
  by (simp add: text_append_def)

lemma text_at_prefix:
  assumes "text_at t r = Some v" "starts_with v p"
  shows "text_at t \<lparr>tr_offset = tr_offset r, tr_length = str_len p\<rparr> = Some p"
  using assms unfolding text_at_iff starts_with_iff by fastforce

section \<open>The builder\<close>

record text_pool =
  tp_text :: str
  tp_refs :: "str \<rightharpoonup> text_ref"

definition empty_pool :: text_pool where
  "empty_pool = \<lparr>tp_text = [], tp_refs = Map.empty\<rparr>"

definition intern :: "text_pool \<Rightarrow> str \<Rightarrow> (text_pool \<times> text_ref) option" where
  "intern p v = (case tp_refs p v of
      Some r \<Rightarrow> Some (p, r)
    | None \<Rightarrow> map_option (\<lambda>(t, r). (\<lparr>tp_text = t, tp_refs = (tp_refs p)(v \<mapsto> r)\<rparr>, r))
        (text_append (tp_text p) v))"

definition intern_prefix ::
    "text_pool \<Rightarrow> (str \<times> text_ref) option \<Rightarrow> str \<Rightarrow> (text_pool \<times> text_ref) option" where
  "intern_prefix p previous v = (case tp_refs p v of
      Some r \<Rightarrow> Some (p, r)
    | None \<Rightarrow> (case previous of
        Some (descendant, r) \<Rightarrow>
          if starts_with descendant v then
            if str_len v \<le> u32_max then
              let r' = \<lparr>tr_offset = tr_offset r, tr_length = str_len v\<rparr>
              in Some (p\<lparr>tp_refs := (tp_refs p)(v \<mapsto> r')\<rparr>, r')
            else None
          else intern p v
      | None \<Rightarrow> intern p v))"

fun prefix_loop :: "text_pool \<Rightarrow> (str \<times> text_ref) option \<Rightarrow> str list \<Rightarrow> text_pool option" where
  "prefix_loop p previous [] = Some p"
| "prefix_loop p previous (v # vs) =
    Option.bind (intern_prefix p previous v) (\<lambda>(p', r). prefix_loop p' (Some (v, r)) vs)"

definition reverse_sorted :: "str list \<Rightarrow> str list" where
  "reverse_sorted vs = remdups_adj (sort_by (\<lambda>a b. slice_cmp (as_bytes b) (as_bytes a)) vs)"

definition intern_prefixes :: "text_pool \<Rightarrow> str list \<Rightarrow> text_pool option" where
  "intern_prefixes p vs = prefix_loop p None (reverse_sorted vs)"

definition pool_finish :: "text_pool \<Rightarrow> str" where
  "pool_finish p = tp_text p"

section \<open>Every reference reads its value\<close>

definition pool_ok :: "text_pool \<Rightarrow> bool" where
  "pool_ok p \<longleftrightarrow> (\<forall>v r. tp_refs p v = Some r \<longrightarrow> text_at (tp_text p) r = Some v)"

definition pool_extends :: "text_pool \<Rightarrow> text_pool \<Rightarrow> bool" where
  "pool_extends p q \<longleftrightarrow> (\<exists>u. tp_text q = tp_text p @ u)"

lemma pool_extends_refl [simp]: "pool_extends p p"
  by (simp add: pool_extends_def)

lemma pool_extends_trans: "pool_extends p q \<Longrightarrow> pool_extends q r \<Longrightarrow> pool_extends p r"
  by (auto simp: pool_extends_def)

lemma pool_extends_at: "pool_extends p q \<Longrightarrow> text_at (tp_text p) r = Some v \<Longrightarrow> text_at (tp_text q) r = Some v"
  by (auto simp: pool_extends_def text_at_append)

lemma pool_ok_empty [simp]: "pool_ok empty_pool"
  by (simp add: pool_ok_def empty_pool_def)

lemma intern_ok:
  assumes "pool_ok p" "intern p v = Some (q, r)"
  shows "pool_ok q \<and> pool_extends p q \<and> text_at (tp_text q) r = Some v \<and> tp_refs q = (tp_refs p)(v \<mapsto> r)"
proof (cases "tp_refs p v")
  case None
  then obtain t where t: "text_append (tp_text p) v = Some (t, r)"
    "q = \<lparr>tp_text = t, tp_refs = (tp_refs p)(v \<mapsto> r)\<rparr>"
    using assms(2) by (auto simp: intern_def)
  then show ?thesis using text_append_Some[OF t(1)] assms(1)
    by (auto simp: pool_ok_def pool_extends_def text_at_append)
next
  case (Some s)
  then have "q = p" "r = s" using assms(2) by (auto simp: intern_def)
  then show ?thesis using assms(1) Some by (auto simp: pool_ok_def)
qed

lemma intern_prefix_ok:
  assumes ok: "pool_ok p" and step: "intern_prefix p previous v = Some (q, r)"
    and prev: "\<And>d s. previous = Some (d, s) \<Longrightarrow> text_at (tp_text p) s = Some d"
  shows "pool_ok q \<and> pool_extends p q \<and> text_at (tp_text q) r = Some v \<and> tp_refs q = (tp_refs p)(v \<mapsto> r)"
proof (cases "tp_refs p v = None \<and> (\<exists>d s. previous = Some (d, s) \<and> starts_with d v)")
  case True
  then obtain d s where d: "previous = Some (d, s)" "starts_with d v" by auto
  have r: "r = \<lparr>tr_offset = tr_offset s, tr_length = str_len v\<rparr>"
    and q: "q = p\<lparr>tp_refs := (tp_refs p)(v \<mapsto> r)\<rparr>"
    using True d step by (auto simp: intern_prefix_def Let_def split: if_splits)
  have "text_at (tp_text p) r = Some v" using text_at_prefix[OF prev[OF d(1)] d(2)] r by simp
  then show ?thesis using ok q by (auto simp: pool_ok_def pool_extends_def)
next
  case False
  then have "intern p v = Some (q, r)"
    using step by (auto simp: intern_prefix_def intern_def split: option.splits if_splits)
  then show ?thesis by (rule intern_ok[OF ok])
qed

lemma prefix_loop_ok:
  "pool_ok p \<Longrightarrow> prefix_loop p previous vs = Some q \<Longrightarrow>
   (\<And>d s. previous = Some (d, s) \<Longrightarrow> text_at (tp_text p) s = Some d) \<Longrightarrow>
   pool_ok q \<and> pool_extends p q \<and> dom (tp_refs q) = dom (tp_refs p) \<union> set vs"
proof (induction p previous vs rule: prefix_loop.induct)
  case (2 p previous v vs)
  then obtain p' r where step: "intern_prefix p previous v = Some (p', r)"
    and rest: "prefix_loop p' (Some (v, r)) vs = Some q"
    by (auto split: bind_splits)
  have p': "pool_ok p'" "pool_extends p p'" "text_at (tp_text p') r = Some v" "tp_refs p' = (tp_refs p)(v \<mapsto> r)"
    using intern_prefix_ok[OF 2(2) step 2(4)] by blast+
  then show ?case using 2(1)[OF step refl p'(1) rest] pool_extends_trans by auto
qed simp

section \<open>Prefixes share the bytes of their extensions\<close>

interpretation reverse_bytes: comparator "\<lambda>a b :: str. slice_cmp (as_bytes b) (as_bytes a)"
proof unfold_locales
  show "slice_cmp (as_bytes a) (as_bytes b) = reverse_ord (slice_cmp (as_bytes b) (as_bytes a))" for a b :: str
    by (rule slice_cmp_swap)
  show "slice_cmp (as_bytes c) (as_bytes a) \<noteq> Greater"
    if "slice_cmp (as_bytes b) (as_bytes a) \<noteq> Greater" "slice_cmp (as_bytes c) (as_bytes b) \<noteq> Greater"
    for a b c :: str
    using slice_cmp_trans that by metis
qed

lemma slice_cmp_same [simp]: "slice_cmp x x = Equal"
  by (simp only: slice_cmp_Equal)

lemma prim_cmp_same [simp]: "prim_cmp x x = Equal"
  by (simp add: prim_cmp_def)

lemma remdups_adj_strict:
  assumes "sorted_wrt (\<lambda>a b. slice_cmp b a \<noteq> Greater) xs"
  shows "sorted_wrt (\<lambda>a b. slice_cmp b a = Less) (remdups_adj xs)"
  using assms
proof (induction xs rule: remdups_adj.induct)
  case (3 x y xs)
  have "slice_cmp z x = Less" if "x \<noteq> y" "z \<in> set (y # xs)" for z
  proof -
    have xy: "slice_cmp x y = Greater" using 3(3) \<open>x \<noteq> y\<close> slice_cmp_swap[of x y]
      by (cases "slice_cmp y x") auto
    have "slice_cmp z y \<noteq> Greater" using that 3(3) by auto
    then show ?thesis using xy slice_comparator.cmp_Greater_trans[of x y z] slice_cmp_swap[of z x] by simp
  qed
  then show ?case using 3 by auto
qed simp_all

lemma reverse_sorted_strict: "sorted_wrt (\<lambda>a b. slice_cmp b a = Less) (reverse_sorted vs)"
  using reverse_bytes.sorted_by_sort_by[of vs] unfolding reverse_sorted_def sorted_by_def as_bytes_cmp
  by (rule remdups_adj_strict)

lemma set_reverse_sorted [simp]: "set (reverse_sorted vs) = set vs"
  by (simp add: reverse_sorted_def)

lemma between_prefix:
  "starts_with w v \<Longrightarrow> slice_cmp v x = Less \<Longrightarrow> slice_cmp x w \<noteq> Greater \<Longrightarrow> starts_with x v"
proof (induction v x arbitrary: w rule: slice_cmp.induct)
  case (4 a v b x)
  then obtain w' where "w = a # w'" "starts_with w' v" by (auto simp: starts_with_iff)
  then show ?case using 4 by (auto simp: starts_with_iff prim_cmp_def split: if_splits)
qed (auto simp: starts_with_iff)

lemma prefix_slice_cmp: "starts_with w v \<Longrightarrow> w \<noteq> v \<Longrightarrow> slice_cmp v w = Less"
proof (induction v arbitrary: w)
  case Nil
  then show ?case by (cases w) auto
next
  case (Cons a v)
  then obtain w' where "w = a # w'" "starts_with w' v" by (auto simp: starts_with_iff)
  then show ?case using Cons by auto
qed

definition extended_in :: "str list \<Rightarrow> str \<Rightarrow> bool" where
  "extended_in vs v \<longleftrightarrow> (\<exists>w \<in> set vs. w \<noteq> v \<and> starts_with w v)"

lemma extended_in_sorted:
  assumes "sorted_wrt (\<lambda>a b. slice_cmp b a = Less) (ds @ v # rest)"
  shows "extended_in (ds @ v # rest) v \<longleftrightarrow> ds \<noteq> [] \<and> starts_with (last ds) v"
proof
  assume "extended_in (ds @ v # rest) v"
  then obtain w where w: "w \<in> set (ds @ v # rest)" "w \<noteq> v" "starts_with w v" by (auto simp: extended_in_def)
  have "slice_cmp v w = Less" using prefix_slice_cmp w by blast
  then have "w \<in> set ds" using w assms slice_cmp_swap[of v w] by (auto simp: sorted_wrt_append)
  then obtain ds' x where ds: "ds = ds' @ [x]" by (cases ds rule: rev_cases) auto
  have "slice_cmp v x = Less" "slice_cmp x w \<noteq> Greater"
    using assms \<open>w \<in> set ds\<close> by (auto simp: ds sorted_wrt_append)
  then show "ds \<noteq> [] \<and> starts_with (last ds) v" using between_prefix w(3) ds by auto
next
  assume ds: "ds \<noteq> [] \<and> starts_with (last ds) v"
  then have "slice_cmp v (last ds) = Less" using assms by (simp add: sorted_wrt_append)
  then have "last ds \<noteq> v" by auto
  then show "extended_in (ds @ v # rest) v" using ds unfolding extended_in_def by auto
qed

lemma intern_text:
  "intern p v = Some (q, r) \<Longrightarrow> tp_text q = tp_text p @ (if tp_refs p v = None then v else [])"
  by (auto simp: intern_def text_append_def split: option.splits if_splits)

lemma intern_prefix_text:
  assumes "intern_prefix p previous v = Some (q, r)"
  shows "tp_text q = tp_text p @ (if tp_refs p v = None \<and>
    \<not> (case previous of Some (d, s) \<Rightarrow> starts_with d v | None \<Rightarrow> False) then v else [])"
  using assms intern_text[of p v q r]
  by (auto simp: intern_prefix_def Let_def split: option.splits if_splits prod.splits)

lemma prefix_loop_text:
  assumes "sorted_wrt (\<lambda>a b. slice_cmp b a = Less) (ds @ vs)"
    and "prefix_loop p previous vs = Some q" "pool_ok p"
    and "map_option fst previous = (if ds = [] then None else Some (last ds))"
    and "\<And>d s. previous = Some (d, s) \<Longrightarrow> text_at (tp_text p) s = Some d"
  shows "tp_text q = tp_text p
    @ concat (filter (\<lambda>v. tp_refs p v = None \<and> \<not> extended_in (ds @ vs) v) vs)"
  using assms
proof (induction vs arbitrary: ds p previous)
  case (Cons v vs)
  obtain p' r where step: "intern_prefix p previous v = Some (p', r)"
    and rest: "prefix_loop p' (Some (v, r)) vs = Some q"
    using Cons.prems(2) by (auto split: bind_splits)
  have ok: "pool_ok p'" "text_at (tp_text p') r = Some v" "tp_refs p' = (tp_refs p)(v \<mapsto> r)"
    using intern_prefix_ok[OF Cons.prems(3) step Cons.prems(5)] by blast+
  let ?all = "ds @ v # vs"
  have fresh: "v \<notin> set vs" using Cons.prems(1) by (auto simp: sorted_wrt_append)
  have "tp_text q = tp_text p'
      @ concat (filter (\<lambda>u. tp_refs p' u = None \<and> \<not> extended_in ((ds @ [v]) @ vs) u) vs)"
    by (rule Cons.IH[OF _ rest ok(1)]) (use Cons.prems(1) ok(2) in auto)
  also have "filter (\<lambda>u. tp_refs p' u = None \<and> \<not> extended_in ((ds @ [v]) @ vs) u) vs
      = filter (\<lambda>u. tp_refs p u = None \<and> \<not> extended_in ?all u) vs"
    using fresh by (intro filter_cong) (auto simp: ok(3))
  also have "tp_text p' = tp_text p @ (if tp_refs p v = None \<and> \<not> extended_in ?all v then v else [])"
    using intern_prefix_text[OF step] extended_in_sorted[OF Cons.prems(1)] Cons.prems(4)
    by (cases previous) (auto split: if_splits)
  finally show ?case by simp
qed simp

lemma intern_prefixes_text:
  assumes "pool_ok p" "intern_prefixes p vs = Some q"
  shows "tp_text q = tp_text p
    @ concat (filter (\<lambda>v. tp_refs p v = None \<and> \<not> extended_in vs v) (reverse_sorted vs))"
  using prefix_loop_text[of "[]" "reverse_sorted vs" p None q] assms reverse_sorted_strict[of vs]
  by (simp add: intern_prefixes_def extended_in_def)

lemma intern_prefixes_ok:
  assumes "pool_ok p" "intern_prefixes p vs = Some q"
  shows "pool_ok q \<and> pool_extends p q \<and> dom (tp_refs q) = dom (tp_refs p) \<union> set vs"
  using prefix_loop_ok[of p None "reverse_sorted vs" q] assms by (simp add: intern_prefixes_def)

text \<open>The builder fails only when the arena would exceed the 32-bit offsets.\<close>

lemma intern_total: "str_len (tp_text p) + str_len v \<le> u32_max \<Longrightarrow> intern p v \<noteq> None"
  using text_append_total[of "tp_text p" v] by (auto simp: intern_def split: option.splits)

lemma intern_prefix_total:
  "str_len (tp_text p) + str_len v \<le> u32_max \<Longrightarrow> intern_prefix p previous v \<noteq> None"
  using intern_total[of p v] by (auto simp: intern_prefix_def Let_def split: option.splits)

lemma prefix_loop_total:
  "str_len (tp_text p) + sum_list (map str_len vs) \<le> u32_max \<Longrightarrow> prefix_loop p previous vs \<noteq> None"
proof (induction vs arbitrary: p previous)
  case (Cons v vs)
  obtain q r where step: "intern_prefix p previous v = Some (q, r)"
    using intern_prefix_total[of p v previous] Cons.prems by fastforce
  have "str_len (tp_text q) \<le> str_len (tp_text p) + str_len v"
    using intern_prefix_text[OF step] by (auto simp: str_len_def split: if_splits)
  then show ?case using Cons.IH[of q "Some (v, r)"] Cons.prems step by simp
qed simp

section \<open>Properties\<close>

text \<open>Interning a batch of path prefixes succeeds while the arena stays within 32-bit offsets; every value
  can then be read back through its reference, every older reference still reads what it read, and bytes
  are stored only for values that are new and are no proper prefix of another value of the batch.\<close>

lemma prefixes_share_text:
  assumes "pool_ok p" "str_len (tp_text p) + sum_list (map str_len (reverse_sorted vs)) \<le> u32_max"
  shows "\<exists>q. intern_prefixes p vs = Some q \<and> pool_ok q \<and>
    tp_text q = tp_text p
      @ concat (filter (\<lambda>v. tp_refs p v = None \<and> \<not> extended_in vs v) (reverse_sorted vs)) \<and>
    (\<forall>v \<in> set vs. \<exists>r. tp_refs q v = Some r \<and> text_at (tp_text q) r = Some v) \<and>
    (\<forall>r v. text_at (tp_text p) r = Some v \<longrightarrow> text_at (tp_text q) r = Some v)"
proof -
  obtain q where q: "intern_prefixes p vs = Some q"
    using prefix_loop_total[OF assms(2)] by (auto simp: intern_prefixes_def)
  have "\<exists>r. tp_refs q v = Some r \<and> text_at (tp_text q) r = Some v" if "v \<in> set vs" for v
  proof -
    have "v \<in> dom (tp_refs q)" using that intern_prefixes_ok[OF assms(1) q] by blast
    moreover have "pool_ok q" using intern_prefixes_ok[OF assms(1) q] by blast
    ultimately show ?thesis by (auto simp: pool_ok_def)
  qed
  then show ?thesis
    using q intern_prefixes_ok[OF assms(1) q] intern_prefixes_text[OF assms(1) q] pool_extends_at by blast
qed

end
