(* ===== verification/Derived_Cache.thy ===== *)
theory Derived_Cache
  imports Result_Order Text_Pool "HOL-Library.Multiset"
begin

text \<open>
  The byte-budgeted cache of query products, \<open>core/src/derived_cache.rs\<close>: eight shards in order of use, a
  ledger that counts every shared allocation once, and reservations of scratch buffers against the same
  budget. All mutations take the ledger's lock, so an operation is one step of the model; a lookup moves one
  entry inside its shard. Sizes of types, heap sizes of keys, addresses of shared values, clock readings and
  the hash of a key are arguments. \<open>None\<close> is a panic, an underflow of the counters included.
\<close>

section \<open>Keys, products and the ledger\<close>

datatype cache_key = PageKey str | MatchesKey str | OrderKey result_order | HierarchyKey

type_synonym owned_key = "nat \<times> cache_key"
type_synonym alloc_id = "nat \<times> nat"

text \<open>A product by what its accounting sees: its address and its measured parts.\<close>

datatype product =
  PageProduct nat nat
| MatchesProduct nat nat nat
| OrderProduct "(alloc_id \<times> nat) list"
| HierarchyProduct nat nat

record layout =
  ly_page :: nat
  ly_bitmap :: nat
  ly_usize :: nat
  ly_owned_key :: nat
  ly_entry :: nat
  ly_alloc :: nat

definition arc_counters :: "layout \<Rightarrow> nat" where
  "arc_counters ly = 2 * ly_usize ly"

fun allocations :: "layout \<Rightarrow> product \<Rightarrow> (alloc_id \<times> nat) list" where
  "allocations ly (HierarchyProduct a heap) = [((3, a), heap + arc_counters ly)]"
| "allocations ly (PageProduct a capacity) = [((0, a), ly_page ly + capacity * 4 + arc_counters ly)]"
| "allocations ly (OrderProduct as) = as"
| "allocations ly (MatchesProduct a containers payload) =
    [((2, a), ly_bitmap ly + arc_counters ly + containers * 64 + payload)]"

record cache_entry =
  ce_product :: product
  ce_allocations :: "(alloc_id \<times> nat) list"
  ce_overhead :: nat
  ce_touched :: nat

record ledger =
  lg_allocations :: "alloc_id \<rightharpoonup> nat \<times> nat"
  lg_bytes :: nat
  lg_entries :: nat

definition ledger_default :: ledger where
  "ledger_default = \<lparr>lg_allocations = Map.empty, lg_bytes = 0, lg_entries = 0\<rparr>"

definition add_allocation :: "alloc_id \<times> nat \<Rightarrow> ledger \<Rightarrow> ledger" where
  "add_allocation a l = (case a of (i, bytes) \<Rightarrow>
    (case (case lg_allocations l i of Some x \<Rightarrow> x | None \<Rightarrow> (bytes, 0)) of (recorded, references) \<Rightarrow>
      l\<lparr>lg_bytes := (if references = 0 then lg_bytes l + bytes else lg_bytes l),
        lg_allocations := (lg_allocations l)(i \<mapsto> (recorded, references + 1))\<rparr>))"

definition ledger_add :: "cache_entry \<Rightarrow> ledger \<Rightarrow> ledger" where
  "ledger_add e l = (let l' = fold add_allocation (ce_allocations e) l in
    l'\<lparr>lg_bytes := lg_bytes l' + ce_overhead e, lg_entries := lg_entries l' + 1\<rparr>)"

definition checked_sub :: "nat \<Rightarrow> nat \<Rightarrow> nat option" where
  "checked_sub a b = (if b \<le> a then Some (a - b) else None)"

definition drop_allocation :: "alloc_id \<times> nat \<Rightarrow> ledger \<Rightarrow> ledger option" where
  "drop_allocation a l = do {
    (recorded, references) \<leftarrow> lg_allocations l (fst a);
    left \<leftarrow> checked_sub references 1;
    if left = 0 then do {
      bytes \<leftarrow> checked_sub (lg_bytes l) recorded;
      Some (l\<lparr>lg_bytes := bytes, lg_allocations := (lg_allocations l)(fst a := None)\<rparr>) }
    else Some (l\<lparr>lg_allocations := (lg_allocations l)(fst a \<mapsto> (recorded, left))\<rparr>) }"

fun drop_allocations :: "(alloc_id \<times> nat) list \<Rightarrow> ledger \<Rightarrow> ledger option" where
  "drop_allocations [] l = Some l"
| "drop_allocations (a # as) l = Option.bind (drop_allocation a l) (drop_allocations as)"

definition ledger_remove :: "cache_entry \<Rightarrow> ledger \<Rightarrow> ledger option" where
  "ledger_remove e l = do {
    bytes \<leftarrow> checked_sub (lg_bytes l) (ce_overhead e);
    entries \<leftarrow> checked_sub (lg_entries l) 1;
    drop_allocations (ce_allocations e) (l\<lparr>lg_bytes := bytes, lg_entries := entries\<rparr>) }"

section \<open>The cache\<close>

type_synonym shard = "(owned_key \<times> cache_entry) list"

record cache =
  ca_shards :: "shard list"
  ca_ledger :: ledger
  ca_estimated :: nat
  ca_reserved :: nat
  ca_limit :: nat

definition shard_count :: nat where "shard_count = 8"
definition max_entries :: nat where "max_entries = 512"

definition cache_new :: "nat \<Rightarrow> cache" where
  "cache_new limit = \<lparr>ca_shards = replicate shard_count [], ca_ledger = ledger_default, ca_estimated = 0,
    ca_reserved = 0, ca_limit = limit\<rparr>"

definition without_key :: "owned_key \<Rightarrow> shard \<Rightarrow> shard" where
  "without_key k sh = filter (\<lambda>(k', _). k' \<noteq> k) sh"

definition cache_get :: "(owned_key \<Rightarrow> nat) \<Rightarrow> nat \<Rightarrow> owned_key \<Rightarrow> cache \<Rightarrow> product option \<times> cache" where
  "cache_get hash now k c =
    (let i = hash k mod shard_count; sh = ca_shards c ! i in
     case map_of sh k of
       None \<Rightarrow> (None, c)
     | Some e \<Rightarrow> (Some (ce_product e),
         c\<lparr>ca_shards := (ca_shards c)[i := without_key k sh @ [(k, e\<lparr>ce_touched := now\<rparr>)]]\<rparr>))"

text \<open>\<open>min_by_key\<close> over the oldest entries of the shards: the first of the minima.\<close>

fun fronts :: "nat \<Rightarrow> shard list \<Rightarrow> (nat \<times> nat) list" where
  "fronts i [] = []"
| "fronts i ([] # shs) = fronts (i + 1) shs"
| "fronts i (((k, e) # sh) # shs) = (i, ce_touched e) # fronts (i + 1) shs"

definition older :: "nat \<times> nat \<Rightarrow> nat \<times> nat \<Rightarrow> nat \<times> nat" where
  "older best x = (if snd x < snd best then x else best)"

definition oldest :: "shard list \<Rightarrow> nat option" where
  "oldest shs = (case fronts 0 shs of [] \<Rightarrow> None | f # fs \<Rightarrow> Some (fst (foldl older f fs)))"

definition over_budget :: "cache \<Rightarrow> bool" where
  "over_budget c \<longleftrightarrow> min u64_max (lg_bytes (ca_ledger c) + ca_reserved c) > ca_limit c
    \<or> lg_entries (ca_ledger c) > max_entries"

lemma fronts_index: "(j, x) \<in> set (fronts i shs) \<Longrightarrow> i \<le> j \<and> j < i + length shs \<and> shs ! (j - i) \<noteq> [] \<and>
    x = ce_touched (snd (hd (shs ! (j - i))))"
proof (induction i shs rule: fronts.induct)
  case (2 i shs)
  then have "Suc i \<le> j \<and> j < Suc i + length shs \<and> shs ! (j - Suc i) \<noteq> [] \<and>
      x = ce_touched (snd (hd (shs ! (j - Suc i))))" by simp
  then show ?case by (cases "j - i") (auto simp: nth_Cons Suc_diff_Suc diff_Suc split: nat.splits)
next
  case (3 i k e sh shs)
  show ?case
  proof (cases "j = i")
    case True
    with 3 show ?thesis by fastforce
  next
    case False
    then have "Suc i \<le> j \<and> j < Suc i + length shs \<and> shs ! (j - Suc i) \<noteq> [] \<and>
      x = ce_touched (snd (hd (shs ! (j - Suc i))))" using 3 by simp
    then show ?thesis by (cases "j - i") (auto simp: nth_Cons diff_Suc split: nat.splits)
  qed
qed simp

lemma foldl_older: "foldl older f fs \<in> insert f (set fs) \<and> (\<forall>x \<in> insert f (set fs). snd (foldl older f fs) \<le> snd x)"
proof (induction fs arbitrary: f)
  case (Cons g fs)
  show ?case
  proof (cases "snd g < snd f")
    case True
    then show ?thesis using Cons[of g] by (auto simp: older_def)
  next
    case False
    then show ?thesis using Cons[of f] by (auto simp: older_def)
  qed
qed simp

lemma oldest_front:
  assumes "oldest shs = Some i"
  shows "i < length shs \<and> shs ! i \<noteq> []"
    and "\<And>j x. (j, x) \<in> set (fronts 0 shs) \<Longrightarrow> ce_touched (snd (hd (shs ! i))) \<le> x"
proof -
  obtain f fs where fs: "fronts 0 shs = f # fs" and i: "i = fst (foldl older f fs)"
    using assms by (auto simp: oldest_def split: list.splits)
  obtain x where x: "foldl older f fs = (i, x)" using i by (cases "foldl older f fs") simp
  then have "(i, x) \<in> set (fronts 0 shs)" using foldl_older[of f fs] fs by simp
  from fronts_index[OF this] show "i < length shs \<and> shs ! i \<noteq> []"
    and "\<And>j y. (j, y) \<in> set (fronts 0 shs) \<Longrightarrow> ce_touched (snd (hd (shs ! i))) \<le> y"
    using foldl_older[of f fs] fs x by fastforce+
qed

lemma sum_list_replace: "i < length xs \<Longrightarrow> y < xs ! i \<Longrightarrow> sum_list (xs[i := y]) < sum_list xs" for y :: nat
  by (induction xs arbitrary: i) (auto split: nat.splits)

function evict :: "cache \<Rightarrow> cache option" where
  "evict c =
    (if over_budget c then
       (case oldest (ca_shards c) of
          None \<Rightarrow> Some c
        | Some i \<Rightarrow>
            (case ca_shards c ! i of
               [] \<Rightarrow> evict c
             | (_, e) # rest \<Rightarrow>
                 (case ledger_remove e (ca_ledger c) of
                    None \<Rightarrow> None
                  | Some l \<Rightarrow> evict (c\<lparr>ca_shards := (ca_shards c)[i := rest], ca_ledger := l\<rparr>))))
     else Some c)"
  by pat_completeness auto
termination
proof (relation "measure (\<lambda>c. sum_list (map length (ca_shards c)))", goal_cases)
  case 1
  show ?case by simp
next
  case 2
  then show ?case using oldest_front(1) by blast
next
  case 3
  then show ?case using oldest_front(1) by (fastforce simp: map_update intro!: sum_list_replace)
qed

declare evict.simps [simp del]

definition store_estimate :: "cache \<Rightarrow> cache" where
  "store_estimate c = c\<lparr>ca_estimated := lg_bytes (ca_ledger c)\<rparr>"

text \<open>
  \<open>Cache::insert\<close>: \<open>heap\<close> is the heap size of the key and \<open>capacity\<close> the capacity of the list of allocations.
\<close>

definition entry_overhead :: "layout \<Rightarrow> nat \<Rightarrow> nat \<Rightarrow> nat" where
  "entry_overhead ly heap capacity =
    2 * (ly_owned_key ly + ly_entry ly + 4 * ly_usize ly) + heap + capacity * ly_alloc ly"

definition cache_insert ::
    "layout \<Rightarrow> (owned_key \<Rightarrow> nat) \<Rightarrow> nat \<Rightarrow> nat \<Rightarrow> nat \<Rightarrow> owned_key \<Rightarrow> product \<Rightarrow> cache \<Rightarrow> cache option" where
  "cache_insert ly hash now heap capacity k p c =
    (let allocs = allocations ly p; bytes = sum_list (map snd allocs); overhead = entry_overhead ly heap capacity in
     if min u64_max (bytes + overhead) > ca_limit c then Some c
     else do {
       let i = hash k mod shard_count;
       let sh = ca_shards c ! i;
       l \<leftarrow> (case map_of sh k of Some previous \<Rightarrow> ledger_remove previous (ca_ledger c) | None \<Rightarrow> Some (ca_ledger c));
       let e = \<lparr>ce_product = p, ce_allocations = allocs, ce_overhead = overhead, ce_touched = now\<rparr>;
       c \<leftarrow> evict (c\<lparr>ca_shards := (ca_shards c)[i := without_key k sh @ [(k, e)]], ca_ledger := ledger_add e l\<rparr>);
       Some (store_estimate c) })"

fun remove_entries :: "cache_entry list \<Rightarrow> ledger \<Rightarrow> ledger option" where
  "remove_entries [] l = Some l"
| "remove_entries (e # es) l = Option.bind (ledger_remove e l) (remove_entries es)"

fun remove_from_shards :: "nat \<Rightarrow> shard list \<Rightarrow> ledger \<Rightarrow> (shard list \<times> ledger) option" where
  "remove_from_shards owner [] l = Some ([], l)"
| "remove_from_shards owner (sh # shs) l = do {
    l \<leftarrow> remove_entries (map snd (filter (\<lambda>((ow, _), _). ow = owner) sh)) l;
    (shs', l) \<leftarrow> remove_from_shards owner shs l;
    Some (filter (\<lambda>((ow, _), _). ow \<noteq> owner) sh # shs', l) }"

definition remove_owner :: "nat \<Rightarrow> cache \<Rightarrow> cache option" where
  "remove_owner owner c = do {
    (shs, l) \<leftarrow> remove_from_shards owner (ca_shards c) (ca_ledger c);
    Some (store_estimate (c\<lparr>ca_shards := shs, ca_ledger := l\<rparr>)) }"

definition orders :: "nat \<Rightarrow> cache \<Rightarrow> (result_order \<times> product) list" where
  "orders owner c = concat (map (\<lambda>sh. List.map_filter (\<lambda>((ow, k), e). case (k, ce_product e) of
      (OrderKey order, OrderProduct as) \<Rightarrow> if ow = owner then Some (order, OrderProduct as) else None
    | _ \<Rightarrow> None) sh) (ca_shards c))"

definition cache_clear :: "cache \<Rightarrow> cache" where
  "cache_clear c = c\<lparr>ca_shards := map (\<lambda>_. []) (ca_shards c), ca_ledger := ledger_default, ca_estimated := 0\<rparr>"

definition checked_add :: "nat \<Rightarrow> nat \<Rightarrow> nat option" where
  "checked_add a b = (if a + b \<le> u64_max then Some (a + b) else None)"

definition reserve_buffer :: "nat \<Rightarrow> cache \<Rightarrow> bool \<times> cache" where
  "reserve_buffer bytes c =
    (case Option.bind (checked_add (lg_bytes (ca_ledger c)) (ca_reserved c)) (\<lambda>n. checked_add n bytes) of
       None \<Rightarrow> (False, c)
     | Some n \<Rightarrow> if n > ca_limit c then (False, c)
         else (True, c\<lparr>ca_reserved := ca_reserved c + bytes\<rparr>))"

definition release_buffer :: "nat \<Rightarrow> cache \<Rightarrow> cache option" where
  "release_buffer bytes c = map_option (\<lambda>n. c\<lparr>ca_reserved := n\<rparr>) (checked_sub (ca_reserved c) bytes)"

text \<open>
  The shared cache takes a sixty-fourth of the memory, at least 64 and at most 256 MiB; the memory size is the
  answer of the system or 4 GiB.
\<close>

definition global_limit :: "nat \<Rightarrow> nat" where
  "global_limit memory = min (max (memory div 64) (64 * 1024 * 1024)) (256 * 1024 * 1024)"

definition usage :: "cache \<Rightarrow> nat \<times> nat" where
  "usage c = (ca_estimated c + ca_reserved c, ca_limit c)"

lemma global_limit_small: "global_limit memory < u64_max"
  by (simp add: global_limit_def u64_max_def)

section \<open>The typed interface\<close>

text \<open>
  The four insertions and the four lookups of \<open>DerivedCache\<close>. A lookup that finds a product of another kind
  is the panic of \<open>unreachable!\<close>: the outer \<open>None\<close>.
\<close>

datatype insertion =
  InsertPage str nat nat
| InsertMatches str nat nat nat
| InsertOrder result_order "(alloc_id \<times> nat) list"
| InsertHierarchy nat nat

fun insertion_key :: "insertion \<Rightarrow> cache_key" where
  "insertion_key (InsertPage key _ _) = PageKey key"
| "insertion_key (InsertMatches key _ _ _) = MatchesKey key"
| "insertion_key (InsertOrder key _) = OrderKey key"
| "insertion_key (InsertHierarchy _ _) = HierarchyKey"

fun insertion_product :: "insertion \<Rightarrow> product" where
  "insertion_product (InsertPage _ a n) = PageProduct a n"
| "insertion_product (InsertMatches _ a n m) = MatchesProduct a n m"
| "insertion_product (InsertOrder _ as) = OrderProduct as"
| "insertion_product (InsertHierarchy a n) = HierarchyProduct a n"

fun right_kind :: "cache_key \<Rightarrow> product \<Rightarrow> bool" where
  "right_kind (PageKey _) (PageProduct _ _) = True"
| "right_kind (MatchesKey _) (MatchesProduct _ _ _) = True"
| "right_kind (OrderKey _) (OrderProduct _) = True"
| "right_kind HierarchyKey (HierarchyProduct _ _) = True"
| "right_kind _ _ = False"

definition derived_get :: "(owned_key \<Rightarrow> nat) \<Rightarrow> nat \<Rightarrow> nat \<Rightarrow> cache_key \<Rightarrow> cache \<Rightarrow> (product option \<times> cache) option" where
  "derived_get hash now owner key c = (case cache_get hash now (owner, key) c of
      (None, c') \<Rightarrow> Some (None, c')
    | (Some p, c') \<Rightarrow> if right_kind key p then Some (Some p, c') else None)"

datatype cache_request =
  Insert nat nat nat insertion
| Get nat cache_key
| RemoveOwner nat
| Clear
| Reserve nat
| ReleaseBuffer nat

fun cache_op :: "layout \<Rightarrow> (owned_key \<Rightarrow> nat) \<Rightarrow> nat \<Rightarrow> cache_request \<Rightarrow> cache \<Rightarrow> cache option" where
  "cache_op ly hash now (Insert heap capacity owner ins) c =
    cache_insert ly hash now heap capacity (owner, insertion_key ins) (insertion_product ins) c"
| "cache_op ly hash now (Get owner key) c = map_option snd (derived_get hash now owner key c)"
| "cache_op ly hash now (RemoveOwner owner) c = remove_owner owner c"
| "cache_op ly hash now Clear c = Some (cache_clear c)"
| "cache_op ly hash now (Reserve n) c = Some (snd (reserve_buffer n c))"
| "cache_op ly hash now (ReleaseBuffer n) c = release_buffer n c"

section \<open>What the ledger stands for\<close>

declare split_paired_All [simp del] split_paired_Ex [simp del]

text \<open>An entry weighs by its allocations and its overhead; the ledger accounts for the multiset of weights.\<close>

type_synonym weight = "(alloc_id \<times> nat) list \<times> nat"

definition weight :: "cache_entry \<Rightarrow> weight" where
  "weight e = (ce_allocations e, ce_overhead e)"

definition uses :: "alloc_id \<Rightarrow> weight \<Rightarrow> nat" where
  "uses i w = count_list (map fst (fst w)) i"

definition recorded_bytes :: "(alloc_id \<rightharpoonup> nat \<times> nat) \<Rightarrow> nat" where
  "recorded_bytes m = (\<Sum>i \<in> dom m. fst (the (m i)))"

definition references_ok :: "(alloc_id \<rightharpoonup> nat \<times> nat) \<Rightarrow> (alloc_id \<Rightarrow> nat) \<Rightarrow> bool" where
  "references_ok m f \<longleftrightarrow> finite (dom m) \<and>
    (\<forall>i. case m i of None \<Rightarrow> f i = 0 | Some (_, r) \<Rightarrow> r = f i \<and> 0 < r)"

definition ledger_ok :: "ledger \<Rightarrow> weight multiset \<Rightarrow> bool" where
  "ledger_ok l ws \<longleftrightarrow> references_ok (lg_allocations l) (\<lambda>i. \<Sum>w \<in># ws. uses i w) \<and>
    lg_bytes l = recorded_bytes (lg_allocations l) + (\<Sum>w \<in># ws. snd w) \<and> lg_entries l = size_class.size ws"

lemma ledger_ok_default: "ledger_ok ledger_default {#}"
  by (simp add: ledger_ok_def ledger_default_def references_ok_def recorded_bytes_def)

lemma references_ok_upd:
  fixes m :: "alloc_id \<rightharpoonup> nat \<times> nat" and f :: "alloc_id \<Rightarrow> nat"
  assumes ok: "references_ok m f" and x: "case x of None \<Rightarrow> v = 0 | Some (_, r) \<Rightarrow> r = v \<and> 0 < r"
  shows "references_ok (m(i := x)) (f(i := v))"
  unfolding references_ok_def
proof (intro conjI allI)
  show "finite (dom (m(i := x)))" using ok by (simp add: references_ok_def)
  fix j
  show "case (m(i := x)) j of None \<Rightarrow> (f(i := v)) j = 0 | Some (_, r) \<Rightarrow> r = (f(i := v)) j \<and> 0 < r"
    using x ok[unfolded references_ok_def, THEN conjunct2, rule_format, of j] by (cases "j = i") (simp_all split: option.splits)
qed

lemma references_okD:
  fixes m :: "alloc_id \<rightharpoonup> nat \<times> nat" and f :: "alloc_id \<Rightarrow> nat"
  assumes "references_ok m f"
  shows "finite (dom m)" "m i = None \<Longrightarrow> f i = 0" "m i = Some (r, n) \<Longrightarrow> n = f i \<and> 0 < n"
  using assms[unfolded references_ok_def, THEN conjunct1] assms[unfolded references_ok_def, THEN conjunct2, rule_format, of i]
  by simp_all

lemma references_ok_add:
  assumes ok: "references_ok (lg_allocations l) f" and bytes: "lg_bytes l = recorded_bytes (lg_allocations l) + base"
  shows "references_ok (lg_allocations (add_allocation (i, b) l)) (f(i := f i + 1)) \<and>
    lg_bytes (add_allocation (i, b) l) = recorded_bytes (lg_allocations (add_allocation (i, b) l)) + base \<and>
    lg_entries (add_allocation (i, b) l) = lg_entries l"
proof (cases "lg_allocations l i")
  case None
  then have fin: "finite (dom (lg_allocations l))" "i \<notin> dom (lg_allocations l)" "f i = 0"
    using references_okD(1,2)[OF ok] by auto
  have "recorded_bytes ((lg_allocations l)(i \<mapsto> (b, Suc 0))) = b + recorded_bytes (lg_allocations l)"
  proof -
    have "(\<Sum>j \<in> dom (lg_allocations l). fst (the (((lg_allocations l)(i \<mapsto> (b, Suc 0))) j)))
        = (\<Sum>j \<in> dom (lg_allocations l). fst (the (lg_allocations l j)))"
      by (rule sum.cong) (use fin in auto)
    then show ?thesis using fin by (simp add: recorded_bytes_def)
  qed
  then show ?thesis using None bytes fin references_ok_upd[OF ok, where x = "Some (b, 1)" and v = 1 and i = i]
    by (simp add: add_allocation_def)
next
  case (Some x)
  obtain r n where x: "x = (r, n)" by fastforce
  then have n: "n = f i" "0 < n" using references_okD(3)[OF ok] Some by auto
  have "recorded_bytes ((lg_allocations l)(i \<mapsto> (r, Suc n))) = recorded_bytes (lg_allocations l)"
    unfolding recorded_bytes_def by (rule sum.cong) (use Some x in auto)
  then show ?thesis using Some x n bytes references_ok_upd[OF ok, where x = "Some (r, Suc n)" and v = "Suc n" and i = i]
    by (simp add: add_allocation_def)
qed

lemma fold_add_allocation:
  "references_ok (lg_allocations l) f \<Longrightarrow> lg_bytes l = recorded_bytes (lg_allocations l) + base \<Longrightarrow>
   references_ok (lg_allocations (fold add_allocation as l)) (\<lambda>i. f i + count_list (map fst as) i) \<and>
   lg_bytes (fold add_allocation as l) = recorded_bytes (lg_allocations (fold add_allocation as l)) + base \<and>
   lg_entries (fold add_allocation as l) = lg_entries l"
proof (induction as arbitrary: l f)
  case (Cons a as)
  obtain i b where a: "a = (i, b)" by fastforce
  have eq: "(\<lambda>j. (f(i := f i + 1)) j + count_list (map fst as) j) = (\<lambda>j. f j + count_list (map fst (a # as)) j)"
    by (auto simp: a)
  note step = references_ok_add[OF Cons.prems, of i b]
  have "references_ok (lg_allocations (fold add_allocation as (add_allocation (i, b) l))) (\<lambda>j. (f(i := f i + 1)) j + count_list (map fst as) j) \<and>
   lg_bytes (fold add_allocation as (add_allocation (i, b) l)) = recorded_bytes (lg_allocations (fold add_allocation as (add_allocation (i, b) l))) + base \<and>
   lg_entries (fold add_allocation as (add_allocation (i, b) l)) = lg_entries (add_allocation (i, b) l)"
    by (rule Cons.IH) (use step in \<open>simp_all del: fun_upd_apply\<close>)
  then show ?case using step unfolding eq by (simp add: a)
qed simp

lemma ledger_add_ok: "ledger_ok l ws \<Longrightarrow> ledger_ok (ledger_add e l) (add_mset (weight e) ws)"
  using fold_add_allocation[of l "\<lambda>i. \<Sum>w \<in># ws. uses i w" "\<Sum>w \<in># ws. snd w" "ce_allocations e"]
  by (simp add: ledger_ok_def ledger_add_def Let_def weight_def uses_def add.commute)

lemma drop_allocation_ok:
  assumes ok: "references_ok (lg_allocations l) f" and bytes: "lg_bytes l = recorded_bytes (lg_allocations l) + base"
    and used: "0 < f i"
  shows "\<exists>l'. drop_allocation (i, b) l = Some l' \<and> references_ok (lg_allocations l') (f(i := f i - 1)) \<and>
    lg_bytes l' = recorded_bytes (lg_allocations l') + base \<and> lg_entries l' = lg_entries l"
proof -
  obtain x where "lg_allocations l i = Some x" using references_okD(2)[OF ok, of i] used by fastforce
  then obtain r n where x: "lg_allocations l i = Some (r, n)" "n = f i"
    using references_okD(3)[OF ok] by (cases x) blast
  have fin: "finite (dom (lg_allocations l))" using ok by (simp add: references_ok_def)
  show ?thesis
  proof (cases "n = 1")
    case True
    have "recorded_bytes (lg_allocations l) = r + recorded_bytes ((lg_allocations l)(i := None))"
    proof -
      have "recorded_bytes (lg_allocations l) = r + (\<Sum>j \<in> dom (lg_allocations l) - {i}. fst (the (lg_allocations l j)))"
        unfolding recorded_bytes_def using sum.remove[OF fin, of i "\<lambda>j. fst (the (lg_allocations l j))"] x by auto
      also have "(\<Sum>j \<in> dom (lg_allocations l) - {i}. fst (the (lg_allocations l j)))
          = recorded_bytes ((lg_allocations l)(i := None))"
        unfolding recorded_bytes_def by (rule sum.cong) auto
      finally show ?thesis .
    qed
    then show ?thesis using x True bytes references_ok_upd[OF ok, where x = None and v = 0 and i = i]
      by (simp add: drop_allocation_def checked_sub_def)
  next
    case False
    then have "n > 1" using x used by simp
    moreover have "recorded_bytes ((lg_allocations l)(i \<mapsto> (r, n - 1))) = recorded_bytes (lg_allocations l)"
      unfolding recorded_bytes_def by (rule sum.cong) (use x in auto)
    ultimately show ?thesis using x bytes references_ok_upd[OF ok, where x = "Some (r, n - 1)" and v = "n - 1" and i = i]
      by (simp add: drop_allocation_def checked_sub_def)
  qed
qed

lemma drop_allocations_ok:
  "references_ok (lg_allocations l) f \<Longrightarrow> lg_bytes l = recorded_bytes (lg_allocations l) + base \<Longrightarrow>
   (\<And>i. count_list (map fst as) i \<le> f i) \<Longrightarrow>
   \<exists>l'. drop_allocations as l = Some l' \<and> references_ok (lg_allocations l') (\<lambda>i. f i - count_list (map fst as) i) \<and>
     lg_bytes l' = recorded_bytes (lg_allocations l') + base \<and> lg_entries l' = lg_entries l"
proof (induction as arbitrary: l f)
  case (Cons a as)
  obtain i b where a: "a = (i, b)" by fastforce
  have "0 < f i" using Cons.prems(3)[of i] by (simp add: a)
  from drop_allocation_ok[OF Cons.prems(1,2) this] obtain l1 where l1: "drop_allocation (i, b) l = Some l1"
    "references_ok (lg_allocations l1) (f(i := f i - 1))" "lg_bytes l1 = recorded_bytes (lg_allocations l1) + base"
    "lg_entries l1 = lg_entries l" by blast
  have le: "count_list (map fst as) j \<le> (f(i := f i - 1)) j" for j
    using Cons.prems(3)[of j] by (auto simp: a split: if_splits)
  have eq: "(\<lambda>j. (f(i := f i - 1)) j - count_list (map fst as) j) = (\<lambda>j. f j - count_list (map fst (a # as)) j)"
    by (auto simp: a)
  show ?case using Cons.IH[OF l1(2,3) le] l1(1,4) unfolding eq by (auto simp: a)
qed simp

lemma ledger_remove_ok:
  assumes ok: "ledger_ok l ws" and mem: "weight e \<in># ws"
  shows "\<exists>l'. ledger_remove e l = Some l' \<and> ledger_ok l' (ws - {#weight e#})"
proof -
  obtain vs where vs: "ws = add_mset (weight e) vs" using mem by (meson multi_member_split)
  let ?f = "\<lambda>i. \<Sum>w \<in># ws. uses i w"
  have f: "?f i = count_list (map fst (ce_allocations e)) i + (\<Sum>w \<in># vs. uses i w)" for i
    by (simp add: vs weight_def uses_def)
  let ?l = "l\<lparr>lg_bytes := lg_bytes l - ce_overhead e, lg_entries := lg_entries l - 1\<rparr>"
  have l: "lg_bytes l = recorded_bytes (lg_allocations l) + ce_overhead e + (\<Sum>w \<in># vs. snd w)" "lg_entries l = Suc (size_class.size vs)"
    "references_ok (lg_allocations l) ?f"
    using ok by (simp_all add: ledger_ok_def vs weight_def)
  obtain l' where "drop_allocations (ce_allocations e) ?l = Some l'"
    "references_ok (lg_allocations l') (\<lambda>i. ?f i - count_list (map fst (ce_allocations e)) i)"
    "lg_bytes l' = recorded_bytes (lg_allocations l') + (\<Sum>w \<in># vs. snd w)" "lg_entries l' = lg_entries ?l"
    using drop_allocations_ok[of ?l ?f "\<Sum>w \<in># vs. snd w" "ce_allocations e"] l by (auto simp: f)
  moreover have "uses i (weight e) = count_list (map fst (ce_allocations e)) i" for i
    by (simp add: uses_def weight_def)
  ultimately show ?thesis using l by (simp add: ledger_remove_def checked_sub_def ledger_ok_def vs)
qed

text \<open>
  The allocations of the weighed entries, and a ledger whose recorded sizes come from them. An address stands
  for one allocation while it is live: the relation of addresses to sizes is single-valued.
\<close>

definition live :: "weight multiset \<Rightarrow> (alloc_id \<times> nat) set" where
  "live ws = (\<Union>w \<in> set_mset ws. set (fst w))"

definition recorded_pairs :: "(alloc_id \<rightharpoonup> nat \<times> nat) \<Rightarrow> (alloc_id \<times> nat) set" where
  "recorded_pairs m = {(i, b). \<exists>n. m i = Some (b, n)}"

definition ledger_exact :: "ledger \<Rightarrow> weight multiset \<Rightarrow> bool" where
  "ledger_exact l ws \<longleftrightarrow> ledger_ok l ws \<and> recorded_pairs (lg_allocations l) \<subseteq> live ws"

lemma live_add [simp]: "live (add_mset w ws) = set (fst w) \<union> live ws" by (auto simp: live_def)
lemma live_empty [simp]: "live {#} = {}" by (simp add: live_def)

lemma live_mono: "ws \<subseteq># vs \<Longrightarrow> live ws \<subseteq> live vs"
  unfolding live_def by (auto dest: mset_subset_eqD)

lemma ledger_exact_default: "ledger_exact ledger_default {#}"
  by (simp add: ledger_exact_def ledger_ok_default) (simp add: recorded_pairs_def ledger_default_def)

lemma recorded_pairs_add: "recorded_pairs (lg_allocations (add_allocation a l)) \<subseteq> insert a (recorded_pairs (lg_allocations l))"
  by (cases a; cases "lg_allocations l (fst a)") (auto simp: add_allocation_def recorded_pairs_def split: if_splits)

lemma recorded_pairs_fold:
  "recorded_pairs (lg_allocations (fold add_allocation as l)) \<subseteq> set as \<union> recorded_pairs (lg_allocations l)"
proof (induction as arbitrary: l)
  case (Cons a as)
  from Cons[of "add_allocation a l"] recorded_pairs_add[of a l] show ?case by auto
qed simp

lemma recorded_pairs_drop:
  "drop_allocation a l = Some l' \<Longrightarrow> recorded_pairs (lg_allocations l') \<subseteq> recorded_pairs (lg_allocations l)"
  by (auto simp: drop_allocation_def recorded_pairs_def bind_eq_Some_conv split: if_splits)

lemma recorded_pairs_drops:
  "drop_allocations as l = Some l' \<Longrightarrow> recorded_pairs (lg_allocations l') \<subseteq> recorded_pairs (lg_allocations l)"
proof (induction as l rule: drop_allocations.induct)
  case (2 a as l)
  then obtain l1 where "drop_allocation a l = Some l1" "drop_allocations as l1 = Some l'"
    by (auto simp: bind_eq_Some_conv)
  with recorded_pairs_drop[of a l l1] 2(1) show ?case by blast
qed simp

lemma ledger_exact_add: "ledger_exact l ws \<Longrightarrow> ledger_exact (ledger_add e l) (add_mset (weight e) ws)"
  using recorded_pairs_fold[of "ce_allocations e" l]
  using ledger_add_ok[of l ws e] by (auto simp: ledger_exact_def ledger_add_def Let_def weight_def)

lemma ledger_ok_used:
  assumes "ledger_ok l ws" "lg_allocations l i = Some x"
  shows "i \<in> fst ` live ws"
proof -
  obtain r n where "x = (r, n)" by fastforce
  then have "(\<Sum>w \<in># ws. uses i w) \<noteq> 0" using assms references_okD(3)[of "lg_allocations l" _ i r n]
    unfolding ledger_ok_def by fastforce
  then obtain w where "w \<in># ws" "uses i w \<noteq> 0" by auto
  then have "i \<in> set (map fst (fst w))" by (metis count_notin uses_def)
  then show ?thesis using \<open>w \<in># ws\<close> by (force simp: live_def)
qed

lemma ledger_exact_remove:
  assumes ok: "ledger_exact l ws" and mem: "weight e \<in># ws" and single: "single_valued (live ws)"
  shows "\<exists>l'. ledger_remove e l = Some l' \<and> ledger_exact l' (ws - {#weight e#})"
proof -
  from ledger_remove_ok[of l ws e] ok mem obtain l' where l': "ledger_remove e l = Some l'" "ledger_ok l' (ws - {#weight e#})"
    by (auto simp: ledger_exact_def)
  have pairs: "recorded_pairs (lg_allocations l') \<subseteq> live ws"
    using l'(1) ok recorded_pairs_drops[of "ce_allocations e" _ l']
    by (fastforce simp: ledger_remove_def bind_eq_Some_conv ledger_exact_def)
  have "a \<in> live (ws - {#weight e#})" if a_in: "a \<in> recorded_pairs (lg_allocations l')" for a
  proof -
    obtain i b where a: "a = (i, b)" by fastforce
    then obtain n where "lg_allocations l' i = Some (b, n)" using a_in by (auto simp: recorded_pairs_def)
    from ledger_ok_used[OF l'(2) this] obtain b' where b': "(i, b') \<in> live (ws - {#weight e#})" by auto
    then have "(i, b') \<in> live ws" using live_mono[of "ws - {#weight e#}" ws] by auto
    moreover have "(i, b) \<in> live ws" using pairs a_in a by blast
    ultimately have "b = b'" using single by (auto simp: single_valued_def)
    then show ?thesis using a b' by simp
  qed
  then show ?thesis using l' by (auto simp: ledger_exact_def)
qed

lemma ledger_exact_bytes:
  assumes ok: "ledger_exact l ws" and single: "single_valued (live ws)"
  shows "lg_bytes l = (\<Sum>a \<in> live ws. snd a) + (\<Sum>w \<in># ws. snd w)"
proof -
  let ?m = "lg_allocations l"
  have lo: "ledger_ok l ws" "recorded_pairs ?m \<subseteq> live ws" using ok by (auto simp: ledger_exact_def)
  have eq: "live ws = (\<lambda>i. (i, fst (the (?m i)))) ` dom ?m"
  proof (intro set_eqI iffI)
    fix a assume a: "a \<in> live ws"
    obtain i b where ab: "a = (i, b)" by fastforce
    obtain w where w: "w \<in># ws" "a \<in> set (fst w)" using a by (auto simp: live_def)
    then have "uses i w \<noteq> 0" using ab by (auto simp: uses_def count_list_0_iff intro: rev_image_eqI)
    then have "(\<Sum>w \<in># ws. uses i w) \<noteq> 0" using w by auto
    then obtain b' n where m: "?m i = Some (b', n)"
      using lo references_okD(2)[of ?m "\<lambda>i. \<Sum>w \<in># ws. uses i w" i] by (fastforce simp: ledger_ok_def)
    then have "(i, b') \<in> live ws" using lo(2) by (auto simp: recorded_pairs_def)
    then have "b' = b" using a ab single by (auto simp: single_valued_def)
    then show "a \<in> (\<lambda>i. (i, fst (the (?m i)))) ` dom ?m" using m ab by force
  next
    fix a assume "a \<in> (\<lambda>i. (i, fst (the (?m i)))) ` dom ?m"
    then show "a \<in> live ws" using lo(2) by (auto simp: recorded_pairs_def)
  qed
  have "(\<Sum>a \<in> live ws. snd a) = (\<Sum>i \<in> dom ?m. fst (the (?m i)))"
    unfolding eq by (subst sum.reindex) (auto simp: inj_on_def)
  then show ?thesis using lo(1) by (simp add: ledger_ok_def recorded_bytes_def)
qed

section \<open>The cache keeps its budget\<close>

abbreviation entry_weight :: "owned_key \<times> cache_entry \<Rightarrow> weight" where
  "entry_weight x \<equiv> weight (snd x)"

definition weights :: "shard list \<Rightarrow> weight multiset" where
  "weights shs = image_mset entry_weight (mset (concat shs))"

definition shard_ok :: "(owned_key \<Rightarrow> nat) \<Rightarrow> nat \<Rightarrow> shard \<Rightarrow> bool" where
  "shard_ok hash i sh \<longleftrightarrow> distinct (map fst sh) \<and>
    (\<forall>x \<in> set sh. hash (fst x) mod shard_count = i \<and> right_kind (snd (fst x)) (ce_product (snd x)))"

definition shards_ok :: "(owned_key \<Rightarrow> nat) \<Rightarrow> shard list \<Rightarrow> bool" where
  "shards_ok hash shs \<longleftrightarrow> length shs = shard_count \<and> (\<forall>i < shard_count. shard_ok hash i (shs ! i))"

text \<open>
  The state every operation keeps: each key once and in the shard of its hash, with a product of its kind; a
  ledger that accounts for exactly the entries held; bytes and reservations within the limit.
\<close>

definition cache_ok :: "(owned_key \<Rightarrow> nat) \<Rightarrow> cache \<Rightarrow> bool" where
  "cache_ok hash c \<longleftrightarrow> shards_ok hash (ca_shards c) \<and> ledger_exact (ca_ledger c) (weights (ca_shards c)) \<and>
    single_valued (live (weights (ca_shards c))) \<and> ca_estimated c = lg_bytes (ca_ledger c) \<and>
    lg_bytes (ca_ledger c) + ca_reserved c \<le> ca_limit c \<and> lg_entries (ca_ledger c) \<le> max_entries \<and>
    ca_limit c < u64_max"

lemma cache_okD:
  assumes "cache_ok hash c"
  shows "shards_ok hash (ca_shards c)" "ledger_exact (ca_ledger c) (weights (ca_shards c))"
    "single_valued (live (weights (ca_shards c)))" "ca_estimated c = lg_bytes (ca_ledger c)"
    "lg_bytes (ca_ledger c) + ca_reserved c \<le> ca_limit c" "lg_entries (ca_ledger c) \<le> max_entries"
    "ca_limit c < u64_max"
  using assms unfolding cache_ok_def by simp_all

lemma shards_ok_upd: "shards_ok hash shs \<Longrightarrow> shard_ok hash i sh \<Longrightarrow> shards_ok hash (shs[i := sh])"
  by (cases "i < length shs") (auto simp: shards_ok_def nth_list_update list_update_beyond)

lemma mset_concat_update:
  "i < length xss \<Longrightarrow> mset (concat (xss[i := xs])) + mset (xss ! i) = mset (concat xss) + mset xs"
proof (induction xss arbitrary: i)
  case (Cons ys xss)
  show ?case
  proof (cases i)
    case (Suc j)
    then have "mset (concat (xss[j := xs])) + mset (xss ! j) = mset (concat xss) + mset xs" using Cons by simp
    then show ?thesis using Suc by (simp add: union_assoc)
  qed simp
qed simp

lemma weights_update:
  assumes "i < length shs"
  shows "weights (shs[i := sh]) + image_mset entry_weight (mset (shs ! i))
    = weights shs + image_mset entry_weight (mset sh)"
  using arg_cong[OF mset_concat_update[OF assms, of sh], of "image_mset entry_weight"]
  by (simp add: weights_def)

lemma weights_pop: "i < length shs \<Longrightarrow> shs ! i = x # sh \<Longrightarrow> weights shs = add_mset (entry_weight x) (weights (shs[i := sh]))"
  using weights_update[of i shs sh] by simp

lemma weights_push: "i < length shs \<Longrightarrow> weights (shs[i := shs ! i @ [x]]) = add_mset (entry_weight x) (weights shs)"
  using weights_update[of i shs "shs ! i @ [x]"] by simp

text \<open>The eviction loop ends under the budget, and drops the least recently touched entries.\<close>

definition in_touch_order :: "shard list \<Rightarrow> bool" where
  "in_touch_order shs \<longleftrightarrow> (\<forall>sh \<in> set shs. sorted (map (ce_touched \<circ> snd) sh))"

lemma fronts_complete:
  "sh \<in> set shs \<Longrightarrow> sh \<noteq> [] \<Longrightarrow> \<exists>j. (j, ce_touched (snd (hd sh))) \<in> set (fronts i shs)"
  by (induction i shs rule: fronts.induct) auto

lemma over_budget_nonempty:
  assumes "ledger_exact (ca_ledger c) (weights (ca_shards c))" "ca_reserved c \<le> ca_limit c" "over_budget c"
  shows "oldest (ca_shards c) \<noteq> None"
proof
  assume none: "oldest (ca_shards c) = None"
  then have "fronts 0 (ca_shards c) = []" by (simp add: oldest_def split: list.splits)
  then have "\<forall>sh \<in> set (ca_shards c). sh = []" using fronts_complete[of _ "ca_shards c" 0] by fastforce
  then have "weights (ca_shards c) = {#}" by (simp add: weights_def concat_eq_Nil_conv)
  then show False using assms ledger_exact_bytes[OF assms(1)]
    by (simp add: ledger_exact_def ledger_ok_def over_budget_def)
qed

lemma oldest_is_oldest:
  assumes order: "in_touch_order shs" and old: "oldest shs = Some i" and x: "x \<in> set (concat shs)"
  shows "ce_touched (snd (hd (shs ! i))) \<le> ce_touched (snd x)"
proof -
  obtain sh where sh: "sh \<in> set shs" "x \<in> set sh" using x by auto
  then have "sh \<noteq> []" by auto
  from fronts_complete[OF sh(1) this] obtain j where "(j, ce_touched (snd (hd sh))) \<in> set (fronts 0 shs)" by blast
  from oldest_front(2)[OF old this] have "ce_touched (snd (hd (shs ! i))) \<le> ce_touched (snd (hd sh))" .
  also have "ce_touched (snd (hd sh)) \<le> ce_touched (snd x)"
  proof -
    have "sorted (map (ce_touched \<circ> snd) sh)" using sh order by (simp add: in_touch_order_def)
    then show ?thesis using sh by (cases sh) auto
  qed
  finally show ?thesis .
qed

definition evicts_to :: "cache \<Rightarrow> cache \<Rightarrow> (owned_key \<times> cache_entry) multiset \<Rightarrow> bool" where
  "evicts_to c c' dropped \<longleftrightarrow> mset (concat (ca_shards c)) = dropped + mset (concat (ca_shards c')) \<and>
    (in_touch_order (ca_shards c) \<longrightarrow> in_touch_order (ca_shards c') \<and>
      (\<forall>d \<in># dropped. \<forall>x \<in> set (concat (ca_shards c')). ce_touched (snd d) \<le> ce_touched (snd x)))"

lemma concat_pop: "i < length shs \<Longrightarrow> shs ! i = x # sh \<Longrightarrow> mset (concat shs) = add_mset x (mset (concat (shs[i := sh])))"
  using mset_concat_update[of i shs sh] by simp

lemma in_touch_order_pop: "i < length shs \<Longrightarrow> shs ! i = x # sh \<Longrightarrow> in_touch_order shs \<Longrightarrow> in_touch_order (shs[i := sh])"
proof -
  assume i: "i < length shs" "shs ! i = x # sh" and order: "in_touch_order shs"
  have "sorted (map (ce_touched \<circ> snd) (x # sh))" using i order nth_mem[of i shs] unfolding in_touch_order_def by metis
  then have "sorted (map (ce_touched \<circ> snd) sh)" by simp
  then show ?thesis using order set_update_subset_insert[of shs i sh] by (auto simp: in_touch_order_def)
qed

lemma shard_ok_tl: "shard_ok hash i (x # sh) \<Longrightarrow> shard_ok hash i sh"
  by (simp add: shard_ok_def)

lemma evict_ok:
  assumes "shards_ok hash (ca_shards c)" "ledger_exact (ca_ledger c) (weights (ca_shards c))"
    "single_valued (live (weights (ca_shards c)))" "ca_reserved c \<le> ca_limit c"
  shows "\<exists>c' dropped. evict c = Some c' \<and> shards_ok hash (ca_shards c') \<and>
    ledger_exact (ca_ledger c') (weights (ca_shards c')) \<and> single_valued (live (weights (ca_shards c'))) \<and>
    \<not> over_budget c' \<and> ca_reserved c' = ca_reserved c \<and> ca_limit c' = ca_limit c \<and>
    (ca_estimated c' = ca_estimated c) \<and> evicts_to c c' dropped"
  using assms
proof (induction c rule: evict.induct)
  case (1 c)
  show ?case
  proof (cases "over_budget c")
    case False
    then have "evict c = Some c" by (simp add: evict.simps)
    moreover have "evicts_to c c {#}" by (simp add: evicts_to_def)
    ultimately show ?thesis using False 1(3-6) by blast
  next
    case True
    obtain i where i: "oldest (ca_shards c) = Some i" using over_budget_nonempty[OF 1(4,6) True] by blast
    then have il: "i < length (ca_shards c)" "ca_shards c ! i \<noteq> []" using oldest_front(1) by blast+
    then obtain k e rest where sh: "ca_shards c ! i = (k, e) # rest" by (cases "ca_shards c ! i") auto
    note pop = weights_pop[OF il(1) sh]
    obtain l where l: "ledger_remove e (ca_ledger c) = Some l"
      "ledger_exact l (weights ((ca_shards c)[i := rest]))"
      using ledger_exact_remove[OF 1(4) _ 1(5), of e] pop by auto
    let ?c = "c\<lparr>ca_shards := (ca_shards c)[i := rest], ca_ledger := l\<rparr>"
    have ev: "evict c = evict ?c" using True i sh l(1) by (subst evict.simps) simp
    have ok: "shards_ok hash (ca_shards ?c)"
    proof -
      have "shard_ok hash i ((k, e) # rest)" using 1(3) il(1) sh unfolding shards_ok_def by metis
      then show ?thesis using shards_ok_upd[OF 1(3) shard_ok_tl] by simp
    qed
    have sv: "single_valued (live (weights (ca_shards ?c)))"
      using 1(5) pop by (auto intro: single_valued_subset)
    have ex: "ledger_exact (ca_ledger ?c) (weights (ca_shards ?c))" "ca_reserved ?c \<le> ca_limit ?c" using l(2) 1(6) by simp_all
    obtain c' dropped where c': "evict ?c = Some c'" "shards_ok hash (ca_shards c')"
      "ledger_exact (ca_ledger c') (weights (ca_shards c'))" "single_valued (live (weights (ca_shards c')))"
      "\<not> over_budget c'" "ca_reserved c' = ca_reserved c" "ca_limit c' = ca_limit c" "ca_estimated c' = ca_estimated c"
      "evicts_to ?c c' dropped"
      using 1(2)[OF True i sh refl l(1) ok ex(1) sv ex(2)] by (simp, elim exE conjE) (rule that)
    have "evicts_to c c' (add_mset (k, e) dropped)"
    proof -
      have ms: "mset (concat (ca_shards c)) = add_mset (k, e) (dropped + mset (concat (ca_shards c')))"
        using concat_pop[OF il(1) sh] c'(9) by (simp add: evicts_to_def)
      have sub: "x \<in> set (concat (ca_shards c))" if "x \<in> set (concat (ca_shards c'))" for x
        using that arg_cong[OF ms, of set_mset] by simp
      show ?thesis unfolding evicts_to_def
      proof (intro conjI impI)
        assume order: "in_touch_order (ca_shards c)"
        have "ce_touched e \<le> ce_touched (snd x)" if "x \<in> set (concat (ca_shards c'))" for x
          using oldest_is_oldest[OF order i sub[OF that]] sh by simp
        then show "in_touch_order (ca_shards c')"
          and "\<forall>d \<in># add_mset (k, e) dropped. \<forall>x \<in> set (concat (ca_shards c')). ce_touched (snd d) \<le> ce_touched (snd x)"
          using c'(9) in_touch_order_pop[OF il(1) sh order] by (auto simp: evicts_to_def simp del: set_concat)
      qed (use ms in simp)
    qed
    then show ?thesis using c' ev by auto
  qed
qed

text \<open>Each operation keeps the state.\<close>

lemma without_key_split:
  "distinct (map fst sh) \<Longrightarrow>
   mset sh = mset (without_key k sh) + (case map_of sh k of None \<Rightarrow> {#} | Some e \<Rightarrow> {#(k, e)#})"
proof (induction sh)
  case (Cons x sh)
  obtain k' e where x: "x = (k', e)" by fastforce
  have "without_key k sh = sh" if "k \<notin> fst ` set sh" using that by (force simp: without_key_def filter_id_conv)
  moreover have "map_of sh k = None" if "k \<notin> fst ` set sh" using that by (simp add: map_of_eq_None_iff)
  ultimately show ?case using Cons by (auto simp: x without_key_def)
qed (simp add: without_key_def)

lemma shard_ok_put:
  "shard_ok hash i sh \<Longrightarrow> hash k mod shard_count = i \<Longrightarrow> right_kind (snd k) (ce_product e) \<Longrightarrow>
   shard_ok hash i (without_key k sh @ [(k, e)])"
  unfolding shard_ok_def without_key_def by (auto simp: distinct_map inj_on_def)

lemma shard_count_pos: "0 < shard_count" by (simp add: shard_count_def)

lemma shards_nth: "shards_ok hash shs \<Longrightarrow> hash k mod shard_count < length shs \<and> shard_ok hash (hash k mod shard_count) (shs ! (hash k mod shard_count))"
  using shard_count_pos by (simp add: shards_ok_def)

lemma weights_put:
  assumes i: "i < length shs" and d: "distinct (map fst (shs ! i))"
  shows "weights (shs[i := without_key k (shs ! i) @ [(k, e)]]) =
    add_mset (weight e) (weights shs - (case map_of (shs ! i) k of None \<Rightarrow> {#} | Some e \<Rightarrow> {#weight e#}))"
    "(case map_of (shs ! i) k of None \<Rightarrow> {#} | Some e \<Rightarrow> {#weight e#}) \<subseteq># weights shs"
proof -
  let ?old = "case map_of (shs ! i) k of None \<Rightarrow> {#} | Some e \<Rightarrow> {#weight e#}"
  have sp: "image_mset entry_weight (mset (shs ! i)) = image_mset entry_weight (mset (without_key k (shs ! i))) + ?old"
    using arg_cong[OF without_key_split[OF d, of k], of "image_mset entry_weight"] by (simp split: option.splits)
  have eq: "weights (shs[i := without_key k (shs ! i) @ [(k, e)]]) + ?old = add_mset (weight e) (weights shs)"
    using weights_update[OF i, of "without_key k (shs ! i) @ [(k, e)]"] unfolding sp by simp
  have "mset (concat shs) = mset (concat (shs[i := []])) + mset (shs ! i)" using mset_concat_update[OF i, of "[]"] by simp
  then have "image_mset entry_weight (mset (shs ! i)) \<subseteq># weights shs"
    unfolding weights_def by (intro image_mset_subseteq_mono) (metis mset_subset_eq_add_right)
  then show sub: "?old \<subseteq># weights shs" unfolding sp using subset_mset.order_trans mset_subset_eq_add_right by blast
  show "weights (shs[i := without_key k (shs ! i) @ [(k, e)]]) = add_mset (weight e) (weights shs - ?old)"
  proof -
    obtain ws where ws: "weights shs = ?old + ws" using sub[unfolded mset_subset_eq_exists_conv] by (elim exE)
    have "?old + weights (shs[i := without_key k (shs ! i) @ [(k, e)]]) = ?old + add_mset (weight e) ws"
      using eq unfolding ws by (simp only: union_mset_add_mset_left union_mset_add_mset_right union_commute)
    then show ?thesis unfolding ws by simp
  qed
qed

lemma cache_get_ok:
  assumes ok: "cache_ok hash c"
  shows "cache_ok hash (snd (cache_get hash now k c))"
    and "fst (cache_get hash now k c) = Some p \<Longrightarrow> right_kind (snd k) p"
proof -
  define i where "i = hash k mod shard_count"
  have i: "i < length (ca_shards c)" "shard_ok hash i (ca_shards c ! i)"
    using shards_nth[OF cache_okD(1)[OF ok], of k] by (simp_all add: i_def)
  have d: "distinct (map fst (ca_shards c ! i))" using i(2) by (simp add: shard_ok_def)
  have "cache_ok hash (snd (cache_get hash now k c)) \<and> (fst (cache_get hash now k c) = Some p \<longrightarrow> right_kind (snd k) p)"
  proof (cases "map_of (ca_shards c ! i) k")
    case None
    then show ?thesis using ok by (simp add: cache_get_def Let_def i_def)
  next
    case (Some e)
    then have kind: "right_kind (snd k) (ce_product e)"
      using i(2) map_of_SomeD[OF Some] unfolding shard_ok_def by (metis fst_conv snd_conv)
    let ?sh = "without_key k (ca_shards c ! i) @ [(k, e\<lparr>ce_touched := now\<rparr>)]"
    have sh: "shard_ok hash i ?sh" using shard_ok_put[OF i(2)] kind by (simp add: i_def)
    have "weight e \<in># weights (ca_shards c)"
      using weights_put(2)[OF i(1) d, of k] Some by simp
    then have w: "weights ((ca_shards c)[i := ?sh]) = weights (ca_shards c)"
      using weights_put(1)[OF i(1) d, of k "e\<lparr>ce_touched := now\<rparr>"] Some by (simp add: weight_def)
    have g: "cache_get hash now k c = (Some (ce_product e), c\<lparr>ca_shards := (ca_shards c)[i := ?sh]\<rparr>)"
      using Some by (simp add: cache_get_def Let_def i_def)
    show ?thesis using ok shards_ok_upd[OF cache_okD(1)[OF ok] sh] kind unfolding g cache_ok_def by (auto simp: w)
  qed
  then show "cache_ok hash (snd (cache_get hash now k c))"
    and "fst (cache_get hash now k c) = Some p \<Longrightarrow> right_kind (snd k) p" by simp_all
qed

lemma derived_get_ok:
  "cache_ok hash c \<Longrightarrow> \<exists>p c'. derived_get hash now owner key c = Some (p, c') \<and> cache_ok hash c'"
  using cache_get_ok[of hash c now "(owner, key)"]
  by (cases "cache_get hash now (owner, key) c") (auto simp: derived_get_def split: option.splits)

text \<open>
  An insertion: over the limit alone, it changes nothing; otherwise the previous product of the key goes, the
  new one becomes the newest, and the loop evicts down to the budget.
\<close>

definition placed :: "layout \<Rightarrow> (owned_key \<Rightarrow> nat) \<Rightarrow> nat \<Rightarrow> nat \<Rightarrow> nat \<Rightarrow> owned_key \<Rightarrow> product \<Rightarrow> shard list \<Rightarrow> shard list" where
  "placed ly hash now heap capacity k p shs =
    (let i = hash k mod shard_count in
     shs[i := without_key k (shs ! i) @ [(k, \<lparr>ce_product = p, ce_allocations = allocations ly p,
       ce_overhead = entry_overhead ly heap capacity, ce_touched = now\<rparr>)]])"

definition product_bytes :: "layout \<Rightarrow> nat \<Rightarrow> nat \<Rightarrow> product \<Rightarrow> nat" where
  "product_bytes ly heap capacity p = sum_list (map snd (allocations ly p)) + entry_overhead ly heap capacity"

lemma cache_insert_ok:
  assumes ok: "cache_ok hash c" and kind: "right_kind (snd k) p"
    and single: "single_valued (live (weights (ca_shards c)) \<union> set (allocations ly p))"
    and fits: "product_bytes ly heap capacity p \<le> ca_limit c"
  shows "\<exists>c1 c2 dropped. ca_shards c1 = placed ly hash now heap capacity k p (ca_shards c) \<and>
    ca_limit c1 = ca_limit c \<and> ca_reserved c1 = ca_reserved c \<and>
    evicts_to c1 c2 dropped \<and> \<not> over_budget c2 \<and>
    cache_insert ly hash now heap capacity k p c = Some (store_estimate c2) \<and> cache_ok hash (store_estimate c2) \<and>
    ca_limit c2 = ca_limit c \<and> shards_ok hash (ca_shards c1) \<and> ledger_exact (ca_ledger c1) (weights (ca_shards c1)) \<and>
    single_valued (live (weights (ca_shards c1))) \<and> evict c1 = Some c2"
proof -
  define i where "i = hash k mod shard_count"
  note oks = cache_okD[OF ok]
  have i: "i < length (ca_shards c)" "shard_ok hash i (ca_shards c ! i)"
    using shards_nth[OF oks(1), of k] by (simp_all add: i_def)
  have d: "distinct (map fst (ca_shards c ! i))" using i(2) by (simp add: shard_ok_def)
  let ?e = "\<lparr>ce_product = p, ce_allocations = allocations ly p, ce_overhead = entry_overhead ly heap capacity, ce_touched = now\<rparr>"
  let ?shs = "(ca_shards c)[i := without_key k (ca_shards c ! i) @ [(k, ?e)]]"
  let ?old = "case map_of (ca_shards c ! i) k of None \<Rightarrow> {#} | Some e \<Rightarrow> {#weight e#}"
  note put = weights_put[OF i(1) d, of k]
  obtain l where l: "(case map_of (ca_shards c ! i) k of Some previous \<Rightarrow> ledger_remove previous (ca_ledger c)
      | None \<Rightarrow> Some (ca_ledger c)) = Some l" "ledger_exact l (weights (ca_shards c) - ?old)"
    using ledger_exact_remove[OF oks(2) _ oks(3)] put(2) oks(2)
    by (cases "map_of (ca_shards c ! i) k") fastforce+
  let ?c1 = "c\<lparr>ca_shards := ?shs, ca_ledger := ledger_add ?e l\<rparr>"
  have ex: "ledger_exact (ca_ledger ?c1) (weights (ca_shards ?c1))"
    using ledger_exact_add[OF l(2), of ?e] put(1)[of ?e] by simp
  have "live (weights ?shs) \<subseteq> live (weights (ca_shards c)) \<union> set (allocations ly p)"
    unfolding put(1)[of ?e] live_add using live_mono[of "weights (ca_shards c) - ?old" "weights (ca_shards c)"]
    by (auto simp: weight_def)
  then have sv: "single_valued (live (weights (ca_shards ?c1)))" using single by (auto intro: single_valued_subset)
  have sh: "shards_ok hash (ca_shards ?c1)"
    using shards_ok_upd[OF oks(1) shard_ok_put[OF i(2), of k ?e]] kind by (simp add: i_def)
  have res: "ca_reserved ?c1 \<le> ca_limit ?c1" using oks(5) by simp
  from evict_ok[OF sh ex sv res] obtain c2 dropped where c2: "evict ?c1 = Some c2" "shards_ok hash (ca_shards c2)"
    "ledger_exact (ca_ledger c2) (weights (ca_shards c2))" "single_valued (live (weights (ca_shards c2)))"
    "\<not> over_budget c2" "ca_reserved c2 = ca_reserved c" "ca_limit c2 = ca_limit c"
    "evicts_to ?c1 c2 dropped" by (simp, elim exE conjE) (rule that)
  have "cache_insert ly hash now heap capacity k p c = Some (store_estimate c2)"
    using fits oks(7) l(1) c2(1) by (simp add: cache_insert_def product_bytes_def Let_def i_def[symmetric])
  moreover have "cache_ok hash (store_estimate c2)"
    using c2 oks(7) by (auto simp: cache_ok_def store_estimate_def over_budget_def)
  moreover have "ca_shards ?c1 = placed ly hash now heap capacity k p (ca_shards c)"
    by (simp add: placed_def Let_def i_def)
  ultimately show ?thesis using c2(1,5,7,8) sh ex sv by (intro exI[of _ ?c1] exI[of _ c2] exI[of _ dropped]) simp
qed

lemma cache_insert_oversize:
  "ca_limit c < product_bytes ly heap capacity p \<Longrightarrow> ca_limit c < u64_max \<Longrightarrow>
   cache_insert ly hash now heap capacity k p c = Some c"
  by (simp add: cache_insert_def product_bytes_def Let_def)

lemma weights_Cons: "weights (sh # shs) = image_mset entry_weight (mset sh) + weights shs"
  by (simp add: weights_def)

lemma remove_entries_ok:
  "ledger_exact l (image_mset weight (mset es) + ws) \<Longrightarrow> single_valued (live (image_mset weight (mset es) + ws)) \<Longrightarrow>
   \<exists>l'. remove_entries es l = Some l' \<and> ledger_exact l' ws"
proof (induction es arbitrary: l)
  case (Cons e es)
  obtain l1 where l1: "ledger_remove e l = Some l1" "ledger_exact l1 (image_mset weight (mset es) + ws)"
    using ledger_exact_remove[OF Cons.prems(1) _ Cons.prems(2), of e] by auto
  have "single_valued (live (image_mset weight (mset es) + ws))"
    using Cons.prems(2) by (auto intro: single_valued_subset)
  from Cons.IH[OF l1(2) this] l1(1) show ?case by auto
qed simp

definition others :: "nat \<Rightarrow> shard \<Rightarrow> shard" where
  "others owner sh = filter (\<lambda>x. fst (fst x) \<noteq> owner) sh"

lemma others_filter: "filter (\<lambda>((ow, _), _). ow \<noteq> owner) sh = others owner sh"
  unfolding others_def by (rule filter_cong) auto

lemma remove_from_shards_ok:
  "ledger_exact l (weights shs + ws) \<Longrightarrow> single_valued (live (weights shs + ws)) \<Longrightarrow>
   \<exists>l'. remove_from_shards owner shs l = Some (map (others owner) shs, l') \<and>
     ledger_exact l' (weights (map (others owner) shs) + ws)"
proof (induction shs arbitrary: l ws)
  case (Cons sh shs)
  let ?mine = "map snd (filter (\<lambda>((ow, _), _). ow = owner) sh)"
  have sp: "image_mset entry_weight (mset sh) = image_mset weight (mset ?mine) + image_mset entry_weight (mset (others owner sh))"
    by (induction sh) (auto simp: others_def)
  let ?ws = "image_mset entry_weight (mset (others owner sh)) + ws"
  have eq: "weights (sh # shs) + ws = image_mset weight (mset ?mine) + (weights shs + ?ws)"
    by (simp add: weights_Cons sp ac_simps)
  obtain l1 where l1: "remove_entries ?mine l = Some l1" "ledger_exact l1 (weights shs + ?ws)"
    using remove_entries_ok[of l ?mine "weights shs + ?ws"] Cons.prems unfolding eq by blast
  have "single_valued (live (weights shs + ?ws))"
    using Cons.prems(2) unfolding eq by (rule single_valued_subset[OF live_mono, rotated]) simp
  from Cons.IH[OF l1(2) this] l1(1) show ?case by (auto simp: others_filter weights_Cons ac_simps)
qed (simp add: weights_def)

text \<open>The newest entry survives when it fits beside the reservations.\<close>

lemma sum_set_le_sum_list: "(\<Sum>a \<in> set as. f a) \<le> sum_list (map f as)" for f :: "'a \<Rightarrow> nat"
  by (induction as) (auto simp: sum.insert_if intro: trans_le_add2)

lemma newest_alone_fits:
  assumes "ledger_exact (ca_ledger c) (weights (ca_shards c))" "single_valued (live (weights (ca_shards c)))"
    "mset (concat (ca_shards c)) = {#(k, e)#}"
    "sum_list (map snd (ce_allocations e)) + ce_overhead e + ca_reserved c \<le> ca_limit c"
  shows "\<not> over_budget c"
proof -
  have w: "weights (ca_shards c) = {#weight e#}" using assms(3) by (simp add: weights_def)
  have "lg_bytes (ca_ledger c) \<le> sum_list (map snd (ce_allocations e)) + ce_overhead e"
    using ledger_exact_bytes[OF assms(1,2)] sum_set_le_sum_list[of snd "ce_allocations e"] by (simp add: w weight_def)
  moreover have "lg_entries (ca_ledger c) = 1" using assms(1) by (simp add: w ledger_exact_def ledger_ok_def)
  ultimately show ?thesis using assms(4) by (simp add: over_budget_def max_entries_def)
qed

lemma evict_keeps_newest:
  assumes "shards_ok hash (ca_shards c)" "ledger_exact (ca_ledger c) (weights (ca_shards c))"
    "single_valued (live (weights (ca_shards c)))" "in_touch_order (ca_shards c)"
    "mset (concat (ca_shards c)) = add_mset (k, e) xs" "\<forall>x \<in># xs. ce_touched (snd x) < ce_touched e"
    "sum_list (map snd (ce_allocations e)) + ce_overhead e + ca_reserved c \<le> ca_limit c" "evict c = Some c'"
  shows "(k, e) \<in> set (concat (ca_shards c'))"
  using assms
proof (induction c arbitrary: xs rule: evict.induct)
  case (1 c)
  have mem: "(k, e) \<in> set (concat (ca_shards c))" using arg_cong[OF 1(7), of set_mset] by simp
  show ?case
  proof (cases "over_budget c")
    case False
    then show ?thesis using 1(10) mem by (simp add: evict.simps)
  next
    case True
    have "ca_reserved c \<le> ca_limit c" using 1(9) by simp
    then obtain i where i: "oldest (ca_shards c) = Some i" using over_budget_nonempty[OF 1(4) _ True] by blast
    then have il: "i < length (ca_shards c)" "ca_shards c ! i \<noteq> []" using oldest_front(1) by blast+
    then obtain k' e' rest where sh: "ca_shards c ! i = (k', e') # rest" by (cases "ca_shards c ! i") auto
    note pop = weights_pop[OF il(1) sh]
    obtain l where l: "ledger_remove e' (ca_ledger c) = Some l" "ledger_exact l (weights ((ca_shards c)[i := rest]))"
      using ledger_exact_remove[OF 1(4) _ 1(5), of e'] pop by auto
    let ?c = "c\<lparr>ca_shards := (ca_shards c)[i := rest], ca_ledger := l\<rparr>"
    have ev: "evict ?c = Some c'" using True i sh l(1) 1(10) by (subst (asm) evict.simps) simp
    have ok: "shards_ok hash (ca_shards ?c)"
    proof -
      have "shard_ok hash i ((k', e') # rest)" using 1(3) il(1) sh unfolding shards_ok_def by metis
      then show ?thesis using shards_ok_upd[OF 1(3) shard_ok_tl] by simp
    qed
    have sv: "single_valued (live (weights (ca_shards ?c)))" using 1(5) pop by (auto intro: single_valued_subset)
    have ms: "add_mset (k, e) xs = add_mset (k', e') (mset (concat (ca_shards ?c)))"
      using concat_pop[OF il(1) sh] 1(7) by simp
    have ne: "(k', e') \<noteq> (k, e)"
    proof
      assume eq: "(k', e') = (k, e)"
      have "ce_touched e \<le> ce_touched (snd x)" if "x \<in># xs" for x
      proof -
        have "x \<in> set (concat (ca_shards c))" using arg_cong[OF 1(7), of set_mset] that by simp
        from oldest_is_oldest[OF 1(6) i this] show ?thesis using sh eq by simp
      qed
      then have "xs = {#}" using 1(8) by (cases xs) force+
      then show False using newest_alone_fits[OF 1(4,5) _ 1(9)] 1(7) True by simp
    qed
    then obtain ys where ys: "xs = add_mset (k', e') ys" "mset (concat (ca_shards ?c)) = add_mset (k, e) ys"
      using ms by (auto simp: add_eq_conv_ex)
    have ex: "ledger_exact (ca_ledger ?c) (weights (ca_shards ?c))" using l(2) by simp
    have ord: "in_touch_order (ca_shards ?c)" using in_touch_order_pop[OF il(1) sh 1(6)] by simp
    have new: "\<forall>x \<in># ys. ce_touched (snd x) < ce_touched e" using 1(8) ys(1) by simp
    have fit: "sum_list (map snd (ce_allocations e)) + ce_overhead e + ca_reserved ?c \<le> ca_limit ?c" using 1(9) by simp
    show ?thesis by (rule 1(2)[OF True i sh refl l(1) ok ex sv ord ys(2) new fit ev])
  qed
qed

text \<open>Runs of the cache from its creation.\<close>

fun request_ok :: "layout \<Rightarrow> cache_request \<Rightarrow> cache \<Rightarrow> bool" where
  "request_ok ly (Insert _ _ _ ins) c =
    single_valued (live (weights (ca_shards c)) \<union> set (allocations ly (insertion_product ins)))"
| "request_ok ly (ReleaseBuffer n) c = (n \<le> ca_reserved c)"
| "request_ok ly (Get _ _) c = True"
| "request_ok ly (RemoveOwner _) c = True"
| "request_ok ly Clear c = True"
| "request_ok ly (Reserve _) c = True"

inductive cache_run :: "layout \<Rightarrow> (owned_key \<Rightarrow> nat) \<Rightarrow> nat \<Rightarrow> nat \<Rightarrow> cache \<Rightarrow> bool" for ly hash limit where
  start: "cache_run ly hash limit 0 (cache_new limit)"
| step: "cache_run ly hash limit now c \<Longrightarrow> now \<le> now' \<Longrightarrow> request_ok ly r c \<Longrightarrow> cache_op ly hash now' r c = Some c' \<Longrightarrow>
    cache_run ly hash limit now' c'"

lemma cache_new_ok: "limit < u64_max \<Longrightarrow> cache_ok hash (cache_new limit)"
proof -
  assume limit: "limit < u64_max"
  have w: "weights (replicate shard_count []) = {#}" by (simp add: weights_def concat_replicate_trivial)
  show ?thesis using limit ledger_exact_default
    by (simp add: cache_ok_def cache_new_def w shards_ok_def shard_ok_def) (simp add: ledger_default_def)
qed

lemma insertion_kind: "right_kind (insertion_key ins) (insertion_product ins)" by (cases ins) auto

lemma sum_mset_subset: "A \<subseteq># B \<Longrightarrow> (\<Sum>x \<in># A. f x) \<le> (\<Sum>x \<in># B. f x)" for f :: "'a \<Rightarrow> nat"
  by (auto simp: mset_subset_eq_exists_conv)

lemma remove_owner_ok:
  assumes ok: "cache_ok hash c"
  shows "\<exists>c'. remove_owner owner c = Some c' \<and> cache_ok hash c' \<and> ca_shards c' = map (others owner) (ca_shards c) \<and>
    ca_limit c' = ca_limit c"
proof -
  note oks = cache_okD[OF ok]
  obtain l where l: "remove_from_shards owner (ca_shards c) (ca_ledger c) = Some (map (others owner) (ca_shards c), l)"
    "ledger_exact l (weights (map (others owner) (ca_shards c)))"
    using remove_from_shards_ok[of "ca_ledger c" "ca_shards c" "{#}" owner] oks(2,3) by auto
  let ?shs = "map (others owner) (ca_shards c)"
  have sub: "weights (map (others owner) shs) \<subseteq># weights shs" for shs
    by (induction shs) (simp_all add: weights_Cons weights_def[of "[]"] others_def mset_filter subset_mset.add_mono image_mset_subseteq_mono)
  have sv: "single_valued (live (weights ?shs))" using oks(3) live_mono[OF sub] by (rule single_valued_subset[rotated])
  have len: "lg_entries l \<le> lg_entries (ca_ledger c)"
    using l(2) oks(2) size_mset_mono[OF sub[of "ca_shards c"]] by (simp add: ledger_exact_def ledger_ok_def)
  have "finite (live (weights (ca_shards c)))" by (simp add: live_def)
  then have "(\<Sum>a \<in> live (weights ?shs). snd a) \<le> (\<Sum>a \<in> live (weights (ca_shards c)). snd a)"
    by (rule sum_mono2) (use live_mono[OF sub] in auto)
  moreover have "(\<Sum>w \<in># weights ?shs. snd w) \<le> (\<Sum>w \<in># weights (ca_shards c). snd w)"
    using sub[of "ca_shards c"] by (rule sum_mset_subset)
  ultimately have bytes: "lg_bytes l \<le> lg_bytes (ca_ledger c)"
    using ledger_exact_bytes[OF l(2) sv] ledger_exact_bytes[OF oks(2,3)] by simp
  have "shard_ok hash i (others owner sh)" if "shard_ok hash i sh" for i sh
    using that by (auto simp: shard_ok_def others_def distinct_map_filter)
  then have "shards_ok hash ?shs" using oks(1) by (simp add: shards_ok_def)
  then have "cache_ok hash (store_estimate (c\<lparr>ca_shards := ?shs, ca_ledger := l\<rparr>))"
    using oks l(2) sv len bytes by (simp add: cache_ok_def store_estimate_def)
  then show ?thesis using l(1) by (simp add: remove_owner_def store_estimate_def)
qed

text \<open>The clock never runs backwards, so every shard stays in the order of its touches.\<close>

definition touched_by :: "nat \<Rightarrow> shard list \<Rightarrow> bool" where
  "touched_by now shs \<longleftrightarrow> in_touch_order shs \<and> (\<forall>sh \<in> set shs. \<forall>x \<in> set sh. ce_touched (snd x) \<le> now)"

lemma touched_by_put:
  assumes t: "touched_by now shs" and later: "now \<le> now'" and i: "i < length shs" and e: "ce_touched e = now'"
  shows "touched_by now' (shs[i := without_key k (shs ! i) @ [(k, e)]])"
proof -
  have old: "sorted (map (ce_touched \<circ> snd) (shs ! i))" "\<forall>x \<in> set (shs ! i). ce_touched (snd x) \<le> now"
    using t nth_mem[OF i] by (auto simp: touched_by_def in_touch_order_def)
  have "sorted (map (ce_touched \<circ> snd) (without_key k (shs ! i)))" unfolding without_key_def by (rule sorted_filter) (rule old(1))
  then have "sorted (map (ce_touched \<circ> snd) (without_key k (shs ! i) @ [(k, e)]))"
    using old(2) later e by (auto simp: sorted_append without_key_def)
  moreover have "\<forall>x \<in> set (without_key k (shs ! i) @ [(k, e)]). ce_touched (snd x) \<le> now'"
    using old(2) later e by (auto simp: without_key_def)
  ultimately have "sorted (map (ce_touched \<circ> snd) sh) \<and> (\<forall>x \<in> set sh. ce_touched (snd x) \<le> now')"
    if "sh \<in> insert (without_key k (shs ! i) @ [(k, e)]) (set shs)" for sh
    using t later that unfolding touched_by_def in_touch_order_def by (metis (no_types, lifting) insertE order.trans)
  then show ?thesis using set_update_subset_insert[of shs i "without_key k (shs ! i) @ [(k, e)]"]
    unfolding touched_by_def in_touch_order_def by (meson subsetD)
qed

lemma touched_by_concat:
  "touched_by now shs \<longleftrightarrow> in_touch_order shs \<and> (\<forall>x \<in> set (concat shs). ce_touched (snd x) \<le> now)"
  by (simp add: touched_by_def)

lemma touched_by_evicts:
  assumes "evicts_to c c' dropped" "touched_by now (ca_shards c)"
  shows "touched_by now (ca_shards c')"
proof -
  have "set (concat (ca_shards c')) \<subseteq> set (concat (ca_shards c))"
    using assms(1) unfolding evicts_to_def by (metis set_mset_mset set_mset_union sup.cobounded2)
  then show ?thesis using assms unfolding touched_by_concat evicts_to_def by blast
qed

lemma touched_by_mono: "touched_by now shs \<Longrightarrow> now \<le> now' \<Longrightarrow> touched_by now' shs"
  by (fastforce simp: touched_by_def)

lemma cache_get_touched:
  assumes ok: "cache_ok hash c" and t: "touched_by now (ca_shards c)" and later: "now \<le> now'"
  shows "touched_by now' (ca_shards (snd (cache_get hash now' k c)))"
  using touched_by_put[OF t later] shards_nth[OF cache_okD(1)[OF ok], of k] touched_by_mono[OF t later]
  by (auto simp: cache_get_def Let_def split: option.splits)

lemma cache_get_limit: "ca_limit (snd (cache_get hash now k c)) = ca_limit c"
  by (simp add: cache_get_def Let_def split: option.splits)

lemma derived_get_snd:
  "derived_get hash now owner key c = Some (p, c') \<Longrightarrow> c' = snd (cache_get hash now (owner, key) c)"
  by (cases "cache_get hash now (owner, key) c") (auto simp: derived_get_def split: option.splits if_splits)

lemma others_touched: "touched_by now shs \<Longrightarrow> touched_by now (map (others owner) shs)"
  by (auto simp: touched_by_def in_touch_order_def others_def intro: sorted_filter)

definition kept :: "(owned_key \<Rightarrow> nat) \<Rightarrow> nat \<Rightarrow> nat \<Rightarrow> cache \<Rightarrow> bool" where
  "kept hash limit now c \<longleftrightarrow> cache_ok hash c \<and> touched_by now (ca_shards c) \<and> ca_limit c = limit"

lemma insert_kept:
  assumes k: "kept hash limit now c" and later: "now \<le> now'" and r: "request_ok ly (Insert heap capacity owner ins) c"
  shows "\<exists>c'. cache_op ly hash now' (Insert heap capacity owner ins) c = Some c' \<and> kept hash limit now' c'"
proof (cases "product_bytes ly heap capacity (insertion_product ins) \<le> ca_limit c")
  case True
  have ok: "cache_ok hash c" and t: "touched_by now (ca_shards c)" using k by (simp_all add: kept_def)
  let ?key = "(owner, insertion_key ins)"
  obtain c1 c2 dropped where c2: "ca_shards c1 = placed ly hash now' heap capacity ?key (insertion_product ins) (ca_shards c)"
    "evicts_to c1 c2 dropped"
    "cache_insert ly hash now' heap capacity ?key (insertion_product ins) c = Some (store_estimate c2)"
    "cache_ok hash (store_estimate c2)" "ca_limit c2 = ca_limit c"
    using cache_insert_ok[OF ok, of ?key "insertion_product ins" ly heap capacity now'] r True insertion_kind[of ins] by auto
  have "touched_by now' (ca_shards c1)"
    unfolding c2(1) placed_def Let_def
    by (rule touched_by_put[OF t later]) (use shards_nth[OF cache_okD(1)[OF ok], of ?key] in simp_all)
  then have "touched_by now' (ca_shards c2)" by (rule touched_by_evicts[OF c2(2)])
  then show ?thesis using c2(3-5) k by (simp add: kept_def store_estimate_def)
next
  case False
  then show ?thesis using k later cache_insert_oversize[of c ly] cache_okD(7)[of hash c] touched_by_mono
    by (fastforce simp: kept_def)
qed

lemma cache_op_kept:
  assumes k: "kept hash limit now c" and later: "now \<le> now'" and r: "request_ok ly r c"
  shows "\<exists>c'. cache_op ly hash now' r c = Some c' \<and> kept hash limit now' c'"
proof -
  have ok: "cache_ok hash c" and t: "touched_by now (ca_shards c)" and t': "touched_by now' (ca_shards c)"
    and limit: "ca_limit c = limit"
    using k touched_by_mono[OF _ later] by (simp_all add: kept_def)
  show ?thesis
  proof (cases r)
    case (Insert heap capacity owner ins)
    then show ?thesis using insert_kept[OF k later] r by blast
  next
    case (Get owner key)
    obtain p c' where g: "derived_get hash now' owner key c = Some (p, c')" "cache_ok hash c'"
      using derived_get_ok[OF ok, of now' owner key] by blast
    from derived_get_snd[OF g(1)] g show ?thesis
      using cache_get_touched[OF ok t later, of "(owner, key)"] limit by (simp add: Get kept_def cache_get_limit)
  next
    case (RemoveOwner owner)
    then show ?thesis using remove_owner_ok[OF ok, of owner] others_touched[OF t', of owner] limit
      by (auto simp: kept_def)
  next
    case Clear
    have "weights (map (\<lambda>_. []) (ca_shards c)) = {#}" by (simp add: weights_def concat_eq_Nil_conv)
    moreover have "touched_by now' (map (\<lambda>_. []) (ca_shards c))" by (simp add: touched_by_def in_touch_order_def)
    ultimately show ?thesis using cache_okD(1,5,7)[OF ok] ledger_exact_default limit
      by (simp add: Clear cache_clear_def kept_def cache_ok_def shards_ok_def shard_ok_def) (simp add: ledger_default_def)
  next
    case (Reserve n)
    then show ?thesis using ok t' limit
      by (auto simp: reserve_buffer_def kept_def cache_ok_def checked_add_def bind_eq_Some_conv split: option.splits)
  next
    case (ReleaseBuffer n)
    then show ?thesis using ok r t' limit by (auto simp: release_buffer_def checked_sub_def kept_def cache_ok_def)
  qed
qed

lemma cache_run_kept: "cache_run ly hash limit now c \<Longrightarrow> limit < u64_max \<Longrightarrow> kept hash limit now c"
proof (induction rule: cache_run.induct)
  case start
  then show ?case using cache_new_ok[of limit hash]
    by (simp add: kept_def cache_new_def touched_by_def in_touch_order_def)
next
  case (step now c now' r c')
  then show ?case using cache_op_kept[of hash limit now c now' ly r] by auto
qed

text \<open>Where the entries of a state are found.\<close>

lemma in_concat_nth: "x \<in> set (concat xss) \<longleftrightarrow> (\<exists>j < length xss. x \<in> set (xss ! j))"
  by (metis UN_iff in_set_conv_nth set_concat)

lemma lookup_entry:
  assumes ok: "shards_ok hash shs" and mem: "(k, e) \<in> set (concat shs)"
  shows "map_of (shs ! (hash k mod shard_count)) k = Some e"
proof -
  obtain j where j: "j < length shs" "(k, e) \<in> set (shs ! j)" using mem by (auto simp only: in_concat_nth)
  then have sh: "shard_ok hash j (shs ! j)" using ok by (simp add: shards_ok_def)
  then have "hash k mod shard_count = j" using j(2) by (auto simp: shard_ok_def)
  then show ?thesis using sh j(2) by (simp add: shard_ok_def)
qed

lemma concat_push:
  assumes i: "i < length shs"
  shows "mset (concat (shs[i := sh @ [x]])) = add_mset x (mset (concat (shs[i := sh])))"
proof -
  have "mset (concat (shs[i := sh @ [x]])) + mset (shs ! i) = mset (concat shs) + mset (sh @ [x])"
    by (rule mset_concat_update[OF i])
  also have "\<dots> = add_mset x (mset (concat shs) + mset sh)" by simp
  also have "\<dots> = add_mset x (mset (concat (shs[i := sh])) + mset (shs ! i))"
    by (simp only: mset_concat_update[OF i])
  finally show ?thesis by simp
qed

lemma placed_entries:
  assumes ok: "shards_ok hash shs" and e: "e = \<lparr>ce_product = p, ce_allocations = allocations ly p,
    ce_overhead = entry_overhead ly heap capacity, ce_touched = now\<rparr>"
  shows "\<exists>xs. mset (concat (placed ly hash now heap capacity k p shs)) = add_mset (k, e) xs \<and>
    set_mset xs = {x \<in> set (concat shs). fst x \<noteq> k}"
proof -
  define i where "i = hash k mod shard_count"
  have i: "i < length shs" using shards_nth[OF ok, of k] by (simp add: i_def)
  let ?shs = "shs[i := without_key k (shs ! i)]"
  have "x \<in> set (concat ?shs) \<longleftrightarrow> x \<in> set (concat shs) \<and> fst x \<noteq> k" for x
  proof
    assume "x \<in> set (concat ?shs)"
    then obtain j where j: "j < length shs" "x \<in> set (?shs ! j)" by (auto simp only: in_concat_nth length_list_update)
    show "x \<in> set (concat shs) \<and> fst x \<noteq> k"
    proof (cases "j = i")
      case True
      then have "x \<in> set (shs ! i)" "fst x \<noteq> k" using j by (auto simp: without_key_def)
      then show ?thesis using nth_mem[OF i] by auto
    next
      case False
      then have x: "x \<in> set (shs ! j)" using j by simp
      then have "hash (fst x) mod shard_count = j" using ok j(1) by (simp add: shards_ok_def shard_ok_def)
      then show ?thesis using False x nth_mem[OF j(1)] by (auto simp: i_def)
    qed
  next
    assume x: "x \<in> set (concat shs) \<and> fst x \<noteq> k"
    then obtain j where j: "j < length shs" "x \<in> set (shs ! j)" by (auto simp only: in_concat_nth)
    then have "x \<in> set (?shs ! j)" using x by (cases "j = i") (auto simp: without_key_def)
    then show "x \<in> set (concat ?shs)" using j(1) nth_mem[of j ?shs] by auto
  qed
  then have "set_mset (mset (concat ?shs)) = {x \<in> set (concat shs). fst x \<noteq> k}"
    unfolding set_mset_mset by (intro set_eqI) (simp only: mem_Collect_eq)
  then show ?thesis using concat_push[OF i, of "without_key k (shs ! i)" "(k, e)"]
    unfolding placed_def Let_def i_def[symmetric] e[symmetric] by blast
qed

section \<open>A cache with one entry\<close>

definition sample_layout :: layout where
  "sample_layout = \<lparr>ly_page = 8, ly_bitmap = 8, ly_usize = 8, ly_owned_key = 8, ly_entry = 8, ly_alloc = 8\<rparr>"

definition sample_cache :: cache where
  "sample_cache = \<lparr>ca_shards = [[((1, HierarchyKey), \<lparr>ce_product = HierarchyProduct 100 10, ce_allocations = [((3, 100), 26)],
      ce_overhead = 104, ce_touched = 1\<rparr>)], [], [], [], [], [], [], []],
    ca_ledger = \<lparr>lg_allocations = [(3, 100) \<mapsto> (26, 1)], lg_bytes = 130, lg_entries = 1\<rparr>,
    ca_estimated = 130, ca_reserved = 0, ca_limit = 300\<rparr>"

lemma evict_under: "\<not> over_budget c \<Longrightarrow> evict c = Some c"
  by (simp add: evict.simps)

lemma small_limit: "300 < u64_max" by (simp add: u64_max_def)

lemma eight_shards: "replicate shard_count [] = [[], [], [], [], [], [], [], []]"
  by (simp add: shard_count_def eval_nat_numeral)

lemma sample_cache_inserted:
  "cache_op sample_layout (\<lambda>_. 0) 1 (Insert 0 1 1 (InsertHierarchy 100 10)) (cache_new 300) = Some sample_cache"
proof -
  have "\<not> over_budget (sample_cache\<lparr>ca_estimated := 0\<rparr>)"
    by (simp add: over_budget_def sample_cache_def max_entries_def u64_max_def)
  from evict_under[OF this] show ?thesis
    by (simp add: cache_insert_def Let_def sample_layout_def cache_new_def eight_shards entry_overhead_def
        arc_counters_def min_def u64_max_def without_key_def ledger_add_def ledger_default_def add_allocation_def
        store_estimate_def sample_cache_def)
qed

lemma sample_run: "cache_run sample_layout (\<lambda>_. 0) 300 1 sample_cache"
  by (rule cache_run.step[OF cache_run.start _ _ sample_cache_inserted])
    (simp_all add: cache_new_def weights_def shard_count_def single_valued_def)

section \<open>Properties\<close>

text \<open>
  C31: From its creation, whatever is inserted, looked up, dropped, reserved or released, the cache stays
  within its byte limit with the reservations counted and within 512 entries; the published estimate is
  the overheads of the entries held plus every live shared allocation counted once; and no operation
  panics: no counter underflows, no accounted allocation is missing, no lookup meets a product of another
  kind. Assumed of the callers: an address names one allocation while it is live, and a reservation is
  released once.
\<close>

theorem cache_stays_within_budget:
  assumes run: "cache_run ly hash limit now c" and limit: "limit < u64_max"
  shows "fst (usage c) \<le> limit \<and> snd (usage c) = limit \<and>
    length (concat (ca_shards c)) \<le> 512 \<and>
    ca_estimated c = (\<Sum>a \<in> live (weights (ca_shards c)). snd a) + (\<Sum>w \<in># weights (ca_shards c). snd w) \<and>
    (\<forall>r now'. request_ok ly r c \<and> now \<le> now' \<longrightarrow> (\<exists>c'. cache_op ly hash now' r c = Some c'))"
proof -
  have kept: "kept hash limit now c" by (rule cache_run_kept[OF run limit])
  then have ok: "cache_ok hash c" and lim: "ca_limit c = limit" by (simp_all add: kept_def)
  note oks = cache_okD[OF ok]
  have "length (concat (ca_shards c)) = lg_entries (ca_ledger c)"
    using oks(2) by (simp add: ledger_exact_def ledger_ok_def weights_def)
  then show ?thesis
    using oks lim ledger_exact_bytes[OF oks(2,3)] cache_op_kept[OF kept]
    by (simp add: max_entries_def usage_def) blast
qed

theorem cache_stays_within_budget_witness:
  "fst (usage sample_cache) \<le> 300 \<and> length (concat (ca_shards sample_cache)) = 1"
  using cache_stays_within_budget[OF sample_run small_limit, THEN conjunct1] by (simp add: sample_cache_def)



text \<open>
  C33: Dropping a snapshot's handle leaves every other owner's entries in place and in order, so their
  lookups answer as before, and none of its own: its lookups miss and it has no orders left.
\<close>

theorem dropped_owner_leaves_no_entries:
  assumes run: "cache_run ly hash limit now c" and limit: "limit < u64_max"
  shows "\<exists>c'. cache_op ly hash t (RemoveOwner owner) c = Some c' \<and>
    ca_shards c' = map (filter (\<lambda>x. fst (fst x) \<noteq> owner)) (ca_shards c) \<and>
    (\<forall>key t'. fst (cache_get hash t' (owner, key) c') = None) \<and> orders owner c' = [] \<and>
    (\<forall>o' key t'. o' = owner \<or> fst (cache_get hash t' (o', key) c') = fst (cache_get hash t' (o', key) c))"
proof -
  have ok: "cache_ok hash c" using cache_run_kept[OF run limit] by (simp add: kept_def)
  obtain c' where c': "remove_owner owner c = Some c'" "cache_ok hash c'" "ca_shards c' = map (others owner) (ca_shards c)"
    using remove_owner_ok[OF ok] by blast
  have look: "map_of (others owner sh) (o', key) = (if o' = owner then None else map_of sh (o', key))" for sh o' key
    by (induction sh) (auto simp: others_def)
  have get: "fst (cache_get hash t' (o', key) c') = (if o' = owner then None else fst (cache_get hash t' (o', key) c))" for t' o' key
    using shards_nth[OF cache_okD(1)[OF ok], of "(o', key)"]
    by (simp add: cache_get_def Let_def c'(3) look split: option.splits)
  have "orders owner c' = []"
    unfolding orders_def c'(3) concat_eq_Nil_conv
    by (auto simp: others_def map_filter_def filter_empty_conv split: cache_key.splits product.splits if_splits)
  then show ?thesis using c' get by (simp add: others_def[abs_def])
qed

theorem dropped_owner_leaves_no_entries_witness:
  "\<exists>c'. cache_op sample_layout (\<lambda>_. 0) 5 (RemoveOwner 1) sample_cache = Some c' \<and> concat (ca_shards c') = []"
proof -
  obtain c' where "cache_op sample_layout (\<lambda>_. 0) 5 (RemoveOwner 1) sample_cache = Some c'"
    "ca_shards c' = map (filter (\<lambda>x. fst (fst x) \<noteq> 1)) (ca_shards sample_cache)"
    using dropped_owner_leaves_no_entries[OF sample_run small_limit, of 5 1] by blast
  then show ?thesis by (simp add: sample_cache_def)
qed


end
