(* ===== verification/Query_Lex.thy ===== *)
theory Query_Lex
  imports Query_Model
begin

text \<open>
  The lexer of \<open>core/src/query.rs\<close> (\<open>lex\<close>). The peekable iterator is the list of the characters left.
  The state of one atom is a record with the source's local variables; \<open>component_start\<close> counts
  characters of the atom instead of bytes, \<open>literal_from\<close> counts bytes as in the source.
\<close>

datatype token = Atom str "nat option" | L | R | OrT | NotT | AndT

record atom_state =
  a_text :: str
  a_quoted :: bool
  a_had_quote :: bool
  a_literal_from :: "nat option"
  a_parens :: nat
  a_regex :: bool
  a_escaped :: bool
  a_class :: bool
  a_numeric :: bool
  a_component_start :: nat

definition atom_start :: atom_state where
  "atom_start = \<lparr>a_text = [], a_quoted = False, a_had_quote = False, a_literal_from = None, a_parens = 0,
     a_regex = False, a_escaped = False, a_class = False, a_numeric = False, a_component_start = 0\<rparr>"

text \<open>An unquoted character that ends the atom.\<close>

definition atom_ends :: "atom_state \<Rightarrow> nat \<Rightarrow> bool" where
  "atom_ends st c \<longleftrightarrow>
     is_whitespace c \<or>
     (if a_regex st \<and> \<not> a_escaped st \<and> \<not> a_class st
      then (c = 60 \<and> ends_with (a_text st) (lit '':'')) \<or> ((c = 41 \<or> c = 62) \<and> a_parens st = 0)
      else \<not> a_regex st \<and>
        (c = 40 \<or> c = 41 \<or> c = 124 \<or>
         ((c = 60 \<or> c = 62) \<and> \<not> a_numeric st \<and> \<not> ends_with (a_text st) (lit ''=''))))"

text \<open>The parentheses of an unquoted regular expression are counted.\<close>

definition atom_parens :: "atom_state \<Rightarrow> nat \<Rightarrow> atom_state" where
  "atom_parens st c =
     (if \<not> a_quoted st \<and> a_regex st \<and> \<not> a_escaped st \<and> \<not> a_class st
      then (if c = 40 then st\<lparr>a_parens := a_parens st + 1\<rparr>
            else if c = 41 then st\<lparr>a_parens := a_parens st - 1\<rparr> else st)
      else st)"

definition numeric_key :: "str \<Rightarrow> bool" where
  "numeric_key k \<longleftrightarrow> numeric_property k \<or> is_metric k \<or>
     one_of k [''size'', ''width'', ''height'', ''duration'', ''pages'', ''dm'', ''dc'', ''modified'',
       ''created'', ''datemodified'', ''datecreated'']"

definition atom_colon :: "atom_state \<Rightarrow> nat \<Rightarrow> atom_state" where
  "atom_colon st c =
     (if c = 58 then
        let key = keyword (drop (a_component_start st) (a_text st));
            mode = (if key = lit ''noregex'' then False else if key = lit ''regex'' then True else a_regex st)
        in st\<lparr>a_regex := mode, a_numeric := numeric_key key, a_component_start := length (a_text st) + 1\<rparr>
      else st\<lparr>a_numeric := False\<rparr>)"

definition atom_regex :: "atom_state \<Rightarrow> nat \<Rightarrow> atom_state" where
  "atom_regex st c =
     (if a_regex st \<and> \<not> a_quoted st then
        if a_escaped st then st\<lparr>a_escaped := False\<rparr>
        else if c = 92 then st\<lparr>a_escaped := True\<rparr>
        else if c = 91 then st\<lparr>a_class := True\<rparr>
        else if c = 93 then st\<lparr>a_class := False\<rparr>
        else st
      else st)"

definition atom_push :: "atom_state \<Rightarrow> nat \<Rightarrow> atom_state" where
  "atom_push st c = st\<lparr>a_text := a_text st @ [c]\<rparr>"

definition atom_quote :: "atom_state \<Rightarrow> atom_state" where
  "atom_quote st =
     st\<lparr>a_literal_from :=
          (if \<not> a_quoted st \<and> a_literal_from st = None then Some (str_len (a_text st)) else a_literal_from st),
        a_quoted := \<not> a_quoted st, a_had_quote := True\<rparr>"

fun atom_loop :: "atom_state \<Rightarrow> str \<Rightarrow> atom_state \<times> str" where
  "atom_loop st [] = (st, [])"
| "atom_loop st (c # cs) =
     (if c = 34 then atom_loop (atom_quote st) cs
      else if c = 92 \<and> a_quoted st then
        (case cs of
           [] \<Rightarrow> atom_loop (atom_push st 92) []
         | d # ds \<Rightarrow> if d = 34 \<or> d = 92 then atom_loop (atom_push st d) ds else atom_loop (atom_push st 92) (d # ds))
      else if \<not> a_quoted st \<and> atom_ends st c then (st, c # cs)
      else atom_loop (atom_push (atom_regex (atom_colon (atom_parens st c) c) c) c) cs)"

lemma atom_loop_progress:
  "atom_loop st cs = (st', rest) \<Longrightarrow> length rest < length cs \<or> rest = cs \<and> st' = st"
proof (induction st cs arbitrary: st' rest rule: atom_loop.induct)
  case (2 st c cs)
  then show ?case by (fastforce split: if_splits list.splits)
qed simp

definition finish_atom :: "atom_state \<Rightarrow> token" where
  "finish_atom st =
     (if \<not> a_had_quote st \<and> a_text st = lit ''OR'' then OrT
      else if \<not> a_had_quote st \<and> a_text st = lit ''AND'' then AndT
      else if \<not> a_had_quote st \<and> a_text st = lit ''NOT'' then NotT
      else Atom (a_text st) (a_literal_from st))"

definition max_tokens :: nat where "max_tokens = 8192"

function lex_loop :: "token list \<Rightarrow> str \<Rightarrow> token list result" where
  "lex_loop out [] = Inr out"
| "lex_loop out (c # cs) =
     (if max_tokens \<le> length out then Inl ''Query exceeds 8192 tokens''
      else if is_whitespace c then lex_loop out cs
      else if c = 40 \<or> c = 60 then lex_loop (out @ [L]) cs
      else if c = 41 \<or> c = 62 then lex_loop (out @ [R]) cs
      else if c = 124 then lex_loop (out @ [OrT]) cs
      else if c = 33 then lex_loop (out @ [NotT]) cs
      else case atom_loop atom_start (c # cs) of (st, rest) \<Rightarrow>
        if a_quoted st then Inl ''Unclosed quotation mark''
        else if a_text st = [] \<and> \<not> a_had_quote st then Inl ''Unexpected query character''
        else lex_loop (out @ [finish_atom st]) rest)"
  by pat_completeness auto
termination
proof (relation "measure (\<lambda>(_, cs). length cs)", goal_cases)
  case (7 out c cs st rest)
  then have p: "atom_loop atom_start (c # cs) = (st, rest)" by simp
  moreover have "st \<noteq> atom_start" using 7 by (auto simp: atom_start_def)
  ultimately show ?case using atom_loop_progress [OF p] by simp
qed simp_all

declare lex_loop.simps(2) [simp del]

definition lex :: "str \<Rightarrow> token list result" where
  "lex input = (if 65536 < str_len input then Inl ''Query exceeds 64 KiB'' else lex_loop [] input)"

section \<open>The token limit and the dead error branch\<close>

lemma lex_loop_length: "lex_loop out cs = Inr ts \<Longrightarrow> length out \<le> max_tokens \<Longrightarrow> length ts \<le> max_tokens"
proof (induction out cs rule: lex_loop.induct)
  case (2 out c cs)
  then show ?case
    by (auto simp: lex_loop.simps(2) split: if_splits prod.splits)
qed simp

lemma atom_loop_first:
  assumes "\<not> is_whitespace c" "c \<notin> {40, 41, 60, 62, 124}"
  shows "atom_loop atom_start (c # cs) \<noteq> (atom_start, c # cs)"
proof
  assume eq: "atom_loop atom_start (c # cs) = (atom_start, c # cs)"
  show False
  proof (cases "c = 34")
    case True
    then show False using eq atom_loop_progress [of "atom_quote atom_start" cs atom_start "c # cs"] by simp
  next
    case False
    have "\<not> atom_ends atom_start c" using assms by (auto simp: atom_ends_def atom_start_def)
    then show False using eq False atom_loop_progress [of _ cs atom_start "c # cs"]
      by (auto simp: atom_start_def split: if_splits)
  qed
qed

text \<open>Every atom keeps a character or a quote, so the last error of the lexer is never raised.\<close>

lemma atom_loop_nonempty:
  "atom_loop st cs = (st', rest) \<Longrightarrow> rest = cs \<and> st' = st \<or> a_text st' \<noteq> [] \<or> a_had_quote st'"
proof (induction st cs arbitrary: st' rest rule: atom_loop.induct)
  case (2 st c cs)
  have push: "a_text (atom_push s x) \<noteq> []" "a_had_quote (atom_quote s)" for s x
    by (simp_all add: atom_push_def atom_quote_def)
  show ?case using 2 push by (auto split: if_splits list.splits) metis+
qed simp

lemma lex_loop_errors:
  "lex_loop out cs = Inl e \<Longrightarrow> e = ''Query exceeds 8192 tokens'' \<or> e = ''Unclosed quotation mark''"
proof (induction out cs rule: lex_loop.induct)
  case (2 out c cs)
  obtain st rest where a: "atom_loop atom_start (c # cs) = (st, rest)" by fastforce
  have "a_text st \<noteq> [] \<or> a_had_quote st" if "\<not> is_whitespace c" "c \<notin> {40, 41, 60, 62, 124}"
    using atom_loop_first [OF that, of cs] atom_loop_nonempty [OF a] atom_loop_progress [OF a] a by auto
  then show ?case using 2 a by (auto simp: lex_loop.simps(2) split: if_splits)
qed simp

section \<open>Printing tokens\<close>

fun escape :: "str \<Rightarrow> str" where
  "escape [] = []"
| "escape (c # cs) = (if c = 34 \<or> c = 92 then 92 # c # escape cs else c # escape cs)"

fun print_token :: "token \<Rightarrow> str" where
  "print_token (Atom s _) = 34 # escape s @ [34, 32]"
| "print_token L = [40, 32]"
| "print_token R = [41, 32]"
| "print_token OrT = [124, 32]"
| "print_token NotT = [33, 32]"
| "print_token AndT = [65, 78, 68, 32]"

fun quoted_token :: "token \<Rightarrow> bool" where
  "quoted_token (Atom _ from) = (from = Some 0)"
| "quoted_token _ = True"

lemma atom_fields:
  "a_text (atom_regex (atom_colon (atom_parens st c) c) c) = a_text st"
  "a_quoted (atom_regex (atom_colon (atom_parens st c) c) c) = a_quoted st"
  "a_had_quote (atom_regex (atom_colon (atom_parens st c) c) c) = a_had_quote st"
  "a_literal_from (atom_regex (atom_colon (atom_parens st c) c) c) = a_literal_from st"
  by (simp_all add: atom_regex_def atom_colon_def atom_parens_def Let_def)

lemma quoted_loop:
  "a_quoted st \<Longrightarrow> \<exists>st'. atom_loop st (escape s @ 34 # rest) = atom_loop (atom_quote st') rest \<and>
     a_text st' = a_text st @ s \<and> a_quoted st' \<and> a_literal_from st' = a_literal_from st"
proof (induction s arbitrary: st)
  case Nil
  then show ?case by auto
next
  case (Cons c s)
  define st1 where "st1 = (if c = 34 \<or> c = 92 then atom_push st c
    else atom_push (atom_regex (atom_colon (atom_parens st c) c) c) c)"
  have st1: "a_quoted st1" "a_text st1 = a_text st @ [c]" "a_literal_from st1 = a_literal_from st"
    using Cons.prems by (simp_all add: st1_def atom_push_def atom_fields)
  have "atom_loop st (escape (c # s) @ 34 # rest) = atom_loop st1 (escape s @ 34 # rest)"
    using Cons.prems by (simp add: st1_def)
  with Cons.IH [OF st1(1)] st1 show ?case by auto
qed

lemma atom_loop_quoted:
  "\<exists>st. atom_loop atom_start (34 # escape s @ 34 # 32 # rest) = (st, 32 # rest) \<and>
     a_text st = s \<and> \<not> a_quoted st \<and> a_had_quote st \<and> a_literal_from st = Some 0"
proof -
  let ?st = "atom_quote atom_start"
  have st: "a_quoted ?st" "a_text ?st = []" "a_literal_from ?st = Some 0"
    by (simp_all add: atom_quote_def atom_start_def str_len_def as_bytes_def)
  obtain st' where st': "atom_loop ?st (escape s @ 34 # 32 # rest) = atom_loop (atom_quote st') (32 # rest)"
      "a_text st' = s" "a_quoted st'" "a_literal_from st' = Some 0"
    using quoted_loop [OF st(1), of s "32 # rest"] st(2,3) by auto
  have "atom_loop (atom_quote st') (32 # rest) = (atom_quote st', 32 # rest)"
    using st'(3) by (simp add: atom_ends_def is_whitespace_def atom_quote_def)
  then show ?thesis using st' by (intro exI [of _ "atom_quote st'"]) (simp add: atom_quote_def)
qed

lemma lex_loop_space: "length out < max_tokens \<Longrightarrow> lex_loop out (32 # cs) = lex_loop out cs"
  by (simp add: lex_loop.simps(2) is_whitespace_def)

lemma lex_loop_and: "length out < max_tokens \<Longrightarrow> lex_loop out (65 # 78 # 68 # 32 # cs) = lex_loop (out @ [AndT]) (32 # cs)"
  by (subst lex_loop.simps(2))
    (simp add: is_whitespace_def atom_start_def atom_ends_def atom_push_def atom_regex_def atom_colon_def
      atom_parens_def finish_atom_def lit_def)

lemma lex_loop_token:
  assumes "Suc (length out) < max_tokens" "quoted_token t"
  shows "lex_loop out (print_token t @ cs) = lex_loop (out @ [t]) cs"
proof (cases t)
  case (Atom s lf)
  obtain st where st: "atom_loop atom_start (34 # escape s @ 34 # 32 # cs) = (st, 32 # cs)"
      "a_text st = s" "\<not> a_quoted st" "a_had_quote st" "a_literal_from st = Some 0"
    using atom_loop_quoted [of s cs] by blast
  then have "finish_atom st = t" using Atom assms(2) by (simp add: finish_atom_def)
  then have "lex_loop out (print_token t @ cs) = lex_loop (out @ [t]) (32 # cs)"
    using st Atom assms(1) by (simp add: lex_loop.simps(2) [of out 34] is_whitespace_def del: atom_loop.simps)
  then show ?thesis using assms(1) by (simp add: lex_loop_space)
next
  case AndT
  then show ?thesis using assms(1) by (simp add: lex_loop_and lex_loop_space)
qed (use assms(1) in \<open>simp_all add: lex_loop.simps(2) is_whitespace_def\<close>)

lemma lex_loop_print:
  "length out + length ts < max_tokens \<Longrightarrow> list_all quoted_token ts \<Longrightarrow>
     lex_loop out (concat (map print_token ts)) = Inr (out @ ts)"
  by (induction ts arbitrary: out) (simp_all add: lex_loop_token)

section \<open>Properties\<close>

text \<open>
  C23: the lexer accepts any text. Its only errors are the size limit, the token limit and an unclosed
  quotation mark (the fourth error text of the source cannot occur), and what it returns respects the
  token limit.
\<close>

theorem lex_total:
  "case lex input of
     Inl e \<Rightarrow> e \<in> {''Query exceeds 64 KiB'', ''Query exceeds 8192 tokens'', ''Unclosed quotation mark''}
   | Inr ts \<Rightarrow> str_len input \<le> 65536 \<and> length ts \<le> 8192"
  using lex_loop_errors [of "[]" input] lex_loop_length [of "[]" input]
  by (auto simp: lex_def max_tokens_def split: sum.splits)

text \<open>Quoting and escaping is inverted by the lexer: every sequence of operators and of arbitrary
  texts written as quoted atoms is read back unchanged, whatever the texts contain.\<close>

lemma lex_print:
  assumes "length ts < 8192" "list_all quoted_token ts" "str_len (concat (map print_token ts)) \<le> 65536"
  shows "lex (concat (map print_token ts)) = Inr ts"
  using assms lex_loop_print [of "[]" ts] by (simp add: lex_def max_tokens_def)

end
