(* ===== verification/Query_Parse.thy ===== *)
theory Query_Parse
  imports Query_Lex Query_Atom
begin

text \<open>
  The parser of \<open>core/src/query.rs\<close>: \<open>ExpressionFrame\<close>, \<open>Parser::parse\<close> and \<open>parse_at\<close>. One turn of the
  source's loop is \<open>parse_step\<close> on the current frame, the suspended frames (innermost first) and the
  number of expressions still allowed; \<open>parse_run\<close> is the loop. The macros are a map.

  The theory shows that the loop ends, that it only builds well-formed queries, and that it inverts
  the printing of every expression within the limits, with OR binding tighter than AND.
\<close>

section \<open>Frames\<close>

datatype expression_scope = Root | Group "bool option" "bool option" | Macro

record frame =
  f_tokens :: "token list"
  f_options :: match_options
  f_scope :: expression_scope
  f_macro_depth :: nat
  f_nesting :: nat
  f_negations :: nat
  f_expecting :: bool
  f_conjunction :: "query list"
  f_disjunction :: "query list"

definition frame_new :: "token list \<Rightarrow> match_options \<Rightarrow> expression_scope \<Rightarrow> nat \<Rightarrow> nat \<Rightarrow> frame" where
  "frame_new ts opts scope depth nesting = \<lparr>f_tokens = ts, f_options = opts, f_scope = scope,
     f_macro_depth = depth, f_nesting = nesting, f_negations = 0, f_expecting = True,
     f_conjunction = [], f_disjunction = []\<rparr>"

definition accept :: "frame \<Rightarrow> query \<Rightarrow> frame" where
  "accept f q = f\<lparr>f_negations := 0, f_disjunction := f_disjunction f @ [(QNot ^^ f_negations f) q],
     f_expecting := False\<rparr>"

fun or_query :: "query list \<Rightarrow> query" where
  "or_query [q] = q"
| "or_query qs = QOr qs"

definition finish_disjunction :: "frame \<Rightarrow> query \<times> frame" where
  "finish_disjunction f = (or_query (f_disjunction f), f\<lparr>f_disjunction := []\<rparr>)"

definition finish :: "frame \<Rightarrow> query" where
  "finish f =
     (let (q, f') = finish_disjunction f
      in if f_conjunction f' = [] then q else QAnd (f_conjunction f' @ [q]))"

section \<open>The loop\<close>

datatype step = Next frame "frame list" nat | Done "query result"

text \<open>The end of an expression: end of tokens or a closing token.\<close>

definition close_frame :: "frame \<Rightarrow> frame list \<Rightarrow> nat \<Rightarrow> step" where
  "close_frame f suspended remaining =
     (case f_scope f of
        Group kind related \<Rightarrow>
          (case f_tokens f of
             [] \<Rightarrow> Done (Inl ''Unclosed search group'')
           | _ # ts \<Rightarrow>
               (case suspended of
                  [] \<Rightarrow> Done (Inr (finish f))
                | outer # rest \<Rightarrow>
                    let q = restrict_type (finish f) kind;
                        q' = (case related of Some recursive \<Rightarrow> QTerm (Related recursive q) | None \<Rightarrow> q)
                    in Next (accept (outer\<lparr>f_tokens := ts\<rparr>) q') rest remaining))
      | Root \<Rightarrow>
          if f_tokens f \<noteq> [] then Done (Inl ''Unexpected closing group or trailing token'')
          else (case suspended of [] \<Rightarrow> Done (Inr (finish f)) | outer # rest \<Rightarrow> Next (accept outer (finish f)) rest remaining)
      | Macro \<Rightarrow>
          if f_tokens f \<noteq> [] then Done (Inl ''Unexpected closing group in macro'')
          else (case suspended of [] \<Rightarrow> Done (Inr (finish f)) | outer # rest \<Rightarrow> Next (accept outer (finish f)) rest remaining))"

text \<open>The options and the type of a group that an atom such as \<open>path:\<close> or \<open>child:\<close> opens.\<close>

definition group_scope ::
  "str \<Rightarrow> nat option \<Rightarrow> match_options \<Rightarrow> token list \<Rightarrow> (match_options \<times> bool option \<times> bool option) option" where
  "group_scope s literal_from opts ts =
     (if literal_from \<noteq> Some 0 \<and> ts \<noteq> [] \<and> hd ts = L then
        (case relation_scope s opts of
           Some (recursive, kind, opts') \<Rightarrow> Some (opts', kind, Some recursive)
         | None \<Rightarrow>
             (case scoped_options s opts of Some (opts', kind) \<Rightarrow> Some (opts', kind, None) | None \<Rightarrow> None))
      else None)"

definition macro_value :: "(str \<Rightarrow> str option) \<Rightarrow> str \<Rightarrow> nat option \<Rightarrow> str option" where
  "macro_value macros s literal_from =
     (if literal_from \<noteq> Some 0 then Option.bind (strip_suffix s (lit '':'')) macros else None)"

definition atom_step ::
  "crates \<Rightarrow> (str \<Rightarrow> str option) \<Rightarrow> frame \<Rightarrow> frame list \<Rightarrow> nat \<Rightarrow> nat \<Rightarrow> str \<Rightarrow> nat option \<Rightarrow> step" where
  "atom_step cr macros f suspended remaining nesting s literal_from =
     (case group_scope s literal_from (f_options f) (f_tokens f) of
        Some (opts, kind, related) \<Rightarrow>
          Next (frame_new (tl (f_tokens f)) opts (Group kind related) (f_macro_depth f) (nesting + 1))
            (f\<lparr>f_tokens := []\<rparr> # suspended) remaining
      | None \<Rightarrow>
          (case macro_value macros s literal_from of
             Some value \<Rightarrow>
               if 16 \<le> f_macro_depth f then Done (Inl ''Macro expansion exceeds 16 levels (possible cycle)'')
               else (case lex value of
                       Inl e \<Rightarrow> Done (Inl e)
                     | Inr [] \<Rightarrow> Next (accept f QAll) suspended remaining
                     | Inr ts \<Rightarrow>
                         Next (frame_new ts (f_options f) Macro (f_macro_depth f + 1) (nesting + 1)) (f # suspended) remaining)
           | None \<Rightarrow>
               (case atom_with_options cr s (f_options f) literal_from of
                  Inl e \<Rightarrow> Done (Inl e)
                | Inr q \<Rightarrow> Next (accept f q) suspended remaining)))"

text \<open>The part of the loop that reads an operand, under the limits on nesting and on expressions.\<close>

definition operand_step ::
  "crates \<Rightarrow> (str \<Rightarrow> str option) \<Rightarrow> frame \<Rightarrow> frame list \<Rightarrow> nat \<Rightarrow> step" where
  "operand_step cr macros f suspended remaining =
     (let nesting = f_nesting f + f_negations f in
      if 128 \<le> nesting then Done (Inl ''Search expression nesting exceeds 128 levels'')
      else if remaining = 0 then Done (Inl ''Expanded query exceeds 8192 expressions'')
      else case f_tokens f of
        [] \<Rightarrow> Done (Inl ''Missing search expression'')
      | t # ts \<Rightarrow>
          (let g = f\<lparr>f_tokens := ts\<rparr> in
           case t of
             NotT \<Rightarrow> Next (g\<lparr>f_negations := f_negations g + 1\<rparr>) suspended (remaining - 1)
           | L \<Rightarrow> Next (frame_new ts (f_options g) (Group None None) (f_macro_depth g) (nesting + 1))
                   (g\<lparr>f_tokens := []\<rparr> # suspended) (remaining - 1)
           | Atom s literal_from \<Rightarrow> atom_step cr macros g suspended (remaining - 1) nesting s literal_from
           | _ \<Rightarrow> Done (Inl ''Expected a search expression'')))"

definition next_conjunct :: "frame \<Rightarrow> frame" where
  "next_conjunct f =
     (let f1 = (if f_tokens f \<noteq> [] \<and> hd (f_tokens f) = AndT then f\<lparr>f_tokens := tl (f_tokens f)\<rparr> else f);
          (q, f2) = finish_disjunction f1
      in f2\<lparr>f_conjunction := f_conjunction f2 @ [q], f_expecting := True\<rparr>)"

definition parse_step ::
  "crates \<Rightarrow> (str \<Rightarrow> str option) \<Rightarrow> frame \<Rightarrow> frame list \<Rightarrow> nat \<Rightarrow> step" where
  "parse_step cr macros f suspended remaining =
     (if \<not> f_expecting f then
        (case f_tokens f of
           OrT # ts \<Rightarrow> Next (f\<lparr>f_tokens := ts, f_expecting := True\<rparr>) suspended remaining
         | [] \<Rightarrow> close_frame f suspended remaining
         | R # _ \<Rightarrow> close_frame f suspended remaining
         | _ \<Rightarrow> operand_step cr macros (next_conjunct f) suspended remaining)
      else operand_step cr macros f suspended remaining)"

definition pending :: "frame \<Rightarrow> frame list \<Rightarrow> nat" where
  "pending f suspended = length (f_tokens f) + sum_list (map (length \<circ> f_tokens) suspended) + length suspended"

lemma frame_tokens [simp]:
  "f_tokens (accept f q) = f_tokens f" "f_tokens (frame_new ts opts scope depth n) = ts"
  by (simp_all add: accept_def frame_new_def)

lemma operand_step_remaining:
  "operand_step cr macros f suspended remaining = Next f' suspended' remaining' \<Longrightarrow> remaining' < remaining"
  by (auto simp: operand_step_def atom_step_def Let_def
      split: if_splits list.splits token.splits option.splits prod.splits sum.splits)

lemma close_frame_pending:
  "close_frame f suspended remaining = Next f' suspended' remaining' \<Longrightarrow>
     remaining' = remaining \<and> pending f' suspended' < pending f suspended"
  by (auto simp: close_frame_def pending_def Let_def split: expression_scope.splits if_splits list.splits)

lemma parse_step_decreases:
  "parse_step cr macros f suspended remaining = Next f' suspended' remaining' \<Longrightarrow>
     remaining' < remaining \<or> remaining' = remaining \<and> pending f' suspended' < pending f suspended"
  by (auto simp: parse_step_def pending_def dest: operand_step_remaining close_frame_pending
      split: if_splits list.splits token.splits)

function parse_run ::
  "crates \<Rightarrow> (str \<Rightarrow> str option) \<Rightarrow> frame \<Rightarrow> frame list \<Rightarrow> nat \<Rightarrow> query result" where
  "parse_run cr macros f suspended remaining =
     (case parse_step cr macros f suspended remaining of
        Done r \<Rightarrow> r
      | Next f' suspended' remaining' \<Rightarrow> parse_run cr macros f' suspended' remaining')"
  by pat_completeness auto
termination
  by (relation "inv_image (less_than <*lex*> less_than) (\<lambda>(_, _, f, suspended, remaining). (remaining, pending f suspended))")
    (auto dest: parse_step_decreases)

declare parse_run.simps [simp del]

definition parser_parse ::
  "crates \<Rightarrow> (str \<Rightarrow> str option) \<Rightarrow> nat \<Rightarrow> token list \<Rightarrow> match_options \<Rightarrow> query result" where
  "parser_parse cr macros remaining ts opts = parse_run cr macros (frame_new ts opts Root 0 0) [] remaining"

definition parse_at :: "crates \<Rightarrow> str \<Rightarrow> (str \<Rightarrow> str option) \<Rightarrow> int \<Rightarrow> query result" where
  "parse_at cr input macros now =
     bind_result (lex input) (\<lambda>ts.
       if ts = [] then Inr QAll else parser_parse cr macros 8192 ts (default_options now))"

section \<open>The parser builds well-formed queries\<close>

definition wf_frame :: "crates \<Rightarrow> frame \<Rightarrow> bool" where
  "wf_frame cr f \<longleftrightarrow> wf_queries cr (f_conjunction f) \<and> wf_queries cr (f_disjunction f)"

fun wf_step :: "crates \<Rightarrow> step \<Rightarrow> bool" where
  "wf_step cr (Next f suspended remaining) = (wf_frame cr f \<and> list_all (wf_frame cr) suspended)"
| "wf_step cr (Done (Inr q)) = wf_query cr q"
| "wf_step cr (Done (Inl e)) = True"

lemma wf_queries_append [simp]: "wf_queries cr (qs @ rs) \<longleftrightarrow> wf_queries cr qs \<and> wf_queries cr rs"
  by (induction qs) simp_all

lemma wf_frame_new [simp]: "wf_frame cr (frame_new ts opts scope depth n)"
  by (simp add: wf_frame_def frame_new_def)

lemma wf_frame_update [simp]:
  "wf_frame cr (f\<lparr>f_tokens := ts\<rparr>) = wf_frame cr f" "wf_frame cr (f\<lparr>f_negations := n\<rparr>) = wf_frame cr f"
  "wf_frame cr (f\<lparr>f_expecting := b\<rparr>) = wf_frame cr f"
  by (simp_all add: wf_frame_def)

lemma wf_accept: "wf_frame cr f \<Longrightarrow> wf_query cr q \<Longrightarrow> wf_frame cr (accept f q)"
proof -
  have "wf_query cr ((QNot ^^ n) q) = wf_query cr q" for n by (induction n) simp_all
  then show "wf_frame cr f \<Longrightarrow> wf_query cr q \<Longrightarrow> wf_frame cr (accept f q)"
    by (simp add: wf_frame_def accept_def)
qed

lemma wf_or_query: "wf_queries cr qs \<Longrightarrow> wf_query cr (or_query qs)"
  by (cases qs rule: or_query.cases) simp_all

lemma wf_finish: "wf_frame cr f \<Longrightarrow> wf_query cr (finish f)"
  by (simp add: finish_def finish_disjunction_def wf_frame_def wf_or_query)

lemma wf_next_conjunct: "wf_frame cr f \<Longrightarrow> wf_frame cr (next_conjunct f)"
  by (simp add: next_conjunct_def finish_disjunction_def wf_frame_def Let_def wf_or_query)

lemma wf_close_frame:
  "wf_frame cr f \<Longrightarrow> list_all (wf_frame cr) suspended \<Longrightarrow> wf_step cr (close_frame f suspended remaining)"
  by (auto simp: close_frame_def Let_def wf_finish intro!: wf_accept
      split: expression_scope.splits list.splits option.splits)

lemma wf_atom_step:
  assumes "\<And>k. \<exists>r. c_powi10 cr k = Fin r" "wf_frame cr f" "list_all (wf_frame cr) suspended"
  shows "wf_step cr (atom_step cr macros f suspended remaining nesting s literal_from)"
  using assms(2,3) wf_atom [OF assms(1)]
  by (auto simp: atom_step_def intro!: wf_accept split: option.splits sum.splits list.splits)

lemma wf_operand_step:
  assumes "\<And>k. \<exists>r. c_powi10 cr k = Fin r" "wf_frame cr f" "list_all (wf_frame cr) suspended"
  shows "wf_step cr (operand_step cr macros f suspended remaining)"
  using assms(2,3) wf_atom_step [OF assms(1)]
  by (auto simp: operand_step_def Let_def split: list.splits token.splits)

lemma wf_parse_step:
  assumes "\<And>k. \<exists>r. c_powi10 cr k = Fin r" "wf_frame cr f" "list_all (wf_frame cr) suspended"
  shows "wf_step cr (parse_step cr macros f suspended remaining)"
  using assms(2,3) wf_operand_step [OF assms] wf_operand_step [OF assms(1) wf_next_conjunct [OF assms(2)] assms(3)]
  by (auto simp: parse_step_def intro: wf_close_frame split: list.splits token.splits)

lemma wf_parse_run:
  assumes "\<And>k. \<exists>r. c_powi10 cr k = Fin r"
  shows "wf_frame cr f \<Longrightarrow> list_all (wf_frame cr) suspended \<Longrightarrow>
    parse_run cr macros f suspended remaining = Inr q \<Longrightarrow> wf_query cr q"
  using assms
proof (induction cr macros f suspended remaining rule: parse_run.induct)
  case (1 cr macros f suspended remaining)
  note wf = wf_parse_step [OF "1.prems"(4,1,2), of macros remaining]
  show ?case
  proof (cases "parse_step cr macros f suspended remaining")
    case (Next f' suspended' remaining')
    then have "parse_run cr macros f' suspended' remaining' = Inr q"
      using "1.prems"(3) by (subst (asm) parse_run.simps) simp
    then show ?thesis using "1.IH" [OF Next] wf Next "1.prems"(4) by simp
  next
    case (Done r)
    then show ?thesis using "1.prems"(3) wf by (subst (asm) parse_run.simps) simp
  qed
qed

section \<open>Printed expressions are read back\<close>

text \<open>
  Expressions: an operand is a quoted text, a negation or a group; a group is a conjunction of
  disjunctions of operands. They are printed with an explicit or with an implicit AND.
\<close>

datatype operand = Quoted str | Negated operand | Grouped "operand list list"

fun join :: "'a list \<Rightarrow> 'a list list \<Rightarrow> 'a list" where
  "join sep [] = []"
| "join sep [x] = x"
| "join sep (x # xs) = x @ sep @ join sep xs"

definition and_token :: "bool \<Rightarrow> token list" where
  "and_token explicit = (if explicit then [AndT] else [])"

fun print_operand :: "bool \<Rightarrow> operand \<Rightarrow> token list" where
  "print_operand explicit (Quoted s) = [Atom s (Some 0)]"
| "print_operand explicit (Negated u) = NotT # print_operand explicit u"
| "print_operand explicit (Grouped css) =
     L # join (and_token explicit) (map (\<lambda>us. join [OrT] (map (print_operand explicit) us)) css) @ [R]"

definition print_conjunction :: "bool \<Rightarrow> operand list list \<Rightarrow> token list" where
  "print_conjunction explicit css =
     join (and_token explicit) (map (\<lambda>us. join [OrT] (map (print_operand explicit) us)) css)"

fun and_query :: "query list \<Rightarrow> query" where
  "and_query [q] = q"
| "and_query qs = QAnd qs"

fun operand_query :: "(str \<Rightarrow> query) \<Rightarrow> operand \<Rightarrow> query" where
  "operand_query atom (Quoted s) = atom s"
| "operand_query atom (Negated u) = QNot (operand_query atom u)"
| "operand_query atom (Grouped css) =
     and_query (map (\<lambda>us. or_query (map (operand_query atom) us)) css)"

definition conjunction_query :: "(str \<Rightarrow> query) \<Rightarrow> operand list list \<Rightarrow> query" where
  "conjunction_query atom css = and_query (map (\<lambda>us. or_query (map (operand_query atom) us)) css)"

text \<open>What an operand counts against the limits, and no empty lists.\<close>

fun operand_cost :: "operand \<Rightarrow> nat" where
  "operand_cost (Quoted s) = 1"
| "operand_cost (Negated u) = 1 + operand_cost u"
| "operand_cost (Grouped css) = 1 + sum_list (map (\<lambda>us. sum_list (map operand_cost us)) css)"

fun operand_depth_le :: "nat \<Rightarrow> operand \<Rightarrow> bool" where
  "operand_depth_le n (Quoted s) = True"
| "operand_depth_le n (Negated u) = (n \<noteq> 0 \<and> operand_depth_le (n - 1) u)"
| "operand_depth_le n (Grouped css) =
     (n \<noteq> 0 \<and> css \<noteq> [] \<and> list_all (\<lambda>us. us \<noteq> [] \<and> list_all (operand_depth_le (n - 1)) us) css)"

fun operand_atoms :: "operand \<Rightarrow> str set" where
  "operand_atoms (Quoted s) = {s}"
| "operand_atoms (Negated u) = operand_atoms u"
| "operand_atoms (Grouped css) = (\<Union>us \<in> set css. \<Union>u \<in> set us. operand_atoms u)"

text \<open>The loop reads an operand and accepts its query in the frame.\<close>

definition reads ::
  "crates \<Rightarrow> (str \<Rightarrow> str option) \<Rightarrow> match_options \<Rightarrow> (str \<Rightarrow> query) \<Rightarrow> bool \<Rightarrow> nat \<Rightarrow> operand \<Rightarrow> bool" where
  "reads cr macros opts atom explicit n u \<longleftrightarrow> (\<forall>f suspended remaining rest.
     f_expecting f \<and> f_options f = opts \<and> f_tokens f = print_operand explicit u @ rest \<and>
     f_nesting f + f_negations f + n < 128 \<and> operand_cost u \<le> remaining \<longrightarrow>
     parse_run cr macros f suspended remaining =
     parse_run cr macros (accept (f\<lparr>f_tokens := rest\<rparr>) (operand_query atom u)) suspended (remaining - operand_cost u))"

lemma run_next:
  "parse_step cr macros f suspended remaining = Next f' suspended' remaining' \<Longrightarrow>
     parse_run cr macros f suspended remaining = parse_run cr macros f' suspended' remaining'"
  by (subst parse_run.simps) simp

lemma run_disjunction:
  assumes "list_all (reads cr macros opts atom explicit n) us" "us \<noteq> []"
    "f_expecting f" "f_options f = opts" "f_nesting f + n < 128" "f_negations f = 0"
    "f_tokens f = join [OrT] (map (print_operand explicit) us) @ rest" "sum_list (map operand_cost us) \<le> remaining"
  shows "parse_run cr macros f suspended remaining =
    parse_run cr macros (f\<lparr>f_tokens := rest, f_negations := 0,
        f_disjunction := f_disjunction f @ map (operand_query atom) us, f_expecting := False\<rparr>) suspended
      (remaining - sum_list (map operand_cost us))"
  using assms
proof (induction us arbitrary: f remaining)
  case (Cons u us)
  have u: "reads cr macros opts atom explicit n u" using Cons.prems(1) by simp
  show ?case
  proof (cases us)
    case Nil
    then have "parse_run cr macros f suspended remaining =
        parse_run cr macros (accept (f\<lparr>f_tokens := rest\<rparr>) (operand_query atom u)) suspended (remaining - operand_cost u)"
      using u Cons.prems unfolding reads_def by (intro u [unfolded reads_def, rule_format]) simp
    then show ?thesis using Nil Cons.prems(6) by (simp add: accept_def)
  next
    case (Cons v vs)
    let ?r = "join [OrT] (map (print_operand explicit) us) @ rest"
    let ?g = "accept (f\<lparr>f_tokens := OrT # ?r\<rparr>) (operand_query atom u)"
    have "parse_run cr macros f suspended remaining = parse_run cr macros ?g suspended (remaining - operand_cost u)"
      using Cons Cons.prems by (intro u [unfolded reads_def, rule_format]) simp
    also have "\<dots> = parse_run cr macros (?g\<lparr>f_tokens := ?r, f_expecting := True\<rparr>) suspended (remaining - operand_cost u)"
      by (rule run_next) (simp add: parse_step_def accept_def)
    also have "\<dots> = parse_run cr macros (?g\<lparr>f_tokens := rest, f_negations := 0,
        f_disjunction := f_disjunction ?g @ map (operand_query atom) us, f_expecting := False\<rparr>) suspended
        (remaining - operand_cost u - sum_list (map operand_cost us))"
      using Cons Cons.prems
      by (subst Cons.IH [of "?g\<lparr>f_tokens := ?r, f_expecting := True\<rparr>"]) (simp_all add: accept_def)
    finally show ?thesis using Cons.prems(6) by (simp add: accept_def)
  qed
qed simp

lemma print_operand_start:
  "\<exists>t ts. print_operand explicit u = t # ts \<and> t \<noteq> OrT \<and> t \<noteq> AndT \<and> t \<noteq> R"
  by (cases u) auto

lemma join_start: "xs \<noteq> [] \<Longrightarrow> hd xs = t # ts \<Longrightarrow> \<exists>ts'. join sep xs = t # ts'"
  by (cases "(sep, xs)" rule: join.cases) auto

lemma print_conjunction_start:
  assumes "css \<noteq> []" "hd css \<noteq> []"
  shows "\<exists>t ts. print_conjunction explicit css = t # ts \<and> t \<noteq> OrT \<and> t \<noteq> AndT \<and> t \<noteq> R"
proof -
  obtain us css' u us' where c: "css = us # css'" "us = u # us'"
    using assms by (cases css; cases "hd css") auto
  obtain t ts where t: "print_operand explicit u = t # ts" "t \<noteq> OrT" "t \<noteq> AndT" "t \<noteq> R"
    using print_operand_start by blast
  obtain ts' where "join [OrT] (map (print_operand explicit) us) = t # ts'"
    using join_start [of "map (print_operand explicit) us" t ts "[OrT]"] t(1) c(2) by auto
  then obtain ts'' where "print_conjunction explicit css = t # ts''"
    using join_start [of "map (\<lambda>us. join [OrT] (map (print_operand explicit) us)) css" t ts' "and_token explicit"] c(1)
    by (auto simp: print_conjunction_def)
  then show ?thesis using t by blast
qed

text \<open>After a complete disjunction, more operands start the next conjunct, with or without AND.\<close>

lemma step_conjunct:
  assumes "\<not> f_expecting f" "f_tokens f = and_token explicit @ t # ts" "t \<noteq> OrT" "t \<noteq> AndT" "t \<noteq> R"
  shows "parse_run cr macros f suspended remaining =
    parse_run cr macros (f\<lparr>f_tokens := t # ts, f_conjunction := f_conjunction f @ [or_query (f_disjunction f)],
      f_disjunction := [], f_expecting := True\<rparr>) suspended remaining"
proof -
  let ?g = "f\<lparr>f_tokens := t # ts, f_conjunction := f_conjunction f @ [or_query (f_disjunction f)],
      f_disjunction := [], f_expecting := True\<rparr>"
  have "next_conjunct f = ?g"
    using assms by (cases explicit) (simp_all add: next_conjunct_def finish_disjunction_def and_token_def Let_def)
  then have "parse_step cr macros f suspended remaining = parse_step cr macros ?g suspended remaining"
    using assms by (cases explicit; cases t) (simp_all add: parse_step_def and_token_def)
  then show ?thesis by (subst (1 2) parse_run.simps) simp
qed

lemma run_conjunction:
  assumes "list_all (\<lambda>us. us \<noteq> [] \<and> list_all (reads cr macros opts atom explicit n) us) css" "css \<noteq> []"
    "f_expecting f" "f_options f = opts" "f_nesting f + n < 128" "f_negations f = 0" "f_disjunction f = []"
    "f_tokens f = print_conjunction explicit css @ rest"
    "sum_list (map (\<lambda>us. sum_list (map operand_cost us)) css) \<le> remaining"
  shows "\<exists>g. parse_run cr macros f suspended remaining =
      parse_run cr macros g suspended (remaining - sum_list (map (\<lambda>us. sum_list (map operand_cost us)) css)) \<and>
    \<not> f_expecting g \<and> f_tokens g = rest \<and> f_scope g = f_scope f \<and>
    finish g = (if f_conjunction f = [] then conjunction_query atom css
      else QAnd (f_conjunction f @ map (\<lambda>us. or_query (map (operand_query atom) us)) css))"
  using assms
proof (induction css arbitrary: f remaining)
  case (Cons us css)
  let ?q = "or_query (map (operand_query atom) us)" and ?c = "sum_list (map operand_cost us)"
  show ?case
  proof (cases css)
    case Nil
    let ?g = "f\<lparr>f_tokens := rest, f_negations := 0,
        f_disjunction := f_disjunction f @ map (operand_query atom) us, f_expecting := False\<rparr>"
    have "parse_run cr macros f suspended remaining = parse_run cr macros ?g suspended (remaining - ?c)"
      using Nil Cons.prems by (intro run_disjunction) (simp_all add: print_conjunction_def)
    moreover have "finish ?g = (if f_conjunction f = [] then ?q else QAnd (f_conjunction f @ [?q]))"
      using Cons.prems(7) by (simp add: finish_def finish_disjunction_def)
    ultimately show ?thesis using Nil by (intro exI [of _ ?g]) (simp add: conjunction_query_def)
  next
    case more: (Cons vs dss)
    let ?r = "print_conjunction explicit css @ rest"
    let ?g = "f\<lparr>f_tokens := and_token explicit @ ?r, f_negations := 0,
        f_disjunction := f_disjunction f @ map (operand_query atom) us, f_expecting := False\<rparr>"
    let ?h = "?g\<lparr>f_tokens := ?r, f_conjunction := f_conjunction ?g @ [or_query (f_disjunction ?g)],
        f_disjunction := [], f_expecting := True\<rparr>"
    have tok: "f_tokens f = join [OrT] (map (print_operand explicit) us) @ and_token explicit @ ?r"
      using more Cons.prems(8) by (simp add: print_conjunction_def)
    obtain t ts where t: "?r = t # ts" "t \<noteq> OrT" "t \<noteq> AndT" "t \<noteq> R"
      using print_conjunction_start [of css explicit] Cons.prems(1) more by auto
    have "parse_run cr macros f suspended remaining = parse_run cr macros ?g suspended (remaining - ?c)"
      using Cons.prems tok by (intro run_disjunction) simp_all
    also have "\<dots> = parse_run cr macros ?h suspended (remaining - ?c)"
      using step_conjunct [of ?g explicit t ts cr macros suspended "remaining - ?c"] t by simp
    finally have run: "parse_run cr macros f suspended remaining = parse_run cr macros ?h suspended (remaining - ?c)" .
    have "\<exists>g. parse_run cr macros ?h suspended (remaining - ?c) =
        parse_run cr macros g suspended (remaining - ?c - sum_list (map (\<lambda>us. sum_list (map operand_cost us)) css)) \<and>
      \<not> f_expecting g \<and> f_tokens g = rest \<and> f_scope g = f_scope ?h \<and>
      finish g = (if f_conjunction ?h = [] then conjunction_query atom css
        else QAnd (f_conjunction ?h @ map (\<lambda>us. or_query (map (operand_query atom) us)) css))"
      using Cons.prems more by (intro Cons.IH) simp_all
    then show ?thesis using run more Cons.prems(7) by (auto simp: conjunction_query_def)
  qed
qed simp

lemma reads_operand:
  "operand_depth_le n u \<Longrightarrow> \<forall>s \<in> operand_atoms u. atom_with_options cr s opts (Some 0) = Inr (atom s) \<Longrightarrow>
     reads cr macros opts atom explicit n u"
proof (induction u arbitrary: n)
  case (Quoted s)
  then show ?case unfolding reads_def
    by (auto intro!: run_next simp: parse_step_def operand_step_def atom_step_def group_scope_def macro_value_def Let_def)
next
  case (Negated u)
  have u: "reads cr macros opts atom explicit (n - 1) u" and n: "n \<noteq> 0" using Negated by simp_all
  show ?case unfolding reads_def
  proof (intro allI impI, elim conjE)
    fix f :: frame and suspended remaining rest
    assume a: "f_expecting f" "f_options f = opts" "f_tokens f = print_operand explicit (Negated u) @ rest"
      "f_nesting f + f_negations f + n < 128" "operand_cost (Negated u) \<le> remaining"
    let ?g = "f\<lparr>f_tokens := print_operand explicit u @ rest, f_negations := f_negations f + 1\<rparr>"
    have "parse_run cr macros f suspended remaining = parse_run cr macros ?g suspended (remaining - 1)"
      using a n by (intro run_next) (simp add: parse_step_def operand_step_def Let_def)
    also have "\<dots> = parse_run cr macros (accept (?g\<lparr>f_tokens := rest\<rparr>) (operand_query atom u)) suspended (remaining - 1 - operand_cost u)"
      using a n by (intro u [unfolded reads_def, rule_format]) simp
    also have "accept (?g\<lparr>f_tokens := rest\<rparr>) (operand_query atom u) = accept (f\<lparr>f_tokens := rest\<rparr>) (operand_query atom (Negated u))"
      by (simp add: accept_def funpow_swap1)
    finally show "parse_run cr macros f suspended remaining =
        parse_run cr macros (accept (f\<lparr>f_tokens := rest\<rparr>) (operand_query atom (Negated u))) suspended (remaining - operand_cost (Negated u))"
      by simp
  qed
next
  case (Grouped css)
  have us: "list_all (\<lambda>us. us \<noteq> [] \<and> list_all (reads cr macros opts atom explicit (n - 1)) us) css"
    and n: "n \<noteq> 0" "css \<noteq> []"
    using Grouped by (auto simp: list_all_iff)
  show ?case unfolding reads_def
  proof (intro allI impI, elim conjE)
    fix f :: frame and suspended remaining rest
    assume a: "f_expecting f" "f_options f = opts" "f_tokens f = print_operand explicit (Grouped css) @ rest"
      "f_nesting f + f_negations f + n < 128" "operand_cost (Grouped css) \<le> remaining"
    let ?c = "sum_list (map (\<lambda>us. sum_list (map operand_cost us)) css)"
    let ?r = "print_conjunction explicit css @ R # rest"
    let ?g = "frame_new ?r opts (Group None None) (f_macro_depth f) (f_nesting f + f_negations f + 1)"
    let ?o = "f\<lparr>f_tokens := []\<rparr>"
    have "parse_run cr macros f suspended remaining = parse_run cr macros ?g (?o # suspended) (remaining - 1)"
      using a n by (intro run_next) (simp add: parse_step_def operand_step_def print_conjunction_def Let_def)
    moreover have "?c \<le> remaining - 1" using a(5) by simp
    then obtain h where h: "parse_run cr macros ?g (?o # suspended) (remaining - 1) =
        parse_run cr macros h (?o # suspended) (remaining - 1 - ?c)"
      "\<not> f_expecting h" "f_tokens h = R # rest" "f_scope h = Group None None" "finish h = conjunction_query atom css"
      using run_conjunction [OF us n(2), of ?g "R # rest" "remaining - 1" "?o # suspended"] a n
      by (auto simp: frame_new_def)
    note h(1)
    moreover have "parse_run cr macros h (?o # suspended) (remaining - 1 - ?c) =
        parse_run cr macros (accept (?o\<lparr>f_tokens := rest\<rparr>) (conjunction_query atom css)) suspended (remaining - 1 - ?c)"
      using h(2-) by (intro run_next) (simp add: parse_step_def close_frame_def Let_def)
    ultimately show "parse_run cr macros f suspended remaining =
        parse_run cr macros (accept (f\<lparr>f_tokens := rest\<rparr>) (operand_query atom (Grouped css))) suspended (remaining - operand_cost (Grouped css))"
      by (simp add: conjunction_query_def)
  qed
qed

definition conjunction_atoms :: "operand list list \<Rightarrow> str set" where
  "conjunction_atoms css = operand_atoms (Grouped css)"

definition conjunction_cost :: "operand list list \<Rightarrow> nat" where
  "conjunction_cost css = sum_list (map (\<lambda>us. sum_list (map operand_cost us)) css)"

lemma parser_parse_print:
  assumes "operand_depth_le 128 (Grouped css)" "conjunction_cost css \<le> remaining"
    "\<forall>s \<in> conjunction_atoms css. atom_with_options cr s opts (Some 0) = Inr (atom s)"
  shows "parser_parse cr macros remaining (print_conjunction explicit css) opts = Inr (conjunction_query atom css)"
proof -
  have us: "list_all (\<lambda>us. us \<noteq> [] \<and> list_all (reads cr macros opts atom explicit 127) us) css" "css \<noteq> []"
    using assms(1,3) reads_operand [of 127] by (auto simp: list_all_iff conjunction_atoms_def)
  let ?f = "frame_new (print_conjunction explicit css) opts Root 0 0"
  obtain g where "parse_run cr macros ?f [] remaining = parse_run cr macros g [] (remaining - conjunction_cost css)"
      "\<not> f_expecting g" "f_tokens g = []" "f_scope g = Root" "finish g = conjunction_query atom css"
    using run_conjunction [OF us, of ?f "[]" remaining "[]"] assms(2) by (auto simp: frame_new_def conjunction_cost_def)
  then show ?thesis
    by (subst (asm) (2) parse_run.simps) (simp add: parser_parse_def parse_step_def close_frame_def)
qed

lemma join_all: "list_all P sep \<Longrightarrow> list_all (list_all P) xss \<Longrightarrow> list_all P (join sep xss)"
  by (induction sep xss rule: join.induct) simp_all

lemma print_operand_quoted: "list_all quoted_token (print_operand explicit u)"
proof (induction u)
  case (Grouped css)
  have "list_all quoted_token (and_token explicit)" by (simp add: and_token_def)
  moreover have "list_all (list_all quoted_token) (map (\<lambda>us. join [OrT] (map (print_operand explicit) us)) css)"
    using Grouped by (auto simp: list_all_iff [of "list_all quoted_token"] intro!: join_all)
  ultimately show ?case by (simp add: join_all)
qed simp_all

lemma print_conjunction_quoted: "list_all quoted_token (print_conjunction explicit css)"
  using print_operand_quoted [of explicit "Grouped css"] by (simp add: print_conjunction_def)

section \<open>Properties\<close>

text \<open>
  C1: parsing inverts printing. A conjunction of disjunctions of negated, grouped and quoted operands,
  printed as text with an explicit or with an implicit AND, is parsed into exactly its query: OR binds
  tighter than AND, negation tighter than both, and groups nest, up to 128 levels and 8192 expressions.
  The hypothesis on atoms says which query each quoted text alone stands for.
\<close>

theorem parse_print:
  assumes "operand_depth_le 128 (Grouped css)" "conjunction_cost css \<le> 8192"
    "length (print_conjunction explicit css) < 8192"
    "str_len (concat (map print_token (print_conjunction explicit css))) \<le> 65536"
    "\<forall>s \<in> conjunction_atoms css. atom_with_options cr s (default_options now) (Some 0) = Inr (atom s)"
  shows "parse_at cr (concat (map print_token (print_conjunction explicit css))) macros now =
    Inr (conjunction_query atom css)"
proof -
  let ?ts = "print_conjunction explicit css"
  have "lex (concat (map print_token ?ts)) = Inr ?ts"
    using lex_loop_print [of "[]" ?ts] assms(3,4) print_conjunction_quoted by (simp add: lex_def max_tokens_def)
  moreover have "?ts \<noteq> []"
    using print_conjunction_start [of css explicit] assms(1) by (cases css) auto
  ultimately show ?thesis
    using parser_parse_print [OF assms(1,2,5)] by (simp add: parse_at_def)
qed

lemma atom_keys_quoted: "atom_keys cr s (Some 0) opts dir s = Inr (Inr (s, opts, dir))"
  by (subst atom_keys.simps) (simp add: literal_reached_def)

lemma plain_atom:
  "atom_with_options plain_crates s (default_options now) (Some 0) = Inr (QTerm (Text Name s False))"
  if "s \<in> {[97], [98], [99]}"
  using that
  by (auto simp: atom_with_options_def atom_keys_quoted literal_reached_def default_options_def plain_crates_def
      atom_text_def text_query_def Let_def fold_search_def is_ascii_def to_ascii_lowercase_def ascii_lower_def)

theorem parse_print_witness:
  "parse_at plain_crates (concat (map print_token
       (print_conjunction False [[Quoted [97], Negated (Quoted [98])], [Grouped [[Quoted [99]]]]]))) (\<lambda>_. None) 0 =
     Inr (conjunction_query (\<lambda>s. QTerm (Text Name s False))
       [[Quoted [97], Negated (Quoted [98])], [Grouped [[Quoted [99]]]]])"
  using plain_atom [of _ 0]
  by (intro parse_print)
    (simp_all add: conjunction_cost_def print_conjunction_def and_token_def conjunction_atoms_def str_len_def
      as_bytes_def utf8_char_def)



end
