(* ===== verification/Integer_Column.thy ===== *)
theory Integer_Column
  imports Prelude
begin

text \<open>
  \<open>core/src/integer_column.rs\<close> with the part of \<open>Column\<close> in \<open>core/src/entry_table.rs\<close> it is built on:
  frame-of-reference integer columns. A column holds raw values, or a base rank and narrow offsets. The
  three element types are the cases of \<open>scalar_kind\<close>; an element is an \<open>int\<close>, a rank a \<open>nat\<close> below \<open>2^64\<close>. A
  vector and a memory-mapped range differ only in that the first is \<open>Owned\<close>; the bytes of a mapped range
  are those of the file. Panics (index out of range, overflow, failed \<open>expect\<close>) are \<open>None\<close>.
\<close>

section \<open>Scalars\<close>

datatype scalar_kind = U64 | I64 | U32

fun scalar_size :: "scalar_kind \<Rightarrow> nat" where
  "scalar_size U64 = 8"
| "scalar_size I64 = 8"
| "scalar_size U32 = 4"

fun scalar_valid :: "scalar_kind \<Rightarrow> int \<Rightarrow> bool" where
  "scalar_valid U64 v = (0 \<le> v \<and> v < 2 ^ 64)"
| "scalar_valid I64 v = (- (2 ^ 63) \<le> v \<and> v < 2 ^ 63)"
| "scalar_valid U32 v = (0 \<le> v \<and> v < 2 ^ 32)"

fun rank :: "scalar_kind \<Rightarrow> int \<Rightarrow> nat" where
  "rank U64 v = nat v"
| "rank I64 v = unat (xor (word_of_int v :: 64 word) (push_bit 63 1))"
| "rank U32 v = nat v"

fun from_rank :: "scalar_kind \<Rightarrow> nat \<Rightarrow> int option" where
  "from_rank U64 r = Some (int r)"
| "from_rank I64 r = Some (sint (xor (word_of_nat r :: 64 word) (push_bit 63 1)))"
| "from_rank U32 r = (if r < 2 ^ 32 then Some (int r) else None)"


lemma xor_single_bit:
  fixes w m :: "64 word"
  assumes m: "\<And>n. bit m n \<longleftrightarrow> n = 63" and double: "m + m = 0"
  shows "xor w m = w + m"
proof (cases "bit w 63")
  case False
  then have "and w m = 0" by (intro bit_word_eqI) (auto simp: bit_and_iff m)
  then have "w + m = or w m" by (rule disjunctive_add_eq_or)
  also have "\<dots> = xor w m" using False by (intro bit_word_eqI) (auto simp: bit_or_iff bit_xor_iff m)
  finally show ?thesis by simp
next
  case True
  let ?u = "and w (not m)"
  have "and ?u m = 0" by (intro bit_word_eqI) (auto simp: bit_and_iff bit_not_iff m)
  then have "?u + m = or ?u m" by (rule disjunctive_add_eq_or)
  also have "\<dots> = w" using True
    by (intro bit_word_eqI) (auto simp: bit_and_iff bit_or_iff bit_not_iff m)
  finally have "w = ?u + m" by simp
  then have "w + m = ?u" using double by (metis add.assoc add.right_neutral)
  moreover have "xor w m = ?u" using True
    by (intro bit_word_eqI) (auto simp: bit_and_iff bit_xor_iff bit_not_iff m)
  ultimately show ?thesis by simp
qed

lemma xor_top: "xor w (push_bit 63 1) = w + push_bit 63 (1 :: 64 word)"
proof (rule xor_single_bit)
  show "bit (push_bit 63 (1 :: 64 word)) n \<longleftrightarrow> n = 63" for n
    by (simp only: bit_push_bit_iff bit_1_iff) auto
  show "push_bit 63 1 + push_bit 63 (1 :: 64 word) = 0" by (simp add: push_bit_eq_mult)
qed

lemma rank_I64: "scalar_valid I64 v \<Longrightarrow> rank I64 v = nat (v + 2 ^ 63)"
proof -
  assume "scalar_valid I64 v"
  then have "(v + 2 ^ 63) mod 2 ^ 64 = v + 2 ^ 63" by (intro mod_pos_pos_trivial) simp_all
  moreover have "(word_of_int v + push_bit 63 1 :: 64 word) = word_of_int (v + 2 ^ 63)"
    by (simp add: push_bit_eq_mult)
  ultimately show ?thesis
    by (simp only: rank.simps xor_top unat_eq_nat_uint uint_word_of_int) simp
qed

lemma from_rank_I64: "r < 2 ^ 64 \<Longrightarrow> from_rank I64 r = Some (int r - 2 ^ 63)"
proof -
  assume r: "r < 2 ^ 64"
  have "- (2 ^ 63) = (2 ^ 63 :: 64 word)" by simp
  then have "word_of_nat r + 2 ^ 63 = (word_of_nat r - 2 ^ 63 :: 64 word)"
    by (simp only: diff_conv_add_uminus)
  then have eq: "(word_of_nat r + push_bit 63 1 :: 64 word) = word_of_int (int r - 2 ^ 63)"
    by (simp add: push_bit_eq_mult)
  have "signed_take_bit 63 (int r - 2 ^ 63) = int r - 2 ^ 63"
    using r by (intro signed_take_bit_int_eq_self) simp_all
  then have "sint (word_of_int (int r - 2 ^ 63) :: 64 word) = int r - 2 ^ 63"
    by (simp only: sint_sbintrunc') simp
  then show ?thesis by (simp only: from_rank.simps xor_top eq)
qed

lemma rank_bound: "scalar_valid k v \<Longrightarrow> rank k v < 2 ^ 64"
  by (cases k) (auto simp: rank_I64 simp del: rank.simps(2))

lemma from_rank_rank: "scalar_valid k v \<Longrightarrow> from_rank k (rank k v) = Some v"
  using rank_bound[of k v] by (cases k) (auto simp: rank_I64 from_rank_I64 simp del: rank.simps(2) from_rank.simps(2))

lemma rank_from_rank:
  assumes "from_rank k r = Some v" "r < 2 ^ 64"
  shows "scalar_valid k v \<and> rank k v = r"
proof (cases k)
  case I64
  then have v: "v = int r - 2 ^ 63" using assms from_rank_I64[of r] by simp
  then have "scalar_valid I64 v" using assms by simp
  then show ?thesis using I64 v rank_I64 by (simp del: rank.simps)
qed (use assms in \<open>auto split: if_splits\<close>)

lemma rank_less_iff:
  assumes "scalar_valid k v" "scalar_valid k w"
  shows "rank k v < rank k w \<longleftrightarrow> v < w"
  using assms by (cases k) (auto simp: rank_I64 simp del: rank.simps(2))

section \<open>Columns\<close>

datatype 'v column = Owned "'v list" | Mapped "'v list"

fun column_values :: "'v column \<Rightarrow> 'v list" where
  "column_values (Owned xs) = xs"
| "column_values (Mapped xs) = xs"

fun is_mapped :: "'v column \<Rightarrow> bool" where
  "is_mapped (Owned xs) = False"
| "is_mapped (Mapped xs) = True"

definition slice_get :: "'v list \<Rightarrow> nat \<Rightarrow> 'v option" where
  "slice_get xs i = (if i < length xs then Some (xs ! i) else None)"

definition column_set :: "'v column \<Rightarrow> nat \<Rightarrow> 'v \<Rightarrow> 'v column option" where
  "column_set c slot v = (if slice_get (column_values c) slot = Some v then Some c
    else let xs = column_values c in
      if slot = length xs then Some (Owned (xs @ [v]))
      else if slot < length xs then Some (Owned (xs[slot := v])) else None)"

datatype offsets = Constant nat | Byte "nat column" | Short "nat column" | Word "nat column"

datatype integer_data = Raw "int column" | Packed nat offsets

fun offsets_list :: "offsets \<Rightarrow> nat list" where
  "offsets_list (Constant n) = replicate n 0"
| "offsets_list (Byte c) = column_values c"
| "offsets_list (Short c) = column_values c"
| "offsets_list (Word c) = column_values c"

fun integer_len :: "integer_data \<Rightarrow> nat" where
  "integer_len (Raw c) = length (column_values c)"
| "integer_len (Packed base (Constant n)) = n"
| "integer_len (Packed base (Byte c)) = length (column_values c)"
| "integer_len (Packed base (Short c)) = length (column_values c)"
| "integer_len (Packed base (Word c)) = length (column_values c)"

fun offset_at :: "offsets \<Rightarrow> nat \<Rightarrow> nat option" where
  "offset_at (Constant n) slot = (if slot < n then Some 0 else None)"
| "offset_at (Byte c) slot = slice_get (column_values c) slot"
| "offset_at (Short c) slot = slice_get (column_values c) slot"
| "offset_at (Word c) slot = slice_get (column_values c) slot"

definition packed_value :: "scalar_kind \<Rightarrow> nat \<Rightarrow> nat \<Rightarrow> int option" where
  "packed_value k base delta = Option.bind (checked_add_u64 base delta) (from_rank k)"

fun integer_get :: "scalar_kind \<Rightarrow> integer_data \<Rightarrow> nat \<Rightarrow> int option" where
  "integer_get k (Raw c) slot = slice_get (column_values c) slot"
| "integer_get k (Packed base off) slot = Option.bind (offset_at off slot) (packed_value k base)"

fun visit_slots :: "(nat \<Rightarrow> 'v \<Rightarrow> 's \<Rightarrow> 's option) \<Rightarrow> nat \<Rightarrow> 'v list \<Rightarrow> 's \<Rightarrow> 's option" where
  "visit_slots work slot [] s = Some s"
| "visit_slots work slot (v # vs) s = Option.bind (work slot v s) (visit_slots work (Suc slot) vs)"

fun for_each :: "scalar_kind \<Rightarrow> integer_data \<Rightarrow> (nat \<Rightarrow> int \<Rightarrow> 's \<Rightarrow> 's) \<Rightarrow> 's \<Rightarrow> 's option" where
  "for_each k (Raw c) work s = visit_slots (\<lambda>slot v s. Some (work slot v s)) 0 (column_values c) s"
| "for_each k (Packed base off) work s =
    (let visit = \<lambda>slot delta s. map_option (\<lambda>v. work slot v s) (packed_value k base delta) in
     case off of
       Constant n \<Rightarrow> visit_slots visit 0 (replicate n 0) s
     | Byte c \<Rightarrow> visit_slots visit 0 (column_values c) s
     | Short c \<Rightarrow> visit_slots visit 0 (column_values c) s
     | Word c \<Rightarrow> visit_slots visit 0 (column_values c) s)"

type_synonym u8 = "8 word"

definition chunk_byte :: "('v \<Rightarrow> bool) \<Rightarrow> 'v list \<Rightarrow> u8" where
  "chunk_byte p vs =
    fold (\<lambda>(i, v) bits. or bits (push_bit i (if p v then 1 else 0))) (enumerate 0 vs) 0"

fun fill :: "('v \<Rightarrow> bool) \<Rightarrow> 'v list \<Rightarrow> u8 list \<Rightarrow> u8 list" where
  "fill p [] out = out"
| "fill p (v # vs) [] = []"
| "fill p (v # vs) (b # out) = chunk_byte p (take 8 (v # vs)) # fill p (drop 8 (v # vs)) out"

definition relative :: "nat \<Rightarrow> nat \<Rightarrow> nat \<Rightarrow> nat \<Rightarrow> (nat \<times> nat) option" where
  "relative base low high maximum = (if high < base then None
    else let upper = min (high - base) maximum; lower = low - base in
      if lower \<le> upper then Some (lower, upper) else None)"

definition fill_offsets :: "nat \<Rightarrow> nat list \<Rightarrow> u8 list \<Rightarrow> nat \<Rightarrow> nat \<Rightarrow> nat \<Rightarrow> u8 list" where
  "fill_offsets base vs out lower upper maximum = (case relative base lower upper maximum of
     Some (low, high) \<Rightarrow> fill (\<lambda>v. v \<ge> low \<and> v \<le> high) vs out
   | None \<Rightarrow> replicate (length out) 0)"

fun fill_rank_range :: "scalar_kind \<Rightarrow> integer_data \<Rightarrow> u8 list \<Rightarrow> nat \<Rightarrow> nat \<Rightarrow> u8 list" where
  "fill_rank_range k (Raw c) out lower upper =
     fill (\<lambda>v. rank k v \<ge> lower \<and> rank k v \<le> upper) (column_values c) out"
| "fill_rank_range k (Packed base off) out lower upper = (case off of
     Constant n \<Rightarrow> replicate (length out) (if base \<ge> lower \<and> base \<le> upper then 255 else 0)
   | Byte c \<Rightarrow> fill_offsets base (column_values c) out lower upper (2 ^ 8 - 1)
   | Short c \<Rightarrow> fill_offsets base (column_values c) out lower upper (2 ^ 16 - 1)
   | Word c \<Rightarrow> fill_offsets base (column_values c) out lower upper (2 ^ 32 - 1))"

definition integer_set :: "scalar_kind \<Rightarrow> integer_data \<Rightarrow> nat \<Rightarrow> int \<Rightarrow> integer_data option" where
  "integer_set k d slot v =
    (if slot < integer_len d \<and> integer_get k d slot = Some v then Some d
     else case d of
       Raw c \<Rightarrow> map_option Raw (column_set c slot v)
     | Packed _ _ \<Rightarrow> Option.bind (for_each k d (\<lambda>_ v vs. vs @ [v]) []) (\<lambda>vs.
         map_option Raw (column_set (Owned vs) slot v)))"

definition span_width :: "nat \<Rightarrow> nat" where
  "span_width span = (if span = 0 then 0 else if span \<le> 2 ^ 8 - 1 then 1
    else if span \<le> 2 ^ 16 - 1 then 2 else if span \<le> 2 ^ 32 - 1 then 4 else 8)"

definition list_min :: "nat list \<Rightarrow> nat" where "list_min xs = foldl min (hd xs) (tl xs)"
definition list_max :: "nat list \<Rightarrow> nat" where "list_max xs = foldl max (hd xs) (tl xs)"

definition packed_offsets :: "nat \<Rightarrow> nat list \<Rightarrow> offsets" where
  "packed_offsets width deltas =
    (if width = 0 then Constant (length deltas)
     else if width = 1 then Byte (Owned (map (\<lambda>d. d mod 2 ^ 8) deltas))
     else if width = 2 then Short (Owned (map (\<lambda>d. d mod 2 ^ 16) deltas))
     else Word (Owned (map (\<lambda>d. d mod 2 ^ 32) deltas)))"

fun compact :: "scalar_kind \<Rightarrow> integer_data \<Rightarrow> integer_data" where
  "compact k (Packed base off) = Packed base off"
| "compact k (Raw c) =
    (let vs = column_values c in
     if is_mapped c \<or> vs = [] then Raw c
     else let low = list_min (map (rank k) vs); high = list_max (map (rank k) vs);
              width = span_width (high - low) in
       if width \<ge> scalar_size k then Raw c
       else Packed low (packed_offsets width (map (\<lambda>v. rank k v - low) vs)))"

section \<open>The persisted form\<close>

definition le_bytes :: "nat \<Rightarrow> nat \<Rightarrow> u8 list" where
  "le_bytes width n = map (\<lambda>i. word_of_nat (n div 256 ^ i)) [0..<width]"

definition from_le_bytes :: "u8 list \<Rightarrow> nat" where
  "from_le_bytes bs = foldr (\<lambda>b acc. unat b + 256 * acc) bs 0"

definition scalar_bits :: "scalar_kind \<Rightarrow> int \<Rightarrow> nat" where
  "scalar_bits k v = nat (v mod 2 ^ (8 * scalar_size k))"

definition scalar_of_bits :: "scalar_kind \<Rightarrow> nat \<Rightarrow> int" where
  "scalar_of_bits k n = (if k = I64 \<and> n \<ge> 2 ^ 63 then int n - 2 ^ 64 else int n)"

definition next_multiple_of_8 :: "nat \<Rightarrow> nat" where
  "next_multiple_of_8 n = (n + 7) div 8 * 8"

fun encode_parts :: "scalar_kind \<Rightarrow> integer_data \<Rightarrow> nat \<times> nat \<times> u8 list" where
  "encode_parts k (Raw c) =
    (0, scalar_size k, concat (map (le_bytes (scalar_size k) \<circ> scalar_bits k) (column_values c)))"
| "encode_parts k (Packed base (Constant n)) = (base, 0, [])"
| "encode_parts k (Packed base (Byte c)) = (base, 1, concat (map (le_bytes 1) (column_values c)))"
| "encode_parts k (Packed base (Short c)) = (base, 2, concat (map (le_bytes 2) (column_values c)))"
| "encode_parts k (Packed base (Word c)) = (base, 4, concat (map (le_bytes 4) (column_values c)))"

definition encode :: "scalar_kind \<Rightarrow> integer_data \<Rightarrow> u8 list \<Rightarrow> u8 list" where
  "encode k d out = (case encode_parts k d of (base, width, bytes) \<Rightarrow>
    out @ replicate (next_multiple_of_8 (length out) - length out) 0
      @ le_bytes 8 base @ le_bytes 8 width @ bytes)"

fun chunks_of :: "nat \<Rightarrow> nat \<Rightarrow> 'a list \<Rightarrow> 'a list list" where
  "chunks_of width 0 xs = []"
| "chunks_of width (Suc n) xs = take width xs # chunks_of width n (drop width xs)"

definition column_mapped :: "nat \<Rightarrow> (nat \<Rightarrow> 'v) \<Rightarrow> u8 list \<Rightarrow> nat \<Rightarrow> nat \<Rightarrow> 'v column option" where
  "column_mapped width element mapping first next =
    (if first > next \<or> next > length mapping \<or> first mod width \<noteq> 0
        \<or> (next - first) mod width \<noteq> 0 then None
     else Some (Mapped (map (element \<circ> from_le_bytes)
       (chunks_of width ((next - first) div width) (subslice mapping first next)))))"

definition slice_range :: "'v list \<Rightarrow> nat \<Rightarrow> nat \<Rightarrow> 'v list option" where
  "slice_range xs i j = (if i \<le> j \<and> j \<le> length xs then Some (subslice xs i j) else None)"

definition checked_mul_u64 :: "nat \<Rightarrow> nat \<Rightarrow> nat option" where
  "checked_mul_u64 a b = (if a * b \<le> u64_max then Some (a * b) else None)"

definition max_or_0 :: "nat list \<Rightarrow> nat" where
  "max_or_0 xs = (if xs = [] then 0 else list_max xs)"

definition decode_offsets ::
    "scalar_kind \<Rightarrow> u8 list \<Rightarrow> nat \<Rightarrow> nat \<Rightarrow> nat \<Rightarrow> nat \<Rightarrow> offsets option" where
  "decode_offsets k mapping width rows first next =
    (if width = 0 then Some (Constant rows)
     else if width = 1 then map_option Byte (column_mapped 1 (\<lambda>n. n) mapping first next)
     else if width = 2 then map_option Short (column_mapped 2 (\<lambda>n. n) mapping first next)
     else if width = 4 \<and> width < scalar_size k
       then map_option Word (column_mapped 4 (\<lambda>n. n) mapping first next)
     else None)"

definition decode_data ::
    "scalar_kind \<Rightarrow> u8 list \<Rightarrow> nat \<Rightarrow> nat \<Rightarrow> nat \<Rightarrow> nat \<Rightarrow> nat \<Rightarrow> integer_data option" where
  "decode_data k mapping base width rows first next =
    (if width = scalar_size k then
       if base \<noteq> 0 then None
       else map_option Raw (column_mapped width (scalar_of_bits k) mapping first next)
     else
       Option.bind (from_rank k base) (\<lambda>_.
       Option.bind (decode_offsets k mapping width rows first next) (\<lambda>offsets.
       Option.bind (checked_add_u64 base (max_or_0 (offsets_list offsets))) (\<lambda>highest.
       Option.bind (from_rank k highest) (\<lambda>_. Some (Packed base offsets))))))"

definition decode :: "scalar_kind \<Rightarrow> u8 list \<Rightarrow> nat \<Rightarrow> nat \<Rightarrow> nat \<Rightarrow> (nat \<times> integer_data) option" where
  "decode k mapping offset rows limit =
    Option.bind (checked_add_u64 offset 7) (\<lambda>rounded.
    let offset = rounded div 8 * 8 in
    Option.bind (checked_add_u64 offset 16) (\<lambda>header_end.
    if header_end > limit then None else
    Option.bind (slice_range mapping offset (offset + 8)) (\<lambda>base_bytes.
    Option.bind (slice_range mapping (offset + 8) header_end) (\<lambda>width_bytes.
    let base = from_le_bytes base_bytes; width = from_le_bytes width_bytes in
    Option.bind (checked_mul_u64 rows width) (\<lambda>bytes.
    Option.bind (checked_add_u64 header_end bytes) (\<lambda>next.
    if next > limit then None
    else map_option (\<lambda>d. (next, d)) (decode_data k mapping base width rows header_end next)))))))"

section \<open>The list a column stands for\<close>

locale rank_code =
  fixes valid :: "int \<Rightarrow> bool" and to_rank :: "int \<Rightarrow> nat" and of_rank :: "nat \<Rightarrow> int option"
  assumes to_rank_bound: "valid v \<Longrightarrow> to_rank v < 2 ^ 64"
    and of_to_rank: "valid v \<Longrightarrow> of_rank (to_rank v) = Some v"
    and to_of_rank: "of_rank r = Some v \<Longrightarrow> r < 2 ^ 64 \<Longrightarrow> valid v \<and> to_rank v = r"
    and to_rank_less: "valid v \<Longrightarrow> valid w \<Longrightarrow> to_rank v < to_rank w \<longleftrightarrow> v < w"
    and of_rank_down: "of_rank r = Some v \<Longrightarrow> s \<le> r \<Longrightarrow> of_rank s \<noteq> None"
begin

lemma to_rank_le: "valid v \<Longrightarrow> valid w \<Longrightarrow> to_rank v \<le> to_rank w \<longleftrightarrow> v \<le> w"
  using to_rank_less by (meson linorder_not_less)

lemma of_rank_mono:
  assumes "of_rank r = Some v" "of_rank s = Some w" "r < 2 ^ 64" "s < 2 ^ 64"
  shows "v \<le> w \<longleftrightarrow> r \<le> s"
  using assms to_of_rank to_rank_le by metis

lemma of_rank_below:
  assumes "of_rank (base + most) \<noteq> None" "d \<le> most"
  shows "of_rank (base + d) \<noteq> None"
  using of_rank_down assms by (metis add_le_cancel_left not_None_eq)

lemma to_rank_of_rank: "of_rank r \<noteq> None \<Longrightarrow> r < 2 ^ 64 \<Longrightarrow> to_rank (the (of_rank r)) = r"
  using to_of_rank by auto

lemma valid_of_rank: "of_rank r \<noteq> None \<Longrightarrow> r < 2 ^ 64 \<Longrightarrow> valid (the (of_rank r))"
  using to_of_rank by auto

end

interpretation scalar_code: rank_code "scalar_valid k" "rank k" "from_rank k" for k
proof unfold_locales
  show "from_rank k s \<noteq> None" if "from_rank k r = Some v" "s \<le> r" for r v s
    using that by (cases k) (auto split: if_splits)
qed (use rank_bound from_rank_rank rank_from_rank rank_less_iff in blast)+

fun offset_width :: "offsets \<Rightarrow> nat" where
  "offset_width (Constant n) = 0"
| "offset_width (Byte c) = 1"
| "offset_width (Short c) = 2"
| "offset_width (Word c) = 4"

fun wf_integer :: "scalar_kind \<Rightarrow> integer_data \<Rightarrow> bool" where
  "wf_integer k (Raw c) = (\<forall>v \<in> set (column_values c). scalar_valid k v)"
| "wf_integer k (Packed base off) =
    (base < 2 ^ 64 \<and> from_rank k base \<noteq> None \<and> offset_width off < scalar_size k \<and>
     (\<forall>d \<in> set (offsets_list off). d < 2 ^ (8 * offset_width off) \<and> base + d < 2 ^ 64
        \<and> from_rank k (base + d) \<noteq> None))"

fun integer_list :: "scalar_kind \<Rightarrow> integer_data \<Rightarrow> int list" where
  "integer_list k (Raw c) = column_values c"
| "integer_list k (Packed base off) = map (\<lambda>d. the (from_rank k (base + d))) (offsets_list off)"

lemma integer_len_list: "integer_len d = length (integer_list k d)"
  by (cases d rule: integer_len.cases) auto

lemma wf_integer_valid: "wf_integer k d \<Longrightarrow> v \<in> set (integer_list k d) \<Longrightarrow> scalar_valid k v"
  by (cases d) (use scalar_code.to_of_rank in \<open>fastforce+\<close>)

lemma slice_get_map: "slice_get (map f xs) i = map_option f (slice_get xs i)"
  by (simp add: slice_get_def)

lemma slice_get_mem: "slice_get xs i = Some x \<Longrightarrow> x \<in> set xs"
  by (auto simp: slice_get_def split: if_splits)

lemma offset_at_list: "offset_at off slot = slice_get (offsets_list off) slot"
  by (cases off) (auto simp: slice_get_def)

lemma packed_value_wf:
  "wf_integer k (Packed base off) \<Longrightarrow> d \<in> set (offsets_list off) \<Longrightarrow>
   packed_value k base d = Some (the (from_rank k (base + d)))"
  by (auto simp: packed_value_def checked_add_u64_def u64_max_def)

lemma integer_get_list:
  "wf_integer k d \<Longrightarrow> integer_get k d slot = slice_get (integer_list k d) slot"
proof (cases d)
  case (Packed base off)
  assume "wf_integer k d"
  then show ?thesis using Packed packed_value_wf[of k base off]
    by (cases "slice_get (offsets_list off) slot")
       (auto simp: offset_at_list slice_get_map slice_get_mem simp del: wf_integer.simps)
qed simp

lemma visit_slots_total:
  "(\<And>i v s. v \<in> set vs \<Longrightarrow> work i v s = Some (f i (g v) s)) \<Longrightarrow>
   visit_slots work n vs s = Some (fold (\<lambda>(i, v). f i v) (enumerate n (map g vs)) s)"
  by (induction vs arbitrary: n s) auto

lemma for_each_list:
  assumes "wf_integer k d"
  shows "for_each k d work s = Some (fold (\<lambda>(i, v). work i v) (enumerate 0 (integer_list k d)) s)"
proof (cases d)
  case (Raw c)
  then show ?thesis by (simp add: visit_slots_total[where f = work and g = "\<lambda>v. v"])
next
  case (Packed base off)
  have "visit_slots (\<lambda>slot delta s. map_option (\<lambda>v. work slot v s) (packed_value k base delta)) 0
        (offsets_list off) s
      = Some (fold (\<lambda>(i, v). work i v) (enumerate 0 (integer_list k d)) s)"
    unfolding Packed integer_list.simps
    by (rule visit_slots_total)
       (simp add: packed_value_wf[OF assms[unfolded Packed]] del: wf_integer.simps)
  then show ?thesis unfolding Packed by (cases off) simp_all
qed

lemma collect_values: "fold (\<lambda>(i, v) vs. vs @ [v]) (enumerate n xs) acc = acc @ xs"
  by (induction xs arbitrary: n acc) auto

lemma column_set_values:
  "slot \<le> length (column_values c) \<Longrightarrow>
   \<exists>c'. column_set c slot v = Some c' \<and> column_values c' =
     (if slot = length (column_values c) then column_values c @ [v] else (column_values c)[slot := v])"
  by (auto simp: column_set_def Let_def slice_get_def split: if_splits)

lemma column_set_beyond: "slot > length (column_values c) \<Longrightarrow> column_set c slot v = None"
  by (auto simp: column_set_def Let_def slice_get_def)

definition list_set :: "'v list \<Rightarrow> nat \<Rightarrow> 'v \<Rightarrow> 'v list option" where
  "list_set xs slot v = (if slot = length xs then Some (xs @ [v])
    else if slot < length xs then Some (xs[slot := v]) else None)"

lemma column_set_list: "map_option column_values (column_set c slot v) = list_set (column_values c) slot v"
  by (auto simp: column_set_def list_set_def Let_def slice_get_def)

lemma list_set_same: "slice_get xs slot = Some v \<Longrightarrow> list_set xs slot v = Some xs"
  by (auto simp: slice_get_def list_set_def split: if_splits)

lemma list_set_valid: "list_set xs slot v = Some ys \<Longrightarrow> set ys \<subseteq> insert v (set xs)"
  by (auto simp: list_set_def split: if_splits dest: set_update_subset_insert[THEN subsetD])

lemma integer_set_list:
  assumes "wf_integer k d"
  shows "map_option (integer_list k) (integer_set k d slot v) = list_set (integer_list k d) slot v"
proof (cases "slot < integer_len d \<and> integer_get k d slot = Some v")
  case True
  then show ?thesis using assms by (simp add: integer_set_def integer_get_list list_set_same)
next
  case False
  have owned: "map_option (integer_list k) (map_option Raw (column_set c slot v))
      = list_set (column_values c) slot v" for c
    by (simp add: option.map_comp comp_def column_set_list[symmetric])
  show ?thesis
  proof (cases d)
    case (Raw c)
    then show ?thesis using False owned[of c] by (auto simp: integer_set_def)
  next
    case (Packed base off)
    then have "integer_set k d slot v
        = map_option Raw (column_set (Owned (integer_list k d)) slot v)"
      unfolding integer_set_def if_not_P[OF False] for_each_list[OF assms] collect_values by simp
    then show ?thesis using owned[of "Owned (integer_list k d)"] by simp
  qed
qed

lemma integer_set_wf:
  assumes "wf_integer k d" "scalar_valid k v" "integer_set k d slot v = Some d'"
  shows "wf_integer k d'"
proof (cases "d' = d")
  case False
  then obtain c where c: "d' = Raw c"
    using assms by (auto simp: integer_set_def split: integer_data.splits if_splits bind_splits)
  then have "list_set (integer_list k d) slot v = Some (column_values c)"
    using integer_set_list[OF assms(1), of slot v] assms(3) by simp
  then show ?thesis using list_set_valid wf_integer_valid[OF assms(1)] assms(2) c by fastforce
qed (use assms in simp)

lemma foldl_min_le: "foldl min m xs \<le> m \<and> (\<forall>x \<in> set xs. foldl min m xs \<le> (x :: nat))"
proof (induction xs arbitrary: m)
  case (Cons x xs)
  have "foldl min (min m x) xs \<le> min m x" using Cons by blast
  then show ?case using Cons[of "min m x"] by simp
qed simp

lemma foldl_min_mem: "foldl min m xs \<in> insert m (set xs)" for m :: nat
proof (induction xs arbitrary: m)
  case (Cons x xs)
  then show ?case using Cons[of "min m x"] by (auto simp: min_def split: if_splits)
qed simp

lemma foldl_max_ge: "m \<le> foldl max m xs \<and> (\<forall>x \<in> set xs. (x :: nat) \<le> foldl max m xs)"
proof (induction xs arbitrary: m)
  case (Cons x xs)
  have "max m x \<le> foldl max (max m x) xs" using Cons by blast
  then show ?case using Cons[of "max m x"] by simp
qed simp

lemma foldl_max_mem: "foldl max m xs \<in> insert m (set xs)" for m :: nat
proof (induction xs arbitrary: m)
  case (Cons x xs)
  then show ?case using Cons[of "max m x"] by (auto simp: max_def split: if_splits)
qed simp

lemma list_max_mem: "xs \<noteq> [] \<Longrightarrow> list_max xs \<in> set xs"
  unfolding list_max_def using foldl_max_mem[of "hd xs" "tl xs"] by (cases xs) auto

lemma list_min_le: "x \<in> set xs \<Longrightarrow> list_min xs \<le> x"
  unfolding list_min_def using foldl_min_le[of "hd xs" "tl xs"] by (cases xs) auto

lemma list_min_mem: "xs \<noteq> [] \<Longrightarrow> list_min xs \<in> set xs"
  unfolding list_min_def using foldl_min_mem[of "hd xs" "tl xs"] by (cases xs) auto

lemma list_max_ge: "x \<in> set xs \<Longrightarrow> x \<le> list_max xs"
  unfolding list_max_def using foldl_max_ge[of "hd xs" "tl xs"] by (cases xs) auto

lemma max_or_0_ge: "x \<in> set xs \<Longrightarrow> x \<le> max_or_0 xs"
  by (auto simp: max_or_0_def list_max_ge)

lemma span_width_bound: "n < 2 ^ 64 \<Longrightarrow> n < 2 ^ (8 * span_width n)"
  by (auto simp: span_width_def)

lemma span_width_values: "span_width n \<in> {0, 1, 2, 4, 8}"
  by (simp add: span_width_def)

lemma packed_by_low:
  assumes valid: "\<forall>v \<in> set vs. scalar_valid k v" and vs: "vs \<noteq> []"
    and low: "low = list_min (map (rank k) vs)"
    and list: "offsets_list off = map (\<lambda>v. rank k v - low) vs"
    and width: "offset_width off < scalar_size k"
    and bound: "\<forall>v \<in> set vs. rank k v - low < 2 ^ (8 * offset_width off)"
  shows "wf_integer k (Packed low off) \<and> integer_list k (Packed low off) = vs"
proof -
  have le: "low \<le> rank k v" if "v \<in> set vs" for v using that low by (auto intro: list_min_le)
  have code: "from_rank k (low + (rank k v - low)) = Some v" "low + (rank k v - low) < 2 ^ 64"
    if "v \<in> set vs" for v
    using le[OF that] valid that scalar_code.of_to_rank[of k v] scalar_code.to_rank_bound[of k v]
    by simp_all
  obtain w where w: "w \<in> set vs" "rank k w = low"
    using list_min_mem[of "map (rank k) vs"] vs low by auto
  have "from_rank k low = Some w" "low < 2 ^ 64" using code[OF w(1)] w(2) by simp_all
  then show ?thesis using code bound width by (auto simp: list intro!: map_idI)
qed

lemma packed_offsets_list:
  assumes "width \<in> {0, 1, 2, 4}" "\<forall>d \<in> set deltas. d < 2 ^ (8 * width)"
  shows "offsets_list (packed_offsets width deltas) = deltas \<and>
    offset_width (packed_offsets width deltas) = width"
proof -
  have "width = 0 \<Longrightarrow> replicate (length deltas) 0 = deltas"
    using assms by (intro replicate_length_same) simp
  then show ?thesis using assms by (auto simp: packed_offsets_def intro!: map_idI)
qed

lemma compact_list:
  assumes wf: "wf_integer k d"
  shows "wf_integer k (compact k d) \<and> integer_list k (compact k d) = integer_list k d"
proof (cases d)
  case (Raw c)
  let ?vs = "column_values c"
  let ?low = "list_min (map (rank k) ?vs)"
  let ?high = "list_max (map (rank k) ?vs)"
  let ?width = "span_width (?high - ?low)"
  let ?deltas = "map (\<lambda>v. rank k v - ?low) ?vs"
  show ?thesis
  proof (cases "is_mapped c \<or> ?vs = [] \<or> ?width \<ge> scalar_size k")
    case True
    then have "compact k d = d" by (auto simp: Raw Let_def)
    then show ?thesis using wf by simp
  next
    case False
    have valid: "\<forall>v \<in> set ?vs. scalar_valid k v" using wf Raw by simp
    have "?high < 2 ^ 64"
      using False valid scalar_code.to_rank_bound list_max_mem[of "map (rank k) ?vs"] by auto
    then have "?high - ?low < 2 ^ (8 * ?width)" by (intro span_width_bound) simp
    moreover have "rank k v \<le> ?high" if "v \<in> set ?vs" for v using that by (intro list_max_ge) simp
    ultimately have bound: "\<forall>v \<in> set ?vs. rank k v - ?low < 2 ^ (8 * ?width)"
      using diff_le_mono order_le_less_trans by blast
    have "?width \<in> {0, 1, 2, 4}" using False span_width_values[of "?high - ?low"]
      by (cases k) auto
    then have off: "offsets_list (packed_offsets ?width ?deltas) = ?deltas \<and>
        offset_width (packed_offsets ?width ?deltas) = ?width"
      using bound by (intro packed_offsets_list) auto
    have "compact k d = Packed ?low (packed_offsets ?width ?deltas)"
      using False by (simp add: Raw Let_def)
    moreover have "wf_integer k (Packed ?low (packed_offsets ?width ?deltas)) \<and>
        integer_list k (Packed ?low (packed_offsets ?width ?deltas)) = ?vs"
      by (rule packed_by_low[OF valid _ refl]) (use False off bound in simp_all)
    ultimately show ?thesis using Raw by simp
  qed
qed (use wf in simp)

section \<open>Range bitmaps\<close>

definition bit_at :: "u8 list \<Rightarrow> nat \<Rightarrow> bool" where
  "bit_at bytes i \<longleftrightarrow> i div 8 < length bytes \<and> bit (bytes ! (i div 8)) (i mod 8)"

lemma bit_chunk_fold:
  "bit (fold (\<lambda>(i, v) bits. or bits (push_bit i (if p v then 1 else 0))) (enumerate n vs) (w :: u8)) b
    \<longleftrightarrow> bit w b \<or> n \<le> b \<and> b < n + length vs \<and> b < 8 \<and> p (vs ! (b - n))"
proof (induction vs arbitrary: n w)
  case (Cons v vs)
  have "bit (push_bit n (if p v then 1 else 0 :: u8)) b \<longleftrightarrow> n = b \<and> b < 8 \<and> p v"
    by (auto simp: bit_push_bit_iff bit_1_iff)
  moreover have "n = b \<and> b < 8 \<and> p v \<or> Suc n \<le> b \<and> b < Suc n + length vs \<and> b < 8 \<and> p (vs ! (b - Suc n))
      \<longleftrightarrow> n \<le> b \<and> b < n + length (v # vs) \<and> b < 8 \<and> p ((v # vs) ! (b - n))"
  proof (cases "n < b")
    case True
    then have "(v # vs) ! (b - n) = vs ! (b - Suc n)" by (simp add: nth_Cons')
    then show ?thesis using True by simp
  qed auto
  ultimately show ?case by (simp only: enumerate_simps fold_simps Cons bit_or_iff prod.case) blast
qed auto

lemma bit_chunk_byte: "bit (chunk_byte p vs) b \<longleftrightarrow> b < length vs \<and> b < 8 \<and> p (vs ! b)"
  by (simp add: chunk_byte_def bit_chunk_fold)

lemma length_fill [simp]: "length (fill p vs out) = length out"
  by (induction p vs out rule: fill.induct) auto

lemma bit_at_fill:
  "slot < length vs \<Longrightarrow> slot div 8 < length out \<Longrightarrow> bit_at (fill p vs out) slot \<longleftrightarrow> p (vs ! slot)"
proof (induction p vs out arbitrary: slot rule: fill.induct)
  case (3 p v vs b out)
  show ?case
  proof (cases "slot < 8")
    case True
    then show ?thesis using 3(2)
      by (simp add: bit_at_def bit_chunk_byte less_Suc_eq_le nth_take del: take_Cons_numeral)
  next
    case False
    then have "slot div 8 = Suc ((slot - 8) div 8)" "slot mod 8 = (slot - 8) mod 8"
      by (simp_all add: le_div_geq le_mod_geq)
    then have "bit_at (fill p (v # vs) (b # out)) slot
        = bit_at (fill p (drop 8 (v # vs)) out) (slot - 8)"
      by (simp add: bit_at_def)
    also have "\<dots> = p (drop 8 (v # vs) ! (slot - 8))"
      using 3(2,3) False \<open>slot div 8 = _\<close> by (intro 3(1)) auto
    finally show ?thesis using False 3(2) by (simp add: nth_drop)
  qed
qed auto

lemma bit_at_replicate:
  "slot div 8 < n \<Longrightarrow> bit_at (replicate n (if p then 255 else 0)) slot \<longleftrightarrow> p"
proof -
  have "bit (255 :: u8) (slot mod 8)"
  proof -
    have "(255 :: u8) = - 1" by simp
    then show ?thesis by (simp only: bit_minus_1_iff possible_bit_word) simp
  qed
  then show "slot div 8 < n \<Longrightarrow> ?thesis" by (simp add: bit_at_def)
qed

lemma bit_at_fill_offsets:
  assumes "slot < length vs" "slot div 8 < length out" "vs ! slot \<le> maximum"
  shows "bit_at (fill_offsets base vs out lower upper maximum) slot
    \<longleftrightarrow> lower \<le> base + vs ! slot \<and> base + vs ! slot \<le> upper"
  using assms bit_at_replicate[of slot "length out" False]
  by (auto simp: fill_offsets_def relative_def Let_def bit_at_fill)

lemma fill_rank_range_bits:
  assumes "wf_integer k d" "slot < length (integer_list k d)" "slot div 8 < length out"
  shows "bit_at (fill_rank_range k d out lower upper) slot
    \<longleftrightarrow> lower \<le> rank k (integer_list k d ! slot) \<and> rank k (integer_list k d ! slot) \<le> upper"
proof (cases d)
  case (Raw c)
  then show ?thesis using assms by (simp add: bit_at_fill)
next
  case (Packed base off)
  let ?o = "offsets_list off ! slot"
  have slot: "slot < length (offsets_list off)" using assms Packed by simp
  then have o: "?o < 2 ^ (8 * offset_width off)" "base + ?o < 2 ^ 64" "from_rank k (base + ?o) \<noteq> None"
    using assms(1) Packed nth_mem by fastforce+
  then have rank: "rank k (integer_list k d ! slot) = base + ?o"
    using Packed slot scalar_code.to_rank_of_rank by simp
  show ?thesis
    using slot o(1) assms(3) bit_at_replicate[of slot "length out" "base \<ge> lower \<and> base \<le> upper"]
    unfolding rank unfolding Packed by (cases off) (simp_all add: bit_at_fill_offsets)
qed

lemma length_fill_rank_range [simp]: "length (fill_rank_range k d out lower upper) = length out"
  by (cases d) (auto simp: fill_offsets_def split: offsets.splits option.splits)

section \<open>Encoding and decoding\<close>

lemma length_le_bytes [simp]: "length (le_bytes width n) = width"
  by (simp add: le_bytes_def)

lemma le_bytes_0 [simp]: "le_bytes 0 n = []"
  by (simp add: le_bytes_def)

lemma le_bytes_Suc: "le_bytes (Suc width) n = word_of_nat n # le_bytes width (n div 256)"
  by (simp add: le_bytes_def upt_conv_Cons map_Suc_upt[symmetric] div_mult2_eq comp_def del: upt_Suc map_Suc_upt)

lemma from_le_bytes_Cons [simp]: "from_le_bytes (b # bs) = unat b + 256 * from_le_bytes bs"
  by (simp add: from_le_bytes_def)

lemma from_le_bytes_Nil [simp]: "from_le_bytes [] = 0"
  by (simp add: from_le_bytes_def)

lemma from_le_bytes_bound: "from_le_bytes bs < 2 ^ (8 * length bs)"
proof (induction bs)
  case (Cons b bs)
  have "unat b < 256" using unsigned_less[of b] by simp
  moreover have "256 * from_le_bytes bs + 256 \<le> 256 * 2 ^ (8 * length bs)" using Cons by simp
  ultimately show ?case by (simp add: power_add)
qed simp

lemma from_le_bytes_le_bytes: "n < 2 ^ (8 * width) \<Longrightarrow> from_le_bytes (le_bytes width n) = n"
proof (induction width arbitrary: n)
  case (Suc width)
  have "n div 256 < 2 ^ (8 * width)" using Suc.prems by (simp add: less_mult_imp_div_less power_add)
  then show ?case using Suc.IH by (simp add: le_bytes_Suc unat_of_nat)
qed simp

lemma chunks_of_concat:
  "\<forall>c \<in> set cs. length c = width \<Longrightarrow> chunks_of width (length cs) (concat cs @ rest) = cs"
  by (induction cs) auto

lemma length_chunks_of [simp]: "length (chunks_of width n xs) = n"
  by (induction width n xs rule: chunks_of.induct) auto

lemma chunks_of_length:
  "n * width \<le> length xs \<Longrightarrow> c \<in> set (chunks_of width n xs) \<Longrightarrow> length c = width"
  by (induction width n xs rule: chunks_of.induct) auto

lemma length_concat_le_bytes [simp]: "length (concat (map (le_bytes width) ns)) = length ns * width"
  by (induction ns) auto

lemma column_mapped_encoded:
  assumes "width > 0" "length pre mod width = 0"
    and "\<forall>v \<in> set vs. bits v < 2 ^ (8 * width) \<and> element (bits v) = v"
  shows "column_mapped width element (pre @ concat (map (le_bytes width) (map bits vs)) @ rest)
    (length pre) (length pre + length vs * width) = Some (Mapped vs)"
proof -
  let ?bs = "concat (map (le_bytes width) (map bits vs))"
  have "map (element \<circ> from_le_bytes) (map (le_bytes width) (map bits vs)) = vs"
    using assms(3) by (auto simp: from_le_bytes_le_bytes intro!: map_idI)
  moreover have "chunks_of width (length vs) (concat (map (le_bytes width) (map bits vs)) @ [])
      = map (le_bytes width) (map bits vs)"
    using chunks_of_concat[of "map (le_bytes width) (map bits vs)" width "[]"] by simp
  moreover have "length ?bs = length vs * width" by (simp only: length_concat_le_bytes length_map)
  ultimately show ?thesis using assms(1,2)
    by (simp add: column_mapped_def subslice_def del: map_map list.map_comp)
qed

lemma column_mapped_Some:
  assumes "column_mapped width element mapping first (first + rows * width) = Some c" "width > 0"
  shows "is_mapped c \<and> length (column_values c) = rows \<and>
    (\<forall>v \<in> set (column_values c). \<exists>n < 2 ^ (8 * width). v = element n)"
proof -
  let ?cs = "chunks_of width rows (subslice mapping first (first + rows * width))"
  have c: "c = Mapped (map (element \<circ> from_le_bytes) ?cs)"
    and fits: "first + rows * width \<le> length mapping"
    using assms by (auto simp: column_mapped_def split: if_splits)
  have "length b = width" if "b \<in> set ?cs" for b 
    by (rule chunks_of_length[OF _ that]) (use fits in simp)
  then show ?thesis unfolding c using from_le_bytes_bound by fastforce
qed

lemma scalar_bits_ok:
  "scalar_valid k v \<Longrightarrow> scalar_bits k v < 2 ^ (8 * scalar_size k) \<and> scalar_of_bits k (scalar_bits k v) = v"
proof (cases k)
  case I64
  assume v: "scalar_valid k v"
  have "v mod 2 ^ 64 = (if v < 0 then v + 2 ^ 64 else v)"
    using v I64 mod_add_self2[of v "2 ^ 64"] by (auto simp del: mod_add_self2 simp: mod_pos_pos_trivial)
  then show ?thesis using v I64 by (auto simp: scalar_bits_def scalar_of_bits_def)
qed (auto simp: scalar_bits_def scalar_of_bits_def)

lemma scalar_of_bits_valid: "n < 2 ^ (8 * scalar_size k) \<Longrightarrow> scalar_valid k (scalar_of_bits k n)"
  by (cases k) (auto simp: scalar_of_bits_def)

lemma scalar_size_pos [simp]: "0 < scalar_size k"
  by (cases k) auto

fun mapped_offsets :: "offsets \<Rightarrow> offsets" where
  "mapped_offsets (Constant n) = Constant n"
| "mapped_offsets (Byte c) = Byte (Mapped (column_values c))"
| "mapped_offsets (Short c) = Short (Mapped (column_values c))"
| "mapped_offsets (Word c) = Word (Mapped (column_values c))"

lemma mapped_offsets_list [simp]: "offsets_list (mapped_offsets off) = offsets_list off"
  by (cases off) auto

fun persisted :: "integer_data \<Rightarrow> integer_data" where
  "persisted (Raw c) = Raw (Mapped (column_values c))"
| "persisted (Packed base off) = Packed base (mapped_offsets off)"

lemma persisted_list: "integer_list k (persisted d) = integer_list k d"
  by (cases d) auto

lemma decode_data_wf:
  assumes "decode_data k mapping base width rows first (first + rows * width) = Some d" "base < 2 ^ 64"
  shows "wf_integer k d \<and> integer_len d = rows"
proof (cases "width = scalar_size k")
  case True
  then obtain c where c: "d = Raw c"
    "column_mapped width (scalar_of_bits k) mapping first (first + rows * width) = Some c"
    using assms by (auto simp: decode_data_def split: if_splits)
  have "scalar_valid k v" if "v \<in> set (column_values c)" for v
    using column_mapped_Some[OF c(2)] True that scalar_of_bits_valid by auto
  then show ?thesis using c column_mapped_Some[OF c(2)] True by auto
next
  case False
  then obtain off top where off:
    "decode_offsets k mapping width rows first (first + rows * width) = Some off"
    "d = Packed base off" "from_rank k base \<noteq> None" "from_rank k top \<noteq> None"
    "top = base + max_or_0 (offsets_list off)" "top < 2 ^ 64"
    using assms(1) unfolding decode_data_def checked_add_u64_def u64_max_def
    by (auto split: if_splits bind_splits)
  have width: "offset_width off = width \<and> width < scalar_size k"
    using off(1) by (cases k) (auto simp: decode_offsets_def split: if_splits)
  have elements: "length (offsets_list off) = rows \<and> (\<forall>n \<in> set (offsets_list off). n < 2 ^ (8 * width))"
    using off(1) column_mapped_Some[of 1 "\<lambda>n. n" mapping first rows]
      column_mapped_Some[of 2 "\<lambda>n. n" mapping first rows]
      column_mapped_Some[of 4 "\<lambda>n. n" mapping first rows] unfolding decode_offsets_def
    by (auto split: if_splits)
  have "base + n < 2 ^ 64 \<and> from_rank k (base + n) \<noteq> None" if "n \<in> set (offsets_list off)" for n
    using off(4-6) scalar_code.of_rank_below max_or_0_ge[OF that] by (metis add_le_cancel_left order_le_less_trans)
  moreover have "integer_len d = rows" using elements off(2) integer_len_list[of d k] by simp
  ultimately show ?thesis using width elements off(2,3) assms(2) by simp
qed

lemma decode_offsets_encoded:
  assumes wf: "wf_integer k (Packed base off)" and pre: "length pre mod 8 = 0"
    and parts: "encode_parts k (Packed base off) = (base, width, bytes)"
  shows "decode_offsets k (pre @ bytes @ rest) width (length (offsets_list off)) (length pre)
      (length pre + length (offsets_list off) * width) = Some (mapped_offsets off)"
proof -
  have aligned: "length pre mod w = 0" if "w dvd 8" for w
    using that pre by (meson dvd_trans mod_eq_0_iff_dvd)
  have column: "column_mapped w (\<lambda>n. n) (pre @ concat (map (le_bytes w) (column_values c)) @ rest)
      (length pre) (length pre + length (column_values c) * w) = Some (Mapped (column_values c))"
    if "w dvd 8" "w > 0" "\<forall>n \<in> set (column_values c). n < 2 ^ (8 * w)" for w c
    using column_mapped_encoded[of w pre "column_values c" "\<lambda>n. n" "\<lambda>n. n" rest] that aligned by simp
  show ?thesis
  proof (cases off)
    case (Byte c)
    then show ?thesis using wf parts column[of 1 c] by (auto simp: decode_offsets_def)
  next
    case (Short c)
    then show ?thesis using wf parts column[of 2 c] by (auto simp: decode_offsets_def)
  next
    case (Word c)
    then show ?thesis using wf parts column[of 4 c] by (auto simp: decode_offsets_def)
  qed (use parts in \<open>auto simp: decode_offsets_def\<close>)
qed

lemma max_or_0_packed:
  assumes "wf_integer k (Packed base off)"
  shows "base + max_or_0 (offsets_list off) < 2 ^ 64
    \<and> from_rank k (base + max_or_0 (offsets_list off)) \<noteq> None"
  using assms list_max_mem[of "offsets_list off"] by (auto simp: max_or_0_def)

lemma decode_data_encoded:
  assumes wf: "wf_integer k d" and pre: "length pre mod 8 = 0"
    and parts: "encode_parts k d = (base, width, bytes)"
  shows "decode_data k (pre @ bytes @ rest) base width (integer_len d) (length pre)
      (length pre + integer_len d * width) = Some (persisted d)"
proof (cases d)
  case (Raw c)
  have "length pre mod scalar_size k = 0" using pre by (cases k) (auto intro: mod_mod_cancel)
  then show ?thesis using wf parts Raw scalar_bits_ok
      column_mapped_encoded[of width pre "column_values c" "scalar_bits k" "scalar_of_bits k" rest]
    by (auto simp: decode_data_def)
next
  case (Packed b off)
  have b: "b = base" "width = offset_width off" using parts Packed by (cases off; simp)+
  have len: "integer_len d = length (offsets_list off)" using Packed integer_len_list[of d k] by simp
  have wf': "wf_integer k (Packed base off)" using wf Packed b by simp
  show ?thesis
    using decode_offsets_encoded[OF wf' pre, of width bytes rest] parts b wf' max_or_0_packed[OF wf']
    unfolding len unfolding Packed
    by (auto simp: decode_data_def checked_add_u64_def u64_max_def)
qed

lemma encode_parts_bounds:
  assumes "wf_integer k d" "encode_parts k d = (base, width, bytes)"
  shows "base < 2 ^ 64 \<and> width < 2 ^ 64 \<and> length bytes = integer_len d * width"
proof -
  have "scalar_size k < 2 ^ 64" by (cases k) auto
  then show ?thesis using assms length_concat_le_bytes[of "scalar_size k"]
    by (cases d rule: integer_len.cases) (auto simp flip: map_map)
qed

lemma next_multiple_of_8: "next_multiple_of_8 n mod 8 = 0 \<and> n \<le> next_multiple_of_8 n"
  by (simp add: next_multiple_of_8_def)

lemma decode_encode:
  assumes wf: "wf_integer k d" and bytes: "bytes = encode k d out"
    and fits: "length bytes \<le> limit" "length bytes \<le> u64_max"
  shows "decode k (bytes @ rest) (length out) (integer_len d) limit = Some (length bytes, persisted d)"
proof -
  obtain base width body where parts: "encode_parts k d = (base, width, body)"
    by (cases "encode_parts k d")
  define pad where "pad = out @ replicate (next_multiple_of_8 (length out) - length out) 0"
  define head where "head = le_bytes 8 base @ le_bytes 8 width"
  have pad: "length pad = (length out + 7) div 8 * 8"
    using next_multiple_of_8[of "length out"] by (simp add: pad_def next_multiple_of_8_def)
  have b: "bytes = pad @ le_bytes 8 base @ le_bytes 8 width @ body"
    by (simp add: bytes encode_def parts pad_def)
  note bounds = encode_parts_bounds[OF wf parts]
  have "from_le_bytes (le_bytes 8 base) = base" "from_le_bytes (le_bytes 8 width) = width"
    using bounds by (auto intro!: from_le_bytes_le_bytes)
  moreover have "slice_range (bytes @ rest) (length pad) (length pad + 8) = Some (le_bytes 8 base)"
    "slice_range (bytes @ rest) (length pad + 8) (length pad + 16) = Some (le_bytes 8 width)"
    by (simp_all add: b slice_range_def subslice_def)
  moreover have "decode_data k (bytes @ rest) base width (integer_len d) (length pad + 16)
      (length pad + 16 + integer_len d * width) = Some (persisted d)"
    using decode_data_encoded[OF wf _ parts, of "pad @ le_bytes 8 base @ le_bytes 8 width" rest]
    by (simp add: b pad)
  moreover have "length bytes = length pad + 16 + integer_len d * width" using bounds b by simp
  moreover have "length out + 7 \<le> length pad + 7" using pad next_multiple_of_8[of "length out"]
    by (simp add: next_multiple_of_8_def)
  ultimately show ?thesis using fits pad
    by (simp add: decode_def checked_add_u64_def checked_mul_u64_def Let_def)
qed

lemma decode_wf:
  assumes "decode k mapping offset rows limit = Some (next, d)"
  shows "wf_integer k d \<and> integer_len d = rows \<and> next \<le> limit"
proof -
  let ?at = "(offset + 7) div 8 * 8"
  let ?base = "from_le_bytes (subslice mapping ?at (?at + 8))"
  let ?width = "from_le_bytes (subslice mapping (?at + 8) (?at + 16))"
  have data: "decode_data k mapping ?base ?width rows (?at + 16) (?at + 16 + rows * ?width) = Some d"
    and "next \<le> limit" "?at + 16 \<le> length mapping"
    using assms unfolding decode_def Let_def
    by (auto simp: checked_add_u64_def checked_mul_u64_def slice_range_def
        split: if_splits bind_splits)
  then have "?base < 2 ^ 64" using from_le_bytes_bound[of "subslice mapping ?at (?at + 8)"] by simp
  then show ?thesis using decode_data_wf[OF data] \<open>next \<le> limit\<close> by blast
qed

section \<open>Properties\<close>

text \<open>
  C36: a frame-of-reference column behaves as the list of its values: reading a slot, overwriting one or
  appending at the end, and compacting give what the list operations give, a write beyond the end is the
  index panic, and every operation keeps the column well formed.
\<close>
theorem integer_column_refines_list:
  assumes "wf_integer k d" "scalar_valid k v"
  shows "integer_get k d slot = slice_get (integer_list k d) slot \<and>
    map_option (integer_list k) (integer_set k d slot v) = list_set (integer_list k d) slot v \<and>
    (case integer_set k d slot v of Some d' \<Rightarrow> wf_integer k d' | None \<Rightarrow> slot > integer_len d) \<and>
    wf_integer k (compact k d) \<and> integer_list k (compact k d) = integer_list k d"
proof -
  have "integer_set k d slot v = None \<longleftrightarrow> list_set (integer_list k d) slot v = None"
    using integer_set_list[OF assms(1), of slot v] by (metis option.map_disc_iff)
  then show ?thesis
    using assms integer_set_list integer_get_list compact_list integer_set_wf integer_len_list[of d k]
    by (auto simp: list_set_def split: option.splits if_splits)
qed

theorem integer_column_refines_list_witness:
  "integer_list U64 (the (integer_set U64 (Packed 100 (Byte (Owned [0, 7, 3]))) 1 5)) = [100, 5, 103]"
  using integer_column_refines_list[of U64 "Packed 100 (Byte (Owned [0, 7, 3]))" 5 1]
  by (auto simp: list_set_def)

text \<open>The bitmap a rank range fills is exact: the bit of every row of the column says whether its
  value's rank lies in the range, whatever the stored representation and the previous bytes were.\<close>

lemma range_bitmap_exact:
  assumes "wf_integer k d" "slot < integer_len d" "slot div 8 < length out"
  shows "bit_at (fill_rank_range k d out lower upper) slot
    \<longleftrightarrow> lower \<le> rank k (integer_list k d ! slot) \<and> rank k (integer_list k d ! slot) \<le> upper"
  using fill_rank_range_bits assms integer_len_list by metis

text \<open>
  C40: a column written at any offset of a file and read back there, with the row count the reader
  knows, gives the same list of values and leaves the reader at the end of what was written.
\<close>
theorem integer_column_decode_encode:
  assumes "wf_integer k d" "length (encode k d out) \<le> limit" "length (encode k d out) \<le> u64_max"
  shows "\<exists>d'. decode k (encode k d out @ rest) (length out) (integer_len d) limit
      = Some (length (encode k d out), d') \<and> integer_list k d' = integer_list k d"
  using decode_encode[OF assms(1) refl assms(2,3)] persisted_list by blast

theorem integer_column_decode_encode_witness:
  "\<exists>d'. decode I64 (encode I64 (Packed 100 (Short (Owned [0, 700]))) [1] @ [2]) 1 2 28
    = Some (28, d') \<and> integer_list I64 d' = integer_list I64 (Packed 100 (Short (Owned [0, 700])))"
proof -
  have "length (encode I64 (Packed 100 (Short (Owned [0, 700]))) [1]) = 28"
    by (simp add: encode_def next_multiple_of_8_def)
  then show ?thesis
    using integer_column_decode_encode[of I64 "Packed 100 (Short (Owned [0, 700]))" "[1]" 28 "[2]"]
    by (simp add: u64_max_def flip: numeral_2_eq_2)
qed

text \<open>Whatever the bytes of a cache file are, a column the decoder accepts has exactly the announced
  number of rows, ends inside the section, and every row can be read without a panic.\<close>

lemma decoded_column_readable:
  assumes "decode k mapping offset rows limit = Some (next, d)"
  shows "wf_integer k d \<and> integer_len d = rows \<and> next \<le> limit \<and>
    (\<forall>slot < rows. \<exists>v. integer_get k d slot = Some v \<and> scalar_valid k v)"
  using decode_wf[OF assms] integer_get_list wf_integer_valid nth_mem integer_len_list
  by (fastforce simp: slice_get_def)

end
