(* ===== verification/Entry_Chunk.thy ===== *)
theory Entry_Chunk
  imports File_Entry Integer_Column Text_Pool
begin

text \<open>
  The blocks of the entry table, \<open>EntryChunk\<close> and \<open>EntryView\<close> of \<open>core/src/entry_table.rs\<close>: one column per
  field of a row, with the texts of all rows in one arena. A block is a record of its columns; \<open>Arc\<close> is
  its value, the descriptor of the cache section is an opaque number, and the arena is its text whether
  it is owned or mapped. Panics are \<open>None\<close>.
\<close>

section \<open>Blocks\<close>

record path_ref =
  pr_prefix :: text_ref
  pr_suffix :: text_ref

record entry_chunk =
  ch_section :: "nat option"
  ch_id :: integer_data
  ch_size :: integer_data
  ch_modified :: integer_data
  ch_created :: integer_data
  ch_changed :: integer_data
  ch_modified_ns :: integer_data
  ch_changed_ns :: integer_data
  ch_file_id :: integer_data
  ch_parent_id :: integer_data
  ch_flags :: integer_data
  ch_path :: "path_ref column"
  ch_name :: "text_ref column"
  ch_folded_name :: "text_ref column"
  ch_folded_path :: "path_ref column"
  ch_search_name :: "text_ref column"
  ch_search_path :: "path_ref column"
  ch_parent :: "text_ref column"
  ch_extension :: integer_data
  ch_folded_extension :: integer_data
  ch_volume_id :: integer_data
  ch_states :: "u8 column"
  ch_text :: str
  ch_labels :: "str list"
  ch_properties :: "nat \<rightharpoonup> json"
  ch_pending :: "(str \<rightharpoonup> text_ref) option"

definition default_chunk :: entry_chunk where
  "default_chunk = \<lparr>ch_section = None, ch_id = Raw (Owned []), ch_size = Raw (Owned []),
    ch_modified = Raw (Owned []), ch_created = Raw (Owned []), ch_changed = Raw (Owned []),
    ch_modified_ns = Raw (Owned []), ch_changed_ns = Raw (Owned []), ch_file_id = Raw (Owned []),
    ch_parent_id = Raw (Owned []), ch_flags = Raw (Owned []), ch_path = Owned [], ch_name = Owned [],
    ch_folded_name = Owned [], ch_folded_path = Owned [], ch_search_name = Owned [],
    ch_search_path = Owned [], ch_parent = Owned [], ch_extension = Raw (Owned []),
    ch_folded_extension = Raw (Owned []), ch_volume_id = Raw (Owned []), ch_states = Owned [],
    ch_text = [], ch_labels = [], ch_properties = Map.empty, ch_pending = None\<rparr>"

definition chunk_len :: "entry_chunk \<Rightarrow> nat" where
  "chunk_len c = integer_len (ch_id c)"

definition path_at :: "str \<Rightarrow> path_ref \<Rightarrow> text_view option" where
  "path_at t p = do {
    a \<leftarrow> text_at t (pr_prefix p);
    b \<leftarrow> text_at t (pr_suffix p);
    Some \<lparr>prefix = a, suffix = b\<rparr> }"

section \<open>Row views\<close>

definition text_read :: "str \<Rightarrow> text_ref column \<Rightarrow> nat \<Rightarrow> str option" where
  "text_read t col slot = Option.bind (slice_get (column_values col) slot) (text_at t)"

definition path_read :: "str \<Rightarrow> path_ref column \<Rightarrow> nat \<Rightarrow> text_view option" where
  "path_read t col slot = Option.bind (slice_get (column_values col) slot) (path_at t)"

definition label_read :: "str list \<Rightarrow> integer_data \<Rightarrow> nat \<Rightarrow> str option" where
  "label_read labels d slot = Option.bind (integer_get U32 d slot) (\<lambda>i. slice_get labels (nat i))"

definition state_read :: "entry_chunk \<Rightarrow> nat \<Rightarrow> u8 option" where
  "state_read c slot = slice_get (column_values (ch_states c)) slot"

definition property_read :: "entry_chunk \<Rightarrow> nat \<Rightarrow> json option" where
  "property_read c slot = do {
    state \<leftarrow> state_read c slot;
    if and state 16 \<noteq> 0 then ch_properties c slot
    else if and state 8 \<noteq> 0 then Some JNull
    else Some (JObject []) }"

definition chunk_view :: "entry_chunk \<Rightarrow> nat \<Rightarrow> file_entry option" where
  "chunk_view c slot = do {
    v_id \<leftarrow> integer_get I64 (ch_id c) slot;
    v_size \<leftarrow> integer_get U64 (ch_size c) slot;
    v_modified \<leftarrow> integer_get I64 (ch_modified c) slot;
    v_created \<leftarrow> integer_get I64 (ch_created c) slot;
    v_changed \<leftarrow> integer_get I64 (ch_changed c) slot;
    v_modified_ns \<leftarrow> integer_get I64 (ch_modified_ns c) slot;
    v_changed_ns \<leftarrow> integer_get I64 (ch_changed_ns c) slot;
    v_file_id \<leftarrow> integer_get U64 (ch_file_id c) slot;
    v_parent_id \<leftarrow> integer_get U64 (ch_parent_id c) slot;
    v_flags \<leftarrow> integer_get U32 (ch_flags c) slot;
    v_path \<leftarrow> path_read (ch_text c) (ch_path c) slot;
    v_name \<leftarrow> text_read (ch_text c) (ch_name c) slot;
    v_folded_name \<leftarrow> text_read (ch_text c) (ch_folded_name c) slot;
    v_folded_path \<leftarrow> path_read (ch_text c) (ch_folded_path c) slot;
    v_search_name \<leftarrow> text_read (ch_text c) (ch_search_name c) slot;
    v_search_path \<leftarrow> path_read (ch_text c) (ch_search_path c) slot;
    v_parent \<leftarrow> text_read (ch_text c) (ch_parent c) slot;
    v_extension \<leftarrow> label_read (ch_labels c) (ch_extension c) slot;
    v_folded_extension \<leftarrow> label_read (ch_labels c) (ch_folded_extension c) slot;
    v_volume_id \<leftarrow> label_read (ch_labels c) (ch_volume_id c) slot;
    state \<leftarrow> state_read c slot;
    v_properties \<leftarrow> property_read c slot;
    Some \<lparr>id = v_id, size = nat v_size, modified = v_modified, created = v_created,
      changed = v_changed, modified_ns = v_modified_ns, changed_ns = v_changed_ns,
      file_id = nat v_file_id, parent_id = nat v_parent_id, flags = word_of_int v_flags,
      path = v_path, name = v_name, folded_name = v_folded_name, folded_path = v_folded_path,
      search_name = v_search_name, search_path = v_search_path, parent = v_parent,
      extension = v_extension, folded_extension = v_folded_extension, volume_id = v_volume_id,
      is_dir = (and state 1 \<noteq> 0), is_symlink = (and state 2 \<noteq> 0),
      content_indexed = (and state 4 \<noteq> 0), properties = v_properties\<rparr> }"

definition to_owned_file :: "file_entry \<Rightarrow> file_entry" where
  "to_owned_file f = f\<lparr>path := view_of_str (view_text (path f)),
    folded_path := view_of_str (view_text (folded_path f)),
    search_path := view_of_str (view_text (search_path f))\<rparr>"

section \<open>Changing a row\<close>

fun find_index :: "'a \<Rightarrow> 'a list \<Rightarrow> nat option" where
  "find_index v [] = None"
| "find_index v (x # xs) = (if x = v then Some 0 else map_option Suc (find_index v xs))"

definition label :: "entry_chunk \<Rightarrow> str \<Rightarrow> entry_chunk \<times> int" where
  "label c v = (case find_index v (ch_labels c) of
      Some i \<Rightarrow> (c, int i mod 2 ^ 32)
    | None \<Rightarrow> (c\<lparr>ch_labels := ch_labels c @ [v]\<rparr>, int (length (ch_labels c)) mod 2 ^ 32))"

definition state_bits :: "file_entry \<Rightarrow> u8" where
  "state_bits row =
    (let empty = (properties row = JObject []); null = (properties row = JNull) in
     or (or (or (or (of_bool (is_dir row)) (push_bit 1 (of_bool (is_symlink row))))
       (push_bit 2 (of_bool (content_indexed row)))) (push_bit 3 (of_bool null)))
       (push_bit 4 (of_bool (\<not> empty \<and> \<not> null))))"

definition set_properties :: "entry_chunk \<Rightarrow> nat \<Rightarrow> file_entry \<Rightarrow> entry_chunk option" where
  "set_properties c slot row =
    (let empty = (properties row = JObject []); null = (properties row = JNull) in do {
     states \<leftarrow> column_set (ch_states c) slot (state_bits row);
     Some (c\<lparr>ch_states := states, ch_properties :=
       (if \<not> empty \<and> \<not> null then
          if ch_properties c slot \<noteq> Some (properties row)
          then (ch_properties c)(slot \<mapsto> properties row) else ch_properties c
        else if slot \<in> dom (ch_properties c) then (ch_properties c)(slot := None)
        else ch_properties c)\<rparr>) })"

definition chunk_refs :: "entry_chunk \<Rightarrow> text_ref list" where
  "chunk_refs c =
    concat (map column_values [ch_name c, ch_folded_name c, ch_search_name c, ch_parent c])
    @ concat (map (\<lambda>col. concat (map (\<lambda>p. [pr_prefix p, pr_suffix p]) (column_values col)))
        [ch_path c, ch_folded_path c, ch_search_path c])"

fun build_dictionary :: "str \<Rightarrow> text_ref list \<Rightarrow> (str \<rightharpoonup> text_ref) \<Rightarrow> (str \<rightharpoonup> text_ref) option" where
  "build_dictionary t [] d = Some d"
| "build_dictionary t (r # rs) d = do {
    v \<leftarrow> text_at t r;
    build_dictionary t rs (if d v = None then d(v \<mapsto> r) else d) }"

definition intern_update :: "entry_chunk \<Rightarrow> str \<Rightarrow> (entry_chunk \<times> text_ref) option" where
  "intern_update c v = do {
    d \<leftarrow> (case ch_pending c of Some d \<Rightarrow> Some d
           | None \<Rightarrow> build_dictionary (ch_text c) (chunk_refs c) Map.empty);
    case d v of
      Some r \<Rightarrow> Some (c\<lparr>ch_pending := Some d\<rparr>, r)
    | None \<Rightarrow> do {
        (t, r) \<leftarrow> text_append (ch_text c) v;
        Some (c\<lparr>ch_text := t, ch_pending := Some (d(v \<mapsto> r))\<rparr>, r) } }"

text \<open>The stanza the source repeats for every text column, and for every path column.\<close>

definition set_text ::
    "(entry_chunk \<Rightarrow> text_ref column) \<Rightarrow> ((text_ref column \<Rightarrow> text_ref column) \<Rightarrow> entry_chunk \<Rightarrow> entry_chunk)
      \<Rightarrow> nat \<Rightarrow> str \<Rightarrow> entry_chunk \<Rightarrow> entry_chunk option" where
  "set_text get upd slot v c = do {
    stale \<leftarrow> (case slice_get (column_values (get c)) slot of None \<Rightarrow> Some True
      | Some r \<Rightarrow> map_option (\<lambda>t. t \<noteq> v) (text_at (ch_text c) r));
    if stale then do {
      (c, r) \<leftarrow> intern_update c v;
      col \<leftarrow> column_set (get c) slot r;
      Some (upd (\<lambda>_. col) c) }
    else Some c }"

definition path_split :: "str \<Rightarrow> str \<times> str" where
  "path_split v = (let n = length (takeWhile (\<lambda>ch. ch \<noteq> slash) (rev v)) in
    (take (length v - n) v, drop (length v - n) v))"

definition set_path ::
    "(entry_chunk \<Rightarrow> path_ref column) \<Rightarrow> ((path_ref column \<Rightarrow> path_ref column) \<Rightarrow> entry_chunk \<Rightarrow> entry_chunk)
      \<Rightarrow> nat \<Rightarrow> text_view \<Rightarrow> entry_chunk \<Rightarrow> entry_chunk option" where
  "set_path get upd slot v c = do {
    stale \<leftarrow> (case slice_get (column_values (get c)) slot of None \<Rightarrow> Some True
      | Some r \<Rightarrow> map_option (\<lambda>t. \<not> view_eq t v) (path_at (ch_text c) r));
    if stale then do {
      (c, p) \<leftarrow> with_str v (\<lambda>value. do {
        (c, a) \<leftarrow> intern_update c (fst (path_split value));
        (c, b) \<leftarrow> intern_update c (snd (path_split value));
        Some (c, \<lparr>pr_prefix = a, pr_suffix = b\<rparr>) });
      col \<leftarrow> column_set (get c) slot p;
      Some (upd (\<lambda>_. col) c) }
    else Some c }"

definition set_parent :: "nat \<Rightarrow> str \<Rightarrow> entry_chunk \<Rightarrow> entry_chunk option" where
  "set_parent slot v c = do {
    stale \<leftarrow> (case slice_get (column_values (ch_parent c)) slot of None \<Rightarrow> Some True
      | Some r \<Rightarrow> map_option (\<lambda>t. t \<noteq> v) (text_at (ch_text c) r));
    if stale then do {
      p \<leftarrow> slice_get (column_values (ch_path c)) slot;
      t \<leftarrow> text_at (ch_text c) (pr_prefix p);
      (c, r) \<leftarrow> (if starts_with t v then
          if str_len v \<le> u32_max
          then Some (c, \<lparr>tr_offset = tr_offset (pr_prefix p), tr_length = str_len v\<rparr>) else None
        else intern_update c v);
      col \<leftarrow> column_set (ch_parent c) slot r;
      Some (c\<lparr>ch_parent := col\<rparr>) }
    else Some c }"

definition set_numbers :: "nat \<Rightarrow> file_entry \<Rightarrow> entry_chunk \<Rightarrow> entry_chunk option" where
  "set_numbers slot row c = do {
    d1 \<leftarrow> integer_set I64 (ch_id c) slot (id row);
    d2 \<leftarrow> integer_set U64 (ch_size c) slot (int (size row));
    d3 \<leftarrow> integer_set I64 (ch_modified c) slot (modified row);
    d4 \<leftarrow> integer_set I64 (ch_created c) slot (created row);
    d5 \<leftarrow> integer_set I64 (ch_changed c) slot (changed row);
    d6 \<leftarrow> integer_set I64 (ch_modified_ns c) slot (modified_ns row);
    d7 \<leftarrow> integer_set I64 (ch_changed_ns c) slot (changed_ns row);
    d8 \<leftarrow> integer_set U64 (ch_file_id c) slot (int (file_id row));
    d9 \<leftarrow> integer_set U64 (ch_parent_id c) slot (int (parent_id row));
    d10 \<leftarrow> integer_set U32 (ch_flags c) slot (uint (flags row));
    Some (c\<lparr>ch_id := d1, ch_size := d2, ch_modified := d3, ch_created := d4, ch_changed := d5,
      ch_modified_ns := d6, ch_changed_ns := d7, ch_file_id := d8, ch_parent_id := d9, ch_flags := d10\<rparr>) }"

definition set_label ::
    "(entry_chunk \<Rightarrow> integer_data) \<Rightarrow> ((integer_data \<Rightarrow> integer_data) \<Rightarrow> entry_chunk \<Rightarrow> entry_chunk)
      \<Rightarrow> nat \<Rightarrow> str \<Rightarrow> entry_chunk \<Rightarrow> entry_chunk option" where
  "set_label get upd slot v c = (case label c v of (c, i) \<Rightarrow> do {
    d \<leftarrow> integer_set U32 (get c) slot i;
    Some (upd (\<lambda>_. d) c) })"

definition set_labels :: "nat \<Rightarrow> file_entry \<Rightarrow> entry_chunk \<Rightarrow> entry_chunk option" where
  "set_labels slot row c = do {
    c \<leftarrow> set_label ch_extension ch_extension_update slot (extension row) c;
    c \<leftarrow> set_label ch_folded_extension ch_folded_extension_update slot (folded_extension row) c;
    c \<leftarrow> set_label ch_volume_id ch_volume_id_update slot (volume_id row) c;
    set_properties c slot row }"

definition set_texts :: "nat \<Rightarrow> file_entry \<Rightarrow> entry_chunk \<Rightarrow> entry_chunk option" where
  "set_texts slot row c = do {
    c \<leftarrow> set_text ch_search_name ch_search_name_update slot (search_name row) c;
    c \<leftarrow> set_text ch_name ch_name_update slot (name row) c;
    c \<leftarrow> set_text ch_folded_name ch_folded_name_update slot (folded_name row) c;
    c \<leftarrow> set_path ch_path ch_path_update slot (path row) c;
    c \<leftarrow> set_parent slot (parent row) c;
    c \<leftarrow> set_path ch_folded_path ch_folded_path_update slot (folded_path row) c;
    set_path ch_search_path ch_search_path_update slot (search_path row) c }"

definition chunk_set :: "entry_chunk \<Rightarrow> nat \<Rightarrow> file_entry \<Rightarrow> entry_chunk option" where
  "chunk_set c slot row = do {
    c \<leftarrow> set_numbers slot row (c\<lparr>ch_section := None\<rparr>);
    c \<leftarrow> set_texts slot row c;
    set_labels slot row c }"

section \<open>Single columns\<close>

definition int_updated :: "scalar_kind \<Rightarrow> integer_data \<Rightarrow> nat \<Rightarrow> int \<Rightarrow> integer_data \<Rightarrow> bool" where
  "int_updated k d slot v d' \<longleftrightarrow> wf_integer k d' \<and> integer_len d' = max (integer_len d) (Suc slot) \<and>
    (\<forall>i. integer_get k d' i = (if i = slot then Some v else integer_get k d i))"

definition col_updated :: "'v column \<Rightarrow> nat \<Rightarrow> 'v \<Rightarrow> 'v column \<Rightarrow> bool" where
  "col_updated col slot v col' \<longleftrightarrow>
    length (column_values col') = max (length (column_values col)) (Suc slot) \<and>
    (\<forall>i. slice_get (column_values col') i = (if i = slot then Some v else slice_get (column_values col) i))"

lemma list_set_get:
  "list_set xs slot v = Some ys \<Longrightarrow> length ys = max (length xs) (Suc slot) \<and>
    slice_get ys i = (if i = slot then Some v else slice_get xs i)"
  by (auto simp: list_set_def slice_get_def nth_append split: if_splits)

lemma list_set_total: "slot \<le> length xs \<Longrightarrow> \<exists>ys. list_set xs slot v = Some ys"
  by (auto simp: list_set_def)

lemma integer_set_updated:
  assumes "wf_integer k d" "scalar_valid k v" "slot \<le> integer_len d"
  shows "\<exists>d'. integer_set k d slot v = Some d' \<and> int_updated k d slot v d'"
proof -
  obtain ys where ys: "list_set (integer_list k d) slot v = Some ys"
    using list_set_total assms(3) integer_len_list[of d k] by metis
  then obtain d' where d': "integer_set k d slot v = Some d'" "integer_list k d' = ys"
    using integer_set_list[OF assms(1), of slot v] by auto
  then have wf: "wf_integer k d'" using integer_set_wf assms by blast
  then show ?thesis using d' list_set_get[OF ys] integer_len_list[of _ k]
    by (simp add: int_updated_def integer_get_list assms(1))
qed

lemma column_set_updated:
  assumes "slot \<le> length (column_values col)"
  shows "\<exists>col'. column_set col slot v = Some col' \<and> col_updated col slot v col'"
proof -
  obtain ys where ys: "list_set (column_values col) slot v = Some ys"
    using list_set_total assms by metis
  then obtain col' where "column_set col slot v = Some col'" "column_values col' = ys"
    using column_set_list[of col slot v] by auto
  then show ?thesis using list_set_get[OF ys] by (simp add: col_updated_def)
qed

lemma col_updated_set: "col_updated col slot v col' \<Longrightarrow> set (column_values col') \<subseteq> insert v (set (column_values col))"
proof
  fix x assume "col_updated col slot v col'" "x \<in> set (column_values col')"
  then obtain i where "slice_get (column_values col') i = Some x"
    by (metis in_set_conv_nth slice_get_def)
  then show "x \<in> insert v (set (column_values col))"
    using \<open>col_updated col slot v col'\<close> slice_get_mem by (fastforce simp: col_updated_def split: if_splits)
qed

lemma slice_get_None: "slice_get xs i = None \<longleftrightarrow> length xs \<le> i"
  by (auto simp: slice_get_def)

section \<open>Interning during an update\<close>

definition dictionary_ok :: "str \<Rightarrow> (str \<rightharpoonup> text_ref) \<Rightarrow> bool" where
  "dictionary_ok t d \<longleftrightarrow> (\<forall>v r. d v = Some r \<longrightarrow> text_at t r = Some v)"

definition refs_ok :: "entry_chunk \<Rightarrow> bool" where
  "refs_ok c \<longleftrightarrow> (\<forall>r \<in> set (chunk_refs c). text_at (ch_text c) r \<noteq> None) \<and>
    (\<forall>d. ch_pending c = Some d \<longrightarrow> dictionary_ok (ch_text c) d)"

abbreviation with_text :: "entry_chunk \<Rightarrow> str \<Rightarrow> (str \<rightharpoonup> text_ref) option \<Rightarrow> entry_chunk" where
  "with_text c u d \<equiv> c\<lparr>ch_text := ch_text c @ u, ch_pending := d\<rparr>"

lemma chunk_refs_with_text [simp]: "chunk_refs (c\<lparr>ch_text := t, ch_pending := d\<rparr>) = chunk_refs c"
  by (simp add: chunk_refs_def)

lemma build_dictionary_ok:
  "(\<forall>r \<in> set rs. text_at t r \<noteq> None) \<Longrightarrow> dictionary_ok t d \<Longrightarrow>
   \<exists>d'. build_dictionary t rs d = Some d' \<and> dictionary_ok t d'"
proof (induction rs arbitrary: d)
  case (Cons r rs)
  then obtain v where v: "text_at t r = Some v" by auto
  have "dictionary_ok t (if d v = None then d(v \<mapsto> r) else d)"
    using Cons.prems(2) v by (auto simp: dictionary_ok_def)
  then show ?case using Cons v by simp
qed simp

lemma refs_ok_grow:
  assumes "refs_ok c" "dictionary_ok (ch_text c @ u) d"
  shows "refs_ok (with_text c u (Some d))"
  using assms text_at_append by (fastforce simp: refs_ok_def)

lemma intern_update_ok:
  assumes ok: "refs_ok c" and fits: "str_len (ch_text c) + str_len v \<le> u32_max"
  shows "\<exists>u d r. intern_update c v = Some (with_text c u d, r) \<and> str_len u \<le> str_len v
    \<and> text_at (ch_text c @ u) r = Some v \<and> refs_ok (with_text c u d)"
proof -
  obtain d where d: "(case ch_pending c of Some d \<Rightarrow> Some d
      | None \<Rightarrow> build_dictionary (ch_text c) (chunk_refs c) Map.empty) = Some d" "dictionary_ok (ch_text c) d"
    using ok build_dictionary_ok[of "chunk_refs c" "ch_text c" Map.empty]
    by (cases "ch_pending c") (auto simp: refs_ok_def dictionary_ok_def)
  show ?thesis
  proof (cases "d v")
    case (Some r)
    have "intern_update c v = Some (with_text c [] (Some d), r)"
      using d Some by (simp add: intern_update_def)
    moreover have "refs_ok (with_text c [] (Some d))" using refs_ok_grow[OF ok, of "[]" d] d by simp
    ultimately show ?thesis using d Some by (fastforce simp: dictionary_ok_def str_len_def)
  next
    case None
    obtain t r where tr: "text_append (ch_text c) v = Some (t, r)"
      using text_append_total[OF fits] by fastforce
    then have t: "t = ch_text c @ v" "text_at t r = Some v" using text_append_Some by blast+
    have "intern_update c v = Some (with_text c v (Some (d(v \<mapsto> r))), r)"
      using d None tr t by (simp add: intern_update_def)
    moreover have "dictionary_ok (ch_text c @ v) (d(v \<mapsto> r))"
      using d t text_at_append by (auto simp: dictionary_ok_def)
    ultimately show ?thesis using refs_ok_grow[OF ok] t by blast
  qed
qed

lemma with_text_twice [simp]: "with_text (with_text c u d) w e = with_text c (u @ w) e"
  by simp

section \<open>Text columns of a block\<close>

text \<open>
  What setting a slot of a text or path column needs of the column: it can be replaced without touching
  the arena, and the references of the block are those of its columns.
\<close>

locale column_field =
  fixes get :: "entry_chunk \<Rightarrow> 'r column"
    and upd :: "('r column \<Rightarrow> 'r column) \<Rightarrow> entry_chunk \<Rightarrow> entry_chunk"
    and refs_of :: "'r \<Rightarrow> text_ref list"
  assumes get_with_text: "get (c\<lparr>ch_text := t, ch_pending := d\<rparr>) = get c"
    and upd_same: "upd (\<lambda>_. get c) c = c"
    and text_upd: "ch_text (upd f c) = ch_text c"
    and pending_upd: "ch_pending (upd f c) = ch_pending c"
    and refs_upd: "set (chunk_refs (upd (\<lambda>_. col) c))
      \<subseteq> set (chunk_refs c) \<union> (\<Union>x \<in> set (column_values col). set (refs_of x))"
    and refs_get: "x \<in> set (column_values (get c)) \<Longrightarrow> set (refs_of x) \<subseteq> set (chunk_refs c)"
begin

lemma refs_ok_store:
  assumes "refs_ok c" "\<And>r. r \<in> set (refs_of x) \<Longrightarrow> text_at (ch_text c) r \<noteq> None"
    "col_updated (get c) slot x col"
  shows "refs_ok (upd (\<lambda>_. col) c)"
proof -
  have "text_at (ch_text c) r \<noteq> None" if mem: "r \<in> set (chunk_refs (upd (\<lambda>_. col) c))" for r
  proof -
    consider "r \<in> set (chunk_refs c)" | y where "y \<in> set (column_values col)" "r \<in> set (refs_of y)"
      using mem refs_upd[of col c] by blast
    then show ?thesis
    proof cases
      case (2 y)
      then have "y = x \<or> y \<in> set (column_values (get c))" using col_updated_set[OF assms(3)] by auto
      then show ?thesis using 2 assms(1,2) refs_get[of y c] by (auto simp: refs_ok_def)
    qed (use assms(1) in \<open>auto simp: refs_ok_def\<close>)
  qed
  then show ?thesis using assms(1) by (simp add: refs_ok_def text_upd pending_upd)
qed

end

locale text_field = column_field get upd "\<lambda>r. [r]"
  for get :: "entry_chunk \<Rightarrow> text_ref column" and upd
begin

lemma set_text_ok:
  assumes ok: "refs_ok c" and fits: "str_len (ch_text c) + str_len v \<le> u32_max"
    and slot: "slot \<le> length (column_values (get c))"
  shows "\<exists>u d col. set_text get upd slot v c = Some (upd (\<lambda>_. col) (with_text c u d))
    \<and> str_len u \<le> str_len v \<and> refs_ok (upd (\<lambda>_. col) (with_text c u d))
    \<and> length (column_values col) = max (length (column_values (get c))) (Suc slot)
    \<and> text_read (ch_text c @ u) col slot = Some v
    \<and> (\<forall>i. i \<noteq> slot \<longrightarrow> slice_get (column_values col) i = slice_get (column_values (get c)) i)"
proof (cases "\<exists>r. slice_get (column_values (get c)) slot = Some r \<and> text_at (ch_text c) r = Some v")
  case True
  then obtain r where r: "slice_get (column_values (get c)) slot = Some r" "text_at (ch_text c) r = Some v"
    by auto
  then have len: "length (column_values (get c)) = max (length (column_values (get c))) (Suc slot)"
    by (auto simp: slice_get_def split: if_splits)
  have "with_text c [] (ch_pending c) = c" by simp
  moreover have "set_text get upd slot v c = Some (upd (\<lambda>_. get c) c)"
    using r by (simp add: set_text_def upd_same)
  moreover have "text_read (ch_text c @ []) (get c) slot = Some v" using r by (simp add: text_read_def)
  moreover have "str_len [] \<le> str_len v" by (simp add: str_len_def)
  ultimately show ?thesis using len ok upd_same by metis
next
  case False
  have stale: "(case slice_get (column_values (get c)) slot of None \<Rightarrow> Some True
      | Some r \<Rightarrow> map_option (\<lambda>t. t \<noteq> v) (text_at (ch_text c) r)) = Some True"
  proof (cases "slice_get (column_values (get c)) slot")
    case (Some r)
    then have "r \<in> set (chunk_refs c)" using refs_get slice_get_mem by fastforce
    then show ?thesis using Some False ok by (auto simp: refs_ok_def)
  qed simp
  obtain u d r where i: "intern_update c v = Some (with_text c u d, r)" "str_len u \<le> str_len v"
    "text_at (ch_text c @ u) r = Some v" "refs_ok (with_text c u d)"
    using intern_update_ok[OF ok fits] by blast
  obtain col where col: "column_set (get c) slot r = Some col" "col_updated (get c) slot r col"
    using column_set_updated[OF slot] by blast
  have "set_text get upd slot v c = Some (upd (\<lambda>_. col) (with_text c u d))"
    using stale i(1) col(1) by (simp add: set_text_def get_with_text)
  moreover have "refs_ok (upd (\<lambda>_. col) (with_text c u d))"
    by (rule refs_ok_store[OF i(4)]) (use i(3) col(2) in \<open>auto simp: get_with_text\<close>)
  ultimately show ?thesis using i(2,3) col(2) unfolding col_updated_def text_read_def by fastforce
qed

end

locale path_field = column_field get upd "\<lambda>p. [pr_prefix p, pr_suffix p]"
  for get :: "entry_chunk \<Rightarrow> path_ref column" and upd
begin

lemma path_at_refs:
  assumes "refs_ok c" "p \<in> set (column_values (get c))"
  shows "path_at (ch_text c) p \<noteq> None"
proof -
  have "\<exists>a. text_at (ch_text c) (pr_prefix p) = Some a" "\<exists>b. text_at (ch_text c) (pr_suffix p) = Some b"
    using assms refs_get[of p c] by (auto simp: refs_ok_def)
  then show ?thesis by (auto simp: path_at_def)
qed

lemma set_path_ok:
  assumes ok: "refs_ok c" and fits: "str_len (ch_text c) + str_len (view_text v) \<le> u32_max"
    and slot: "slot \<le> length (column_values (get c))"
  shows "\<exists>u d col w. set_path get upd slot v c = Some (upd (\<lambda>_. col) (with_text c u d))
    \<and> str_len u \<le> str_len (view_text v) \<and> refs_ok (upd (\<lambda>_. col) (with_text c u d))
    \<and> length (column_values col) = max (length (column_values (get c))) (Suc slot)
    \<and> path_read (ch_text c @ u) col slot = Some w \<and> view_text w = view_text v
    \<and> (\<forall>i. i \<noteq> slot \<longrightarrow> slice_get (column_values col) i = slice_get (column_values (get c)) i)"
proof (cases "\<exists>p w. slice_get (column_values (get c)) slot = Some p
    \<and> path_at (ch_text c) p = Some w \<and> view_text w = view_text v")
  case True
  then obtain p w where p: "slice_get (column_values (get c)) slot = Some p"
    "path_at (ch_text c) p = Some w" "view_text w = view_text v"
    by auto
  then have len: "length (column_values (get c)) = max (length (column_values (get c))) (Suc slot)"
    by (auto simp: slice_get_def split: if_splits)
  have "with_text c [] (ch_pending c) = c" by simp
  moreover have "set_path get upd slot v c = Some (upd (\<lambda>_. get c) c)"
    using p by (simp add: set_path_def upd_same view_eq_text)
  moreover have "path_read (ch_text c @ []) (get c) slot = Some w" using p by (simp add: path_read_def)
  moreover have "str_len [] \<le> str_len (view_text v)" by (simp add: str_len_def)
  ultimately show ?thesis using len ok upd_same p(3) by metis
next
  case False
  have stale: "(case slice_get (column_values (get c)) slot of None \<Rightarrow> Some True
      | Some r \<Rightarrow> map_option (\<lambda>t. \<not> view_eq t v) (path_at (ch_text c) r)) = Some True"
  proof (cases "slice_get (column_values (get c)) slot")
    case (Some p)
    then show ?thesis using False path_at_refs[OF ok slice_get_mem[OF Some]] by (auto simp: view_eq_text)
  qed simp
  let ?a = "fst (path_split (view_text v))" and ?b = "snd (path_split (view_text v))"
  have split: "?a @ ?b = view_text v" by (simp add: path_split_def Let_def)
  then have len: "str_len (view_text v) = str_len ?a + str_len ?b" by (metis str_len_append)
  obtain u d r where i: "intern_update c ?a = Some (with_text c u d, r)" "str_len u \<le> str_len ?a"
    "text_at (ch_text c @ u) r = Some ?a" "refs_ok (with_text c u d)"
    using intern_update_ok[OF ok, of ?a] fits len by fastforce
  obtain u' e s where j: "intern_update (with_text c u d) ?b = Some (with_text (with_text c u d) u' e, s)"
    "str_len u' \<le> str_len ?b" "text_at (ch_text (with_text c u d) @ u') s = Some ?b"
    "refs_ok (with_text (with_text c u d) u' e)"
    using intern_update_ok[OF i(4), of ?b] fits len i(2) by fastforce
  let ?p = "\<lparr>pr_prefix = r, pr_suffix = s\<rparr>"
  have c': "with_text (with_text c u d) u' e = with_text c (u @ u') e" by simp
  have reads: "text_at (ch_text c @ u @ u') r = Some ?a" "text_at (ch_text c @ u @ u') s = Some ?b"
    using text_at_append[OF i(3), of u'] j(3) by simp_all
  obtain col where col: "column_set (get c) slot ?p = Some col" "col_updated (get c) slot ?p col"
    using column_set_updated[OF slot] by blast
  have "set_path get upd slot v c = Some (upd (\<lambda>_. col) (with_text c (u @ u') e))"
    using stale i(1) j(1) col(1) by (simp add: set_path_def with_str_text get_with_text)
  moreover have "refs_ok (upd (\<lambda>_. col) (with_text c (u @ u') e))"
    by (rule refs_ok_store[OF j(4)[unfolded c']]) (use reads col(2) in \<open>auto simp: get_with_text\<close>)
  moreover have "path_read (ch_text c @ u @ u') col slot = Some \<lparr>prefix = ?a, suffix = ?b\<rparr>"
    using col(2) reads by (simp add: path_read_def path_at_def col_updated_def)
  moreover have "str_len (u @ u') \<le> str_len (view_text v)" using i(2) j(2) len by simp
  moreover have "view_text \<lparr>prefix = ?a, suffix = ?b\<rparr> = view_text v" using split by (simp add: view_text_def)
  moreover have "length (column_values col) = max (length (column_values (get c))) (Suc slot)"
    "\<forall>i. i \<noteq> slot \<longrightarrow> slice_get (column_values col) i = slice_get (column_values (get c)) i"
    using col(2) by (simp_all add: col_updated_def)
  ultimately show ?thesis by blast
qed

end

interpretation search_name_field: text_field ch_search_name ch_search_name_update
  by unfold_locales (auto simp: chunk_refs_def)
interpretation name_field: text_field ch_name ch_name_update
  by unfold_locales (auto simp: chunk_refs_def)
interpretation folded_name_field: text_field ch_folded_name ch_folded_name_update
  by unfold_locales (auto simp: chunk_refs_def)
interpretation parent_field: text_field ch_parent ch_parent_update
  by unfold_locales (auto simp: chunk_refs_def)
interpretation path_column: path_field ch_path ch_path_update
  by unfold_locales (auto simp: chunk_refs_def)
interpretation folded_path_column: path_field ch_folded_path ch_folded_path_update
  by unfold_locales (auto simp: chunk_refs_def)
interpretation search_path_column: path_field ch_search_path ch_search_path_update
  by unfold_locales (auto simp: chunk_refs_def)

section \<open>Groups of columns\<close>

lemma text_read_append: "text_read t col i = Some v \<Longrightarrow> text_read (t @ u) col i = Some v"
  by (auto simp: text_read_def text_at_append split: bind_splits)

lemma path_at_append: "path_at t p = Some v \<Longrightarrow> path_at (t @ u) p = Some v"
  using text_at_append[of t "pr_prefix p" _ u] text_at_append[of t "pr_suffix p" _ u]
  by (auto simp: path_at_def split: bind_splits)

lemma path_read_append: "path_read t col i = Some v \<Longrightarrow> path_read (t @ u) col i = Some v"
  by (auto simp: path_read_def path_at_append split: bind_splits)

text \<open>The parent borrows the bytes of its path's prefix where it can.\<close>

lemma set_parent_ok:
  assumes ok: "refs_ok c" and fits: "str_len (ch_text c) + str_len v \<le> u32_max"
    and slot: "slot \<le> length (column_values (ch_parent c))" "slot < length (column_values (ch_path c))"
  shows "\<exists>u d col. set_parent slot v c = Some ((with_text c u d)\<lparr>ch_parent := col\<rparr>)
    \<and> str_len u \<le> str_len v \<and> refs_ok ((with_text c u d)\<lparr>ch_parent := col\<rparr>)
    \<and> length (column_values col) = max (length (column_values (ch_parent c))) (Suc slot)
    \<and> text_read (ch_text c @ u) col slot = Some v
    \<and> (\<forall>i. i \<noteq> slot \<longrightarrow> slice_get (column_values col) i = slice_get (column_values (ch_parent c)) i)"
proof -
  obtain p where p: "slice_get (column_values (ch_path c)) slot = Some p"
    using slot(2) by (auto simp: slice_get_def)
  then have "pr_prefix p \<in> set (chunk_refs c)" using slice_get_mem[OF p] by (auto simp: chunk_refs_def)
  then obtain t where t: "text_at (ch_text c) (pr_prefix p) = Some t" using ok by (auto simp: refs_ok_def)
  let ?r = "\<lparr>tr_offset = tr_offset (pr_prefix p), tr_length = str_len v\<rparr>"
  define fresh where "fresh = (\<exists>r. slice_get (column_values (ch_parent c)) slot = Some r
    \<and> text_at (ch_text c) r = Some v)"
  have stale: "(case slice_get (column_values (ch_parent c)) slot of None \<Rightarrow> Some True
      | Some r \<Rightarrow> map_option (\<lambda>t. t \<noteq> v) (text_at (ch_text c) r)) = Some (\<not> fresh)"
  proof (cases "slice_get (column_values (ch_parent c)) slot")
    case (Some r)
    then have "r \<in> set (chunk_refs c)" using slice_get_mem[OF Some] by (auto simp: chunk_refs_def)
    then show ?thesis using Some ok by (auto simp: refs_ok_def fresh_def)
  qed (simp add: fresh_def)
  show ?thesis
  proof (cases "starts_with t v \<and> \<not> fresh")
    case False
    then have "set_parent slot v c = set_text ch_parent ch_parent_update slot v c"
      using p t unfolding set_parent_def set_text_def stale by auto
    then show ?thesis using parent_field.set_text_ok[OF ok fits slot(1)] by simp
  next
    case True
    have r: "text_at (ch_text c) ?r = Some v" using text_at_prefix[OF t] True by simp
    obtain col where col: "column_set (ch_parent c) slot ?r = Some col" "col_updated (ch_parent c) slot ?r col"
      using column_set_updated[OF slot(1)] by blast
    have "str_len v \<le> u32_max" using fits by simp
    then have "set_parent slot v c = Some ((with_text c [] (ch_pending c))\<lparr>ch_parent := col\<rparr>)"
      using True p t col(1) unfolding set_parent_def stale by simp
    moreover have "refs_ok ((with_text c [] (ch_pending c))\<lparr>ch_parent := col\<rparr>)"
      using parent_field.refs_ok_store[OF ok _ col(2)] r by auto
    moreover have "text_read (ch_text c @ []) col slot = Some v"
      using col(2) r by (simp add: text_read_def col_updated_def)
    moreover have "str_len [] \<le> str_len v" by (simp add: str_len_def)
    moreover have "length (column_values col) = max (length (column_values (ch_parent c))) (Suc slot)"
      "\<forall>i. i \<noteq> slot \<longrightarrow> slice_get (column_values col) i = slice_get (column_values (ch_parent c)) i"
      using col(2) by (simp_all add: col_updated_def)
    ultimately show ?thesis by blast
  qed
qed

definition row_ok :: "file_entry \<Rightarrow> bool" where
  "row_ok row \<longleftrightarrow> scalar_valid I64 (id row) \<and> scalar_valid U64 (int (size row)) \<and>
    scalar_valid I64 (modified row) \<and> scalar_valid I64 (created row) \<and> scalar_valid I64 (changed row) \<and>
    scalar_valid I64 (modified_ns row) \<and> scalar_valid I64 (changed_ns row) \<and>
    scalar_valid U64 (int (file_id row)) \<and> scalar_valid U64 (int (parent_id row))"

definition number_columns :: "entry_chunk \<Rightarrow> (scalar_kind \<times> integer_data) list" where
  "number_columns c = [(I64, ch_id c), (U64, ch_size c), (I64, ch_modified c), (I64, ch_created c),
    (I64, ch_changed c), (I64, ch_modified_ns c), (I64, ch_changed_ns c), (U64, ch_file_id c),
    (U64, ch_parent_id c), (U32, ch_flags c)]"

definition number_values :: "file_entry \<Rightarrow> int list" where
  "number_values row = [id row, int (size row), modified row, created row, changed row, modified_ns row,
    changed_ns row, int (file_id row), int (parent_id row), uint (flags row)]"

definition columns_ok :: "nat \<Rightarrow> (scalar_kind \<times> integer_data) list \<Rightarrow> bool" where
  "columns_ok n cols \<longleftrightarrow> list_all (\<lambda>(k, d). wf_integer k d \<and> integer_len d = n) cols"

definition number_reads :: "entry_chunk \<Rightarrow> nat \<Rightarrow> int option list" where
  "number_reads c i = map (\<lambda>(k, d). integer_get k d i) (number_columns c)"

lemma flags_valid: "scalar_valid U32 (uint (w :: 32 word))"
  using uint_lt2p[of w] by simp

lemma set_numbers_ok:
  assumes cols: "columns_ok n (number_columns c)" and slot: "slot \<le> n" and row: "row_ok row"
  shows "\<exists>c'. set_numbers slot row c = Some c' \<and> columns_ok (max n (Suc slot)) (number_columns c') \<and>
    number_reads c' slot = map Some (number_values row) \<and>
    (\<forall>i. i \<noteq> slot \<longrightarrow> number_reads c' i = number_reads c i) \<and>
    (\<exists>d1 d2 d3 d4 d5 d6 d7 d8 d9 d10. c' = c\<lparr>ch_id := d1, ch_size := d2, ch_modified := d3,
      ch_created := d4, ch_changed := d5, ch_modified_ns := d6, ch_changed_ns := d7, ch_file_id := d8,
      ch_parent_id := d9, ch_flags := d10\<rparr>)"
proof -
  have step: "\<exists>d'. integer_set k d slot v = Some d' \<and> int_updated k d slot v d'"
    if "(k, d) \<in> set (number_columns c)" "scalar_valid k v" for k d v
    using that cols slot integer_set_updated by (auto simp: columns_ok_def list_all_iff)
  note ok = row[unfolded row_ok_def]
  obtain d1 where d1: "integer_set I64 (ch_id c) slot (id row) = Some d1" "int_updated I64 (ch_id c) slot (id row) d1"
    using step[of I64 "ch_id c" "id row"] ok by (auto simp: number_columns_def)
  obtain d2 where d2: "integer_set U64 (ch_size c) slot (int (size row)) = Some d2" "int_updated U64 (ch_size c) slot (int (size row)) d2"
    using step[of U64 "ch_size c" "int (size row)"] ok by (auto simp: number_columns_def)
  obtain d3 where d3: "integer_set I64 (ch_modified c) slot (modified row) = Some d3" "int_updated I64 (ch_modified c) slot (modified row) d3"
    using step[of I64 "ch_modified c" "modified row"] ok by (auto simp: number_columns_def)
  obtain d4 where d4: "integer_set I64 (ch_created c) slot (created row) = Some d4" "int_updated I64 (ch_created c) slot (created row) d4"
    using step[of I64 "ch_created c" "created row"] ok by (auto simp: number_columns_def)
  obtain d5 where d5: "integer_set I64 (ch_changed c) slot (changed row) = Some d5" "int_updated I64 (ch_changed c) slot (changed row) d5"
    using step[of I64 "ch_changed c" "changed row"] ok by (auto simp: number_columns_def)
  obtain d6 where d6: "integer_set I64 (ch_modified_ns c) slot (modified_ns row) = Some d6" "int_updated I64 (ch_modified_ns c) slot (modified_ns row) d6"
    using step[of I64 "ch_modified_ns c" "modified_ns row"] ok by (auto simp: number_columns_def)
  obtain d7 where d7: "integer_set I64 (ch_changed_ns c) slot (changed_ns row) = Some d7" "int_updated I64 (ch_changed_ns c) slot (changed_ns row) d7"
    using step[of I64 "ch_changed_ns c" "changed_ns row"] ok by (auto simp: number_columns_def)
  obtain d8 where d8: "integer_set U64 (ch_file_id c) slot (int (file_id row)) = Some d8" "int_updated U64 (ch_file_id c) slot (int (file_id row)) d8"
    using step[of U64 "ch_file_id c" "int (file_id row)"] ok by (auto simp: number_columns_def)
  obtain d9 where d9: "integer_set U64 (ch_parent_id c) slot (int (parent_id row)) = Some d9" "int_updated U64 (ch_parent_id c) slot (int (parent_id row)) d9"
    using step[of U64 "ch_parent_id c" "int (parent_id row)"] ok by (auto simp: number_columns_def)
  obtain d10 where d10: "integer_set U32 (ch_flags c) slot (uint (flags row)) = Some d10" "int_updated U32 (ch_flags c) slot (uint (flags row)) d10"
    using step[of U32 "ch_flags c" "uint (flags row)"] ok flags_valid by (auto simp: number_columns_def)
  let ?c = "c\<lparr>ch_id := d1, ch_size := d2, ch_modified := d3, ch_created := d4, ch_changed := d5, ch_modified_ns := d6, ch_changed_ns := d7, ch_file_id := d8, ch_parent_id := d9, ch_flags := d10\<rparr>"
  note d = d1 d2 d3 d4 d5 d6 d7 d8 d9 d10
  have "set_numbers slot row c = Some ?c" by (simp add: set_numbers_def d)
  moreover have "columns_ok (max n (Suc slot)) (number_columns ?c)"
    using cols d by (simp add: columns_ok_def number_columns_def int_updated_def)
  moreover have "number_reads ?c slot = map Some (number_values row)"
    using d by (simp add: number_reads_def number_columns_def number_values_def int_updated_def)
  moreover have "number_reads ?c i = number_reads c i" if "i \<noteq> slot" for i
    using d that by (simp add: number_reads_def number_columns_def int_updated_def)
  ultimately show ?thesis by blast
qed

definition text_columns :: "entry_chunk \<Rightarrow> text_ref column list" where
  "text_columns c = [ch_name c, ch_folded_name c, ch_search_name c, ch_parent c]"

definition path_columns :: "entry_chunk \<Rightarrow> path_ref column list" where
  "path_columns c = [ch_path c, ch_folded_path c, ch_search_path c]"

definition texts_len :: "nat \<Rightarrow> entry_chunk \<Rightarrow> bool" where
  "texts_len n c \<longleftrightarrow> list_all (\<lambda>col. length (column_values col) = n) (text_columns c) \<and>
    list_all (\<lambda>col. length (column_values col) = n) (path_columns c)"

definition text_reads :: "entry_chunk \<Rightarrow> nat \<Rightarrow> str option list" where
  "text_reads c i = map (\<lambda>col. text_read (ch_text c) col i) (text_columns c)"

definition path_reads :: "entry_chunk \<Rightarrow> nat \<Rightarrow> text_view option list" where
  "path_reads c i = map (\<lambda>col. path_read (ch_text c) col i) (path_columns c)"

definition text_values :: "file_entry \<Rightarrow> str list" where
  "text_values row = [name row, folded_name row, search_name row, parent row]"

definition path_values :: "file_entry \<Rightarrow> text_view list" where
  "path_values row = [path row, folded_path row, search_path row]"

definition text_need :: "file_entry \<Rightarrow> nat" where
  "text_need row = sum_list (map str_len (text_values row))
    + sum_list (map (\<lambda>v. str_len (view_text v)) (path_values row))"

text \<open>Every row below the length of the columns can be read.\<close>

lemma text_read_Some:
  assumes "refs_ok c" "col \<in> set (text_columns c)" "i < length (column_values col)"
  shows "\<exists>v. text_read (ch_text c) col i = Some v"
proof -
  have "column_values col ! i \<in> set (column_values col)" using assms(3) by simp
  then have "column_values col ! i \<in> set (chunk_refs c)"
    using assms(2) by (auto simp: chunk_refs_def text_columns_def)
  then show ?thesis using assms(1,3) by (auto simp: refs_ok_def text_read_def slice_get_def)
qed

lemma path_read_Some:
  assumes "refs_ok c" "col \<in> set (path_columns c)" "i < length (column_values col)"
  shows "\<exists>v. path_read (ch_text c) col i = Some v"
proof -
  let ?p = "column_values col ! i"
  have "?p \<in> set (column_values col)" using assms(3) by simp
  then have "path_at (ch_text c) ?p \<noteq> None"
    using assms(2) path_column.path_at_refs[OF assms(1)] folded_path_column.path_at_refs[OF assms(1)]
      search_path_column.path_at_refs[OF assms(1)]
    by (auto simp: path_columns_def)
  then show ?thesis using assms(3) by (auto simp: path_read_def slice_get_def)
qed

text \<open>Two blocks whose columns agree at a row, over a growing arena.\<close>

lemma text_read_kept:
  assumes "refs_ok c" "col \<in> set (text_columns c)" "i < length (column_values col)"
    "slice_get (column_values col') i = slice_get (column_values col) i"
  shows "text_read (ch_text c @ u) col' i = text_read (ch_text c) col i"
  using text_read_Some[OF assms(1-3)] text_read_append[of "ch_text c" col i _ u] assms(4)
  by (auto simp: text_read_def)

lemma path_read_kept:
  assumes "refs_ok c" "col \<in> set (path_columns c)" "i < length (column_values col)"
    "slice_get (column_values col') i = slice_get (column_values col) i"
  shows "path_read (ch_text c @ u) col' i = path_read (ch_text c) col i"
  using path_read_Some[OF assms(1-3)] path_read_append[of "ch_text c" col i _ u] assms(4)
  by (auto simp: path_read_def)

lemma set_texts_ok:
  assumes ok: "refs_ok c" and len: "texts_len n c" and slot: "slot \<le> n"
    and fits: "str_len (ch_text c) + text_need row \<le> u32_max"
  shows "\<exists>k1 k2 k3 k4 k5 k6 k7 u d ws. let c' = c\<lparr>ch_search_name := k1, ch_name := k2, ch_folded_name := k3,
      ch_path := k4, ch_parent := k5, ch_folded_path := k6, ch_search_path := k7,
      ch_text := ch_text c @ u, ch_pending := d\<rparr> in
    set_texts slot row c = Some c' \<and> refs_ok c' \<and> texts_len (max n (Suc slot)) c' \<and>
    text_reads c' slot = map Some (text_values row) \<and> path_reads c' slot = map Some ws \<and>
    map view_text ws = map view_text (path_values row) \<and>
    (\<forall>i < n. i \<noteq> slot \<longrightarrow> text_reads c' i = text_reads c i \<and> path_reads c' i = path_reads c i)"
proof -
  have need: "text_need row = str_len (search_name row) + str_len (name row) + str_len (folded_name row)
      + str_len (view_text (path row)) + str_len (parent row) + str_len (view_text (folded_path row))
      + str_len (view_text (search_path row))"
    by (simp add: text_need_def text_values_def path_values_def)
  note L = len[unfolded texts_len_def text_columns_def path_columns_def, simplified]
  obtain c1 u1 e1 k1 where s1: "set_text ch_search_name ch_search_name_update slot (search_name row) c = Some c1"
    and c1: "c1 = (with_text c u1 e1)\<lparr>ch_search_name := k1\<rparr>"
    and b1: "str_len u1 \<le> str_len (search_name row)" and ok1: "refs_ok c1"
    and l1: "length (column_values k1) = max n (Suc slot)"
    and r1: "text_read (ch_text c @ u1) k1 slot = Some (search_name row)"
    and o1: "\<And>i. i \<noteq> slot \<Longrightarrow> slice_get (column_values k1) i = slice_get (column_values (ch_search_name c)) i"
  proof -
    have "str_len (ch_text c) + str_len (search_name row) \<le> u32_max" using fits need  by (simp )
    moreover have "ch_search_name c = ch_search_name c" by (simp )
    moreover have "slot \<le> length (column_values (ch_search_name c))" using L slot by (simp )
    ultimately show ?thesis using search_name_field.set_text_ok[OF ok, of "search_name row" slot] L that by auto
  qed
  obtain c2 u2 e2 k2 where s2: "set_text ch_name ch_name_update slot (name row) c1 = Some c2"
    and c2: "c2 = (with_text c1 u2 e2)\<lparr>ch_name := k2\<rparr>"
    and b2: "str_len u2 \<le> str_len (name row)" and ok2: "refs_ok c2"
    and l2: "length (column_values k2) = max n (Suc slot)"
    and r2: "text_read (ch_text c1 @ u2) k2 slot = Some (name row)"
    and o2: "\<And>i. i \<noteq> slot \<Longrightarrow> slice_get (column_values k2) i = slice_get (column_values (ch_name c)) i"
  proof -
    have "str_len (ch_text c1) + str_len (name row) \<le> u32_max" using fits need b1 by (simp add: c1)
    moreover have "ch_name c1 = ch_name c" by (simp add: c1)
    moreover have "slot \<le> length (column_values (ch_name c1))" using L slot by (simp add: c1)
    ultimately show ?thesis using name_field.set_text_ok[OF ok1, of "name row" slot] L that by auto
  qed
  obtain c3 u3 e3 k3 where s3: "set_text ch_folded_name ch_folded_name_update slot (folded_name row) c2 = Some c3"
    and c3: "c3 = (with_text c2 u3 e3)\<lparr>ch_folded_name := k3\<rparr>"
    and b3: "str_len u3 \<le> str_len (folded_name row)" and ok3: "refs_ok c3"
    and l3: "length (column_values k3) = max n (Suc slot)"
    and r3: "text_read (ch_text c2 @ u3) k3 slot = Some (folded_name row)"
    and o3: "\<And>i. i \<noteq> slot \<Longrightarrow> slice_get (column_values k3) i = slice_get (column_values (ch_folded_name c)) i"
  proof -
    have "str_len (ch_text c2) + str_len (folded_name row) \<le> u32_max" using fits need b1 b2 by (simp add: c1 c2)
    moreover have "ch_folded_name c2 = ch_folded_name c" by (simp add: c1 c2)
    moreover have "slot \<le> length (column_values (ch_folded_name c2))" using L slot by (simp add: c1 c2)
    ultimately show ?thesis using folded_name_field.set_text_ok[OF ok2, of "folded_name row" slot] L that by auto
  qed
  obtain c4 u4 e4 k4 w4 where s4: "set_path ch_path ch_path_update slot (path row) c3 = Some c4"
    and c4: "c4 = (with_text c3 u4 e4)\<lparr>ch_path := k4\<rparr>"
    and b4: "str_len u4 \<le> str_len (view_text (path row))" and ok4: "refs_ok c4"
    and l4: "length (column_values k4) = max n (Suc slot)"
    and r4: "path_read (ch_text c3 @ u4) k4 slot = Some w4" "view_text w4 = view_text (path row)"
    and o4: "\<And>i. i \<noteq> slot \<Longrightarrow> slice_get (column_values k4) i = slice_get (column_values (ch_path c)) i"
  proof -
    have "str_len (ch_text c3) + str_len (view_text (path row)) \<le> u32_max" using fits need b1 b2 b3 by (simp add: c1 c2 c3)
    moreover have "ch_path c3 = ch_path c" by (simp add: c1 c2 c3)
    moreover have "slot \<le> length (column_values (ch_path c3))" using L slot by (simp add: c1 c2 c3)
    ultimately show ?thesis using path_column.set_path_ok[OF ok3, of "path row" slot] L that by auto
  qed
  obtain c5 u5 e5 k5 where s5: "set_parent slot (parent row) c4 = Some c5"
    and c5: "c5 = (with_text c4 u5 e5)\<lparr>ch_parent := k5\<rparr>"
    and b5: "str_len u5 \<le> str_len (parent row)" and ok5: "refs_ok c5"
    and l5: "length (column_values k5) = max n (Suc slot)"
    and r5: "text_read (ch_text c4 @ u5) k5 slot = Some (parent row)"
    and o5: "\<And>i. i \<noteq> slot \<Longrightarrow> slice_get (column_values k5) i = slice_get (column_values (ch_parent c)) i"
  proof -
    have "str_len (ch_text c4) + str_len (parent row) \<le> u32_max" using fits need b1 b2 b3 b4 by (simp add: c1 c2 c3 c4)
    moreover have "ch_parent c4 = ch_parent c" by (simp add: c1 c2 c3 c4)
    moreover have "slot \<le> length (column_values (ch_parent c4))" using L slot by (simp add: c1 c2 c3 c4)
    moreover have "slot < length (column_values (ch_path c4))" using l4 by (simp add: c1 c2 c3 c4)
    ultimately show ?thesis using set_parent_ok[OF ok4, of "parent row" slot] L that by auto
  qed
  obtain c6 u6 e6 k6 w6 where s6: "set_path ch_folded_path ch_folded_path_update slot (folded_path row) c5 = Some c6"
    and c6: "c6 = (with_text c5 u6 e6)\<lparr>ch_folded_path := k6\<rparr>"
    and b6: "str_len u6 \<le> str_len (view_text (folded_path row))" and ok6: "refs_ok c6"
    and l6: "length (column_values k6) = max n (Suc slot)"
    and r6: "path_read (ch_text c5 @ u6) k6 slot = Some w6" "view_text w6 = view_text (folded_path row)"
    and o6: "\<And>i. i \<noteq> slot \<Longrightarrow> slice_get (column_values k6) i = slice_get (column_values (ch_folded_path c)) i"
  proof -
    have "str_len (ch_text c5) + str_len (view_text (folded_path row)) \<le> u32_max" using fits need b1 b2 b3 b4 b5 by (simp add: c1 c2 c3 c4 c5)
    moreover have "ch_folded_path c5 = ch_folded_path c" by (simp add: c1 c2 c3 c4 c5)
    moreover have "slot \<le> length (column_values (ch_folded_path c5))" using L slot by (simp add: c1 c2 c3 c4 c5)
    ultimately show ?thesis using folded_path_column.set_path_ok[OF ok5, of "folded_path row" slot] L that by auto
  qed
  obtain c7 u7 e7 k7 w7 where s7: "set_path ch_search_path ch_search_path_update slot (search_path row) c6 = Some c7"
    and c7: "c7 = (with_text c6 u7 e7)\<lparr>ch_search_path := k7\<rparr>"
    and b7: "str_len u7 \<le> str_len (view_text (search_path row))" and ok7: "refs_ok c7"
    and l7: "length (column_values k7) = max n (Suc slot)"
    and r7: "path_read (ch_text c6 @ u7) k7 slot = Some w7" "view_text w7 = view_text (search_path row)"
    and o7: "\<And>i. i \<noteq> slot \<Longrightarrow> slice_get (column_values k7) i = slice_get (column_values (ch_search_path c)) i"
  proof -
    have "str_len (ch_text c6) + str_len (view_text (search_path row)) \<le> u32_max" using fits need b1 b2 b3 b4 b5 b6 by (simp add: c1 c2 c3 c4 c5 c6)
    moreover have "ch_search_path c6 = ch_search_path c" by (simp add: c1 c2 c3 c4 c5 c6)
    moreover have "slot \<le> length (column_values (ch_search_path c6))" using L slot by (simp add: c1 c2 c3 c4 c5 c6)
    ultimately show ?thesis using search_path_column.set_path_ok[OF ok6, of "search_path row" slot] L that by auto
  qed
  define c' where "c' = c\<lparr>ch_search_name := k1, ch_name := k2, ch_folded_name := k3,
      ch_path := k4, ch_parent := k5, ch_folded_path := k6, ch_search_path := k7,
      ch_text := ch_text c @ u1 @ u2 @ u3 @ u4 @ u5 @ u6 @ u7, ch_pending := e7\<rparr>"
  have c7': "c7 = c'" by (rule entry_chunk.equality) (simp_all add: c'_def c1 c2 c3 c4 c5 c6 c7)
  have "set_texts slot row c = Some c'"
    by (simp add: set_texts_def s1 s2 s3 s4 s5 s6 s7 flip: c7')
  moreover have "refs_ok c'" using ok7 c7' by simp
  moreover have "texts_len (max n (Suc slot)) c'"
    by (simp add: texts_len_def text_columns_def path_columns_def c'_def l1 l2 l3 l4 l5 l6 l7)
  moreover have "text_reads c' slot = map Some (text_values row)"
    using text_read_append[OF r1, of "u2 @ u3 @ u4 @ u5 @ u6 @ u7"]
      text_read_append[OF r2, of "u3 @ u4 @ u5 @ u6 @ u7"]
      text_read_append[OF r3, of "u4 @ u5 @ u6 @ u7"]
      text_read_append[OF r5, of "u6 @ u7"]
    by (simp add: text_reads_def text_columns_def text_values_def c'_def c1 c2 c3 c4)
  moreover have "path_reads c' slot = map Some [w4, w6, w7]"
    using path_read_append[OF r4(1), of "u5 @ u6 @ u7"]
      path_read_append[OF r6(1), of u7] r7(1)
    by (simp add: path_reads_def path_columns_def c'_def c1 c2 c3 c4 c5 c6)
  moreover have "map view_text [w4, w6, w7] = map view_text (path_values row)"
    by (simp add: path_values_def r4(2) r6(2) r7(2))
  moreover have "\<forall>i < n. i \<noteq> slot \<longrightarrow> text_reads c' i = text_reads c i \<and> path_reads c' i = path_reads c i"
    using text_read_kept[OF ok] path_read_kept[OF ok] L o1 o2 o3 o4 o5 o6 o7
    by (simp add: text_reads_def path_reads_def text_columns_def path_columns_def c'_def)
  ultimately show ?thesis unfolding c'_def Let_def by blast
qed

text \<open>What storing the texts of a row leaves: new text columns over some arena, nothing else changed.\<close>

definition texts_stored :: "nat \<Rightarrow> nat \<Rightarrow> file_entry \<Rightarrow> entry_chunk \<Rightarrow> entry_chunk \<Rightarrow> bool" where
  "texts_stored n slot row c c' \<longleftrightarrow>
    (\<exists>k1 k2 k3 k4 k5 k6 k7 t d. c' = c\<lparr>ch_search_name := k1, ch_name := k2, ch_folded_name := k3,
      ch_path := k4, ch_parent := k5, ch_folded_path := k6, ch_search_path := k7,
      ch_text := t, ch_pending := d\<rparr>) \<and>
    refs_ok c' \<and> texts_len (max n (Suc slot)) c' \<and>
    text_reads c' slot = map Some (text_values row) \<and>
    (\<exists>ws. path_reads c' slot = map Some ws \<and> map view_text ws = map view_text (path_values row)) \<and>
    (\<forall>i < n. i \<noteq> slot \<longrightarrow> text_reads c' i = text_reads c i \<and> path_reads c' i = path_reads c i)"

lemma set_texts_stored:
  assumes "refs_ok c" "texts_len n c" "slot \<le> n" "str_len (ch_text c) + text_need row \<le> u32_max"
  shows "\<exists>c'. set_texts slot row c = Some c' \<and> texts_stored n slot row c c'"
  using set_texts_ok[OF assms] unfolding texts_stored_def Let_def by blast

definition label_columns :: "entry_chunk \<Rightarrow> (scalar_kind \<times> integer_data) list" where
  "label_columns c = [(U32, ch_extension c), (U32, ch_folded_extension c), (U32, ch_volume_id c)]"

definition label_reads :: "entry_chunk \<Rightarrow> nat \<Rightarrow> str option list" where
  "label_reads c i = map (\<lambda>(k, d). label_read (ch_labels c) d i) (label_columns c)"

definition label_values :: "file_entry \<Rightarrow> str list" where
  "label_values row = [extension row, folded_extension row, volume_id row]"

lemma label_read_append: "label_read ls d i = Some v \<Longrightarrow> label_read (ls @ ms) d i = Some v"
  by (auto simp: label_read_def slice_get_def nth_append split: bind_splits if_splits)

lemma find_index_Some: "find_index v xs = Some i \<Longrightarrow> i < length xs \<and> xs ! i = v"
  by (induction xs arbitrary: i) (auto split: if_splits)

lemma label_ok:
  assumes "length (ch_labels c) < 2 ^ 32"
  shows "\<exists>ls i. label c v = (c\<lparr>ch_labels := ch_labels c @ ls\<rparr>, i) \<and> length ls \<le> 1
    \<and> scalar_valid U32 i \<and> slice_get (ch_labels c @ ls) (nat i) = Some v"
proof (cases "find_index v (ch_labels c)")
  case None
  then show ?thesis using assms
    by (intro exI[of _ "[v]"] exI[of _ "int (length (ch_labels c))"])
       (simp add: label_def slice_get_def nat_less_iff)
next
  case (Some j)
  then have "j < length (ch_labels c)" "ch_labels c ! j = v" using find_index_Some by fastforce+
  then show ?thesis using assms Some
    by (intro exI[of _ "[]"] exI[of _ "int j"]) (simp add: label_def slice_get_def)
qed

lemma set_label_ok:
  assumes get: "\<And>c ls. get (c\<lparr>ch_labels := ls\<rparr>) = get c"
    and labels: "length (ch_labels c) < 2 ^ 32"
    and wf: "wf_integer U32 (get c)" "integer_len (get c) = n" and slot: "slot \<le> n"
  shows "\<exists>ls d. set_label get upd slot v c = Some (upd (\<lambda>_. d) (c\<lparr>ch_labels := ch_labels c @ ls\<rparr>))
    \<and> length ls \<le> 1 \<and> wf_integer U32 d \<and> integer_len d = max n (Suc slot)
    \<and> label_read (ch_labels c @ ls) d slot = Some v
    \<and> (\<forall>j. j \<noteq> slot \<longrightarrow> integer_get U32 d j = integer_get U32 (get c) j)"
proof -
  obtain ls i where l: "label c v = (c\<lparr>ch_labels := ch_labels c @ ls\<rparr>, i)" "length ls \<le> 1"
    "scalar_valid U32 i" "slice_get (ch_labels c @ ls) (nat i) = Some v"
    using label_ok[OF labels] by blast
  obtain d where d: "integer_set U32 (get c) slot i = Some d" "int_updated U32 (get c) slot i d"
    using integer_set_updated[OF wf(1) l(3)] slot wf(2) by blast
  have "set_label get upd slot v c = Some (upd (\<lambda>_. d) (c\<lparr>ch_labels := ch_labels c @ ls\<rparr>))"
    by (simp add: set_label_def l(1) get d(1))
  then show ?thesis using l(2,4) d(2) wf(2) unfolding int_updated_def label_read_def by fastforce
qed

lemma state_bits_read [simp]:
  "and (state_bits row) 1 \<noteq> 0 \<longleftrightarrow> is_dir row"
  "and (state_bits row) 2 \<noteq> 0 \<longleftrightarrow> is_symlink row"
  "and (state_bits row) 4 \<noteq> 0 \<longleftrightarrow> content_indexed row"
  "and (state_bits row) 8 \<noteq> 0 \<longleftrightarrow> properties row = JNull"
  "and (state_bits row) 16 \<noteq> 0 \<longleftrightarrow> properties row \<noteq> JObject [] \<and> properties row \<noteq> JNull"
proof -
  have bits: "state_bits row = or (or (or (or (of_bool a) (push_bit 1 (of_bool b))) (push_bit 2 (of_bool d)))
      (push_bit 3 (of_bool e))) (push_bit 4 (of_bool f))"
    if "a = is_dir row" "b = is_symlink row" "d = content_indexed row" "e = (properties row = JNull)"
      "f = (properties row \<noteq> JObject [] \<and> properties row \<noteq> JNull)" for a b d e f
    using that by (simp add: state_bits_def Let_def)
  have all: "(and w 1 \<noteq> 0 \<longleftrightarrow> a) \<and> (and w 2 \<noteq> 0 \<longleftrightarrow> b) \<and> (and w 4 \<noteq> 0 \<longleftrightarrow> d) \<and> (and w 8 \<noteq> 0 \<longleftrightarrow> e)
      \<and> (and w 16 \<noteq> 0 \<longleftrightarrow> f)"
    if "w = or (or (or (or (of_bool a) (push_bit 1 (of_bool b))) (push_bit 2 (of_bool d)))
      (push_bit 3 (of_bool e))) (push_bit 4 (of_bool f))" for w :: u8 and a b d e f
    unfolding that by (cases a; cases b; cases d; cases e; cases f; simp)
  show "and (state_bits row) 1 \<noteq> 0 \<longleftrightarrow> is_dir row" "and (state_bits row) 2 \<noteq> 0 \<longleftrightarrow> is_symlink row"
    "and (state_bits row) 4 \<noteq> 0 \<longleftrightarrow> content_indexed row"
    "and (state_bits row) 8 \<noteq> 0 \<longleftrightarrow> properties row = JNull"
    "and (state_bits row) 16 \<noteq> 0 \<longleftrightarrow> properties row \<noteq> JObject [] \<and> properties row \<noteq> JNull"
    using all[OF bits[OF refl refl refl refl refl]] by blast+
qed

lemma property_read_cong:
  "state_read c i = state_read c' i \<Longrightarrow> ch_properties c i = ch_properties c' i \<Longrightarrow>
   property_read c i = property_read c' i"
  by (simp only: property_read_def)

lemma property_read_bits:
  "state_read c i = Some (state_bits row) \<Longrightarrow>
   (properties row \<noteq> JObject [] \<and> properties row \<noteq> JNull \<Longrightarrow> ch_properties c i = Some (properties row)) \<Longrightarrow>
   property_read c i = Some (properties row)"
  unfolding property_read_def by simp

lemma set_properties_ok:
  assumes "length (column_values (ch_states c)) = n" "slot \<le> n"
  shows "\<exists>st pr. set_properties c slot row = Some (c\<lparr>ch_states := st, ch_properties := pr\<rparr>)
    \<and> length (column_values st) = max n (Suc slot)
    \<and> state_read (c\<lparr>ch_states := st, ch_properties := pr\<rparr>) slot = Some (state_bits row)
    \<and> property_read (c\<lparr>ch_states := st, ch_properties := pr\<rparr>) slot = Some (properties row)
    \<and> (\<forall>i. i \<noteq> slot \<longrightarrow> state_read (c\<lparr>ch_states := st, ch_properties := pr\<rparr>) i = state_read c i
        \<and> property_read (c\<lparr>ch_states := st, ch_properties := pr\<rparr>) i = property_read c i)"
proof -
  obtain st where st: "column_set (ch_states c) slot (state_bits row) = Some st"
    "col_updated (ch_states c) slot (state_bits row) st"
    using column_set_updated[of slot "ch_states c" "state_bits row"] assms by auto
  define pr where "pr = (if properties row \<noteq> JObject [] \<and> properties row \<noteq> JNull then
      if ch_properties c slot \<noteq> Some (properties row)
      then (ch_properties c)(slot \<mapsto> properties row) else ch_properties c
    else if slot \<in> dom (ch_properties c) then (ch_properties c)(slot := None) else ch_properties c)"
  let ?c = "c\<lparr>ch_states := st, ch_properties := pr\<rparr>"
  have "set_properties c slot row = Some ?c" by (simp add: set_properties_def st(1) pr_def)
  moreover have "length (column_values st) = max n (Suc slot)"
    "state_read ?c slot = Some (state_bits row)" "\<And>i. i \<noteq> slot \<Longrightarrow> state_read ?c i = state_read c i"
    using st(2) assms by (simp_all add: col_updated_def state_read_def)
  moreover have "property_read ?c i = property_read c i" if "i \<noteq> slot" for i
    by (rule property_read_cong) (use that calculation in \<open>simp_all add: pr_def\<close>)
  moreover have "property_read ?c slot = Some (properties row)"
    by (rule property_read_bits) (use calculation in \<open>simp_all add: pr_def\<close>)
  ultimately show ?thesis by blast
qed

lemma set_labels_ok:
  assumes cols: "columns_ok n (label_columns c)" and states: "length (column_values (ch_states c)) = n"
    and slot: "slot \<le> n" and labels: "length (ch_labels c) + 3 \<le> 2 ^ 32"
  shows "\<exists>d1 d2 d3 ls st pr. let c' = c\<lparr>ch_extension := d1, ch_folded_extension := d2, ch_volume_id := d3,
      ch_labels := ch_labels c @ ls, ch_states := st, ch_properties := pr\<rparr> in
    set_labels slot row c = Some c' \<and> columns_ok (max n (Suc slot)) (label_columns c') \<and>
    length (column_values (ch_states c')) = max n (Suc slot) \<and> length ls \<le> 3 \<and>
    label_reads c' slot = map Some (label_values row) \<and>
    state_read c' slot = Some (state_bits row) \<and> property_read c' slot = Some (properties row) \<and>
    (\<forall>i. i \<noteq> slot \<longrightarrow> state_read c' i = state_read c i \<and> property_read c' i = property_read c i \<and>
      (list_all (\<lambda>r. r \<noteq> None) (label_reads c i) \<longrightarrow> label_reads c' i = label_reads c i))"
proof -
  note wf = cols[unfolded columns_ok_def label_columns_def, simplified]
  obtain ls1 d1 where s1: "set_label ch_extension ch_extension_update slot (extension row) c
      = Some (c\<lparr>ch_labels := ch_labels c @ ls1, ch_extension := d1\<rparr>)" and b1: "length ls1 \<le> 1"
    and w1: "wf_integer U32 d1" "integer_len d1 = max n (Suc slot)"
    and r1: "label_read (ch_labels c @ ls1) d1 slot = Some (extension row)"
    and o1: "\<And>j. j \<noteq> slot \<Longrightarrow> integer_get U32 d1 j = integer_get U32 (ch_extension c) j"
    using set_label_ok[of ch_extension c n slot ch_extension_update "extension row"] wf labels slot by auto
  let ?c1 = "c\<lparr>ch_labels := ch_labels c @ ls1, ch_extension := d1\<rparr>"
  obtain ls2 d2 where s2: "set_label ch_folded_extension ch_folded_extension_update slot (folded_extension row) ?c1
      = Some (?c1\<lparr>ch_labels := ch_labels c @ ls1 @ ls2, ch_folded_extension := d2\<rparr>)" and b2: "length ls2 \<le> 1"
    and w2: "wf_integer U32 d2" "integer_len d2 = max n (Suc slot)"
    and r2: "label_read (ch_labels c @ ls1 @ ls2) d2 slot = Some (folded_extension row)"
    and o2: "\<And>j. j \<noteq> slot \<Longrightarrow> integer_get U32 d2 j = integer_get U32 (ch_folded_extension c) j"
    using set_label_ok[of ch_folded_extension ?c1 n slot ch_folded_extension_update "folded_extension row"]
      wf labels slot b1 by auto
  let ?c2 = "?c1\<lparr>ch_labels := ch_labels c @ ls1 @ ls2, ch_folded_extension := d2\<rparr>"
  obtain ls3 d3 where s3: "set_label ch_volume_id ch_volume_id_update slot (volume_id row) ?c2
      = Some (?c2\<lparr>ch_labels := ch_labels c @ ls1 @ ls2 @ ls3, ch_volume_id := d3\<rparr>)" and b3: "length ls3 \<le> 1"
    and w3: "wf_integer U32 d3" "integer_len d3 = max n (Suc slot)"
    and r3: "label_read (ch_labels c @ ls1 @ ls2 @ ls3) d3 slot = Some (volume_id row)"
    and o3: "\<And>j. j \<noteq> slot \<Longrightarrow> integer_get U32 d3 j = integer_get U32 (ch_volume_id c) j"
    using set_label_ok[of ch_volume_id ?c2 n slot ch_volume_id_update "volume_id row"]
      wf labels slot b1 b2 by auto
  let ?c3 = "?c2\<lparr>ch_labels := ch_labels c @ ls1 @ ls2 @ ls3, ch_volume_id := d3\<rparr>"
  obtain st pr where p: "set_properties ?c3 slot row = Some (?c3\<lparr>ch_states := st, ch_properties := pr\<rparr>)"
    "length (column_values st) = max n (Suc slot)"
    "state_read (?c3\<lparr>ch_states := st, ch_properties := pr\<rparr>) slot = Some (state_bits row)"
    "property_read (?c3\<lparr>ch_states := st, ch_properties := pr\<rparr>) slot = Some (properties row)"
    "\<forall>i. i \<noteq> slot \<longrightarrow> state_read (?c3\<lparr>ch_states := st, ch_properties := pr\<rparr>) i = state_read ?c3 i
      \<and> property_read (?c3\<lparr>ch_states := st, ch_properties := pr\<rparr>) i = property_read ?c3 i"
    using set_properties_ok[of ?c3 n slot row] states slot by auto
  define c' where "c' = c\<lparr>ch_extension := d1, ch_folded_extension := d2, ch_volume_id := d3,
      ch_labels := ch_labels c @ ls1 @ ls2 @ ls3, ch_states := st, ch_properties := pr\<rparr>"
  have c': "?c3\<lparr>ch_states := st, ch_properties := pr\<rparr> = c'"
    by (rule entry_chunk.equality) (simp_all add: c'_def)
  have "set_labels slot row c = Some c'" using s1 s2 s3 p(1) c' by (simp add: set_labels_def)
  moreover have "columns_ok (max n (Suc slot)) (label_columns c')"
    using w1 w2 w3 by (simp add: columns_ok_def label_columns_def c'_def)
  moreover have "label_reads c' slot = map Some (label_values row)"
    using label_read_append[OF r1, of "ls2 @ ls3"] label_read_append[OF r2, of ls3] r3
    by (simp add: label_reads_def label_columns_def label_values_def c'_def)
  moreover have "label_reads c' i = label_reads c i"
    if "i \<noteq> slot" "list_all (\<lambda>r. r \<noteq> None) (label_reads c i)" for i
  proof -
    have keep: "label_read (ch_labels c @ ls) d i = label_read (ch_labels c) e i"
      if "integer_get U32 d i = integer_get U32 e i" "label_read (ch_labels c) e i \<noteq> None" for d e ls
      using that label_read_append[of "ch_labels c" e i _ ls] by (auto simp: label_read_def)
    show ?thesis using that keep o1[of i] o2[of i] o3[of i]
      by (simp add: label_reads_def label_columns_def c'_def)
  qed
  moreover have "state_read c' i = state_read c i \<and> property_read c' i = property_read c i" if "i \<noteq> slot" for i
  proof -
    have "state_read ?c3 i = state_read c i" by (simp add: state_read_def)
    moreover from this have "property_read ?c3 i = property_read c i" by (rule property_read_cong) simp
    ultimately show ?thesis using p(5) that unfolding c' by simp
  qed
  moreover have "length (ls1 @ ls2 @ ls3) \<le> 3" using b1 b2 b3 by simp
  moreover have "length (column_values (ch_states c')) = max n (Suc slot)" using p(2) by (simp add: c'_def)
  ultimately show ?thesis using p(3,4) unfolding c' unfolding c'_def Let_def by blast
qed

section \<open>Whole rows\<close>

definition wf_chunk :: "nat \<Rightarrow> entry_chunk \<Rightarrow> bool" where
  "wf_chunk n c \<longleftrightarrow> columns_ok n (number_columns c) \<and> columns_ok n (label_columns c) \<and> texts_len n c \<and>
    length (column_values (ch_states c)) = n \<and> refs_ok c \<and>
    (\<forall>i < n. list_all (\<lambda>r. r \<noteq> None) (label_reads c i) \<and> property_read c i \<noteq> None)"

definition row_stored :: "entry_chunk \<Rightarrow> nat \<Rightarrow> file_entry \<Rightarrow> bool" where
  "row_stored c i row \<longleftrightarrow> number_reads c i = map Some (number_values row) \<and>
    text_reads c i = map Some (text_values row) \<and>
    (\<exists>ws. path_reads c i = map Some ws \<and> map view_text ws = map view_text (path_values row)) \<and>
    label_reads c i = map Some (label_values row) \<and>
    state_read c i = Some (state_bits row) \<and> property_read c i = Some (properties row)"

lemmas reads_defs = number_reads_def number_columns_def text_reads_def text_columns_def path_reads_def
  path_columns_def label_reads_def label_columns_def

lemma chunk_view_cong:
  assumes "number_reads c i = number_reads c' i" "text_reads c i = text_reads c' i"
    "path_reads c i = path_reads c' i" "label_reads c i = label_reads c' i"
    "state_read c i = state_read c' i" "property_read c i = property_read c' i"
  shows "chunk_view c i = chunk_view c' i"
  using assms unfolding chunk_view_def reads_defs by simp

lemma view_of_str_inject [simp]: "view_of_str a = view_of_str b \<longleftrightarrow> a = b"
  by (simp add: view_of_str_def)

lemma row_stored_view:
  assumes "row_stored c i row"
  shows "map_option to_owned_file (chunk_view c i) = Some (to_owned_file row)"
proof -
  obtain w1 w2 w3 where "path_reads c i = map Some [w1, w2, w3]"
    "map view_text [w1, w2, w3] = map view_text (path_values row)"
    using assms unfolding row_stored_def path_reads_def path_columns_def path_values_def by auto
  then show ?thesis using assms
    unfolding row_stored_def chunk_view_def reads_defs number_values_def text_values_def
      label_values_def path_values_def to_owned_file_def
    by simp
qed

lemma wf_chunk_len: "wf_chunk n c \<Longrightarrow> chunk_len c = n"
  by (simp add: wf_chunk_def columns_ok_def number_columns_def chunk_len_def)

lemma integer_get_Some: "wf_integer k d \<Longrightarrow> i < integer_len d \<Longrightarrow> \<exists>v. integer_get k d i = Some v"
  using integer_len_list[of d k] by (simp add: integer_get_list slice_get_def)

lemma columns_ok_get:
  "columns_ok n cols \<Longrightarrow> (k, d) \<in> set cols \<Longrightarrow> i < n \<Longrightarrow> \<exists>v. integer_get k d i = Some v"
  by (auto simp: columns_ok_def list_all_iff intro: integer_get_Some)

lemma number_reads_Some: "columns_ok n (number_columns c) \<Longrightarrow> i < n \<Longrightarrow> list_all (\<lambda>r. r \<noteq> None) (number_reads c i)"
  using columns_ok_get[of n "number_columns c"] by (fastforce simp: number_reads_def list_all_iff)

lemma text_reads_Some:
  assumes "refs_ok c" "texts_len n c" "i < n"
  shows "list_all (\<lambda>r. r \<noteq> None) (text_reads c i) \<and> list_all (\<lambda>r. r \<noteq> None) (path_reads c i)"
  using assms text_read_Some[OF assms(1)] path_read_Some[OF assms(1)]
  by (fastforce simp: texts_len_def text_reads_def path_reads_def list_all_iff)

lemma wf_chunk_view:
  assumes wf: "wf_chunk n c" and i: "i < n"
  shows "\<exists>f. chunk_view c i = Some f"
proof -
  have "state_read c i \<noteq> None" using wf i by (simp add: wf_chunk_def state_read_def slice_get_def)
  moreover have "list_all (\<lambda>r. r \<noteq> None) (number_reads c i)"
    using wf i number_reads_Some[of n c i] by (simp add: wf_chunk_def)
  moreover have "list_all (\<lambda>r. r \<noteq> None) (text_reads c i) \<and> list_all (\<lambda>r. r \<noteq> None) (path_reads c i)"
    using wf i text_reads_Some[of c n i] by (simp add: wf_chunk_def)
  moreover have "list_all (\<lambda>r. r \<noteq> None) (label_reads c i)" "property_read c i \<noteq> None"
    using wf i by (simp_all add: wf_chunk_def)
  ultimately show ?thesis unfolding chunk_view_def reads_defs by (auto simp del: property_read_def)
qed

definition reads_same :: "entry_chunk \<Rightarrow> entry_chunk \<Rightarrow> nat \<Rightarrow> bool" where
  "reads_same c c' i \<longleftrightarrow> number_reads c' i = number_reads c i \<and> text_reads c' i = text_reads c i \<and>
    path_reads c' i = path_reads c i \<and> label_reads c' i = label_reads c i \<and>
    state_read c' i = state_read c i \<and> property_read c' i = property_read c i"

lemma reads_same_view: "reads_same c c' i \<Longrightarrow> chunk_view c' i = chunk_view c i"
  by (rule chunk_view_cong) (simp_all add: reads_same_def)

lemma reads_same_stored: "reads_same c c' i \<Longrightarrow> row_stored c i row \<Longrightarrow> row_stored c' i row"
  by (simp add: reads_same_def row_stored_def)

lemma store_row_ok:
  assumes wf: "wf_chunk n c" and slot: "slot \<le> n" and labels: "length (ch_labels c) + 3 \<le> 2 ^ 32"
    and n1: "columns_ok (max n (Suc slot)) (number_columns c1)"
      "number_reads c1 slot = map Some (number_values row)"
      "\<And>i. i \<noteq> slot \<Longrightarrow> number_reads c1 i = number_reads c i"
    and c1: "\<exists>d1 d2 d3 d4 d5 d6 d7 d8 d9 d10. c1 = c\<lparr>ch_id := d1, ch_size := d2, ch_modified := d3,
      ch_created := d4, ch_changed := d5, ch_modified_ns := d6, ch_changed_ns := d7, ch_file_id := d8,
      ch_parent_id := d9, ch_flags := d10\<rparr>"
    and t2: "texts_stored n slot row c1 c2"
  shows "\<exists>c3. set_labels slot row c2 = Some c3 \<and> wf_chunk (max n (Suc slot)) c3 \<and> row_stored c3 slot row \<and>
    (\<forall>i < n. i \<noteq> slot \<longrightarrow> reads_same c c3 i) \<and> ch_section c3 = ch_section c \<and>
    length (ch_labels c3) \<le> length (ch_labels c) + 3 \<and>
    ch_text c3 = ch_text c2 \<and> ch_pending c3 = ch_pending c2"
proof -
  note W = wf[unfolded wf_chunk_def]
  let ?m = "max n (Suc slot)"
  have same1: "text_columns c1 = text_columns c" "path_columns c1 = path_columns c"
    "label_columns c1 = label_columns c" "ch_text c1 = ch_text c" "ch_states c1 = ch_states c"
    "ch_labels c1 = ch_labels c" "ch_properties c1 = ch_properties c" "ch_section c1 = ch_section c"
    using c1 by (auto simp: text_columns_def path_columns_def label_columns_def)
  note T = t2[unfolded texts_stored_def]
  have same2: "number_columns c2 = number_columns c1" "label_columns c2 = label_columns c"
    "ch_states c2 = ch_states c" "ch_labels c2 = ch_labels c" "ch_properties c2 = ch_properties c"
    "ch_section c2 = ch_section c"
    using T same1 by (auto simp: number_columns_def label_columns_def)
  have "columns_ok n (label_columns c2)" "length (column_values (ch_states c2)) = n"
    "length (ch_labels c2) + 3 \<le> 2 ^ 32"
    using W labels same2 by simp_all
  from set_labels_ok[OF this(1,2) slot this(3), of row] obtain c3 where s3: "set_labels slot row c2 = Some c3"
    and l3: "columns_ok ?m (label_columns c3)" "length (column_values (ch_states c3)) = ?m"
    "label_reads c3 slot = map Some (label_values row)" "state_read c3 slot = Some (state_bits row)"
    "property_read c3 slot = Some (properties row)"
    "\<And>i. i \<noteq> slot \<Longrightarrow> state_read c3 i = state_read c2 i \<and> property_read c3 i = property_read c2 i
      \<and> (list_all (\<lambda>r. r \<noteq> None) (label_reads c2 i) \<longrightarrow> label_reads c3 i = label_reads c2 i)"
    and c3: "\<exists>d1 d2 d3 ls st pr. length ls \<le> 3 \<and> c3 = c2\<lparr>ch_extension := d1, ch_folded_extension := d2,
      ch_volume_id := d3, ch_labels := ch_labels c2 @ ls, ch_states := st, ch_properties := pr\<rparr>"
    unfolding Let_def by blast
  have same3: "number_columns c3 = number_columns c1" "text_columns c3 = text_columns c2"
    "path_columns c3 = path_columns c2" "ch_text c3 = ch_text c2" "ch_pending c3 = ch_pending c2"
    "chunk_refs c3 = chunk_refs c2" "ch_section c3 = ch_section c"
    "length (ch_labels c3) \<le> length (ch_labels c) + 3"
    using c3 same2 by (auto simp: number_columns_def text_columns_def path_columns_def chunk_refs_def)
  have reads: "number_reads c3 i = number_reads c1 i" "text_reads c3 i = text_reads c2 i"
    "path_reads c3 i = path_reads c2 i" "label_reads c2 i = label_reads c i" "state_read c2 i = state_read c i"
    "text_reads c1 i = text_reads c i" "path_reads c1 i = path_reads c i" for i
    using same1 same2 same3
    by (simp_all add: number_reads_def text_reads_def path_reads_def label_reads_def state_read_def)
  have props: "property_read c2 i = property_read c i" for i
    by (rule property_read_cong) (use reads same2 in simp_all)
  have old: "reads_same c c3 i" if "i < n" "i \<noteq> slot" for i
    using l3(6)[OF that(2)] reads props n1(3)[OF that(2)] W T that by (simp add: reads_same_def)
  have stored: "row_stored c3 slot row"
    unfolding row_stored_def using n1(2) T l3(3-5) reads by simp
  have "list_all (\<lambda>r. r \<noteq> None) (label_reads c3 i) \<and> property_read c3 i \<noteq> None" if "i < ?m" for i
  proof (cases "i = slot")
    case True
    then show ?thesis using l3(3,5) by (simp add: list_all_iff)
  next
    case False
    then have "i < n" using that slot by auto
    then show ?thesis using old[of i] W False by (simp add: reads_same_def)
  qed
  moreover have "refs_ok c3" using T same3 by (simp add: refs_ok_def)
  moreover have "texts_len ?m c3" using T same3 by (simp add: texts_len_def)
  ultimately have "wf_chunk ?m c3" using n1(1) l3(1,2) same3 by (simp add: wf_chunk_def)
  then show ?thesis using s3 stored old same3 by blast
qed

lemma wf_chunk_section: "wf_chunk n (c\<lparr>ch_section := s\<rparr>) = wf_chunk n c"
proof -
  have "property_read (c\<lparr>ch_section := s\<rparr>) i = property_read c i" for i
    by (rule property_read_cong) (simp_all add: state_read_def)
  then show ?thesis
    by (simp add: wf_chunk_def reads_defs refs_ok_def texts_len_def chunk_refs_def)
qed

lemma reads_same_section: "reads_same (c\<lparr>ch_section := s\<rparr>) c' i = reads_same c c' i"
proof -
  have "property_read (c\<lparr>ch_section := s\<rparr>) i = property_read c i"
    by (rule property_read_cong) (simp_all add: state_read_def)
  then show ?thesis by (simp add: reads_same_def reads_defs state_read_def)
qed

lemma refs_ok_numbers:
  "c' = c\<lparr>ch_id := d1, ch_size := d2, ch_modified := d3, ch_created := d4, ch_changed := d5,
    ch_modified_ns := d6, ch_changed_ns := d7, ch_file_id := d8, ch_parent_id := d9, ch_flags := d10\<rparr> \<Longrightarrow>
   refs_ok c' = refs_ok c \<and> texts_len n c' = texts_len n c \<and> ch_text c' = ch_text c"
  by (simp add: refs_ok_def chunk_refs_def texts_len_def text_columns_def path_columns_def)

lemma chunk_set_ok:
  assumes wf: "wf_chunk n c" and slot: "slot \<le> n" and row: "row_ok row"
    and fits: "str_len (ch_text c) + text_need row \<le> u32_max"
    and labels: "length (ch_labels c) + 3 \<le> 2 ^ 32"
  shows "\<exists>c'. chunk_set c slot row = Some c' \<and> wf_chunk (max n (Suc slot)) c' \<and> row_stored c' slot row
    \<and> (\<forall>i < n. i \<noteq> slot \<longrightarrow> reads_same c c' i) \<and> ch_section c' = None"
proof -
  let ?c0 = "c\<lparr>ch_section := None\<rparr>"
  have wf0: "wf_chunk n ?c0" using wf by (simp add: wf_chunk_section)
  from set_numbers_ok[of n ?c0 slot row] wf0 slot row
  obtain c1 where s1: "set_numbers slot row ?c0 = Some c1"
    and n1: "columns_ok (max n (Suc slot)) (number_columns c1)"
      "number_reads c1 slot = map Some (number_values row)"
      "\<And>i. i \<noteq> slot \<Longrightarrow> number_reads c1 i = number_reads ?c0 i"
    and c1: "\<exists>d1 d2 d3 d4 d5 d6 d7 d8 d9 d10. c1 = ?c0\<lparr>ch_id := d1, ch_size := d2,
      ch_modified := d3, ch_created := d4, ch_changed := d5, ch_modified_ns := d6, ch_changed_ns := d7,
      ch_file_id := d8, ch_parent_id := d9, ch_flags := d10\<rparr>"
    unfolding wf_chunk_def by blast
  have "refs_ok c1" "texts_len n c1" "ch_text c1 = ch_text c"
    using c1 wf0 refs_ok_numbers[where c = ?c0 and c' = c1 and n = n] unfolding wf_chunk_def by auto
  then obtain c2 where s2: "set_texts slot row c1 = Some c2" and t2: "texts_stored n slot row c1 c2"
    using set_texts_stored[of c1 n slot row] slot fits by auto
  have labels0: "length (ch_labels ?c0) + 3 \<le> 2 ^ 32" using labels by simp
  obtain c3 where c3: "set_labels slot row c2 = Some c3" "wf_chunk (max n (Suc slot)) c3"
    "row_stored c3 slot row" "\<forall>i < n. i \<noteq> slot \<longrightarrow> reads_same ?c0 c3 i" "ch_section c3 = None"
    using store_row_ok[OF wf0 slot labels0 n1 c1 t2] by auto
  have "chunk_set c slot row = Some c3" by (simp add: chunk_set_def s1 s2 c3(1))
  then show ?thesis using c3 by (auto simp: reads_same_section)
qed

lemma wf_default_chunk: "wf_chunk 0 default_chunk"
  by (simp add: wf_chunk_def default_chunk_def columns_ok_def number_columns_def label_columns_def
      texts_len_def text_columns_def path_columns_def refs_ok_def chunk_refs_def)

lemma sample_entry_ok: "row_ok sample_entry" "text_need sample_entry \<le> 100"
  by (simp_all add: row_ok_def sample_entry_def text_need_def text_values_def path_values_def view_text_def
      view_of_str_def str_len_def as_bytes_def utf8_char_def lit_def)

section \<open>Properties\<close>

text \<open>Storing a row in a block, over an existing slot or at its end, succeeds while the arena stays within
  32-bit offsets and the labels within 32-bit indices. Reading the slot then gives the stored row in every
  field, reading any other slot gives what it gave, the block stays well formed, and the descriptor of a
  published cache section is dropped.\<close>

lemma chunk_set_stores_row:
  assumes "wf_chunk n c" "slot \<le> n" "row_ok row" "str_len (ch_text c) + text_need row \<le> u32_max"
    "length (ch_labels c) + 3 \<le> 2 ^ 32"
  shows "\<exists>c'. chunk_set c slot row = Some c' \<and> wf_chunk (max n (Suc slot)) c' \<and>
    map_option to_owned_file (chunk_view c' slot) = Some (to_owned_file row) \<and>
    (\<forall>i < n. i \<noteq> slot \<longrightarrow> chunk_view c' i = chunk_view c i) \<and> ch_section c' = None"
  using chunk_set_ok[OF assms] row_stored_view reads_same_view by blast

end
