(* ===== verification/Entry_Build.thy ===== *)
theory Entry_Build
  imports Entry_Chunk
begin

text \<open>
  Building and compacting blocks, \<open>EntryChunk::from_rows\<close>, \<open>compact_integers\<close>, \<open>compact_text\<close> and the search
  for dead text in \<open>EntryTable::finish_update\<close> of \<open>core/src/entry_table.rs\<close>. Both keep every row: a block
  built from rows reads back those rows, and reclaiming dead text moves references without changing what
  they read.
\<close>

section \<open>Building a block\<close>

definition pool_path :: "text_pool \<Rightarrow> str \<Rightarrow> (text_pool \<times> path_ref) option" where
  "pool_path p value = do {
    (p, a) \<leftarrow> intern p (fst (path_split value));
    (p, b) \<leftarrow> intern p (snd (path_split value));
    Some (p, \<lparr>pr_prefix = a, pr_suffix = b\<rparr>) }"

definition row_texts :: "nat \<Rightarrow> file_entry \<Rightarrow> text_pool \<Rightarrow> entry_chunk \<Rightarrow> (text_pool \<times> entry_chunk) option" where
  "row_texts slot row p c = do {
    (p, r1) \<leftarrow> pool_path p (view_text (path row));
    k1 \<leftarrow> column_set (ch_path c) slot r1;
    (p, r2) \<leftarrow> pool_path p (view_text (folded_path row));
    k2 \<leftarrow> column_set (ch_folded_path c) slot r2;
    (p, r3) \<leftarrow> pool_path p (view_text (search_path row));
    k3 \<leftarrow> column_set (ch_search_path c) slot r3;
    (p, r4) \<leftarrow> intern p (name row);
    k4 \<leftarrow> column_set (ch_name c) slot r4;
    (p, r5) \<leftarrow> intern p (folded_name row);
    k5 \<leftarrow> column_set (ch_folded_name c) slot r5;
    (p, r6) \<leftarrow> intern p (search_name row);
    k6 \<leftarrow> column_set (ch_search_name c) slot r6;
    (p, r7) \<leftarrow> intern p (parent row);
    k7 \<leftarrow> column_set (ch_parent c) slot r7;
    Some (p, c\<lparr>ch_path := k1, ch_folded_path := k2, ch_search_path := k3, ch_name := k4,
      ch_folded_name := k5, ch_search_name := k6, ch_parent := k7\<rparr>) }"

fun fill_rows :: "nat \<Rightarrow> file_entry list \<Rightarrow> text_pool \<Rightarrow> entry_chunk \<Rightarrow> (text_pool \<times> entry_chunk) option" where
  "fill_rows slot [] p c = Some (p, c)"
| "fill_rows slot (row # rows) p c = do {
    c \<leftarrow> set_numbers slot row c;
    (p, c) \<leftarrow> row_texts slot row p c;
    c \<leftarrow> set_labels slot row c;
    fill_rows (Suc slot) rows p c }"

fun intern_all :: "text_pool \<Rightarrow> str list \<Rightarrow> text_pool option" where
  "intern_all p [] = Some p"
| "intern_all p (v # vs) = do { (p, _) \<leftarrow> intern p v; intern_all p vs }"

definition row_prefixes :: "file_entry \<Rightarrow> str list" where
  "row_prefixes row = [fst (path_split (view_text (path row))), fst (path_split (view_text (folded_path row))),
    fst (path_split (view_text (search_path row))), parent row]"

definition share_columns :: "entry_chunk \<Rightarrow> entry_chunk" where
  "share_columns c =
    (let c = (if column_values (ch_folded_name c) = column_values (ch_name c)
              then c\<lparr>ch_folded_name := ch_name c\<rparr> else c);
         c = (if column_values (ch_search_name c) = column_values (ch_folded_name c)
              then c\<lparr>ch_search_name := ch_folded_name c\<rparr> else c);
         c = (if column_values (ch_folded_path c) = column_values (ch_path c)
              then c\<lparr>ch_folded_path := ch_path c\<rparr> else c)
     in if column_values (ch_search_path c) = column_values (ch_folded_path c)
        then c\<lparr>ch_search_path := ch_folded_path c\<rparr> else c)"

definition compact_integers :: "entry_chunk \<Rightarrow> entry_chunk" where
  "compact_integers c =
    (let c = share_columns (c\<lparr>ch_pending := None\<rparr>)
     in c\<lparr>ch_id := compact I64 (ch_id c), ch_size := compact U64 (ch_size c),
       ch_modified := compact I64 (ch_modified c), ch_created := compact I64 (ch_created c),
       ch_changed := compact I64 (ch_changed c), ch_modified_ns := compact I64 (ch_modified_ns c),
       ch_changed_ns := compact I64 (ch_changed_ns c), ch_file_id := compact U64 (ch_file_id c),
       ch_parent_id := compact U64 (ch_parent_id c), ch_flags := compact U32 (ch_flags c),
       ch_extension := compact U32 (ch_extension c),
       ch_folded_extension := compact U32 (ch_folded_extension c),
       ch_volume_id := compact U32 (ch_volume_id c)\<rparr>)"

definition chunk_from_rows :: "file_entry list \<Rightarrow> entry_chunk option" where
  "chunk_from_rows rows = do {
    p \<leftarrow> intern_all empty_pool (map search_name rows);
    p \<leftarrow> intern_prefixes p (concat (map row_prefixes rows));
    (p, c) \<leftarrow> fill_rows 0 rows p default_chunk;
    Some (compact_integers (c\<lparr>ch_text := pool_finish p\<rparr>)) }"

section \<open>Reclaiming dead text\<close>

fun relocated :: "nat \<Rightarrow> (nat \<times> nat) list \<Rightarrow> (nat \<times> nat) list" where
  "relocated n [] = []"
| "relocated n ((s, e) # rs) = (s, n) # relocated (n + (e - s)) rs"

fun live_text :: "str \<Rightarrow> (nat \<times> nat) list \<Rightarrow> str option" where
  "live_text t [] = Some []"
| "live_text t ((s, e) # rs) = do {
    v \<leftarrow> text_at t \<lparr>tr_offset = s, tr_length = e - s\<rparr>;
    vs \<leftarrow> live_text t rs;
    Some (v @ vs) }"

definition relocate :: "(nat \<times> nat) list \<Rightarrow> text_ref \<Rightarrow> text_ref option" where
  "relocate moved r =
    (if tr_length r = 0 then Some default_ref
     else let n = partition_point (\<lambda>(s, _). s \<le> tr_offset r) moved in
       if n = 0 then None
       else case moved ! (n - 1) of (s, d) \<Rightarrow>
         if d + tr_offset r - s \<le> u32_max
         then Some \<lparr>tr_offset = d + tr_offset r - s, tr_length = tr_length r\<rparr> else None)"

definition relocate_path :: "(nat \<times> nat) list \<Rightarrow> path_ref \<Rightarrow> path_ref option" where
  "relocate_path moved p = do {
    a \<leftarrow> relocate moved (pr_prefix p);
    b \<leftarrow> relocate moved (pr_suffix p);
    Some \<lparr>pr_prefix = a, pr_suffix = b\<rparr> }"

fun map_all :: "('a \<Rightarrow> 'b option) \<Rightarrow> 'a list \<Rightarrow> 'b list option" where
  "map_all f [] = Some []"
| "map_all f (x # xs) = do { y \<leftarrow> f x; ys \<leftarrow> map_all f xs; Some (y # ys) }"

definition compact_text :: "(nat \<times> nat) list \<Rightarrow> entry_chunk \<Rightarrow> entry_chunk option" where
  "compact_text ranges c = do {
    t \<leftarrow> live_text (ch_text c) ranges;
    k1 \<leftarrow> map_all (relocate (relocated 0 ranges)) (column_values (ch_name c));
    k2 \<leftarrow> map_all (relocate (relocated 0 ranges)) (column_values (ch_folded_name c));
    k3 \<leftarrow> map_all (relocate (relocated 0 ranges)) (column_values (ch_search_name c));
    k4 \<leftarrow> map_all (relocate (relocated 0 ranges)) (column_values (ch_parent c));
    k5 \<leftarrow> map_all (relocate_path (relocated 0 ranges)) (column_values (ch_path c));
    k6 \<leftarrow> map_all (relocate_path (relocated 0 ranges)) (column_values (ch_folded_path c));
    k7 \<leftarrow> map_all (relocate_path (relocated 0 ranges)) (column_values (ch_search_path c));
    Some (c\<lparr>ch_name := Owned k1, ch_folded_name := Owned k2, ch_search_name := Owned k3,
      ch_parent := Owned k4, ch_path := Owned k5, ch_folded_path := Owned k6, ch_search_path := Owned k7,
      ch_text := t, ch_pending := None, ch_section := None\<rparr>) }"

fun merge_ranges :: "(nat \<times> nat) list \<Rightarrow> (nat \<times> nat) list \<Rightarrow> (nat \<times> nat) list" where
  "merge_ranges acc [] = acc"
| "merge_ranges acc ((s, e) # rs) =
    (if s = e then merge_ranges acc rs
     else if acc \<noteq> [] \<and> s \<le> snd (last acc)
     then merge_ranges (butlast acc @ [(fst (last acc), max (snd (last acc)) e)]) rs
     else merge_ranges (acc @ [(s, e)]) rs)"

definition range_cmp :: "nat \<times> nat \<Rightarrow> nat \<times> nat \<Rightarrow> ordering" where
  "range_cmp a b = then_with (prim_cmp (fst a) (fst b)) (prim_cmp (snd a) (snd b))"

definition live_ranges :: "entry_chunk \<Rightarrow> (nat \<times> nat) list" where
  "live_ranges c = merge_ranges [] (sort_by range_cmp
    (map (\<lambda>r. (tr_offset r, tr_offset r + tr_length r)) (chunk_refs c)))"

definition reclaim_text :: "entry_chunk \<Rightarrow> entry_chunk option" where
  "reclaim_text c =
    (let ranges = live_ranges c; live_bytes = sum_list (map (\<lambda>(s, e). e - s) ranges) in
     if str_len (ch_text c) - live_bytes > live_bytes then compact_text ranges c else Some c)"

section \<open>Compacting keeps every row\<close>

lemma compact_len: "wf_integer k d \<Longrightarrow> integer_len (compact k d) = integer_len d"
  using compact_list[of k d] integer_len_list[of d k] integer_len_list[of "compact k d" k] by simp

lemma compact_columns_ok:
  "columns_ok n cols \<Longrightarrow> columns_ok n (map (\<lambda>(k, d). (k, compact k d)) cols)"
  by (auto simp: columns_ok_def list_all_iff compact_len dest!: bspec) (use compact_list in blast)+

lemma compact_get: "wf_integer k d \<Longrightarrow> integer_get k (compact k d) i = integer_get k d i"
  using compact_list[of k d] by (simp add: integer_get_list)

lemma compact_integers_ok:
  assumes wf: "wf_chunk n c"
  shows "wf_chunk n (compact_integers c) \<and> (\<forall>i. row_stored c i row \<longrightarrow> row_stored (compact_integers c) i row)
    \<and> (\<forall>i < n. chunk_view (compact_integers c) i = chunk_view c i)"
proof -
  let ?c = "compact_integers c"
  have cols: "number_columns ?c = map (\<lambda>(k, d). (k, compact k d)) (number_columns c)"
    "label_columns ?c = map (\<lambda>(k, d). (k, compact k d)) (label_columns c)"
    by (simp_all add: compact_integers_def share_columns_def Let_def number_columns_def label_columns_def)
  have same: "map column_values (text_columns ?c) = map column_values (text_columns c)"
    "map column_values (path_columns ?c) = map column_values (path_columns c)"
    "ch_text ?c = ch_text c" "ch_states ?c = ch_states c" "ch_labels ?c = ch_labels c"
    "ch_properties ?c = ch_properties c" "ch_pending ?c = None"
    by (auto simp: compact_integers_def share_columns_def Let_def text_columns_def path_columns_def)
  have refs: "chunk_refs ?c = chunk_refs c"
    using same(1,2) by (simp add: chunk_refs_def text_columns_def path_columns_def)
  have "text_reads ?c i = text_reads c i" "path_reads ?c i = path_reads c i" for i
    using same(1-3) by (simp_all add: reads_defs text_read_def path_read_def)
  moreover have num: "number_reads ?c i = number_reads c i" for i
    using wf cols by (auto simp: number_reads_def wf_chunk_def columns_ok_def list_all_iff compact_get)
  moreover have lab: "label_reads ?c i = label_reads c i" for i
    using wf cols same(5) by (auto simp: label_reads_def wf_chunk_def columns_ok_def list_all_iff compact_get label_read_def label_columns_def)
  moreover have st: "state_read ?c i = state_read c i" for i by (simp add: state_read_def same)
  moreover have pr: "property_read ?c i = property_read c i" for i
    by (rule property_read_cong) (simp_all add: st same)
  ultimately have "chunk_view ?c i = chunk_view c i" "row_stored c i row \<longrightarrow> row_stored ?c i row" for i
    by (auto intro!: chunk_view_cong simp: row_stored_def)
  moreover have "texts_len n ?c"
    using wf same(1,2) by (simp add: wf_chunk_def texts_len_def text_columns_def path_columns_def)
  moreover have "refs_ok ?c" using wf refs same by (simp add: wf_chunk_def refs_ok_def)
  ultimately show ?thesis using wf cols compact_columns_ok lab pr same(4)
    by (simp add: wf_chunk_def)
qed

section \<open>A block built from rows reads back the rows\<close>

lemma pool_extends_len: "pool_extends p q \<Longrightarrow> str_len (tp_text p) \<le> str_len (tp_text q)"
  by (auto simp: pool_extends_def)

lemma intern_step:
  assumes "pool_ok p" "str_len (tp_text p) + str_len v \<le> u32_max"
  shows "\<exists>q r. intern p v = Some (q, r) \<and> pool_ok q \<and> pool_extends p q \<and>
    str_len (tp_text q) \<le> str_len (tp_text p) + str_len v \<and> text_at (tp_text q) r = Some v"
proof -
  obtain q r where q: "intern p v = Some (q, r)" using intern_total[OF assms(2)] by auto
  then show ?thesis using intern_ok[OF assms(1) q] intern_text[OF q] by (auto simp: str_len_def)
qed

lemma path_split_join: "fst (path_split v) @ snd (path_split v) = v"
  by (simp add: path_split_def Let_def)

lemma str_len_split: "str_len (fst (path_split v)) + str_len (snd (path_split v)) = str_len v"
  by (metis path_split_join str_len_append)

lemma pool_path_step:
  assumes "pool_ok p" "str_len (tp_text p) + str_len v \<le> u32_max"
  shows "\<exists>q r w. pool_path p v = Some (q, r) \<and> pool_ok q \<and> pool_extends p q \<and>
    str_len (tp_text q) \<le> str_len (tp_text p) + str_len v \<and>
    path_at (tp_text q) r = Some w \<and> view_text w = v"
proof -
  let ?a = "fst (path_split v)" and ?b = "snd (path_split v)"
  obtain q1 r1 where q1: "intern p ?a = Some (q1, r1)" "pool_ok q1" "pool_extends p q1"
    "str_len (tp_text q1) \<le> str_len (tp_text p) + str_len ?a" "text_at (tp_text q1) r1 = Some ?a"
    using intern_step[OF assms(1), of ?a] assms(2) str_len_split[of v] by auto
  obtain q2 r2 where q2: "intern q1 ?b = Some (q2, r2)" "pool_ok q2" "pool_extends q1 q2"
    "str_len (tp_text q2) \<le> str_len (tp_text q1) + str_len ?b" "text_at (tp_text q2) r2 = Some ?b"
    using intern_step[OF q1(2), of ?b] assms(2) q1(4) str_len_split[of v] by auto
  have "path_at (tp_text q2) \<lparr>pr_prefix = r1, pr_suffix = r2\<rparr> = Some \<lparr>prefix = ?a, suffix = ?b\<rparr>"
    using pool_extends_at[OF q2(3) q1(5)] q2(5) by (simp add: path_at_def)
  moreover have "view_text \<lparr>prefix = ?a, suffix = ?b\<rparr> = v"
    by (simp add: view_text_def path_split_join)
  moreover have "pool_path p v = Some (q2, \<lparr>pr_prefix = r1, pr_suffix = r2\<rparr>)"
    by (simp add: pool_path_def q1(1) q2(1))
  moreover have "str_len (tp_text q2) \<le> str_len (tp_text p) + str_len v"
    using q1(4) q2(4) str_len_split[of v] by simp
  moreover have "pool_extends p q2" using q1(3) q2(3) by (rule pool_extends_trans)
  ultimately show ?thesis using q2(2) by metis
qed

lemma pool_extends_path: "pool_extends p q \<Longrightarrow> path_at (tp_text p) r = Some v \<Longrightarrow> path_at (tp_text q) r = Some v"
  by (auto simp: pool_extends_def path_at_append)

text \<open>The block with the arena of the builder in place, as it will be once the builder is done.\<close>

abbreviation over :: "text_pool \<Rightarrow> entry_chunk \<Rightarrow> entry_chunk" where
  "over p c \<equiv> c\<lparr>ch_text := tp_text p\<rparr>"

lemma refs_ok_over:
  assumes "refs_ok (over p c)" "pool_extends p q" "ch_pending c = None"
  shows "refs_ok (over q c)"
  using assms text_at_append by (fastforce simp: refs_ok_def pool_extends_def chunk_refs_def)

text \<open>Seven new references, all readable, stored in the seven columns.\<close>

lemma store_refs:
  assumes ok: "refs_ok c" and len: "texts_len n c" and slot: "slot \<le> n"
    and reads: "path_at (ch_text c) r1 = Some w1" "path_at (ch_text c) r2 = Some w2"
      "path_at (ch_text c) r3 = Some w3" "text_at (ch_text c) r4 = Some v4" "text_at (ch_text c) r5 = Some v5"
      "text_at (ch_text c) r6 = Some v6" "text_at (ch_text c) r7 = Some v7"
    and row: "text_values row = [v4, v5, v6, v7]" "map view_text (path_values row) = map view_text [w1, w2, w3]"
  shows "\<exists>k1 k2 k3 k4 k5 k6 k7. let c' = c\<lparr>ch_path := k1, ch_folded_path := k2, ch_search_path := k3,
      ch_name := k4, ch_folded_name := k5, ch_search_name := k6, ch_parent := k7\<rparr> in
    column_set (ch_path c) slot r1 = Some k1 \<and> column_set (ch_folded_path c) slot r2 = Some k2 \<and>
    column_set (ch_search_path c) slot r3 = Some k3 \<and> column_set (ch_name c) slot r4 = Some k4 \<and>
    column_set (ch_folded_name c) slot r5 = Some k5 \<and> column_set (ch_search_name c) slot r6 = Some k6 \<and>
    column_set (ch_parent c) slot r7 = Some k7 \<and> texts_stored n slot row c c'"
proof -
  note L = len[unfolded texts_len_def text_columns_def path_columns_def, simplified]
  have path_refs: "text_at (ch_text c) x \<noteq> None" if "x \<in> set [pr_prefix r, pr_suffix r]"
    "path_at (ch_text c) r = Some w" for x r w
    using that by (auto simp: path_at_def split: bind_splits)
  obtain k1 where k1: "column_set (ch_path c) slot r1 = Some k1" "col_updated (ch_path c) slot r1 k1"
    using column_set_updated[of slot "ch_path c" r1] L slot by auto
  obtain k2 where k2: "column_set (ch_folded_path c) slot r2 = Some k2" "col_updated (ch_folded_path c) slot r2 k2"
    using column_set_updated[of slot "ch_folded_path c" r2] L slot by auto
  obtain k3 where k3: "column_set (ch_search_path c) slot r3 = Some k3" "col_updated (ch_search_path c) slot r3 k3"
    using column_set_updated[of slot "ch_search_path c" r3] L slot by auto
  obtain k4 where k4: "column_set (ch_name c) slot r4 = Some k4" "col_updated (ch_name c) slot r4 k4"
    using column_set_updated[of slot "ch_name c" r4] L slot by auto
  obtain k5 where k5: "column_set (ch_folded_name c) slot r5 = Some k5" "col_updated (ch_folded_name c) slot r5 k5"
    using column_set_updated[of slot "ch_folded_name c" r5] L slot by auto
  obtain k6 where k6: "column_set (ch_search_name c) slot r6 = Some k6" "col_updated (ch_search_name c) slot r6 k6"
    using column_set_updated[of slot "ch_search_name c" r6] L slot by auto
  obtain k7 where k7: "column_set (ch_parent c) slot r7 = Some k7" "col_updated (ch_parent c) slot r7 k7"
    using column_set_updated[of slot "ch_parent c" r7] L slot by auto
  have ok1: "refs_ok (c\<lparr>ch_path := k1\<rparr>)" (is "refs_ok ?c1")
    by (rule path_column.refs_ok_store[OF ok _ k1(2)]) (use path_refs[OF _ reads(1)] in simp)
  have ok2: "refs_ok (?c1\<lparr>ch_folded_path := k2\<rparr>)" (is "refs_ok ?c2")
    by (rule folded_path_column.refs_ok_store[OF ok1, where x = r2 and slot = slot]) (use path_refs[OF _ reads(2)] k2(2) in simp_all)
  have ok3: "refs_ok (?c2\<lparr>ch_search_path := k3\<rparr>)" (is "refs_ok ?c3")
    by (rule search_path_column.refs_ok_store[OF ok2, where x = r3 and slot = slot]) (use path_refs[OF _ reads(3)] k3(2) in simp_all)
  have ok4: "refs_ok (?c3\<lparr>ch_name := k4\<rparr>)" (is "refs_ok ?c4")
    by (rule name_field.refs_ok_store[OF ok3, where x = r4 and slot = slot]) (use reads(4) k4(2) in auto)
  have ok5: "refs_ok (?c4\<lparr>ch_folded_name := k5\<rparr>)" (is "refs_ok ?c5")
    by (rule folded_name_field.refs_ok_store[OF ok4, where x = r5 and slot = slot]) (use reads(5) k5(2) in auto)
  have ok6: "refs_ok (?c5\<lparr>ch_search_name := k6\<rparr>)" (is "refs_ok ?c6")
    by (rule search_name_field.refs_ok_store[OF ok5, where x = r6 and slot = slot]) (use reads(6) k6(2) in auto)
  have ok7: "refs_ok (?c6\<lparr>ch_parent := k7\<rparr>)" (is "refs_ok ?c7")
    by (rule parent_field.refs_ok_store[OF ok6, where x = r7 and slot = slot]) (use reads(7) k7(2) in auto)
  note K = k1(2) k2(2) k3(2) k4(2) k5(2) k6(2) k7(2)
  have eq: "?c7 = c\<lparr>ch_search_name := k6, ch_name := k4, ch_folded_name := k5, ch_path := k1,
      ch_parent := k7, ch_folded_path := k2, ch_search_path := k3, ch_text := ch_text c, ch_pending := ch_pending c\<rparr>"
    by (rule entry_chunk.equality) simp_all
  have "\<exists>a1 a2 a3 a4 a5 a6 a7 t d. ?c7 = c\<lparr>ch_search_name := a1, ch_name := a2, ch_folded_name := a3,
      ch_path := a4, ch_parent := a5, ch_folded_path := a6, ch_search_path := a7, ch_text := t, ch_pending := d\<rparr>"
    using eq by blast
  moreover have "texts_len (max n (Suc slot)) ?c7"
    using L K by (simp add: texts_len_def text_columns_def path_columns_def col_updated_def)
  moreover have "text_reads ?c7 slot = map Some (text_values row)" "path_reads ?c7 slot = map Some [w1, w2, w3]"
    using K reads row by (simp_all add: reads_defs text_read_def path_read_def col_updated_def)
  moreover have "text_reads ?c7 i = text_reads c i \<and> path_reads ?c7 i = path_reads c i" if "i \<noteq> slot" for i
    using K that by (simp add: reads_defs text_read_def path_read_def col_updated_def)
  ultimately have "texts_stored n slot row c ?c7" unfolding texts_stored_def using ok7 row(2) by metis
  then show ?thesis using k1(1) k2(1) k3(1) k4(1) k5(1) k6(1) k7(1) unfolding Let_def by blast
qed

lemma reads_over:
  assumes ok: "refs_ok (over p c)" and ext: "pool_extends p q" and len: "texts_len n c" and i: "i < n"
  shows "text_reads (over q c) i = text_reads (over p c) i \<and> path_reads (over q c) i = path_reads (over p c) i"
proof -
  obtain u where u: "tp_text q = tp_text p @ u" using ext by (auto simp: pool_extends_def)
  have "text_read (tp_text p @ u) col i = text_read (tp_text p) col i" if "col \<in> set (text_columns c)" for col
    using text_read_kept[OF ok, of col i col u] that len i
    by (auto simp: texts_len_def list_all_iff text_columns_def)
  moreover have "path_read (tp_text p @ u) col i = path_read (tp_text p) col i" if "col \<in> set (path_columns c)" for col
    using path_read_kept[OF ok, of col i col u] that len i
    by (auto simp: texts_len_def list_all_iff path_columns_def)
  ultimately show ?thesis by (simp add: u reads_defs)
qed

lemma row_texts_ok:
  assumes pool: "pool_ok p" and ok: "refs_ok (over p c)" and pending: "ch_pending c = None"
    and len: "texts_len n c" and slot: "slot \<le> n" and fits: "str_len (tp_text p) + text_need row \<le> u32_max"
  shows "\<exists>p' c'. row_texts slot row p c = Some (p', c') \<and> pool_ok p' \<and>
    str_len (tp_text p') \<le> str_len (tp_text p) + text_need row \<and>
    texts_stored n slot row (over p c) (over p' c') \<and> ch_pending c' = None"
proof -
  have need: "text_need row = str_len (view_text (path row)) + str_len (view_text (folded_path row))
      + str_len (view_text (search_path row)) + str_len (name row) + str_len (folded_name row)
      + str_len (search_name row) + str_len (parent row)"
    by (simp add: text_need_def text_values_def path_values_def)
  obtain p1 r1 w1 where 1: "pool_path p (view_text (path row)) = Some (p1, r1)" "pool_ok p1" "pool_extends p p1"
    "str_len (tp_text p1) \<le> str_len (tp_text p) + str_len (view_text (path row))"
    "path_at (tp_text p1) r1 = Some w1" "view_text w1 = view_text (path row)"
    using pool_path_step[OF pool, of "view_text (path row)"] fits need by auto
  obtain p2 r2 w2 where 2: "pool_path p1 (view_text (folded_path row)) = Some (p2, r2)" "pool_ok p2" "pool_extends p1 p2"
    "str_len (tp_text p2) \<le> str_len (tp_text p1) + str_len (view_text (folded_path row))"
    "path_at (tp_text p2) r2 = Some w2" "view_text w2 = view_text (folded_path row)"
    using pool_path_step[OF 1(2), of "view_text (folded_path row)"] fits need 1(4) by auto
  obtain p3 r3 w3 where 3: "pool_path p2 (view_text (search_path row)) = Some (p3, r3)" "pool_ok p3" "pool_extends p2 p3"
    "str_len (tp_text p3) \<le> str_len (tp_text p2) + str_len (view_text (search_path row))"
    "path_at (tp_text p3) r3 = Some w3" "view_text w3 = view_text (search_path row)"
    using pool_path_step[OF 2(2), of "view_text (search_path row)"] fits need 1(4) 2(4) by auto
  obtain p4 r4 where 4: "intern p3 (name row) = Some (p4, r4)" "pool_ok p4" "pool_extends p3 p4"
    "str_len (tp_text p4) \<le> str_len (tp_text p3) + str_len (name row)" "text_at (tp_text p4) r4 = Some (name row)"
    using intern_step[OF 3(2), of "name row"] fits need 1(4) 2(4) 3(4) by auto
  obtain p5 r5 where 5: "intern p4 (folded_name row) = Some (p5, r5)" "pool_ok p5" "pool_extends p4 p5"
    "str_len (tp_text p5) \<le> str_len (tp_text p4) + str_len (folded_name row)"
    "text_at (tp_text p5) r5 = Some (folded_name row)"
    using intern_step[OF 4(2), of "folded_name row"] fits need 1(4) 2(4) 3(4) 4(4) by auto
  obtain p6 r6 where 6: "intern p5 (search_name row) = Some (p6, r6)" "pool_ok p6" "pool_extends p5 p6"
    "str_len (tp_text p6) \<le> str_len (tp_text p5) + str_len (search_name row)"
    "text_at (tp_text p6) r6 = Some (search_name row)"
    using intern_step[OF 5(2), of "search_name row"] fits need 1(4) 2(4) 3(4) 4(4) 5(4) by auto
  obtain p7 r7 where 7: "intern p6 (parent row) = Some (p7, r7)" "pool_ok p7" "pool_extends p6 p7"
    "str_len (tp_text p7) \<le> str_len (tp_text p6) + str_len (parent row)"
    "text_at (tp_text p7) r7 = Some (parent row)"
    using intern_step[OF 6(2), of "parent row"] fits need 1(4) 2(4) 3(4) 4(4) 5(4) 6(4) by auto
  note e6 = 7(3) and e5 = pool_extends_trans[OF 6(3) 7(3)]
  note e4 = pool_extends_trans[OF 5(3) e5]
  note e3 = pool_extends_trans[OF 4(3) e4]
  note e2 = pool_extends_trans[OF 3(3) e3]
  note e1 = pool_extends_trans[OF 2(3) e2]
  note e0 = pool_extends_trans[OF 1(3) e1]
  have ok7: "refs_ok (over p7 c)" by (rule refs_ok_over[OF ok e0 pending])
  have len7: "texts_len n (over p7 c)" using len by (simp add: texts_len_def text_columns_def path_columns_def)
  have "path_at (ch_text (over p7 c)) r1 = Some w1" "path_at (ch_text (over p7 c)) r2 = Some w2"
    "path_at (ch_text (over p7 c)) r3 = Some w3" "text_at (ch_text (over p7 c)) r4 = Some (name row)"
    "text_at (ch_text (over p7 c)) r5 = Some (folded_name row)"
    "text_at (ch_text (over p7 c)) r6 = Some (search_name row)"
    "text_at (ch_text (over p7 c)) r7 = Some (parent row)"
    using pool_extends_path[OF e1 1(5)] pool_extends_path[OF e2 2(5)] pool_extends_path[OF e3 3(5)]
      pool_extends_at[OF e4 4(5)] pool_extends_at[OF e5 5(5)] pool_extends_at[OF e6 6(5)] 7(5) by simp_all
  from store_refs[OF ok7 len7 slot this, of row]
  obtain k1 k2 k3 k4 k5 k6 k7 where k: "column_set (ch_path c) slot r1 = Some k1"
    "column_set (ch_folded_path c) slot r2 = Some k2" "column_set (ch_search_path c) slot r3 = Some k3"
    "column_set (ch_name c) slot r4 = Some k4" "column_set (ch_folded_name c) slot r5 = Some k5"
    "column_set (ch_search_name c) slot r6 = Some k6" "column_set (ch_parent c) slot r7 = Some k7"
    and st: "texts_stored n slot row (over p7 c) ((over p7 c)\<lparr>ch_path := k1, ch_folded_path := k2,
      ch_search_path := k3, ch_name := k4, ch_folded_name := k5, ch_search_name := k6, ch_parent := k7\<rparr>)"
    using 1(6) 2(6) 3(6) unfolding Let_def text_values_def path_values_def by auto
  let ?c = "c\<lparr>ch_path := k1, ch_folded_path := k2, ch_search_path := k3, ch_name := k4,
      ch_folded_name := k5, ch_search_name := k6, ch_parent := k7\<rparr>"
  have "row_texts slot row p c = Some (p7, ?c)"
    by (simp add: row_texts_def 1(1) 2(1) 3(1) 4(1) 5(1) 6(1) 7(1) k)
  moreover have "str_len (tp_text p7) \<le> str_len (tp_text p) + text_need row"
    using need 1(4) 2(4) 3(4) 4(4) 5(4) 6(4) 7(4) by linarith
  moreover have "texts_stored n slot row (over p c) (over p7 ?c)"
  proof -
    have eq: "(over p7 c)\<lparr>ch_path := k1, ch_folded_path := k2, ch_search_path := k3, ch_name := k4,
      ch_folded_name := k5, ch_search_name := k6, ch_parent := k7\<rparr> = over p7 ?c"
      by (rule entry_chunk.equality) simp_all
    have form: "over p7 ?c = (over p c)\<lparr>ch_search_name := k6, ch_name := k4, ch_folded_name := k5,
      ch_path := k1, ch_parent := k7, ch_folded_path := k2, ch_search_path := k3, ch_text := tp_text p7,
      ch_pending := ch_pending c\<rparr>"
      by (rule entry_chunk.equality) simp_all
    define e where "e = over p7 ?c"
    have "\<exists>k1 k2 k3 k4 k5 k6 k7 t d. e = (over p c)\<lparr>ch_search_name := k1, ch_name := k2, ch_folded_name := k3,
      ch_path := k4, ch_parent := k5, ch_folded_path := k6, ch_search_path := k7, ch_text := t, ch_pending := d\<rparr>"
      using form unfolding e_def by blast
    moreover note S = st[unfolded eq, folded e_def, unfolded texts_stored_def]
    moreover have "\<forall>i < n. i \<noteq> slot \<longrightarrow> text_reads e i = text_reads (over p c) i \<and> path_reads e i = path_reads (over p c) i"
      using S reads_over[OF ok e0 len] by simp
    ultimately show ?thesis unfolding e_def[symmetric] texts_stored_def by blast
  qed
  ultimately show ?thesis using 7(2) pending by fastforce
qed

lemma set_label_over:
  assumes "\<And>c. get (c\<lparr>ch_text := t\<rparr>) = get c" "\<And>c f. upd f (c\<lparr>ch_text := t\<rparr>) = (upd f c)\<lparr>ch_text := t\<rparr>"
  shows "set_label get upd slot v (c\<lparr>ch_text := t\<rparr>)
    = map_option (\<lambda>c. c\<lparr>ch_text := t\<rparr>) (set_label get upd slot v c)"
proof -
  obtain d i where d: "label c v = (d, i)" by (cases "label c v")
  then have "label (c\<lparr>ch_text := t\<rparr>) v = (d\<lparr>ch_text := t\<rparr>, i)"
    by (auto simp: label_def split: option.splits)
  then show ?thesis using d assms
    by (cases "integer_set U32 (get d) slot i") (simp_all add: set_label_def)
qed

lemma set_properties_over:
  "set_properties (c\<lparr>ch_text := t\<rparr>) slot row = map_option (\<lambda>c. c\<lparr>ch_text := t\<rparr>) (set_properties c slot row)"
  by (cases "column_set (ch_states c) slot (state_bits row)") (simp_all add: set_properties_def)

lemma bind_map_option: "Option.bind (map_option f x) g = Option.bind x (\<lambda>y. g (f y))"
  by (cases x) simp_all

lemma map_option_bind': "map_option f (Option.bind x g) = Option.bind x (\<lambda>y. map_option f (g y))"
  by (cases x) simp_all

lemma set_labels_over:
  "set_labels slot row (c\<lparr>ch_text := t\<rparr>) = map_option (\<lambda>c. c\<lparr>ch_text := t\<rparr>) (set_labels slot row c)"
  unfolding set_labels_def
  by (simp add: set_label_over set_properties_over bind_map_option map_option_bind')

lemma fill_rows_ok:
  assumes "pool_ok p" "wf_chunk slot (over p c)" "ch_pending c = None" "list_all row_ok rows"
    "str_len (tp_text p) + sum_list (map text_need rows) \<le> u32_max"
    "length (ch_labels c) + 3 * length rows \<le> 2 ^ 32"
  shows "\<exists>p' c'. fill_rows slot rows p c = Some (p', c') \<and> wf_chunk (slot + length rows) (over p' c') \<and>
    (\<forall>j < length rows. row_stored (over p' c') (slot + j) (rows ! j)) \<and>
    (\<forall>i < slot. reads_same (over p c) (over p' c') i)"
  using assms
proof (induction rows arbitrary: slot p c)
  case Nil
  then show ?case by (simp add: reads_same_def)
next
  case (Cons row rows)
  have wf: "wf_chunk slot (over p c)" by (rule Cons.prems(2))
  have m: "max slot (Suc slot) = Suc slot" by simp
  have "columns_ok slot (number_columns c)" using wf by (simp add: wf_chunk_def number_columns_def)
  moreover have "row_ok row" using Cons.prems(4) by simp
  ultimately obtain c1 where s1: "set_numbers slot row c = Some c1"
    and n1: "columns_ok (Suc slot) (number_columns c1)" "number_reads c1 slot = map Some (number_values row)"
      "\<And>i. i \<noteq> slot \<Longrightarrow> number_reads c1 i = number_reads c i"
    and c1: "\<exists>d1 d2 d3 d4 d5 d6 d7 d8 d9 d10. c1 = c\<lparr>ch_id := d1, ch_size := d2, ch_modified := d3,
      ch_created := d4, ch_changed := d5, ch_modified_ns := d6, ch_changed_ns := d7, ch_file_id := d8,
      ch_parent_id := d9, ch_flags := d10\<rparr>"
    using set_numbers_ok[of slot c slot row, unfolded m, OF _ order.refl] by blast
  have pending: "ch_pending c1 = None" using c1 Cons.prems(3) by auto
  have form1: "\<exists>d1 d2 d3 d4 d5 d6 d7 d8 d9 d10. over p c1 = (over p c)\<lparr>ch_id := d1, ch_size := d2,
      ch_modified := d3, ch_created := d4, ch_changed := d5, ch_modified_ns := d6, ch_changed_ns := d7,
      ch_file_id := d8, ch_parent_id := d9, ch_flags := d10\<rparr>"
  proof -
    obtain d1 d2 d3 d4 d5 d6 d7 d8 d9 d10 where "c1 = c\<lparr>ch_id := d1, ch_size := d2, ch_modified := d3,
      ch_created := d4, ch_changed := d5, ch_modified_ns := d6, ch_changed_ns := d7, ch_file_id := d8,
      ch_parent_id := d9, ch_flags := d10\<rparr>"
      using c1 by blast
    then have "over p c1 = (over p c)\<lparr>ch_id := d1, ch_size := d2,
      ch_modified := d3, ch_created := d4, ch_changed := d5, ch_modified_ns := d6, ch_changed_ns := d7,
      ch_file_id := d8, ch_parent_id := d9, ch_flags := d10\<rparr>" by simp
    then show ?thesis by blast
  qed
  then have texts: "refs_ok (over p c1)" "texts_len slot (over p c1)"
    using wf refs_ok_numbers[where c = "over p c" and c' = "over p c1" and n = slot] unfolding wf_chunk_def by auto
  have len: "texts_len slot c1" using texts(2) by (simp add: texts_len_def text_columns_def path_columns_def)
  have "str_len (tp_text p) + text_need row \<le> u32_max" using Cons.prems(5) by simp
  then obtain p2 c2 where s2: "row_texts slot row p c1 = Some (p2, c2)" and p2: "pool_ok p2"
    "str_len (tp_text p2) \<le> str_len (tp_text p) + text_need row" "ch_pending c2 = None"
    and t2: "texts_stored slot slot row (over p c1) (over p2 c2)"
    using row_texts_ok[OF Cons.prems(1) texts(1) pending len order.refl] by blast
  have labels: "length (ch_labels (over p c)) + 3 \<le> 2 ^ 32" using Cons.prems(6) by simp
  have n1': "columns_ok (max slot (Suc slot)) (number_columns (over p c1))"
    "number_reads (over p c1) slot = map Some (number_values row)"
    "\<And>i. i \<noteq> slot \<Longrightarrow> number_reads (over p c1) i = number_reads (over p c) i"
    using n1 by (simp_all add: number_columns_def number_reads_def max_def)
  obtain e where e: "set_labels slot row (over p2 c2) = Some e" "wf_chunk (Suc slot) e" "row_stored e slot row"
    "\<And>i. i < slot \<Longrightarrow> reads_same (over p c) e i" "length (ch_labels e) \<le> length (ch_labels c) + 3"
    "ch_pending e = None"
    using store_row_ok[OF wf order.refl labels n1' form1 t2, unfolded m] p2(3) by auto
  obtain c3 where c3: "set_labels slot row c2 = Some c3" "e = over p2 c3"
    using e(1) by (auto simp: set_labels_over)
  obtain p' c' where r: "fill_rows (Suc slot) rows p2 c3 = Some (p', c')"
    "wf_chunk (Suc slot + length rows) (over p' c')"
    "\<forall>j < length rows. row_stored (over p' c') (Suc slot + j) (rows ! j)"
    "\<forall>i < Suc slot. reads_same (over p2 c3) (over p' c') i"
    using Cons.IH[of p2 "Suc slot" c3] p2(1,2) e(2,5,6) c3(2) Cons.prems(4-6) by auto
  have "fill_rows slot (row # rows) p c = Some (p', c')" by (simp add: s1 s2 c3(1) r(1))
  moreover have "row_stored (over p' c') (slot + j) ((row # rows) ! j)" if "j < length (row # rows)" for j
  proof (cases j)
    case 0
    then show ?thesis using reads_same_stored[OF _ e(3)] r(4) c3(2) by simp
  next
    case (Suc k)
    then show ?thesis using r(3) that by simp
  qed
  moreover have "reads_same (over p c) (over p' c') i" if "i < slot" for i
    using e(4)[OF that] r(4) that c3(2) by (simp add: reads_same_def)
  ultimately show ?case using r(2) by auto
qed

lemma intern_all_ok:
  "pool_ok p \<Longrightarrow> str_len (tp_text p) + sum_list (map str_len vs) \<le> u32_max \<Longrightarrow>
   \<exists>q. intern_all p vs = Some q \<and> pool_ok q \<and> str_len (tp_text q) \<le> str_len (tp_text p) + sum_list (map str_len vs)"
proof (induction vs arbitrary: p)
  case (Cons v vs)
  obtain q r where q: "intern p v = Some (q, r)" "pool_ok q" "str_len (tp_text q) \<le> str_len (tp_text p) + str_len v"
    using intern_step[OF Cons.prems(1), of v] Cons.prems(2) by auto
  then show ?case using Cons.IH[OF q(2)] Cons.prems(2) by fastforce
qed simp

lemma intern_prefixes_step:
  assumes "pool_ok p" "str_len (tp_text p) + sum_list (map str_len vs) \<le> u32_max"
  shows "\<exists>q. intern_prefixes p vs = Some q \<and> pool_ok q \<and>
    str_len (tp_text q) \<le> str_len (tp_text p) + sum_list (map str_len vs)"
proof -
  have sub: "sum_list (map str_len (reverse_sorted vs)) \<le> sum_list (map str_len vs)"
  proof -
    have "sum_list (map str_len (remdups_adj xs)) \<le> sum_list (map str_len xs)" for xs
      by (induction xs rule: remdups_adj.induct) auto
    moreover have "sum_list (map str_len (sort_by cmp vs)) = sum_list (map str_len vs)" for cmp
      by (metis mset_map mset_sort_by sum_mset_sum_list)
    ultimately show ?thesis unfolding reverse_sorted_def by (metis (no_types))
  qed
  then obtain q where q: "intern_prefixes p vs = Some q"
    using prefix_loop_total[of p "reverse_sorted vs" None] assms(2) by (auto simp: intern_prefixes_def)
  have "str_len (concat (filter P xs)) \<le> sum_list (map str_len xs)" for P xs
    by (induction xs) (auto simp: str_len_def)
  then show ?thesis using q intern_prefixes_ok[OF assms(1) q] intern_prefixes_text[OF assms(1) q] sub
    by (metis (no_types, lifting) add_le_cancel_left le_trans str_len_append)
qed

definition rows_need :: "file_entry list \<Rightarrow> nat" where
  "rows_need rows = sum_list (map (\<lambda>row. str_len (search_name row)) rows)
    + sum_list (map str_len (concat (map row_prefixes rows))) + sum_list (map text_need rows)"

lemma chunk_from_rows_ok:
  assumes rows: "list_all row_ok rows" and fits: "rows_need rows \<le> u32_max" "3 * length rows \<le> 2 ^ 32"
  shows "\<exists>c. chunk_from_rows rows = Some c \<and> wf_chunk (length rows) c \<and>
    (\<forall>j < length rows. row_stored c j (rows ! j))"
proof -
  have empty: "str_len (tp_text empty_pool) = 0" by (simp add: empty_pool_def str_len_def)
  obtain p1 where p1: "intern_all empty_pool (map search_name rows) = Some p1" "pool_ok p1"
    "str_len (tp_text p1) \<le> sum_list (map (\<lambda>row. str_len (search_name row)) rows)"
    using intern_all_ok[of empty_pool "map search_name rows"] fits(1) empty by (auto simp: rows_need_def comp_def)
  obtain p2 where p2: "intern_prefixes p1 (concat (map row_prefixes rows)) = Some p2" "pool_ok p2"
    "str_len (tp_text p2) \<le> str_len (tp_text p1) + sum_list (map str_len (concat (map row_prefixes rows)))"
    using intern_prefixes_step[OF p1(2), of "concat (map row_prefixes rows)"] fits(1) p1(3)
    by (auto simp: rows_need_def)
  have wf: "wf_chunk 0 (over p2 default_chunk)"
    by (simp add: wf_chunk_def default_chunk_def columns_ok_def number_columns_def label_columns_def
        texts_len_def text_columns_def path_columns_def refs_ok_def chunk_refs_def)
  obtain p3 c where c: "fill_rows 0 rows p2 default_chunk = Some (p3, c)" "wf_chunk (length rows) (over p3 c)"
    "\<forall>j < length rows. row_stored (over p3 c) j (rows ! j)"
    using fill_rows_ok[OF p2(2) wf _ rows] fits p1(3) p2(3) by (auto simp: default_chunk_def rows_need_def)
  have "chunk_from_rows rows = Some (compact_integers (over p3 c))"
    using p1(1) p2(1) c(1) by (simp add: chunk_from_rows_def pool_finish_def)
  then show ?thesis using compact_integers_ok[OF c(2)] c(3) by blast
qed

section \<open>Reclaiming text keeps every row\<close>

definition ranges_ok :: "(nat \<times> nat) list \<Rightarrow> bool" where
  "ranges_ok rs \<longleftrightarrow> sorted_wrt (\<lambda>a b. snd a < fst b) rs \<and> (\<forall>(s, e) \<in> set rs. s < e)"

definition covers :: "(nat \<times> nat) list \<Rightarrow> nat \<times> nat \<Rightarrow> bool" where
  "covers rs x \<longleftrightarrow> (\<exists>r \<in> set rs. fst r \<le> fst x \<and> snd x \<le> snd r)"

lemma ranges_ok_snoc:
  "ranges_ok (rs @ [x]) \<longleftrightarrow> ranges_ok rs \<and> fst x < snd x \<and> (\<forall>y \<in> set rs. snd y < fst x)"
  by (auto simp: ranges_ok_def sorted_wrt_append)

lemma covers_mono: "covers rs y \<Longrightarrow> fst y \<le> fst x \<Longrightarrow> snd x \<le> snd y \<Longrightarrow> covers rs x"
  unfolding covers_def using le_trans by blast

lemma ranges_ok_last:
  assumes "ranges_ok acc" "acc \<noteq> []" "y \<in> set acc"
  shows "snd y \<le> snd (last acc)"
proof -
  obtain A x where acc: "acc = A @ [x]" using assms(2) by (cases acc rule: rev_cases) auto
  then show ?thesis using assms by (auto simp: ranges_ok_snoc)
qed

definition merged :: "(nat \<times> nat) list \<Rightarrow> (nat \<times> nat) list \<Rightarrow> (nat \<times> nat) list \<Rightarrow> bool" where
  "merged acc rs out \<longleftrightarrow> ranges_ok out \<and> (\<forall>x \<in> set acc. covers out x) \<and>
    (\<forall>x \<in> set rs. fst x < snd x \<longrightarrow> covers out x) \<and>
    fst ` set out \<subseteq> fst ` set acc \<union> fst ` set rs \<and> snd ` set out \<subseteq> snd ` set acc \<union> snd ` set rs"

lemma merge_ranges_ok:
  "ranges_ok acc \<Longrightarrow> sorted (map fst rs) \<Longrightarrow> (\<forall>(s, e) \<in> set rs. s \<le> e) \<Longrightarrow>
   (\<forall>a \<in> set acc. \<forall>x \<in> set rs. fst a \<le> fst x) \<Longrightarrow> merged acc rs (merge_ranges acc rs)"
proof (induction acc rs rule: merge_ranges.induct)
  case (1 acc)
  then show ?case by (auto simp: merged_def covers_def)
next
  case (2 acc s e rs)
  note IH = 2(1-3) and prems = 2(4-7)
  consider (empty) "s = e" | (join) "s \<noteq> e" "acc \<noteq> []" "s \<le> snd (last acc)"
    | (new) "s \<noteq> e" "\<not> (acc \<noteq> [] \<and> s \<le> snd (last acc))"
    by blast
  then show ?case
  proof cases
    case empty
    then have "merged acc rs (merge_ranges acc rs)" using IH(1) prems by simp
    then show ?thesis using empty by (auto simp: merged_def)
  next
    case join
    obtain A a b where acc: "acc = A @ [(a, b)]" using join(2) by (cases acc rule: rev_cases) auto
    let ?acc = "A @ [(a, max b e)]"
    let ?out = "merge_ranges ?acc rs"
    have a: "a \<le> s" "s \<le> b" using prems(4) join(3) acc by auto
    have "ranges_ok ?acc" using prems(1) acc by (auto simp: ranges_ok_snoc)
    then have m: "merged ?acc rs ?out"
      using IH(2) join prems acc by auto
    have "covers ?out (a, b)" "covers ?out (s, e)"
      using m a by (auto simp: merged_def intro: covers_mono[of _ "(a, max b e)"])
    then have "merged acc ((s, e) # rs) ?out"
      using m acc unfolding merged_def by (auto simp: max_def split: if_splits)
    moreover have "merge_ranges acc ((s, e) # rs) = ?out" using join acc by simp
    ultimately show ?thesis by simp
  next
    case new
    let ?acc = "acc @ [(s, e)]"
    have "snd y < s" if "y \<in> set acc" for y
      using new(2) that ranges_ok_last[OF prems(1) _ that] by (cases "acc = []") auto
    then have "ranges_ok ?acc" using prems(1,3) new(1) by (auto simp: ranges_ok_snoc)
    then have "merged ?acc rs (merge_ranges ?acc rs)" using IH(3) new prems by auto
    then show ?thesis using new by (auto simp: merged_def)
  qed
qed

interpretation range_order: comparator range_cmp
  unfolding range_cmp_def
  by (rule comparator_then[OF comparator_key[OF prim_comparator.comparator_axioms, of fst]
      comparator_key[OF prim_comparator.comparator_axioms, of snd]])

lemma sorted_ranges: "sorted_by range_cmp xs \<Longrightarrow> sorted (map fst xs)"
  unfolding sorted_by_def sorted_map
  by (rule sorted_wrt_mono_rel[of _ "\<lambda>a b. range_cmp a b \<noteq> Greater"])
     (auto simp: range_cmp_def prim_cmp_def split: if_splits)

lemma live_ranges_merged:
  "merged [] (map (\<lambda>r. (tr_offset r, tr_offset r + tr_length r)) (chunk_refs c)) (live_ranges c)"
proof -
  let ?xs = "map (\<lambda>r. (tr_offset r, tr_offset r + tr_length r)) (chunk_refs c)"
  have "merged [] (sort_by range_cmp ?xs) (live_ranges c)"
    unfolding live_ranges_def
    by (rule merge_ranges_ok) (use sorted_ranges range_order.sorted_by_sort_by in \<open>auto simp: ranges_ok_def\<close>)
  then show ?thesis by (simp add: merged_def)
qed

text \<open>Boundaries: the offsets at which a text may be cut.\<close>

definition boundary :: "str \<Rightarrow> nat \<Rightarrow> bool" where
  "boundary t n \<longleftrightarrow> (\<exists>a b. t = a @ b \<and> str_len a = n)"

lemma str_len_0 [simp]: "str_len s = 0 \<longleftrightarrow> s = []"
  by (simp add: str_len_def)

lemma prefix_by_len:
  assumes "a @ x = b @ y" "str_len a \<le> str_len b"
  shows "\<exists>w. b = a @ w"
proof -
  from assms(1) obtain us where "a = b @ us \<and> us @ x = y \<or> a @ us = b \<and> x = us @ y"
    by (auto simp: append_eq_append_conv2)
  then show ?thesis using assms(2) by auto
qed

lemma text_at_boundaries: "text_at t r = Some v \<Longrightarrow> boundary t (tr_offset r) \<and> boundary t (tr_offset r + tr_length r)"
  unfolding text_at_iff boundary_def by (metis append.assoc str_len_append)

lemma boundaries_text_at:
  assumes "boundary t s" "boundary t e" "s \<le> e"
  shows "\<exists>w. text_at t \<lparr>tr_offset = s, tr_length = e - s\<rparr> = Some w \<and> str_len w = e - s"
proof -
  obtain a x where a: "t = a @ x" "str_len a = s" using assms(1) by (auto simp: boundary_def)
  obtain b y where b: "t = b @ y" "str_len b = e" using assms(2) by (auto simp: boundary_def)
  obtain w where w: "b = a @ w" using prefix_by_len[of a x b y] a b assms(3) by auto
  then have "t = a @ w @ y" "str_len w = e - s" using a b by auto
  then show ?thesis using a by (intro exI[of _ w]) (auto simp: text_at_iff)
qed

text \<open>A reference inside a range, read inside the text of the range.\<close>

lemma text_at_inside:
  assumes v: "text_at t r = Some v" and w: "text_at t \<lparr>tr_offset = s, tr_length = e - s\<rparr> = Some w"
    and inside: "s \<le> tr_offset r" "tr_offset r + tr_length r \<le> e"
  shows "text_at (d @ w @ f) \<lparr>tr_offset = str_len d + tr_offset r - s, tr_length = tr_length r\<rparr> = Some v"
proof -
  obtain a b where a: "t = a @ v @ b" "tr_offset r = str_len a" "tr_length r = str_len v"
    using v by (auto simp: text_at_iff)
  obtain p q where p: "t = p @ w @ q" "s = str_len p" "e - s = str_len w"
    using w by (auto simp: text_at_iff)
  obtain a1 where a1: "a = p @ a1" using prefix_by_len[of p "w @ q" a "v @ b"] a p inside by auto
  have "str_len (p @ a1 @ v) \<le> str_len (p @ w)" using a a1 p inside by simp
  then obtain b1 where b1: "p @ w = (p @ a1 @ v) @ b1"
    using prefix_by_len[of "p @ a1 @ v" b "p @ w" q] a(1) a1 p(1) by auto
  then have "d @ w @ f = (d @ a1) @ v @ (b1 @ f)" by simp
  then show ?thesis unfolding text_at_iff using a a1 p by (intro exI[of _ "d @ a1"] exI[of _ "b1 @ f"]) simp
qed

definition range_bytes :: "(nat \<times> nat) list \<Rightarrow> nat" where
  "range_bytes rs = sum_list (map (\<lambda>(s, e). e - s) rs)"

lemma relocated_append: "relocated n (xs @ ys) = relocated n xs @ relocated (n + range_bytes xs) ys"
  by (induction n xs rule: relocated.induct) (auto simp: range_bytes_def add.assoc)

lemma length_relocated [simp]: "length (relocated n rs) = length rs"
  by (induction n rs rule: relocated.induct) auto

lemma fst_relocated: "map fst (relocated n rs) = map fst rs"
  by (induction n rs rule: relocated.induct) auto

lemma live_text_total:
  "(\<forall>(s, e) \<in> set rs. s \<le> e \<and> boundary t s \<and> boundary t e) \<Longrightarrow>
   \<exists>u. live_text t rs = Some u \<and> str_len u = range_bytes rs"
proof (induction t rs rule: live_text.induct)
  case (2 t s e rs)
  obtain w where w: "text_at t \<lparr>tr_offset = s, tr_length = e - s\<rparr> = Some w" "str_len w = e - s"
    using boundaries_text_at[of t s e] 2(2) by auto
  obtain u where "live_text t rs = Some u" "str_len u = range_bytes rs" using 2 w(1) by auto
  then show ?case using w by (simp add: range_bytes_def)
qed (simp add: range_bytes_def)

lemma live_text_split:
  "live_text t (xs @ (s, e) # ys) = Some u \<Longrightarrow>
   \<exists>a w b. u = a @ w @ b \<and> live_text t xs = Some a \<and> text_at t \<lparr>tr_offset = s, tr_length = e - s\<rparr> = Some w"
proof (induction t xs arbitrary: u rule: live_text.induct)
  case (2 t s' e' xs)
  then show ?case by (fastforce split: bind_splits)
qed (auto split: bind_splits)

lemma live_text_len: "live_text t rs = Some u \<Longrightarrow> str_len u = range_bytes rs"
proof (induction t rs arbitrary: u rule: live_text.induct)
  case (2 t s e rs)
  obtain v vs where v: "text_at t \<lparr>tr_offset = s, tr_length = e - s\<rparr> = Some v" "live_text t rs = Some vs"
    "u = v @ vs"
    using 2(2) by (auto split: bind_splits)
  moreover have "str_len v = e - s" using v(1) unfolding text_at_iff by auto
  ultimately show ?case using 2(1)[OF v(1,2)] by (simp add: range_bytes_def)
qed (simp add: range_bytes_def)

lemma relocate_ok:
  assumes rs: "ranges_ok rs" and live: "live_text t rs = Some u" and bound: "str_len u \<le> u32_max"
    and v: "text_at t r = Some v"
    and cov: "tr_length r > 0 \<Longrightarrow> covers rs (tr_offset r, tr_offset r + tr_length r)"
  shows "\<exists>r'. relocate (relocated 0 rs) r = Some r' \<and> text_at u r' = Some v"
proof (cases "tr_length r = 0")
  case True
  then have "v = []" using v by (auto simp: text_at_iff)
  then show ?thesis using True by (simp add: relocate_def)
next
  case False
  then obtain s e where se: "(s, e) \<in> set rs" "s \<le> tr_offset r" "tr_offset r + tr_length r \<le> e"
    using cov by (auto simp: covers_def)
  then obtain xs ys where split: "rs = xs @ (s, e) # ys" by (meson split_list)
  obtain a w b where u: "u = a @ w @ b" "live_text t xs = Some a"
    "text_at t \<lparr>tr_offset = s, tr_length = e - s\<rparr> = Some w"
    using live_text_split[of t xs s e ys u] live split by auto
  have a: "str_len a = range_bytes xs" by (rule live_text_len[OF u(2)])
  let ?moved = "relocated 0 xs @ (s, str_len a) # relocated (str_len a + (e - s)) ys"
  have moved: "relocated 0 rs = ?moved" by (simp add: split relocated_append a)
  have order: "\<forall>x \<in> set xs. snd x < s" "\<forall>y \<in> set ys. e < fst y"
    using rs by (auto simp: ranges_ok_def split sorted_wrt_append)
  have "\<forall>x \<in> set xs. fst x < snd x" using rs by (auto simp: ranges_ok_def split)
  then have starts: "\<forall>x \<in> set xs. fst x \<le> tr_offset r" "\<forall>y \<in> set ys. tr_offset r < fst y"
    using order se(2,3) by (meson le_trans less_imp_le_nat, meson add_leD1 le_less_trans)
  have "partition_point (\<lambda>(s, _). s \<le> tr_offset r) ?moved = Suc (length xs)"
  proof -
    have "fst ` set (relocated 0 xs) = fst ` set xs" "\<And>n. fst ` set (relocated n ys) = fst ` set ys"
      using fst_relocated by (metis list.set_map)+
    then have below: "\<forall>x \<in> set (relocated 0 xs). fst x \<le> tr_offset r"
      and above: "\<forall>y \<in> set (relocated (str_len a + (e - s)) ys). tr_offset r < fst y"
      using starts by (metis (no_types, lifting) image_iff)+
    have "takeWhile (\<lambda>(s, _). s \<le> tr_offset r) ?moved
        = relocated 0 xs @ takeWhile (\<lambda>(s, _). s \<le> tr_offset r) ((s, str_len a) # relocated (str_len a + (e - s)) ys)"
      by (rule takeWhile_append2) (use below in auto)
    also have "\<dots> = relocated 0 xs @ [(s, str_len a)]"
      using se(2) above by (cases "relocated (str_len a + (e - s)) ys") auto
    finally have "takeWhile (\<lambda>(s, _). s \<le> tr_offset r) ?moved = relocated 0 xs @ [(s, str_len a)]" .
    then show ?thesis by (simp add: partition_point_def)
  qed
  moreover have "?moved ! length xs = (s, str_len a)" by (simp add: nth_append)
  moreover have "text_at u \<lparr>tr_offset = str_len a + tr_offset r - s, tr_length = tr_length r\<rparr> = Some v"
    unfolding u(1) by (rule text_at_inside[OF v u(3) se(2,3)])
  moreover have "str_len a + tr_offset r - s \<le> u32_max"
    using calculation(3) bound by (auto simp: text_at_iff)
  ultimately show ?thesis using False by (simp add: relocate_def moved)
qed

lemma map_all_Some:
  "(\<And>x. x \<in> set xs \<Longrightarrow> \<exists>y. f x = Some y \<and> Q x y) \<Longrightarrow> \<exists>ys. map_all f xs = Some ys \<and> list_all2 Q xs ys"
proof (induction xs)
  case (Cons x xs)
  obtain y where "f x = Some y" "Q x y" using Cons.prems[of x] by auto
  moreover obtain ys where "map_all f xs = Some ys" "list_all2 Q xs ys" using Cons by auto
  ultimately show ?case by simp
qed simp

lemma text_read_moved:
  assumes "list_all2 (\<lambda>r r'. text_at u r' = text_at t r) (column_values col) ys"
  shows "text_read u (Owned ys) i = text_read t col i"
  using assms by (auto simp: text_read_def slice_get_def list_all2_conv_all_nth)

lemma path_read_moved:
  assumes "list_all2 (\<lambda>r r'. path_at u r' = path_at t r) (column_values col) ys"
  shows "path_read u (Owned ys) i = path_read t col i"
  using assms by (auto simp: path_read_def slice_get_def list_all2_conv_all_nth)

lemma list_all2_source: "list_all2 P xs ys \<Longrightarrow> y \<in> set ys \<Longrightarrow> \<exists>x \<in> set xs. P x y"
  by (induction rule: list_all2_induct) auto

lemma chunk_refs_text: "col \<in> set (text_columns c) \<Longrightarrow> r \<in> set (column_values col) \<Longrightarrow> r \<in> set (chunk_refs c)"
  by (auto simp: text_columns_def chunk_refs_def)

lemma chunk_refs_path:
  "col \<in> set (path_columns c) \<Longrightarrow> p \<in> set (column_values col) \<Longrightarrow>
   pr_prefix p \<in> set (chunk_refs c) \<and> pr_suffix p \<in> set (chunk_refs c)"
  by (auto simp: path_columns_def chunk_refs_def)

lemma list_all2_refs:
  assumes "list_all2 (\<lambda>r r'. text_at u r' = text_at t r) xs ys" "\<And>r. r \<in> set xs \<Longrightarrow> text_at t r \<noteq> None"
  shows "\<forall>r \<in> set ys. text_at u r \<noteq> None"
proof
  fix r assume "r \<in> set ys"
  then obtain r0 where "r0 \<in> set xs" "text_at u r = text_at t r0"
    using list_all2_source[OF assms(1)] by blast
  then show "text_at u r \<noteq> None" using assms(2) by simp
qed

lemma list_all2_path_refs:
  assumes "list_all2 (\<lambda>r r'. path_at u r' = path_at t r) xs ys" "\<And>r. r \<in> set xs \<Longrightarrow> path_at t r \<noteq> None"
  shows "\<forall>r \<in> set ys. text_at u (pr_prefix r) \<noteq> None \<and> text_at u (pr_suffix r) \<noteq> None"
proof
  fix r assume "r \<in> set ys"
  then obtain r0 where "r0 \<in> set xs" "path_at u r = path_at t r0"
    using list_all2_source[OF assms(1)] by blast
  then have "path_at u r \<noteq> None" using assms(2) by simp
  then show "text_at u (pr_prefix r) \<noteq> None \<and> text_at u (pr_suffix r) \<noteq> None"
    by (auto simp: path_at_def split: bind_splits)
qed

lemma compact_text_ok:
  assumes wf: "wf_chunk n c" and small: "range_bytes (live_ranges c) \<le> u32_max"
  shows "\<exists>c'. compact_text (live_ranges c) c = Some c' \<and> wf_chunk n c' \<and> (\<forall>i. reads_same c c' i) \<and>
    str_len (ch_text c') = range_bytes (live_ranges c) \<and> ch_section c' = None"
proof -
  let ?t = "ch_text c" and ?rs = "live_ranges c"
  let ?moved = "relocated 0 ?rs"
  note W = wf[unfolded wf_chunk_def]
  have refs: "text_at ?t r \<noteq> None" if "r \<in> set (chunk_refs c)" for r
    using W that by (auto simp: refs_ok_def)
  note M = live_ranges_merged[of c, unfolded merged_def, simplified]
  have "s \<le> e \<and> boundary ?t s \<and> boundary ?t e" if "(s, e) \<in> set ?rs" for s e
  proof -
    have "s < e" using M that by (auto simp: ranges_ok_def)
    moreover have "s \<in> tr_offset ` set (chunk_refs c)" "e \<in> (\<lambda>r. tr_offset r + tr_length r) ` set (chunk_refs c)"
      using M that by (force simp: image_image)+
    ultimately show ?thesis using refs text_at_boundaries by fastforce
  qed
  then obtain u where u: "live_text ?t ?rs = Some u" "str_len u = range_bytes ?rs"
    using live_text_total[of ?rs ?t] by auto
  have move: "\<exists>r'. relocate ?moved r = Some r' \<and> text_at u r' = text_at ?t r" if mem: "r \<in> set (chunk_refs c)" for r
  proof -
    obtain v where v: "text_at ?t r = Some v" using refs[OF mem] by auto
    have "tr_length r > 0 \<Longrightarrow> covers ?rs (tr_offset r, tr_offset r + tr_length r)" using M mem by auto
    then show ?thesis using relocate_ok[OF _ u(1) _ v] M u(2) small v by auto
  qed
  have move_path: "\<exists>p'. relocate_path ?moved p = Some p' \<and> path_at u p' = path_at ?t p"
    if p: "pr_prefix p \<in> set (chunk_refs c)" "pr_suffix p \<in> set (chunk_refs c)" for p
    using move[OF p(1)] move[OF p(2)] by (auto simp: relocate_path_def path_at_def)
  have texts: "\<exists>ys. map_all (relocate ?moved) (column_values col) = Some ys \<and>
      list_all2 (\<lambda>r r'. text_at u r' = text_at ?t r) (column_values col) ys"
    if "col \<in> set (text_columns c)" for col
    by (rule map_all_Some) (use move chunk_refs_text[OF that] in blast)
  have paths: "\<exists>ys. map_all (relocate_path ?moved) (column_values col) = Some ys \<and>
      list_all2 (\<lambda>r r'. path_at u r' = path_at ?t r) (column_values col) ys"
    if "col \<in> set (path_columns c)" for col
    by (rule map_all_Some) (use move_path chunk_refs_path[OF that] in blast)
  obtain k1 where k1: "map_all (relocate ?moved) (column_values (ch_name c)) = Some k1"
    "list_all2 (\<lambda>r r'. text_at u r' = text_at ?t r) (column_values (ch_name c)) k1"
    using texts[of "ch_name c"] by (auto simp: text_columns_def)
  obtain k2 where k2: "map_all (relocate ?moved) (column_values (ch_folded_name c)) = Some k2"
    "list_all2 (\<lambda>r r'. text_at u r' = text_at ?t r) (column_values (ch_folded_name c)) k2"
    using texts[of "ch_folded_name c"] by (auto simp: text_columns_def)
  obtain k3 where k3: "map_all (relocate ?moved) (column_values (ch_search_name c)) = Some k3"
    "list_all2 (\<lambda>r r'. text_at u r' = text_at ?t r) (column_values (ch_search_name c)) k3"
    using texts[of "ch_search_name c"] by (auto simp: text_columns_def)
  obtain k4 where k4: "map_all (relocate ?moved) (column_values (ch_parent c)) = Some k4"
    "list_all2 (\<lambda>r r'. text_at u r' = text_at ?t r) (column_values (ch_parent c)) k4"
    using texts[of "ch_parent c"] by (auto simp: text_columns_def)
  obtain k5 where k5: "map_all (relocate_path ?moved) (column_values (ch_path c)) = Some k5"
    "list_all2 (\<lambda>r r'. path_at u r' = path_at ?t r) (column_values (ch_path c)) k5"
    using paths[of "ch_path c"] by (auto simp: path_columns_def)
  obtain k6 where k6: "map_all (relocate_path ?moved) (column_values (ch_folded_path c)) = Some k6"
    "list_all2 (\<lambda>r r'. path_at u r' = path_at ?t r) (column_values (ch_folded_path c)) k6"
    using paths[of "ch_folded_path c"] by (auto simp: path_columns_def)
  obtain k7 where k7: "map_all (relocate_path ?moved) (column_values (ch_search_path c)) = Some k7"
    "list_all2 (\<lambda>r r'. path_at u r' = path_at ?t r) (column_values (ch_search_path c)) k7"
    using paths[of "ch_search_path c"] by (auto simp: path_columns_def)
  define c' where "c' = c\<lparr>ch_name := Owned k1, ch_folded_name := Owned k2, ch_search_name := Owned k3,
      ch_parent := Owned k4, ch_path := Owned k5, ch_folded_path := Owned k6, ch_search_path := Owned k7,
      ch_text := u, ch_pending := None, ch_section := None\<rparr>"
  have "compact_text ?rs c = Some c'"
    unfolding compact_text_def c'_def by (simp add: u(1) k1(1) k2(1) k3(1) k4(1) k5(1) k6(1) k7(1))
  moreover have same: "reads_same c c' i" for i
  proof -
    have "property_read c' i = property_read c i"
      by (rule property_read_cong) (simp_all add: c'_def state_read_def)
    moreover have "text_reads c' i = text_reads c i" "path_reads c' i = path_reads c i"
      using text_read_moved[OF k1(2)] text_read_moved[OF k2(2)] text_read_moved[OF k3(2)] text_read_moved[OF k4(2)]
        path_read_moved[OF k5(2)] path_read_moved[OF k6(2)] path_read_moved[OF k7(2)]
      by (simp_all add: reads_defs c'_def)
    ultimately show ?thesis
      by (simp add: reads_same_def c'_def number_reads_def number_columns_def label_reads_def label_columns_def
          state_read_def)
  qed
  moreover have "wf_chunk n c'"
  proof -
    have "texts_len n c'"
      using W k1(2) k2(2) k3(2) k4(2) k5(2) k6(2) k7(2)
      by (auto simp: texts_len_def text_columns_def path_columns_def c'_def dest!: list_all2_lengthD)
    moreover have "refs_ok c'"
    proof -
      have T: "\<And>col r. col \<in> set (text_columns c) \<Longrightarrow> r \<in> set (column_values col) \<Longrightarrow> text_at ?t r \<noteq> None"
        using refs chunk_refs_text by blast
      have P: "\<And>col r. col \<in> set (path_columns c) \<Longrightarrow> r \<in> set (column_values col) \<Longrightarrow> path_at ?t r \<noteq> None"
        using W path_column.path_at_refs folded_path_column.path_at_refs search_path_column.path_at_refs
        by (auto simp: path_columns_def)
      have "\<forall>r \<in> set k1. text_at u r \<noteq> None"
        by (rule list_all2_refs[OF k1(2)], rule T[of "ch_name c"]) (simp_all add: text_columns_def)
      moreover have "\<forall>r \<in> set k2. text_at u r \<noteq> None"
        by (rule list_all2_refs[OF k2(2)], rule T[of "ch_folded_name c"]) (simp_all add: text_columns_def)
      moreover have "\<forall>r \<in> set k3. text_at u r \<noteq> None"
        by (rule list_all2_refs[OF k3(2)], rule T[of "ch_search_name c"]) (simp_all add: text_columns_def)
      moreover have "\<forall>r \<in> set k4. text_at u r \<noteq> None"
        by (rule list_all2_refs[OF k4(2)], rule T[of "ch_parent c"]) (simp_all add: text_columns_def)
      moreover have "\<forall>r \<in> set k5. text_at u (pr_prefix r) \<noteq> None \<and> text_at u (pr_suffix r) \<noteq> None"
        by (rule list_all2_path_refs[OF k5(2)], rule P[of "ch_path c"]) (simp_all add: path_columns_def)
      moreover have "\<forall>r \<in> set k6. text_at u (pr_prefix r) \<noteq> None \<and> text_at u (pr_suffix r) \<noteq> None"
        by (rule list_all2_path_refs[OF k6(2)], rule P[of "ch_folded_path c"]) (simp_all add: path_columns_def)
      moreover have "\<forall>r \<in> set k7. text_at u (pr_prefix r) \<noteq> None \<and> text_at u (pr_suffix r) \<noteq> None"
        by (rule list_all2_path_refs[OF k7(2)], rule P[of "ch_search_path c"]) (simp_all add: path_columns_def)
      ultimately show ?thesis by (auto simp: refs_ok_def chunk_refs_def c'_def)
    qed
    moreover have "columns_ok n (number_columns c')" "columns_ok n (label_columns c')"
      "length (column_values (ch_states c')) = n"
      using W by (simp_all add: c'_def number_columns_def label_columns_def)
    ultimately show ?thesis using W same by (simp add: wf_chunk_def reads_same_def)
  qed
  ultimately show ?thesis using u(2) by (auto simp: c'_def)
qed

lemma reclaim_text_ok:
  assumes "wf_chunk n c" "str_len (ch_text c) \<le> u32_max"
  shows "\<exists>c'. reclaim_text c = Some c' \<and> wf_chunk n c' \<and> (\<forall>i. reads_same c c' i) \<and>
    str_len (ch_text c') \<le> str_len (ch_text c) \<and>
    str_len (ch_text c') \<le> 2 * range_bytes (live_ranges c)"
proof (cases "str_len (ch_text c) - range_bytes (live_ranges c) > range_bytes (live_ranges c)")
  case True
  then have "range_bytes (live_ranges c) \<le> u32_max" using assms(2) by simp
  from compact_text_ok[OF assms(1) this] obtain c' where "compact_text (live_ranges c) c = Some c'"
    "wf_chunk n c'" "\<forall>i. reads_same c c' i" "str_len (ch_text c') = range_bytes (live_ranges c)"
    by auto
  moreover have "range_bytes (live_ranges c) \<le> str_len (ch_text c)" using True by simp
  ultimately show ?thesis using True unfolding reclaim_text_def Let_def range_bytes_def[symmetric] by simp
next
  case False
  then show ?thesis using assms by (simp add: reclaim_text_def Let_def range_bytes_def reads_same_def)
qed

section \<open>Properties\<close>

text \<open>A block built from a batch of rows is well formed and reads back every row of the batch in every
  field; building succeeds while the texts fit 32-bit offsets.\<close>

lemma chunk_from_rows_reads_rows:
  assumes "list_all row_ok rows" "rows_need rows \<le> u32_max" "3 * length rows \<le> 2 ^ 32"
  shows "\<exists>c. chunk_from_rows rows = Some c \<and> wf_chunk (length rows) c \<and>
    (\<forall>j < length rows. map_option to_owned_file (chunk_view c j) = Some (to_owned_file (rows ! j)))"
  using chunk_from_rows_ok[OF assms] row_stored_view by blast



end
