(* ===== verification/Entry_Table.thy ===== *)
theory Entry_Table
  imports Entry_Build
begin

text \<open>
  The entry table, \<open>EntryTable\<close> of \<open>core/src/entry_table.rs\<close>: rows at stable slots in blocks of 4096, with the
  blocks that changed since the last publication. Sets of block numbers (roaring bitmaps) are sets and are
  visited in ascending order; the checkpoints of the CPU executor do not show. A panic is \<open>None\<close>, an error
  value \<open>Some (Inl _)\<close>.
\<close>

section \<open>The table\<close>

definition chunk_length :: nat where "chunk_length = 4096"

record entry_table =
  et_chunks :: "entry_chunk list"
  et_length :: nat
  et_text_changes :: "nat set"
  et_changed_blocks :: "nat set"

definition empty_table :: entry_table where
  "empty_table = \<lparr>et_chunks = [], et_length = 0, et_text_changes = {}, et_changed_blocks = {}\<rparr>"

definition table_get :: "entry_table \<Rightarrow> nat \<Rightarrow> (entry_chunk \<times> nat) option" where
  "table_get t slot = (if slot < et_length t
    then map_option (\<lambda>c. (c, slot mod chunk_length)) (slice_get (et_chunks t) (slot div chunk_length))
    else None)"

definition table_row :: "entry_table \<Rightarrow> nat \<Rightarrow> file_entry option" where
  "table_row t slot = Option.bind (table_get t slot) (\<lambda>(c, i). chunk_view c i)"

definition table_last :: "entry_table \<Rightarrow> (entry_chunk \<times> nat) option" where
  "table_last t = (if et_length t = 0 then None else table_get t (et_length t - 1))"

definition table_iter :: "entry_table \<Rightarrow> (entry_chunk \<times> nat) list" where
  "table_iter t = concat (map (\<lambda>c. map (\<lambda>i. (c, i)) [0..<chunk_len c]) (et_chunks t))"

definition table_push :: "entry_table \<Rightarrow> file_entry \<Rightarrow> entry_table option" where
  "table_push t row =
    (let chunks = (if et_length t mod chunk_length = 0 then et_chunks t @ [default_chunk] else et_chunks t);
         block = et_length t div chunk_length in
     if chunks = [] then None else do {
       c \<leftarrow> chunk_set (last chunks) (et_length t mod chunk_length) row;
       Some (t\<lparr>et_chunks := butlast chunks @ [c], et_text_changes := insert block (et_text_changes t),
         et_changed_blocks := insert block (et_changed_blocks t), et_length := et_length t + 1\<rparr>) })"

definition table_set :: "entry_table \<Rightarrow> nat \<Rightarrow> file_entry \<Rightarrow> entry_table option" where
  "table_set t slot row =
    (if slot < et_length t then do {
       let block = slot div chunk_length;
       old \<leftarrow> slice_get (et_chunks t) block;
       c \<leftarrow> chunk_set old (slot mod chunk_length) row;
       Some (t\<lparr>et_chunks := (et_chunks t)[block := c],
         et_changed_blocks := insert block (et_changed_blocks t),
         et_text_changes := (if str_len (ch_text c) \<noteq> str_len (ch_text old)
           then insert block (et_text_changes t) else et_text_changes t)\<rparr>) }
     else None)"

fun update_blocks :: "(entry_chunk \<Rightarrow> entry_chunk option) \<Rightarrow> nat list \<Rightarrow> entry_chunk list \<Rightarrow> entry_chunk list option" where
  "update_blocks f [] cs = Some cs"
| "update_blocks f (i # is) cs = do {
    old \<leftarrow> slice_get cs i;
    c \<leftarrow> f old;
    update_blocks f is (cs[i := c]) }"

definition table_finish_update :: "entry_table \<Rightarrow> entry_table option" where
  "table_finish_update t =
    (if et_changed_blocks t = {} then Some t else do {
       cs \<leftarrow> update_blocks reclaim_text (sorted_list_of_set (et_text_changes t)) (et_chunks t);
       cs \<leftarrow> update_blocks (\<lambda>c. Some (compact_integers c)) (sorted_list_of_set (et_changed_blocks t)) cs;
       Some (t\<lparr>et_chunks := cs, et_text_changes := {}, et_changed_blocks := {}\<rparr>) })"

fun from_rows_loop :: "entry_table \<Rightarrow> file_entry list \<Rightarrow> file_entry result list \<Rightarrow> entry_table result option" where
  "from_rows_loop t batch [] =
    (if batch = [] then Some (Inr t) else do {
       c \<leftarrow> chunk_from_rows batch;
       Some (Inr (t\<lparr>et_length := et_length t + length batch, et_chunks := et_chunks t @ [c]\<rparr>)) })"
| "from_rows_loop t batch (row # rows) =
    (if et_length t + length batch \<ge> u32_max then Some (Inl ''snapshot_slot_overflow'')
     else case row of
       Inl e \<Rightarrow> Some (Inl e)
     | Inr r \<Rightarrow>
         if length (batch @ [r]) = chunk_length then do {
           c \<leftarrow> chunk_from_rows (batch @ [r]);
           from_rows_loop (t\<lparr>et_length := et_length t + length (batch @ [r]), et_chunks := et_chunks t @ [c]\<rparr>) [] rows }
         else from_rows_loop t (batch @ [r]) rows)"

definition table_from_rows :: "file_entry result list \<Rightarrow> entry_table result option" where
  "table_from_rows rows = from_rows_loop empty_table [] rows"

definition table_from_chunks :: "entry_chunk list \<Rightarrow> entry_table option" where
  "table_from_chunks cs =
    (let len = sum_list (map chunk_len cs) in
     if len > u32_max \<or> list_ex (\<lambda>(i, c). chunk_len c = 0 \<or> chunk_len c > chunk_length
         \<or> (i + 1 < length cs \<and> chunk_len c \<noteq> chunk_length)) (enumerate 0 cs)
     then None
     else Some \<lparr>et_chunks = cs, et_length = len, et_text_changes = {}, et_changed_blocks = {}\<rparr>)"

section \<open>The table as a list of rows\<close>

definition block_rows :: "nat \<Rightarrow> nat \<Rightarrow> nat" where
  "block_rows len i = min chunk_length (len - chunk_length * i)"

definition wf_table :: "entry_table \<Rightarrow> bool" where
  "wf_table t \<longleftrightarrow> length (et_chunks t) = (et_length t + (chunk_length - 1)) div chunk_length \<and>
    (\<forall>i < length (et_chunks t). wf_chunk (block_rows (et_length t) i) (et_chunks t ! i)) \<and>
    et_text_changes t \<subseteq> {..<length (et_chunks t)} \<and> et_changed_blocks t \<subseteq> {..<length (et_chunks t)}"

definition table_rows :: "entry_table \<Rightarrow> file_entry list" where
  "table_rows t = map (\<lambda>i. to_owned_file (the (table_row t i))) [0..<et_length t]"

lemma chunk_length_pos [simp]: "0 < chunk_length"
  by (simp add: chunk_length_def)

lemma length_table_rows [simp]: "length (table_rows t) = et_length t"
  by (simp add: table_rows_def)

lemma div_ceil_less: "0 < k \<Longrightarrow> q * k < n \<Longrightarrow> q < (n + (k - 1)) div (k :: nat)"
proof -
  assume "0 < k" "q * k < n"
  then have "Suc q * k \<le> n + (k - 1)" by simp
  then show ?thesis using \<open>0 < k\<close> by (simp add: less_eq_div_iff_mult_less_eq flip: Suc_le_eq)
qed

lemma block_index:
  assumes "wf_table t" "slot < et_length t"
  shows "slot div chunk_length < length (et_chunks t)"
    "slot mod chunk_length < block_rows (et_length t) (slot div chunk_length)"
proof -
  let ?q = "slot div chunk_length" and ?r = "slot mod chunk_length"
  have eq: "?q * chunk_length + ?r = slot" by simp
  then have "?q * chunk_length < et_length t" using assms(2) by linarith
  then show "?q < length (et_chunks t)" 
    using assms(1) div_ceil_less[OF chunk_length_pos, of ?q "et_length t"] by (simp add: wf_table_def)
  have "?r < chunk_length" by simp
  moreover have "?r < et_length t - chunk_length * ?q" 
    using eq assms(2) by (metis add.commute less_diff_conv mult.commute)
  ultimately show "?r < block_rows (et_length t) ?q" by (simp add: block_rows_def)
qed

lemma table_row_at:
  assumes "wf_table t" "slot < et_length t"
  shows "table_row t slot = chunk_view (et_chunks t ! (slot div chunk_length)) (slot mod chunk_length)"
  using block_index[OF assms] assms(2) by (simp add: table_row_def table_get_def slice_get_def)

lemma table_row_Some:
  assumes "wf_table t" "slot < et_length t"
  shows "\<exists>f. table_row t slot = Some f"
proof -
  have "wf_chunk (block_rows (et_length t) (slot div chunk_length)) (et_chunks t ! (slot div chunk_length))"
    using assms(1) block_index(1)[OF assms] by (simp add: wf_table_def)
  from wf_chunk_view[OF this block_index(2)[OF assms]] show ?thesis by (simp add: table_row_at[OF assms])
qed

lemma table_rows_nth: "i < et_length t \<Longrightarrow> table_rows t ! i = to_owned_file (the (table_row t i))"
  by (simp add: table_rows_def)

lemma div_ceil: "0 < k \<Longrightarrow> (n + (k - 1)) div k = n div k + of_bool (n mod k \<noteq> 0)" for n k :: nat
proof -
  assume k: "0 < k"
  have "(n + (k - 1)) div k = (n div k * k + (n mod k + (k - 1))) div k" by (simp add: add.assoc[symmetric])
  also have "\<dots> = n div k + (n mod k + (k - 1)) div k" by (rule div_mult_self3) (use k in simp)
  also have "(n mod k + (k - 1)) div k = of_bool (n mod k \<noteq> 0)"
  proof (cases "n mod k = 0")
    case False
    have r: "n mod k < k" using k by simp
    have "(n mod k + (k - 1)) div k = 1" by (rule div_nat_eqI) (use False r in simp_all)
    then show ?thesis using False by simp
  qed (use k in simp)
  finally show ?thesis .
qed

lemma block_rows_full: "i < n div chunk_length \<Longrightarrow> block_rows n i = chunk_length"
proof -
  assume "i < n div chunk_length"
  then have "Suc i * chunk_length \<le> n" using less_eq_div_iff_mult_less_eq[OF chunk_length_pos] Suc_le_eq by metis
  then show ?thesis by (simp add: block_rows_def mult.commute)
qed

lemma block_rows_last: "block_rows n (n div chunk_length) = n mod chunk_length"
  using mod_less_divisor[OF chunk_length_pos, of n] by (simp add: block_rows_def minus_mult_div_eq_mod)

text \<open>What a change of the blocks leaves as the list of rows.\<close>

lemma table_rows_eqI:
  assumes "et_length t = length rows"
    "\<And>i. i < length rows \<Longrightarrow> map_option to_owned_file (table_row t i) = Some (rows ! i)"
  shows "table_rows t = rows"
proof (rule nth_equalityI)
  fix i assume "i < length (table_rows t)"
  then show "table_rows t ! i = rows ! i" using assms(2)[of i] assms(1) by (auto simp: table_rows_nth)
qed (use assms(1) in simp)

lemma table_row_owned:
  "wf_table t \<Longrightarrow> i < et_length t \<Longrightarrow> map_option to_owned_file (table_row t i) = Some (table_rows t ! i)"
  using table_row_Some by (fastforce simp: table_rows_nth)

definition block_at :: "entry_table \<Rightarrow> nat \<Rightarrow> entry_chunk" where
  "block_at t slot = (if slot div chunk_length < length (et_chunks t)
    then et_chunks t ! (slot div chunk_length) else default_chunk)"

definition has_space :: "entry_table \<Rightarrow> nat \<Rightarrow> file_entry \<Rightarrow> bool" where
  "has_space t slot row \<longleftrightarrow> str_len (ch_text (block_at t slot)) + text_need row \<le> u32_max \<and>
    length (ch_labels (block_at t slot)) + 3 \<le> 2 ^ 32"

lemma table_set_ok:
  assumes wf: "wf_table t" and slot: "slot < et_length t" and row: "row_ok row" and space: "has_space t slot row"
  shows "\<exists>t'. table_set t slot row = Some t' \<and> wf_table t' \<and>
    table_rows t' = (table_rows t)[slot := to_owned_file row]"
proof -
  let ?q = "slot div chunk_length" and ?r = "slot mod chunk_length"
  let ?n = "block_rows (et_length t) ?q"
  note idx = block_index[OF wf slot]
  have old: "wf_chunk ?n (et_chunks t ! ?q)" using wf idx by (simp add: wf_table_def)
  obtain c where c: "chunk_set (et_chunks t ! ?q) ?r row = Some c" "wf_chunk ?n c" "row_stored c ?r row"
    "\<And>i. i < ?n \<Longrightarrow> i \<noteq> ?r \<Longrightarrow> reads_same (et_chunks t ! ?q) c i"
    using chunk_set_ok[OF old less_imp_le[OF idx(2)] row] space idx
    by (auto simp: has_space_def block_at_def max_absorb1)
  define t' where "t' = t\<lparr>et_chunks := (et_chunks t)[?q := c], et_changed_blocks := insert ?q (et_changed_blocks t),
    et_text_changes := (if str_len (ch_text c) \<noteq> str_len (ch_text (et_chunks t ! ?q))
      then insert ?q (et_text_changes t) else et_text_changes t)\<rparr>"
  have t': "table_set t slot row = Some t'" "et_chunks t' = (et_chunks t)[?q := c]"
    "et_length t' = et_length t" "et_changed_blocks t' = insert ?q (et_changed_blocks t)"
    "et_text_changes t' \<subseteq> insert ?q (et_text_changes t)"
    using slot idx(1) c(1) by (auto simp: t'_def table_set_def slice_get_def Let_def)
  have wf': "wf_table t'"
    using wf idx(1) c(2) t' unfolding wf_table_def by (auto simp: nth_list_update)
  have "table_rows t' = (table_rows t)[slot := to_owned_file row]"
  proof (rule table_rows_eqI)
    fix i assume "i < length ((table_rows t)[slot := to_owned_file row])"
    then have i: "i < et_length t" by simp
    have view: "table_row t' i = chunk_view ((et_chunks t)[?q := c] ! (i div chunk_length)) (i mod chunk_length)"
      using table_row_at[OF wf'] i t' by simp
    consider "i = slot" | "i \<noteq> slot" "i div chunk_length \<noteq> ?q" | "i \<noteq> slot" "i div chunk_length = ?q" by blast
    then show "map_option to_owned_file (table_row t' i) = Some ((table_rows t)[slot := to_owned_file row] ! i)"
    proof cases
      case 1
      then show ?thesis using view idx(1) slot row_stored_view[OF c(3)] by simp
    next
      case 2
      then show ?thesis using view table_row_at[OF wf i] table_row_owned[OF wf i] by simp
    next
      case 3
      then have "i mod chunk_length \<noteq> ?r" by (metis div_mult_mod_eq)
      then have "chunk_view c (i mod chunk_length) = chunk_view (et_chunks t ! ?q) (i mod chunk_length)"
        using c(4) block_index(2)[OF wf i] 3 reads_same_view by simp
      then show ?thesis using 3 view idx(1) table_row_at[OF wf i] table_row_owned[OF wf i] by simp
    qed
  qed (use t' in simp)
  then show ?thesis using t'(1) wf' by blast
qed

lemma table_push_ok:
  assumes wf: "wf_table t" and row: "row_ok row" and space: "has_space t (et_length t) row"
  shows "\<exists>t'. table_push t row = Some t' \<and> wf_table t' \<and>
    table_rows t' = table_rows t @ [to_owned_file row]"
proof -
  let ?n = "et_length t"
  let ?q = "?n div chunk_length" and ?r = "?n mod chunk_length"
  have lens: "length (et_chunks t) = ?q + of_bool (?r \<noteq> 0)"
    using wf div_ceil[OF chunk_length_pos, of ?n] by (simp add: wf_table_def)
  obtain cs old where chunks: "(if ?r = 0 then et_chunks t @ [default_chunk] else et_chunks t) = cs @ [old]"
    by (cases "?r = 0"; cases "et_chunks t" rule: rev_cases) (use lens in auto)
  have cs: "length cs = ?q" "\<And>i. i < ?q \<Longrightarrow> cs ! i = et_chunks t ! i"
    using chunks lens by (auto split: if_splits simp: nth_append)
  have old: "wf_chunk ?r old" "block_at t ?n = old"
  proof -
    have "old = default_chunk \<and> ?r = 0 \<or> old = et_chunks t ! ?q \<and> ?r \<noteq> 0"
      using chunks cs(1) by (auto split: if_splits simp: nth_append)
    moreover have "wf_chunk ?r (et_chunks t ! ?q)" if "?r \<noteq> 0"
    proof -
      have "wf_chunk (block_rows ?n ?q) (et_chunks t ! ?q)" using wf lens that by (simp add: wf_table_def)
      then show ?thesis by (simp only: block_rows_last)
    qed
    ultimately show "wf_chunk ?r old" "block_at t ?n = old"
      using lens wf_default_chunk by (auto simp: block_at_def)
  qed
  obtain c where c: "chunk_set old ?r row = Some c" "wf_chunk (Suc ?r) c" "row_stored c ?r row"
    "\<And>i. i < ?r \<Longrightarrow> reads_same old c i"
    using chunk_set_ok[OF old(1) order.refl row] space old(2) by (auto simp: has_space_def max_def)
  define t' where "t' = t\<lparr>et_chunks := cs @ [c], et_text_changes := insert ?q (et_text_changes t),
    et_changed_blocks := insert ?q (et_changed_blocks t), et_length := Suc ?n\<rparr>"
  have push: "table_push t row = Some t'"
    unfolding table_push_def Let_def chunks using c(1) by (simp add: t'_def)
  have r: "?r < chunk_length" by simp
  have len': "length (et_chunks t') = (et_length t' + (chunk_length - 1)) div chunk_length"
  proof -
    have "(Suc ?n + (chunk_length - 1)) div chunk_length = (?n + chunk_length) div chunk_length"
      using chunk_length_pos by (metis Suc_pred' add_Suc_shift One_nat_def)
    then show ?thesis using cs(1) by (simp add: t'_def)
  qed
  have rows: "block_rows (Suc ?n) i = (if i < ?q then chunk_length else Suc ?r)" if "i \<le> ?q" for i
  proof (cases "i = ?q")
    case True
    have "Suc ?n - chunk_length * ?q = Suc ?r" by (metis Suc_diff_le minus_mult_div_eq_mod times_div_less_eq_dividend)
    then show ?thesis using True Suc_leI[OF r] by (simp add: block_rows_def min_absorb2)
  next
    case False
    then have "i < Suc ?n div chunk_length" using that by (meson div_le_mono le_SucI le_neq_implies_less less_le_trans order.refl)
    then show ?thesis using False that block_rows_full by simp
  qed
  have wf': "wf_table t'"
  proof -
    have "wf_chunk (block_rows (Suc ?n) i) ((cs @ [c]) ! i)" if "i < Suc ?q" for i
    proof (cases "i < ?q")
      case True
      have "wf_chunk (block_rows ?n i) (et_chunks t ! i)" using wf lens True by (simp add: wf_table_def)
      then show ?thesis using True rows[of i] cs block_rows_full[OF True] by (simp add: nth_append)
    next
      case False
      then have "i = ?q" using that by simp
      then show ?thesis using rows[of ?q] c(2) cs(1) by (simp add: nth_append)
    qed
    moreover have "{..<length (et_chunks t)} \<subseteq> {..<Suc ?q}" using lens by simp
    then have "et_text_changes t \<subseteq> {..<Suc ?q}" "et_changed_blocks t \<subseteq> {..<Suc ?q}"
      using wf unfolding wf_table_def by (meson subset_trans)+
    ultimately show ?thesis unfolding wf_table_def using len' cs(1) by (auto simp: t'_def)
  qed
  have "table_rows t' = table_rows t @ [to_owned_file row]"
  proof (rule table_rows_eqI)
    fix i assume "i < length (table_rows t @ [to_owned_file row])"
    then have i: "i < Suc ?n" by simp
    have view: "table_row t' i = chunk_view ((cs @ [c]) ! (i div chunk_length)) (i mod chunk_length)"
      using table_row_at[OF wf'] i by (simp add: t'_def)
    show "map_option to_owned_file (table_row t' i) = Some ((table_rows t @ [to_owned_file row]) ! i)"
    proof (cases "i = ?n")
      case True
      then show ?thesis using view cs(1) row_stored_view[OF c(3)] by (simp add: nth_append)
    next
      case False
      then have i': "i < ?n" using i by simp
      have same: "chunk_view ((cs @ [c]) ! (i div chunk_length)) (i mod chunk_length)
          = chunk_view (et_chunks t ! (i div chunk_length)) (i mod chunk_length)"
      proof (cases "i div chunk_length < ?q")
        case True
        then show ?thesis using cs by (simp add: nth_append)
      next
        case False
        then have q: "i div chunk_length = ?q" using i' by (meson div_le_mono le_antisym less_imp_le not_less)
        then have "i mod chunk_length < ?r" using block_index(2)[OF wf i'] block_rows_last[of ?n] by simp
        moreover from this have "et_chunks t ! ?q = old" using chunks cs(1)
          by (auto simp: nth_append split: if_splits)
        ultimately show ?thesis using c(4) reads_same_view q cs(1) by (simp add: nth_append)
      qed
      then show ?thesis using view table_row_at[OF wf i'] table_row_owned[OF wf i'] i' by (simp add: nth_append)
    qed
  qed (simp add: t'_def)
  then show ?thesis using push wf' by blast
qed

text \<open>Updating blocks in place without changing what their rows read.\<close>

lemma update_blocks_ok:
  assumes "\<And>i. i < length cs \<Longrightarrow> P i (cs ! i)" "\<forall>i \<in> set is. i < length cs"
    "\<And>i c. i < length cs \<Longrightarrow> P i c \<Longrightarrow> \<exists>c'. f c = Some c' \<and> P i c' \<and> (\<forall>j < n i. chunk_view c' j = chunk_view c j)"
  shows "\<exists>cs'. update_blocks f is cs = Some cs' \<and> length cs' = length cs \<and> (\<forall>i < length cs. P i (cs' ! i)) \<and>
    (\<forall>i < length cs. \<forall>j < n i. chunk_view (cs' ! i) j = chunk_view (cs ! i) j)"
  using assms
proof (induction "is" arbitrary: cs)
  case (Cons i is')
  have i: "i < length cs" using Cons.prems(2) by simp
  obtain c' where c': "f (cs ! i) = Some c'" "P i c'" "\<forall>j < n i. chunk_view c' j = chunk_view (cs ! i) j"
    using Cons.prems(3)[OF i Cons.prems(1)[OF i]] by blast
  have "\<exists>cs'. update_blocks f is' (cs[i := c']) = Some cs' \<and> length cs' = length (cs[i := c']) \<and>
      (\<forall>k < length (cs[i := c']). P k (cs' ! k)) \<and>
      (\<forall>k < length (cs[i := c']). \<forall>j < n k. chunk_view (cs' ! k) j = chunk_view (cs[i := c'] ! k) j)"
    by (rule Cons.IH) (use Cons.prems c' in \<open>auto simp: nth_list_update\<close>)
  then obtain cs' where cs': "update_blocks f is' (cs[i := c']) = Some cs'" "length cs' = length cs"
    "\<forall>k < length cs. P k (cs' ! k)"
    "\<forall>k < length cs. \<forall>j < n k. chunk_view (cs' ! k) j = chunk_view (cs[i := c'] ! k) j"
    by auto
  have "\<forall>k < length cs. \<forall>j < n k. chunk_view (cs' ! k) j = chunk_view (cs ! k) j"
    using cs'(4) c'(3) i by (auto simp: nth_list_update)
  then show ?case using c'(1) cs' i by (simp add: slice_get_def)
qed simp

lemma finish_update_ok:
  assumes wf: "wf_table t" and small: "\<forall>c \<in> set (et_chunks t). str_len (ch_text c) \<le> u32_max"
  shows "\<exists>t'. table_finish_update t = Some t' \<and> wf_table t' \<and> table_rows t' = table_rows t \<and>
    (et_changed_blocks t \<noteq> {} \<longrightarrow> et_text_changes t' = {}) \<and> et_changed_blocks t' = {}"
proof (cases "et_changed_blocks t = {}")
  case True
  then show ?thesis using wf by (simp add: table_finish_update_def)
next
  case False
  let ?n = "block_rows (et_length t)"
  let ?P = "\<lambda>i c. wf_chunk (?n i) c"
  note W = wf[unfolded wf_table_def]
  have fin: "finite (et_text_changes t)" "finite (et_changed_blocks t)"
    using W finite_subset[OF _ finite_lessThan] by blast+
  let ?Q = "\<lambda>i c. ?P i c \<and> str_len (ch_text c) \<le> u32_max"
  have "\<exists>cs. update_blocks reclaim_text (sorted_list_of_set (et_text_changes t)) (et_chunks t) = Some cs \<and>
      length cs = length (et_chunks t) \<and> (\<forall>i < length (et_chunks t). ?Q i (cs ! i)) \<and>
      (\<forall>i < length (et_chunks t). \<forall>j < ?n i. chunk_view (cs ! i) j = chunk_view (et_chunks t ! i) j)"
  proof (rule update_blocks_ok)
    fix i c assume "?Q i c"
    then show "\<exists>c'. reclaim_text c = Some c' \<and> ?Q i c' \<and> (\<forall>j < ?n i. chunk_view c' j = chunk_view c j)"
      using reclaim_text_ok[of "?n i" c] reads_same_view le_trans by blast
  qed (use W small fin in auto)
  then obtain cs where cs: "update_blocks reclaim_text (sorted_list_of_set (et_text_changes t)) (et_chunks t) = Some cs"
    "length cs = length (et_chunks t)" "\<forall>i < length cs. ?P i (cs ! i)"
    "\<forall>i < length cs. \<forall>j < ?n i. chunk_view (cs ! i) j = chunk_view (et_chunks t ! i) j"
    by auto
  have "\<exists>ds. update_blocks (\<lambda>c. Some (compact_integers c)) (sorted_list_of_set (et_changed_blocks t)) cs = Some ds \<and>
      length ds = length cs \<and> (\<forall>i < length cs. ?P i (ds ! i)) \<and>
      (\<forall>i < length cs. \<forall>j < ?n i. chunk_view (ds ! i) j = chunk_view (cs ! i) j)"
    by (rule update_blocks_ok) (use W cs(2,3) fin compact_integers_ok in auto)
  then obtain ds where ds: "update_blocks (\<lambda>c. Some (compact_integers c)) (sorted_list_of_set (et_changed_blocks t)) cs = Some ds"
    "length ds = length cs" "\<forall>i < length cs. ?P i (ds ! i)"
    "\<forall>i < length cs. \<forall>j < ?n i. chunk_view (ds ! i) j = chunk_view (et_chunks t ! i) j"
    using cs(4) by auto
  define t' where "t' = t\<lparr>et_chunks := ds, et_text_changes := {}, et_changed_blocks := {}\<rparr>"
  have wf': "wf_table t'" using W ds cs(2) by (simp add: wf_table_def t'_def)
  have "table_row t' i = table_row t i" if "i < et_length t" for i
    using table_row_at[OF wf that] table_row_at[OF wf', of i] that ds(4) cs(2) block_index[OF wf that]
    by (simp add: t'_def)
  then have "table_rows t' = table_rows t" by (simp add: table_rows_def t'_def)
  moreover have "table_finish_update t = Some t'" using False cs(1) ds(1) by (simp add: table_finish_update_def t'_def)
  ultimately show ?thesis using wf' by (simp add: t'_def)
qed

section \<open>Tables built from rows\<close>

lemma append_block_ok:
  assumes wf: "wf_table t" and full: "et_length t = chunk_length * length (et_chunks t)"
    and c: "wf_chunk (length rows) c" "\<And>j. j < length rows \<Longrightarrow> row_stored c j (rows ! j)"
    and len: "rows \<noteq> []" "length rows \<le> chunk_length"
  shows "wf_table (t\<lparr>et_length := et_length t + length rows, et_chunks := et_chunks t @ [c]\<rparr>) \<and>
    table_rows (t\<lparr>et_length := et_length t + length rows, et_chunks := et_chunks t @ [c]\<rparr>)
      = table_rows t @ map to_owned_file rows"
proof -
  let ?m = "length (et_chunks t)" and ?k = "length rows"
  define t' where "t' = t\<lparr>et_length := et_length t + ?k, et_chunks := et_chunks t @ [c]\<rparr>"
  have k: "0 < ?k" using len(1) by simp
  have count: "Suc ?m = (et_length t + ?k + (chunk_length - 1)) div chunk_length"
  proof -
    have "(?k + (chunk_length - 1)) div chunk_length = 1"
    proof (rule div_nat_eqI)
      show "chunk_length * 1 \<le> ?k + (chunk_length - 1)" using k by linarith
      have "?k + (chunk_length - 1) < chunk_length + chunk_length"
        using len(2) chunk_length_pos by linarith
      then show "?k + (chunk_length - 1) < chunk_length * Suc 1" by simp
    qed
    moreover have "et_length t + ?k + (chunk_length - 1) = (?k + (chunk_length - 1)) + ?m * chunk_length"
      using full by simp
    moreover have "((?k + (chunk_length - 1)) + ?m * chunk_length) div chunk_length
        = ?m + (?k + (chunk_length - 1)) div chunk_length"
      by (rule div_mult_self1) simp
    ultimately show ?thesis by (simp only: One_nat_def add_Suc_right add_0_right)
  qed
  have full_rows: "block_rows (et_length t) i = chunk_length" "block_rows (et_length t + ?k) i = chunk_length"
    if "i < ?m" for i
  proof -
    have "chunk_length * i + chunk_length \<le> et_length t"
      using mult_le_mono2[of "Suc i" ?m chunk_length] that by (simp add: full)
    then show "block_rows (et_length t) i = chunk_length" "block_rows (et_length t + ?k) i = chunk_length"
      by (simp_all add: block_rows_def)
  qed
  have last_rows: "block_rows (et_length t + ?k) ?m = ?k"
    using full len(2) by (simp add: block_rows_def)
  have wf': "wf_table t'"
  proof -
    have "wf_chunk (block_rows (et_length t + ?k) i) ((et_chunks t @ [c]) ! i)" if "i < Suc ?m" for i
    proof (cases "i < ?m")
      case True
      then have "wf_chunk (block_rows (et_length t) i) (et_chunks t ! i)" using wf by (simp add: wf_table_def)
      then show ?thesis using True full_rows[OF True] by (simp add: nth_append)
    next
      case False
      then have "i = ?m" using that by simp
      then show ?thesis using last_rows c(1) by simp
    qed
    moreover have "{..<?m} \<subseteq> {..<Suc ?m}" by auto
    then have "et_text_changes t \<subseteq> {..<Suc ?m}" "et_changed_blocks t \<subseteq> {..<Suc ?m}"
      using wf unfolding wf_table_def by (meson subset_trans)+
    ultimately show ?thesis using count by (simp add: wf_table_def t'_def)
  qed
  have "table_rows t' = table_rows t @ map to_owned_file rows"
  proof (rule table_rows_eqI)
    fix i assume "i < length (table_rows t @ map to_owned_file rows)"
    then have i: "i < et_length t'" by (simp add: t'_def)
    show "map_option to_owned_file (table_row t' i) = Some ((table_rows t @ map to_owned_file rows) ! i)"
    proof (cases "i < et_length t")
      case True
      then have "table_row t' i = table_row t i"
        using table_row_at[OF wf' i] table_row_at[OF wf True] block_index(1)[OF wf True]
        by (simp add: t'_def nth_append)
      then show ?thesis using table_row_owned[OF wf True] True by (simp add: nth_append)
    next
      case False
      define j where "j = i - et_length t"
      then have i_eq: "i = ?m * chunk_length + j" using False full by simp
      have j: "j < ?k" using i False by (simp add: j_def t'_def)
      then have "i div chunk_length = ?m" "i mod chunk_length = j" using len(2) by (simp_all add: i_eq)
      then have "table_row t' i = chunk_view c j" using table_row_at[OF wf' i] by (simp add: t'_def)
      then show ?thesis using row_stored_view[OF c(2)[OF j]] False j by (simp add: nth_append j_def)
    qed
  qed (simp add: t'_def)
  then show ?thesis using wf' unfolding t'_def by blast
qed

definition row_small :: "file_entry \<Rightarrow> bool" where
  "row_small row \<longleftrightarrow> rows_need [row] \<le> 1048575"

lemma rows_need_sum: "rows_need rows = sum_list (map (\<lambda>row. rows_need [row]) rows)"
  by (induction rows) (auto simp: rows_need_def)

lemma batch_fits:
  assumes "list_all row_small rows" "length rows \<le> chunk_length"
  shows "rows_need rows \<le> u32_max" "3 * length rows \<le> 2 ^ 32"
proof -
  have "rows_need rows \<le> length rows * 1048575"
    using assms(1) unfolding rows_need_sum[of rows]
    by (induction rows) (auto simp: row_small_def)
  also have "\<dots> \<le> 4096 * 1048575" using assms(2) by (simp add: chunk_length_def)
  also have "\<dots> \<le> u32_max" by (simp add: u32_max_def)
  finally show "rows_need rows \<le> u32_max" .
  show "3 * length rows \<le> 2 ^ 32" using assms(2) by (simp add: chunk_length_def)
qed

lemma from_rows_loop_ok:
  assumes "wf_table t" "et_length t = chunk_length * length (et_chunks t)" "length batch < chunk_length"
    "list_all (\<lambda>row. row_ok row \<and> row_small row) (batch @ rows)"
    "et_length t + length batch + length rows \<le> u32_max"
  shows "\<exists>t'. from_rows_loop t batch (map Inr rows) = Some (Inr t') \<and> wf_table t' \<and>
    table_rows t' = table_rows t @ map to_owned_file (batch @ rows)"
  using assms
proof (induction rows arbitrary: t batch)
  case Nil
  show ?case
  proof (cases "batch = []")
    case False
    obtain c where c: "chunk_from_rows batch = Some c" "wf_chunk (length batch) c"
      "\<forall>j < length batch. row_stored c j (batch ! j)"
      using chunk_from_rows_ok[of batch] batch_fits[of batch] Nil.prems(3,4) by (auto simp: list_all_iff)
    then show ?thesis
      using append_block_ok[OF Nil.prems(1,2) c(2)] False Nil.prems(3) by auto
  qed (use Nil in simp)
next
  case (Cons row rows)
  have room: "\<not> et_length t + length batch \<ge> u32_max" using Cons.prems(5) by simp
  show ?case
  proof (cases "length (batch @ [row]) = chunk_length")
    case True
    let ?b = "batch @ [row]"
    obtain c where c: "chunk_from_rows ?b = Some c" "wf_chunk (length ?b) c"
      "\<And>j. j < length ?b \<Longrightarrow> row_stored c j (?b ! j)"
      using chunk_from_rows_ok[of ?b] batch_fits[of ?b] True Cons.prems(4) by (auto simp: list_all_iff)
    define t2 where "t2 = t\<lparr>et_length := et_length t + length ?b, et_chunks := et_chunks t @ [c]\<rparr>"
    have t2: "wf_table t2" "table_rows t2 = table_rows t @ map to_owned_file ?b"
      unfolding t2_def using append_block_ok[OF Cons.prems(1,2) c(2,3)] True by (simp_all only:) simp_all
    have "\<exists>t'. from_rows_loop t2 [] (map Inr rows) = Some (Inr t') \<and> wf_table t' \<and>
        table_rows t' = table_rows t2 @ map to_owned_file ([] @ rows)"
      by (rule Cons.IH[OF t2(1)]) (use Cons.prems True in \<open>simp_all add: t2_def\<close>)
    moreover have "from_rows_loop t batch (map Inr (row # rows)) = from_rows_loop t2 [] (map Inr rows)"
      using room True c(1) by (simp add: t2_def)
    ultimately show ?thesis using t2(2) by simp
  next
    case False
    have "\<exists>t'. from_rows_loop t (batch @ [row]) (map Inr rows) = Some (Inr t') \<and> wf_table t' \<and>
        table_rows t' = table_rows t @ map to_owned_file ((batch @ [row]) @ rows)"
      by (rule Cons.IH[OF Cons.prems(1,2)]) (use Cons.prems False in simp_all)
    then show ?thesis using room False by simp
  qed
qed

lemma wf_empty_table: "wf_table empty_table"
  by (simp add: wf_table_def empty_table_def chunk_length_def)

lemma table_from_rows_ok:
  assumes "list_all (\<lambda>row. row_ok row \<and> row_small row) rows" "length rows \<le> u32_max"
  shows "\<exists>t. table_from_rows (map Inr rows) = Some (Inr t) \<and> wf_table t \<and> table_rows t = map to_owned_file rows"
  using from_rows_loop_ok[OF wf_empty_table, of "[]" rows] assms
  by (simp add: table_from_rows_def) (simp add: empty_table_def table_rows_def)

section \<open>Iteration and reassembly\<close>

lemma concat_blocks:
  fixes k :: nat
  assumes "0 < k"
  shows "concat (map (\<lambda>i. map (f i) [0..<min k (len - k * i)]) [0..<m])
    = map (\<lambda>s. f (s div k) (s mod k)) [0..<min len (k * m)]"
proof (induction m)
  case (Suc m)
  show ?case
  proof (cases "len \<le> k * m")
    case True
    then show ?thesis using Suc by (simp add: min_absorb1 le_trans)
  next
    case False
    let ?n = "min k (len - k * m)"
    have eq: "min len (k * Suc m) = k * m + ?n" "min len (k * m) = k * m" using False by auto
    have "map (\<lambda>s. f (s div k) (s mod k)) [k * m..<k * m + ?n]
        = map (\<lambda>j. f ((k * m + j) div k) ((k * m + j) mod k)) [0..<?n]"
    proof -
      have "[k * m..<k * m + ?n] = map (\<lambda>j. k * m + j) [0..<?n]" by (intro nth_equalityI) simp_all
      then show ?thesis by simp
    qed
    also have "\<dots> = map (f m) [0..<?n]" by (rule map_cong) (use assms in auto)
    finally have "map (\<lambda>s. f (s div k) (s mod k)) [0..<min len (k * Suc m)]
        = map (\<lambda>s. f (s div k) (s mod k)) [0..<k * m] @ map (f m) [0..<?n]"
      unfolding eq(1) by (simp only: upt_add_eq_append[of 0 "k * m" ?n, OF le0] map_append)
    then show ?thesis using Suc eq(2) by simp
  qed
qed simp

lemma table_iter_rows:
  assumes wf: "wf_table t"
  shows "map (\<lambda>(c, i). chunk_view c i) (table_iter t) = map (table_row t) [0..<et_length t]"
proof -
  let ?m = "length (et_chunks t)" and ?len = "et_length t"
  have lens: "chunk_len (et_chunks t ! i) = min chunk_length (?len - chunk_length * i)" if "i < ?m" for i
    using wf that wf_chunk_len by (simp add: wf_table_def block_rows_def)
  have "map (\<lambda>(c, i). chunk_view c i) (table_iter t)
      = concat (map (\<lambda>c. map (chunk_view c) [0..<chunk_len c]) (et_chunks t))"
    by (simp add: table_iter_def map_concat comp_def)
  also have "\<dots> = concat (map (\<lambda>i. map (chunk_view (et_chunks t ! i)) [0..<chunk_len (et_chunks t ! i)]) [0..<?m])"
    by (subst map_nth[of "et_chunks t", symmetric]) (simp only: map_map comp_def)
  also have "\<dots> = concat (map (\<lambda>i. map (chunk_view (et_chunks t ! i)) [0..<min chunk_length (?len - chunk_length * i)]) [0..<?m])"
    by (rule arg_cong[where f = concat], rule map_cong) (use lens in auto)
  also have "\<dots> = map (\<lambda>s. chunk_view (et_chunks t ! (s div chunk_length)) (s mod chunk_length))
      [0..<min ?len (chunk_length * ?m)]"
    by (rule concat_blocks) simp
  also have "min ?len (chunk_length * ?m) = ?len"
  proof -
    let ?q = "?len div chunk_length" and ?r = "?len mod chunk_length"
    have len: "?len = chunk_length * ?q + ?r" by simp
    have "?r \<le> chunk_length * of_bool (?r \<noteq> 0)"
      using less_imp_le[OF mod_less_divisor[OF chunk_length_pos, of ?len]] by (cases "?r = 0") simp_all
    then have "?len \<le> chunk_length * (?q + of_bool (?r \<noteq> 0))" using len by (simp only: distrib_left)
    then have "?len \<le> chunk_length * ((?len + (chunk_length - 1)) div chunk_length)"
      by (simp only: div_ceil[OF chunk_length_pos])
    then show ?thesis using wf by (simp add: wf_table_def min_absorb1)
  qed
  also have "map (\<lambda>s. chunk_view (et_chunks t ! (s div chunk_length)) (s mod chunk_length)) [0..<?len]
      = map (table_row t) [0..<?len]"
    by (rule map_cong) (simp_all add: table_row_at[OF wf])
  finally show ?thesis .
qed

text \<open>Blocks read from a cache are accepted exactly when all but the last are full.\<close>

lemma table_from_chunks_ok:
  assumes blocks: "\<And>c. c \<in> set cs \<Longrightarrow> wf_chunk (chunk_len c) c" and some: "table_from_chunks cs = Some t"
  shows "wf_table t \<and> et_chunks t = cs \<and> et_length t = sum_list (map chunk_len cs)"
proof -
  let ?k = chunk_length and ?m = "length cs"
  have t: "et_chunks t = cs" "et_length t = sum_list (map chunk_len cs)" "et_text_changes t = {}"
    "et_changed_blocks t = {}"
    and none: "\<not> list_ex (\<lambda>(i, c). chunk_len c = 0 \<or> chunk_len c > ?k \<or> (i + 1 < ?m \<and> chunk_len c \<noteq> ?k)) (enumerate 0 cs)"
    using some by (auto simp: table_from_chunks_def Let_def split: if_splits)
  have ok: "0 < chunk_len (cs ! i) \<and> chunk_len (cs ! i) \<le> ?k \<and> (Suc i < ?m \<longrightarrow> chunk_len (cs ! i) = ?k)"
    if "i < ?m" for i
  proof -
    have "(i, cs ! i) \<in> set (enumerate 0 cs)" using that by (simp add: in_set_enumerate_eq)
    then show ?thesis using none by (fastforce simp: list_ex_iff)
  qed
  show ?thesis
  proof (cases cs rule: rev_cases)
    case Nil
    then show ?thesis using t by (simp add: wf_table_def chunk_length_def)
  next
    case (snoc xs c)
    have full: "chunk_len (xs ! i) = ?k" if "i < length xs" for i
      using ok[of i] that snoc by (simp add: nth_append)
    then have "map chunk_len xs = replicate (length xs) ?k" by (intro nth_equalityI) simp_all
    then have "sum_list (map chunk_len xs) = ?k * length xs" by (simp add: sum_list_replicate)
    then have len: "et_length t = ?k * length xs + chunk_len c" using t snoc by simp
    have c: "0 < chunk_len c" "chunk_len c \<le> ?k" using ok[of "length xs"] snoc by simp_all
    have rows: "block_rows (et_length t) i = chunk_len (cs ! i)" if "i < ?m" for i
    proof (cases "i < length xs")
      case True
      have "?k * i + ?k \<le> ?k * length xs" using mult_le_mono2[of "Suc i" "length xs" ?k] True by simp
      then show ?thesis using True full len snoc by (simp add: block_rows_def nth_append)
    next
      case False
      then have "i = length xs" using that snoc by simp
      then show ?thesis using c len snoc by (simp add: block_rows_def)
    qed
    have "(et_length t + (?k - 1)) div ?k = Suc (length xs)"
      by (rule div_nat_eqI) (use len c in \<open>simp_all add: algebra_simps\<close>)
    then have "length cs = (et_length t + (?k - 1)) div ?k" using snoc by simp
    moreover have "wf_chunk (block_rows (et_length t) i) (cs ! i)" if "i < ?m" for i
      using rows[OF that] blocks[OF nth_mem[OF that]] by simp
    ultimately show ?thesis using t unfolding wf_table_def by simp
  qed
qed

lemma from_rows_loop_error:
  assumes "wf_table t" "et_length t = chunk_length * length (et_chunks t)" "length batch < chunk_length"
    "list_all (\<lambda>row. row_ok row \<and> row_small row) (batch @ rows)"
    "et_length t + length batch + length rows < u32_max"
  shows "from_rows_loop t batch (map Inr rows @ Inl e # rest) = Some (Inl e)"
  using assms
proof (induction rows arbitrary: t batch)
  case (Cons row rows)
  have room: "\<not> et_length t + length batch \<ge> u32_max" using Cons.prems(5) by simp
  show ?case
  proof (cases "length (batch @ [row]) = chunk_length")
    case True
    let ?b = "batch @ [row]"
    obtain c where c: "chunk_from_rows ?b = Some c" "wf_chunk (length ?b) c"
      "\<And>j. j < length ?b \<Longrightarrow> row_stored c j (?b ! j)"
      using chunk_from_rows_ok[of ?b] batch_fits[of ?b] True Cons.prems(4) by (auto simp: list_all_iff)
    define t2 where "t2 = t\<lparr>et_length := et_length t + length ?b, et_chunks := et_chunks t @ [c]\<rparr>"
    have t2: "wf_table t2 \<and> table_rows t2 = table_rows t @ map to_owned_file ?b"
      unfolding t2_def using append_block_ok[OF Cons.prems(1,2) c(2,3)] True by (simp_all only:) simp_all
    have "from_rows_loop t2 [] (map Inr rows @ Inl e # rest) = Some (Inl e)"
      by (rule Cons.IH[OF conjunct1[OF t2]]) (use Cons.prems True in \<open>simp_all add: t2_def\<close>)
    moreover have "from_rows_loop t batch (map Inr (row # rows) @ Inl e # rest)
        = from_rows_loop t2 [] (map Inr rows @ Inl e # rest)"
      using room True c(1) by (simp add: t2_def)
    ultimately show ?thesis by simp
  next
    case False
    have "from_rows_loop t (batch @ [row]) (map Inr rows @ Inl e # rest) = Some (Inl e)"
      by (rule Cons.IH[OF Cons.prems(1,2)]) (use Cons.prems False in simp_all)
    then show ?thesis using room False by simp
  qed
qed simp

section \<open>Arenas within 32-bit offsets\<close>

text \<open>Every operation checks that the arena of a block stays within 32-bit offsets before it grows.\<close>

definition text_small :: "entry_chunk \<Rightarrow> bool" where
  "text_small c \<longleftrightarrow> str_len (ch_text c) \<le> u32_max"

lemma intern_update_small: "intern_update c v = Some (c', r) \<Longrightarrow> text_small c \<Longrightarrow> text_small c'"
  by (auto simp: intern_update_def text_small_def text_append_def split: bind_splits option.splits if_splits)

lemma text_small_upd: "ch_text c = ch_text d \<Longrightarrow> text_small c \<longleftrightarrow> text_small d"
  by (simp add: text_small_def)

lemma set_text_small:
  assumes set: "set_text get upd slot v c = Some c'" and small: "text_small c"
    and upd: "\<And>f c. ch_text (upd f c) = ch_text c"
  shows "text_small c'"
proof -
  consider "c' = c" | d r col where "intern_update c v = Some (d, r)" "c' = upd (\<lambda>_. col) d"
    using set by (auto simp: set_text_def split: bind_splits if_splits)
  then show ?thesis using small intern_update_small text_small_upd[OF upd] by cases auto
qed

lemma set_path_small:
  assumes set: "set_path get upd slot v c = Some c'" and small: "text_small c"
    and upd: "\<And>f c. ch_text (upd f c) = ch_text c"
  shows "text_small c'"
proof -
  consider "c' = c" | d r e q col a b where "intern_update c a = Some (d, r)" "intern_update d b = Some (e, q)"
      "c' = upd (\<lambda>_. col) e"
    using set by (auto simp: set_path_def with_str_def split: bind_splits if_splits)
  then show ?thesis using small intern_update_small text_small_upd[OF upd] by cases metis+
qed

lemma set_parent_small:
  assumes set: "set_parent slot v c = Some c'" and small: "text_small c"
  shows "text_small c'"
proof -
  consider "ch_text c' = ch_text c" | d r where "intern_update c v = Some (d, r)" "ch_text c' = ch_text d"
    using set by (auto simp: set_parent_def split: bind_splits if_splits)
  then show ?thesis using small intern_update_small text_small_upd by cases metis+
qed

lemma set_texts_small:
  assumes "set_texts slot row c = Some c'" and "text_small c"
  shows "text_small c'"
proof -
  obtain c1 c2 c3 c4 c5 c6 where s:
    "set_text ch_search_name ch_search_name_update slot (search_name row) c = Some c1"
    "set_text ch_name ch_name_update slot (name row) c1 = Some c2"
    "set_text ch_folded_name ch_folded_name_update slot (folded_name row) c2 = Some c3"
    "set_path ch_path ch_path_update slot (path row) c3 = Some c4"
    "set_parent slot (parent row) c4 = Some c5"
    "set_path ch_folded_path ch_folded_path_update slot (folded_path row) c5 = Some c6"
    "set_path ch_search_path ch_search_path_update slot (search_path row) c6 = Some c'"
    using assms(1) by (auto simp: set_texts_def split: bind_splits)
  have "text_small c3" using s(1-3)[THEN set_text_small] assms(2) by simp
  then have "text_small c5" using set_parent_small[OF s(5)] set_path_small[OF s(4)] by simp
  then show ?thesis using s(6,7)[THEN set_path_small] by simp
qed

lemma set_label_text:
  "set_label get upd slot v c = Some c' \<Longrightarrow> (\<And>f c. ch_text (upd f c) = ch_text c) \<Longrightarrow> ch_text c' = ch_text c"
  by (auto simp: set_label_def label_def split: bind_splits option.splits)

lemma set_labels_text: "set_labels slot row c = Some c' \<Longrightarrow> ch_text c' = ch_text c"
  by (auto simp: set_labels_def set_properties_def Let_def split: bind_splits dest!: set_label_text)

lemma set_numbers_text: "set_numbers slot row c = Some c' \<Longrightarrow> ch_text c' = ch_text c"
  by (auto simp: set_numbers_def split: bind_splits)

lemma chunk_set_small:
  assumes "chunk_set c slot row = Some c'" "text_small c"
  shows "text_small c'"
proof -
  obtain c1 c2 where "set_numbers slot row (c\<lparr>ch_section := None\<rparr>) = Some c1" "set_texts slot row c1 = Some c2"
    "set_labels slot row c2 = Some c'"
    using assms(1) by (auto simp: chunk_set_def split: bind_splits)
  then show ?thesis
    using assms(2) set_texts_small[of slot row c1 c2] by (simp add: text_small_def set_numbers_text set_labels_text)
qed

definition table_ok :: "entry_table \<Rightarrow> bool" where
  "table_ok t \<longleftrightarrow> wf_table t \<and> list_all text_small (et_chunks t)"

lemma text_small_default [simp]: "text_small default_chunk"
  by (simp add: text_small_def default_chunk_def str_len_def)

lemma table_ok_empty: "table_ok empty_table"
  using wf_empty_table by (simp add: table_ok_def empty_table_def)

lemma table_set_small:
  assumes "table_set t slot row = Some t'" "list_all text_small (et_chunks t)"
  shows "list_all text_small (et_chunks t')"
proof -
  let ?b = "slot div chunk_length"
  obtain c where "et_chunks t ! ?b \<in> set (et_chunks t)" "chunk_set (et_chunks t ! ?b) (slot mod chunk_length) row = Some c"
    "et_chunks t' = (et_chunks t)[?b := c]"
    using assms(1) by (auto simp: table_set_def slice_get_def Let_def split: bind_splits if_splits)
  then show ?thesis
    using assms(2) chunk_set_small set_update_subset_insert[of "et_chunks t" "slot div chunk_length" c]
    unfolding list_all_iff by (metis insertE subsetD)
qed

lemma table_push_small:
  assumes "table_push t row = Some t'" "list_all text_small (et_chunks t)"
  shows "list_all text_small (et_chunks t')"
proof -
  obtain cs c where "list_all text_small cs" "cs \<noteq> []" "chunk_set (last cs) (et_length t mod chunk_length) row = Some c"
    "et_chunks t' = butlast cs @ [c]"
  proof -
    let ?cs = "if et_length t mod chunk_length = 0 then et_chunks t @ [default_chunk] else et_chunks t"
    show ?thesis
      by (rule that[of ?cs "last (et_chunks t')"]) (use assms in \<open>auto simp: table_push_def Let_def split: bind_splits if_splits\<close>)
  qed
  then show ?thesis by (auto simp: list_all_iff dest: in_set_butlastD chunk_set_small)
qed

section \<open>The table as a store of rows\<close>

text \<open>
  The interface the index relies on when it applies changes: rows at stable slots, a slot overwritten or one
  appended, and a closing step that compacts. Whole batches of changes follow from the laws of one.
\<close>

datatype change = Push file_entry | Replace nat file_entry

fun list_change :: "file_entry list \<Rightarrow> change \<Rightarrow> file_entry list" where
  "list_change rows (Push row) = rows @ [to_owned_file row]"
| "list_change rows (Replace slot row) = rows[slot := to_owned_file row]"

locale row_store =
  fixes ok :: "'t \<Rightarrow> bool" and rows_of :: "'t \<Rightarrow> file_entry list"
    and fits :: "'t \<Rightarrow> change \<Rightarrow> bool" and put :: "'t \<Rightarrow> change \<Rightarrow> 't option"
  assumes put_ok: "ok t \<Longrightarrow> fits t ch \<Longrightarrow> \<exists>t'. put t ch = Some t' \<and> ok t' \<and> rows_of t' = list_change (rows_of t) ch"
begin

fun put_all :: "'t \<Rightarrow> change list \<Rightarrow> 't option" where
  "put_all t [] = Some t"
| "put_all t (ch # chs) = Option.bind (put t ch) (\<lambda>t'. put_all t' chs)"

fun all_fit :: "'t \<Rightarrow> change list \<Rightarrow> bool" where
  "all_fit t [] = True"
| "all_fit t (ch # chs) = (fits t ch \<and> (case put t ch of Some t' \<Rightarrow> all_fit t' chs | None \<Rightarrow> False))"

lemma put_all_ok:
  "ok t \<Longrightarrow> all_fit t chs \<Longrightarrow>
   \<exists>t'. put_all t chs = Some t' \<and> ok t' \<and> rows_of t' = foldl list_change (rows_of t) chs"
proof (induction chs arbitrary: t)
  case (Cons ch chs)
  obtain t' where t': "put t ch = Some t'" "ok t'" "rows_of t' = list_change (rows_of t) ch"
    using put_ok[OF Cons.prems(1)] Cons.prems(2) by auto
  then show ?case using Cons.IH[OF t'(2)] Cons.prems(2) by simp
qed simp

end

fun table_put :: "entry_table \<Rightarrow> change \<Rightarrow> entry_table option" where
  "table_put t (Push row) = table_push t row"
| "table_put t (Replace slot row) = table_set t slot row"

fun table_fits :: "entry_table \<Rightarrow> change \<Rightarrow> bool" where
  "table_fits t (Push row) = (row_ok row \<and> has_space t (et_length t) row)"
| "table_fits t (Replace slot row) = (slot < et_length t \<and> row_ok row \<and> has_space t slot row)"

interpretation table_store: row_store table_ok table_rows table_fits table_put
proof
  fix t ch assume t: "table_ok t" "table_fits t ch"
  then have "\<exists>t'. table_put t ch = Some t' \<and> wf_table t' \<and> table_rows t' = list_change (table_rows t) ch"
    using table_push_ok table_set_ok by (cases ch) (auto simp: table_ok_def)
  then obtain t' where "table_put t ch = Some t'" "wf_table t'" "table_rows t' = list_change (table_rows t) ch"
    by blast
  moreover from this have "list_all text_small (et_chunks t')"
    using t table_push_small table_set_small by (cases ch) (auto simp: table_ok_def)
  ultimately show "\<exists>t'. table_put t ch = Some t' \<and> table_ok t' \<and> table_rows t' = list_change (table_rows t) ch"
    by (auto simp: table_ok_def)
qed

definition apply_changes :: "entry_table \<Rightarrow> change list \<Rightarrow> entry_table option" where
  "apply_changes t chs = Option.bind (table_store.put_all t chs) table_finish_update"

lemma sample_row_small: "row_small sample_entry"
  by (simp add: row_small_def rows_need_def row_prefixes_def path_split_def sample_entry_def view_text_def
      view_of_str_def str_len_def as_bytes_def utf8_char_def lit_def text_need_def text_values_def path_values_def)

section \<open>Properties\<close>

text \<open>
  C37: the block table behaves as a list of rows. Any batch of appends and overwrites whose texts fit,
  followed by the closing compaction, succeeds and leaves exactly the rows a plain list would hold, all of
  them readable, with no block marked as changed.
\<close>
theorem entry_table_refines_list:
  assumes "table_ok t" "table_store.all_fit t chs"
  shows "\<exists>t'. apply_changes t chs = Some t' \<and> wf_table t' \<and> et_changed_blocks t' = {} \<and>
    table_rows t' = foldl list_change (table_rows t) chs \<and>
    (\<forall>i < et_length t'. map_option to_owned_file (table_row t' i) = Some (table_rows t' ! i))"
proof -
  obtain u where u: "table_store.put_all t chs = Some u" "table_ok u" "table_rows u = foldl list_change (table_rows t) chs"
    using table_store.put_all_ok[OF assms] by blast
  then have wf: "wf_table u" "\<forall>c \<in> set (et_chunks u). str_len (ch_text c) \<le> u32_max"
    by (simp_all add: table_ok_def text_small_def list_all_iff)
  obtain t' where t': "table_finish_update u = Some t'" "wf_table t'" "table_rows t' = table_rows u" "et_changed_blocks t' = {}"
    using finish_update_ok[OF wf] by blast
  then show ?thesis using u(1,3) table_row_owned[OF t'(2)] by (simp add: apply_changes_def)
qed

theorem entry_table_refines_list_witness:
  "\<exists>t'. apply_changes empty_table [Push sample_entry] = Some t' \<and> wf_table t' \<and>
    table_rows t' = [to_owned_file sample_entry]"
proof -
  have fits: "table_fits empty_table (Push sample_entry)"
    using sample_entry_ok by (simp add: has_space_def block_at_def empty_table_def default_chunk_def str_len_def u32_max_def)
  then obtain u where "table_put empty_table (Push sample_entry) = Some u"
    using table_store.put_ok[OF table_ok_empty] by blast
  then have "table_store.all_fit empty_table [Push sample_entry]" using fits by simp
  from entry_table_refines_list[OF table_ok_empty this] show ?thesis
    by (auto simp: table_rows_def empty_table_def)
qed

text \<open>
  C38: building a table from rows succeeds for rows of a bounded size, gives a well-formed table with exactly
  these rows in order, and iterating over its blocks visits them in slot order.
\<close>
theorem table_from_rows_reads_rows:
  assumes "list_all (\<lambda>row. row_ok row \<and> row_small row) rows" "length rows \<le> u32_max"
  shows "\<exists>t. table_from_rows (map Inr rows) = Some (Inr t) \<and> wf_table t \<and> table_rows t = map to_owned_file rows \<and>
    map (\<lambda>(c, i). chunk_view c i) (table_iter t) = map (table_row t) [0..<length rows]"
proof -
  obtain t where t: "table_from_rows (map Inr rows) = Some (Inr t)" "wf_table t" "table_rows t = map to_owned_file rows"
    using table_from_rows_ok[OF assms] by blast
  then have "et_length t = length rows" by (metis length_map length_table_rows)
  then show ?thesis using t table_iter_rows[OF t(2)] by auto
qed

theorem table_from_rows_reads_rows_witness:
  "\<exists>t. table_from_rows (map Inr [sample_entry]) = Some (Inr t) \<and> wf_table t \<and>
    table_rows t = [to_owned_file sample_entry]"
proof -
  show ?thesis
    using table_from_rows_reads_rows[of "[sample_entry]"] sample_entry_ok(1) sample_row_small by (auto simp: u32_max_def)
qed

text \<open>When a row of the input is an error, building the table returns that error and nothing else, however
  many blocks were complete before it.\<close>

lemma table_from_rows_error:
  assumes "list_all (\<lambda>row. row_ok row \<and> row_small row) rows" "length rows < u32_max"
  shows "table_from_rows (map Inr rows @ Inl e # rest) = Some (Inl e)"
  using from_rows_loop_error[OF wf_empty_table, of "[]" rows e rest] assms
  by (simp add: table_from_rows_def) (simp add: empty_table_def)

text \<open>Blocks loaded from a cache file are assembled only when every block but the last is full and none is
  empty, and the assembled table is then well formed.\<close>

lemma table_from_chunks_well_formed:
  assumes "\<And>c. c \<in> set cs \<Longrightarrow> wf_chunk (chunk_len c) c" "table_from_chunks cs = Some t"
  shows "wf_table t \<and> et_chunks t = cs \<and> et_length t = sum_list (map chunk_len cs) \<and>
    (\<forall>i < et_length t. \<exists>f. table_row t i = Some f)"
  using table_from_chunks_ok[OF assms] table_row_Some by blast

end
