(* ===== verification/Numeric_Columns.thy ===== *)
theory Numeric_Columns
  imports Entry_Table Query_Eval Result_Order
begin

text \<open>
  The numeric columns of a snapshot, \<open>core/src/numeric_columns.rs\<close>: per block of 4096 rows the bounds of the
  values (\<open>BLOCK_ENTRIES\<close> is \<open>CHUNK_LENGTH\<close>), per column the slots whose value is known, and the exact
  evaluation of a term as a set of slots. Roaring bitmaps are sets of slots. A panic is \<open>None\<close>, an error \<open>Some (Inl _)\<close>; the loads
  of the cancellation flag are numbered as in the theory of result orders.
\<close>

section \<open>Blocks and columns\<close>

record numeric_block =
  nb_length :: nat
  nb_minimum :: f64
  nb_maximum :: f64

definition block_empty :: numeric_block where
  "block_empty = \<lparr>nb_length = 0, nb_minimum = PosInf, nb_maximum = NegInf\<rparr>"

definition block_include :: "f64 \<Rightarrow> numeric_block \<Rightarrow> numeric_block" where
  "block_include v b = (if is_nan v then b
    else b\<lparr>nb_minimum := f64_min (nb_minimum b) v, nb_maximum := f64_max (nb_maximum b) v\<rparr>)"

record numeric_column =
  nc_blocks :: "numeric_block list"
  nc_known :: "nat set"
  nc_length :: nat
  nc_dirty :: "nat set"

definition empty_column :: numeric_column where
  "empty_column = \<lparr>nc_blocks = [], nc_known = {}, nc_length = 0, nc_dirty = {}\<rparr>"

definition column_push :: "f64 \<Rightarrow> numeric_column \<Rightarrow> numeric_column option" where
  "column_push v c =
    (let bks = (if nc_length c mod chunk_length = 0 then nc_blocks c @ [block_empty] else nc_blocks c) in
     if bks = [] then None
     else
       let block = (last bks)\<lparr>nb_length := nb_length (last bks) + 1\<rparr> in
       Some (c\<lparr>nc_blocks := butlast bks @ [block_include v block],
         nc_known := (if is_nan v then nc_known c else insert (nc_length c mod 2 ^ 32) (nc_known c)),
         nc_length := nc_length c + 1\<rparr>))"

definition column_put :: "nat \<Rightarrow> f64 \<Rightarrow> numeric_column \<Rightarrow> numeric_column option" where
  "column_put slot v c =
    (if slot = nc_length c then column_push v c
     else Some (c\<lparr>nc_known := (if is_nan v then nc_known c - {slot} else insert slot (nc_known c)),
       nc_dirty := insert (slot div chunk_length) (nc_dirty c)\<rparr>))"

datatype numeric_source = NSize | NModified | NCreated

fun field_column :: "numeric_source \<Rightarrow> entry_chunk \<Rightarrow> scalar_kind \<times> integer_data" where
  "field_column NSize c = (U64, ch_size c)"
| "field_column NModified c = (I64, ch_modified c)"
| "field_column NCreated c = (I64, ch_created c)"

definition field_value :: "numeric_source \<Rightarrow> entry_chunk \<Rightarrow> nat \<Rightarrow> f64 option" where
  "field_value fld c slot = do {
    directory \<leftarrow> (if fld = NSize then map_option (\<lambda>s. and s 1 \<noteq> 0) (state_read c slot) else Some False);
    if directory then Some NaN
    else (case field_column fld c of (k, d) \<Rightarrow> map_option f64_of_int (integer_get k d slot)) }"

fun include_rows :: "numeric_source \<Rightarrow> entry_chunk \<Rightarrow> nat list \<Rightarrow> numeric_block \<Rightarrow> numeric_block option" where
  "include_rows fld c [] b = Some b"
| "include_rows fld c (i # is) b = do {
    v \<leftarrow> field_value fld c i;
    include_rows fld c is (block_include v b) }"

fun refresh_blocks ::
    "numeric_source \<Rightarrow> entry_chunk list \<Rightarrow> nat list \<Rightarrow> numeric_block list \<Rightarrow> numeric_block list option" where
  "refresh_blocks fld cks [] bks = Some bks"
| "refresh_blocks fld cks (i # is) bks = do {
    b \<leftarrow> slice_get bks i;
    source \<leftarrow> slice_get cks i;
    b' \<leftarrow> include_rows fld source [0..<chunk_len source] (b\<lparr>nb_minimum := PosInf, nb_maximum := NegInf\<rparr>);
    refresh_blocks fld cks is (bks[i := b']) }"

definition column_finish_update :: "entry_table \<Rightarrow> numeric_source \<Rightarrow> numeric_column \<Rightarrow> numeric_column option" where
  "column_finish_update t fld c = do {
    bks \<leftarrow> refresh_blocks fld (et_chunks t) (sorted_list_of_set (nc_dirty c)) (nc_blocks c);
    Some (c\<lparr>nc_blocks := bks, nc_dirty := {}\<rparr>) }"

section \<open>Ranges of ranks\<close>

record bounds =
  bd_low :: f64
  bd_high :: f64
  bd_include_low :: bool
  bd_include_high :: bool
  bd_negate :: bool

definition above_lower :: "bounds \<Rightarrow> f64 \<Rightarrow> bool" where
  "above_lower b v = (if bd_include_low b then f64_le (bd_low b) v else f64_lt (bd_low b) v)"

definition below_upper :: "bounds \<Rightarrow> f64 \<Rightarrow> bool" where
  "below_upper b v = (if bd_include_high b then f64_le v (bd_high b) else f64_lt v (bd_high b))"

text \<open>\<open>convert(T::from_rank(middle as u64).unwrap())\<close>.\<close>

definition rank_value :: "scalar_kind \<Rightarrow> nat \<Rightarrow> f64 option" where
  "rank_value k r = map_option f64_of_int (from_rank k (r mod 2 ^ 64))"

function first_rank :: "(nat \<Rightarrow> f64 option) \<Rightarrow> (f64 \<Rightarrow> bool) \<Rightarrow> nat \<Rightarrow> nat \<Rightarrow> nat option" where
  "first_rank convert p low high =
    (if low < high then
       let middle = (low + high) div 2 in
       case convert middle of
         None \<Rightarrow> None
       | Some v \<Rightarrow> if p v then first_rank convert p low middle else first_rank convert p (middle + 1) high
     else Some low)"
  by pat_completeness auto
termination by (relation "measure (\<lambda>(_, _, low, high). high - low)") auto

declare first_rank.simps [simp del]

definition rank_range :: "(nat \<Rightarrow> f64 option) \<Rightarrow> bounds \<Rightarrow> (nat \<times> nat) option option" where
  "rank_range convert b = do {
    lower \<leftarrow> first_rank convert (above_lower b) 0 (2 ^ 64);
    end \<leftarrow> first_rank convert (\<lambda>v. \<not> below_upper b v) 0 (2 ^ 64);
    Some (if lower < end then Some (lower, end - 1) else None) }"

section \<open>Evaluating a term\<close>

definition split_range :: "nat \<Rightarrow> nat \<Rightarrow> 'a list \<Rightarrow> ('a list \<times> 'a list \<times> 'a list) option" where
  "split_range offset n xs = (if offset + n \<le> length xs
    then Some (take offset xs, take n (drop offset xs), drop (offset + n) xs) else None)"

definition block_bits ::
    "bounds \<Rightarrow> numeric_source \<Rightarrow> (nat \<times> nat) option \<Rightarrow> entry_chunk list \<Rightarrow> nat \<Rightarrow> numeric_block \<Rightarrow> u8 list \<Rightarrow> u8 list option" where
  "block_bits b fld ranks cks index block bytes =
    (if f64_lt (nb_maximum block) (nb_minimum block) \<or> \<not> above_lower b (nb_maximum block)
        \<or> \<not> below_upper b (nb_minimum block) then Some bytes
     else do {
       (before, out, after) \<leftarrow> split_range (index * chunk_length div 8) ((nb_length block + 7) div 8) bytes;
       out \<leftarrow> (if above_lower b (nb_minimum block) \<and> below_upper b (nb_maximum block)
         then Some (replicate (length out) 255)
         else case ranks of
           None \<Rightarrow> Some out
         | Some (lower, upper) \<Rightarrow> map_option (\<lambda>source. case field_column fld source of
             (k, d) \<Rightarrow> fill_rank_range k d out lower upper) (slice_get cks index));
       Some (before @ out @ after) })"

fun block_loop ::
    "(nat \<Rightarrow> bool) \<Rightarrow> nat \<Rightarrow> (nat \<Rightarrow> numeric_block \<Rightarrow> u8 list \<Rightarrow> u8 list option) \<Rightarrow> nat \<Rightarrow> numeric_block list \<Rightarrow> u8 list
      \<Rightarrow> (u8 list \<times> nat) result option" where
  "block_loop cancelled k step index [] bytes = Some (Inr (bytes, k))"
| "block_loop cancelled k step index (block # bks) bytes =
    (if cancelled k then Some (Inl query_cancelled)
     else Option.bind (step index block bytes)
       (\<lambda>bytes'. block_loop cancelled (k + 1) step (index + 1) bks bytes'))"

definition bitmap_of_bytes :: "u8 list \<Rightarrow> nat set" where
  "bitmap_of_bytes bytes = set (filter (bit_at bytes) [0..<8 * length bytes])"

definition column_range ::
    "(nat \<Rightarrow> bool) \<Rightarrow> nat \<Rightarrow> bounds \<Rightarrow> entry_table \<Rightarrow> numeric_source \<Rightarrow> nat set \<Rightarrow> numeric_column \<Rightarrow> nat set result option" where
  "column_range cancelled k b t fld live c = do {
    ranks \<leftarrow> rank_range (rank_value (if fld = NSize then U64 else I64)) b;
    r \<leftarrow> block_loop cancelled k (block_bits b fld ranks (et_chunks t)) 0 (nc_blocks c)
      (replicate ((nc_length c + 7) div 8) 0);
    Some (case r of
      Inl e \<Rightarrow> Inl e
    | Inr (bytes, k') \<Rightarrow>
        if cancelled k' then Inl query_cancelled
        else Inr ((if bd_negate b then nc_known c - bitmap_of_bytes bytes else bitmap_of_bytes bytes \<inter> nc_known c) \<inter> live)) }"

record numeric_columns =
  nu_size :: numeric_column
  nu_modified :: numeric_column
  nu_created :: numeric_column

fun supports :: "query_term \<Rightarrow> bool" where
  "supports (Number fld _ _ _ _ _) = (fld \<in> {lit ''size'', lit ''modified'', lit ''created''})"
| "supports (Unknown fld _) = (fld \<in> {lit ''size'', lit ''modified'', lit ''created''})"
| "supports _ = False"

definition size_value :: "file_entry \<Rightarrow> f64" where
  "size_value f = (if is_dir f then NaN else f64_of_int (int (size f)))"

definition empty_columns :: numeric_columns where
  "empty_columns = \<lparr>nu_size = empty_column, nu_modified = empty_column, nu_created = empty_column\<rparr>"

fun build_rows :: "(entry_chunk \<times> nat) list \<Rightarrow> numeric_columns \<Rightarrow> numeric_columns option" where
  "build_rows [] cs = Some cs"
| "build_rows ((chunk, i) # rows) cs = do {
    v \<leftarrow> field_value NSize chunk i;
    c1 \<leftarrow> column_push v (nu_size cs);
    v \<leftarrow> field_value NModified chunk i;
    c2 \<leftarrow> column_push v (nu_modified cs);
    v \<leftarrow> field_value NCreated chunk i;
    c3 \<leftarrow> column_push v (nu_created cs);
    build_rows rows \<lparr>nu_size = c1, nu_modified = c2, nu_created = c3\<rparr> }"

definition columns_build :: "entry_table \<Rightarrow> numeric_columns option" where
  "columns_build t = build_rows (table_iter t) empty_columns"

definition columns_set :: "nat \<Rightarrow> file_entry \<Rightarrow> numeric_columns \<Rightarrow> numeric_columns option" where
  "columns_set slot f cs = do {
    c1 \<leftarrow> column_put slot (size_value f) (nu_size cs);
    c2 \<leftarrow> column_put slot (f64_of_int (modified f)) (nu_modified cs);
    c3 \<leftarrow> column_put slot (f64_of_int (created f)) (nu_created cs);
    Some \<lparr>nu_size = c1, nu_modified = c2, nu_created = c3\<rparr> }"

definition columns_finish_update :: "entry_table \<Rightarrow> numeric_columns \<Rightarrow> numeric_columns option" where
  "columns_finish_update t cs = do {
    c1 \<leftarrow> column_finish_update t NSize (nu_size cs);
    c2 \<leftarrow> column_finish_update t NModified (nu_modified cs);
    c3 \<leftarrow> column_finish_update t NCreated (nu_created cs);
    Some \<lparr>nu_size = c1, nu_modified = c2, nu_created = c3\<rparr> }"

definition named_column :: "str \<Rightarrow> numeric_columns \<Rightarrow> (numeric_source \<times> numeric_column) option" where
  "named_column fld cs =
    (if fld = lit ''size'' then Some (NSize, nu_size cs)
     else if fld = lit ''modified'' then Some (NModified, nu_modified cs)
     else if fld = lit ''created'' then Some (NCreated, nu_created cs)
     else None)"

fun exact_term ::
    "(nat \<Rightarrow> bool) \<Rightarrow> query_term \<Rightarrow> entry_table \<Rightarrow> nat set \<Rightarrow> numeric_columns \<Rightarrow> nat set option result option" where
  "exact_term cancelled (Number fld low high include_low include_high negate) t live cs =
    (case named_column fld cs of
       None \<Rightarrow> Some (Inr None)
     | Some (source, column) \<Rightarrow> map_option (\<lambda>r. case r of Inl e \<Rightarrow> Inl e | Inr s \<Rightarrow> Inr (Some s))
         (column_range cancelled 1 \<lparr>bd_low = low, bd_high = high, bd_include_low = include_low,
           bd_include_high = include_high, bd_negate = negate\<rparr> t source live column))"
| "exact_term cancelled (Unknown fld negate) t live cs =
    (case named_column fld cs of
       None \<Rightarrow> Some (Inr None)
     | Some (_, column) \<Rightarrow> Some (Inr (Some (if negate then nc_known column \<inter> live else live - nc_known column))))"
| "exact_term cancelled _ t live cs = Some (Inr None)"

definition exact ::
    "(nat \<Rightarrow> bool) \<Rightarrow> query_term \<Rightarrow> entry_table \<Rightarrow> nat set \<Rightarrow> numeric_columns \<Rightarrow> nat set option result option" where
  "exact cancelled t table live cs =
    (if cancelled 0 then Some (Inl query_cancelled) else exact_term cancelled t table live cs)"


section \<open>Boundaries of ranks\<close>

text \<open>
  The search for a boundary needs a conversion that is total on the ranks, never gives a number that is not
  one, and is monotone; the conversions of the two column types are.
\<close>

definition upward :: "(f64 \<Rightarrow> bool) \<Rightarrow> bool" where
  "upward p \<longleftrightarrow> (\<forall>v w. v \<noteq> NaN \<longrightarrow> w \<noteq> NaN \<longrightarrow> f64_le v w \<longrightarrow> p v \<longrightarrow> p w)"

lemma upward_above: "upward (above_lower b)"
  by (auto simp: upward_def above_lower_def dest: f64_le_trans f64_lt_le_trans)

lemma upward_below: "upward (\<lambda>v. \<not> below_upper b v)"
  by (auto simp: upward_def below_upper_def dest: f64_le_trans f64_le_lt_trans)

locale monotone_ranks =
  fixes limit :: nat and conv :: "nat \<Rightarrow> f64 option"
  assumes conv_total: "r < limit \<Longrightarrow> \<exists>v. conv r = Some v \<and> v \<noteq> NaN"
    and conv_mono: "r \<le> s \<Longrightarrow> s < limit \<Longrightarrow> conv r = Some v \<Longrightarrow> conv s = Some w \<Longrightarrow> f64_le v w"
begin

lemma upward_conv:
  assumes "upward p" "r \<le> s" "s < limit" "conv r = Some v" "conv s = Some w" "p v"
  shows "p w"
proof -
  have "v \<noteq> NaN" "w \<noteq> NaN" using conv_total[of r] conv_total[of s] assms by auto
  then show ?thesis using conv_mono assms unfolding upward_def by blast
qed

lemma first_rank_ok:
  assumes "upward p" "low \<le> high" "high \<le> limit"
  shows "\<exists>r. first_rank conv p low high = Some r \<and> low \<le> r \<and> r \<le> high \<and>
    (\<forall>x v. low \<le> x \<longrightarrow> x < high \<longrightarrow> conv x = Some v \<longrightarrow> p v \<longleftrightarrow> r \<le> x)"
  using assms(2,3)
proof (induction "high - low" arbitrary: low high rule: less_induct)
  case less
  show ?case
  proof (cases "low < high")
    case True
    let ?m = "(low + high) div 2"
    have m: "low \<le> ?m" "?m < high" using True by simp_all
    obtain v where v: "conv ?m = Some v" using conv_total[of ?m] m less.prems by auto
    show ?thesis
    proof (cases "p v")
      case True
      obtain r where r: "first_rank conv p low ?m = Some r" "low \<le> r" "r \<le> ?m"
        "\<And>x v. low \<le> x \<Longrightarrow> x < ?m \<Longrightarrow> conv x = Some v \<Longrightarrow> p v \<longleftrightarrow> r \<le> x"
        using less.hyps[OF _ m(1)] m less.prems(2) diff_less_mono[OF m(2,1)] by fastforce
      have "p w \<longleftrightarrow> r \<le> x" if "low \<le> x" "x < high" "conv x = Some w" for x w
        using r(3,4) that upward_conv[OF assms(1), of ?m x v w] v True less.prems(2)
        by (cases "x < ?m") auto
      then show ?thesis using r m \<open>low < high\<close> v True
        by (subst first_rank.simps) (auto simp: Let_def)
    next
      case False
      obtain r where r: "first_rank conv p (?m + 1) high = Some r" "?m + 1 \<le> r" "r \<le> high"
        "\<And>x v. ?m + 1 \<le> x \<Longrightarrow> x < high \<Longrightarrow> conv x = Some v \<Longrightarrow> p v \<longleftrightarrow> r \<le> x"
        using less.hyps[of high "?m + 1"] m less.prems(2) by fastforce
      have "p w \<longleftrightarrow> r \<le> x" if "low \<le> x" "x < high" "conv x = Some w" for x w
        using r(2,4) that upward_conv[OF assms(1), of x ?m w v] v False m less.prems(2)
        by (cases "x \<le> ?m") auto
      then show ?thesis using r m \<open>low < high\<close> v False
        by (subst first_rank.simps) (auto simp: Let_def)
    qed
  next
    case False
    then show ?thesis using less.prems by (subst first_rank.simps) auto
  qed
qed

lemma rank_range_ok:
  assumes "limit = 2 ^ 64"
  shows "\<exists>ranks. rank_range conv b = Some ranks \<and>
    (\<forall>r v. r < limit \<longrightarrow> conv r = Some v \<longrightarrow>
      (above_lower b v \<and> below_upper b v \<longleftrightarrow> (case ranks of None \<Rightarrow> False | Some (lower, upper) \<Rightarrow> lower \<le> r \<and> r \<le> upper)))"
proof -
  obtain lower where lower: "first_rank conv (above_lower b) 0 limit = Some lower"
    "\<And>r v. r < limit \<Longrightarrow> conv r = Some v \<Longrightarrow> above_lower b v \<longleftrightarrow> lower \<le> r"
    using first_rank_ok[OF upward_above le0 order_refl] by blast
  obtain e where e: "first_rank conv (\<lambda>v. \<not> below_upper b v) 0 limit = Some e"
    "\<And>r v. r < limit \<Longrightarrow> conv r = Some v \<Longrightarrow> \<not> below_upper b v \<longleftrightarrow> e \<le> r"
    using first_rank_ok[OF upward_below le0 order_refl] by blast
  have "above_lower b v \<and> below_upper b v \<longleftrightarrow> lower \<le> r \<and> r < e" if "r < limit" "conv r = Some v" for r v
    using lower(2)[OF that] e(2)[OF that] by auto
  then show ?thesis using lower(1) e(1) assms by (auto simp: rank_range_def)
qed

end

lemma from_rank_wide:
  "k \<in> {U64, I64} \<Longrightarrow> r < 2 ^ 64 \<Longrightarrow> from_rank k r = Some (if k = U64 then int r else int r - 2 ^ 63)"
  by (auto simp: from_rank_I64 simp del: from_rank.simps(2))

lemma rank_value_wide:
  "k \<in> {U64, I64} \<Longrightarrow> r < 2 ^ 64 \<Longrightarrow> rank_value k r = Some (f64_of_int (if k = U64 then int r else int r - 2 ^ 63))"
  by (simp add: rank_value_def from_rank_wide del: from_rank.simps)

interpretation u64_ranks: monotone_ranks "2 ^ 64" "rank_value U64"
  by unfold_locales (auto simp: rank_value_wide f64_of_int_not_nan intro!: f64_of_int_mono)

interpretation i64_ranks: monotone_ranks "2 ^ 64" "rank_value I64"
  by unfold_locales (auto simp: rank_value_wide f64_of_int_not_nan intro!: f64_of_int_mono)

lemma rank_range_field:
  assumes "k \<in> {U64, I64}"
  shows "\<exists>ranks. rank_range (rank_value k) b = Some ranks \<and>
    (\<forall>v. scalar_valid k v \<longrightarrow> (above_lower b (f64_of_int v) \<and> below_upper b (f64_of_int v) \<longleftrightarrow>
      (case ranks of None \<Rightarrow> False | Some (lower, upper) \<Rightarrow> lower \<le> rank k v \<and> rank k v \<le> upper)))"
proof -
  have "rank_value k (rank k v) = Some (f64_of_int v)" if "scalar_valid k v" for v
    using from_rank_rank[OF that] rank_bound[OF that] by (simp add: rank_value_def del: from_rank.simps rank.simps)
  moreover have "\<exists>ranks. rank_range (rank_value k) b = Some ranks \<and>
    (\<forall>r v. r < 2 ^ 64 \<longrightarrow> rank_value k r = Some v \<longrightarrow> (above_lower b v \<and> below_upper b v \<longleftrightarrow>
      (case ranks of None \<Rightarrow> False | Some (lower, upper) \<Rightarrow> lower \<le> r \<and> r \<le> upper)))"
    using assms u64_ranks.rank_range_ok i64_ranks.rank_range_ok by auto
  ultimately show ?thesis using rank_bound by blast
qed

section \<open>What a column stands for\<close>

definition block_values :: "f64 list \<Rightarrow> nat \<Rightarrow> f64 list" where
  "block_values vs i = take chunk_length (drop (chunk_length * i) vs)"

definition block_of :: "f64 list \<Rightarrow> numeric_block" where
  "block_of vs = (fold block_include vs block_empty)\<lparr>nb_length := length vs\<rparr>"

definition column_repr :: "numeric_column \<Rightarrow> f64 list \<Rightarrow> bool" where
  "column_repr c vs \<longleftrightarrow> nc_length c = length vs \<and> nc_known c = {i. i < length vs \<and> vs ! i \<noteq> NaN} \<and>
    length (nc_blocks c) = (length vs + (chunk_length - 1)) div chunk_length \<and>
    (\<forall>i < length (nc_blocks c). nb_length (nc_blocks c ! i) = length (block_values vs i) \<and>
      (i \<notin> nc_dirty c \<longrightarrow> nc_blocks c ! i = block_of (block_values vs i))) \<and>
    nc_dirty c \<subseteq> {..<length (nc_blocks c)}"

lemma include_length [simp]: "nb_length (block_include v b) = nb_length b"
  by (simp add: block_include_def)

lemma fold_include_length [simp]: "nb_length (fold block_include vs b) = nb_length b"
  by (induction vs arbitrary: b) simp_all

lemma include_set_length: "block_include v (b\<lparr>nb_length := n\<rparr>) = (block_include v b)\<lparr>nb_length := n\<rparr>"
  by (simp add: block_include_def)

lemma fold_include_set_length:
  "fold block_include vs (b\<lparr>nb_length := n\<rparr>) = (fold block_include vs b)\<lparr>nb_length := n\<rparr>"
  by (induction vs arbitrary: b) (simp_all add: include_set_length)

lemma block_of_snoc:
  "block_of (vs @ [v]) = block_include v ((block_of vs)\<lparr>nb_length := nb_length (block_of vs) + 1\<rparr>)"
  by (simp add: block_of_def include_set_length)

lemma block_of_Nil [simp]: "block_of [] = block_empty"
  by (simp add: block_of_def block_empty_def)

lemma nb_length_block_of [simp]: "nb_length (block_of vs) = length vs"
  by (simp add: block_of_def)

lemma length_block_values: "length (block_values vs i) = block_rows (length vs) i"
  by (simp add: block_values_def block_rows_def min.commute)

lemma full_block: "i < length vs div chunk_length \<Longrightarrow> chunk_length * i + chunk_length \<le> length vs"
  using less_eq_div_iff_mult_less_eq[OF chunk_length_pos, of "Suc i" "length vs"] by (simp add: mult.commute)

lemma block_values_before: "i < length vs div chunk_length \<Longrightarrow> block_values (vs @ ws) i = block_values vs i"
  using full_block[of i vs] by (simp add: block_values_def)

lemma block_values_last:
  "block_values (vs @ [v]) (length vs div chunk_length) = block_values vs (length vs div chunk_length) @ [v]"
proof -
  let ?q = "length vs div chunk_length"
  have "length vs = chunk_length * ?q + length vs mod chunk_length" by simp
  moreover have "length vs mod chunk_length < chunk_length" by simp
  ultimately have "chunk_length * ?q \<le> length vs" "length vs - chunk_length * ?q < chunk_length" by linarith+
  then show ?thesis by (simp add: block_values_def)
qed

lemma block_values_other: "i \<noteq> slot div chunk_length \<Longrightarrow> block_values (vs[slot := v]) i = block_values vs i"
proof -
  assume "i \<noteq> slot div chunk_length"
  then have "slot < chunk_length * i \<or> chunk_length * i + chunk_length \<le> slot"
    using div_nat_eqI[of chunk_length i slot] by force
  then show ?thesis
    unfolding block_values_def
    by (intro nth_equalityI) (auto simp: nth_list_update)
qed

lemma column_repr_empty: "column_repr empty_column []"
  by (simp add: column_repr_def empty_column_def chunk_length_def)

lemma column_push_ok:
  assumes repr: "column_repr c vs" and small: "length vs < 2 ^ 32"
  shows "\<exists>c'. column_push v c = Some c' \<and> column_repr c' (vs @ [v]) \<and> nc_dirty c' = nc_dirty c"
proof -
  let ?q = "length vs div chunk_length"
  let ?bs = "if nc_length c mod chunk_length = 0 then nc_blocks c @ [block_empty] else nc_blocks c"
  note R = repr[unfolded column_repr_def div_ceil[OF chunk_length_pos]]
  have len: "length ?bs = Suc ?q" using R by simp
  have last: "nb_length (?bs ! ?q) = length (block_values vs ?q) \<and> (?q \<notin> nc_dirty c \<longrightarrow> ?bs ! ?q = block_of (block_values vs ?q))"
  proof (cases "length vs mod chunk_length = 0")
    case True
    then have "block_values vs ?q = []" by (auto simp: block_values_def)
    moreover have "?bs ! ?q = block_empty" using True R by (auto simp: nth_append)
    ultimately show ?thesis by (simp add: block_empty_def)
  next
    case False
    then show ?thesis using R by simp
  qed
  have before: "nb_length (?bs ! i) = length (block_values vs i) \<and> (i \<notin> nc_dirty c \<longrightarrow> ?bs ! i = block_of (block_values vs i))"
    if "i < ?q" for i
    using R that by (auto simp: nth_append)
  define b where "b = block_include v ((?bs ! ?q)\<lparr>nb_length := nb_length (?bs ! ?q) + 1\<rparr>)"
  define c' where "c' = c\<lparr>nc_blocks := butlast ?bs @ [b],
    nc_known := (if is_nan v then nc_known c else insert (length vs) (nc_known c)), nc_length := length vs + 1\<rparr>"
  have ne: "?bs \<noteq> []" using len by (metis Zero_not_Suc list.size(3))
  have lst: "List.last ?bs = ?bs ! ?q" using last_conv_nth[OF ne] unfolding len by simp
  have push: "column_push v c = Some c'"
    unfolding column_push_def Let_def using ne lst small R
    by (simp only: if_False) (simp add: c'_def b_def)
  have blocks: "nc_blocks c' = butlast ?bs @ [b]" and dirty: "nc_dirty c' = nc_dirty c" by (simp_all add: c'_def)
  have len': "length (nc_blocks c') = Suc ?q" using len by (simp add: blocks)
  have ceil: "(length (vs @ [v]) + (chunk_length - 1)) div chunk_length = Suc ?q"
  proof -
    have e: "length (vs @ [v]) + (chunk_length - 1) = length vs + chunk_length" using chunk_length_pos by simp
    show ?thesis unfolding e by simp
  qed
  have at: "nc_blocks c' ! i = (if i = ?q then b else ?bs ! i)" if "i < Suc ?q" for i
    using len that by (auto simp: blocks nth_append nth_butlast)
  have "nb_length (nc_blocks c' ! i) = length (block_values (vs @ [v]) i) \<and>
      (i \<notin> nc_dirty c' \<longrightarrow> nc_blocks c' ! i = block_of (block_values (vs @ [v]) i))" if "i < Suc ?q" for i
  proof (cases "i = ?q")
    case True
    have "nc_blocks c' ! i = b" using at[OF that] True by simp
    then show ?thesis
      using last by (simp only: True dirty b_def block_values_last block_of_snoc include_length nb_length_block_of
          length_append_singleton) simp
  next
    case False
    then have i: "i < ?q" using that by simp
    show ?thesis using before[OF i] False unfolding at[OF that] dirty by (simp add: block_values_before[OF i])
  qed
  moreover have "nc_known c' = {i. i < length (vs @ [v]) \<and> (vs @ [v]) ! i \<noteq> NaN}"
    using R by (auto simp: c'_def is_nan_def nth_append less_Suc_eq)
  moreover have "nc_dirty c' \<subseteq> {..<Suc ?q}"
  proof -
    have "length (nc_blocks c) \<le> Suc ?q" using R by (auto simp: of_bool_def)
    moreover have "nc_dirty c \<subseteq> {..<length (nc_blocks c)}" using repr unfolding column_repr_def by blast
    ultimately show ?thesis unfolding dirty by (meson lessThan_subset_iff subset_trans)
  qed
  ultimately have "column_repr c' (vs @ [v])"
    unfolding column_repr_def ceil len' by (simp add: c'_def)
  then show ?thesis using push by (auto simp: c'_def)
qed

lemma column_put_ok:
  assumes repr: "column_repr c vs" and small: "length vs < 2 ^ 32" and slot: "slot \<le> length vs"
  shows "\<exists>c'. column_put slot v c = Some c' \<and> column_repr c' (if slot = length vs then vs @ [v] else vs[slot := v])"
proof (cases "slot = length vs")
  case True
  then show ?thesis using column_push_ok[OF repr small, of v] repr by (auto simp: column_put_def column_repr_def)
next
  case False
  let ?q = "slot div chunk_length"
  note R = repr[unfolded column_repr_def]
  define c' where "c' = c\<lparr>nc_known := (if is_nan v then nc_known c - {slot} else insert slot (nc_known c)),
    nc_dirty := insert ?q (nc_dirty c)\<rparr>"
  have slot': "slot < length vs" using slot False by simp
  then have "?q < length (nc_blocks c)"
    using R div_ceil_less[OF chunk_length_pos le_less_trans[OF div_times_less_eq_dividend slot']] by simp
  moreover have "nc_known c' = {i. i < length (vs[slot := v]) \<and> vs[slot := v] ! i \<noteq> NaN}"
    using R slot' by (auto simp: c'_def is_nan_def nth_list_update split: if_splits)
  ultimately have "column_repr c' (vs[slot := v])"
    using R slot' unfolding column_repr_def by (auto simp: c'_def block_values_other length_block_values)
  then show ?thesis using False R by (auto simp: column_put_def c'_def)
qed

section \<open>The values of a table\<close>

fun row_value :: "numeric_source \<Rightarrow> file_entry \<Rightarrow> f64" where
  "row_value NSize f = size_value f"
| "row_value NModified f = f64_of_int (modified f)"
| "row_value NCreated f = f64_of_int (created f)"

lemma row_value_owned [simp]: "row_value fld (to_owned_file f) = row_value fld f"
  by (cases fld) (simp_all add: to_owned_file_def size_value_def)

definition table_values :: "numeric_source \<Rightarrow> entry_table \<Rightarrow> f64 list" where
  "table_values fld t = map (row_value fld) (table_rows t)"

lemma length_table_values [simp]: "length (table_values fld t) = et_length t"
  by (simp add: table_values_def)

lemma field_value_view:
  assumes "wf_chunk n c" "chunk_view c i = Some f" "i < n"
  shows "field_value fld c i = Some (row_value fld f)"
proof -
  have cols: "wf_integer U64 (ch_size c)" "integer_len (ch_size c) = n"
    using assms(1) by (simp_all add: wf_chunk_def columns_ok_def number_columns_def)
  then have "scalar_valid U64 v" if "integer_get U64 (ch_size c) i = Some v" for v
    using wf_integer_valid[OF cols(1)] slice_get_mem that cols by (metis integer_get_list)
  then show ?thesis
    using assms(2) by (cases fld) (auto simp: field_value_def chunk_view_def size_value_def split: bind_splits)
qed

lemma block_field_value:
  assumes wf: "wf_table t" and i: "i < length (et_chunks t)" and j: "j < chunk_len (et_chunks t ! i)"
  shows "chunk_length * i + j < et_length t"
    "field_value fld (et_chunks t ! i) j = Some (table_values fld t ! (chunk_length * i + j))"
proof -
  have w: "wf_chunk (block_rows (et_length t) i) (et_chunks t ! i)" using wf i by (simp add: wf_table_def)
  then have j': "j < block_rows (et_length t) i" using j wf_chunk_len by simp
  then have jk: "j < chunk_length" "chunk_length * i + j < et_length t" by (simp_all add: block_rows_def less_diff_conv)
  then show "chunk_length * i + j < et_length t" by simp
  let ?s = "chunk_length * i + j"
  have dm: "?s div chunk_length = i" "?s mod chunk_length = j" using jk(1) by simp_all
  obtain f where f: "table_row t ?s = Some f" using table_row_Some[OF wf jk(2)] by blast
  then have "chunk_view (et_chunks t ! i) j = Some f" using table_row_at[OF wf jk(2)] dm by simp
  then show "field_value fld (et_chunks t ! i) j = Some (table_values fld t ! ?s)"
    using field_value_view[OF w _ j'] f jk(2) by (simp add: table_values_def table_rows_nth)
qed

lemma table_block_values:
  assumes wf: "wf_table t" and i: "i < length (et_chunks t)"
  shows "block_values (table_values fld t) i = map (\<lambda>j. the (field_value fld (et_chunks t ! i) j)) [0..<chunk_len (et_chunks t ! i)]"
    "length (block_values (table_values fld t) i) = chunk_len (et_chunks t ! i)"
proof -
  have "wf_chunk (block_rows (et_length t) i) (et_chunks t ! i)" using wf i by (simp add: wf_table_def)
  then show len: "length (block_values (table_values fld t) i) = chunk_len (et_chunks t ! i)"
    using wf_chunk_len by (simp add: length_block_values)
  show "block_values (table_values fld t) i = map (\<lambda>j. the (field_value fld (et_chunks t ! i) j)) [0..<chunk_len (et_chunks t ! i)]"
  proof (rule nth_equalityI)
    fix j assume j: "j < length (block_values (table_values fld t) i)"
    then have "j < chunk_len (et_chunks t ! i)" using len by simp
    with j show "block_values (table_values fld t) i ! j = map (\<lambda>j. the (field_value fld (et_chunks t ! i) j)) [0..<chunk_len (et_chunks t ! i)] ! j"
      using block_field_value(2)[OF wf i, of j fld] len by (simp add: block_values_def)
  qed (simp add: len)
qed

lemma include_rows_ok:
  "(\<And>j. j \<in> set is \<Longrightarrow> field_value fld c j = Some (v j)) \<Longrightarrow>
   include_rows fld c is b = Some (fold block_include (map v is) b)"
  by (induction "is" arbitrary: b) simp_all

lemma refresh_block:
  assumes wf: "wf_table t" and i: "i < length (et_chunks t)"
    and b: "nb_length b = length (block_values (table_values fld t) i)"
  shows "include_rows fld (et_chunks t ! i) [0..<chunk_len (et_chunks t ! i)] (b\<lparr>nb_minimum := PosInf, nb_maximum := NegInf\<rparr>)
    = Some (block_of (block_values (table_values fld t) i))"
proof -
  let ?vs = "block_values (table_values fld t) i"
  have eq: "b\<lparr>nb_minimum := PosInf, nb_maximum := NegInf\<rparr> = block_empty\<lparr>nb_length := length ?vs\<rparr>"
    using b by (cases b) (simp add: block_empty_def)
  have "include_rows fld (et_chunks t ! i) [0..<chunk_len (et_chunks t ! i)] (block_empty\<lparr>nb_length := length ?vs\<rparr>)
      = Some (fold block_include ?vs (block_empty\<lparr>nb_length := length ?vs\<rparr>))"
    unfolding table_block_values(1)[OF wf i] using block_field_value(2)[OF wf i]
    by (intro include_rows_ok) auto
  then show ?thesis unfolding eq by (simp add: fold_include_set_length block_of_def)
qed

lemma refresh_blocks_ok:
  assumes wf: "wf_table t" and len: "length bks = length (et_chunks t)" and "\<forall>i \<in> set is. i < length bks"
    and "\<forall>i < length bks. nb_length (bks ! i) = length (block_values (table_values fld t) i)"
  shows "\<exists>bks'. refresh_blocks fld (et_chunks t) is bks = Some bks' \<and> length bks' = length bks \<and>
    (\<forall>i < length bks. bks' ! i = (if i \<in> set is then block_of (block_values (table_values fld t) i) else bks ! i))"
  using assms(2-)
proof (induction "is" arbitrary: bks)
  case (Cons i js)
  let ?b = "block_of (block_values (table_values fld t) i)"
  have i: "i < length bks" "i < length (et_chunks t)" using Cons.prems by simp_all
  have "\<exists>bks'. refresh_blocks fld (et_chunks t) js (bks[i := ?b]) = Some bks' \<and> length bks' = length (bks[i := ?b]) \<and>
      (\<forall>k < length (bks[i := ?b]). bks' ! k = (if k \<in> set js then block_of (block_values (table_values fld t) k) else bks[i := ?b] ! k))"
    by (rule Cons.IH) (use Cons.prems in \<open>auto simp: nth_list_update\<close>)
  then show ?case
    using i refresh_block[OF wf i(2), of "bks ! i" fld] Cons.prems(3) by (auto simp: slice_get_def nth_list_update)
qed simp

lemma column_finish_update_ok:
  assumes wf: "wf_table t" and repr: "column_repr c (table_values fld t)"
  shows "\<exists>c'. column_finish_update t fld c = Some c' \<and> column_repr c' (table_values fld t) \<and> nc_dirty c' = {}"
proof -
  note R = repr[unfolded column_repr_def]
  have len: "length (nc_blocks c) = length (et_chunks t)" using R wf by (simp add: wf_table_def)
  have fin: "finite (nc_dirty c)" using R finite_subset[OF _ finite_lessThan] by blast
  let ?is = "sorted_list_of_set (nc_dirty c)"
  have "\<exists>bks. refresh_blocks fld (et_chunks t) ?is (nc_blocks c) = Some bks \<and> length bks = length (nc_blocks c) \<and>
      (\<forall>i < length (nc_blocks c). bks ! i = (if i \<in> set ?is then block_of (block_values (table_values fld t) i) else nc_blocks c ! i))"
    by (rule refresh_blocks_ok[OF wf len]) (use R fin in auto)
  then obtain bks where bks: "refresh_blocks fld (et_chunks t) ?is (nc_blocks c) = Some bks"
    "length bks = length (nc_blocks c)"
    "\<forall>i < length (nc_blocks c). bks ! i = (if i \<in> nc_dirty c then block_of (block_values (table_values fld t) i) else nc_blocks c ! i)"
    using fin by auto
  then have "column_repr (c\<lparr>nc_blocks := bks, nc_dirty := {}\<rparr>) (table_values fld t)"
    using R by (auto simp: column_repr_def)
  then show ?thesis using bks(1) by (simp add: column_finish_update_def)
qed

section \<open>Ranges are exact\<close>

lemma f64_min_le: "a \<noteq> NaN \<Longrightarrow> b \<noteq> NaN \<Longrightarrow> f64_le (f64_min a b) a \<and> f64_le (f64_min a b) b \<and> f64_min a b \<noteq> NaN"
  by (cases a; cases b) (auto simp: f64_min_def is_nan_def)

lemma f64_max_ge: "a \<noteq> NaN \<Longrightarrow> b \<noteq> NaN \<Longrightarrow> f64_le a (f64_max a b) \<and> f64_le b (f64_max a b) \<and> f64_max a b \<noteq> NaN"
  by (cases a; cases b) (auto simp: f64_max_def is_nan_def)

lemma fold_include_bounds:
  assumes "nb_minimum b \<noteq> NaN" "nb_maximum b \<noteq> NaN"
  shows "f64_le (nb_minimum (fold block_include vs b)) (nb_minimum b) \<and> f64_le (nb_maximum b) (nb_maximum (fold block_include vs b)) \<and>
    (\<forall>v \<in> set vs. v \<noteq> NaN \<longrightarrow> f64_le (nb_minimum (fold block_include vs b)) v \<and> f64_le v (nb_maximum (fold block_include vs b)))"
  using assms
proof (induction vs arbitrary: b)
  case Nil
  then show ?case by (cases "nb_minimum b"; cases "nb_maximum b") simp_all
next
  case (Cons v vs)
  let ?b = "block_include v b"
  have b: "nb_minimum ?b \<noteq> NaN" "nb_maximum ?b \<noteq> NaN"
    "f64_le (nb_minimum ?b) (nb_minimum b)" "f64_le (nb_maximum b) (nb_maximum ?b)"
    "v \<noteq> NaN \<Longrightarrow> f64_le (nb_minimum ?b) v \<and> f64_le v (nb_maximum ?b)"
    using Cons.prems f64_min_le[of "nb_minimum b" v] f64_max_ge[of "nb_maximum b" v]
    by (cases "nb_minimum b"; cases "nb_maximum b"; auto simp: block_include_def is_nan_def)+
  show ?case using Cons.IH[OF b(1,2)] b(3-5) by (auto intro: f64_le_trans)
qed

lemma block_of_bounds:
  assumes "v \<in> set vs" "v \<noteq> NaN"
  shows "f64_le (nb_minimum (block_of vs)) v" "f64_le v (nb_maximum (block_of vs))"
    "nb_minimum (block_of vs) \<noteq> NaN" "nb_maximum (block_of vs) \<noteq> NaN"
proof -
  show "f64_le (nb_minimum (block_of vs)) v" "f64_le v (nb_maximum (block_of vs))"
    using fold_include_bounds[of block_empty vs] assms by (auto simp: block_of_def block_empty_def)
  then show "nb_minimum (block_of vs) \<noteq> NaN" "nb_maximum (block_of vs) \<noteq> NaN" by (cases v; auto)+
qed

text \<open>The bounds of a block decide for all of its values when they exclude the block or lie inside the range.\<close>

lemma block_skipped:
  assumes "v \<in> set vs" "v \<noteq> NaN"
    "f64_lt (nb_maximum (block_of vs)) (nb_minimum (block_of vs)) \<or> \<not> above_lower b (nb_maximum (block_of vs))
      \<or> \<not> below_upper b (nb_minimum (block_of vs))"
  shows "\<not> (above_lower b v \<and> below_upper b v)"
proof -
  note bnd = block_of_bounds[OF assms(1,2)]
  have "\<not> f64_lt (nb_maximum (block_of vs)) (nb_minimum (block_of vs))"
    using f64_le_trans[OF bnd(1,2)] f64_not_le[OF bnd(3,4)] by blast
  moreover have "above_lower b v \<Longrightarrow> above_lower b (nb_maximum (block_of vs))"
    using upward_above[of b] bnd assms(2) unfolding upward_def by blast
  moreover have "below_upper b v \<Longrightarrow> below_upper b (nb_minimum (block_of vs))"
    using upward_below[of b] bnd assms(2) unfolding upward_def by blast
  ultimately show ?thesis using assms(3) by blast
qed

lemma block_inside:
  assumes "v \<in> set vs" "v \<noteq> NaN" "above_lower b (nb_minimum (block_of vs))" "below_upper b (nb_maximum (block_of vs))"
  shows "above_lower b v \<and> below_upper b v"
  using upward_above[of b] upward_below[of b] block_of_bounds[OF assms(1,2)] assms unfolding upward_def by blast

lemma bit_at_middle:
  assumes "length before * 8 \<le> s" "s < length before * 8 + length out * 8"
  shows "bit_at (before @ out @ after) s \<longleftrightarrow> bit_at out (s - length before * 8)"
proof -
  let ?r = "s - length before * 8"
  have s: "s = length before * 8 + ?r" "?r < length out * 8" using assms by simp_all
  have "s div 8 = length before + ?r div 8" "s mod 8 = ?r mod 8" by (subst s(1), simp)+
  moreover have "?r div 8 < length out" using s(2) by (simp add: less_mult_imp_div_less)
  ultimately show ?thesis by (simp add: bit_at_def nth_append)
qed

lemma bit_at_outside:
  assumes "s < length before * 8 \<or> length before * 8 + length out * 8 \<le> s" "length out' = length out"
  shows "bit_at (before @ out @ after) s \<longleftrightarrow> bit_at (before @ out' @ after) s"
proof -
  have "s div 8 < length before \<or> length before + length out \<le> s div 8" using assms(1) by linarith
  then show ?thesis using assms(2) by (auto simp: bit_at_def nth_append)
qed

lemma split_range_Some:
  assumes "offset + n \<le> length xs"
  shows "\<exists>a b c. split_range offset n xs = Some (a, b, c) \<and> xs = a @ b @ c \<and> length a = offset \<and> length b = n"
proof -
  have "xs = take offset xs @ take n (drop offset xs) @ drop (offset + n) xs"
    by (metis append_take_drop_id drop_drop add.commute)
  then show ?thesis using assms by (simp add: split_range_def)
qed

lemma segment_arith:
  shows "i * chunk_length div 8 * 8 = chunk_length * i"
    and "n \<le> chunk_length \<Longrightarrow> (n + 7) div 8 * 8 \<le> chunk_length"
    and "chunk_length * i + n \<le> len \<Longrightarrow> i * chunk_length div 8 + (n + 7) div 8 \<le> (len + 7) div 8"
    and "n \<le> (n + 7) div 8 * 8"
proof -
  have *: "i * chunk_length div 8 = 512 * i" by (simp add: chunk_length_def)
  then show "i * chunk_length div 8 * 8 = chunk_length * i" by (simp add: chunk_length_def)
  show "(n + 7) div 8 * 8 \<le> chunk_length" if "n \<le> chunk_length"
    using div_le_mono[of "n + 7" "chunk_length + 7" 8] that by (simp add: chunk_length_def)
  show "i * chunk_length div 8 + (n + 7) div 8 \<le> (len + 7) div 8" if "chunk_length * i + n \<le> len"
  proof -
    have "512 * i + (n + 7) div 8 = (chunk_length * i + n + 7) div 8" by (simp add: chunk_length_def)
    also have "\<dots> \<le> (len + 7) div 8" using that by (simp add: div_le_mono)
    finally show ?thesis using * by simp
  qed
  show "n \<le> (n + 7) div 8 * 8" by linarith
qed

lemma block_begins:
  assumes "i < (len + (chunk_length - 1)) div chunk_length"
  shows "chunk_length * i < len"
proof (rule ccontr)
  assume "\<not> ?thesis"
  then have "(len + (chunk_length - 1)) div chunk_length \<le> (chunk_length * i + (chunk_length - 1)) div chunk_length"
    by (intro div_le_mono) simp
  also have "\<dots> = i" using div_mult_self4[of chunk_length "chunk_length - 1" i] by simp
  finally show False using assms by simp
qed

lemma field_column_ok:
  assumes wf: "wf_chunk n c" and j: "j < n" and v: "field_value fld c j = Some v" "v \<noteq> NaN"
  shows "\<exists>k d. field_column fld c = (k, d) \<and> k = (if fld = NSize then U64 else I64) \<and> wf_integer k d \<and>
    integer_len d = n \<and> scalar_valid k (integer_list k d ! j) \<and> v = f64_of_int (integer_list k d ! j)"
proof -
  obtain k d where kd: "field_column fld c = (k, d)" by fastforce
  have cols: "(k, d) \<in> set (number_columns c)" "k = (if fld = NSize then U64 else I64)"
    using kd by (cases fld; auto simp: number_columns_def)+
  then have d: "wf_integer k d" "integer_len d = n"
    using wf by (auto simp: wf_chunk_def columns_ok_def list_all_iff)
  then have get: "integer_get k d j = Some (integer_list k d ! j)"
    using j integer_len_list[of d k] by (simp add: integer_get_list slice_get_def)
  moreover have "scalar_valid k (integer_list k d ! j)"
    using wf_integer_valid[OF d(1)] nth_mem j d(2) integer_len_list[of d k] by metis
  moreover have "v = f64_of_int (integer_list k d ! j)"
    using v kd get by (auto simp: field_value_def split: bind_splits if_splits)
  ultimately show ?thesis using kd cols(2) d by blast
qed

definition in_range :: "bounds \<Rightarrow> f64 \<Rightarrow> bool" where
  "in_range b v \<longleftrightarrow> above_lower b v \<and> below_upper b v"

definition ranks_ok :: "bounds \<Rightarrow> scalar_kind \<Rightarrow> (nat \<times> nat) option \<Rightarrow> bool" where
  "ranks_ok b k ranks \<longleftrightarrow> (\<forall>v. scalar_valid k v \<longrightarrow> (in_range b (f64_of_int v) \<longleftrightarrow>
    (case ranks of None \<Rightarrow> False | Some (lower, upper) \<Rightarrow> lower \<le> rank k v \<and> rank k v \<le> upper)))"

lemma block_bits_ok:
  fixes t :: entry_table and fld :: numeric_source and i :: nat
  defines "vs \<equiv> table_values fld t" and "n \<equiv> chunk_len (et_chunks t ! i)"
  assumes wf: "wf_table t" and i: "i < length (et_chunks t)" and block: "block = block_of (block_values vs i)"
    and bytes: "length bytes = (et_length t + 7) div 8"
    and zero: "\<And>s. chunk_length * i \<le> s \<Longrightarrow> \<not> bit_at bytes s"
    and ranks: "ranks_ok b (if fld = NSize then U64 else I64) ranks"
  shows "\<exists>bytes'. block_bits b fld ranks (et_chunks t) i block bytes = Some bytes' \<and> length bytes' = length bytes \<and>
    (\<forall>s. s < chunk_length * i \<or> chunk_length * i + chunk_length \<le> s \<longrightarrow> bit_at bytes' s = bit_at bytes s) \<and>
    (\<forall>j < n. vs ! (chunk_length * i + j) \<noteq> NaN \<longrightarrow> bit_at bytes' (chunk_length * i + j) = in_range b (vs ! (chunk_length * i + j)))"
proof -
  let ?c = "et_chunks t ! i" and ?k = "if fld = NSize then U64 else I64"
  have wr: "wf_chunk (block_rows (et_length t) i) ?c" using wf i by (simp add: wf_table_def)
  then have nr: "n = block_rows (et_length t) i" using wf_chunk_len by (simp add: n_def)
  with wr have w: "wf_chunk n ?c" by simp
  have n: "n \<le> chunk_length" by (simp add: nr block_rows_def)
  have mem: "vs ! (chunk_length * i + j) \<in> set (block_values vs i)" "chunk_length * i + j < et_length t" if "j < n" for j
  proof -
    show less: "chunk_length * i + j < et_length t" using that nr by (simp add: block_rows_def less_diff_conv)
    then have "block_values vs i ! j = vs ! (chunk_length * i + j)" "j < length (block_values vs i)"
      using that nr by (simp_all add: block_values_def block_rows_def vs_def)
    then show "vs ! (chunk_length * i + j) \<in> set (block_values vs i)" by (metis nth_mem)
  qed
  show ?thesis
  proof (cases "f64_lt (nb_maximum block) (nb_minimum block) \<or> \<not> above_lower b (nb_maximum block) \<or> \<not> below_upper b (nb_minimum block)")
    case True
    then have "\<not> in_range b (vs ! (chunk_length * i + j))" if "j < n" "vs ! (chunk_length * i + j) \<noteq> NaN" for j
      using block_skipped[OF mem(1)[OF that(1)] that(2)] block by (simp add: in_range_def)
    then show ?thesis using True zero by (simp add: block_bits_def)
  next
    case active: False
    have "chunk_length * i < et_length t"
      by (rule block_begins) (use i wf in \<open>simp add: wf_table_def\<close>)
    then have fits: "i * chunk_length div 8 + (n + 7) div 8 \<le> length bytes"
      using nr by (simp add: segment_arith(3) bytes block_rows_def)
    obtain before out after where split: "split_range (i * chunk_length div 8) ((nb_length block + 7) div 8) bytes = Some (before, out, after)"
      and b3: "bytes = before @ out @ after" "length before = i * chunk_length div 8" "length out = (n + 7) div 8"
      using split_range_Some[OF fits] block length_block_values[of vs i] nr by (auto simp: vs_def)
    have at: "length before * 8 = chunk_length * i" "n \<le> length out * 8" "length out * 8 \<le> chunk_length"
      using b3 segment_arith(1)[of i] segment_arith(2)[OF n] segment_arith(4)[of n] by simp_all
    have out: "\<not> bit_at out j" if "j < length out * 8" for j
      using zero[of "chunk_length * i + j"] bit_at_middle[of before "chunk_length * i + j" out after] that at(1) b3(1) by simp
    obtain out' where out': "length out' = length out"
      "block_bits b fld ranks (et_chunks t) i block bytes = Some (before @ out' @ after)"
      "\<And>j. j < n \<Longrightarrow> vs ! (chunk_length * i + j) \<noteq> NaN \<Longrightarrow> bit_at out' j = in_range b (vs ! (chunk_length * i + j))"
    proof (cases "above_lower b (nb_minimum block) \<and> below_upper b (nb_maximum block)")
      case True
      have "bit_at (replicate (length out) 255) j = in_range b (vs ! (chunk_length * i + j))"
        if "j < n" "vs ! (chunk_length * i + j) \<noteq> NaN" for j
        using block_inside[OF mem(1)[OF that(1)] that(2)] True block bit_at_replicate[of j "length out" True] that at(2)
        by (simp add: in_range_def less_mult_imp_div_less)
      then show ?thesis
        using active True split by (intro that[of "replicate (length out) 255"]) (simp_all add: block_bits_def)
    next
      case False
      show ?thesis
      proof (cases ranks)
        case None
        have "bit_at out j = in_range b (vs ! (chunk_length * i + j))" if j: "j < n" and known: "vs ! (chunk_length * i + j) \<noteq> NaN" for j
        proof -
          obtain v where "scalar_valid ?k v" "vs ! (chunk_length * i + j) = f64_of_int v"
            using field_column_ok[OF w j _ known, of fld] block_field_value(2)[OF wf i, of j fld] j
            by (auto simp: n_def vs_def)
          then show ?thesis using ranks None out[of j] j at(2) by (simp add: ranks_ok_def)
        qed
        then show ?thesis using active False split None by (intro that[of out]) (auto simp: block_bits_def)
      next
        case (Some r)
        obtain lower upper where r: "r = (lower, upper)" by fastforce
        obtain k d where kd: "field_column fld ?c = (k, d)" by fastforce
        let ?o = "fill_rank_range k d out lower upper"
        have "bit_at ?o j = in_range b (vs ! (chunk_length * i + j))" if j: "j < n" and known: "vs ! (chunk_length * i + j) \<noteq> NaN" for j
        proof -
          have f: "k = ?k" "wf_integer k d" "integer_len d = n" "scalar_valid k (integer_list k d ! j)"
            "vs ! (chunk_length * i + j) = f64_of_int (integer_list k d ! j)"
            using field_column_ok[OF w j _ known, of fld] block_field_value(2)[OF wf i, of j fld] j kd
            by (auto simp: n_def vs_def)
          have "bit_at ?o j \<longleftrightarrow> lower \<le> rank k (integer_list k d ! j) \<and> rank k (integer_list k d ! j) \<le> upper"
            by (rule fill_rank_range_bits[OF f(2)]) (use j f(3) integer_len_list[of d k] at(2) in \<open>simp_all add: less_mult_imp_div_less\<close>)
          then show ?thesis using ranks f(1,4,5) Some r by (simp add: ranks_ok_def)
        qed
        then show ?thesis using active False split Some r kd i
          by (intro that[of ?o]) (auto simp: block_bits_def slice_get_def)
      qed
    qed
    have "bit_at (before @ out' @ after) s = bit_at bytes s" if "s < chunk_length * i \<or> chunk_length * i + chunk_length \<le> s" for s
      unfolding b3(1) by (rule bit_at_outside) (use that at out'(1) in auto)
    moreover have "bit_at (before @ out' @ after) (chunk_length * i + j) = bit_at out' j" if "j < n" for j
      using bit_at_middle[of before "chunk_length * i + j" out' after] at(1,2) out'(1) that by simp
    ultimately show ?thesis using out' b3(1) by auto
  qed
qed

lemma block_loop_ok:
  fixes t :: entry_table and fld :: numeric_source
  defines "vs \<equiv> table_values fld t"
  assumes wf: "wf_table t" and ranks: "ranks_ok b (if fld = NSize then U64 else I64) ranks"
    and "i + length bks = length (et_chunks t)" "\<And>m. m < length bks \<Longrightarrow> bks ! m = block_of (block_values vs (i + m))"
    and "length bytes = (et_length t + 7) div 8" "\<And>s. chunk_length * i \<le> s \<Longrightarrow> \<not> bit_at bytes s"
  shows "\<exists>r. block_loop cancelled k (block_bits b fld ranks (et_chunks t)) i bks bytes = Some r \<and>
    (case r of Inl e \<Rightarrow> e = query_cancelled \<and> (\<exists>m. cancelled m)
     | Inr (bytes', k') \<Rightarrow> length bytes' = length bytes \<and> (\<forall>s < chunk_length * i. bit_at bytes' s = bit_at bytes s) \<and>
         (\<forall>s < et_length t. chunk_length * i \<le> s \<longrightarrow> vs ! s \<noteq> NaN \<longrightarrow> bit_at bytes' s = in_range b (vs ! s)))"
  using assms(4-)
proof (induction bks arbitrary: i k bytes)
  case Nil
  have "et_length t \<le> chunk_length * length (et_chunks t)"
    using wf div_ceil_less[OF chunk_length_pos, of "length (et_chunks t)" "et_length t"]
    by (simp add: wf_table_def not_less mult.commute) (meson less_irrefl not_le)
  then show ?case using Nil by simp
next
  case (Cons block bks)
  have i: "i < length (et_chunks t)" using Cons.prems(1) by simp
  let ?n = "chunk_len (et_chunks t ! i)"
  show ?case
  proof (cases "cancelled k")
    case False
    have block: "block = block_of (block_values (table_values fld t) i)" using Cons.prems(2)[of 0] by (simp add: vs_def)
    obtain bytes1 where step: "block_bits b fld ranks (et_chunks t) i block bytes = Some bytes1" "length bytes1 = length bytes"
      "\<And>s. s < chunk_length * i \<or> chunk_length * i + chunk_length \<le> s \<Longrightarrow> bit_at bytes1 s = bit_at bytes s"
      "\<And>j. j < ?n \<Longrightarrow> vs ! (chunk_length * i + j) \<noteq> NaN \<Longrightarrow> bit_at bytes1 (chunk_length * i + j) = in_range b (vs ! (chunk_length * i + j))"
      using block_bits_ok[OF wf i block Cons.prems(3,4) ranks] by (auto simp: vs_def)
    have zero: "\<not> bit_at bytes1 s" if "chunk_length * (i + 1) \<le> s" for s
      using step(3)[of s] Cons.prems(4)[of s] that by simp
    have mine: "bit_at bytes1 s = in_range b (vs ! s)"
      if "s < et_length t" "chunk_length * i \<le> s" "s < chunk_length * (i + 1)" "vs ! s \<noteq> NaN" for s
    proof -
      have "s = chunk_length * i + (s - chunk_length * i)" using that(2) by simp
      moreover have "wf_chunk (block_rows (et_length t) i) (et_chunks t ! i)" using wf i by (simp add: wf_table_def)
      then have "s - chunk_length * i < ?n" using wf_chunk_len that by (simp add: block_rows_def less_diff_conv)
      ultimately show ?thesis using step(4)[of "s - chunk_length * i"] that(4) by metis
    qed
    have bks': "bks ! m = block_of (block_values vs (i + 1 + m))" if "m < length bks" for m
      using Cons.prems(2)[of "Suc m"] that by simp
    obtain r where r: "block_loop cancelled (k + 1) (block_bits b fld ranks (et_chunks t)) (i + 1) bks bytes1 = Some r"
      "case r of Inl e \<Rightarrow> e = query_cancelled \<and> (\<exists>m. cancelled m)
       | Inr (bytes', k') \<Rightarrow> length bytes' = length bytes1 \<and> (\<forall>s < chunk_length * (i + 1). bit_at bytes' s = bit_at bytes1 s) \<and>
         (\<forall>s < et_length t. chunk_length * (i + 1) \<le> s \<longrightarrow> vs ! s \<noteq> NaN \<longrightarrow> bit_at bytes' s = in_range b (vs ! s))"
      using Cons.IH[of "i + 1" bytes1 "k + 1", OF _ bks' _ zero] Cons.prems(1,3) step(2) by auto
    have "block_loop cancelled k (block_bits b fld ranks (et_chunks t)) i (block # bks) bytes = Some r"
      using False step(1) r(1) by simp
    moreover have "case r of Inl e \<Rightarrow> e = query_cancelled \<and> (\<exists>m. cancelled m)
       | Inr (bytes', k') \<Rightarrow> length bytes' = length bytes \<and> (\<forall>s < chunk_length * i. bit_at bytes' s = bit_at bytes s) \<and>
         (\<forall>s < et_length t. chunk_length * i \<le> s \<longrightarrow> vs ! s \<noteq> NaN \<longrightarrow> bit_at bytes' s = in_range b (vs ! s))"
      using r(2) step(2,3) mine by (fastforce split: sum.splits simp: not_le)
    ultimately show ?thesis by blast
  qed auto
qed

lemma bitmap_of_bytes_iff: "s \<in> bitmap_of_bytes bytes \<longleftrightarrow> bit_at bytes s"
proof -
  have "bit_at bytes s \<Longrightarrow> s < 8 * length bytes"
    by (simp add: bit_at_def div_less_iff_less_mult mult.commute)
  then show ?thesis by (auto simp: bitmap_of_bytes_def)
qed

lemma column_range_ok:
  assumes wf: "wf_table t" and repr: "column_repr c (table_values fld t)" and clean: "nc_dirty c = {}"
  shows "\<exists>r. column_range cancelled k b t fld live c = Some r \<and>
    (case r of Inl e \<Rightarrow> e = query_cancelled \<and> (\<exists>m. cancelled m)
     | Inr s \<Rightarrow> s = {i \<in> live. i < et_length t \<and> table_values fld t ! i \<noteq> NaN \<and>
         (in_range b (table_values fld t ! i) \<noteq> bd_negate b)})"
proof -
  let ?k = "if fld = NSize then U64 else I64" and ?vs = "table_values fld t"
  note R = repr[unfolded column_repr_def]
  have "?k \<in> {U64, I64}" by simp
  from rank_range_field[OF this] obtain ranks where
    ranks: "rank_range (rank_value ?k) b = Some ranks" "ranks_ok b ?k ranks"
    unfolding ranks_ok_def in_range_def by blast
  have len: "length (nc_blocks c) = length (et_chunks t)" "nc_length c = et_length t"
    using R wf by (simp_all add: wf_table_def)
  let ?bytes = "replicate ((nc_length c + 7) div 8) 0 :: u8 list"
  have zero: "\<not> bit_at ?bytes s" for s by (simp add: bit_at_def)
  have bks: "nc_blocks c ! m = block_of (block_values ?vs (0 + m))" if "m < length (nc_blocks c)" for m
    using R clean that by simp
  have "\<exists>r. block_loop cancelled k (block_bits b fld ranks (et_chunks t)) 0 (nc_blocks c) ?bytes = Some r \<and>
    (case r of Inl e \<Rightarrow> e = query_cancelled \<and> (\<exists>m. cancelled m)
     | Inr (bytes', k') \<Rightarrow> length bytes' = length ?bytes \<and> (\<forall>s < chunk_length * 0. bit_at bytes' s = bit_at ?bytes s) \<and>
         (\<forall>s < et_length t. chunk_length * 0 \<le> s \<longrightarrow> ?vs ! s \<noteq> NaN \<longrightarrow> bit_at bytes' s = in_range b (?vs ! s)))"
    by (rule block_loop_ok[OF wf ranks(2)]) (use len bks zero in simp_all)
  then obtain r where r: "block_loop cancelled k (block_bits b fld ranks (et_chunks t)) 0 (nc_blocks c) ?bytes = Some r"
    "case r of Inl e \<Rightarrow> e = query_cancelled \<and> (\<exists>m. cancelled m)
     | Inr (bytes', k') \<Rightarrow> length bytes' = length ?bytes \<and> (\<forall>s < chunk_length * 0. bit_at bytes' s = bit_at ?bytes s) \<and>
         (\<forall>s < et_length t. chunk_length * 0 \<le> s \<longrightarrow> ?vs ! s \<noteq> NaN \<longrightarrow> bit_at bytes' s = in_range b (?vs ! s))"
    by blast
  have known: "nc_known c = {i. i < et_length t \<and> ?vs ! i \<noteq> NaN}" using R by simp
  show ?thesis
  proof (cases r)
    case (Inl e)
    then show ?thesis using ranks(1) r by (simp add: column_range_def)
  next
    case (Inr bk)
    obtain bytes' k' where bk: "bk = (bytes', k')" by fastforce
    then have bits: "i < et_length t \<Longrightarrow> ?vs ! i \<noteq> NaN \<Longrightarrow> i \<in> bitmap_of_bytes bytes' \<longleftrightarrow> in_range b (?vs ! i)" for i
      using r(2) Inr by (simp add: bitmap_of_bytes_iff)
    have "(if bd_negate b then nc_known c - bitmap_of_bytes bytes' else bitmap_of_bytes bytes' \<inter> nc_known c) \<inter> live
        = {i \<in> live. i < et_length t \<and> ?vs ! i \<noteq> NaN \<and> (in_range b (?vs ! i) \<noteq> bd_negate b)}"
      unfolding known using bits by auto
    then show ?thesis using ranks(1) r(1) Inr bk by (auto simp: column_range_def)
  qed
qed

section \<open>All columns of a snapshot\<close>

fun column_of :: "numeric_source \<Rightarrow> numeric_columns \<Rightarrow> numeric_column" where
  "column_of NSize cs = nu_size cs"
| "column_of NModified cs = nu_modified cs"
| "column_of NCreated cs = nu_created cs"

definition columns_repr :: "numeric_columns \<Rightarrow> file_entry list \<Rightarrow> bool" where
  "columns_repr cs rows \<longleftrightarrow> (\<forall>fld. column_repr (column_of fld cs) (map (row_value fld) rows))"

definition columns_clean :: "numeric_columns \<Rightarrow> bool" where
  "columns_clean cs \<longleftrightarrow> (\<forall>fld. nc_dirty (column_of fld cs) = {})"

lemma all_fields: "(\<forall>fld. P fld) \<longleftrightarrow> P NSize \<and> P NModified \<and> P NCreated"
  using numeric_source.exhaust by metis

lemma columns_set_ok:
  assumes "columns_repr cs rows" "length rows < 2 ^ 32" "slot \<le> length rows"
  shows "\<exists>cs'. columns_set slot f cs = Some cs' \<and>
    columns_repr cs' (if slot = length rows then rows @ [to_owned_file f] else rows[slot := to_owned_file f])"
proof -
  have "\<exists>c. column_put slot (row_value fld f) (column_of fld cs) = Some c \<and>
      column_repr c (map (row_value fld) (if slot = length rows then rows @ [to_owned_file f] else rows[slot := to_owned_file f]))" for fld
    using column_put_ok[of "column_of fld cs" "map (row_value fld) rows" slot "row_value fld f"] assms
    by (cases "slot = length rows") (simp_all add: columns_repr_def map_update)
  from this[of NSize] this[of NModified] this[of NCreated] show ?thesis
    by (auto simp: columns_set_def columns_repr_def all_fields)
qed

lemma columns_finish_update_ok:
  assumes wf: "wf_table t" and repr: "columns_repr cs (table_rows t)"
  shows "\<exists>cs'. columns_finish_update t cs = Some cs' \<and> columns_repr cs' (table_rows t) \<and> columns_clean cs'"
proof -
  have "\<exists>c. column_finish_update t fld (column_of fld cs) = Some c \<and> column_repr c (map (row_value fld) (table_rows t)) \<and> nc_dirty c = {}" for fld
    using column_finish_update_ok[OF wf] repr by (simp add: columns_repr_def table_values_def)
  from this[of NSize] this[of NModified] this[of NCreated] show ?thesis
    by (auto simp: columns_finish_update_def columns_repr_def columns_clean_def all_fields)
qed

lemma columns_repr_empty: "columns_repr empty_columns []" "columns_clean empty_columns"
  using column_repr_empty by (simp_all add: columns_repr_def columns_clean_def all_fields empty_columns_def)
    (simp add: empty_column_def)

lemma build_rows_ok:
  assumes "columns_repr cs rows" "columns_clean cs" "length rows + length new \<le> 2 ^ 32" "length is = length new"
    and "\<And>j fld. j < length new \<Longrightarrow> field_value fld (fst (is ! j)) (snd (is ! j)) = Some (row_value fld (new ! j))"
  shows "\<exists>cs'. build_rows is cs = Some cs' \<and> columns_repr cs' (rows @ new) \<and> columns_clean cs'"
  using assms
proof (induction "is" arbitrary: cs rows new)
  case (Cons p js)
  obtain c i where p: "p = (c, i)" by fastforce
  obtain f new' where new: "new = f # new'" using Cons.prems(4) by (cases new) simp_all
  have v: "field_value fld c i = Some (row_value fld f)" for fld
    using Cons.prems(5)[of 0 fld] p new by simp
  have "\<exists>d. column_push (row_value fld f) (column_of fld cs) = Some d \<and> column_repr d (map (row_value fld) (rows @ [f])) \<and>
      nc_dirty d = {}" for fld
    using column_push_ok[of "column_of fld cs" "map (row_value fld) rows" "row_value fld f"] Cons.prems(1-3) new
    by (simp add: columns_repr_def columns_clean_def)
  from this[of NSize] this[of NModified] this[of NCreated] obtain c1 c2 c3 where
    c: "column_push (row_value NSize f) (nu_size cs) = Some c1" "column_push (row_value NModified f) (nu_modified cs) = Some c2"
      "column_push (row_value NCreated f) (nu_created cs) = Some c3"
      "columns_repr \<lparr>nu_size = c1, nu_modified = c2, nu_created = c3\<rparr> (rows @ [f])"
      "columns_clean \<lparr>nu_size = c1, nu_modified = c2, nu_created = c3\<rparr>"
    by (auto simp: columns_repr_def columns_clean_def all_fields)
  have "\<exists>cs'. build_rows js \<lparr>nu_size = c1, nu_modified = c2, nu_created = c3\<rparr> = Some cs' \<and>
      columns_repr cs' ((rows @ [f]) @ new') \<and> columns_clean cs'"
    by (rule Cons.IH[OF c(4,5)]) (use Cons.prems(3,4) Cons.prems(5)[of "Suc j" for j] new in auto)
  then show ?case using p new v c(1-3) by simp
qed simp

lemma columns_build_ok:
  assumes wf: "wf_table t" and small: "et_length t \<le> 2 ^ 32"
  shows "\<exists>cs. columns_build t = Some cs \<and> columns_repr cs (table_rows t) \<and> columns_clean cs"
proof -
  let ?is = "table_iter t"
  have views: "map (\<lambda>(c, i). chunk_view c i) ?is = map (table_row t) [0..<et_length t]"
    by (rule table_iter_rows[OF wf])
  then have len: "length ?is = et_length t" by (metis length_map length_upt minus_nat.diff_0)
  have val: "field_value fld (fst (?is ! j)) (snd (?is ! j)) = Some (row_value fld (table_rows t ! j))"
    if j: "j < et_length t" for j fld
  proof -
    obtain c i where ci: "?is ! j = (c, i)" by fastforce
    then have "(c, i) \<in> set ?is" using j len nth_mem by metis
    then obtain n where n: "wf_chunk n c" "i < n"
      using wf wf_chunk_len by (fastforce simp: table_iter_def wf_table_def in_set_conv_nth)
    obtain f where f: "table_row t j = Some f" using table_row_Some[OF wf j] by blast
    have "map (\<lambda>(c, i). chunk_view c i) ?is ! j = table_row t j" using views j by simp
    then have "chunk_view c i = Some f" using ci f j len by simp
    from field_value_view[OF n(1) this n(2)] show ?thesis using ci f j by (simp add: table_rows_nth)
  qed
  show ?thesis
    using build_rows_ok[OF columns_repr_empty, of "table_rows t" ?is] small len val by (simp add: columns_build_def)
qed

text \<open>The columns follow the table through a batch of changes, as the index publishes it.\<close>

fun columns_change :: "nat \<Rightarrow> change \<Rightarrow> numeric_columns \<Rightarrow> numeric_columns option" where
  "columns_change len (Push row) cs = columns_set len row cs"
| "columns_change len (Replace slot row) cs = columns_set slot row cs"

fun change_slot_ok :: "nat \<Rightarrow> change list \<Rightarrow> bool" where
  "change_slot_ok len [] = True"
| "change_slot_ok len (Push row # chs) = change_slot_ok (len + 1) chs"
| "change_slot_ok len (Replace slot row # chs) = (slot < len \<and> change_slot_ok len chs)"

fun columns_changes :: "nat \<Rightarrow> change list \<Rightarrow> numeric_columns \<Rightarrow> numeric_columns option" where
  "columns_changes len [] cs = Some cs"
| "columns_changes len (ch # chs) cs = Option.bind (columns_change len ch cs)
    (columns_changes (case ch of Push _ \<Rightarrow> len + 1 | Replace _ _ \<Rightarrow> len) chs)"

lemma columns_changes_ok:
  "columns_repr cs rows \<Longrightarrow> change_slot_ok (length rows) chs \<Longrightarrow> length rows + length chs \<le> 2 ^ 32 \<Longrightarrow>
   \<exists>cs'. columns_changes (length rows) chs cs = Some cs' \<and> columns_repr cs' (foldl list_change rows chs)"
proof (induction chs arbitrary: cs rows)
  case (Cons ch chs)
  show ?case
  proof (cases ch)
    case (Push row)
    obtain c where "columns_set (length rows) row cs = Some c" "columns_repr c (rows @ [to_owned_file row])"
      using columns_set_ok[OF Cons.prems(1), of "length rows" row] Cons.prems(3) by auto
    then show ?thesis using Push Cons.IH[of c "rows @ [to_owned_file row]"] Cons.prems by simp
  next
    case (Replace slot row)
    then have "slot < length rows" using Cons.prems by simp
    then obtain c where "columns_set slot row cs = Some c" "columns_repr c (rows[slot := to_owned_file row])"
      using columns_set_ok[OF Cons.prems(1), of slot row] Cons.prems(3) by auto
    then show ?thesis using Replace Cons.IH[of c "rows[slot := to_owned_file row]"] Cons.prems by simp
  qed
qed simp

lemma all_fit_slots: "table_store.all_fit t chs \<Longrightarrow> table_ok t \<Longrightarrow> change_slot_ok (et_length t) chs"
proof (induction chs arbitrary: t)
  case (Cons ch chs)
  obtain t' where t': "table_put t ch = Some t'" "table_ok t'" "table_rows t' = list_change (table_rows t) ch"
    using table_store.put_ok[OF Cons.prems(2)] Cons.prems(1) by auto
  then have "et_length t' = length (list_change (table_rows t) ch)" by (metis length_table_rows)
  then show ?case using Cons.IH[OF _ t'(2)] Cons.prems t'(1) by (cases ch) auto
qed simp

lemma numeric_field_value:
  assumes "named_column fld cs = Some (source, c)"
  shows "c = column_of source cs"
    "numeric_field fld f = (if row_value source f = NaN then None else Some (row_value source f))"
    "unknown_field fld f \<longleftrightarrow> row_value source f = NaN"
  using assms f64_of_int_not_nan
  by (auto simp: named_column_def numeric_field_def unknown_field_def size_value_def lit_def split: if_splits)

lemma named_column_supported:
  "fld \<in> {lit ''size'', lit ''modified'', lit ''created''} \<Longrightarrow> \<exists>source c. named_column fld cs = Some (source, c)"
  by (auto simp: named_column_def)

lemma exact_term_ok:
  assumes wf: "wf_table t" and repr: "columns_repr cs (table_rows t)" and clean: "columns_clean cs"
    and sup: "supports tm" and live: "live \<subseteq> {..<et_length t}"
  shows "\<exists>r. exact_term cancelled tm t live cs = Some r \<and>
    (case r of Inl e \<Rightarrow> e = query_cancelled \<and> (\<exists>m. cancelled m)
     | Inr s \<Rightarrow> s = Some {i \<in> live. term_matches cr tm (the (table_row t i)) content = Inr True})"
proof -
  have col: "column_repr c (table_values source t)" "nc_dirty c = {}" "c = column_of source cs"
    if "named_column fld cs = Some (source, c)" for fld source c
    using numeric_field_value(1)[OF that] repr clean by (simp_all add: columns_repr_def columns_clean_def table_values_def)
  have val: "table_values source t ! i = row_value source (the (table_row t i))" if "i < et_length t" for i source
    using that by (simp add: table_values_def table_rows_nth)
  show ?thesis
  proof (cases tm)
    case (Number fld low high il ih neg)
    obtain source c where n: "named_column fld cs = Some (source, c)"
      using named_column_supported sup Number by fastforce
    let ?b = "\<lparr>bd_low = low, bd_high = high, bd_include_low = il, bd_include_high = ih, bd_negate = neg\<rparr>"
    obtain r where r: "column_range cancelled 1 ?b t source live c = Some r"
      "case r of Inl e \<Rightarrow> e = query_cancelled \<and> (\<exists>m. cancelled m)
       | Inr s \<Rightarrow> s = {i \<in> live. i < et_length t \<and> table_values source t ! i \<noteq> NaN \<and>
           (in_range ?b (table_values source t ! i) \<noteq> bd_negate ?b)}"
      using column_range_ok[OF wf col(1,2)[OF n]] by blast
    have "{i \<in> live. i < et_length t \<and> table_values source t ! i \<noteq> NaN \<and> (in_range ?b (table_values source t ! i) \<noteq> neg)}
        = {i \<in> live. term_matches cr tm (the (table_row t i)) content = Inr True}"
    proof (rule Collect_cong, rule conj_cong[OF refl])
      fix i assume "i \<in> live"
      then have i: "i < et_length t" using live by auto
      show "i < et_length t \<and> table_values source t ! i \<noteq> NaN \<and> (in_range ?b (table_values source t ! i) \<noteq> neg)
          \<longleftrightarrow> term_matches cr tm (the (table_row t i)) content = Inr True"
        using i unfolding val[OF i]
        by (cases neg) (simp_all add: Number numeric_field_value(2)[OF n] in_range_def above_lower_def below_upper_def
            inside_range_def)
    qed
    then show ?thesis using r n by (auto simp: Number split: sum.splits)
  next
    case (Unknown fld neg)
    obtain source c where n: "named_column fld cs = Some (source, c)"
      using named_column_supported sup Unknown by fastforce
    have "nc_known c = {i. i < et_length t \<and> table_values source t ! i \<noteq> NaN}"
      using col(1)[OF n] by (simp add: column_repr_def)
    then show ?thesis
      using n live val numeric_field_value(3)[OF n] by (auto simp: Unknown)
  qed (use sup in simp_all)
qed

section \<open>Properties\<close>

text \<open>
  C26: the numeric index is exact. Evaluating a numeric term over the columns of a table gives precisely the live
  slots whose row the query evaluator accepts, with the evaluator's floating-point comparisons, unknown
  directory sizes and negation; the only other outcome is the cancellation error, and only after the flag
  was raised. It never panics.
\<close>
theorem numeric_index_exact:
  assumes "wf_table t" "columns_repr cs (table_rows t)" "columns_clean cs" "supports tm" "live \<subseteq> {..<et_length t}"
  shows "\<exists>r. exact cancelled tm t live cs = Some r \<and>
    (case r of Inl e \<Rightarrow> e = query_cancelled \<and> (\<exists>m. cancelled m)
     | Inr s \<Rightarrow> s = Some {i \<in> live. term_matches cr tm (the (table_row t i)) content = Inr True})"
  using exact_term_ok[OF assms] by (cases "cancelled 0") (auto simp: exact_def)

theorem numeric_index_exact_witness:
  "\<exists>t cs. table_rows t = [to_owned_file sample_entry] \<and>
    exact (\<lambda>_. False) (Number (lit ''size'') NegInf PosInf True True False) t {0} cs = Some (Inr (Some {0}))"
proof -
  obtain t where t: "wf_table t" "table_rows t = [to_owned_file sample_entry]"
    using table_from_rows_ok[of "[sample_entry]"] sample_entry_ok(1) sample_row_small by (auto simp: u32_max_def)
  then have len: "et_length t = 1" using length_table_rows[of t] by simp
  obtain cs where cs: "columns_repr cs (table_rows t)" "columns_clean cs"
    using columns_build_ok[OF t(1)] len by auto
  let ?tm = "Number (lit ''size'') NegInf PosInf True True False"
  obtain f where f: "table_row t 0 = Some f" using table_row_Some[OF t(1), of 0] len by auto
  then have "to_owned_file f = to_owned_file sample_entry" using t(2) len table_rows_nth[of 0 t] by simp
  then have "is_dir (to_owned_file f) = is_dir (to_owned_file sample_entry)" by simp
  then have "is_dir f = False" by (simp add: to_owned_file_def) (simp add: sample_entry_def)
  then have match: "term_matches cr ?tm (the (table_row t 0)) None = Inr True" for cr
    using f64_of_int_not_nan[of "int (size f)"] f
    by (cases "f64_of_int (int (size f))") (auto simp: numeric_field_def inside_range_def)
  have single: "p 0 \<Longrightarrow> {i \<in> {0}. p i} = {0 :: nat}" for p by auto
  have "supports ?tm" "{0} \<subseteq> {..<et_length t}" using len by simp_all
  from numeric_index_exact[OF t(1) cs this, of "\<lambda>_. False" undefined None]
  obtain r where "exact (\<lambda>_. False) ?tm t {0} cs = Some r"
    "case r of Inl e \<Rightarrow> e = query_cancelled \<and> (\<exists>m :: nat. False)
     | Inr s \<Rightarrow> s = Some {i \<in> {0}. term_matches undefined ?tm (the (table_row t i)) None = Inr True}"
    by (elim exE conjE)
  moreover have "{i \<in> {0}. term_matches undefined ?tm (the (table_row t i)) None = Inr True} = {0}"
    by (rule single) (rule match)
  ultimately have "exact (\<lambda>_. False) ?tm t {0} cs = Some (Inr (Some {0}))"
    by (cases r) (simp_all del: term_matches.simps exact_term.simps)
  with t(2) show ?thesis by blast
qed



end
