(* ===== verification/Worker_Budget.thy ===== *)
theory Worker_Budget
  imports Prelude
begin

text \<open>
  Admission to the CPU workers, \<open>core/src/cpu_executor.rs\<close>: requesting threads, background threads and
  Rayon pools share a budget of permits. The model interleaves threads: one step of a thread is one atomic
  operation, lock operation or notification of the source, in its order. The atomics that order capacity and
  waiters are sequentially consistent in the source; the relaxed counters of foreground waiters change only
  under the lock, and are taken as sequentially consistent too. Waking without a notification is left out.
\<close>

section \<open>Threads\<close>

text \<open>
  The program counter of a thread, named after the operation it performs next: inside \<open>enter\<close>,
  inside \<open>enter_background\<close>, dropping a permit or waking waiters, and claiming permits for a pool.
  \<open>Hold\<close> and \<open>HoldBackground\<close> own permits and are at work. A dropped permit ends in \<open>Idle\<close>, one dropped at
  a checkpoint enters again.
\<close>

datatype enter_pc = FStart | FTry | FLock | FRegister | FCount | FCheck | FAttempt | FWait | FAsleep | FRelock
  | FWon1 | FWon2 | FUnlock | FCancel1 | FCancel2

datatype background_pc = BLock | BRegister | BLoad | BActive | BAvail | BAttempt | BWait | BAsleep | BRelock
  | BWon1 | BWon2 | BUnlock

datatype resume = End | Again

datatype release_pc = Release nat resume | ReleaseBackground resume | Return nat resume | Observe resume
  | WakeLock resume | Notify resume | Unlock resume | Cancelling nat

datatype pool_pc = AcquireSome nat | TrySome nat | AcquireAll nat | TryAll nat

datatype pc = Idle | Hold nat | HoldBackground | Fg enter_pc | Bg background_pc | Rel release_pc | Pool pool_pc

record worker_budget =
  wb_available :: nat
  wb_foreground :: nat
  wb_waiters :: nat
  wb_background :: nat
  wb_lock :: "nat option"
  wb_cancelled :: "bool list"
  wb_threads :: "pc list"

definition budget_new :: "nat \<Rightarrow> nat \<Rightarrow> worker_budget" where
  "budget_new capacity threads = \<lparr>wb_available = capacity, wb_foreground = 0, wb_waiters = 0, wb_background = 0,
    wb_lock = None, wb_cancelled = replicate threads False, wb_threads = replicate threads Idle\<rparr>"

definition max_cpu_threads :: nat where "max_cpu_threads = 8"

definition thread_count :: "nat \<Rightarrow> nat" where
  "thread_count available = max 1 (min ((available + 1) div 2) max_cpu_threads)"

lemma thread_count_range: "1 \<le> thread_count available \<and> thread_count available \<le> 8"
  by (simp add: thread_count_def max_cpu_threads_def)

definition goto :: "nat \<Rightarrow> pc \<Rightarrow> worker_budget \<Rightarrow> worker_budget" where
  "goto t p s = s\<lparr>wb_threads := (wb_threads s)[t := p]\<rparr>"

definition take_lock :: "nat \<Rightarrow> pc \<Rightarrow> worker_budget \<Rightarrow> worker_budget option" where
  "take_lock t p s = (if wb_lock s = None then Some (goto t p (s\<lparr>wb_lock := Some t\<rparr>)) else None)"

fun wake_up :: "pc \<Rightarrow> pc" where
  "wake_up (Fg p) = Fg (if p = FAsleep then FRelock else p)"
| "wake_up (Bg p) = Bg (if p = BAsleep then BRelock else p)"
| "wake_up p = p"

definition notify_all :: "worker_budget \<Rightarrow> worker_budget" where
  "notify_all s = s\<lparr>wb_threads := map wake_up (wb_threads s)\<rparr>"

text \<open>\<open>try_acquire_exact\<close> and \<open>try_acquire\<close> at their atomic update; the result is the number of permits.\<close>

definition try_acquire_exact :: "nat \<Rightarrow> worker_budget \<Rightarrow> (worker_budget \<times> nat) option" where
  "try_acquire_exact n s = (if n = 0 then None
    else if n \<le> wb_available s then Some (s\<lparr>wb_available := wb_available s - n\<rparr>, n) else None)"

definition try_acquire :: "nat \<Rightarrow> worker_budget \<Rightarrow> (worker_budget \<times> nat) option" where
  "try_acquire maximum s = (let n = min maximum (wb_available s) in
    if n > 0 then Some (s\<lparr>wb_available := wb_available s - n\<rparr>, n) else None)"

definition attempt :: "nat \<Rightarrow> pc \<Rightarrow> pc \<Rightarrow> worker_budget \<Rightarrow> worker_budget" where
  "attempt t won lost s = (case try_acquire_exact 1 s of Some (s', _) \<Rightarrow> goto t won s' | None \<Rightarrow> goto t lost s)"

fun enter_step :: "nat \<Rightarrow> enter_pc \<Rightarrow> worker_budget \<Rightarrow> worker_budget option" where
  "enter_step t FStart s = Some (goto t (if wb_cancelled s ! t then Idle else Fg FTry) s)"
| "enter_step t FTry s = Some (attempt t (Hold 1) (Fg FLock) s)"
| "enter_step t FLock s = take_lock t (Fg FRegister) s"
| "enter_step t FRegister s = Some (goto t (Fg FCount) (s\<lparr>wb_waiters := wb_waiters s + 1\<rparr>))"
| "enter_step t FCount s = Some (goto t (Fg FCheck) (s\<lparr>wb_foreground := wb_foreground s + 1\<rparr>))"
| "enter_step t FCheck s = Some (goto t (Fg (if wb_cancelled s ! t then FCancel1 else FAttempt)) s)"
| "enter_step t FAttempt s = Some (attempt t (Fg FWon1) (Fg FWait) s)"
| "enter_step t FWait s = Some (goto t (Fg FAsleep) (s\<lparr>wb_lock := None\<rparr>))"
| "enter_step t FAsleep s = None"
| "enter_step t FRelock s = take_lock t (Fg FCheck) s"
| "enter_step t FWon1 s = Some (goto t (Fg FWon2) (s\<lparr>wb_foreground := wb_foreground s - 1\<rparr>))"
| "enter_step t FWon2 s = Some (goto t (Fg FUnlock) (s\<lparr>wb_waiters := wb_waiters s - 1\<rparr>))"
| "enter_step t FUnlock s = Some (goto t (Hold 1) (s\<lparr>wb_lock := None\<rparr>))"
| "enter_step t FCancel1 s = Some (goto t (Fg FCancel2) (s\<lparr>wb_foreground := wb_foreground s - 1\<rparr>))"
| "enter_step t FCancel2 s = Some (goto t (Rel (Notify End)) (s\<lparr>wb_waiters := wb_waiters s - 1\<rparr>))"

fun background_step :: "nat \<Rightarrow> background_pc \<Rightarrow> worker_budget \<Rightarrow> worker_budget option" where
  "background_step t BLock s = take_lock t (Bg BRegister) s"
| "background_step t BRegister s = Some (goto t (Bg BLoad) (s\<lparr>wb_waiters := wb_waiters s + 1\<rparr>))"
| "background_step t BLoad s = Some (goto t (Bg (if wb_foreground s = 0 then BAttempt else BActive)) s)"
| "background_step t BActive s = Some (goto t (Bg (if wb_background s = 0 then BAvail else BWait)) s)"
| "background_step t BAvail s = Some (goto t (Bg (if wb_available s > 1 then BAttempt else BWait)) s)"
| "background_step t BAttempt s = Some (attempt t (Bg BWon1) (Bg BWait) s)"
| "background_step t BWait s = Some (goto t (Bg BAsleep) (s\<lparr>wb_lock := None\<rparr>))"
| "background_step t BAsleep s = None"
| "background_step t BRelock s = take_lock t (Bg BLoad) s"
| "background_step t BWon1 s = Some (goto t (Bg BWon2) (s\<lparr>wb_background := wb_background s + 1\<rparr>))"
| "background_step t BWon2 s = Some (goto t (Bg BUnlock) (s\<lparr>wb_waiters := wb_waiters s - 1\<rparr>))"
| "background_step t BUnlock s = Some (goto t HoldBackground (s\<lparr>wb_lock := None\<rparr>))"

fun resumed :: "resume \<Rightarrow> pc" where
  "resumed End = Idle"
| "resumed Again = Bg BLock"

fun release_step :: "nat \<Rightarrow> release_pc \<Rightarrow> worker_budget \<Rightarrow> worker_budget option" where
  "release_step t (Release n r) s = Some (goto t (Rel (Return n r)) s)"
| "release_step t (ReleaseBackground r) s =
    Some (goto t (Rel (Return 1 r)) (s\<lparr>wb_background := wb_background s - 1\<rparr>))"
| "release_step t (Return n r) s = Some (goto t (Rel (Observe r)) (s\<lparr>wb_available := wb_available s + n\<rparr>))"
| "release_step t (Observe r) s = Some (goto t (if wb_waiters s \<noteq> 0 then Rel (WakeLock r) else resumed r) s)"
| "release_step t (WakeLock r) s = take_lock t (Rel (Notify r)) s"
| "release_step t (Notify r) s = Some (goto t (Rel (Unlock r)) (notify_all s))"
| "release_step t (Unlock r) s = Some (goto t (resumed r) (s\<lparr>wb_lock := None\<rparr>))"
| "release_step t (Cancelling u) s =
    Some (goto t (Rel (WakeLock End)) (s\<lparr>wb_cancelled := (wb_cancelled s)[u := True]\<rparr>))"

fun pool_step :: "nat \<Rightarrow> pool_pc \<Rightarrow> worker_budget \<Rightarrow> worker_budget option" where
  "pool_step t (AcquireSome maximum) s = Some (goto t (if wb_foreground s > 0 then Idle else Pool (TrySome maximum)) s)"
| "pool_step t (TrySome maximum) s = Some (case try_acquire maximum s of
      None \<Rightarrow> goto t Idle s
    | Some (s', n) \<Rightarrow> goto t (if n \<le> 1 then Rel (Release n End) else Hold n) s')"
| "pool_step t (AcquireAll n) s = Some (goto t (if wb_foreground s > 0 then Idle else Pool (TryAll n)) s)"
| "pool_step t (TryAll n) s = Some (case try_acquire_exact n s of
      None \<Rightarrow> goto t Idle s | Some (s', n) \<Rightarrow> goto t (Hold n) s')"

text \<open>One internal step of a thread; \<open>None\<close> when it is idle, at work, asleep or waits for the lock.\<close>

fun thread_step :: "nat \<Rightarrow> pc \<Rightarrow> worker_budget \<Rightarrow> worker_budget option" where
  "thread_step t (Fg p) s = enter_step t p s"
| "thread_step t (Bg p) s = background_step t p s"
| "thread_step t (Rel p) s = release_step t p s"
| "thread_step t (Pool p) s = pool_step t p s"
| "thread_step t p s = None"

definition internal :: "nat \<Rightarrow> worker_budget \<Rightarrow> worker_budget option" where
  "internal t s = (if t < length (wb_threads s) then thread_step t (wb_threads s ! t) s else None)"

text \<open>What the callers do: they enter, cancel, start pools, drop permits and pass checkpoints.\<close>

datatype event = Enter | EnterBackground | Cancel nat | Wake | StartSome nat | StartAll nat | Drop | Checkpoint

fun idle_event :: "nat \<Rightarrow> event \<Rightarrow> worker_budget \<Rightarrow> worker_budget option" where
  "idle_event t Enter s = Some (goto t (Fg FStart) (s\<lparr>wb_cancelled := (wb_cancelled s)[t := False]\<rparr>))"
| "idle_event t EnterBackground s = Some (goto t (Bg BLock) s)"
| "idle_event t (Cancel u) s = Some (goto t (Rel (Cancelling u)) s)"
| "idle_event t Wake s = Some (goto t (Rel (WakeLock End)) s)"
| "idle_event t (StartSome maximum) s = Some (goto t (Pool (AcquireSome maximum)) s)"
| "idle_event t (StartAll n) s = Some (goto t (Pool (AcquireAll n)) s)"
| "idle_event t e s = None"

fun external :: "nat \<Rightarrow> event \<Rightarrow> pc \<Rightarrow> worker_budget \<Rightarrow> worker_budget option" where
  "external t e Idle s = idle_event t e s"
| "external t e (Hold n) s = (if e = Drop then Some (goto t (Rel (Release n End)) s) else None)"
| "external t e HoldBackground s =
    (if e = Drop then Some (goto t (Rel (ReleaseBackground End)) s)
     else if e = Checkpoint then
       Some (if wb_foreground s > 0 then goto t (Rel (ReleaseBackground Again)) s else s)
     else None)"
| "external t e p s = None"

inductive budget_step :: "worker_budget \<Rightarrow> worker_budget \<Rightarrow> bool" where
  internal: "internal t s = Some s' \<Longrightarrow> budget_step s s'"
| external: "t < length (wb_threads s) \<Longrightarrow> external t e (wb_threads s ! t) s = Some s' \<Longrightarrow> budget_step s s'"

inductive reachable :: "nat \<Rightarrow> nat \<Rightarrow> worker_budget \<Rightarrow> bool" for capacity threads where
  start: "reachable capacity threads (budget_new capacity threads)"
| step: "reachable capacity threads s \<Longrightarrow> budget_step s s' \<Longrightarrow> reachable capacity threads s'"

section \<open>What a program counter accounts for\<close>

text \<open>Permits in the possession of a thread.\<close>

fun held :: "pc \<Rightarrow> nat" where
  "held Idle = 0"
| "held (Hold n) = n"
| "held HoldBackground = 1"
| "held (Fg p) = of_bool (p \<in> {FWon1, FWon2, FUnlock})"
| "held (Bg p) = of_bool (p \<in> {BWon1, BWon2, BUnlock})"
| "held (Rel p) = (case p of Release n _ \<Rightarrow> n | ReleaseBackground _ \<Rightarrow> 1 | Return n _ \<Rightarrow> n | _ \<Rightarrow> 0)"
| "held (Pool _) = 0"

text \<open>Threads counted as foreground waiters, as waiters, and as active background threads.\<close>

definition foreground_waiter :: "pc \<Rightarrow> nat" where
  "foreground_waiter p = (case p of
     Fg p \<Rightarrow> of_bool (p \<in> {FCheck, FAttempt, FWait, FAsleep, FRelock, FWon1, FCancel1}) | _ \<Rightarrow> 0)"

definition waiter :: "pc \<Rightarrow> nat" where
  "waiter p = (case p of
     Fg p \<Rightarrow> of_bool (p \<notin> {FStart, FTry, FLock, FRegister, FUnlock})
   | Bg p \<Rightarrow> of_bool (p \<notin> {BLock, BRegister, BUnlock}) | _ \<Rightarrow> 0)"

definition background :: "pc \<Rightarrow> nat" where
  "background p = (case p of HoldBackground \<Rightarrow> 1 | Bg p \<Rightarrow> of_bool (p \<in> {BWon2, BUnlock})
   | Rel p \<Rightarrow> (case p of ReleaseBackground _ \<Rightarrow> 1 | _ \<Rightarrow> 0) | _ \<Rightarrow> 0)"

definition critical :: "pc \<Rightarrow> bool" where
  "critical p = (case p of
     Fg p \<Rightarrow> p \<notin> {FStart, FTry, FLock, FAsleep, FRelock}
   | Bg p \<Rightarrow> p \<notin> {BLock, BAsleep, BRelock}
   | Rel p \<Rightarrow> (case p of Notify _ \<Rightarrow> True | Unlock _ \<Rightarrow> True | _ \<Rightarrow> False)
   | _ \<Rightarrow> False)"

text \<open>A thread that will look for waiters or notify them, and a foreground thread on its way to decide.\<close>

definition pending :: "pc \<Rightarrow> bool" where
  "pending p = (case p of Rel p \<Rightarrow> (case p of Observe _ \<Rightarrow> True | WakeLock _ \<Rightarrow> True | Notify _ \<Rightarrow> True | _ \<Rightarrow> False) | _ \<Rightarrow> False)"

definition awake :: "pc \<Rightarrow> bool" where
  "awake p \<longleftrightarrow> (case p of Fg p \<Rightarrow> p \<in> {FRelock, FCheck, FAttempt, FCancel1, FCancel2} | _ \<Rightarrow> False)"

lemmas pc_defs = foreground_waiter_def waiter_def background_def critical_def pending_def awake_def

definition total :: "(pc \<Rightarrow> nat) \<Rightarrow> worker_budget \<Rightarrow> int" where
  "total f s = int (sum_list (map f (wb_threads s)))"

definition counts_ok :: "nat \<Rightarrow> worker_budget \<Rightarrow> bool" where
  "counts_ok capacity s \<longleftrightarrow> int (wb_available s) + total held s = int capacity \<and>
    int (wb_foreground s) = total foreground_waiter s \<and> int (wb_waiters s) = total waiter s \<and>
    int (wb_background s) = total background s"

definition lock_ok :: "worker_budget \<Rightarrow> bool" where
  "lock_ok s \<longleftrightarrow> (\<forall>t < length (wb_threads s). critical (wb_threads s ! t) \<longleftrightarrow> wb_lock s = Some t) \<and>
    (\<forall>t. wb_lock s = Some t \<longrightarrow> t < length (wb_threads s))"

definition owed :: "worker_budget \<Rightarrow> bool" where
  "owed s \<longleftrightarrow> (\<exists>u < length (wb_threads s). pending (wb_threads s ! u))"

definition some_awake :: "worker_budget \<Rightarrow> bool" where
  "some_awake s \<longleftrightarrow> (\<exists>u < length (wb_threads s). awake (wb_threads s ! u))"

definition no_lost_wakeup :: "nat \<Rightarrow> worker_budget \<Rightarrow> nat \<Rightarrow> pc \<Rightarrow> bool" where
  "no_lost_wakeup capacity s t p \<longleftrightarrow>
    (p \<in> {Fg FWait, Fg FAsleep} \<longrightarrow> wb_available s = 0 \<or> owed s) \<and>
    (p \<in> {Fg FAttempt, Fg FWait, Fg FAsleep} \<longrightarrow> wb_cancelled s ! t \<longrightarrow> owed s) \<and>
    (p \<in> {Bg BActive, Bg BAvail} \<longrightarrow> wb_foreground s > 0) \<and>
    (p \<in> {Bg BWait, Bg BAsleep} \<longrightarrow> wb_available s < capacity \<or> owed s \<or> some_awake s)"

definition wake_ok :: "nat \<Rightarrow> worker_budget \<Rightarrow> bool" where
  "wake_ok capacity s \<longleftrightarrow> (\<forall>t < length (wb_threads s). no_lost_wakeup capacity s t (wb_threads s ! t))"

section \<open>Counting\<close>

lemma goto_simps [simp]:
  "wb_available (goto t p s) = wb_available s" "wb_foreground (goto t p s) = wb_foreground s"
  "wb_waiters (goto t p s) = wb_waiters s" "wb_background (goto t p s) = wb_background s"
  "wb_lock (goto t p s) = wb_lock s" "wb_cancelled (goto t p s) = wb_cancelled s"
  "wb_threads (goto t p s) = (wb_threads s)[t := p]"
  by (simp_all add: goto_def)

lemma total_goto:
  assumes "t < length (wb_threads s)"
  shows "total f (goto t p s) = total f s - int (f (wb_threads s ! t)) + int (f p)"
proof -
  have "sum_list (map f (xs[t := p])) + f (xs ! t) = sum_list (map f xs) + f p" if "t < length xs" for xs
    using that by (induction xs arbitrary: t) (auto split: nat.splits)
  from this[of "wb_threads s"] show ?thesis using assms by (simp add: total_def)
qed

lemma total_cong: "wb_threads s = wb_threads s' \<Longrightarrow> total f s = total f s'"
  by (simp add: total_def)

lemma total_ge:
  assumes "t < length (wb_threads s)"
  shows "int (f (wb_threads s ! t)) \<le> total f s"
proof -
  have "f (wb_threads s ! t) \<le> sum_list (map f (wb_threads s))"
    using member_le_sum_list[of "f (wb_threads s ! t)" "map f (wb_threads s)"] assms by auto
  then show ?thesis by (simp add: total_def)
qed

lemma total_pos: "total f s > 0 \<Longrightarrow> \<exists>t < length (wb_threads s). f (wb_threads s ! t) > 0"
proof -
  have "sum_list (map f xs) > 0 \<Longrightarrow> \<exists>p \<in> set xs. f p > 0" for xs
    by (induction xs) auto
  then show "total f s > 0 \<Longrightarrow> ?thesis" by (simp add: total_def) (metis in_set_conv_nth)
qed

lemma total_notify:
  assumes "\<And>p. f (wake_up p) = f p"
  shows "total f (notify_all s) = total f s"
  by (simp add: total_def notify_all_def comp_def assms)

lemma wake_up_cases: "wake_up p = p \<or> (p = Fg FAsleep \<and> wake_up p = Fg FRelock) \<or> (p = Bg BAsleep \<and> wake_up p = Bg BRelock)"
  by (cases p) simp_all

lemma wake_up_counts [simp]:
  "held (wake_up p) = held p" "foreground_waiter (wake_up p) = foreground_waiter p" "waiter (wake_up p) = waiter p"
  "background (wake_up p) = background p" "critical (wake_up p) = critical p" "pending (wake_up p) = pending p"
  using wake_up_cases[of p] by (auto simp: pc_defs)

lemma wake_up_awake: "wake_up p \<noteq> Fg FAsleep" "wake_up p \<noteq> Bg BAsleep"
  by (cases p; simp)+

section \<open>Accounting is preserved\<close>

lemma take_lock_cases:
  "take_lock t p s = Some s' \<longleftrightarrow> wb_lock s = None \<and> s' = goto t p (s\<lparr>wb_lock := Some t\<rparr>)"
  by (auto simp: take_lock_def)

lemma total_update [simp]:
  "total f (s\<lparr>wb_available := a\<rparr>) = total f s" "total f (s\<lparr>wb_foreground := a\<rparr>) = total f s"
  "total f (s\<lparr>wb_waiters := a\<rparr>) = total f s" "total f (s\<lparr>wb_background := a\<rparr>) = total f s"
  "total f (s\<lparr>wb_lock := l\<rparr>) = total f s" "total f (s\<lparr>wb_cancelled := c\<rparr>) = total f s"
  by (simp_all add: total_def)

text \<open>The change a step makes: the counters move by what the two program counters account for.\<close>

definition accounts :: "worker_budget \<Rightarrow> pc \<Rightarrow> pc \<Rightarrow> worker_budget \<Rightarrow> bool" where
  "accounts s p p' s' \<longleftrightarrow>
    int (wb_available s') + int (held p') = int (wb_available s) + int (held p) \<and>
    int (wb_foreground s') - int (foreground_waiter p') = int (wb_foreground s) - int (foreground_waiter p) \<and>
    int (wb_waiters s') - int (waiter p') = int (wb_waiters s) - int (waiter p) \<and>
    int (wb_background s') - int (background p') = int (wb_background s) - int (background p)"

lemma counts_goto:
  assumes "counts_ok capacity s" "t < length (wb_threads s)" "wb_threads s' = wb_threads s"
    "accounts s (wb_threads s ! t) p' s'"
  shows "counts_ok capacity (goto t p' s')"
proof -
  have "total f s' = total f s" for f by (rule total_cong) (rule assms(3))
  then show ?thesis
    using assms total_goto[of t s' _ p'] by (auto simp: counts_ok_def accounts_def)
qed

lemma counts_ge:
  assumes "counts_ok capacity s" "t < length (wb_threads s)" "wb_threads s ! t = p"
  shows "foreground_waiter p \<le> wb_foreground s" "waiter p \<le> wb_waiters s" "background p \<le> wb_background s"
  using total_ge[OF assms(2), of foreground_waiter] total_ge[OF assms(2), of waiter] total_ge[OF assms(2), of background]
    assms by (auto simp: counts_ok_def)

text \<open>
  Every internal step of a thread is a move of its program counter, except a notification: the shape the
  preservation lemmas share.
\<close>

definition locks_right :: "nat \<Rightarrow> worker_budget \<Rightarrow> pc \<Rightarrow> pc \<Rightarrow> worker_budget \<Rightarrow> bool" where
  "locks_right t s p p' s' \<longleftrightarrow>
    (if critical p then if critical p' then wb_lock s' = wb_lock s else wb_lock s' = None
     else if critical p' then wb_lock s = None \<and> wb_lock s' = Some t else wb_lock s' = wb_lock s)"

definition wakes_right :: "nat \<Rightarrow> worker_budget \<Rightarrow> pc \<Rightarrow> pc \<Rightarrow> worker_budget \<Rightarrow> bool" where
  "wakes_right t s p p' s' \<longleftrightarrow>
    (pending p \<longrightarrow> pending p' \<or> wb_waiters s = 0) \<and>
    (awake p \<longrightarrow> awake p' \<or> pending p' \<or> wb_available s' = 0 \<or> wb_available s' < wb_available s) \<and>
    (wb_available s' \<le> wb_available s \<or> pending p') \<and>
    ((\<forall>u. u \<noteq> t \<longrightarrow> wb_cancelled s' ! u = wb_cancelled s ! u) \<or> pending p') \<and>
    (critical p \<or> wb_foreground s' = wb_foreground s) \<and>
    (p' = Fg FAttempt \<longrightarrow> \<not> wb_cancelled s' ! t) \<and>
    (p' = Fg FWait \<longrightarrow> p = Fg FAttempt \<and> wb_available s' = 0 \<and> wb_cancelled s' = wb_cancelled s) \<and>
    (p' = Fg FAsleep \<longrightarrow> p = Fg FWait \<and> wb_cancelled s' = wb_cancelled s \<and> wb_available s' = wb_available s) \<and>
    (p' = Bg BActive \<longrightarrow> wb_foreground s' > 0) \<and>
    (p' = Bg BAvail \<longrightarrow> p = Bg BActive \<and> wb_foreground s' = wb_foreground s) \<and>
    (p' = Bg BWait \<longrightarrow> wb_available s' = 0 \<or> (p = Bg BActive \<and> wb_background s > 0 \<and> wb_available s' = wb_available s)
      \<or> (p = Bg BAvail \<and> wb_available s' = wb_available s)) \<and>
    (p' = Bg BAsleep \<longrightarrow> p = Bg BWait \<and> wb_available s' = wb_available s)"

definition moves :: "nat \<Rightarrow> worker_budget \<Rightarrow> pc \<Rightarrow> pc \<Rightarrow> worker_budget \<Rightarrow> bool" where
  "moves t s p p' s' \<longleftrightarrow> wb_threads s' = wb_threads s \<and>
    accounts s p p' s' \<and> locks_right t s p p' s' \<and> wakes_right t s p p' s'"

lemmas moves_defs = moves_def accounts_def locks_right_def wakes_right_def

lemma attempt_cases:
  "attempt t won lost s = (if wb_available s > 0 then goto t won (s\<lparr>wb_available := wb_available s - 1\<rparr>) else goto t lost s)"
  by (auto simp: attempt_def try_acquire_exact_def)

definition moved :: "nat \<Rightarrow> worker_budget \<Rightarrow> pc \<Rightarrow> worker_budget \<Rightarrow> bool" where
  "moved t s p s' \<longleftrightarrow> (\<exists>p' s1. s' = goto t p' s1 \<and> moves t s p p' s1)"

lemma movedI: "moves t s p p' s1 \<Longrightarrow> moved t s p (goto t p' s1)"
  by (auto simp: moved_def)

lemma moved_attempt:
  assumes "wb_available s > 0 \<Longrightarrow> moves t s p won (s\<lparr>wb_available := wb_available s - 1\<rparr>)"
    and "wb_available s = 0 \<Longrightarrow> moves t s p lost s"
  shows "moved t s p (attempt t won lost s)"
  using assms by (auto simp: attempt_cases intro!: movedI)

lemma moved_take_lock:
  "take_lock t p' s = Some s' \<Longrightarrow> (wb_lock s = None \<Longrightarrow> moves t s p p' (s\<lparr>wb_lock := Some t\<rparr>)) \<Longrightarrow> moved t s p s'"
  by (auto simp: take_lock_cases intro!: movedI)

lemma enter_moves:
  assumes "enter_step t p s = Some s'" "foreground_waiter (Fg p) \<le> wb_foreground s" "waiter (Fg p) \<le> wb_waiters s"
  shows "moved t s (Fg p) s'"
proof (cases p)
  case FLock
  then show ?thesis using assms(1) by (auto elim!: moved_take_lock simp: moves_defs pc_defs)
next
  case FRelock
  then show ?thesis using assms(1) by (auto elim!: moved_take_lock simp: moves_defs pc_defs)
next
  case FTry
  then have "s' = attempt t (Hold 1) (Fg FLock) s" using assms(1) by simp
  then show ?thesis using FTry by (auto intro!: moved_attempt simp: moves_defs pc_defs)
next
  case FAttempt
  then have "s' = attempt t (Fg FWon1) (Fg FWait) s" using assms(1) by simp
  then show ?thesis using FAttempt by (auto intro!: moved_attempt simp: moves_defs pc_defs)
qed (use assms in \<open>auto intro!: movedI simp: moves_defs pc_defs\<close>)

lemma background_moves:
  assumes "background_step t p s = Some s'" "waiter (Bg p) \<le> wb_waiters s"
  shows "moved t s (Bg p) s'"
proof (cases p)
  case BLock
  then show ?thesis using assms(1) by (auto elim!: moved_take_lock simp: moves_defs pc_defs)
next
  case BRelock
  then show ?thesis using assms(1) by (auto elim!: moved_take_lock simp: moves_defs pc_defs)
next
  case BAttempt
  then have "s' = attempt t (Bg BWon1) (Bg BWait) s" using assms(1) by simp
  then show ?thesis using BAttempt by (auto intro!: moved_attempt simp: moves_defs pc_defs)
qed (use assms in \<open>auto intro!: movedI simp: moves_defs pc_defs\<close>)

lemma resumed_defs [simp]:
  "held (resumed r) = 0" "foreground_waiter (resumed r) = 0" "waiter (resumed r) = 0" "background (resumed r) = 0"
  "\<not> critical (resumed r)" "\<not> pending (resumed r)" "\<not> awake (resumed r)" "resumed r \<noteq> Fg q"
  by (cases r; simp add: pc_defs)+

lemma resumed_bg: "resumed r = Bg q \<longleftrightarrow> r = Again \<and> q = BLock"
  by (cases r) auto

lemma release_moves:
  assumes "release_step t p s = Some s'" "background (Rel p) \<le> wb_background s" "\<forall>r. p \<noteq> Notify r"
  shows "moved t s (Rel p) s'"
proof (cases p)
  case (WakeLock r)
  then show ?thesis using assms(1) by (auto elim!: moved_take_lock simp: moves_defs pc_defs)
next
  case (Observe r)
  have "moves t s (Rel (Observe r)) (resumed r) s" if "wb_waiters s = 0"
    using that by (cases r) (simp_all add: moves_defs pc_defs)
  moreover have "moves t s (Rel (Observe r)) (Rel (WakeLock r)) s"
    by (simp add: moves_defs pc_defs)
  ultimately show ?thesis using assms(1) Observe by (auto intro!: movedI)
next
  case (Unlock r)
  have "moves t s (Rel (Unlock r)) (resumed r) (s\<lparr>wb_lock := None\<rparr>)"
    by (cases r) (simp_all add: moves_defs pc_defs)
  then show ?thesis using assms(1) Unlock by (auto intro!: movedI)
qed (use assms in \<open>auto intro!: movedI simp: moves_defs pc_defs\<close>)

lemma pool_moves:
  assumes "pool_step t p s = Some s'"
  shows "moved t s (Pool p) s'"
proof (cases p)
  case (TrySome m)
  show ?thesis
  proof (cases "min m (wb_available s) = 0")
    case True
    then have "s' = goto t Idle s" using assms TrySome by (auto simp: try_acquire_def Let_def)
    then show ?thesis by (auto intro!: movedI simp: moves_defs pc_defs)
  next
    case False
    let ?n = "min m (wb_available s)"
    have "s' = goto t (if ?n \<le> 1 then Rel (Release ?n End) else Hold ?n) (s\<lparr>wb_available := wb_available s - ?n\<rparr>)"
      using assms TrySome False by (simp add: try_acquire_def Let_def)
    moreover have "moves t s (Pool p) (if ?n \<le> 1 then Rel (Release ?n End) else Hold ?n) (s\<lparr>wb_available := wb_available s - ?n\<rparr>)"
      by (simp add: moves_defs pc_defs)
    ultimately show ?thesis by (simp only: movedI)
  qed
next
  case (TryAll n)
  show ?thesis
  proof (cases "n \<noteq> 0 \<and> n \<le> wb_available s")
    case True
    then have "s' = goto t (Hold n) (s\<lparr>wb_available := wb_available s - n\<rparr>)"
      using assms TryAll by (simp add: try_acquire_exact_def)
    moreover have "moves t s (Pool p) (Hold n) (s\<lparr>wb_available := wb_available s - n\<rparr>)"
      using True by (simp add: moves_defs pc_defs)
    ultimately show ?thesis by (simp only: movedI)
  next
    case False
    then have "s' = goto t Idle s" using assms TryAll by (auto simp: try_acquire_exact_def)
    then show ?thesis by (auto intro!: movedI simp: moves_defs pc_defs)
  qed
qed (use assms in \<open>auto intro!: movedI simp: moves_defs pc_defs\<close>)

lemma idle_moves: "idle_event t e s = Some s' \<Longrightarrow> moved t s Idle s'"
  by (cases e) (auto intro!: movedI simp: moves_defs pc_defs)

lemma external_moves: "external t e p s = Some s' \<Longrightarrow> s' = s \<or> moved t s p s'"
  using idle_moves[of t e s s']
  by (cases p) (auto intro!: movedI simp: moves_defs pc_defs split: if_splits)

section \<open>The invariant\<close>

definition budget_inv :: "nat \<Rightarrow> worker_budget \<Rightarrow> bool" where
  "budget_inv capacity s \<longleftrightarrow> counts_ok capacity s \<and> lock_ok s \<and> wake_ok capacity s"

lemma lock_moves:
  assumes "lock_ok s" "t < length (wb_threads s)" "moves t s (wb_threads s ! t) p' s1"
  shows "lock_ok (goto t p' s1)"
proof -
  have thr: "wb_threads (goto t p' s1) = (wb_threads s)[t := p']" using assms(3) by (simp add: moves_def)
  have own: "critical (wb_threads s ! t) \<longleftrightarrow> wb_lock s = Some t"
    and others: "\<And>u. u < length (wb_threads s) \<Longrightarrow> critical (wb_threads s ! u) \<longleftrightarrow> wb_lock s = Some u"
    and range: "\<And>u. wb_lock s = Some u \<Longrightarrow> u < length (wb_threads s)"
    using assms(1,2) by (auto simp: lock_ok_def)
  have l: "locks_right t s (wb_threads s ! t) p' s1" using assms(3) by (simp add: moves_def)
  have "critical ((wb_threads s)[t := p'] ! u) \<longleftrightarrow> wb_lock s1 = Some u" if "u < length (wb_threads s)" for u
    using l own others[OF that] that assms(2) by (cases "u = t") (auto simp: locks_right_def split: if_splits)
  moreover have "u < length (wb_threads s)" if "wb_lock s1 = Some u" for u
    using l range that assms(2) by (auto simp: locks_right_def split: if_splits)
  ultimately show ?thesis unfolding lock_ok_def thr by simp
qed

lemma waiting_counts:
  assumes "counts_ok capacity s" "u < length (wb_threads s)"
    "wb_threads s ! u \<in> {Fg FAttempt, Fg FWait, Fg FAsleep, Bg BActive, Bg BAvail, Bg BWait, Bg BAsleep}"
  shows "wb_waiters s \<noteq> 0"
  using counts_ge(2)[OF assms(1,2) refl] assms(3) by (auto simp: waiter_def)

lemma goto_exists:
  assumes "wb_threads s1 = wb_threads s" "t < length (wb_threads s)"
  shows "owed (goto t p' s1) \<longleftrightarrow> pending p' \<or> (\<exists>v < length (wb_threads s). v \<noteq> t \<and> pending (wb_threads s ! v))"
    and "some_awake (goto t p' s1) \<longleftrightarrow> awake p' \<or> (\<exists>v < length (wb_threads s). v \<noteq> t \<and> awake (wb_threads s ! v))"
  using assms by (auto simp: owed_def some_awake_def nth_list_update)

lemma wakes_rightD:
  assumes "wakes_right t s p p' s'"
  shows "pending p \<Longrightarrow> pending p' \<or> wb_waiters s = 0"
    and "awake p \<Longrightarrow> awake p' \<or> pending p' \<or> wb_available s' = 0 \<or> wb_available s' < wb_available s"
    and "wb_available s' \<le> wb_available s \<or> pending p'"
    and "u \<noteq> t \<Longrightarrow> wb_cancelled s' ! u = wb_cancelled s ! u \<or> pending p'"
    and "critical p \<or> wb_foreground s' = wb_foreground s"
  using assms by (simp_all only: wakes_right_def) blast+

lemma wakes_right_ownD:
  assumes "wakes_right t s p p' s'"
  shows "p' = Fg FAttempt \<Longrightarrow> \<not> wb_cancelled s' ! t"
    and "p' = Fg FWait \<Longrightarrow> p = Fg FAttempt \<and> wb_available s' = 0 \<and> wb_cancelled s' = wb_cancelled s"
    and "p' = Fg FAsleep \<Longrightarrow> p = Fg FWait \<and> wb_cancelled s' = wb_cancelled s \<and> wb_available s' = wb_available s"
    and "p' = Bg BActive \<Longrightarrow> wb_foreground s' > 0"
    and "p' = Bg BAvail \<Longrightarrow> p = Bg BActive \<and> wb_foreground s' = wb_foreground s"
    and "p' = Bg BWait \<Longrightarrow> wb_available s' = 0 \<or> (p = Bg BActive \<and> wb_background s > 0 \<and> wb_available s' = wb_available s)
      \<or> (p = Bg BAvail \<and> wb_available s' = wb_available s)"
    and "p' = Bg BAsleep \<Longrightarrow> p = Bg BWait \<and> wb_available s' = wb_available s"
  using assms by (simp_all only: wakes_right_def) blast+

lemma no_lost_wakeupD:
  assumes "no_lost_wakeup capacity s t p"
  shows "p \<in> {Fg FWait, Fg FAsleep} \<Longrightarrow> wb_available s = 0 \<or> owed s"
    and "p \<in> {Fg FAttempt, Fg FWait, Fg FAsleep} \<Longrightarrow> wb_cancelled s ! t \<Longrightarrow> owed s"
    and "p \<in> {Bg BActive, Bg BAvail} \<Longrightarrow> wb_foreground s > 0"
    and "p \<in> {Bg BWait, Bg BAsleep} \<Longrightarrow> wb_available s < capacity \<or> owed s \<or> some_awake s"
  using assms unfolding no_lost_wakeup_def by blast+

lemma wake_other:
  assumes inv: "counts_ok capacity s" "lock_ok s" "wake_ok capacity s" and cap: "0 < capacity"
    and t: "t < length (wb_threads s)" and m: "moves t s (wb_threads s ! t) p' s1"
    and u: "u < length (wb_threads s)" "u \<noteq> t"
  shows "no_lost_wakeup capacity (goto t p' s1) u (wb_threads s ! u)"
proof -
  let ?q = "wb_threads s ! u" and ?p = "wb_threads s ! t"
  have w: "wakes_right t s ?p p' s1" and thr: "wb_threads s1 = wb_threads s" using m by (simp_all add: moves_def)
  note G = goto_exists[OF thr t, of p']
  have old: "no_lost_wakeup capacity s u ?q" using inv(3) u by (simp add: wake_ok_def)
  have waiting: "wb_waiters s \<noteq> 0"
    if "?q \<in> {Fg FAttempt, Fg FWait, Fg FAsleep, Bg BActive, Bg BAvail, Bg BWait, Bg BAsleep}"
    using waiting_counts[OF inv(1) u(1) that] .
  have owed: "owed (goto t p' s1)" if "owed s" "wb_waiters s \<noteq> 0"
    using that wakes_rightD(1)[OF w] G(1) by (metis owed_def)
  have le: "wb_available s \<le> capacity" using inv(1) by (auto simp: counts_ok_def total_def)
  have avail: "wb_available s1 \<le> wb_available s \<or> owed (goto t p' s1)" using wakes_rightD(3)[OF w] G(1) by blast
  have some: "some_awake (goto t p' s1) \<or> owed (goto t p' s1) \<or> wb_available s1 = 0 \<or> wb_available s1 < wb_available s"
    if "some_awake s"
    using that wakes_rightD(2)[OF w] G by (metis some_awake_def)
  show ?thesis unfolding no_lost_wakeup_def goto_simps
  proof (intro conjI impI)
    assume q: "?q \<in> {Fg FWait, Fg FAsleep}"
    then show "wb_available s1 = 0 \<or> owed (goto t p' s1)"
      using no_lost_wakeupD(1)[OF old] waiting owed avail by auto
  next
    assume q: "?q \<in> {Fg FAttempt, Fg FWait, Fg FAsleep}" and c: "wb_cancelled s1 ! u"
    have "wb_cancelled s ! u \<or> pending p'" using wakes_rightD(4)[OF w u(2)] c by simp
    then show "owed (goto t p' s1)" using no_lost_wakeupD(2)[OF old q] waiting q owed G(1) by auto
  next
    assume q: "?q \<in> {Bg BActive, Bg BAvail}"
    then have "critical ?q" by (auto simp: critical_def)
    then have "\<not> critical ?p" using inv(2) t u by (auto simp: lock_ok_def)
    then show "wb_foreground s1 > 0" using no_lost_wakeupD(3)[OF old q] wakes_rightD(5)[OF w] by simp
  next
    assume q: "?q \<in> {Bg BWait, Bg BAsleep}"
    then have "wb_available s < capacity \<or> owed s \<or> some_awake s" "wb_waiters s \<noteq> 0"
      using no_lost_wakeupD(4)[OF old q] waiting by auto
    then show "wb_available s1 < capacity \<or> owed (goto t p' s1) \<or> some_awake (goto t p' s1)"
      using owed some avail le cap by auto
  qed
qed

lemma waiter_outside:
  "foreground_waiter p > 0 \<Longrightarrow> \<not> critical p \<Longrightarrow> p = Fg FAsleep \<or> p = Fg FRelock"
proof (cases p)
  case (Fg q)
  then show "foreground_waiter p > 0 \<Longrightarrow> \<not> critical p \<Longrightarrow> ?thesis"
    by (cases q) (simp_all only: foreground_waiter_def critical_def pc.case enter_pc.distinct pc.inject simp_thms insert_iff empty_iff of_bool_eq less_irrefl not_False_eq_True)
qed (simp_all add: foreground_waiter_def)

lemma wake_own:
  assumes inv: "counts_ok capacity s" "lock_ok s" "wake_ok capacity s" and cap: "0 < capacity"
    and t: "t < length (wb_threads s)" and m: "moves t s (wb_threads s ! t) p' s1"
  shows "no_lost_wakeup capacity (goto t p' s1) t p'"
proof -
  let ?p = "wb_threads s ! t"
  have w: "wakes_right t s ?p p' s1" and thr: "wb_threads s1 = wb_threads s" using m by (simp_all add: moves_def)
  note G = goto_exists[OF thr t, of p']
  have old: "no_lost_wakeup capacity s t ?p" using inv(3) t by (simp add: wake_ok_def)
  have owed: "owed (goto t p' s1)" if "owed s" "\<not> pending ?p"
    using that G(1) by (metis owed_def)
  have some: "some_awake (goto t p' s1)" if "some_awake s" "\<not> awake ?p"
    using that G(2) by (metis some_awake_def)
  show ?thesis unfolding no_lost_wakeup_def goto_simps
  proof (intro conjI impI)
    assume "p' \<in> {Fg FWait, Fg FAsleep}"
    then show "wb_available s1 = 0 \<or> owed (goto t p' s1)"
      using wakes_right_ownD(2,3)[OF w] no_lost_wakeupD(1)[OF old] owed by (auto simp: pending_def)
  next
    assume "p' \<in> {Fg FAttempt, Fg FWait, Fg FAsleep}" "wb_cancelled s1 ! t"
    then show "owed (goto t p' s1)"
      using wakes_right_ownD(1-3)[OF w] no_lost_wakeupD(2)[OF old] owed by (auto simp: pending_def)
  next
    assume "p' \<in> {Bg BActive, Bg BAvail}"
    then show "wb_foreground s1 > 0" using wakes_right_ownD(4,5)[OF w] no_lost_wakeupD(3)[OF old] by auto
  next
    assume "p' \<in> {Bg BWait, Bg BAsleep}"
    then consider "wb_available s1 = 0"
      | "?p = Bg BActive" "wb_background s > 0" "wb_available s1 = wb_available s"
      | "?p = Bg BAvail" "wb_available s1 = wb_available s"
      | "?p = Bg BWait" "wb_available s1 = wb_available s"
      using wakes_right_ownD(6,7)[OF w] by auto
    then show "wb_available s1 < capacity \<or> owed (goto t p' s1) \<or> some_awake (goto t p' s1)"
    proof cases
      case 2
      then have "total background s > 0" using inv(1) by (simp add: counts_ok_def)
      then obtain v where v: "v < length (wb_threads s)" "background (wb_threads s ! v) > 0" using total_pos by blast
      then have "held (wb_threads s ! v) > 0" by (auto simp: background_def split: pc.splits release_pc.splits)
      then have "wb_available s < capacity" using inv(1) total_ge[OF v(1), of held] by (simp add: counts_ok_def)
      then show ?thesis using 2 by simp
    next
      case 3
      then have "total foreground_waiter s > 0" using inv(1) no_lost_wakeupD(3)[OF old] by (simp add: counts_ok_def)
      then obtain v where v: "v < length (wb_threads s)" "foreground_waiter (wb_threads s ! v) > 0" using total_pos by blast
      have "wb_lock s = Some t" using inv(2) t 3(1) by (auto simp: lock_ok_def critical_def)
      moreover have "v \<noteq> t" using v(2) 3(1) by (auto simp: foreground_waiter_def)
      ultimately have "\<not> critical (wb_threads s ! v)" using inv(2) v(1) by (auto simp: lock_ok_def)
      with v(2) have "wb_threads s ! v = Fg FAsleep \<or> wb_threads s ! v = Fg FRelock" by (rule waiter_outside)
      then show ?thesis
      proof
        assume "wb_threads s ! v = Fg FAsleep"
        then have "wb_available s = 0 \<or> owed s" using inv(3) v(1) no_lost_wakeupD(1) by (fastforce simp: wake_ok_def)
        then show ?thesis using 3 cap owed by (auto simp: pending_def)
      next
        assume "wb_threads s ! v = Fg FRelock"
        then have "some_awake s" using v(1) by (auto simp: some_awake_def awake_def)
        then show ?thesis using some 3(1) by (simp add: awake_def)
      qed
    next
      case 4
      then show ?thesis using no_lost_wakeupD(4)[OF old] owed some by (auto simp: pending_def awake_def)
    qed (use cap in simp)
  qed
qed

lemma moved_inv:
  assumes "budget_inv capacity s" "0 < capacity" "t < length (wb_threads s)" "moved t s (wb_threads s ! t) s'"
  shows "budget_inv capacity s'"
proof -
  note I = assms(1)[unfolded budget_inv_def]
  obtain p' s1 where s': "s' = goto t p' s1" and m: "moves t s (wb_threads s ! t) p' s1"
    using assms(4) by (auto simp: moved_def)
  have thr: "wb_threads s1 = wb_threads s" using m by (simp add: moves_def)
  have "counts_ok capacity s'" unfolding s'
    by (rule counts_goto[OF _ assms(3) thr]) (use I m in \<open>simp_all add: moves_def\<close>)
  moreover have "lock_ok s'" unfolding s' using lock_moves[OF _ assms(3) m] I by simp
  moreover have "wake_ok capacity s'" unfolding s' wake_ok_def
  proof (intro allI impI)
    fix u assume "u < length (wb_threads (goto t p' s1))"
    then have u: "u < length (wb_threads s)" by (simp add: thr)
    show "no_lost_wakeup capacity (goto t p' s1) u (wb_threads (goto t p' s1) ! u)"
    proof (cases "u = t")
      case True
      then show ?thesis using wake_own[OF _ _ _ assms(2,3) m] I u by (simp add: thr)
    next
      case False
      then show ?thesis using wake_other[OF _ _ _ assms(2,3) m u] I by (simp add: thr)
    qed
  qed
  ultimately show ?thesis by (simp add: budget_inv_def)
qed

lemma notify_threads [simp]: "wb_threads (notify_all s) = map wake_up (wb_threads s)"
  by (simp add: notify_all_def)

lemma notify_inv:
  assumes inv: "budget_inv capacity s" and t: "t < length (wb_threads s)" and p: "wb_threads s ! t = Rel (Notify r)"
  shows "budget_inv capacity (goto t (Rel (Unlock r)) (notify_all s))"
proof -
  note I = inv[unfolded budget_inv_def]
  let ?s = "goto t (Rel (Unlock r)) (notify_all s)"
  have thr: "wb_threads ?s = (map wake_up (wb_threads s))[t := Rel (Unlock r)]" by simp
  have lock: "wb_lock s = Some t" "\<And>u. u < length (wb_threads s) \<Longrightarrow> critical (wb_threads s ! u) \<longleftrightarrow> u = t"
    using I t p by (auto simp: lock_ok_def critical_def)
  have "counts_ok capacity (notify_all s)"
    using I by (simp add: counts_ok_def total_notify) (simp add: notify_all_def)
  then have "counts_ok capacity ?s"
    by (rule counts_goto) (use t p in \<open>simp_all add: accounts_def pc_defs\<close>)
  moreover have "lock_ok ?s"
    unfolding lock_ok_def thr using lock t
    by (auto simp: nth_list_update critical_def[of "Rel (Unlock r)"]) (simp_all add: notify_all_def)
  moreover have "wake_ok capacity ?s"
    unfolding wake_ok_def thr
  proof (intro allI impI)
    fix u assume "u < length ((map wake_up (wb_threads s))[t := Rel (Unlock r)])"
    then have u: "u < length (wb_threads s)" by simp
    show "no_lost_wakeup capacity ?s u ((map wake_up (wb_threads s))[t := Rel (Unlock r)] ! u)"
    proof (cases "u = t")
      case True
      then show ?thesis using u by (simp add: no_lost_wakeup_def)
    next
      case False
      have "\<not> critical (wake_up (wb_threads s ! u))" using lock(2)[OF u] False by simp
      then have "wake_up (wb_threads s ! u) \<notin> {Fg FAttempt, Fg FWait, Bg BActive, Bg BAvail, Bg BWait}"
        by (auto simp: critical_def)
      then show ?thesis using u False wake_up_awake[of "wb_threads s ! u"] by (simp add: no_lost_wakeup_def)
    qed
  qed
  ultimately show ?thesis by (simp add: budget_inv_def)
qed

lemma thread_step_moved:
  assumes inv: "budget_inv capacity s" and t: "t < length (wb_threads s)" and p: "wb_threads s ! t = p"
    and step: "thread_step t p s = Some s'" and notify: "\<forall>r. p \<noteq> Rel (Notify r)"
  shows "moved t s p s'"
proof -
  have "foreground_waiter p \<le> wb_foreground s" "waiter p \<le> wb_waiters s" "background p \<le> wb_background s"
    using counts_ge[OF _ t p] inv by (auto simp: budget_inv_def)
  then show ?thesis
    using step notify enter_moves background_moves release_moves pool_moves by (cases p) auto
qed

lemma internal_inv:
  assumes inv: "budget_inv capacity s" and cap: "0 < capacity" and step: "internal t s = Some s'"
  shows "budget_inv capacity s'"
proof -
  have t: "t < length (wb_threads s)" and ts: "thread_step t (wb_threads s ! t) s = Some s'"
    using step by (auto simp: internal_def split: if_splits)
  show ?thesis
  proof (cases "\<exists>r. wb_threads s ! t = Rel (Notify r)")
    case True
    then show ?thesis using notify_inv[OF inv t] ts by auto
  next
    case False
    then show ?thesis using moved_inv[OF inv cap t] thread_step_moved[OF inv t refl ts] by blast
  qed
qed

lemma budget_inv_new: "budget_inv capacity (budget_new capacity threads)"
proof -
  have "total f (budget_new capacity threads) = int threads * int (f Idle)" for f
    by (simp add: total_def budget_new_def map_replicate sum_list_replicate)
  then show ?thesis
    by (simp add: budget_inv_def counts_ok_def lock_ok_def wake_ok_def no_lost_wakeup_def pc_defs)
      (simp add: budget_new_def)
qed

lemma reachable_inv: "reachable capacity threads s \<Longrightarrow> 0 < capacity \<Longrightarrow> budget_inv capacity s"
proof (induction rule: reachable.induct)
  case (step s s')
  from step(2) show ?case
  proof cases
    case (internal t)
    then show ?thesis using internal_inv step by blast
  next
    case (external t e)
    then show ?thesis using external_moves[OF external(2)] moved_inv[OF _ step(4) external(1)] step by blast
  qed
qed (rule budget_inv_new)

section \<open>Settling\<close>

definition settled :: "worker_budget \<Rightarrow> bool" where
  "settled s \<longleftrightarrow> (\<forall>t < length (wb_threads s). internal t s = None)"

definition internal_step :: "worker_budget \<Rightarrow> worker_budget \<Rightarrow> bool" where
  "internal_step s s' \<longleftrightarrow> (\<exists>t. internal t s = Some s')"

lemma critical_steps: "critical p \<Longrightarrow> thread_step t p s \<noteq> None"
proof (cases p)
  case (Fg q)
  then show "critical p \<Longrightarrow> ?thesis" by (cases q) (simp_all add: critical_def)
next
  case (Bg q)
  then show "critical p \<Longrightarrow> ?thesis" by (cases q) (simp_all add: critical_def)
next
  case (Rel q)
  then show "critical p \<Longrightarrow> ?thesis" by (cases q) (simp_all add: critical_def)
qed (simp_all add: critical_def)

lemma unlocked_steps:
  assumes "thread_step t p s = None" "wb_lock s = None"
  shows "p \<in> {Idle, HoldBackground, Fg FAsleep, Bg BAsleep} \<or> (\<exists>n. p = Hold n)"
proof (cases p)
  case (Fg q)
  then show ?thesis using assms by (cases q) (simp_all add: take_lock_def)
next
  case (Bg q)
  then show ?thesis using assms by (cases q) (simp_all add: take_lock_def)
next
  case (Rel q)
  then show ?thesis using assms by (cases q) (simp_all add: take_lock_def)
next
  case (Pool q)
  then show ?thesis using assms by (cases q) simp_all
qed (use assms in auto)

lemma settled_pcs:
  assumes inv: "budget_inv capacity s" and "settled s" and t: "t < length (wb_threads s)"
  shows "wb_threads s ! t \<in> {Idle, HoldBackground, Fg FAsleep, Bg BAsleep} \<or> (\<exists>n. wb_threads s ! t = Hold n)"
proof -
  have stuck: "thread_step u (wb_threads s ! u) s = None" if "u < length (wb_threads s)" for u
    using assms(2) that by (auto simp: settled_def internal_def)
  have "wb_lock s = None"
  proof (cases "wb_lock s")
    case (Some u)
    then have "u < length (wb_threads s)" "critical (wb_threads s ! u)" using inv by (auto simp: budget_inv_def lock_ok_def)
    then show ?thesis using critical_steps stuck by blast
  qed
  then show ?thesis using unlocked_steps stuck[OF t] by blast
qed

lemma settled_waits:
  assumes inv: "budget_inv capacity s" and settled: "settled s" and t: "t < length (wb_threads s)"
  shows "wb_threads s ! t = Fg FAsleep \<Longrightarrow> wb_available s = 0 \<and> \<not> wb_cancelled s ! t"
    and "wb_threads s ! t = Bg BAsleep \<Longrightarrow> wb_available s < capacity"
proof -
  have pcs: "\<not> pending (wb_threads s ! u) \<and> \<not> awake (wb_threads s ! u)" if "u < length (wb_threads s)" for u
    using settled_pcs[OF inv settled that] by (auto simp: pending_def awake_def)
  then have "\<not> owed s" "\<not> some_awake s" by (auto simp: owed_def some_awake_def)
  moreover have "no_lost_wakeup capacity s t (wb_threads s ! t)" using inv t by (simp add: budget_inv_def wake_ok_def)
  ultimately show "wb_threads s ! t = Fg FAsleep \<Longrightarrow> wb_available s = 0 \<and> \<not> wb_cancelled s ! t"
    and "wb_threads s ! t = Bg BAsleep \<Longrightarrow> wb_available s < capacity"
    using no_lost_wakeupD[of capacity s t "wb_threads s ! t"] by auto
qed

text \<open>
  Internal steps end: a thread notifies at most once before it leaves the budget or wins, and between
  notifications every program counter only moves forward.
\<close>

definition notifications :: "pc \<Rightarrow> nat" where
  "notifications p = (case p of
     Fg q \<Rightarrow> of_bool (q \<notin> {FWon1, FWon2, FUnlock})
   | Rel q \<Rightarrow> (case q of Unlock _ \<Rightarrow> 0 | _ \<Rightarrow> 1)
   | Pool _ \<Rightarrow> 1
   | _ \<Rightarrow> 0)"

fun enter_rank :: "enter_pc \<Rightarrow> nat" where
  "enter_rank FStart = 20" | "enter_rank FTry = 19" | "enter_rank FLock = 18" | "enter_rank FRegister = 17"
| "enter_rank FCount = 16" | "enter_rank FCheck = 15" | "enter_rank FAttempt = 6" | "enter_rank FWait = 1"
| "enter_rank FAsleep = 0" | "enter_rank FRelock = 16" | "enter_rank FWon1 = 3" | "enter_rank FWon2 = 2"
| "enter_rank FUnlock = 1" | "enter_rank FCancel1 = 14" | "enter_rank FCancel2 = 13"

fun background_rank :: "background_pc \<Rightarrow> nat" where
  "background_rank BLock = 10" | "background_rank BRegister = 9" | "background_rank BLoad = 8"
| "background_rank BActive = 7" | "background_rank BAvail = 6" | "background_rank BAttempt = 5"
| "background_rank BWait = 1" | "background_rank BAsleep = 0" | "background_rank BRelock = 9"
| "background_rank BWon1 = 3" | "background_rank BWon2 = 2" | "background_rank BUnlock = 1"

fun release_rank :: "release_pc \<Rightarrow> nat" where
  "release_rank (Release _ _) = 16" | "release_rank (ReleaseBackground _) = 16" | "release_rank (Return _ _) = 15"
| "release_rank (Observe _) = 14" | "release_rank (WakeLock _) = 13" | "release_rank (Notify _) = 12"
| "release_rank (Unlock _) = 11" | "release_rank (Cancelling _) = 14"

fun pool_rank :: "pool_pc \<Rightarrow> nat" where
  "pool_rank (AcquireSome _) = 18" | "pool_rank (TrySome _) = 17" | "pool_rank (AcquireAll _) = 18"
| "pool_rank (TryAll _) = 17"

fun pc_rank :: "pc \<Rightarrow> nat" where
  "pc_rank (Fg p) = enter_rank p" | "pc_rank (Bg p) = background_rank p" | "pc_rank (Rel p) = release_rank p"
| "pc_rank (Pool p) = pool_rank p" | "pc_rank _ = 0"

definition falls :: "worker_budget \<Rightarrow> pc \<Rightarrow> pc \<Rightarrow> worker_budget \<Rightarrow> bool" where
  "falls s p p' s' \<longleftrightarrow> wb_threads s' = wb_threads s \<and> notifications p' \<le> notifications p \<and> pc_rank p' < pc_rank p"

definition fell :: "nat \<Rightarrow> worker_budget \<Rightarrow> pc \<Rightarrow> worker_budget \<Rightarrow> bool" where
  "fell t s p s' \<longleftrightarrow> (\<exists>p' s1. s' = goto t p' s1 \<and> falls s p p' s1)"

lemma fellI: "falls s p p' s1 \<Longrightarrow> fell t s p (goto t p' s1)"
  by (auto simp: fell_def)

lemma fell_take_lock:
  "take_lock t p' s = Some s' \<Longrightarrow> falls s p p' (s\<lparr>wb_lock := Some t\<rparr>) \<Longrightarrow> fell t s p s'"
  by (auto simp: take_lock_cases intro!: fellI)

lemma fell_attempt:
  "falls s p won (s\<lparr>wb_available := wb_available s - 1\<rparr>) \<Longrightarrow> falls s p lost s \<Longrightarrow> fell t s p (attempt t won lost s)"
  by (auto simp: attempt_cases intro!: fellI)

lemmas falls_defs = falls_def notifications_def

lemma enter_falls: "enter_step t p s = Some s' \<Longrightarrow> fell t s (Fg p) s'"
  by (cases p) (auto simp: falls_defs intro!: fellI fell_attempt elim!: fell_take_lock)

lemma background_falls: "background_step t p s = Some s' \<Longrightarrow> fell t s (Bg p) s'"
  by (cases p) (auto simp: falls_defs intro!: fellI fell_attempt elim!: fell_take_lock)

lemma release_falls: "release_step t p s = Some s' \<Longrightarrow> \<forall>r. p \<noteq> Notify r \<Longrightarrow> fell t s (Rel p) s'"
proof (cases p)
  case (Observe r)
  have "falls s (Rel (Observe r)) (resumed r) s" "falls s (Rel (Observe r)) (Rel (WakeLock r)) s"
    by (cases r; simp add: falls_defs)+
  then show "release_step t p s = Some s' \<Longrightarrow> ?thesis" using Observe by (auto intro!: fellI)
next
  case (Unlock r)
  have "falls s (Rel (Unlock r)) (resumed r) (s\<lparr>wb_lock := None\<rparr>)"
    by (cases r) (simp_all add: falls_defs)
  then show "release_step t p s = Some s' \<Longrightarrow> ?thesis" using Unlock by (auto intro!: fellI)
qed (auto simp: falls_defs intro!: fellI elim!: fell_take_lock)

lemma pool_falls: "pool_step t p s = Some s' \<Longrightarrow> fell t s (Pool p) s'"
  by (cases p) (auto simp: falls_defs try_acquire_def try_acquire_exact_def Let_def intro!: fellI split: if_splits)

definition work :: "(pc \<Rightarrow> nat) \<Rightarrow> worker_budget \<Rightarrow> nat" where
  "work f s = sum_list (map f (wb_threads s))"

lemma work_total: "int (work f s) = total f s"
  by (simp add: work_def total_def)

lemma internal_decreases:
  assumes "internal t s = Some s'"
  shows "work notifications s' < work notifications s \<or>
    work notifications s' \<le> work notifications s \<and> work pc_rank s' < work pc_rank s"
proof -
  have t: "t < length (wb_threads s)" and ts: "thread_step t (wb_threads s ! t) s = Some s'"
    using assms by (auto simp: internal_def split: if_splits)
  show ?thesis
  proof (cases "\<exists>r. wb_threads s ! t = Rel (Notify r)")
    case True
    then obtain r where r: "wb_threads s ! t = Rel (Notify r)" by blast
    have "notifications (wake_up p) = notifications p" for p
      using wake_up_cases[of p] by (auto simp: notifications_def)
    then have "total notifications (notify_all s) = total notifications s" by (rule total_notify)
    moreover have "s' = goto t (Rel (Unlock r)) (notify_all s)" using ts r by simp
    ultimately have "total notifications s' = total notifications s - 1"
      using total_goto[of t "notify_all s" notifications "Rel (Unlock r)"] t r by (simp add: notifications_def)
    then show ?thesis by (simp flip: work_total)
  next
    case False
    then have "fell t s (wb_threads s ! t) s'"
      using ts enter_falls background_falls release_falls pool_falls by (cases "wb_threads s ! t") auto
    then obtain p' s1 where s': "s' = goto t p' s1" and f: "falls s (wb_threads s ! t) p' s1"
      by (auto simp: fell_def)
    have "total g s' = total g s - int (g (wb_threads s ! t)) + int (g p')" for g
      using total_goto[of t s1 g p'] t f total_cong[of s1 s g] by (simp add: s' falls_def)
    then have "int (work notifications s') \<le> int (work notifications s)" "int (work pc_rank s') < int (work pc_rank s)"
      unfolding work_total using f by (simp_all add: falls_def)
    then show ?thesis by simp
  qed
qed

lemma internal_step_wf: "wf {(s', s). internal_step s s'}"
proof (rule wf_subset)
  show "wf (measures [work notifications, work pc_rank])" by simp
  show "{(s', s). internal_step s s'} \<subseteq> measures [work notifications, work pc_rank]"
    using internal_decreases by (fastforce simp: internal_step_def)
qed

lemma settles: "\<exists>s'. internal_step\<^sup>*\<^sup>* s s' \<and> settled s'"
proof (induction s rule: wf_induct_rule[OF internal_step_wf])
  case (1 s)
  show ?case
  proof (cases "settled s")
    case False
    then obtain t s' where "internal t s = Some s'" by (auto simp: settled_def)
    then have "internal_step s s'" by (auto simp: internal_step_def)
    with 1 show ?thesis by (meson case_prodI converse_rtranclp_into_rtranclp mem_Collect_eq)
  qed blast
qed

lemma internal_reachable: "internal_step\<^sup>*\<^sup>* s s' \<Longrightarrow> reachable capacity threads s \<Longrightarrow> reachable capacity threads s'"
  by (induction rule: rtranclp_induct) (auto simp: internal_step_def intro: reachable.step budget_step.internal)

text \<open>Executing a schedule.\<close>

datatype action = Step nat | Event nat event

fun act :: "action \<Rightarrow> worker_budget \<Rightarrow> worker_budget option" where
  "act (Step t) s = internal t s"
| "act (Event t e) s = (if t < length (wb_threads s) then external t e (wb_threads s ! t) s else None)"

fun run :: "action list \<Rightarrow> worker_budget \<Rightarrow> worker_budget option" where
  "run [] s = Some s"
| "run (a # as) s = Option.bind (act a s) (run as)"

lemma run_reachable: "run as s = Some s' \<Longrightarrow> reachable capacity threads s \<Longrightarrow> reachable capacity threads s'"
proof (induction as arbitrary: s)
  case (Cons a as)
  then obtain u where "act a s = Some u" "run as u = Some s'" by (auto split: bind_splits)
  moreover from this(1) have "budget_step s u"
    by (cases a) (auto split: if_splits intro: budget_step.intros)
  ultimately show ?case using Cons reachable.step by blast
qed simp

definition missed_schedule :: "action list" where
  "missed_schedule =
    [Event 0 EnterBackground] @ replicate 7 (Step 0) @
    [Event 1 Enter, Step 1, Step 1, Event 2 Enter, Step 2, Step 2] @
    [Event 3 Enter] @ replicate 8 (Step 3) @
    [Event 1 Drop] @ replicate 6 (Step 1) @
    [Event 2 Drop] @ replicate 6 (Step 2) @
    [Event 4 EnterBackground] @ replicate 5 (Step 4) @
    replicate 6 (Step 3)"

section \<open>Properties\<close>

text \<open>
  C29: the worker budget is conserved and its counters are exact. In every state the threads can reach, under
  every interleaving, the free permits and the permits in the hands of threads add up to the capacity, the
  counters of waiters, foreground waiters and active background threads are the numbers of such threads (no
  decrement wraps), and at most one thread is inside the lock.
\<close>
theorem permits_conserved:
  assumes "reachable capacity threads s" "0 < capacity"
  shows "wb_available s + work held s = capacity \<and> wb_foreground s = work foreground_waiter s \<and>
    wb_waiters s = work waiter s \<and> wb_background s = work background s \<and>
    (\<forall>t u. t < length (wb_threads s) \<longrightarrow> u < length (wb_threads s) \<longrightarrow>
      critical (wb_threads s ! t) \<longrightarrow> critical (wb_threads s ! u) \<longrightarrow> t = u)"
proof -
  note inv = reachable_inv[OF assms, unfolded budget_inv_def]
  then have "counts_ok capacity s" by simp
  then have "int (wb_available s + work held s) = int capacity" "int (wb_foreground s) = int (work foreground_waiter s)"
    "int (wb_waiters s) = int (work waiter s)" "int (wb_background s) = int (work background s)"
    by (simp_all add: counts_ok_def flip: work_total)
  then show ?thesis using inv by (auto simp: lock_ok_def)
qed

theorem permits_conserved_witness:
  "wb_available (the (run (take 8 missed_schedule) (budget_new 3 5))) + 1 = 3"
proof -
  have run: "run (take 8 missed_schedule) (budget_new 3 5) = Some \<lparr>wb_available = 2, wb_foreground = 0, wb_waiters = 0,
      wb_background = 1, wb_lock = None, wb_cancelled = replicate 5 False,
      wb_threads = [HoldBackground, Idle, Idle, Idle, Idle]\<rparr>"
    by code_simp
  from permits_conserved[OF run_reachable[OF run reachable.start]] show ?thesis
    by (simp add: run work_def)
qed



text \<open>
  C30: a wake-up that is not sent. A background thread can stay asleep although a permit is free, no foreground
  thread waits and no thread is about to notify: the foreground thread that won last lowered the count the
  background thread was refused for without a notification. It stays so until the next permit is dropped.
\<close>
theorem background_sleeps_beside_free_permit:
  "\<exists>s. reachable 3 5 s \<and> settled s \<and> wb_foreground s = 0 \<and> wb_available s = 1 \<and>
    wb_threads s = [HoldBackground, Idle, Idle, Hold 1, Bg BAsleep]"
proof -
  have "run missed_schedule (budget_new 3 5) = Some \<lparr>wb_available = 1, wb_foreground = 0, wb_waiters = 1,
      wb_background = 1, wb_lock = None, wb_cancelled = replicate 5 False,
      wb_threads = [HoldBackground, Idle, Idle, Hold 1, Bg BAsleep]\<rparr>" (is "_ = Some ?s")
    by code_simp
  from run_reachable[OF this reachable.start] have "reachable 3 5 ?s" .
  moreover have "settled ?s" by (simp add: settled_def internal_def less_Suc_eq numeral_eq_Suc)
  ultimately show ?thesis by (intro exI[of _ ?s]) simp
qed

end
