(* ===== verification/Posting_Map.thy ===== *)
theory Posting_Map
  imports Text
begin

text \<open>
  The directories of postings, \<open>core/src/posting_map.rs\<close>, and the differences of gram sets applied to them,
  \<open>core/src/posting_changes.rs\<close>. A posting is the set of slots of the rows that contain a key; the postings lie
  in 256 directories by a hash of the key, so that a change copies one directory. A roaring bitmap is the set
  of its members. The sharing of directories between clones is left out: a clone is the same value, and what
  the code relies on, that an operation leaves the other directories as they were, is a lemma here.
\<close>

section \<open>Directories\<close>

text \<open>The trait \<open>PostingKey\<close>: the kind of the keys and the bytes of a key.\<close>

record 'k posting_key =
  pk_kind :: nat
  pk_bytes :: "'k \<Rightarrow> byte list"

definition trigram_key :: "byte list posting_key" where
  "trigram_key = \<lparr>pk_kind = 0, pk_bytes = (\<lambda>k. k)\<rparr>"

definition byte_key :: "byte posting_key" where
  "byte_key = \<lparr>pk_kind = 1, pk_bytes = (\<lambda>b. [b])\<rparr>"

definition pair_key :: "byte list posting_key" where
  "pair_key = \<lparr>pk_kind = 2, pk_bytes = (\<lambda>k. k)\<rparr>"

definition string_key :: "str posting_key" where
  "string_key = \<lparr>pk_kind = 3, pk_bytes = as_bytes\<rparr>"

definition posting_shards :: nat where
  "posting_shards = 256"

definition shard_of :: "nat \<Rightarrow> byte list \<Rightarrow> nat" where
  "shard_of kind key =
     unat (drop_bit 24 (foldl (\<lambda>h b. xor h (of_nat b) * 16777619) (xor 2166136261 (of_nat kind)) key :: 32 word))"

definition key_shard :: "'k posting_key \<Rightarrow> 'k \<Rightarrow> nat" where
  "key_shard pk k = shard_of (pk_kind pk) (pk_bytes pk k)"

type_synonym 'k posting_map = "('k \<rightharpoonup> nat set) list"

definition default_postings :: "'k posting_map" where
  "default_postings = replicate posting_shards Map.empty"

definition posting_get :: "'k posting_key \<Rightarrow> 'k posting_map \<Rightarrow> 'k \<Rightarrow> nat set option" where
  "posting_get pk m k = (m ! key_shard pk k) k"

text \<open>\<open>get_mut\<close> and \<open>entry\<close> with the change that their callers make through the reference they return.\<close>

definition posting_get_mut :: "'k posting_key \<Rightarrow> 'k \<Rightarrow> (nat set \<Rightarrow> nat set) \<Rightarrow> 'k posting_map \<Rightarrow> 'k posting_map option" where
  "posting_get_mut pk k change m =
     (let i = key_shard pk k in
      case (m ! i) k of None \<Rightarrow> None | Some slots \<Rightarrow> Some (m[i := (m ! i)(k \<mapsto> change slots)]))"

definition posting_entry :: "'k posting_key \<Rightarrow> 'k \<Rightarrow> (nat set \<Rightarrow> nat set) \<Rightarrow> 'k posting_map \<Rightarrow> 'k posting_map" where
  "posting_entry pk k change m =
     (let i = key_shard pk k in
      m[i := (m ! i)(k \<mapsto> change (case (m ! i) k of None \<Rightarrow> {} | Some slots \<Rightarrow> slots))])"

definition posting_insert :: "'k posting_key \<Rightarrow> 'k \<Rightarrow> nat set \<Rightarrow> 'k posting_map \<Rightarrow> nat set option \<times> 'k posting_map" where
  "posting_insert pk k slots m =
     (let i = key_shard pk k in ((m ! i) k, m[i := (m ! i)(k \<mapsto> slots)]))"

definition posting_remove :: "'k posting_key \<Rightarrow> 'k \<Rightarrow> 'k posting_map \<Rightarrow> nat set option \<times> 'k posting_map" where
  "posting_remove pk k m =
     (let i = key_shard pk k in
      if (m ! i) k = None then (None, m) else ((m ! i) k, m[i := (m ! i)(k := None)]))"

text \<open>\<open>From<HashMap>\<close>, over the entries of the map in some order.\<close>

definition posting_from :: "'k posting_key \<Rightarrow> ('k \<times> nat set) list \<Rightarrow> 'k posting_map" where
  "posting_from pk kvs = fold (\<lambda>(k, slots) m. snd (posting_insert pk k slots m)) kvs default_postings"

text \<open>
  One slot enters or leaves the posting of a key: \<open>insert\<close> and \<open>remove\<close> of \<open>core/src/metadata_postings.rs\<close>, which
  \<open>GramChanges::apply\<close> spells out.
\<close>

definition slot_insert :: "'k posting_key \<Rightarrow> 'k \<Rightarrow> nat \<Rightarrow> 'k posting_map \<Rightarrow> 'k posting_map" where
  "slot_insert pk k slot m = posting_entry pk k (insert slot) m"

definition slot_remove :: "'k posting_key \<Rightarrow> 'k \<Rightarrow> nat \<Rightarrow> 'k posting_map \<Rightarrow> 'k posting_map" where
  "slot_remove pk k slot m =
     (case posting_get_mut pk k (\<lambda>slots. slots - {slot}) m of
        None \<Rightarrow> m
      | Some m' \<Rightarrow> if posting_get pk m' k = Some {} then snd (posting_remove pk k m') else m')"

section \<open>Differences of gram sets\<close>

definition windows :: "nat \<Rightarrow> 'a list \<Rightarrow> 'a list list" where
  "windows n xs = map (\<lambda>i. take n (drop i xs)) [0..<length xs + 1 - n]"

fun dedup :: "'a list \<Rightarrow> 'a list" where
  "dedup (x # y # xs) = (if x = y then dedup (y # xs) else x # dedup (y # xs))"
| "dedup xs = xs"

definition gram_terms :: "nat \<Rightarrow> str \<Rightarrow> byte list list" where
  "gram_terms n s = dedup (sort_by slice_cmp (windows n (as_bytes s)))"

fun gram_loop :: "byte list posting_key \<Rightarrow> nat \<Rightarrow> byte list list \<Rightarrow> byte list list \<Rightarrow>
    byte list posting_map \<Rightarrow> byte list posting_map" where
  "gram_loop pk slot [] [] m = m"
| "gram_loop pk slot (old # before) [] m = gram_loop pk slot before [] (slot_remove pk old slot m)"
| "gram_loop pk slot [] (new # after) m = gram_loop pk slot [] after (slot_insert pk new slot m)"
| "gram_loop pk slot (old # before) (new # after) m =
     (if old = new then gram_loop pk slot before after m
      else if slice_cmp old new = Less then gram_loop pk slot before (new # after) (slot_remove pk old slot m)
      else gram_loop pk slot (old # before) after (slot_insert pk new slot m))"

definition gram_apply :: "byte list posting_key \<Rightarrow> nat \<Rightarrow> nat \<Rightarrow> str \<Rightarrow> str \<Rightarrow> byte list posting_map \<Rightarrow> byte list posting_map" where
  "gram_apply pk n slot previous new_text m =
     (if previous = new_text then m
      else gram_loop pk slot (gram_terms n previous) (gram_terms n new_text) m)"

section \<open>Postings as a store of slots by key\<close>

definition posted :: "nat set option \<Rightarrow> nat \<Rightarrow> bool" where
  "posted p slot \<longleftrightarrow> (case p of None \<Rightarrow> False | Some slots \<Rightarrow> slot \<in> slots)"

lemma posted_simps [simp]: "\<not> posted None s" "posted (Some A) s \<longleftrightarrow> s \<in> A"
  by (simp_all add: posted_def)

text \<open>
  What the users of postings rely on: reading after adding or deleting a slot, and that a posting that loses
  its last slot disappears.
\<close>

locale posting_store =
  fixes ok :: "'m \<Rightarrow> bool"
    and get :: "'m \<Rightarrow> 'k \<Rightarrow> nat set option"
    and add :: "'k \<Rightarrow> nat \<Rightarrow> 'm \<Rightarrow> 'm"
    and del :: "'k \<Rightarrow> nat \<Rightarrow> 'm \<Rightarrow> 'm"
  assumes ok_add: "ok m \<Longrightarrow> ok (add k s m)"
    and ok_del: "ok m \<Longrightarrow> ok (del k s m)"
    and get_add: "ok m \<Longrightarrow> get (add k s m) k' =
      (if k' = k then Some (insert s (case get m k of None \<Rightarrow> {} | Some A \<Rightarrow> A)) else get m k')"
    and get_del: "ok m \<Longrightarrow> get (del k s m) k' =
      (if k' = k then (case get m k of None \<Rightarrow> None | Some A \<Rightarrow> if A - {s} = {} then None else Some (A - {s}))
       else get m k')"
begin

lemma posted_add: "ok m \<Longrightarrow> posted (get (add k s m) k') s' \<longleftrightarrow> k' = k \<and> s' = s \<or> posted (get m k') s'"
  by (auto simp: get_add split: option.splits)

lemma posted_del: "ok m \<Longrightarrow> posted (get (del k s m) k') s' \<longleftrightarrow> posted (get m k') s' \<and> \<not> (k' = k \<and> s' = s)"
  by (auto simp: get_del split: option.splits)

lemma no_empty_add: "ok m \<Longrightarrow> get m k' \<noteq> Some {} \<Longrightarrow> get (add k s m) k' \<noteq> Some {}"
  by (simp add: get_add)

lemma no_empty_del: "ok m \<Longrightarrow> get m k' \<noteq> Some {} \<Longrightarrow> get (del k s m) k' \<noteq> Some {}"
  by (auto simp: get_del split: option.splits)

lemma adds:
  "ok m \<Longrightarrow> ok (fold (\<lambda>k. add k s) ks m) \<and>
     (\<forall>k s'. posted (get (fold (\<lambda>k. add k s) ks m) k) s' \<longleftrightarrow> k \<in> set ks \<and> s' = s \<or> posted (get m k) s') \<and>
     ((\<forall>k. get m k \<noteq> Some {}) \<longrightarrow> (\<forall>k. get (fold (\<lambda>k. add k s) ks m) k \<noteq> Some {}))"
proof (induction ks arbitrary: m)
  case (Cons a ks)
  have "ok (add a s m)" using Cons.prems by (rule ok_add)
  from Cons.IH [OF this] show ?case
    using posted_add [OF Cons.prems] no_empty_add [OF Cons.prems] by auto
qed simp

lemma dels:
  "ok m \<Longrightarrow> ok (fold (\<lambda>k. del k s) ks m) \<and>
     (\<forall>k s'. posted (get (fold (\<lambda>k. del k s) ks m) k) s' \<longleftrightarrow> posted (get m k) s' \<and> \<not> (k \<in> set ks \<and> s' = s)) \<and>
     ((\<forall>k. get m k \<noteq> Some {}) \<longrightarrow> (\<forall>k. get (fold (\<lambda>k. del k s) ks m) k \<noteq> Some {}))"
proof (induction ks arbitrary: m)
  case (Cons a ks)
  have "ok (del a s m)" using Cons.prems by (rule ok_del)
  from Cons.IH [OF this] show ?case
    using posted_del [OF Cons.prems] no_empty_del [OF Cons.prems] by auto
qed simp

end

lemma shard_of_less: "shard_of kind key < posting_shards"
proof -
  have "unat (drop_bit 24 w) < 256" for w :: "32 word"
    using unsigned_less [of w, where ?'a = nat] by (simp add: unat_drop_bit_eq drop_bit_eq_div unat_div less_mult_imp_div_less)
  then show ?thesis by (simp add: shard_of_def posting_shards_def)
qed

lemma key_shard_less [simp]: "key_shard pk k < posting_shards"
  by (simp add: key_shard_def shard_of_less)

abbreviation postings_ok :: "'k posting_map \<Rightarrow> bool" where
  "postings_ok m \<equiv> length m = posting_shards"

lemma postings_ok_default [simp]: "postings_ok default_postings"
  by (simp add: default_postings_def)

lemma get_default [simp]: "posting_get pk default_postings k = None"
  by (simp add: default_postings_def posting_get_def)

lemma nth_shard_update:
  "postings_ok m \<Longrightarrow> (m[key_shard pk k := d] ! key_shard pk k') = (if key_shard pk k' = key_shard pk k then d else m ! key_shard pk k')"
  by (simp add: nth_list_update)

lemma slot_insert_ok: "postings_ok m \<Longrightarrow> postings_ok (slot_insert pk k s m)"
  by (simp add: slot_insert_def posting_entry_def Let_def)

lemma slot_remove_cases:
  assumes "postings_ok m"
  shows "slot_remove pk k s m =
    (case posting_get pk m k of
       None \<Rightarrow> m
     | Some A \<Rightarrow> m[key_shard pk k := (m ! key_shard pk k)(k := (if A - {s} = {} then None else Some (A - {s})))])"
  using assms
  by (auto simp: slot_remove_def posting_get_mut_def posting_remove_def posting_get_def Let_def nth_shard_update
      split: option.splits)

lemma slot_remove_ok: "postings_ok m \<Longrightarrow> postings_ok (slot_remove pk k s m)"
  by (simp add: slot_remove_cases split: option.splits)

interpretation postings: posting_store postings_ok "posting_get pk" "slot_insert pk" "slot_remove pk" for pk
proof (unfold_locales, goal_cases)
  case (3 m k s k')
  then show ?case
    by (auto simp: posting_get_def slot_insert_def posting_entry_def Let_def nth_shard_update split: option.splits)
next
  case (4 m k s k')
  then show ?case
    by (auto simp: slot_remove_cases posting_get_def nth_shard_update split: option.splits)
qed (simp_all add: slot_insert_ok slot_remove_ok)

text \<open>The other directories stay as they are, so that clones keep sharing them.\<close>

lemma slot_insert_shard: "i \<noteq> key_shard pk k \<Longrightarrow> slot_insert pk k s m ! i = m ! i"
  by (simp add: slot_insert_def posting_entry_def Let_def)

lemma slot_remove_shard: "postings_ok m \<Longrightarrow> i \<noteq> key_shard pk k \<Longrightarrow> slot_remove pk k s m ! i = m ! i"
  by (simp add: slot_remove_cases split: option.splits)

section \<open>Gram sets\<close>

abbreviation strict_terms :: "byte list list \<Rightarrow> bool" where
  "strict_terms \<equiv> sorted_wrt (\<lambda>a b. slice_cmp a b = Less)"

lemma set_dedup [simp]: "set (dedup xs) = set xs"
  by (induction xs rule: dedup.induct) auto

lemma strict_dedup: "sorted_by slice_cmp xs \<Longrightarrow> strict_terms (dedup xs)"
proof (induction xs rule: dedup.induct)
  case (1 x y xs)
  have tail: "sorted_by slice_cmp (y # xs)" and xy: "slice_cmp x y \<noteq> Greater"
    using "1.prems" by (simp_all add: sorted_by_Cons)
  show ?case
  proof (cases "x = y")
    case False
    then have "slice_cmp x y = Less" using xy by (cases "slice_cmp x y") simp_all
    moreover have "slice_cmp y z \<noteq> Greater" if "z \<in> set (y # xs)" for z
      using that tail by (auto simp: sorted_by_Cons slice_comparator.cmp_refl)
    ultimately have "\<forall>z \<in> set (y # xs). slice_cmp x z = Less" using slice_comparator.cmp_Less_trans by blast
    then show ?thesis using "1.IH"(2) [OF False tail] False by simp
  qed (use "1.IH"(1) tail in simp)
qed simp_all

lemma strict_gram_terms: "strict_terms (gram_terms n s)"
  by (simp add: gram_terms_def strict_dedup slice_comparator.sorted_by_sort_by)

lemma set_gram_terms: "set (gram_terms n s) = set (windows n (as_bytes s))"
  by (simp add: gram_terms_def)

text \<open>A slot moves from the keys of one set to the keys of another.\<close>

definition moved :: "'k posting_key \<Rightarrow> nat \<Rightarrow> 'k set \<Rightarrow> 'k set \<Rightarrow> 'k posting_map \<Rightarrow> 'k posting_map \<Rightarrow> bool" where
  "moved pk slot old new m m' \<longleftrightarrow>
     postings_ok m' \<and>
     (\<forall>k s. posted (posting_get pk m' k) s \<longleftrightarrow>
        (if s = slot \<and> k \<in> old - new then False
         else if s = slot \<and> k \<in> new - old then True
         else posted (posting_get pk m k) s)) \<and>
     ((\<forall>k. posting_get pk m k \<noteq> Some {}) \<longrightarrow> (\<forall>k. posting_get pk m' k \<noteq> Some {}))"

lemma moved_same: "postings_ok m \<Longrightarrow> moved pk slot A A m m"
  by (simp add: moved_def)

lemma moved_del:
  assumes "postings_ok m" "k \<notin> B" "moved pk slot A B (slot_remove pk k slot m) m'"
  shows "moved pk slot (insert k A) B m m'"
  unfolding moved_def
proof (intro conjI allI impI, goal_cases)
  case (2 k' s)
  show ?case
    using assms(2,3) postings.posted_del [OF assms(1), of pk k slot k' s] by (auto simp: moved_def)
next
  case (3 k')
  then show ?case using assms(3) postings.no_empty_del [OF assms(1)] by (simp add: moved_def)
qed (use assms(3) in \<open>simp add: moved_def\<close>)

lemma moved_add:
  assumes "postings_ok m" "k \<notin> A" "moved pk slot A B (slot_insert pk k slot m) m'"
  shows "moved pk slot A (insert k B) m m'"
  unfolding moved_def
proof (intro conjI allI impI, goal_cases)
  case (2 k' s)
  show ?case
    using assms(2,3) postings.posted_add [OF assms(1), of pk k slot k' s] by (auto simp: moved_def)
next
  case (3 k')
  then show ?case using assms(3) postings.no_empty_add [OF assms(1)] by (simp add: moved_def)
qed (use assms(3) in \<open>simp add: moved_def\<close>)

lemma moved_both:
  assumes "moved pk slot A B m m'" "k \<notin> A" "k \<notin> B"
  shows "moved pk slot (insert k A) (insert k B) m m'"
  unfolding moved_def
proof (intro conjI allI impI, goal_cases)
  case (2 k' s)
  show ?case using assms by (auto simp: moved_def)
qed (use assms(1) in \<open>simp_all add: moved_def\<close>)

lemma not_among_greater: "slice_cmp a b \<noteq> Greater \<Longrightarrow> a \<noteq> b \<Longrightarrow> strict_terms (b # bs) \<Longrightarrow> a \<notin> set (b # bs)"
proof
  assume le: "slice_cmp a b \<noteq> Greater" and ne: "a \<noteq> b" and st: "strict_terms (b # bs)" and "a \<in> set (b # bs)"
  then have "slice_cmp b a = Less" by simp
  then show False using le slice_comparator.cmp_swap [of a b] by simp
qed

lemma gram_loop_moved:
  "postings_ok m \<Longrightarrow> strict_terms before \<Longrightarrow> strict_terms after \<Longrightarrow>
     moved pk slot (set before) (set after) m (gram_loop pk slot before after m)"
proof (induction pk slot before after m rule: gram_loop.induct)
  case (1 pk slot m)
  then show ?case by (simp add: moved_same)
next
  case (2 pk slot old before m)
  then show ?case by (auto simp: slot_remove_ok intro: moved_del)
next
  case (3 pk slot new after m)
  then show ?case by (auto simp: slot_insert_ok intro: moved_add)
next
  case (4 pk slot old before new after m)
  consider (same) "old = new" | (less) "old \<noteq> new" "slice_cmp old new = Less"
    | (greater) "old \<noteq> new" "slice_cmp old new \<noteq> Less"
    by blast
  then show ?case
  proof cases
    case same
    have "old \<notin> set before" "new \<notin> set after" using "4.prems"(2,3) by (auto simp: slice_comparator.cmp_refl)
    then show ?thesis using "4.IH"(1) [OF same] "4.prems" same by (auto intro: moved_both)
  next
    case less
    have "old \<notin> set (new # after)" using not_among_greater [of old new after] less "4.prems"(3) by simp
    then show ?thesis
      using "4.IH"(2) [OF less slot_remove_ok] "4.prems" less by (auto intro: moved_del)
  next
    case greater
    then have "slice_cmp new old = Less" using slice_comparator.cmp_swap [of new old] by (cases "slice_cmp old new") simp_all
    then have "new \<notin> set (old # before)" using not_among_greater [of new old before] greater(1) "4.prems"(2) by simp
    then show ?thesis
      using "4.IH"(3) [OF greater slot_insert_ok] "4.prems" greater by (auto intro: moved_add)
  qed
qed

lemma gram_apply_moved:
  "postings_ok m \<Longrightarrow>
     moved pk slot (set (windows n (as_bytes previous))) (set (windows n (as_bytes new_text))) m
       (gram_apply pk n slot previous new_text m)"
  using gram_loop_moved [of m "gram_terms n previous" "gram_terms n new_text" pk slot]
  by (simp add: gram_apply_def moved_same strict_gram_terms set_gram_terms)

text \<open>Directories that hold no key of the difference stay as they are.\<close>

lemma gram_loop_shard:
  "postings_ok m \<Longrightarrow> \<forall>k \<in> set before - set after \<union> (set after - set before). key_shard pk k \<noteq> i \<Longrightarrow>
     strict_terms before \<Longrightarrow> strict_terms after \<Longrightarrow> gram_loop pk slot before after m ! i = m ! i"
proof (induction pk slot before after m rule: gram_loop.induct)
  case (2 pk slot old before m)
  then show ?case by (simp add: slot_remove_ok slot_remove_shard)
next
  case (3 pk slot new after m)
  then show ?case by (simp add: slot_insert_ok slot_insert_shard)
next
  case (4 pk slot old before new after m)
  consider (same) "old = new" | (less) "old \<noteq> new" "slice_cmp old new = Less"
    | (greater) "old \<noteq> new" "slice_cmp old new \<noteq> Less"
    by blast
  then show ?case
  proof cases
    case same
    have "old \<notin> set before" "new \<notin> set after" using "4.prems"(3,4) by (auto simp: slice_comparator.cmp_refl)
    then have "\<forall>k \<in> set before - set after \<union> (set after - set before). key_shard pk k \<noteq> i"
      using "4.prems"(2) same by auto
    then show ?thesis using "4.IH"(1) [OF same] "4.prems" same by simp
  next
    case less
    have out: "old \<notin> set (new # after)" using not_among_greater [of old new after] less "4.prems"(4) by simp
    then have "\<forall>k \<in> set before - set (new # after) \<union> (set (new # after) - set before). key_shard pk k \<noteq> i"
      using "4.prems"(2) by auto
    moreover have "key_shard pk old \<noteq> i" using out "4.prems"(2) by auto
    ultimately show ?thesis
      using "4.IH"(2) [OF less slot_remove_ok] "4.prems" less by (simp add: slot_remove_shard)
  next
    case greater
    then have "slice_cmp new old = Less" using slice_comparator.cmp_swap [of new old] by (cases "slice_cmp old new") simp_all
    then have out: "new \<notin> set (old # before)" using not_among_greater [of new old before] greater(1) "4.prems"(3) by simp
    then have "\<forall>k \<in> set (old # before) - set after \<union> (set after - set (old # before)). key_shard pk k \<noteq> i"
      using "4.prems"(2) by auto
    moreover have "key_shard pk new \<noteq> i" using out "4.prems"(2) by auto
    ultimately show ?thesis
      using "4.IH"(3) [OF greater slot_insert_ok] "4.prems" greater by (simp add: slot_insert_shard)
  qed
qed simp

lemma gram_apply_shard:
  assumes "postings_ok m"
    "\<forall>k. (k \<in> set (windows n (as_bytes previous))) \<noteq> (k \<in> set (windows n (as_bytes new_text))) \<longrightarrow> key_shard pk k \<noteq> i"
  shows "gram_apply pk n slot previous new_text m ! i = m ! i"
  using gram_loop_shard [OF assms(1), of "gram_terms n previous" "gram_terms n new_text" pk i slot] assms(2)
  by (auto simp: gram_apply_def strict_gram_terms set_gram_terms)

text \<open>Moves of single sets, one after the other, and of disjoint groups of keys.\<close>

lemma moved_dels: "postings_ok m \<Longrightarrow> moved pk slot (set ks) {} m (fold (\<lambda>k. slot_remove pk k slot) ks m)"
  using postings.dels [of m pk slot ks] by (auto simp: moved_def)

lemma moved_adds: "postings_ok m \<Longrightarrow> moved pk slot {} (set ks) m (fold (\<lambda>k. slot_insert pk k slot) ks m)"
  using postings.adds [of m pk slot ks] by (auto simp: moved_def)

lemma moved_trans:
  assumes "moved pk slot A B m m'" "moved pk slot A' B' m' m''" "(A - B) \<inter> (B' - A') = {}" "(B - A) \<inter> (A' - B') = {}"
  shows "moved pk slot (A - B \<union> (A' - B')) (B - A \<union> (B' - A')) m m''"
  unfolding moved_def
proof (intro conjI allI impI, goal_cases)
  case (2 k s)
  then show ?case using assms unfolding moved_def by auto
qed (use assms in \<open>simp_all add: moved_def\<close>)

lemma moved_cong: "A - B = A' - B' \<Longrightarrow> B - A = B' - A' \<Longrightarrow> moved pk slot A B m m' = moved pk slot A' B' m m'"
  by (simp add: moved_def)

lemma moved_ok: "moved pk slot A B m m' \<Longrightarrow> postings_ok m'"
  by (simp add: moved_def)

section \<open>Postings that stand for rows\<close>

text \<open>The postings of the keys of the rows at their slots, with none left empty.\<close>

definition keyed_index :: "'k posting_key \<Rightarrow> (nat \<Rightarrow> 'k set) \<Rightarrow> 'k posting_map \<Rightarrow> bool" where
  "keyed_index pk keys m \<longleftrightarrow>
     postings_ok m \<and> (\<forall>k s. posted (posting_get pk m k) s \<longleftrightarrow> k \<in> keys s) \<and> (\<forall>k. posting_get pk m k \<noteq> Some {})"

lemma keyed_index_moved:
  assumes "keyed_index pk keys m" "moved pk slot (keys slot) new m m'"
  shows "keyed_index pk (keys(slot := new)) m'"
  using assms unfolding keyed_index_def moved_def by auto

lemma keyed_index_default: "keyed_index pk (\<lambda>s. {}) default_postings"
  by (simp add: keyed_index_def)

lemma keyed_index_ok: "keyed_index pk keys m \<Longrightarrow> postings_ok m"
  by (simp add: keyed_index_def)

definition row_keys :: "('r \<Rightarrow> 'k set) \<Rightarrow> (nat \<rightharpoonup> 'r) \<Rightarrow> nat \<Rightarrow> 'k set" where
  "row_keys g rows s = (case rows s of None \<Rightarrow> {} | Some r \<Rightarrow> g r)"

lemma row_keys_upd [simp]:
  "row_keys g (rows(s \<mapsto> r)) = (row_keys g rows)(s := g r)"
  "row_keys g (rows(s := None)) = (row_keys g rows)(s := {})"
  by (rule ext, simp add: row_keys_def)+

lemma row_keys_empty [simp]: "row_keys g Map.empty = (\<lambda>s. {})"
  by (auto simp: row_keys_def)

lemma row_keys_at: "rows s = Some r \<Longrightarrow> row_keys g rows s = g r" "rows s = None \<Longrightarrow> row_keys g rows s = {}"
  by (simp_all add: row_keys_def)

lemma keyed_index_posted:
  "keyed_index pk (row_keys g rows) m \<Longrightarrow> posted (posting_get pk m k) s \<longleftrightarrow> (\<exists>r. rows s = Some r \<and> k \<in> g r)"
  by (simp add: keyed_index_def row_keys_def split: option.splits)

definition text_grams :: "nat \<Rightarrow> str \<Rightarrow> byte list set" where
  "text_grams n t = set (windows n (as_bytes t))"

definition grams_index :: "byte list posting_key \<Rightarrow> nat \<Rightarrow> (nat \<rightharpoonup> str) \<Rightarrow> byte list posting_map \<Rightarrow> bool" where
  "grams_index pk n texts m = keyed_index pk (row_keys (text_grams n) texts) m"

lemma windows_Nil [simp]: "0 < n \<Longrightarrow> windows n [] = []"
  by (simp add: windows_def)

lemma gram_apply_index:
  assumes "keyed_index pk keys m" "keys slot = text_grams n previous"
  shows "keyed_index pk (keys(slot := text_grams n new_text)) (gram_apply pk n slot previous new_text m)"
  using keyed_index_moved [OF assms(1), of slot "text_grams n new_text"] gram_apply_moved [OF keyed_index_ok [OF assms(1)], of pk slot n previous new_text]
  by (simp add: assms(2) text_grams_def)

lemma windows_iff: "0 < n \<Longrightarrow> k \<in> set (windows n xs) \<longleftrightarrow> length k = n \<and> occurs k xs"
proof
  assume n: "0 < n" and "k \<in> set (windows n xs)"
  then obtain i where i: "i < length xs + 1 - n" "k = take n (drop i xs)" by (auto simp: windows_def)
  have "xs = take i xs @ k @ drop n (drop i xs)" unfolding i(2) by (simp only: append_take_drop_id)
  then show "length k = n \<and> occurs k xs" using i n unfolding occurs_def by (auto intro: exI [of _ "take i xs"])
next
  assume "0 < n" and k: "length k = n \<and> occurs k xs"
  then obtain us vs where xs: "xs = us @ k @ vs" by (auto simp: occurs_def)
  then have "length us < length xs + 1 - n" "k = take n (drop (length us) xs)" using k by simp_all
  then show "k \<in> set (windows n xs)" by (auto simp: windows_def)
qed

section \<open>Properties\<close>

text \<open>
  C14: applying the change of a row's text to gram postings gives the postings of the changed texts: a slot is
  in the posting of exactly the grams that occur in its text, no posting stays behind empty, the postings of
  other slots do not move, and a directory with no key that changed is the directory it was. The hypothesis
  says that the postings stand for the texts before, where the changed row had the given text, or was absent
  and the given text is empty.
\<close>

theorem gram_postings_follow_texts:
  assumes "grams_index pk n texts m" "0 < n"
    "texts slot = Some previous \<or> texts slot = None \<and> previous = []"
  shows "grams_index pk n (texts(slot \<mapsto> new_text)) (gram_apply pk n slot previous new_text m) \<and>
    (\<forall>i. (\<forall>k. (k \<in> text_grams n previous) \<noteq> (k \<in> text_grams n new_text) \<longrightarrow> key_shard pk k \<noteq> i) \<longrightarrow>
       gram_apply pk n slot previous new_text m ! i = m ! i)"
proof -
  have ix: "keyed_index pk (row_keys (text_grams n) texts) m" using assms(1) by (simp add: grams_index_def)
  have "row_keys (text_grams n) texts slot = text_grams n previous"
    using assms(2,3) by (auto simp: row_keys_def text_grams_def)
  from gram_apply_index [OF ix this] show ?thesis
    using gram_apply_shard [OF keyed_index_ok [OF ix], of n previous new_text pk, folded text_grams_def]
    by (simp add: grams_index_def)
qed

theorem gram_postings_follow_texts_witness:
  "posted (posting_get trigram_key (gram_apply trigram_key 3 7 [] (lit ''abcd'') default_postings) (lit ''bcd'')) 7"
proof -
  have "grams_index trigram_key 3 Map.empty default_postings" by (simp add: grams_index_def keyed_index_default)
  then have "grams_index trigram_key 3 [7 \<mapsto> lit ''abcd''] (gram_apply trigram_key 3 7 [] (lit ''abcd'') default_postings)"
    using gram_postings_follow_texts [of trigram_key 3 Map.empty default_postings 7 "[]" "lit ''abcd''"] by simp
  moreover have "lit ''bcd'' \<in> text_grams 3 (lit ''abcd'')"
    by (simp add: text_grams_def windows_def lit_def as_bytes_def utf8_char_def)
  ultimately show ?thesis by (simp add: grams_index_def keyed_index_def)
qed

end
