(* ===== verification/Metadata_Postings.thy ===== *)
theory Metadata_Postings
  imports Posting_Map Query_Truth
begin

text \<open>
  The exact postings of metadata, \<open>core/src/metadata_postings.rs\<close>: the bytes and the pairs of bytes of folded
  names, folded extensions, directories and symbolic links, kept while rows are inserted, updated and removed,
  and the evaluation of the queries they support. The binary format at the end of the source is for its tests;
  freeing the memory of old postings does not show.
\<close>

section \<open>Postings of rows\<close>

record metadata_postings =
  mp_bytes :: "byte posting_map"
  mp_pairs :: "byte list posting_map"
  mp_extensions :: "str posting_map"
  mp_directories :: "nat set"
  mp_symlinks :: "nat set"

definition empty_metadata :: metadata_postings where
  "empty_metadata = \<lparr>mp_bytes = default_postings, mp_pairs = default_postings, mp_extensions = default_postings,
     mp_directories = {}, mp_symlinks = {}\<rparr>"

definition entry_extension :: "crates \<Rightarrow> file_entry \<Rightarrow> str" where
  "entry_extension cr f = (if is_ascii (folded_extension f) then folded_extension f else fold_search cr (extension f))"

text \<open>The bytes of a name enter once each: a bit per byte in four words tells the bytes seen.\<close>

fun seen_loop :: "nat \<Rightarrow> 64 word list \<Rightarrow> byte list \<Rightarrow> byte posting_map \<Rightarrow> byte posting_map" where
  "seen_loop slot seen [] m = m"
| "seen_loop slot seen (b # bs) m =
     (let w = b div 64; mask = push_bit (b mod 64) 1 in
      if and (seen ! w) mask = 0
      then seen_loop slot (seen[w := or (seen ! w) mask]) bs (slot_insert byte_key b slot m)
      else seen_loop slot seen bs m)"

definition add_extension :: "nat \<Rightarrow> str \<Rightarrow> str posting_map \<Rightarrow> str posting_map" where
  "add_extension slot e m =
     (case posting_get_mut string_key e (insert slot) m of Some m' \<Rightarrow> m' | None \<Rightarrow> slot_insert string_key e slot m)"

definition metadata_insert :: "crates \<Rightarrow> nat \<Rightarrow> file_entry \<Rightarrow> metadata_postings \<Rightarrow> metadata_postings" where
  "metadata_insert cr slot f mp =
     (let bytes = as_bytes (search_name f) in
      \<lparr>mp_bytes = seen_loop slot (replicate 4 0) bytes (mp_bytes mp),
       mp_pairs = fold (\<lambda>pair. slot_insert pair_key pair slot) (windows 2 bytes) (mp_pairs mp),
       mp_extensions = add_extension slot (entry_extension cr f) (mp_extensions mp),
       mp_directories = (if is_dir f then insert slot (mp_directories mp) else mp_directories mp),
       mp_symlinks = (if is_symlink f then insert slot (mp_symlinks mp) else mp_symlinks mp)\<rparr>)"

definition metadata_build :: "crates \<Rightarrow> (nat \<times> file_entry) list \<Rightarrow> metadata_postings" where
  "metadata_build cr files = fold (\<lambda>(slot, f). metadata_insert cr slot f) files empty_metadata"

text \<open>
  An update compares the presence bits of the two names word by word and walks through the set bits of the
  differences, clearing the lowest one in each turn.
\<close>

definition presence :: "str \<Rightarrow> 64 word list" where
  "presence s = fold (\<lambda>b ws. ws[b div 64 := or (ws ! (b div 64)) (push_bit (b mod 64) 1)]) (as_bytes s) (replicate 4 0)"

definition trailing_zeros :: "64 word \<Rightarrow> nat" where
  "trailing_zeros w = length (takeWhile (\<lambda>i. \<not> bit w i) [0..<64])"

lemma lowest_bit:
  assumes "w \<noteq> (0 :: 64 word)"
  shows "trailing_zeros w < 64 \<and> bit w (trailing_zeros w) \<and> (\<forall>j < trailing_zeros w. \<not> bit w j)"
proof -
  let ?k = "trailing_zeros w"
  have "\<exists>i < 64. bit w i" using assms bit_imp_le_length [of w] by (auto simp: bit_eq_iff)
  then have "?k < 64"
    using partition_point_less [of _ "[0..<64]" "\<lambda>i. \<not> bit w i"] by (auto simp: trailing_zeros_def partition_point_def)
  then show ?thesis
    using partition_point_at [of "\<lambda>i. \<not> bit w i" "[0..<64]"] partition_point_before [of _ "\<lambda>i. \<not> bit w i" "[0..<64]"]
    by (fastforce simp: trailing_zeros_def partition_point_def)
qed

lemma clear_lowest_bit:
  assumes "w \<noteq> (0 :: 64 word)"
  shows "bit (and w (w - 1)) n \<longleftrightarrow> bit w n \<and> n \<noteq> trailing_zeros w"
proof -
  define k where "k = trailing_zeros w"
  define r where "r = unset_bit k w"
  note lb = lowest_bit [OF assms, folded k_def]
  have r: "bit r n \<longleftrightarrow> bit w n \<and> n \<noteq> k" for n by (auto simp: r_def bit_unset_bit_iff)
  have "and (push_bit k 1) r = 0" by (rule bit_eqI) (auto simp: bit_simps r)
  moreover have "or (push_bit k 1) r = w" using lb by (intro bit_eqI) (auto simp: bit_simps r)
  ultimately have w: "w = 2 ^ k + r" by (metis disjunctive_add_eq_or push_bit_of_1)
  have "and (mask k) r = 0" using lb by (intro bit_eqI) (auto simp: bit_simps r)
  then have "w - 1 = or (mask k) r" using w by (simp add: disjunctive_add_eq_or [symmetric] mask_eq_exp_minus_1)
  then have "bit (and w (w - 1)) n \<longleftrightarrow> bit w n \<and> (bit (mask k :: 64 word) n \<or> bit r n)" by (simp add: bit_simps)
  then show ?thesis using lb by (auto simp: bit_simps r k_def)
qed

lemma clear_lowest_less: "w \<noteq> (0 :: 64 word) \<Longrightarrow> unat (and w (w - 1)) < unat w"
proof -
  assume w: "w \<noteq> 0"
  have "and w (w - 1) \<noteq> w" using clear_lowest_bit [OF w, of "trailing_zeros w"] lowest_bit [OF w] by metis
  moreover have "and w (w - 1) \<le> w" by (rule word_and_le2)
  ultimately have "and w (w - 1) < w" by (rule order_neq_le_trans)
  then show ?thesis by (simp only: word_less_nat_alt)
qed

function bit_loop :: "(byte \<Rightarrow> 'm \<Rightarrow> 'm) \<Rightarrow> nat \<Rightarrow> 64 word \<Rightarrow> 'm \<Rightarrow> 'm" where
  "bit_loop step word bits m =
     (if bits = 0 then m
      else bit_loop step word (and bits (bits - 1)) (step (word * 64 + trailing_zeros bits) m))"
  by pat_completeness auto
termination by (relation "measure (\<lambda>(_, _, bits, _). unat bits)") (simp_all add: clear_lowest_less)

declare bit_loop.simps [simp del]

definition update_bytes :: "nat \<Rightarrow> 64 word list \<Rightarrow> 64 word list \<Rightarrow> byte posting_map \<Rightarrow> byte posting_map" where
  "update_bytes slot before after m =
     fold (\<lambda>word m.
         bit_loop (\<lambda>b. slot_insert byte_key b slot) word (and (after ! word) (not (before ! word)))
           (bit_loop (\<lambda>b. slot_remove byte_key b slot) word (and (before ! word) (not (after ! word))) m))
       [0..<4] m"

definition update_flag :: "nat \<Rightarrow> bool \<Rightarrow> bool \<Rightarrow> nat set \<Rightarrow> nat set" where
  "update_flag slot before after slots =
     (if before \<noteq> after then (if after then insert slot slots else slots - {slot}) else slots)"

definition metadata_update :: "crates \<Rightarrow> nat \<Rightarrow> file_entry \<Rightarrow> file_entry \<Rightarrow> metadata_postings \<Rightarrow> metadata_postings" where
  "metadata_update cr slot previous next mp =
     (let old = entry_extension cr previous; new = entry_extension cr next;
          named = (if search_name previous \<noteq> search_name next
                   then mp\<lparr>mp_bytes := update_bytes slot (presence (search_name previous)) (presence (search_name next)) (mp_bytes mp),
                           mp_pairs := gram_apply pair_key 2 slot (search_name previous) (search_name next) (mp_pairs mp)\<rparr>
                   else mp);
          extended = (if old \<noteq> new
                      then named\<lparr>mp_extensions := add_extension slot new (slot_remove string_key old slot (mp_extensions named))\<rparr>
                      else named)
      in extended\<lparr>mp_directories := update_flag slot (is_dir previous) (is_dir next) (mp_directories extended),
                  mp_symlinks := update_flag slot (is_symlink previous) (is_symlink next) (mp_symlinks extended)\<rparr>)"

definition metadata_remove :: "crates \<Rightarrow> nat \<Rightarrow> file_entry \<Rightarrow> metadata_postings \<Rightarrow> metadata_postings" where
  "metadata_remove cr slot f mp =
     (let bytes = as_bytes (search_name f) in
      \<lparr>mp_bytes = fold (\<lambda>b. slot_remove byte_key b slot) bytes (mp_bytes mp),
       mp_pairs = fold (\<lambda>pair. slot_remove pair_key pair slot) (windows 2 bytes) (mp_pairs mp),
       mp_extensions = slot_remove string_key (entry_extension cr f) slot (mp_extensions mp),
       mp_directories = (if is_dir f then mp_directories mp - {slot} else mp_directories mp),
       mp_symlinks = (if is_symlink f then mp_symlinks mp - {slot} else mp_symlinks mp)\<rparr>)"

section \<open>Evaluation\<close>

text \<open>\<open>supports\<close> and \<open>exact\<close>. \<open>None\<close> of \<open>metadata_exact\<close> says that some operand needs the ordinary evaluator.\<close>

fun metadata_supports :: "query \<Rightarrow> bool" where
  "metadata_supports QAll = True"
| "metadata_supports (QTerm t) =
     (case t of
        Text Name needle False \<Rightarrow> str_len needle \<le> 2
      | Extension _ \<Rightarrow> True
      | IsDir _ \<Rightarrow> True
      | IsSymlink \<Rightarrow> True
      | _ \<Rightarrow> False)"
| "metadata_supports (QAnd qs) = list_all metadata_supports qs"
| "metadata_supports (QOr qs) = list_all metadata_supports qs"
| "metadata_supports (QNot q) = metadata_supports q"

definition lookup_posting :: "'k posting_key \<Rightarrow> 'k posting_map \<Rightarrow> 'k \<Rightarrow> nat set" where
  "lookup_posting pk m k = (case posting_get pk m k of Some slots \<Rightarrow> slots | None \<Rightarrow> {})"

definition exact_short_name :: "metadata_postings \<Rightarrow> nat set \<Rightarrow> byte list \<Rightarrow> nat set option" where
  "exact_short_name mp live bytes =
     (case bytes of
        [] \<Rightarrow> Some live
      | [b] \<Rightarrow> Some (lookup_posting byte_key (mp_bytes mp) b)
      | [l, r] \<Rightarrow> Some (lookup_posting pair_key (mp_pairs mp) [l, r])
      | _ \<Rightarrow> None)"

definition exact_metadata_term :: "metadata_postings \<Rightarrow> nat set \<Rightarrow> query_term \<Rightarrow> nat set option" where
  "exact_metadata_term mp live t =
     (case t of
        Text Name needle False \<Rightarrow> exact_short_name mp live (as_bytes needle)
      | Extension exts \<Rightarrow> Some (fold (\<lambda>e slots. slots \<union> lookup_posting string_key (mp_extensions mp) e) exts {})
      | IsDir True \<Rightarrow> Some (mp_directories mp)
      | IsDir False \<Rightarrow> Some (live - mp_directories mp)
      | IsSymlink \<Rightarrow> Some (mp_symlinks mp)
      | _ \<Rightarrow> None)"

fun metadata_exact :: "metadata_postings \<Rightarrow> nat set \<Rightarrow> query \<Rightarrow> nat set option"
  and metadata_exact_all :: "metadata_postings \<Rightarrow> nat set \<Rightarrow> query list \<Rightarrow> nat set \<Rightarrow> nat set option"
  and metadata_exact_any :: "metadata_postings \<Rightarrow> nat set \<Rightarrow> query list \<Rightarrow> nat set \<Rightarrow> nat set option" where
  "metadata_exact mp live QAll = Some (live \<inter> live)"
| "metadata_exact mp live (QTerm t) = map_option (\<lambda>slots. slots \<inter> live) (exact_metadata_term mp live t)"
| "metadata_exact mp live (QAnd qs) = map_option (\<lambda>slots. slots \<inter> live) (metadata_exact_all mp live qs live)"
| "metadata_exact mp live (QOr qs) = map_option (\<lambda>slots. slots \<inter> live) (metadata_exact_any mp live qs {})"
| "metadata_exact mp live (QNot q) = map_option (\<lambda>slots. (live - slots) \<inter> live) (metadata_exact mp live q)"
| "metadata_exact_all mp live [] result = Some result"
| "metadata_exact_all mp live (q # qs) result =
     Option.bind (metadata_exact mp live q) (\<lambda>slots. metadata_exact_all mp live qs (result \<inter> slots))"
| "metadata_exact_any mp live [] result = Some result"
| "metadata_exact_any mp live (q # qs) result =
     Option.bind (metadata_exact mp live q) (\<lambda>slots. metadata_exact_any mp live qs (result \<union> slots))"

section \<open>What the postings stand for\<close>

text \<open>Presence bits.\<close>

lemma bit_at_bytes: "b < 256 \<Longrightarrow> b' < 256 \<Longrightarrow> b div 64 = b' div 64 \<Longrightarrow> b mod 64 = b' mod 64 \<longleftrightarrow> b = (b' :: nat)"
  by (metis div_mult_mod_eq)

lemma presence_fold:
  "length ws = 4 \<Longrightarrow> \<forall>b \<in> set bs. b < 256 \<Longrightarrow> c < 256 \<Longrightarrow>
     length (fold (\<lambda>b ws. ws[b div 64 := or (ws ! (b div 64)) (push_bit (b mod 64) 1)]) bs (ws :: 64 word list)) = 4 \<and>
     (bit (fold (\<lambda>b ws. ws[b div 64 := or (ws ! (b div 64)) (push_bit (b mod 64) 1)]) bs ws ! (c div 64)) (c mod 64)
        \<longleftrightarrow> c \<in> set bs \<or> bit (ws ! (c div 64)) (c mod 64))"
proof (induction bs arbitrary: ws)
  case (Cons b bs)
  let ?ws = "ws[b div 64 := or (ws ! (b div 64)) (push_bit (b mod 64) 1)]"
  have "b div 64 < 4" using Cons.prems(2) by (simp add: less_mult_imp_div_less)
  then have "bit (?ws ! (c div 64)) (c mod 64) \<longleftrightarrow> c = b \<or> bit (ws ! (c div 64)) (c mod 64)"
    using Cons.prems bit_at_bytes [of c b] by (auto simp: nth_list_update bit_simps)
  then show ?case using Cons.IH [of ?ws] Cons.prems by auto
qed simp

lemma bit_presence:
  "\<forall>b \<in> set (as_bytes s). b < 256 \<Longrightarrow> c < 256 \<Longrightarrow> bit (presence s ! (c div 64)) (c mod 64) \<longleftrightarrow> c \<in> set (as_bytes s)"
  using presence_fold [of "replicate 4 0" "as_bytes s" c] by (auto simp: presence_def)

lemma seen_loop_fold:
  "postings_ok m \<Longrightarrow> length seen = 4 \<Longrightarrow> \<forall>b \<in> set bs. b < 256 \<Longrightarrow>
     \<forall>b < 256. bit (seen ! (b div 64)) (b mod 64) \<longrightarrow> posted (posting_get byte_key m b) slot \<Longrightarrow>
     postings_ok (seen_loop slot seen bs m) \<and>
     (\<forall>k s. posted (posting_get byte_key (seen_loop slot seen bs m) k) s \<longleftrightarrow>
        k \<in> set bs \<and> s = slot \<or> posted (posting_get byte_key m k) s) \<and>
     ((\<forall>k. posting_get byte_key m k \<noteq> Some {}) \<longrightarrow> (\<forall>k. posting_get byte_key (seen_loop slot seen bs m) k \<noteq> Some {}))"
proof (induction bs arbitrary: seen m)
  case (Cons b bs)
  let ?w = "b div 64" and ?mask = "push_bit (b mod 64) 1 :: 64 word"
  have b: "b < 256" "?w < 4" using Cons.prems(3) by (simp_all add: less_mult_imp_div_less)
  have test: "and (seen ! ?w) ?mask = 0 \<longleftrightarrow> \<not> bit (seen ! ?w) (b mod 64)"
    using bit_iff_and_push_bit_not_eq_0 by blast
  show ?case
  proof (cases "bit (seen ! ?w) (b mod 64)")
    case True
    then show ?thesis using Cons.IH [of m seen] Cons.prems test b(1) by (auto simp: Let_def)
  next
    case False
    let ?seen = "seen[?w := or (seen ! ?w) ?mask]"
    have "bit (?seen ! (c div 64)) (c mod 64) \<longleftrightarrow> c = b \<or> bit (seen ! (c div 64)) (c mod 64)" if "c < 256" for c
      using that b Cons.prems(2) bit_at_bytes [of c b] by (auto simp: nth_list_update bit_simps)
    then have seen': "\<forall>c < 256. bit (?seen ! (c div 64)) (c mod 64) \<longrightarrow>
        posted (posting_get byte_key (slot_insert byte_key b slot m) c) slot"
      using Cons.prems(1,4) by (simp add: postings.posted_add)
    have "seen_loop slot seen (b # bs) m = seen_loop slot ?seen bs (slot_insert byte_key b slot m)"
      using False test by (simp add: Let_def)
    then show ?thesis
      using Cons.IH [of "slot_insert byte_key b slot m" ?seen] Cons.prems seen'
        postings.posted_add [OF Cons.prems(1)] postings.no_empty_add [OF Cons.prems(1)]
      by (auto simp: slot_insert_ok)
  qed
qed simp

lemma bit_loop_fold:
  "bit_loop step word w m = fold step (map (\<lambda>i. word * 64 + i) (filter (bit w) [0..<64])) m"
proof (induction step word w m rule: bit_loop.induct)
  case (1 step word w m)
  show ?case
  proof (cases "w = 0")
    case False
    let ?k = "trailing_zeros w"
    note lb = lowest_bit [OF False]
    have "filter (bit w) [0..<64] = ?k # filter (bit w) [Suc ?k..<64]"
    proof -
      have "[0..<64] = [0..<?k] @ ?k # [Suc ?k..<64]"
        using lb upt_add_eq_append [of 0 ?k "64 - ?k"] upt_conv_Cons [of ?k 64] by simp
      then show ?thesis using lb by (simp add: filter_empty_conv)
    qed
    moreover have "filter (bit (and w (w - 1))) [0..<64] = filter (bit w) [Suc ?k..<64]"
    proof -
      have "[0..<64] = [0..<Suc ?k] @ [Suc ?k..<64]" using lb upt_add_eq_append [of 0 "Suc ?k" "64 - Suc ?k"] by simp
      moreover have "filter (bit (and w (w - 1))) [0..<Suc ?k] = []"
        using lb by (auto simp: filter_empty_conv clear_lowest_bit [OF False] less_Suc_eq)
      moreover have "filter (bit (and w (w - 1))) [Suc ?k..<64] = filter (bit w) [Suc ?k..<64]"
        by (rule filter_cong) (auto simp: clear_lowest_bit [OF False])
      ultimately show ?thesis by (metis append_Nil filter_append)
    qed
    ultimately show ?thesis using 1 False by (simp add: bit_loop.simps [of step word w])
  qed (simp add: bit_loop.simps)
qed

lemma update_word_moved:
  assumes "postings_ok m" "word < 4" "\<forall>b \<in> set (as_bytes p). b < 256" "\<forall>b \<in> set (as_bytes q). b < 256"
  shows "moved byte_key slot {b \<in> set (as_bytes p). b div 64 = word} {b \<in> set (as_bytes q). b div 64 = word} m
    (bit_loop (\<lambda>b. slot_insert byte_key b slot) word (and (presence q ! word) (not (presence p ! word)))
       (bit_loop (\<lambda>b. slot_remove byte_key b slot) word (and (presence p ! word) (not (presence q ! word))) m))"
proof -
  let ?P = "{b \<in> set (as_bytes p). b div 64 = word}" and ?Q = "{b \<in> set (as_bytes q). b div 64 = word}"
  let ?keys = "\<lambda>w :: 64 word. map (\<lambda>i. word * 64 + i) (filter (bit w) [0..<64])"
  have keys: "set (?keys (and (presence s ! word) (not (presence t ! word)))) =
      {b \<in> set (as_bytes s). b div 64 = word} - {b \<in> set (as_bytes t). b div 64 = word}"
    if "\<forall>b \<in> set (as_bytes s). b < 256" "\<forall>b \<in> set (as_bytes t). b < 256" for s t
  proof (rule set_eqI)
    fix c
    have "c \<in> set (?keys (and (presence s ! word) (not (presence t ! word)))) \<longleftrightarrow>
        c div 64 = word \<and> bit (presence s ! (c div 64)) (c mod 64) \<and> \<not> bit (presence t ! (c div 64)) (c mod 64)"
    proof
      assume "c \<in> set (?keys (and (presence s ! word) (not (presence t ! word))))"
      then obtain i where i: "i < 64" "c = word * 64 + i" "bit (and (presence s ! word) (not (presence t ! word))) i"
        by auto
      moreover from i(1,2) have "c div 64 = word" "c mod 64 = i" by simp_all
      ultimately show "c div 64 = word \<and> bit (presence s ! (c div 64)) (c mod 64) \<and> \<not> bit (presence t ! (c div 64)) (c mod 64)"
        by (simp add: bit_simps)
    next
      assume c: "c div 64 = word \<and> bit (presence s ! (c div 64)) (c mod 64) \<and> \<not> bit (presence t ! (c div 64)) (c mod 64)"
      then have "c = word * 64 + c mod 64" by (metis div_mult_mod_eq)
      with c show "c \<in> set (?keys (and (presence s ! word) (not (presence t ! word))))"
        by (auto simp: bit_simps intro!: rev_image_eqI [of "c mod 64"])
    qed
    moreover have "c div 64 = word \<Longrightarrow> c < 256" using assms(2) by (simp add: div_less_iff_less_mult [symmetric])
    ultimately show "c \<in> set (?keys (and (presence s ! word) (not (presence t ! word)))) \<longleftrightarrow>
      c \<in> {b \<in> set (as_bytes s). b div 64 = word} - {b \<in> set (as_bytes t). b div 64 = word}"
      using bit_presence [OF that(1), of c] bit_presence [OF that(2), of c] by auto
  qed
  let ?m1 = "bit_loop (\<lambda>b. slot_remove byte_key b slot) word (and (presence p ! word) (not (presence q ! word))) m"
  have d: "moved byte_key slot (?P - ?Q) {} m ?m1"
    using moved_dels [OF assms(1), of byte_key slot] by (simp add: bit_loop_fold keys [OF assms(3,4), symmetric] del: set_map)
  have "moved byte_key slot {} (?Q - ?P) ?m1
      (bit_loop (\<lambda>b. slot_insert byte_key b slot) word (and (presence q ! word) (not (presence p ! word))) ?m1)"
    using moved_adds [OF moved_ok [OF d], of byte_key slot]
    by (simp add: bit_loop_fold [of "\<lambda>b. slot_insert byte_key b slot"] keys [OF assms(4,3), symmetric] del: set_map)
  from moved_trans [OF d this]
  have "moved byte_key slot ((?P - ?Q) - {} \<union> ({} - (?Q - ?P))) ({} - (?P - ?Q) \<union> ((?Q - ?P) - {})) m
      (bit_loop (\<lambda>b. slot_insert byte_key b slot) word (and (presence q ! word) (not (presence p ! word))) ?m1)"
    by blast
  moreover have "((?P - ?Q) - {} \<union> ({} - (?Q - ?P))) - ({} - (?P - ?Q) \<union> ((?Q - ?P) - {})) = ?P - ?Q"
    "({} - (?P - ?Q) \<union> ((?Q - ?P) - {})) - ((?P - ?Q) - {} \<union> ({} - (?Q - ?P))) = ?Q - ?P"
    by blast+
  ultimately show ?thesis using moved_cong by blast
qed

lemma update_bytes_moved:
  assumes "postings_ok m" "\<forall>b \<in> set (as_bytes p). b < 256" "\<forall>b \<in> set (as_bytes q). b < 256"
  shows "moved byte_key slot (set (as_bytes p)) (set (as_bytes q)) m (update_bytes slot (presence p) (presence q) m)"
proof -
  let ?step = "\<lambda>word m. bit_loop (\<lambda>b. slot_insert byte_key b slot) word (and (presence q ! word) (not (presence p ! word)))
      (bit_loop (\<lambda>b. slot_remove byte_key b slot) word (and (presence p ! word) (not (presence q ! word))) m)"
  let ?upto = "\<lambda>s n. {b \<in> set (as_bytes s). b div 64 < n}" and ?at = "\<lambda>s n. {b \<in> set (as_bytes s). b div 64 = n}"
  have "n \<le> 4 \<Longrightarrow> moved byte_key slot (?upto p n) (?upto q n) m (fold ?step [0..<n] m)" for n
  proof (induction n)
    case (Suc n)
    let ?m1 = "fold ?step [0..<n] m"
    have up: "moved byte_key slot (?upto p n) (?upto q n) m ?m1" using Suc by simp
    have at: "moved byte_key slot (?at p n) (?at q n) ?m1 (?step n ?m1)"
      using update_word_moved [OF moved_ok [OF up], of n p q slot] Suc.prems assms(2,3) by simp
    have "moved byte_key slot (?upto p n - ?upto q n \<union> (?at p n - ?at q n)) (?upto q n - ?upto p n \<union> (?at q n - ?at p n))
        m (?step n ?m1)"
      by (rule moved_trans [OF up at]) auto
    moreover have "(?upto p n - ?upto q n \<union> (?at p n - ?at q n)) - (?upto q n - ?upto p n \<union> (?at q n - ?at p n))
        = ?upto p (Suc n) - ?upto q (Suc n)"
      "(?upto q n - ?upto p n \<union> (?at q n - ?at p n)) - (?upto p n - ?upto q n \<union> (?at p n - ?at q n))
        = ?upto q (Suc n) - ?upto p (Suc n)"
      by (auto simp: less_Suc_eq)
    ultimately have "moved byte_key slot (?upto p (Suc n)) (?upto q (Suc n)) m (?step n ?m1)"
      using moved_cong by blast
    then show ?case by simp
  qed (simp add: moved_same assms(1))
  from this [of 4] have four: "moved byte_key slot (?upto p 4) (?upto q 4) m (fold ?step [0..<4] m)" by simp
  have all: "?upto p 4 = set (as_bytes p)" "?upto q 4 = set (as_bytes q)"
    using assms(2,3) by (auto simp: less_mult_imp_div_less)
  show ?thesis using four unfolding all update_bytes_def .
qed

section \<open>Postings of a snapshot\<close>

definition metadata_index :: "crates \<Rightarrow> (nat \<rightharpoonup> file_entry) \<Rightarrow> metadata_postings \<Rightarrow> bool" where
  "metadata_index cr rows mp \<longleftrightarrow>
     keyed_index byte_key (row_keys (\<lambda>f. set (as_bytes (search_name f))) rows) (mp_bytes mp) \<and>
     keyed_index pair_key (row_keys (\<lambda>f. text_grams 2 (search_name f)) rows) (mp_pairs mp) \<and>
     keyed_index string_key (row_keys (\<lambda>f. {entry_extension cr f}) rows) (mp_extensions mp) \<and>
     mp_directories mp = {s. \<exists>f. rows s = Some f \<and> is_dir f} \<and>
     mp_symlinks mp = {s. \<exists>f. rows s = Some f \<and> is_symlink f}"

text \<open>Texts are sequences of Unicode scalar values, so that their encoding consists of bytes.\<close>

definition scalar_values :: "str \<Rightarrow> bool" where
  "scalar_values s = list_all (\<lambda>c. c < 0x110000) s"

lemma scalar_bytes: "scalar_values s \<Longrightarrow> \<forall>b \<in> set (as_bytes s). b < 256"
proof (induction s)
  case (Cons c s)
  then have "\<forall>b \<in> set (utf8_char c). b < 256"
    by (auto simp: utf8_char_def scalar_values_def) 
  with Cons show ?case by (auto simp: as_bytes_Cons scalar_values_def)
qed simp

lemma add_extension_insert: "add_extension slot e m = slot_insert string_key e slot m"
  by (auto simp: add_extension_def slot_insert_def posting_entry_def posting_get_mut_def Let_def split: option.splits)

lemma metadata_index_empty: "metadata_index cr Map.empty empty_metadata"
  by (simp add: metadata_index_def empty_metadata_def keyed_index_default)

lemma metadata_insert_index:
  assumes "metadata_index cr rows mp" "rows slot = None" "scalar_values (search_name f)"
  shows "metadata_index cr (rows(slot \<mapsto> f)) (metadata_insert cr slot f mp)"
proof -
  let ?bytes = "as_bytes (search_name f)"
  have ix: "keyed_index byte_key (row_keys (\<lambda>f. set (as_bytes (search_name f))) rows) (mp_bytes mp)"
    "keyed_index pair_key (row_keys (\<lambda>f. text_grams 2 (search_name f)) rows) (mp_pairs mp)"
    "keyed_index string_key (row_keys (\<lambda>f. {entry_extension cr f}) rows) (mp_extensions mp)"
    using assms(1) by (simp_all add: metadata_index_def)
  have "moved byte_key slot {} (set ?bytes) (mp_bytes mp) (seen_loop slot (replicate 4 0) ?bytes (mp_bytes mp))"
    using seen_loop_fold [OF keyed_index_ok [OF ix(1)], of "replicate 4 0" ?bytes slot] scalar_bytes [OF assms(3)]
    by (auto simp: moved_def)
  moreover have "moved pair_key slot {} (text_grams 2 (search_name f)) (mp_pairs mp)
      (fold (\<lambda>pair. slot_insert pair_key pair slot) (windows 2 ?bytes) (mp_pairs mp))"
    using moved_adds [OF keyed_index_ok [OF ix(2)]] by (simp add: text_grams_def)
  moreover have "moved string_key slot {} {entry_extension cr f} (mp_extensions mp)
      (add_extension slot (entry_extension cr f) (mp_extensions mp))"
    using moved_adds [OF keyed_index_ok [OF ix(3)], of string_key slot "[entry_extension cr f]"]
    by (simp add: add_extension_insert)
  ultimately show ?thesis
    using keyed_index_moved [OF ix(1), of slot] keyed_index_moved [OF ix(2), of slot] keyed_index_moved [OF ix(3), of slot]
      assms(1,2)
    by (auto simp: metadata_index_def metadata_insert_def Let_def row_keys_at split: if_splits)
qed

lemma metadata_remove_index:
  assumes "metadata_index cr rows mp" "rows slot = Some f"
  shows "metadata_index cr (rows(slot := None)) (metadata_remove cr slot f mp)"
proof -
  let ?bytes = "as_bytes (search_name f)"
  have ix: "keyed_index byte_key (row_keys (\<lambda>f. set (as_bytes (search_name f))) rows) (mp_bytes mp)"
    "keyed_index pair_key (row_keys (\<lambda>f. text_grams 2 (search_name f)) rows) (mp_pairs mp)"
    "keyed_index string_key (row_keys (\<lambda>f. {entry_extension cr f}) rows) (mp_extensions mp)"
    using assms(1) by (simp_all add: metadata_index_def)
  have "moved byte_key slot (set ?bytes) {} (mp_bytes mp) (fold (\<lambda>b. slot_remove byte_key b slot) ?bytes (mp_bytes mp))"
    using moved_dels [OF keyed_index_ok [OF ix(1)]] .
  moreover have "moved pair_key slot (text_grams 2 (search_name f)) {} (mp_pairs mp)
      (fold (\<lambda>pair. slot_remove pair_key pair slot) (windows 2 ?bytes) (mp_pairs mp))"
    using moved_dels [OF keyed_index_ok [OF ix(2)]] by (simp add: text_grams_def)
  moreover have "moved string_key slot {entry_extension cr f} {} (mp_extensions mp)
      (slot_remove string_key (entry_extension cr f) slot (mp_extensions mp))"
    using moved_dels [OF keyed_index_ok [OF ix(3)], of string_key slot "[entry_extension cr f]"] by simp
  ultimately show ?thesis
    using keyed_index_moved [OF ix(1), of slot] keyed_index_moved [OF ix(2), of slot] keyed_index_moved [OF ix(3), of slot]
      assms
    by (auto simp: metadata_index_def metadata_remove_def Let_def row_keys_at split: if_splits)
qed

lemma update_flag_index:
  assumes "slots = {s. \<exists>f. rows s = Some f \<and> flag f}" "rows slot = Some previous"
  shows "update_flag slot (flag previous) (flag next) slots = {s. \<exists>f. (rows(slot \<mapsto> next)) s = Some f \<and> flag f}"
  using assms by (auto simp: update_flag_def)

lemma metadata_update_index:
  assumes "metadata_index cr rows mp" "rows slot = Some previous"
    "scalar_values (search_name previous)" "scalar_values (search_name next)"
  shows "metadata_index cr (rows(slot \<mapsto> next)) (metadata_update cr slot previous next mp)"
proof -
  let ?p = "search_name previous" and ?q = "search_name next"
  let ?bytes = "row_keys (\<lambda>f. set (as_bytes (search_name f))) rows"
  let ?pairs = "row_keys (\<lambda>f. text_grams 2 (search_name f)) rows"
  let ?exts = "row_keys (\<lambda>f. {entry_extension cr f}) rows"
  let ?mp = "metadata_update cr slot previous next mp"
  have ix: "keyed_index byte_key ?bytes (mp_bytes mp)" "keyed_index pair_key ?pairs (mp_pairs mp)"
    "keyed_index string_key ?exts (mp_extensions mp)"
    using assms(1) by (simp_all add: metadata_index_def)
  have at: "?bytes slot = set (as_bytes ?p)" "?pairs slot = text_grams 2 ?p" "?exts slot = {entry_extension cr previous}"
    using assms(2) by (simp_all add: row_keys_at)
  have 1: "keyed_index byte_key (?bytes(slot := set (as_bytes ?q))) (mp_bytes ?mp)"
  proof (cases "?p = ?q")
    case True
    then have "mp_bytes ?mp = mp_bytes mp" by (simp add: metadata_update_def Let_def)
    moreover have "?bytes(slot := set (as_bytes ?q)) = ?bytes" using at(1) True by (simp add: fun_upd_idem)
    ultimately show ?thesis using ix(1) by simp
  next
    case False
    then have "mp_bytes ?mp = update_bytes slot (presence ?p) (presence ?q) (mp_bytes mp)"
      by (simp add: metadata_update_def Let_def)
    then show ?thesis
      using keyed_index_moved [OF ix(1), of slot "set (as_bytes ?q)"] at(1)
        update_bytes_moved [OF keyed_index_ok [OF ix(1)] scalar_bytes [OF assms(3)] scalar_bytes [OF assms(4)], of slot]
      by simp
  qed
  have "mp_pairs ?mp = gram_apply pair_key 2 slot ?p ?q (mp_pairs mp)"
    by (simp add: metadata_update_def gram_apply_def Let_def)
  then have 2: "keyed_index pair_key (?pairs(slot := text_grams 2 ?q)) (mp_pairs ?mp)"
    using gram_apply_index [OF ix(2), of slot 2 ?p ?q] at(2) by simp
  have 3: "keyed_index string_key (?exts(slot := {entry_extension cr next})) (mp_extensions ?mp)"
  proof (cases "entry_extension cr previous = entry_extension cr next")
    case True
    then have "mp_extensions ?mp = mp_extensions mp" by (simp add: metadata_update_def Let_def)
    moreover have "?exts(slot := {entry_extension cr next}) = ?exts" using at(3) True by (simp add: fun_upd_idem)
    ultimately show ?thesis using ix(3) by simp
  next
    case False
    let ?old = "entry_extension cr previous" and ?new = "entry_extension cr next"
    have upd: "mp_extensions ?mp = slot_insert string_key ?new slot (slot_remove string_key ?old slot (mp_extensions mp))"
      using False by (simp add: metadata_update_def Let_def add_extension_insert)
    have d: "moved string_key slot {?old} {} (mp_extensions mp) (slot_remove string_key ?old slot (mp_extensions mp))"
      using moved_dels [OF keyed_index_ok [OF ix(3)], of string_key slot "[?old]"] by simp
    have "moved string_key slot {} {?new} (slot_remove string_key ?old slot (mp_extensions mp)) (mp_extensions ?mp)"
      using moved_adds [OF moved_ok [OF d], of string_key slot "[?new]"] upd by simp
    from moved_trans [OF d this] have "moved string_key slot {?old} {?new} (mp_extensions mp) (mp_extensions ?mp)"
      using False by simp
    then show ?thesis using keyed_index_moved [OF ix(3), of slot "{?new}"] at(3) by simp
  qed
  have "mp_directories ?mp = update_flag slot (is_dir previous) (is_dir next) (mp_directories mp)"
    "mp_symlinks ?mp = update_flag slot (is_symlink previous) (is_symlink next) (mp_symlinks mp)"
    by (simp_all add: metadata_update_def Let_def)
  then have "mp_directories ?mp = {s. \<exists>f. (rows(slot \<mapsto> next)) s = Some f \<and> is_dir f}"
    "mp_symlinks ?mp = {s. \<exists>f. (rows(slot \<mapsto> next)) s = Some f \<and> is_symlink f}"
    using assms(1) update_flag_index [of _ rows is_dir slot previous "next"] update_flag_index [of _ rows is_symlink slot previous "next"] assms(2)
    by (simp_all add: metadata_index_def)
  with 1 2 3 show ?thesis by (simp add: metadata_index_def)
qed

lemma metadata_build_index:
  assumes "distinct (map fst files)" "\<forall>(s, f) \<in> set files. scalar_values (search_name f)"
  shows "metadata_index cr (map_of files) (metadata_build cr files)"
proof -
  have "metadata_index cr rows mp \<Longrightarrow> distinct (map fst fs) \<Longrightarrow> \<forall>(s, f) \<in> set fs. rows s = None \<and> scalar_values (search_name f) \<Longrightarrow>
      metadata_index cr (rows ++ map_of fs) (fold (\<lambda>(slot, f). metadata_insert cr slot f) fs mp)" for rows mp fs
  proof (induction fs arbitrary: rows mp)
    case (Cons x fs)
    obtain s f where x: "x = (s, f)" by (cases x)
    have ix: "metadata_index cr (rows(s \<mapsto> f)) (metadata_insert cr s f mp)"
      using Cons.prems x by (intro metadata_insert_index) auto
    have rest: "\<forall>(s', g) \<in> set fs. (rows(s \<mapsto> f)) s' = None \<and> scalar_values (search_name g)"
      using Cons.prems(2,3) x by (force simp: image_iff)
    have eq: "rows(s \<mapsto> f) ++ map_of fs = rows ++ map_of (x # fs)"
      using Cons.prems(2) x by (simp add: map_add_upd_left dom_map_of_conv_image_fst)
    have "distinct (map fst fs)" using Cons.prems(2) by simp
    from Cons.IH [OF ix this rest] show ?case unfolding eq by (simp only: x fold_Cons comp_apply prod.case)
  qed simp
  from this [OF metadata_index_empty assms(1)] assms(2) show ?thesis by (simp add: metadata_build_def case_prod_unfold)
qed

section \<open>Evaluation is exact\<close>

lemma lookup_keyed:
  "keyed_index pk (row_keys g rows) m \<Longrightarrow> lookup_posting pk m k = {s. \<exists>r. rows s = Some r \<and> k \<in> g r}"
  using keyed_index_posted [of pk g rows m k] by (auto simp: lookup_posting_def split: option.splits)

lemma fold_union: "fold (\<lambda>e slots. slots \<union> g e) es A = A \<union> (\<Union>e \<in> set es. g e)"
  by (induction es arbitrary: A) auto

lemma occurs_single: "occurs [b] xs \<longleftrightarrow> b \<in> set xs"
  by (auto simp: occurs_def in_set_conv_decomp)

lemma short_bytes: "str_len s \<le> 2 \<Longrightarrow> \<exists>b c. as_bytes s = [] \<or> as_bytes s = [b] \<or> as_bytes s = [b, c]"
  by (cases "as_bytes s" rule: list.exhaust; simp add: str_len_def) (metis One_nat_def Suc_le_mono length_0_conv le_Suc_eq le_zero_eq length_Suc_conv)

text \<open>The live slots whose rows a query accepts, whatever their content.\<close>

definition row_matches :: "crates \<Rightarrow> query \<Rightarrow> file_entry \<Rightarrow> bool" where
  "row_matches cr q f \<longleftrightarrow> matches_inner cr f None q = Inr True"

definition matching_slots :: "crates \<Rightarrow> (nat \<rightharpoonup> file_entry) \<Rightarrow> nat set \<Rightarrow> query \<Rightarrow> nat set" where
  "matching_slots cr rows live q = {s \<in> live. \<exists>f. rows s = Some f \<and> row_matches cr q f}"

lemma matches_all_known:
  "(\<And>q. q \<in> set qs \<Longrightarrow> matches_inner cr f c q = Inr (P q)) \<Longrightarrow> matches_all cr f c qs = Inr (list_all P qs)"
  by (induction qs) auto

lemma matches_any_known:
  "(\<And>q. q \<in> set qs \<Longrightarrow> matches_inner cr f c q = Inr (P q)) \<Longrightarrow> matches_any cr f c qs = Inr (list_ex P qs)"
  by (induction qs) auto

lemma supported_known: "metadata_supports q \<Longrightarrow> matches_inner cr f c q = Inr (row_matches cr q f)"
proof (induction q arbitrary: c rule: metadata_supports.induct)
  case (2 t)
  then show ?case
    by (cases t) (auto simp: row_matches_def inner_term_def split: field.splits bool.splits)
next
  case (3 qs)
  then have "matches_all cr f c qs = Inr (list_all (\<lambda>q. row_matches cr q f) qs)" for c
    by (intro matches_all_known) (auto simp: list_all_iff)
  then show ?case by (simp add: row_matches_def [of _ "QAnd qs"])
next
  case (4 qs)
  then have "matches_any cr f c qs = Inr (list_ex (\<lambda>q. row_matches cr q f) qs)" for c
    by (intro matches_any_known) (auto simp: list_all_iff)
  then show ?case by (simp add: row_matches_def [of _ "QOr qs"])
next
  case (5 q)
  then have "matches_inner cr f c q = Inr (row_matches cr q f)" for c by simp
  then show ?case by (simp add: row_matches_def [of _ "QNot q"])
qed (simp add: row_matches_def)

lemma row_matches_simps:
  "row_matches cr QAll f"
  "metadata_supports (QAnd qs) \<Longrightarrow> row_matches cr (QAnd qs) f \<longleftrightarrow> (\<forall>q \<in> set qs. row_matches cr q f)"
  "metadata_supports (QOr qs) \<Longrightarrow> row_matches cr (QOr qs) f \<longleftrightarrow> (\<exists>q \<in> set qs. row_matches cr q f)"
  "metadata_supports q \<Longrightarrow> row_matches cr (QNot q) f \<longleftrightarrow> \<not> row_matches cr q f"
proof -
  assume "metadata_supports (QAnd qs)"
  then have "matches_all cr f None qs = Inr (list_all (\<lambda>q. row_matches cr q f) qs)"
    by (intro matches_all_known) (auto simp: supported_known list_all_iff)
  then show "row_matches cr (QAnd qs) f \<longleftrightarrow> (\<forall>q \<in> set qs. row_matches cr q f)"
    by (simp add: row_matches_def [of _ "QAnd qs"] list_all_iff)
next
  assume "metadata_supports (QOr qs)"
  then have "matches_any cr f None qs = Inr (list_ex (\<lambda>q. row_matches cr q f) qs)"
    by (intro matches_any_known) (auto simp: supported_known list_all_iff)
  then show "row_matches cr (QOr qs) f \<longleftrightarrow> (\<exists>q \<in> set qs. row_matches cr q f)"
    by (simp add: row_matches_def [of _ "QOr qs"] list_ex_iff)
next
  assume "metadata_supports q"
  then show "row_matches cr (QNot q) f \<longleftrightarrow> \<not> row_matches cr q f"
    using supported_known [of q cr f None] by (simp add: row_matches_def [of _ "QNot q"])
qed (simp add: row_matches_def)

lemma exact_term_known:
  assumes "finder (c_find cr)" "metadata_index cr rows mp" "\<forall>s \<in> live. rows s \<noteq> None"
  shows "map_option (\<lambda>slots. slots \<inter> live) (exact_metadata_term mp live t) =
    (if metadata_supports (QTerm t) then Some (matching_slots cr rows live (QTerm t)) else None)"
proof (cases t)
  case (Text fld needle sensitive)
  show ?thesis
  proof (cases "fld = Name \<and> \<not> sensitive")
    case True
    let ?bs = "as_bytes needle"
    have m: "row_matches cr (QTerm (Text Name needle False)) f \<longleftrightarrow> occurs ?bs (as_bytes (search_name f))" for f
      using finder.find_is_some [OF assms(1)] by (simp add: row_matches_def inner_term_def)
    have short: "metadata_supports (QTerm t) \<longleftrightarrow> length ?bs \<le> 2" using True Text by (simp add: str_len_def)
    consider "?bs = []" | b where "?bs = [b]" | l r where "?bs = [l, r]" | "2 < length ?bs"
      by (cases ?bs; cases "tl ?bs"; cases "tl (tl ?bs)") auto
    then show ?thesis
    proof cases
      case 1
      then have "row_matches cr (QTerm (Text Name needle False)) f" for f unfolding m by (auto simp: occurs_def)
      then have "matching_slots cr rows live (QTerm t) = live" using assms(3) True Text by (auto simp: matching_slots_def)
      then show ?thesis using 1 True Text short by (simp add: exact_metadata_term_def exact_short_name_def)
    next
      case 2
      then show ?thesis using True Text short assms(2) lookup_keyed [of byte_key _ rows "mp_bytes mp" b]
        by (auto simp: exact_metadata_term_def exact_short_name_def matching_slots_def m occurs_single metadata_index_def)
    next
      case 3
      have "[l, r] \<in> text_grams 2 (search_name f) \<longleftrightarrow> occurs [l, r] (as_bytes (search_name f))" for f
        by (simp add: text_grams_def windows_iff)
      then show ?thesis using 3 True Text short assms(2) lookup_keyed [of pair_key _ rows "mp_pairs mp" "[l, r]"]
        by (auto simp: exact_metadata_term_def exact_short_name_def matching_slots_def m metadata_index_def)
    next
      case 4
      then have "exact_short_name mp live ?bs = None" by (auto simp: exact_short_name_def split: list.splits)
      then show ?thesis using 4 True Text short by (simp add: exact_metadata_term_def)
    qed
  next
    case False
    then show ?thesis using Text by (cases fld) (auto simp: exact_metadata_term_def split: bool.splits)
  qed
next
  case (Extension exts)
  have m: "row_matches cr (QTerm (Extension exts)) f \<longleftrightarrow> entry_extension cr f \<in> set exts" for f
    by (simp add: row_matches_def inner_term_def entry_extension_def)
  show ?thesis
    using lookup_keyed [of string_key "\<lambda>f. {entry_extension cr f}" rows "mp_extensions mp"] assms(2) Extension
    by (auto simp: exact_metadata_term_def fold_union metadata_index_def matching_slots_def m)
next
  case (IsDir d)
  then show ?thesis using assms(2,3)
    by (cases d) (auto simp: exact_metadata_term_def metadata_index_def matching_slots_def row_matches_def inner_term_def)
next
  case IsSymlink
  then show ?thesis using assms(2)
    by (auto simp: exact_metadata_term_def metadata_index_def matching_slots_def row_matches_def inner_term_def)
qed (simp_all add: exact_metadata_term_def)

lemma exact_all_known:
  "(\<And>q. q \<in> set qs \<Longrightarrow> metadata_exact mp live q = (if metadata_supports q then Some (M q) else None)) \<Longrightarrow>
     metadata_exact_all mp live qs result =
       (if list_all metadata_supports qs then Some (result \<inter> {s. \<forall>q \<in> set qs. s \<in> M q}) else None)"
  by (induction qs arbitrary: result) auto

lemma exact_any_known:
  "(\<And>q. q \<in> set qs \<Longrightarrow> metadata_exact mp live q = (if metadata_supports q then Some (M q) else None)) \<Longrightarrow>
     metadata_exact_any mp live qs result =
       (if list_all metadata_supports qs then Some (result \<union> (\<Union>q \<in> set qs. M q)) else None)"
  by (induction qs arbitrary: result) auto

lemma metadata_exact_known:
  assumes "finder (c_find cr)" "metadata_index cr rows mp" "\<forall>s \<in> live. rows s \<noteq> None"
  shows "metadata_exact mp live q = (if metadata_supports q then Some (matching_slots cr rows live q) else None)"
proof (induction q rule: metadata_supports.induct)
  case 1
  then show ?case using assms(3) by (auto simp: matching_slots_def row_matches_simps)
next
  case (2 t)
  then show ?case using exact_term_known [OF assms, of t] by simp
next
  case (3 qs)
  note all = exact_all_known [where M = "matching_slots cr rows live", OF "3.IH"]
  show ?case
  proof (cases "list_all metadata_supports qs")
    case True
    then have "matching_slots cr rows live (QAnd qs) = live \<inter> {s. \<forall>q \<in> set qs. s \<in> matching_slots cr rows live q} \<inter> live"
      using assms(3) by (auto simp: matching_slots_def row_matches_simps)
    then show ?thesis using True all by simp
  qed (use all in simp)
next
  case (4 qs)
  note any = exact_any_known [where M = "matching_slots cr rows live", OF "4.IH"]
  show ?case
  proof (cases "list_all metadata_supports qs")
    case True
    then have "matching_slots cr rows live (QOr qs) = ({} \<union> (\<Union>q \<in> set qs. matching_slots cr rows live q)) \<inter> live"
      by (auto simp: matching_slots_def row_matches_simps)
    then show ?thesis using True any by simp
  qed (use any in simp)
next
  case (5 q)
  then show ?case using assms(3) by (auto simp: matching_slots_def row_matches_simps)
qed

section \<open>Properties\<close>

text \<open>
  C13: the postings evaluate the queries they support exactly: the result is the set of the live slots whose
  rows the query evaluator accepts, whatever their content; and a query they do not support, in any operand,
  is left to the evaluator. The hypotheses are the contract of the substring search, that the postings stand
  for the rows, and that live slots have rows.
\<close>

theorem metadata_postings_exact:
  assumes "finder (c_find cr)" "metadata_index cr rows mp" "\<forall>s \<in> live. rows s \<noteq> None"
  shows "metadata_exact mp live q =
    (if metadata_supports q
     then Some {s \<in> live. \<exists>f. rows s = Some f \<and> (\<forall>content. matches_inner cr f content q = Inr True)}
     else None)"
proof (cases "metadata_supports q")
  case True
  then have "(\<forall>content. matches_inner cr f content q = Inr True) \<longleftrightarrow> row_matches cr q f" for f
    by (simp add: supported_known)
  then show ?thesis using metadata_exact_known [OF assms, of q] True by (simp add: matching_slots_def)
qed (use metadata_exact_known [OF assms, of q] in simp)

theorem metadata_postings_exact_witness:
  "metadata_exact (metadata_build plain_crates [(3, sample_entry)]) {3}
     (QAnd [QTerm (Text Name (lit ''a'') False), QNot (QTerm (IsDir True))]) = Some {3}"
proof -
  have ix: "metadata_index plain_crates [3 \<mapsto> sample_entry] (metadata_build plain_crates [(3, sample_entry)])"
    using metadata_build_index [of "[(3, sample_entry)]" plain_crates] by (simp add: scalar_values_def sample_entry_def lit_def)
  have "finder (c_find plain_crates)" using naive.finder_axioms by (simp add: plain_crates_def)
  from metadata_postings_exact [OF this ix, of "{3}" "QAnd [QTerm (Text Name (lit ''a'') False), QNot (QTerm (IsDir True))]"]
  show ?thesis
    by (auto simp: str_len_def as_bytes_def utf8_char_def lit_def inner_term_def plain_crates_def sample_entry_def starts_with_def)
qed

end
