(* ===== verification/Name_Column.thy ===== *)
theory Name_Column
  imports Entry_Table Metadata_Postings Outcome
begin

text \<open>
  Matching over the name and path columns, \<open>core/src/name_column.rs\<close>, with the builder of result sets,
  \<open>core/src/bitmap_builder.rs\<close>. The name column is a clone of the entry table. Panics are \<open>None\<close>, the cancellation
  error is \<open>Some (Inl _)\<close>; the flag is polled at numbered moments, of each worker on its own when the candidates
  are partitioned. The number of workers granted by the CPU executor is a parameter.
\<close>

section \<open>Runs of slots\<close>

record bitmap_builder =
  bb_bitmap :: "nat set"
  bb_pending :: "(nat \<times> nat) option"

definition empty_builder :: bitmap_builder where
  "empty_builder = \<lparr>bb_bitmap = {}, bb_pending = None\<rparr>"

definition builder_flush :: "bitmap_builder \<Rightarrow> bitmap_builder" where
  "builder_flush b =
     (case bb_pending b of
        None \<Rightarrow> b
      | Some (low, stop) \<Rightarrow>
          \<lparr>bb_bitmap = (if low = stop then insert low (bb_bitmap b) else bb_bitmap b \<union> {low..stop}), bb_pending = None\<rparr>)"

definition builder_insert :: "nat \<Rightarrow> bitmap_builder \<Rightarrow> bitmap_builder" where
  "builder_insert slot b =
     (case bb_pending b of
        Some (low, stop) \<Rightarrow>
          if checked_add_u32 stop 1 = Some slot then b\<lparr>bb_pending := Some (low, slot)\<rparr>
          else (builder_flush b)\<lparr>bb_pending := Some (slot, slot)\<rparr>
      | None \<Rightarrow> (builder_flush b)\<lparr>bb_pending := Some (slot, slot)\<rparr>)"

definition builder_finish :: "bitmap_builder \<Rightarrow> nat set" where
  "builder_finish b = bb_bitmap (builder_flush b)"

definition builder_ok :: "bitmap_builder \<Rightarrow> bool" where
  "builder_ok b \<longleftrightarrow> (case bb_pending b of None \<Rightarrow> True | Some (low, stop) \<Rightarrow> low \<le> stop)"

lemma builder_insert_ok:
  "builder_ok b \<Longrightarrow> builder_ok (builder_insert slot b) \<and> builder_finish (builder_insert slot b) = insert slot (builder_finish b)"
  by (auto simp: builder_ok_def builder_insert_def builder_finish_def builder_flush_def checked_add_u32_def
      split: option.splits prod.splits if_splits)

lemma builder_empty [simp]: "builder_ok empty_builder" "builder_finish empty_builder = {}"
  by (simp_all add: builder_ok_def builder_finish_def builder_flush_def empty_builder_def)

section \<open>Expressions on names\<close>

text \<open>A finder is its needle.\<close>

datatype name_expression =
  NAll
| NText "byte list"
| NAnd "name_expression list"
| NOr "name_expression list"
| NNot name_expression

fun retain_new :: "byte list list \<Rightarrow> name_expression list \<Rightarrow> name_expression list" where
  "retain_new literals [] = []"
| "retain_new literals (NText needle # es) =
     (if needle \<in> set literals then retain_new literals es else NText needle # retain_new (needle # literals) es)"
| "retain_new literals (e # es) = e # retain_new literals es"

definition combine :: "bool \<Rightarrow> name_expression list \<Rightarrow> name_expression" where
  "combine conjunction es =
     (let compiled = retain_new [] es in
      case compiled of [e] \<Rightarrow> e | _ \<Rightarrow> if conjunction then NAnd compiled else NOr compiled)"

fun compile :: "query \<Rightarrow> name_expression option" and compile_all :: "query list \<Rightarrow> name_expression list option" where
  "compile QAll = Some NAll"
| "compile (QTerm t) =
     (case t of Text Name needle False \<Rightarrow> Some (NText (as_bytes needle)) | _ \<Rightarrow> None)"
| "compile (QAnd qs) = map_option (combine True) (compile_all qs)"
| "compile (QOr qs) = map_option (combine False) (compile_all qs)"
| "compile (QNot q) = map_option NNot (compile q)"
| "compile_all [] = Some []"
| "compile_all (q # qs) =
     Option.bind (compile q) (\<lambda>e. Option.bind (compile_all qs) (\<lambda>es. Some (e # es)))"

fun name_matches :: "crates \<Rightarrow> byte list \<Rightarrow> name_expression \<Rightarrow> bool" where
  "name_matches cr name_bytes NAll = True"
| "name_matches cr name_bytes (NText needle) = (c_find cr needle name_bytes \<noteq> None)"
| "name_matches cr name_bytes (NAnd es) = list_all (name_matches cr name_bytes) es"
| "name_matches cr name_bytes (NOr es) = list_ex (name_matches cr name_bytes) es"
| "name_matches cr name_bytes (NNot e) = (\<not> name_matches cr name_bytes e)"

section \<open>Scanning names\<close>

definition byte_slice :: "byte list \<Rightarrow> nat \<Rightarrow> nat \<Rightarrow> byte list option" where
  "byte_slice bytes i j = (if i \<le> j \<and> j \<le> length bytes then Some (subslice bytes i j) else None)"

text \<open>
  The inner loop of \<open>evaluate_slots\<close> takes the candidates below \<open>stop\<close>, the outer one goes from block to block.
\<close>

definition name_at :: "entry_chunk \<Rightarrow> nat \<Rightarrow> byte list option" where
  "name_at block slot = do {
     reference \<leftarrow> slice_get (column_values (ch_search_name block)) (slot mod chunk_length);
     byte_slice (as_bytes (ch_text block)) (tr_offset reference) (tr_offset reference + tr_length reference) }"

definition accepts :: "crates \<Rightarrow> name_expression \<Rightarrow> name_expression list \<Rightarrow> byte list \<Rightarrow> bool" where
  "accepts cr e exclusions b \<longleftrightarrow> name_matches cr b e \<and> \<not> list_ex (name_matches cr b) exclusions"

fun scan_block ::
    "(byte list \<Rightarrow> bool) \<Rightarrow> (nat \<Rightarrow> bool) \<Rightarrow> entry_chunk \<Rightarrow> nat \<Rightarrow> nat list \<Rightarrow> nat \<Rightarrow> bitmap_builder
      \<Rightarrow> (nat list \<times> nat \<times> bitmap_builder) outcome" where
  "scan_block accept cancelled block stop [] k matched = Some (Inr ([], k, matched))"
| "scan_block accept cancelled block stop (slot # ss) k matched =
     (if slot < stop
      then (if cancelled k then Some (Inl query_cancelled)
            else bind_outcome (fine (name_at block slot)) (\<lambda>b.
              scan_block accept cancelled block stop ss (k + 1) (if accept b then builder_insert slot matched else matched)))
      else Some (Inr (slot # ss, k, matched)))"

lemma scan_block_rest: "scan_block accept cancelled block stop ss k m = Some (Inr (rest, k', m')) \<Longrightarrow> length rest \<le> length ss"
proof (induction ss arbitrary: k m)
  case (Cons slot ss)
  then show ?case
    by (cases "name_at block slot") (auto simp: fine_def split: if_splits intro: le_SucI)
qed simp

lemma scan_block_shorter:
  "scan_block accept cancelled block stop (slot # ss) k m = Some (Inr (rest, k', m')) \<Longrightarrow> slot < stop \<Longrightarrow>
     length rest \<le> length ss"
  by (cases "name_at block slot") (auto simp: fine_def split: if_splits dest: scan_block_rest)

function scan_slots ::
    "(byte list \<Rightarrow> bool) \<Rightarrow> (nat \<Rightarrow> bool) \<Rightarrow> entry_chunk list \<Rightarrow> nat list \<Rightarrow> nat \<Rightarrow> bitmap_builder \<Rightarrow> nat set outcome" where
  "scan_slots accept cancelled cks [] k matched = Some (Inr (builder_finish matched))"
| "scan_slots accept cancelled cks (first # ss) k matched =
     (let i = first div chunk_length in
      case slice_get cks i of
        None \<Rightarrow> None
      | Some block \<Rightarrow>
          (case scan_block accept cancelled block ((i + 1) * chunk_length) (first # ss) k matched of
             None \<Rightarrow> None
           | Some (Inl err) \<Rightarrow> Some (Inl err)
           | Some (Inr (rest, k', matched')) \<Rightarrow> scan_slots accept cancelled cks rest k' matched'))"
  by pat_completeness auto
termination
proof (relation "measure (\<lambda>(_, _, _, ss, _, _). length ss)", simp)
  fix accept :: "byte list \<Rightarrow> bool" and cancelled :: "nat \<Rightarrow> bool" and cks and first :: nat
    and ss k matched i block r p rest q and k' :: nat and matched'
  assume "i = first div chunk_length" "slice_get cks i = Some block"
    "scan_block accept cancelled block ((i + 1) * chunk_length) (first # ss) k matched = Some r" "r = Inr p"
    "(rest, q) = p" "(k', matched') = q"
  moreover have "first < (first div chunk_length + 1) * chunk_length"
    using dividend_less_div_times [of chunk_length first] by (simp add: algebra_simps)
  ultimately show "((accept, cancelled, cks, rest, k', matched'), (accept, cancelled, cks, first # ss, k, matched))
      \<in> measure (\<lambda>(_, _, _, ss, _, _). length ss)"
    using scan_block_shorter [of accept cancelled block "(i + 1) * chunk_length" first ss k matched rest k' matched']
    by auto
qed

definition evaluate_slots ::
    "crates \<Rightarrow> entry_table \<Rightarrow> name_expression \<Rightarrow> name_expression list \<Rightarrow> nat list \<Rightarrow> (nat \<Rightarrow> bool) \<Rightarrow> nat set outcome" where
  "evaluate_slots cr names e ex candidates cancelled =
     scan_slots (accepts cr e ex) cancelled (et_chunks names) candidates 0 empty_builder"

text \<open>
  The partitions: worker \<open>w\<close> takes the candidates from the \<open>(card candidates * w div workers)\<close>-th on, up to the next
  worker's first. \<open>try_reduce\<close> unites the results, and any error is the error of the whole.
\<close>

definition select_slot :: "nat set \<Rightarrow> nat \<Rightarrow> nat option" where
  "select_slot ss n = slice_get (sorted_list_of_set ss) n"

fun collect_options :: "'a option list \<Rightarrow> 'a list option" where
  "collect_options [] = Some []"
| "collect_options (x # xs) = Option.bind x (\<lambda>y. map_option ((#) y) (collect_options xs))"

definition boundaries :: "nat set \<Rightarrow> nat \<Rightarrow> nat list option" where
  "boundaries candidates workers =
     collect_options (map (\<lambda>w. select_slot candidates (card candidates * w div workers mod 2 ^ 32)) [0..<workers])"

definition worker_slots :: "nat set \<Rightarrow> nat list \<Rightarrow> nat \<Rightarrow> nat list" where
  "worker_slots candidates bs w =
     filter (\<lambda>s. bs ! w \<le> s \<and> (w + 1 < length bs \<longrightarrow> s < bs ! (w + 1))) (sorted_list_of_set candidates)"

fun try_union :: "nat set outcome list \<Rightarrow> nat set outcome" where
  "try_union [] = Some (Inr {})"
| "try_union (r # rs) =
     (if r = None \<or> try_union rs = None then None
      else bind_outcome r (\<lambda>a. bind_outcome (try_union rs) (\<lambda>b. Some (Inr (a \<union> b)))))"

definition evaluate_partitioned ::
    "crates \<Rightarrow> entry_table \<Rightarrow> name_expression \<Rightarrow> name_expression list \<Rightarrow> nat set \<Rightarrow> nat \<Rightarrow> (nat \<Rightarrow> nat \<Rightarrow> bool)
      \<Rightarrow> nat set outcome" where
  "evaluate_partitioned cr names e ex candidates workers cancelled =
     (if workers \<le> 1 \<or> candidates = {} then evaluate_slots cr names e ex (sorted_list_of_set candidates) (cancelled 0)
      else let workers = min workers (card candidates) in
        Option.bind (boundaries candidates workers) (\<lambda>bs.
          try_union (map (\<lambda>w. evaluate_slots cr names e ex (worker_slots candidates bs w) (cancelled w)) [0..<workers])))"

definition name_evaluate ::
    "crates \<Rightarrow> entry_table \<Rightarrow> name_expression \<Rightarrow> name_expression list \<Rightarrow> nat set \<Rightarrow> nat option \<Rightarrow> (nat \<Rightarrow> nat \<Rightarrow> bool)
      \<Rightarrow> nat set outcome" where
  "name_evaluate cr names e ex candidates granted cancelled =
     (let workers = card candidates div 32768 in
      case (if workers > 1 then granted else None) of
        Some permitted \<Rightarrow> evaluate_partitioned cr names e ex candidates permitted cancelled
      | None \<Rightarrow> evaluate_slots cr names e ex (sorted_list_of_set candidates) (cancelled 0))"

section \<open>Scanning paths\<close>

definition parent_state :: "crates \<Rightarrow> str \<Rightarrow> path_text_mode \<Rightarrow> str \<Rightarrow> nat" where
  "parent_state cr needle mode t =
     (let bytes = as_bytes (mode_normalize cr mode t); n = as_bytes needle in
      if c_find cr n bytes \<noteq> None then 2
      else case rposition (\<lambda>b. b = slash) n of
             None \<Rightarrow> 1
           | Some index \<Rightarrow> if ends_with bytes (take (index + 1) n) then 1 else 0)"

definition suffix_matches :: "crates \<Rightarrow> str \<Rightarrow> path_text_mode \<Rightarrow> str \<Rightarrow> bool" where
  "suffix_matches cr needle mode t =
     (let bytes = as_bytes (mode_normalize cr mode t); n = as_bytes needle in
      case rposition (\<lambda>b. b = slash) n of
        Some index \<Rightarrow> starts_with bytes (drop (index + 1) n)
      | None \<Rightarrow> c_find cr n bytes \<noteq> None)"

fun mode_column :: "path_text_mode \<Rightarrow> entry_chunk \<Rightarrow> path_ref column" where
  "mode_column Search c = ch_search_path c"
| "mode_column Folded c = ch_folded_path c"
| "mode_column (Sensitive _) c = ch_path c"

text \<open>
  The states of parents are remembered by the reference of the parent, and the one of the row before in addition.
\<close>

definition parent_entry ::
    "crates \<Rightarrow> str \<Rightarrow> path_text_mode \<Rightarrow> str \<Rightarrow> text_ref \<Rightarrow> (text_ref \<rightharpoonup> nat) \<Rightarrow> (nat \<times> (text_ref \<rightharpoonup> nat)) option" where
  "parent_entry cr needle mode arena r parents =
     (case parents r of
        Some state \<Rightarrow> Some (state, parents)
      | None \<Rightarrow> map_option (\<lambda>t. (parent_state cr needle mode t, parents(r \<mapsto> parent_state cr needle mode t))) (text_at arena r))"

fun path_scan ::
    "crates \<Rightarrow> str \<Rightarrow> path_text_mode \<Rightarrow> entry_chunk \<Rightarrow> nat \<Rightarrow> nat list \<Rightarrow> (text_ref \<rightharpoonup> nat) \<Rightarrow> (text_ref \<times> nat) option
      \<Rightarrow> bitmap_builder \<Rightarrow> bitmap_builder option" where
  "path_scan cr needle mode block low [] parents previous result = Some result"
| "path_scan cr needle mode block low (slot # ss) parents previous result = do {
     reference \<leftarrow> slice_get (column_values (mode_column mode block)) (slot - low);
     (state, parents) \<leftarrow>
       (case previous of
          Some (p, state) \<Rightarrow>
            if p = pr_prefix reference then Some (state, parents)
            else parent_entry cr needle mode (ch_text block) (pr_prefix reference) parents
        | None \<Rightarrow> parent_entry cr needle mode (ch_text block) (pr_prefix reference) parents);
     hit \<leftarrow> (if state = 2 then Some True
             else if state = 1 then map_option (suffix_matches cr needle mode) (text_at (ch_text block) (pr_suffix reference))
             else Some False);
     path_scan cr needle mode block low ss parents (Some (pr_prefix reference, state))
       (if hit then builder_insert slot result else result) }"

fun path_blocks ::
    "crates \<Rightarrow> str \<Rightarrow> path_text_mode \<Rightarrow> nat set \<Rightarrow> (nat \<Rightarrow> bool) \<Rightarrow> nat \<Rightarrow> entry_chunk list \<Rightarrow> bitmap_builder
      \<Rightarrow> nat set outcome" where
  "path_blocks cr needle mode live cancelled index [] result = Some (Inr (builder_finish result))"
| "path_blocks cr needle mode live cancelled index (block # bks) result =
     (if cancelled index then Some (Inl query_cancelled)
      else let low = index * chunk_length in
        bind_outcome
          (fine (path_scan cr needle mode block low (sorted_list_of_set (live \<inter> {low..<low + chunk_len block})) Map.empty None result))
          (path_blocks cr needle mode live cancelled (index + 1) bks))"

definition match_paths :: "crates \<Rightarrow> entry_table \<Rightarrow> str \<Rightarrow> path_text_mode \<Rightarrow> nat set \<Rightarrow> (nat \<Rightarrow> bool) \<Rightarrow> nat set outcome" where
  "match_paths cr entries needle mode live cancelled =
     path_blocks cr needle mode live cancelled 0 (et_chunks entries) empty_builder"

section \<open>Compiled expressions accept the same names\<close>

lemma retain_new_all:
  "\<forall>n \<in> set literals. P (NText n) \<Longrightarrow> list_all P (retain_new literals es) = list_all P es"
  by (induction literals es rule: retain_new.induct) auto

lemma retain_new_ex:
  "\<forall>n \<in> set literals. \<not> P (NText n) \<Longrightarrow> list_ex P (retain_new literals es) = list_ex P es"
  by (induction literals es rule: retain_new.induct) auto

lemma combine_matches:
  "name_matches cr b (combine True es) = list_all (name_matches cr b) es"
  "name_matches cr b (combine False es) = list_ex (name_matches cr b) es"
  using retain_new_all [of "[]" "name_matches cr b" es] retain_new_ex [of "[]" "name_matches cr b" es]
  by (auto simp: combine_def Let_def split: list.splits)

lemma compile_all_known:
  "(\<And>q e. q \<in> set qs \<Longrightarrow> compile q = Some e \<Longrightarrow> M q = N e) \<Longrightarrow> compile_all qs = Some es \<Longrightarrow> map M qs = map N es"
  by (induction qs arbitrary: es) (auto split: bind_splits)

lemma matches_all_map: "map (matches_inner cr f c) qs = map (\<lambda>e. Inr (P e)) es \<Longrightarrow> matches_all cr f c qs = Inr (list_all P es)"
  by (induction es arbitrary: qs) auto

lemma matches_any_map: "map (matches_inner cr f c) qs = map (\<lambda>e. Inr (P e)) es \<Longrightarrow> matches_any cr f c qs = Inr (list_ex P es)"
  by (induction es arbitrary: qs) auto

lemma compile_matches:
  assumes "finder (c_find cr)"
  shows "compile q = Some e \<Longrightarrow> matches_inner cr f content q = Inr (name_matches cr (as_bytes (search_name f)) e)"
proof (induction q arbitrary: e rule: metadata_supports.induct)
  case (2 t)
  then show ?case by (cases t) (auto simp: inner_term_def split: field.splits bool.splits)
next
  case (3 qs)
  then obtain es where es: "compile_all qs = Some es" "e = combine True es" by auto
  have "map (matches_inner cr f content) qs = map (\<lambda>e. Inr (name_matches cr (as_bytes (search_name f)) e)) es"
    by (rule compile_all_known [OF _ es(1)]) (rule "3.IH")
  then have "matches_all cr f content qs = Inr (list_all (name_matches cr (as_bytes (search_name f))) es)"
    by (rule matches_all_map)
  then show ?case by (simp add: es(2) combine_matches)
next
  case (4 qs)
  then obtain es where es: "compile_all qs = Some es" "e = combine False es" by auto
  have "map (matches_inner cr f content) qs = map (\<lambda>e. Inr (name_matches cr (as_bytes (search_name f)) e)) es"
    by (rule compile_all_known [OF _ es(1)]) (rule "4.IH")
  then have "matches_any cr f content qs = Inr (list_ex (name_matches cr (as_bytes (search_name f))) es)"
    by (rule matches_any_map)
  then show ?case by (simp add: es(2) combine_matches)
next
  case (5 q)
  then show ?case by auto
qed auto

section \<open>The scan of names is exact\<close>

lemma byte_slice_text:
  "text_at t r = Some v \<Longrightarrow> byte_slice (as_bytes t) (tr_offset r) (tr_offset r + tr_length r) = Some (as_bytes v)"
  unfolding text_at_iff by (auto simp: byte_slice_def str_len_def subslice_def)

lemma block_search_name:
  assumes "wf_table t" "slot < et_length t"
  shows "\<exists>r. slice_get (column_values (ch_search_name (et_chunks t ! (slot div chunk_length)))) (slot mod chunk_length) = Some r \<and>
    text_at (ch_text (et_chunks t ! (slot div chunk_length))) r = Some (search_name (the (table_row t slot)))"
proof -
  obtain f where f: "table_row t slot = Some f" using table_row_Some [OF assms] by blast
  then have "chunk_view (et_chunks t ! (slot div chunk_length)) (slot mod chunk_length) = Some f"
    using table_row_at [OF assms] by simp
  then show ?thesis using f by (auto simp: chunk_view_def text_read_def split: bind_splits)
qed

lemma name_at_row:
  assumes "wf_table t" "slot < et_length t"
  shows "name_at (et_chunks t ! (slot div chunk_length)) slot = Some (as_bytes (search_name (the (table_row t slot))))"
  using block_search_name [OF assms] byte_slice_text by (auto simp: name_at_def)

definition name_hit :: "(byte list \<Rightarrow> bool) \<Rightarrow> entry_table \<Rightarrow> nat \<Rightarrow> bool" where
  "name_hit accept t slot = accept (as_bytes (search_name (the (table_row t slot))))"

lemma scan_block_ok:
  assumes "wf_table t" "\<forall>j. cancelled j \<longrightarrow> E query_cancelled"
  shows "\<forall>s \<in> set ss. s < et_length t \<and> i * chunk_length \<le> s \<Longrightarrow> builder_ok m \<Longrightarrow>
    yields (scan_block accept cancelled (et_chunks t ! i) ((i + 1) * chunk_length) ss k m) E
      (\<lambda>(rest, k', m'). rest = dropWhile (\<lambda>s. s < (i + 1) * chunk_length) ss \<and> builder_ok m' \<and>
         builder_finish m' = builder_finish m \<union> {s \<in> set (takeWhile (\<lambda>s. s < (i + 1) * chunk_length) ss). name_hit accept t s})"
proof (induction ss arbitrary: k m)
  case (Cons slot ss)
  let ?stop = "(i + 1) * chunk_length"
  show ?case
  proof (cases "slot < ?stop \<and> \<not> cancelled k")
    case True
    then have "slot div chunk_length = i" using Cons.prems(1) by (intro div_nat_eqI) (simp_all add: algebra_simps)
    then have at: "name_at (et_chunks t ! i) slot = Some (as_bytes (search_name (the (table_row t slot))))"
      using name_at_row [OF assms(1), of slot] Cons.prems(1) by auto
    let ?m = "if name_hit accept t slot then builder_insert slot m else m"
    have ok: "builder_ok ?m" using Cons.prems(2) builder_insert_ok by simp
    have fin: "builder_finish ?m = builder_finish m \<union> {s \<in> {slot}. name_hit accept t s}"
      using Cons.prems(2) builder_insert_ok [of m slot] by auto
    have step: "scan_block accept cancelled (et_chunks t ! i) ?stop (slot # ss) k m =
        scan_block accept cancelled (et_chunks t ! i) ?stop ss (k + 1) ?m"
      using True at by (simp add: name_hit_def fine_def)
    have "\<forall>s \<in> set ss. s < et_length t \<and> i * chunk_length \<le> s" using Cons.prems(1) by simp
    from Cons.IH [OF this ok, of "k + 1"] show ?thesis
      unfolding step by (rule yields_mono) (use True fin in auto)
  qed (use Cons.prems assms(2) in auto)
qed simp

lemma scan_slots_Cons:
  assumes "slice_get cks (first div chunk_length) = Some block"
  shows "scan_slots accept cancelled cks (first # ss) k m =
    bind_outcome (scan_block accept cancelled block ((first div chunk_length + 1) * chunk_length) (first # ss) k m)
      (\<lambda>(rest, k', m'). scan_slots accept cancelled cks rest k' m')"
  using assms by (auto simp: Let_def bind_outcome_def split: option.splits sum.splits)

lemma scan_slots_ok:
  assumes "wf_table t" "\<forall>j. cancelled j \<longrightarrow> E query_cancelled"
  shows "sorted ss \<Longrightarrow> \<forall>s \<in> set ss. s < et_length t \<Longrightarrow> builder_ok m \<Longrightarrow>
    yields (scan_slots accept cancelled (et_chunks t) ss k m) E
      (\<lambda>A. A = builder_finish m \<union> {s \<in> set ss. name_hit accept t s})"
proof (induction "length ss" arbitrary: ss k m rule: less_induct)
  case less
  show ?case
  proof (cases ss)
    case (Cons first rest)
    let ?i = "first div chunk_length" and ?stop = "(first div chunk_length + 1) * chunk_length"
    have i: "slice_get (et_chunks t) ?i = Some (et_chunks t ! ?i)"
      using block_index(1) [OF assms(1), of first] less.prems(2) Cons by (simp add: slice_get_def)
    have first: "?i * chunk_length \<le> first" "first < ?stop"
      using div_times_less_eq_dividend [of first chunk_length] dividend_less_div_times [of chunk_length first]
      by (simp_all add: algebra_simps)
    then have "\<forall>s \<in> set ss. s < et_length t \<and> ?i * chunk_length \<le> s"
      using less.prems(1,2) Cons order_trans [OF first(1)] by auto
    note blk = scan_block_ok [where E = E and cancelled = cancelled and i = "first div chunk_length", OF assms this less.prems(3), of accept k]
    let ?rest = "dropWhile (\<lambda>s. s < ?stop) ss"
    have short: "length ?rest < length ss" using Cons first(2) length_dropWhile_le [of "\<lambda>s. s < ?stop" rest] by simp
    have rest: "sorted ?rest" "\<forall>s \<in> set ?rest. s < et_length t"
      using less.prems(1,2) by (auto intro: sorted_dropWhile dest: set_dropWhileD)
    have all: "set ss = set (takeWhile (\<lambda>s. s < ?stop) ss) \<union> set ?rest" by (metis set_append takeWhile_dropWhile_id)
    show ?thesis
      unfolding Cons scan_slots_Cons [OF i] unfolding Cons [symmetric]
    proof (rule yields_bind [OF blk], clarify)
      fix k' m'
      assume m': "builder_ok m'"
        "builder_finish m' = builder_finish m \<union> {s \<in> set (takeWhile (\<lambda>s. s < ?stop) ss). name_hit accept t s}"
      show "yields (scan_slots accept cancelled (et_chunks t) ?rest k' m') E
          (\<lambda>A. A = builder_finish m \<union> {s \<in> set ss. name_hit accept t s})"
        by (rule yields_mono [OF less.hyps [OF short rest m'(1), of k']]) (use m'(2) all in auto)
    qed
  qed (use less.prems in simp)
qed

section \<open>Partitions cover the candidates\<close>

lemma collect_options_all: "\<forall>x \<in> set xs. x \<noteq> None \<Longrightarrow> collect_options xs = Some (map the xs)"
  by (induction xs) auto

lemma boundaries_ok:
  assumes "finite candidates" "card candidates \<le> 2 ^ 32" "0 < workers" "workers \<le> card candidates"
  shows "boundaries candidates workers =
    Some (map (\<lambda>w. sorted_list_of_set candidates ! (card candidates * w div workers)) [0..<workers])"
proof -
  have less: "card candidates * w div workers < card candidates" if "w < workers" for w
    using that assms(3,4) by (simp add: div_less_iff_less_mult mult.commute)
  have "card candidates * w div workers < 2 ^ 32" if "w < workers" for w
    using less [OF that] assms(2) by (rule less_le_trans)
  then have "select_slot candidates (card candidates * w div workers mod 2 ^ 32) =
      Some (sorted_list_of_set candidates ! (card candidates * w div workers))" if "w < workers" for w
    using that less [OF that] by (simp add: select_slot_def slice_get_def)
  then have "map (\<lambda>w. select_slot candidates (card candidates * w div workers mod 2 ^ 32)) [0..<workers] =
      map Some (map (\<lambda>w. sorted_list_of_set candidates ! (card candidates * w div workers)) [0..<workers])"
    by simp
  then show ?thesis unfolding boundaries_def by (simp add: collect_options_all comp_def)
qed

lemma partitions_cover:
  assumes "finite candidates" "0 < workers" "workers \<le> card candidates"
    "bs = map (\<lambda>w. sorted_list_of_set candidates ! (card candidates * w div workers)) [0..<workers]"
  shows "(\<Union>w < workers. set (worker_slots candidates bs w)) = candidates"
proof
  show "(\<Union>w < workers. set (worker_slots candidates bs w)) \<subseteq> candidates" using assms(1) by (auto simp: worker_slots_def)
  show "candidates \<subseteq> (\<Union>w < workers. set (worker_slots candidates bs w))"
  proof
    fix s assume s: "s \<in> candidates"
    let ?below = "{w. w < workers \<and> bs ! w \<le> s}"
    have "sorted_list_of_set candidates ! 0 \<le> s"
      using s assms(1) sorted_nth_mono [OF sorted_sorted_list_of_set, of 0 _ candidates]
      by (metis in_set_conv_nth le0 set_sorted_list_of_set)
    then have "0 \<in> ?below" using assms(2,4) by simp
    then have ne: "?below \<noteq> {}" by blast
    define w where "w = Max ?below"
    have w: "w < workers" "bs ! w \<le> s" using Max_in [of ?below] ne by (auto simp: w_def)
    have "s < bs ! (w + 1)" if "w + 1 < length bs"
    proof (rule ccontr)
      assume "\<not> s < bs ! (w + 1)"
      then have "w + 1 \<in> ?below" using that assms(4) by simp
      then have "w + 1 \<le> w" unfolding w_def by (intro Max_ge) simp_all
      then show False by simp
    qed
    then show "s \<in> (\<Union>w < workers. set (worker_slots candidates bs w))"
      using w s assms(1) by (auto simp: worker_slots_def)
  qed
qed

lemma try_union_ok:
  "\<forall>i < length rs. yields (rs ! i) E (\<lambda>A. A = f i) \<Longrightarrow> yields (try_union rs) E (\<lambda>A. A = (\<Union>i < length rs. f i))"
proof (induction rs arbitrary: f)
  case (Cons r rs)
  have r: "yields r E (\<lambda>A. A = f 0)" using Cons.prems by auto
  have rs: "yields (try_union rs) E (\<lambda>A. A = (\<Union>i < length rs. f (Suc i)))" using Cons.prems by (intro Cons.IH) auto
  then have some: "r \<noteq> None" "try_union rs \<noteq> None" using r by (auto simp: yields_def split: option.splits)
  have "(\<Union>i < length (r # rs). f i) = f 0 \<union> (\<Union>i < length rs. f (Suc i))" by (auto simp: lessThan_Suc_eq_insert_0)
  moreover have "yields (bind_outcome r (\<lambda>a. bind_outcome (try_union rs) (\<lambda>b. Some (Inr (a \<union> b))))) E
      (\<lambda>A. A = f 0 \<union> (\<Union>i < length rs. f (Suc i)))"
    by (rule yields_bind [OF r], rule yields_bind [OF rs]) simp
  ultimately show ?case using some by simp
qed simp

lemma evaluate_slots_ok:
  assumes "wf_table t" "\<forall>j. cancelled j \<longrightarrow> E query_cancelled" "sorted ss" "\<forall>s \<in> set ss. s < et_length t"
  shows "yields (evaluate_slots cr t e ex ss cancelled) E (\<lambda>A. A = {s \<in> set ss. name_hit (accepts cr e ex) t s})"
  using scan_slots_ok [where E = E and cancelled = cancelled, OF assms(1-4), of empty_builder "accepts cr e ex" 0]
  by (simp add: evaluate_slots_def)

lemma name_evaluate_ok:
  assumes "wf_table t" "et_length t \<le> u32_max" "candidates \<subseteq> {..<et_length t}" "\<forall>w j. cancelled w j \<longrightarrow> E query_cancelled"
  shows "yields (name_evaluate cr t e ex candidates granted cancelled) E
    (\<lambda>A. A = {s \<in> candidates. name_hit (accepts cr e ex) t s})"
proof -
  have fin: "finite candidates" using assms(3) finite_subset by blast
  have "card candidates \<le> et_length t" using card_mono [OF _ assms(3)] by simp
  then have card: "card candidates \<le> 2 ^ 32" using assms(2) by (simp add: u32_max_def)
  have single: "yields (evaluate_slots cr t e ex (sorted_list_of_set candidates) (cancelled w)) E
      (\<lambda>A. A = {s \<in> candidates. name_hit (accepts cr e ex) t s})" for w
    using evaluate_slots_ok [OF assms(1), of "cancelled w" E "sorted_list_of_set candidates" cr e ex] assms(3,4) fin by auto
  have many: "yields (evaluate_partitioned cr t e ex candidates workers cancelled) E
      (\<lambda>A. A = {s \<in> candidates. name_hit (accepts cr e ex) t s})" for workers
  proof (cases "workers \<le> 1 \<or> candidates = {}")
    case False
    let ?n = "min workers (card candidates)"
    let ?bs = "map (\<lambda>w. sorted_list_of_set candidates ! (card candidates * w div ?n)) [0..<?n]"
    have n: "0 < ?n" "?n \<le> card candidates" using False fin by (simp_all add: card_gt_0_iff)
    let ?r = "\<lambda>w. evaluate_slots cr t e ex (worker_slots candidates ?bs w) (cancelled w)"
    have part: "yields (?r w) E (\<lambda>A. A = {s \<in> set (worker_slots candidates ?bs w). name_hit (accepts cr e ex) t s})" for w
    proof (rule evaluate_slots_ok [OF assms(1)])
      show "sorted (worker_slots candidates ?bs w)" unfolding worker_slots_def by (rule sorted_wrt_filter) simp
      show "\<forall>s \<in> set (worker_slots candidates ?bs w). s < et_length t" using assms(3) fin by (auto simp: worker_slots_def)
    qed (use assms(4) in blast)
    have "yields (try_union (map ?r [0..<?n])) E
        (\<lambda>A. A = (\<Union>w < length (map ?r [0..<?n]). {s \<in> set (worker_slots candidates ?bs w). name_hit (accepts cr e ex) t s}))"
      by (rule try_union_ok) (use part in simp)
    moreover have "(\<Union>w < length (map ?r [0..<?n]). {s \<in> set (worker_slots candidates ?bs w). name_hit (accepts cr e ex) t s})
        = {s \<in> candidates. name_hit (accepts cr e ex) t s}"
      using partitions_cover [OF fin n refl] by auto
    ultimately show ?thesis using False boundaries_ok [OF fin card n] by (simp add: evaluate_partitioned_def Let_def)
  qed (use single in \<open>simp add: evaluate_partitioned_def\<close>)
  show ?thesis using single many by (auto simp: name_evaluate_def Let_def split: option.splits)
qed

section \<open>The scan of paths is exact\<close>

fun mode_view :: "path_text_mode \<Rightarrow> file_entry \<Rightarrow> text_view" where
  "mode_view Search f = search_path f"
| "mode_view Folded f = folded_path f"
| "mode_view (Sensitive _) f = path f"

text \<open>What the states of the parent and the suffix decide.\<close>

definition view_hit :: "crates \<Rightarrow> str \<Rightarrow> path_text_mode \<Rightarrow> text_view \<Rightarrow> bool" where
  "view_hit cr needle mode v \<longleftrightarrow>
     parent_state cr needle mode (prefix v) = 2 \<or>
     parent_state cr needle mode (prefix v) = 1 \<and> suffix_matches cr needle mode (suffix v)"

definition states_ok :: "crates \<Rightarrow> str \<Rightarrow> path_text_mode \<Rightarrow> str \<Rightarrow> (text_ref \<rightharpoonup> nat) \<Rightarrow> bool" where
  "states_ok cr needle mode arena states \<longleftrightarrow>
     (\<forall>r st. states r = Some st \<longrightarrow> (\<exists>x. text_at arena r = Some x \<and> st = parent_state cr needle mode x))"

lemma states_okD:
  "states_ok cr needle mode arena states \<Longrightarrow> states r = Some st \<Longrightarrow> text_at arena r = Some x \<Longrightarrow>
     st = parent_state cr needle mode x"
  unfolding states_ok_def by (metis option.inject)

lemma parent_entry_ok:
  "states_ok cr needle mode arena parents \<Longrightarrow> text_at arena r = Some x \<Longrightarrow>
     \<exists>parents'. parent_entry cr needle mode arena r parents = Some (parent_state cr needle mode x, parents') \<and>
       states_ok cr needle mode arena parents'"
  using states_okD [of cr needle mode arena parents r _ x]
  by (cases "parents r") (auto simp: parent_entry_def states_ok_def)

lemma chunk_mode_view:
  "chunk_view c i = Some f \<Longrightarrow>
     \<exists>r. slice_get (column_values (mode_column mode c)) i = Some r \<and>
       text_at (ch_text c) (pr_prefix r) = Some (prefix (mode_view mode f)) \<and>
       text_at (ch_text c) (pr_suffix r) = Some (suffix (mode_view mode f))"
  by (cases mode) (auto simp: chunk_view_def path_read_def path_at_def split: bind_splits)

lemma path_scan_ok:
  "\<forall>s \<in> set ss. \<exists>f. chunk_view block (s - low) = Some f \<and> g s = mode_view mode f \<Longrightarrow>
     states_ok cr needle mode (ch_text block) parents \<Longrightarrow>
     states_ok cr needle mode (ch_text block) (case previous of None \<Rightarrow> Map.empty | Some (p, st) \<Rightarrow> [p \<mapsto> st]) \<Longrightarrow>
     builder_ok result \<Longrightarrow>
     \<exists>result'. path_scan cr needle mode block low ss parents previous result = Some result' \<and> builder_ok result' \<and>
       builder_finish result' = builder_finish result \<union> {s \<in> set ss. view_hit cr needle mode (g s)}"
proof (induction ss arbitrary: parents previous result)
  case (Cons slot ss)
  from Cons.prems(1) obtain f where f: "chunk_view block (slot - low) = Some f" "g slot = mode_view mode f" by auto
  obtain r where r: "slice_get (column_values (mode_column mode block)) (slot - low) = Some r"
      "text_at (ch_text block) (pr_prefix r) = Some (prefix (g slot))"
      "text_at (ch_text block) (pr_suffix r) = Some (suffix (g slot))"
    using chunk_mode_view [OF f(1)] f(2) by metis
  let ?state = "parent_state cr needle mode (prefix (g slot))"
  let ?lookup = "case previous of
      Some (p, state) \<Rightarrow> if p = pr_prefix r then Some (state, parents)
        else parent_entry cr needle mode (ch_text block) (pr_prefix r) parents
    | None \<Rightarrow> parent_entry cr needle mode (ch_text block) (pr_prefix r) parents"
  obtain parents' where look: "?lookup = Some (?state, parents')" "states_ok cr needle mode (ch_text block) parents'"
  proof (cases "\<exists>st. previous = Some (pr_prefix r, st)")
    case True
    then obtain st where st: "previous = Some (pr_prefix r, st)" by blast
    then have "st = ?state" using states_okD [OF Cons.prems(3) _ r(2)] by simp
    then show ?thesis using that [of parents] st Cons.prems(2) by simp
  next
    case False
    then have "?lookup = parent_entry cr needle mode (ch_text block) (pr_prefix r) parents"
      by (auto split: option.splits)
    then show ?thesis using that parent_entry_ok [OF Cons.prems(2) r(2)] by metis
  qed
  let ?result = "if view_hit cr needle mode (g slot) then builder_insert slot result else result"
  have ok: "builder_ok ?result" using Cons.prems(4) builder_insert_ok by simp
  have fin: "builder_finish ?result = builder_finish result \<union> {s \<in> {slot}. view_hit cr needle mode (g s)}"
    using Cons.prems(4) builder_insert_ok [of result slot] by auto
  have prev: "states_ok cr needle mode (ch_text block)
      (case Some (pr_prefix r, ?state) of None \<Rightarrow> Map.empty | Some (p, st) \<Rightarrow> [p \<mapsto> st])"
    using r(2) by (simp add: states_ok_def)
  have "(if ?state = 2 then Some True
      else if ?state = 1 then map_option (suffix_matches cr needle mode) (text_at (ch_text block) (pr_suffix r))
      else Some False) = Some (view_hit cr needle mode (g slot))"
    using r(3) by (simp add: view_hit_def)
  then have "path_scan cr needle mode block low (slot # ss) parents previous result =
      path_scan cr needle mode block low ss parents' (Some (pr_prefix r, ?state)) ?result"
    using r(1) look(1) by simp
  moreover have "\<forall>s \<in> set ss. \<exists>f. chunk_view block (s - low) = Some f \<and> g s = mode_view mode f"
    using Cons.prems(1) by simp
  ultimately show ?case using Cons.IH [OF _ look(2) prev ok] fin by auto
qed simp

lemma block_slots:
  assumes "wf_table t" "i < length (et_chunks t)" "live \<subseteq> {..<et_length t}"
  shows "live \<inter> {i * chunk_length..<i * chunk_length + chunk_len (et_chunks t ! i)} = {s \<in> live. s div chunk_length = i}"
proof -
  have "chunk_len (et_chunks t ! i) = block_rows (et_length t) i"
    using assms(1,2) wf_chunk_len by (simp add: wf_table_def)
  moreover have "s div chunk_length = i \<longleftrightarrow> i * chunk_length \<le> s \<and> s < i * chunk_length + chunk_length" for s
    by (metis add.commute chunk_length_pos div_nat_eqI div_times_less_eq_dividend dividend_less_div_times mult.commute mult_Suc)
  ultimately show ?thesis using assms(3) by (auto simp: block_rows_def min_def mult.commute split: if_splits)
qed

lemma path_blocks_ok:
  assumes "wf_table t" "live \<subseteq> {..<et_length t}" "\<forall>j. cancelled j \<longrightarrow> E query_cancelled"
  shows "et_chunks t = before @ bks \<Longrightarrow> builder_ok result \<Longrightarrow>
    yields (path_blocks cr needle mode live cancelled (length before) bks result) E
      (\<lambda>A. A = builder_finish result \<union>
        {s \<in> live. length before \<le> s div chunk_length \<and> view_hit cr needle mode (mode_view mode (the (table_row t s)))})"
proof (induction bks arbitrary: before result)
  case Nil
  have "\<not> length before \<le> s div chunk_length" if "s \<in> live" for s
    using block_index(1) [OF assms(1), of s] that assms(2) Nil by auto
  then show ?case by auto
next
  case (Cons block bks)
  let ?i = "length before" and ?g = "\<lambda>s. mode_view mode (the (table_row t s))"
  show ?case
  proof (cases "cancelled ?i")
    case False
    have block: "et_chunks t ! ?i = block" "?i < length (et_chunks t)" using Cons.prems(1) by simp_all
    let ?here = "{s \<in> live. s div chunk_length = ?i}"
    have eq: "live \<inter> {?i * chunk_length..<?i * chunk_length + chunk_len block} = ?here"
      using block_slots [OF assms(1) block(2) assms(2)] block(1) by simp
    have "finite ?here" using assms(2) finite_subset by fastforce
    then have set: "set (sorted_list_of_set ?here) = ?here" by simp
    have views: "\<exists>f. chunk_view block (s - ?i * chunk_length) = Some f \<and> ?g s = mode_view mode f" if "s \<in> ?here" for s
    proof -
      have s: "s < et_length t" using that assms(2) by auto
      have "s - ?i * chunk_length = s mod chunk_length" using that minus_div_mult_eq_mod [of s chunk_length] by simp
      then show ?thesis using table_row_at [OF assms(1) s] table_row_Some [OF assms(1) s] that block(1) by auto
    qed
    then obtain result' where r: "path_scan cr needle mode block (?i * chunk_length) (sorted_list_of_set ?here) Map.empty None result = Some result'"
        "builder_ok result'" "builder_finish result' = builder_finish result \<union> {s \<in> ?here. view_hit cr needle mode (?g s)}"
      using path_scan_ok [of "sorted_list_of_set ?here" block "?i * chunk_length" ?g mode cr needle Map.empty None result]
        Cons.prems(2) set by (auto simp: states_ok_def)
    have "path_blocks cr needle mode live cancelled ?i (block # bks) result =
        path_blocks cr needle mode live cancelled (length (before @ [block])) bks result'"
      using False r(1) eq by (simp add: Let_def fine_def)
    moreover have "yields (path_blocks cr needle mode live cancelled (length (before @ [block])) bks result') E
      (\<lambda>A. A = builder_finish result' \<union>
        {s \<in> live. length (before @ [block]) \<le> s div chunk_length \<and> view_hit cr needle mode (?g s)})"
      using Cons.IH [of "before @ [block]" result'] Cons.prems(1) r(2) by simp
    moreover have "{s \<in> live. ?i \<le> s div chunk_length \<and> view_hit cr needle mode (?g s)} =
        {s \<in> ?here. view_hit cr needle mode (?g s)} \<union>
        {s \<in> live. length (before @ [block]) \<le> s div chunk_length \<and> view_hit cr needle mode (?g s)}"
      by auto
    ultimately show ?thesis using r(3) by (simp add: Un_assoc)
  qed (use assms(3) in auto)
qed

text \<open>
  Texts and their normal forms in two pieces. What the code relies on of Unicode normalisation: a slash is a
  boundary that no composition or decomposition crosses, and no other character turns into one.
\<close>

definition separator_law :: "(str \<Rightarrow> str) \<Rightarrow> bool" where
  "separator_law g \<longleftrightarrow> g [] = [] \<and> (\<forall>a b. g (a @ slash # b) = g a @ slash # g b) \<and>
     (\<forall>s. slash \<notin> set s \<longrightarrow> slash \<notin> set (g s))"

definition path_laws :: "crates \<Rightarrow> bool" where
  "path_laws cr \<longleftrightarrow> normalization_laws cr \<and> (\<forall>s. is_ascii s \<longrightarrow> c_nfc cr s = s) \<and>
     separator_law (c_nfc cr) \<and> separator_law (c_nfd cr)"

definition split_view :: "text_view \<Rightarrow> bool" where
  "split_view v \<longleftrightarrow> (prefix v = [] \<or> ends_with (prefix v) [slash]) \<and> slash \<notin> set (suffix v)"

definition mode_text :: "crates \<Rightarrow> path_text_mode \<Rightarrow> file_entry \<Rightarrow> str" where
  "mode_text cr mode f = mode_normalize cr mode (view_text (mode_view mode f))"

lemma separator_law_id: "separator_law (\<lambda>s. s)"
  by (simp add: separator_law_def)

lemma separator_law_mode:
  assumes "path_laws cr"
  shows "separator_law (mode_normalize cr mode)"
proof (cases mode)
  case (Sensitive d)
  have mark: "\<not> c_combining_mark cr slash" using assms by (simp add: path_laws_def normalization_laws_def)
  have "separator_law (strip_marks cr)"
    using assms mark by (auto simp: path_laws_def separator_law_def strip_marks_def)
  moreover have "mode_normalize cr mode = (if d then c_nfc cr else strip_marks cr)"
    using assms strip_marks_ascii [of cr] by (auto simp: Sensitive path_laws_def fun_eq_iff)
  ultimately show ?thesis using assms by (simp add: path_laws_def)
qed (simp_all add: separator_law_def)

lemma split_pieces:
  assumes "separator_law g" "split_view v"
  shows "g (prefix v) = [] \<or> ends_with (g (prefix v)) [slash]" "slash \<notin> set (g (suffix v))"
    "g (view_text v) = g (prefix v) @ g (suffix v)"
proof -
  have "prefix v = [] \<or> (\<exists>a. prefix v = a @ [slash])" using assms(2) by (auto simp: split_view_def ends_with_iff)
  then show "g (prefix v) = [] \<or> ends_with (g (prefix v)) [slash]" "g (view_text v) = g (prefix v) @ g (suffix v)"
    using assms(1) unfolding separator_law_def view_text_def ends_with_iff by auto
  show "slash \<notin> set (g (suffix v))" using assms by (auto simp: separator_law_def split_view_def)
qed

lemma slash_in_bytes: "slash \<in> set (as_bytes s) \<longleftrightarrow> slash \<in> set s"
proof (induction s)
  case (Cons c s)
  have "slash \<in> set (utf8_char c) \<longleftrightarrow> c = slash" by (auto simp: utf8_char_def)
  then show ?case using Cons by (auto simp: as_bytes_Cons)
qed simp

lemma pieces_occur:
  assumes "p = [] \<or> ends_with p [slash]" "slash \<notin> set s"
  shows "occurs n (p @ s) \<longleftrightarrow> occurs n p \<or>
    (case rposition (\<lambda>b. b = slash) n of None \<Rightarrow> occurs n s
     | Some i \<Rightarrow> ends_with p (take (i + 1) n) \<and> starts_with s (drop (i + 1) n))"
proof (cases "rposition (\<lambda>b. b = slash) n")
  case None
  have "\<not> (\<exists>u v. n = u @ v \<and> u \<noteq> [] \<and> v \<noteq> [] \<and> ends_with p u \<and> starts_with s v)"
    using assms separator_split [of p s n] None by (auto simp: ends_with_def)
  then show ?thesis unfolding occurs_append_iff None option.case by blast
next
  case (Some i)
  then have i: "i < length n" "n ! i = slash" by (simp_all add: rposition_Some)
  then have "slash \<in> set n" by (metis nth_mem)
  then have s: "\<not> occurs n s" using assms(2) by (auto simp: occurs_def)
  have u: "take (i + 1) n \<noteq> []" using i by (cases n) simp_all
  have split: "(\<exists>u v. n = u @ v \<and> u \<noteq> [] \<and> v \<noteq> [] \<and> ends_with p u \<and> starts_with s v) \<longleftrightarrow>
      i + 1 < length n \<and> ends_with p (take (i + 1) n) \<and> starts_with s (drop (i + 1) n)"
    using assms separator_split [of p s n] Some u by (auto simp: ends_with_def)
  have "occurs n p" if "\<not> i + 1 < length n" "ends_with p (take (i + 1) n)"
  proof -
    have "take (i + 1) n = n" using that(1) i(1) by simp
    then show ?thesis using that(2) by (auto simp: ends_with_iff occurs_def) (metis append_Nil2)
  qed
  then show ?thesis using Some s split by (auto simp: occurs_append_iff)
qed

lemma view_hit_occurs:
  assumes "finder (c_find cr)" "path_laws cr" "split_view v"
  shows "view_hit cr needle mode v \<longleftrightarrow> occurs (as_bytes needle) (as_bytes (mode_normalize cr mode (view_text v)))"
proof -
  let ?g = "mode_normalize cr mode" and ?n = "as_bytes needle"
  note sp = split_pieces [OF separator_law_mode [OF assms(2), of mode] assms(3)]
  have p: "as_bytes (?g (prefix v)) = [] \<or> ends_with (as_bytes (?g (prefix v))) [slash]"
    using sp(1) ends_with_slash_bytes by auto
  have s: "slash \<notin> set (as_bytes (?g (suffix v)))" using sp(2) by (simp add: slash_in_bytes)
  show ?thesis
    using pieces_occur [OF p s, of ?n] finder.find_is_some [OF assms(1)]
    by (auto simp: view_hit_def parent_state_def suffix_matches_def sp(3) Let_def split: option.splits)
qed

lemma plain_matcher:
  assumes "finder (c_find cr)" "\<not> o_prefix (m_options m)" "\<not> o_suffix (m_options m)" "\<not> o_whole (m_options m)"
    "\<not> o_start (m_options m)" "\<not> o_end (m_options m)"
  shows "matches_normalized cr m s \<longleftrightarrow> occurs (as_bytes (m_needle m)) (as_bytes s)"
  using assms(2-6) matches_normalized_spec [OF assms(1), of m s] unfolding occurs_as_bytes
  by (simp add: boundary_ok_def occurs_def)

lemma path_substring_matches:
  assumes "finder (c_find cr)" "path_substring q = Some (needle, mode)"
  shows "matches_inner cr f content q = Inr (occurs (as_bytes needle) (as_bytes (mode_text cr mode f)))"
  using assms(2)
proof (induction q rule: path_substring.induct)
  case (1 needle' sensitive)
  show ?case
  proof (cases sensitive)
    case True
    then show ?thesis using 1 finder.find_is_some [OF assms(1)]
      by (auto simp: inner_term_def with_str_text mode_text_def)
  next
    case False
    then show ?thesis using 1 finder.view_contains_text [OF assms(1)] by (simp add: inner_term_def mode_text_def)
  qed
next
  case (2 m)
  let ?o = "m_options m"
  have m: "m_regex m = None" "\<not> o_prefix ?o" "\<not> o_suffix ?o" "\<not> o_whole ?o" "\<not> o_start ?o" "\<not> o_end ?o"
    and needle: "needle = m_needle m"
    and mode: "mode = (if o_sensitive ?o then Sensitive (o_diacritics ?o) else if o_diacritics ?o then Folded else Search)"
    using 2 by (auto simp: Let_def split: if_splits)
  note plain = plain_matcher [OF assms(1) m(2-6)]
  show ?case
  proof (cases "o_sensitive ?o")
    case True
    then show ?thesis using m(1) mode needle plain
      by (auto simp: inner_term_def matches_file_def matcher_matches_def with_str_text mode_text_def normalized_def)
  next
    case False
    then show ?thesis using m(1) mode needle plain
      by (cases "o_diacritics ?o") (auto simp: inner_term_def matches_file_def with_str_text mode_text_def)
  qed
qed simp_all

lemma name_evaluate_query:
  assumes "finder (c_find cr)" "wf_table t" "et_length t \<le> u32_max" "candidates \<subseteq> {..<et_length t}"
    "compile q = Some e" "compile_all exclusions = Some ex" "\<forall>w j. cancelled w j \<longrightarrow> E query_cancelled"
  shows "yields (name_evaluate cr t e ex candidates granted cancelled) E
    (\<lambda>A. A = {s \<in> candidates. matches_inner cr (the (table_row t s)) content q = Inr True \<and>
      (\<forall>x \<in> set exclusions. matches_inner cr (the (table_row t s)) content x = Inr False)})"
proof -
  have excluded: "list_ex (name_matches cr (as_bytes (search_name f))) ex \<longleftrightarrow>
      \<not> (\<forall>x \<in> set exclusions. matches_inner cr f content x = Inr False)" for f
  proof -
    have "map (matches_inner cr f content) exclusions = map (\<lambda>e. Inr (name_matches cr (as_bytes (search_name f)) e)) ex"
      by (rule compile_all_known [OF _ assms(6)]) (rule compile_matches [OF assms(1)])
    then have "set (map (matches_inner cr f content) exclusions) = set (map (\<lambda>e. Inr (name_matches cr (as_bytes (search_name f)) e)) ex)"
      by simp
    then have eq: "matches_inner cr f content ` set exclusions = (\<lambda>e. Inr (name_matches cr (as_bytes (search_name f)) e)) ` set ex"
      by simp
    have "(\<forall>x \<in> set exclusions. matches_inner cr f content x = Inr False) \<longleftrightarrow>
        (\<forall>y \<in> matches_inner cr f content ` set exclusions. y = Inr False)" by simp
    then show ?thesis unfolding eq by (simp add: list_ex_iff)
  qed
  from name_evaluate_ok [where E = E and cancelled = cancelled, OF assms(2-4,7), of cr e ex granted] show ?thesis
    by (simp add: name_hit_def accepts_def compile_matches [OF assms(1,5), of _ content] excluded)
qed

lemma match_paths_query:
  assumes "finder (c_find cr)" "path_laws cr" "wf_table t" "live \<subseteq> {..<et_length t}"
    "path_substring q = Some (needle, mode)" "\<forall>s \<in> live. split_view (mode_view mode (the (table_row t s)))"
    "\<forall>j. cancelled j \<longrightarrow> E query_cancelled"
  shows "yields (match_paths cr t needle mode live cancelled) E
    (\<lambda>A. A = {s \<in> live. matches_inner cr (the (table_row t s)) content q = Inr True})"
proof -
  from path_blocks_ok [where E = E and cancelled = cancelled, OF assms(3,4,7), of "[]" "et_chunks t" empty_builder cr needle mode]
  have "yields (match_paths cr t needle mode live cancelled) E
      (\<lambda>A. A = {s \<in> live. view_hit cr needle mode (mode_view mode (the (table_row t s)))})"
    by (simp add: match_paths_def)
  moreover have "{s \<in> live. view_hit cr needle mode (mode_view mode (the (table_row t s)))} =
      {s \<in> live. matches_inner cr (the (table_row t s)) content q = Inr True}"
    using view_hit_occurs [OF assms(1,2)] path_substring_matches [OF assms(1,5), of _ content] assms(6)
    by (auto simp: mode_text_def)
  ultimately show ?thesis by simp
qed

end
