(* ===== verification/File_Slots.thy ===== *)
theory File_Slots
  imports Entry_Table Outcome
begin

text \<open>
  The lookup of rows by their persistent number, \<open>FileSlots\<close> of \<open>core/src/index_store.rs\<close>: as long as rows arrive
  in ascending order of their numbers, the table itself is searched; rows after that are kept in a map.
\<close>

section \<open>Operations\<close>

record file_slots =
  fs_prefix :: nat
  fs_exceptions :: "int \<rightharpoonup> nat"

definition empty_file_slots :: file_slots where
  "empty_file_slots = \<lparr>fs_prefix = 0, fs_exceptions = Map.empty\<rparr>"

text \<open>\<open>entries.at(slot).id()\<close>, which panics out of range.\<close>

definition table_id :: "entry_table \<Rightarrow> nat \<Rightarrow> int option" where
  "table_id t slot = Option.bind (table_get t slot) (\<lambda>(c, i). integer_get I64 (ch_id c) i)"

function slots_search :: "entry_table \<Rightarrow> int \<Rightarrow> nat \<Rightarrow> nat \<Rightarrow> nat option option" where
  "slots_search t key lower upper =
     (if lower < upper
      then let middle = lower + (upper - lower) div 2 in
        case table_id t middle of
          None \<Rightarrow> None
        | Some found \<Rightarrow>
            if found < key then slots_search t key (middle + 1) upper
            else if key < found then slots_search t key lower middle
            else Some (Some middle)
      else Some None)"
  by pat_completeness auto
termination by (relation "measure (\<lambda>(_, _, lower, upper). upper - lower)") auto

declare slots_search.simps [simp del]

definition slots_get :: "file_slots \<Rightarrow> entry_table \<Rightarrow> int \<Rightarrow> nat option option" where
  "slots_get fs t key =
     (case slots_search t key 0 (fs_prefix fs) of
        None \<Rightarrow> None
      | Some (Some slot) \<Rightarrow> Some (Some slot)
      | Some None \<Rightarrow> Some (fs_exceptions fs key))"

definition slots_append_at :: "int \<Rightarrow> entry_table \<Rightarrow> nat \<Rightarrow> file_slots \<Rightarrow> (nat \<times> file_slots) outcome" where
  "slots_append_at key t len fs =
     (if u32_max < len then Some (Inl ''snapshot_slot_overflow'')
      else bind_outcome
        (if fs_prefix fs = len
         then (if len = 0 then Some (Inr True) else fine (map_option (\<lambda>last. last < key) (table_id t (len - 1))))
         else Some (Inr False))
        (\<lambda>ascending.
          if ascending then Some (Inr (len, fs\<lparr>fs_prefix := fs_prefix fs + 1\<rparr>))
          else bind_outcome (fine (slots_get fs t key)) (\<lambda>known.
            if known \<noteq> None then Some (Inl ''duplicate_persistent_file_id'')
            else Some (Inr (len, fs\<lparr>fs_exceptions := (fs_exceptions fs)(key \<mapsto> len)\<rparr>)))))"

definition slots_append :: "int \<Rightarrow> entry_table \<Rightarrow> file_slots \<Rightarrow> (nat \<times> file_slots) outcome" where
  "slots_append key t fs = slots_append_at key t (et_length t) fs"

fun slots_rows :: "entry_table \<Rightarrow> (entry_chunk \<times> nat) list \<Rightarrow> nat \<Rightarrow> file_slots \<Rightarrow> file_slots outcome" where
  "slots_rows t [] slot fs = Some (Inr fs)"
| "slots_rows t ((c, i) # rows) slot fs =
     bind_outcome (fine (integer_get I64 (ch_id c) i)) (\<lambda>key.
       bind_outcome (slots_append_at key t slot fs) (\<lambda>(_, fs'). slots_rows t rows (slot + 1) fs'))"

definition slots_from_entries :: "entry_table \<Rightarrow> file_slots outcome" where
  "slots_from_entries t = slots_rows t (table_iter t) 0 empty_file_slots"

section \<open>The rows that are registered\<close>

definition slot_id :: "entry_table \<Rightarrow> nat \<Rightarrow> int" where
  "slot_id t slot = id (the (table_row t slot))"

lemma table_id_row: "wf_table t \<Longrightarrow> slot < et_length t \<Longrightarrow> table_id t slot = Some (slot_id t slot)"
  using table_row_Some [of t slot]
  by (auto simp: slot_id_def table_id_def table_row_def chunk_view_def split: bind_splits)

text \<open>The first \<open>n\<close> slots are registered, each under the number of its row.\<close>

definition slots_ok :: "file_slots \<Rightarrow> entry_table \<Rightarrow> nat \<Rightarrow> bool" where
  "slots_ok fs t n \<longleftrightarrow>
     fs_prefix fs \<le> n \<and>
     (\<forall>a b. a < b \<and> b < fs_prefix fs \<longrightarrow> slot_id t a < slot_id t b) \<and>
     (\<forall>key slot. fs_exceptions fs key = Some slot \<longleftrightarrow> fs_prefix fs \<le> slot \<and> slot < n \<and> slot_id t slot = key) \<and>
     inj_on (slot_id t) {..<n}"

lemma slots_search_ok:
  assumes "wf_table t" "\<forall>a b. a < b \<and> b < p \<longrightarrow> slot_id t a < slot_id t b" "p \<le> et_length t"
  shows "upper \<le> p \<Longrightarrow> \<forall>s < p. slot_id t s = key \<longrightarrow> lower \<le> s \<and> s < upper \<Longrightarrow>
    \<exists>r. slots_search t key lower upper = Some r \<and>
      (case r of Some s \<Rightarrow> s < p \<and> slot_id t s = key | None \<Rightarrow> \<forall>s < p. slot_id t s \<noteq> key)"
proof (induction "upper - lower" arbitrary: lower upper rule: less_induct)
  case less
  show ?case
  proof (cases "lower < upper")
    case False
    then have "\<forall>s < p. slot_id t s \<noteq> key" using less.prems by auto
    then show ?thesis using False by (simp add: slots_search.simps [of t key lower upper])
  next
    case True
    let ?m = "lower + (upper - lower) div 2"
    have m: "lower \<le> ?m" "?m < upper" using True by auto
    then have mp: "?m < p" using less.prems(1) by simp
    then have id: "table_id t ?m = Some (slot_id t ?m)" using table_id_row [OF assms(1)] assms(3) by simp
    have unfold: "slots_search t key lower upper =
        (if slot_id t ?m < key then slots_search t key (?m + 1) upper
         else if key < slot_id t ?m then slots_search t key lower ?m else Some (Some ?m))"
      using True id by (simp add: slots_search.simps [of t key lower upper] Let_def)
    have mono: "a \<le> b \<Longrightarrow> b < p \<Longrightarrow> slot_id t a \<le> slot_id t b" for a b
      using assms(2) by (cases "a = b") (auto simp: order_le_less)
    consider (low) "slot_id t ?m < key" | (high) "key < slot_id t ?m" | (hit) "slot_id t ?m = key" by linarith
    then show ?thesis
    proof cases
      case low
      have "\<forall>s < p. slot_id t s = key \<longrightarrow> ?m + 1 \<le> s \<and> s < upper"
        using less.prems(2) mono mp low by (metis Suc_eq_plus1 linorder_not_less not_less_eq_eq)
      moreover have "upper - (?m + 1) < upper - lower" using m by linarith
      ultimately show ?thesis using less.hyps [of upper "?m + 1"] less.prems(1) low unfold by simp
    next
      case high
      have "\<forall>s < p. slot_id t s = key \<longrightarrow> lower \<le> s \<and> s < ?m"
        using less.prems(2) mono high by (metis linorder_not_less)
      moreover have "?m - lower < upper - lower" "?m \<le> p" using m less.prems(1) by linarith+
      ultimately show ?thesis using less.hyps [of ?m lower] high unfold by simp
    qed (use unfold mp in simp)
  qed
qed

lemma slots_get_ok:
  assumes "wf_table t" "slots_ok fs t n" "n \<le> et_length t"
  shows "\<exists>r. slots_get fs t key = Some r \<and> (\<forall>slot. r = Some slot \<longleftrightarrow> slot < n \<and> slot_id t slot = key)"
proof -
  let ?p = "fs_prefix fs"
  have p: "?p \<le> n" "\<forall>a b. a < b \<and> b < ?p \<longrightarrow> slot_id t a < slot_id t b"
    and exc: "\<And>key slot. fs_exceptions fs key = Some slot \<longleftrightarrow> ?p \<le> slot \<and> slot < n \<and> slot_id t slot = key"
    and inj: "inj_on (slot_id t) {..<n}"
    using assms(2) by (simp_all add: slots_ok_def)
  obtain r where r: "slots_search t key 0 ?p = Some r"
    "case r of Some s \<Rightarrow> s < ?p \<and> slot_id t s = key | None \<Rightarrow> \<forall>s < ?p. slot_id t s \<noteq> key"
    using slots_search_ok [OF assms(1) p(2), of ?p key 0] p(1) assms(3) by auto
  show ?thesis
  proof (cases r)
    case None
    then have "slots_get fs t key = Some (fs_exceptions fs key)" using r(1) by (simp add: slots_get_def)
    moreover have "fs_exceptions fs key = Some slot \<longleftrightarrow> slot < n \<and> slot_id t slot = key" for slot
      using exc [of key slot] r(2) None by (auto simp: not_less)
    ultimately show ?thesis by blast
  next
    case (Some s)
    then have "slots_get fs t key = Some (Some s)" using r(1) by (simp add: slots_get_def)
    moreover have "Some s = Some slot \<longleftrightarrow> slot < n \<and> slot_id t slot = key" for slot
      using r(2) Some p(1) inj by (auto simp: inj_on_def)
    ultimately show ?thesis by blast
  qed
qed

lemma slots_append_ok:
  assumes "wf_table t" "slots_ok fs t n" "n \<le> et_length t" "n \<le> u32_max" "\<forall>s < n. slot_id t s \<noteq> key"
    "\<forall>s < n. slot_id t' s = slot_id t s" "slot_id t' n = key"
  shows "\<exists>fs'. slots_append_at key t n fs = Some (Inr (n, fs')) \<and> slots_ok fs' t' (Suc n)"
proof -
  let ?p = "fs_prefix fs"
  have p: "?p \<le> n" "\<forall>a b. a < b \<and> b < ?p \<longrightarrow> slot_id t a < slot_id t b"
    and exc: "\<And>key slot. fs_exceptions fs key = Some slot \<longleftrightarrow> ?p \<le> slot \<and> slot < n \<and> slot_id t slot = key"
    and inj: "inj_on (slot_id t) {..<n}"
    using assms(2) by (simp_all add: slots_ok_def)
  have inj': "inj_on (slot_id t') {..<Suc n}"
  proof (rule inj_onI)
    fix a b assume ab: "a \<in> {..<Suc n}" "b \<in> {..<Suc n}" "slot_id t' a = slot_id t' b"
    have old: "slot_id t' s = slot_id t s" "slot_id t' s \<noteq> key" if "s < n" for s using that assms(5,6) by simp_all
    consider "a < n" "b < n" | "a = n" "b = n" | "a < n" "b = n" | "a = n" "b < n" using ab(1,2) by fastforce
    then show "a = b"
    proof cases
      case 1
      then show ?thesis using ab(3) old(1) inj by (simp add: inj_on_def)
    qed (use ab(3) old(2) assms(7) in auto)
  qed
  have get: "slots_get fs t key = Some None"
    using slots_get_ok [OF assms(1-3), of key] assms(5) by (metis not_None_eq)
  let ?asc = "?p = n \<and> (n = 0 \<or> slot_id t (n - 1) < key)"
  have last: "n \<noteq> 0 \<Longrightarrow> table_id t (n - 1) = Some (slot_id t (n - 1))" using table_id_row [OF assms(1)] assms(3) by simp
  show ?thesis
  proof (cases ?asc)
    case True
    let ?fs = "fs\<lparr>fs_prefix := ?p + 1\<rparr>"
    have "slots_append_at key t n fs = Some (Inr (n, ?fs))"
      using True last assms(4) by (auto simp: slots_append_at_def fine_def)
    moreover have "slot_id t' a < slot_id t' b" if "a < b" "b < Suc n" for a b
    proof (cases "b = n")
      case b: True
      then have "slot_id t a \<le> slot_id t (n - 1)" using that(1) p(2) True by (cases "a = n - 1") (auto simp: less_imp_le)
      then show ?thesis using b that(1) True assms(6,7) by auto
    qed (use that p(2) True assms(6) in auto)
    moreover have "fs_exceptions fs k = Some s \<longleftrightarrow> Suc n \<le> s \<and> s < Suc n \<and> slot_id t' s = k" for k s
      using exc [of k s] True by auto
    ultimately show ?thesis using True inj' by (auto simp: slots_ok_def)
  next
    case False
    let ?fs = "fs\<lparr>fs_exceptions := (fs_exceptions fs)(key \<mapsto> n)\<rparr>"
    have "slots_append_at key t n fs = Some (Inr (n, ?fs))"
      using False last assms(4) get by (auto simp: slots_append_at_def fine_def)
    moreover have "(fs_exceptions ?fs) k = Some s \<longleftrightarrow> ?p \<le> s \<and> s < Suc n \<and> slot_id t' s = k" for k s
    proof (cases "s = n")
      case True
      have "fs_exceptions fs k \<noteq> Some n" using exc [of k n] by simp
      then show ?thesis using True p(1) assms(7) by auto
    next
      case False
      have "key \<noteq> k" if "s < n" "slot_id t s = k" using that assms(5) by blast
      then show ?thesis using False exc [of k s] exc [of key s] assms(5,6) by (auto simp: less_Suc_eq)
    qed
    moreover have "\<forall>a b. a < b \<and> b < ?p \<longrightarrow> slot_id t' a < slot_id t' b" using p assms(6) by auto
    ultimately show ?thesis using p(1) inj' by (auto simp: slots_ok_def)
  qed
qed

lemma slots_append_known:
  assumes "wf_table t" "slots_ok fs t n" "n \<le> et_length t" "n \<le> u32_max" "s < n" "slot_id t s = key"
  shows "slots_append_at key t n fs = Some (Inl ''duplicate_persistent_file_id'')"
proof -
  have p: "fs_prefix fs \<le> n" "\<forall>a b. a < b \<and> b < fs_prefix fs \<longrightarrow> slot_id t a < slot_id t b"
    using assms(2) by (simp_all add: slots_ok_def)
  obtain r where "slots_get fs t key = Some r" "r = Some s \<longleftrightarrow> s < n \<and> slot_id t s = key"
    using slots_get_ok [OF assms(1-3), of key] by meson
  then have "slots_get fs t key = Some (Some s)" using assms(5,6) by simp
  moreover have "\<not> (fs_prefix fs = n \<and> slot_id t (n - 1) < key)"
  proof
    assume a: "fs_prefix fs = n \<and> slot_id t (n - 1) < key"
    then have "slot_id t s \<le> slot_id t (n - 1)" using p(2) assms(5) by (cases "s = n - 1") (auto simp: less_imp_le)
    then show False using a assms(6) by simp
  qed
  moreover have "table_id t (n - 1) = Some (slot_id t (n - 1))" using table_id_row [OF assms(1)] assms(3,5) by simp
  ultimately show ?thesis using assms(4,5) by (auto simp: slots_append_at_def fine_def)
qed

lemma iter_length: "wf_table t \<Longrightarrow> length (table_iter t) = et_length t"
  using table_iter_rows by (metis length_map length_upt minus_nat.diff_0)

lemma iter_ids:
  assumes "wf_table t" "j < et_length t"
  shows "integer_get I64 (ch_id (fst (table_iter t ! j))) (snd (table_iter t ! j)) = Some (slot_id t j)"
proof -
  have views: "map (\<lambda>(c, i). chunk_view c i) (table_iter t) = map (table_row t) [0..<et_length t]"
    by (rule table_iter_rows [OF assms(1)])
  note len = iter_length [OF assms(1)]
  obtain f where f: "table_row t j = Some f" using table_row_Some [OF assms] by blast
  have "map (\<lambda>(c, i). chunk_view c i) (table_iter t) ! j = Some f" unfolding views using f assms(2) by simp
  then have "chunk_view (fst (table_iter t ! j)) (snd (table_iter t ! j)) = Some f"
    using len assms(2) by (simp add: case_prod_unfold)
  then show "integer_get I64 (ch_id (fst (table_iter t ! j))) (snd (table_iter t ! j)) = Some (slot_id t j)"
    using f by (auto simp: chunk_view_def slot_id_def split: bind_splits)
qed

lemma slots_rows_ok:
  assumes "wf_table t" "et_length t \<le> u32_max"
  shows "n \<le> et_length t \<Longrightarrow> slots_ok fs t n \<Longrightarrow>
    yields (slots_rows t (drop n (table_iter t)) n fs)
      (\<lambda>e. e = ''duplicate_persistent_file_id'' \<and> \<not> inj_on (slot_id t) {..<et_length t})
      (\<lambda>fs'. slots_ok fs' t (et_length t))"
proof (induction "et_length t - n" arbitrary: n fs)
  case 0
  then have n: "n = et_length t" by simp
  then show ?case using 0 n iter_length [OF assms(1)] by simp
next
  case (Suc d)
  then have n: "n < et_length t" by simp
  note ids = iter_length [OF assms(1)] iter_ids [OF assms(1) n]
  obtain c i where ci: "table_iter t ! n = (c, i)" by fastforce
  then have rest: "drop n (table_iter t) = (c, i) # drop (Suc n) (table_iter t)" using n ids(1) by (metis Cons_nth_drop_Suc)
  have key: "integer_get I64 (ch_id c) i = Some (slot_id t n)" using ids(2) ci by simp
  show ?case
  proof (cases "\<exists>s < n. slot_id t s = slot_id t n")
    case True
    then obtain s where s: "s < n" "slot_id t s = slot_id t n" by blast
    have "\<not> inj_on (slot_id t) {..<et_length t}"
      using inj_onD [of "slot_id t" "{..<et_length t}" s n] s n by auto
    moreover have "slots_append_at (slot_id t n) t n fs = Some (Inl ''duplicate_persistent_file_id'')"
      using slots_append_known [OF assms(1) Suc.prems(2,1) _ s] n assms(2) by simp
    ultimately show ?thesis using rest key by (simp add: fine_def)
  next
    case False
    then obtain fs' where fs': "slots_append_at (slot_id t n) t n fs = Some (Inr (n, fs'))" "slots_ok fs' t (Suc n)"
      using slots_append_ok [OF assms(1) Suc.prems(2,1), of "slot_id t n" t] n assms(2) by auto
    then show ?thesis using Suc.hyps(1) [of "Suc n" fs'] Suc.hyps(2) n rest key by (simp add: fine_def)
  qed
qed

lemma slots_from_entries_ok:
  assumes "wf_table t" "et_length t \<le> u32_max"
  shows "yields (slots_from_entries t)
    (\<lambda>e. e = ''duplicate_persistent_file_id'' \<and> \<not> inj_on (slot_id t) {..<et_length t})
    (\<lambda>fs. slots_ok fs t (et_length t))"
proof -
  have "slots_ok empty_file_slots t 0" by (simp add: slots_ok_def empty_file_slots_def)
  from slots_rows_ok [OF assms le0 this] show ?thesis by (simp add: slots_from_entries_def)
qed

end
