(* ===== verification/Snapshot.thy ===== *)
theory Snapshot
  imports Name_Column File_Slots Numeric_Columns
begin

text \<open>
  The search operations of a snapshot, \<open>SearchSnapshot\<close> of \<open>core/src/index_store.rs\<close>: exact evaluation over the
  indexes, narrowing to candidates, and matching over the columns of names and paths. A poll of the
  cancellation flag has a name, the path of calls to it, so that every history of the flag is covered.
\<close>

section \<open>The snapshot\<close>

record 's search_snapshot =
  ss_entries :: entry_table
  ss_file_slots :: file_slots
  ss_live :: "nat set"
  ss_trigrams :: "byte list posting_map"
  ss_name_order :: "'s slot_order"
  ss_path_order :: "'s slot_order"
  ss_path_ties :: "nat set"
  ss_metadata :: metadata_postings
  ss_numeric :: numeric_columns
  ss_names :: entry_table
  ss_generation :: nat
  ss_content_revision :: nat

type_synonym polls = "nat list \<Rightarrow> bool"

definition subpolls :: "nat \<Rightarrow> polls \<Rightarrow> polls" where
  "subpolls i c = (\<lambda>p. c (i # p))"

definition guarded :: "polls \<Rightarrow> 'a outcome \<Rightarrow> 'a outcome" where
  "guarded c x = (if c [] then Some (Inl query_cancelled) else x)"

definition as_i64 :: "nat \<Rightarrow> int" where
  "as_i64 n = (if n < 2 ^ 63 then int n else int n - 2 ^ 64)"

definition slot_for_id :: "'s search_snapshot \<Rightarrow> int \<Rightarrow> nat option option" where
  "slot_for_id sn key = slots_get (ss_file_slots sn) (ss_entries sn) key"

section \<open>Exact evaluation\<close>

fun supports_exact :: "query \<Rightarrow> bool" where
  "supports_exact (QAnd qs) = list_all supports_exact qs"
| "supports_exact (QOr qs) = list_all supports_exact qs"
| "supports_exact (QNot q) = supports_exact q"
| "supports_exact (QTerm t) =
     (case t of Resolved r \<Rightarrow> rp_unknown r = {} | _ \<Rightarrow> if supports t then True else metadata_supports (QTerm t))"
| "supports_exact QAll = metadata_supports QAll"

text \<open>The accepted numbers of a resolved predicate are a bitmap of \<open>u64\<close>.\<close>

definition resolved_slots :: "'s search_snapshot \<Rightarrow> nat set \<Rightarrow> nat set option" where
  "resolved_slots sn yes =
     (let found = (\<lambda>i. slot_for_id sn (as_i64 i)) ` {i \<in> yes. i < 2 ^ 64} in
      if None \<in> found then None else Some {s \<in> ss_live sn. Some (Some s) \<in> found})"

text \<open>\<open>ok_or_else\<close>.\<close>

definition declared :: "string \<Rightarrow> 'a option \<Rightarrow> 'a outcome" where
  "declared e x = (case x of None \<Rightarrow> Some (Inl e) | Some a \<Rightarrow> Some (Inr a))"

definition metadata_answer :: "'s search_snapshot \<Rightarrow> query \<Rightarrow> nat set outcome" where
  "metadata_answer sn q =
     declared ''Metadata index cannot evaluate its declared field'' (metadata_exact (ss_metadata sn) (ss_live sn) q)"

definition evaluate_term :: "'s search_snapshot \<Rightarrow> polls \<Rightarrow> query_term \<Rightarrow> nat set outcome" where
  "evaluate_term sn c t =
     (case t of
        Resolved r \<Rightarrow> fine (resolved_slots sn (rp_yes r))
      | _ \<Rightarrow>
          if supports t
          then bind_outcome (exact (\<lambda>k. c [k]) t (ss_entries sn) (ss_live sn) (ss_numeric sn))
            (declared ''Numeric index cannot evaluate its declared field'')
          else metadata_answer sn (QTerm t))"

fun evaluate_exact :: "'s search_snapshot \<Rightarrow> polls \<Rightarrow> query \<Rightarrow> nat set outcome"
  and exact_all :: "'s search_snapshot \<Rightarrow> polls \<Rightarrow> nat \<Rightarrow> query list \<Rightarrow> nat set \<Rightarrow> nat set outcome"
  and exact_any :: "'s search_snapshot \<Rightarrow> polls \<Rightarrow> nat \<Rightarrow> query list \<Rightarrow> nat set \<Rightarrow> nat set outcome" where
  "evaluate_exact sn c (QAnd qs) = guarded c (exact_all sn c 0 qs (ss_live sn))"
| "evaluate_exact sn c (QOr qs) = guarded c (exact_any sn c 0 qs {})"
| "evaluate_exact sn c (QNot q) =
     guarded c (bind_outcome (evaluate_exact sn (subpolls 0 c) q) (\<lambda>A. Some (Inr (ss_live sn - A))))"
| "evaluate_exact sn c (QTerm t) = guarded c (evaluate_term sn c t)"
| "evaluate_exact sn c QAll = guarded c (metadata_answer sn QAll)"
| "exact_all sn c i [] result = Some (Inr result)"
| "exact_all sn c i (q # qs) result =
     bind_outcome (evaluate_exact sn (subpolls i c) q) (\<lambda>A.
       if result \<inter> A = {} then Some (Inr {}) else exact_all sn c (i + 1) qs (result \<inter> A))"
| "exact_any sn c i [] result = Some (Inr result)"
| "exact_any sn c i (q # qs) result =
     bind_outcome (evaluate_exact sn (subpolls i c) q) (\<lambda>A. exact_any sn c (i + 1) qs (result \<union> A))"

definition exact_matches :: "'s search_snapshot \<Rightarrow> polls \<Rightarrow> query \<Rightarrow> nat set option outcome" where
  "exact_matches sn c q =
     guarded c
       (if \<not> supports_exact q then Some (Inr None)
        else bind_outcome (evaluate_exact sn (subpolls 0 c) q) (\<lambda>A. Some (Inr (Some A))))"

section \<open>Candidates\<close>

text \<open>The postings of the grams of the literals, each gram once; a gram without postings has no candidate.\<close>

fun gram_postings ::
    "(nat \<Rightarrow> bool) \<Rightarrow> byte list posting_map \<Rightarrow> nat \<Rightarrow> byte list list \<Rightarrow> byte list list \<Rightarrow> nat set list
      \<Rightarrow> nat set list option outcome" where
  "gram_postings c trigrams k seen [] found = Some (Inr (Some found))"
| "gram_postings c trigrams k seen (g # gs) found =
     (if c k then Some (Inl query_cancelled)
      else if g \<in> set seen then gram_postings c trigrams (k + 1) seen gs found
      else case posting_get trigram_key trigrams g of
             None \<Rightarrow> Some (Inr None)
           | Some A \<Rightarrow> gram_postings c trigrams (k + 1) (g # seen) gs (found @ [A]))"

fun smallest_index :: "nat set list \<Rightarrow> nat option" where
  "smallest_index [] = None"
| "smallest_index (A # As) =
     (case smallest_index As of
        None \<Rightarrow> Some 0
      | Some j \<Rightarrow> if card A \<le> card (As ! j) then Some 0 else Some (Suc j))"

definition swap_remove :: "nat \<Rightarrow> 'a list \<Rightarrow> 'a \<times> 'a list" where
  "swap_remove i xs = (xs ! i, butlast (xs[i := last xs]))"

fun intersect_loop :: "(nat \<Rightarrow> bool) \<Rightarrow> nat \<Rightarrow> nat set list \<Rightarrow> nat set \<Rightarrow> nat set outcome" where
  "intersect_loop c k [] result = Some (Inr result)"
| "intersect_loop c k (A # As) result =
     (if c k then Some (Inl query_cancelled)
      else if result = {} then Some (Inr result)
      else intersect_loop c (k + 1) As (result \<inter> A))"

definition narrow :: "'s search_snapshot \<Rightarrow> polls \<Rightarrow> query \<Rightarrow> nat set option outcome" where
  "narrow sn c q =
     bind_outcome
       (gram_postings (\<lambda>k. c [0, k]) (ss_trigrams sn) 0 []
          (concat (map (\<lambda>t. windows 3 (as_bytes t)) (required_name_literals q))) [])
       (\<lambda>found. case found of
          None \<Rightarrow> Some (Inr (Some {}))
        | Some found \<Rightarrow>
            (case smallest_index found of
               None \<Rightarrow> Some (Inr None)
             | Some i \<Rightarrow>
                 (case swap_remove i found of (result, rest) \<Rightarrow>
                    bind_outcome (intersect_loop (\<lambda>k. c [1, k]) 0 rest result) (\<lambda>A. Some (Inr (Some A))))))"

fun candidates :: "'s search_snapshot \<Rightarrow> polls \<Rightarrow> query \<Rightarrow> nat set option outcome"
  and candidates_all :: "'s search_snapshot \<Rightarrow> polls \<Rightarrow> nat \<Rightarrow> query list \<Rightarrow> nat set option \<Rightarrow> nat set option outcome"
  and candidates_any :: "'s search_snapshot \<Rightarrow> polls \<Rightarrow> nat \<Rightarrow> query list \<Rightarrow> nat set \<Rightarrow> nat set option outcome" where
  "candidates sn c (QAnd qs) =
     bind_outcome (exact_matches sn (subpolls 0 c) (QAnd qs)) (\<lambda>known.
       if known \<noteq> None then Some (Inr known) else candidates_all sn (subpolls 1 c) 0 qs None)"
| "candidates sn c (QOr qs) =
     bind_outcome (exact_matches sn (subpolls 0 c) (QOr qs)) (\<lambda>known.
       if known \<noteq> None then Some (Inr known) else candidates_any sn (subpolls 1 c) 0 qs {})"
| "candidates sn c (QNot q) =
     bind_outcome (exact_matches sn (subpolls 0 c) (QNot q)) (\<lambda>known.
       if known \<noteq> None then Some (Inr known) else narrow sn (subpolls 1 c) (QNot q))"
| "candidates sn c (QTerm t) =
     bind_outcome (exact_matches sn (subpolls 0 c) (QTerm t)) (\<lambda>known.
       if known \<noteq> None then Some (Inr known) else narrow sn (subpolls 1 c) (QTerm t))"
| "candidates sn c QAll =
     bind_outcome (exact_matches sn (subpolls 0 c) QAll) (\<lambda>known.
       if known \<noteq> None then Some (Inr known) else narrow sn (subpolls 1 c) QAll)"
| "candidates_all sn c i [] result = Some (Inr result)"
| "candidates_all sn c i (q # qs) result =
     bind_outcome (candidates sn (subpolls i c) q) (\<lambda>found.
       candidates_all sn c (i + 1) qs
         (case found of
            None \<Rightarrow> result
          | Some A \<Rightarrow> Some (case result of None \<Rightarrow> A | Some B \<Rightarrow> B \<inter> A)))"
| "candidates_any sn c i [] result = Some (Inr (Some result))"
| "candidates_any sn c i (q # qs) result =
     bind_outcome (candidates sn (subpolls i c) q) (\<lambda>found.
       case found of None \<Rightarrow> Some (Inr None) | Some A \<Rightarrow> candidates_any sn c (i + 1) qs (result \<union> A))"

section \<open>Matching over columns\<close>

definition match_name_columns ::
    "crates \<Rightarrow> nat option \<Rightarrow> 's search_snapshot \<Rightarrow> polls \<Rightarrow> query \<Rightarrow> query list \<Rightarrow> nat set option outcome" where
  "match_name_columns cr granted sn c q exclusions =
     (case (if exclusions = [] then path_substring q else None) of
        Some (needle, mode) \<Rightarrow>
          bind_outcome (match_paths cr (ss_entries sn) needle mode (ss_live sn) (\<lambda>k. c [0, k])) (\<lambda>A. Some (Inr (Some A)))
      | None \<Rightarrow>
          (case compile q of
             None \<Rightarrow> Some (Inr None)
           | Some e \<Rightarrow>
               (case compile_all exclusions of
                  None \<Rightarrow> Some (Inr None)
                | Some ex \<Rightarrow>
                    bind_outcome (candidates sn (subpolls 1 c) q) (\<lambda>found.
                      let visible = (case found of None \<Rightarrow> ss_live sn | Some A \<Rightarrow> A \<inter> ss_live sn) in
                      bind_outcome (name_evaluate cr (ss_names sn) e ex visible granted (\<lambda>w k. c [2, w, k]))
                        (\<lambda>A. Some (Inr (Some A)))))))"

section \<open>Snapshots that are consistent\<close>

definition live_row :: "'s search_snapshot \<Rightarrow> nat \<Rightarrow> file_entry option" where
  "live_row sn s = (if s \<in> ss_live sn then table_row (ss_entries sn) s else None)"

definition slot_row :: "'s search_snapshot \<Rightarrow> nat \<Rightarrow> file_entry" where
  "slot_row sn s = the (table_row (ss_entries sn) s)"

text \<open>Every index describes the live rows of the table.\<close>

definition indexes_ok :: "crates \<Rightarrow> 's search_snapshot \<Rightarrow> bool" where
  "indexes_ok cr sn \<longleftrightarrow>
     wf_table (ss_entries sn) \<and> et_length (ss_entries sn) \<le> u32_max \<and>
     ss_live sn \<subseteq> {..<et_length (ss_entries sn)} \<and>
     slots_ok (ss_file_slots sn) (ss_entries sn) (et_length (ss_entries sn)) \<and>
     grams_index trigram_key 3 (\<lambda>s. map_option search_name (live_row sn s)) (ss_trigrams sn) \<and>
     metadata_index cr (live_row sn) (ss_metadata sn) \<and>
     columns_repr (ss_numeric sn) (table_rows (ss_entries sn)) \<and> columns_clean (ss_numeric sn) \<and>
     ss_names sn = ss_entries sn"

lemma indexes_okD:
  assumes "indexes_ok cr sn"
  shows "wf_table (ss_entries sn)" "et_length (ss_entries sn) \<le> u32_max" "ss_live sn \<subseteq> {..<et_length (ss_entries sn)}"
    "slots_ok (ss_file_slots sn) (ss_entries sn) (et_length (ss_entries sn))"
    "grams_index trigram_key 3 (\<lambda>s. map_option search_name (live_row sn s)) (ss_trigrams sn)"
    "metadata_index cr (live_row sn) (ss_metadata sn)"
    "columns_repr (ss_numeric sn) (table_rows (ss_entries sn))" "columns_clean (ss_numeric sn)"
    "ss_names sn = ss_entries sn"
  using assms by (simp_all add: indexes_ok_def)

lemma live_row_slot: "indexes_ok cr sn \<Longrightarrow> s \<in> ss_live sn \<Longrightarrow> live_row sn s = Some (slot_row sn s)"
  using table_row_Some [of "ss_entries sn" s] indexes_okD(1,3) by (fastforce simp: live_row_def slot_row_def)


section \<open>Exact evaluation gives the matching rows\<close>

lemma exact_term_inner: "supports_exact (QTerm t) \<Longrightarrow> inner_term cr f c t = Inr (row_matches cr (QTerm t) f)"
  using supported_known [of "QTerm t" cr f c]
  by (cases t) (simp_all add: row_matches_def inner_term_def split: bool.splits)

lemma exact_inner: "supports_exact q \<Longrightarrow> matches_inner cr f c q = Inr (row_matches cr q f)"
proof (induction q arbitrary: c rule: supports_exact.induct)
  case (1 qs)
  then have "matches_all cr f c qs = Inr (list_all (\<lambda>q. row_matches cr q f) qs)" for c
    by (intro matches_all_known) (auto simp: list_all_iff)
  then show ?case by (simp add: row_matches_def [of _ "QAnd qs"])
next
  case (2 qs)
  then have "matches_any cr f c qs = Inr (list_ex (\<lambda>q. row_matches cr q f) qs)" for c
    by (intro matches_any_known) (auto simp: list_all_iff)
  then show ?case by (simp add: row_matches_def [of _ "QOr qs"])
next
  case (3 q)
  then have "matches_inner cr f c q = Inr (row_matches cr q f)" for c by simp
  then show ?case by (simp add: row_matches_def [of _ "QNot q"])
next
  case (4 t)
  then show ?case using exact_term_inner by simp
qed (simp add: row_matches_def)

lemma row_matches_exact:
  "supports_exact (QAnd qs) \<Longrightarrow> row_matches cr (QAnd qs) f \<longleftrightarrow> (\<forall>q \<in> set qs. row_matches cr q f)"
  "supports_exact (QOr qs) \<Longrightarrow> row_matches cr (QOr qs) f \<longleftrightarrow> (\<exists>q \<in> set qs. row_matches cr q f)"
  "supports_exact q \<Longrightarrow> row_matches cr (QNot q) f \<longleftrightarrow> \<not> row_matches cr q f"
proof -
  assume "supports_exact (QAnd qs)"
  then have "matches_all cr f None qs = Inr (list_all (\<lambda>q. row_matches cr q f) qs)"
    by (intro matches_all_known) (auto simp: exact_inner list_all_iff)
  then show "row_matches cr (QAnd qs) f \<longleftrightarrow> (\<forall>q \<in> set qs. row_matches cr q f)"
    by (simp add: row_matches_def [of _ "QAnd qs"] list_all_iff)
next
  assume "supports_exact (QOr qs)"
  then have "matches_any cr f None qs = Inr (list_ex (\<lambda>q. row_matches cr q f) qs)"
    by (intro matches_any_known) (auto simp: exact_inner list_all_iff)
  then show "row_matches cr (QOr qs) f \<longleftrightarrow> (\<exists>q \<in> set qs. row_matches cr q f)"
    by (simp add: row_matches_def [of _ "QOr qs"] list_ex_iff)
next
  assume "supports_exact q"
  then show "row_matches cr (QNot q) f \<longleftrightarrow> \<not> row_matches cr q f"
    using exact_inner [of q cr f None] by (simp add: row_matches_def [of _ "QNot q"])
qed

lemma truth_loop_known:
  "(\<And>q. q \<in> set qs \<Longrightarrow> ev q = Inr (Some (P q))) \<Longrightarrow>
     truth_loop ev d False qs = Inr (Some (if \<exists>q \<in> set qs. P q = d then d else \<not> d))"
  by (induction qs) auto

lemma exact_indexed: "supports_exact q \<Longrightarrow> indexed_truth cr f c q = Inr (Some (row_matches cr q f))"
proof (induction q rule: supports_exact.induct)
  case (1 qs)
  then have "truth_loop (indexed_truth cr f c) False False qs =
      Inr (Some (if \<exists>q \<in> set qs. row_matches cr q f = False then False else \<not> False))"
    by (intro truth_loop_known) (auto simp: list_all_iff)
  then show ?case using row_matches_exact(1) [OF 1(2)] by simp
next
  case (2 qs)
  then have "truth_loop (indexed_truth cr f c) True False qs =
      Inr (Some (if \<exists>q \<in> set qs. row_matches cr q f = True then True else \<not> True))"
    by (intro truth_loop_known) (auto simp: list_all_iff)
  then show ?case using row_matches_exact(2) [OF 2(2)] by simp
next
  case (3 q)
  then show ?case using row_matches_exact(3) [of q] by simp
next
  case (4 t)
  then show ?case using exact_term_inner [of t cr f c]
    by (cases t) (auto simp: indexed_term_def rp_truth_def numeric_property_def lit_def row_matches_def inner_term_def Let_def
        split: bool.splits field.splits if_splits)
qed (simp add: row_matches_def)

lemma exact_query: "supports_exact q \<Longrightarrow> query_matches cr q f c = Inr (row_matches cr q f)"
  by (simp add: query_matches_def exact_indexed exact_inner)


lemma slot_id_valid:
  assumes "wf_table t" "s < et_length t"
  shows "scalar_valid I64 (slot_id t s)"
proof -
  let ?c = "et_chunks t ! (s div chunk_length)" and ?i = "s mod chunk_length"
  obtain f where f: "table_row t s = Some f" using table_row_Some [OF assms] by blast
  then have view: "chunk_view ?c ?i = Some f" using table_row_at [OF assms] by simp
  have "wf_integer I64 (ch_id ?c)"
    using assms(1) block_index(1) [OF assms] by (auto simp: wf_table_def wf_chunk_def columns_ok_def number_columns_def)
  moreover have "integer_get I64 (ch_id ?c) ?i = Some (id f)" using view by (auto simp: chunk_view_def split: bind_splits)
  ultimately have "id f \<in> set (integer_list I64 (ch_id ?c))" "wf_integer I64 (ch_id ?c)"
    by (auto simp: integer_get_list slice_get_def split: if_splits) (metis nth_mem)
  then have "scalar_valid I64 (id f)" by (blast intro: wf_integer_valid)
  then show ?thesis unfolding slot_id_def f option.sel .
qed

lemma as_i64_iff:
  assumes "scalar_valid I64 v" "i < 2 ^ 64"
  shows "as_i64 i = v \<longleftrightarrow> nat (v mod 2 ^ 64) = i"
proof (cases "0 \<le> v")
  case True
  then have "v mod 2 ^ 64 = v" using assms(1) by simp
  then show ?thesis using True assms by (auto simp: as_i64_def)
next
  case False
  have "v mod 2 ^ 64 = (v + 2 ^ 64) mod 2 ^ 64" by (simp only: mod_add_self2)
  also have "\<dots> = v + 2 ^ 64" by (rule mod_pos_pos_trivial) (use False assms(1) in simp_all)
  finally have "v mod 2 ^ 64 = v + 2 ^ 64" .
  then show ?thesis using False assms by (auto simp: as_i64_def)
qed

lemma image_filter_iff: "y \<in> g ` {i \<in> A. P i} \<longleftrightarrow> (\<exists>i \<in> A. P i \<and> g i = y)"
  by auto

lemma resolved_slots_ok:
  assumes "indexes_ok cr sn"
  shows "resolved_slots sn (rp_yes r) = Some {s \<in> ss_live sn. rp_truth r (slot_row sn s) = Some True}"
proof -
  let ?t = "ss_entries sn" and ?n = "et_length (ss_entries sn)"
  note ok = indexes_okD [OF assms]
  have get: "\<exists>found. slot_for_id sn key = Some found \<and> (\<forall>s. found = Some s \<longleftrightarrow> s < ?n \<and> slot_id ?t s = key)" for key
    using slots_get_ok [OF ok(1,4) order_refl] by (simp add: slot_for_id_def)
  have hit: "slot_for_id sn (as_i64 i) = Some (Some s) \<longleftrightarrow> nat (slot_id ?t s mod 2 ^ 64) = i"
    if "i < 2 ^ 64" "s \<in> ss_live sn" for i s
  proof -
    have s: "s < ?n" using that(2) ok(3) by auto
    obtain found where "slot_for_id sn (as_i64 i) = Some found" "found = Some s \<longleftrightarrow> s < ?n \<and> slot_id ?t s = as_i64 i"
      using get by meson
    then show ?thesis using s as_i64_iff [OF slot_id_valid [OF ok(1) s] that(1)] by auto
  qed
  have small: "nat (v mod 2 ^ 64) < 2 ^ 64" for v :: int by (simp add: nat_less_iff)
  have "None \<notin> (\<lambda>i. slot_for_id sn (as_i64 i)) ` {i \<in> rp_yes r. i < 2 ^ 64}" 
    using get unfolding image_filter_iff by (metis option.distinct(1))
  moreover have "Some (Some s) \<in> (\<lambda>i. slot_for_id sn (as_i64 i)) ` {i \<in> rp_yes r. i < 2 ^ 64} \<longleftrightarrow>
      rp_truth r (slot_row sn s) = Some True" if "s \<in> ss_live sn" for s
  proof -
    have "id (slot_row sn s) = slot_id ?t s" by (simp add: slot_row_def slot_id_def)
    then have "rp_truth r (slot_row sn s) = Some True \<longleftrightarrow> nat (slot_id ?t s mod 2 ^ 64) \<in> rp_yes r"
      by (simp add: rp_truth_def Let_def)
    moreover have "Some (Some s) \<in> (\<lambda>i. slot_for_id sn (as_i64 i)) ` {i \<in> rp_yes r. i < 2 ^ 64} \<longleftrightarrow>
        (\<exists>i \<in> rp_yes r. i < 2 ^ 64 \<and> slot_for_id sn (as_i64 i) = Some (Some s))"
      by (rule image_filter_iff)
    moreover have "\<dots> \<longleftrightarrow> (\<exists>i \<in> rp_yes r. i < 2 ^ 64 \<and> nat (slot_id ?t s mod 2 ^ 64) = i)"
      using hit [OF _ that] by blast
    ultimately show ?thesis using small [of "slot_id ?t s"] by blast
  qed
  ultimately show ?thesis by (auto simp: resolved_slots_def Let_def)
qed

definition live_matches :: "crates \<Rightarrow> 's search_snapshot \<Rightarrow> query \<Rightarrow> nat set" where
  "live_matches cr sn q = {s \<in> ss_live sn. row_matches cr q (slot_row sn s)}"

lemma live_matches_exact:
  "live_matches cr sn QAll = ss_live sn"
  "supports_exact (QAnd qs) \<Longrightarrow> live_matches cr sn (QAnd qs) = {s \<in> ss_live sn. \<forall>q \<in> set qs. s \<in> live_matches cr sn q}"
  "supports_exact (QOr qs) \<Longrightarrow> live_matches cr sn (QOr qs) = (\<Union>q \<in> set qs. live_matches cr sn q)"
  "supports_exact q \<Longrightarrow> live_matches cr sn (QNot q) = ss_live sn - live_matches cr sn q"
  by (auto simp: live_matches_def row_matches_exact) (simp_all add: row_matches_def)

lemma matching_slots_live:
  "indexes_ok cr sn \<Longrightarrow> matching_slots cr (live_row sn) (ss_live sn) q = live_matches cr sn q"
  using live_row_slot by (fastforce simp: matching_slots_def live_matches_def)

lemma metadata_answer_ok:
  assumes "finder (c_find cr)" "indexes_ok cr sn" "metadata_supports q"
  shows "metadata_answer sn q = Some (Inr (live_matches cr sn q))"
proof -
  have "\<forall>s \<in> ss_live sn. live_row sn s \<noteq> None" using live_row_slot [OF assms(2)] by simp
  from metadata_exact_known [OF assms(1) indexes_okD(6) [OF assms(2)] this, of q] show ?thesis
    by (simp add: metadata_answer_def declared_def assms(3) matching_slots_live [OF assms(2)])
qed

text \<open>Raising the flag at any poll is allowed to end in the cancellation error.\<close>

definition stops :: "polls \<Rightarrow> (string \<Rightarrow> bool) \<Rightarrow> bool" where
  "stops c E \<longleftrightarrow> (\<forall>p. c p \<longrightarrow> E query_cancelled)"

lemma yields_guarded: "stops c E \<Longrightarrow> yields x E Q \<Longrightarrow> yields (guarded c x) E Q"
  by (auto simp: guarded_def stops_def)

lemma stops_sub [intro]: "stops c E \<Longrightarrow> stops (subpolls i c) E"
  by (auto simp: subpolls_def stops_def)

lemma stops_at: "stops c E \<Longrightarrow> \<forall>j. c (g j) \<longrightarrow> E query_cancelled"
  by (auto simp: stops_def)

lemma numeric_answer_ok:
  assumes "indexes_ok cr' sn" "supports t" "stops c E"
  shows "yields (bind_outcome (exact (\<lambda>k. c [k]) t (ss_entries sn) (ss_live sn) (ss_numeric sn))
      (declared ''Numeric index cannot evaluate its declared field'')) E (\<lambda>A. A = live_matches cr sn (QTerm t))"
proof (cases "c [0]")
  case False
  note ok = indexes_okD [OF assms(1)]
  have eq: "term_matches cr t f None = Inr True \<longleftrightarrow> row_matches cr (QTerm t) f" for f
    using assms(2) by (cases t) (simp_all add: row_matches_def inner_term_def)
  obtain r where r: "exact_term (\<lambda>k. c [k]) t (ss_entries sn) (ss_live sn) (ss_numeric sn) = Some r"
    "case r of Inl e \<Rightarrow> e = query_cancelled \<and> (\<exists>m. c [m])
     | Inr s \<Rightarrow> s = Some {i \<in> ss_live sn. term_matches cr t (the (table_row (ss_entries sn) i)) None = Inr True}"
    using exact_term_ok [OF ok(1,7,8) assms(2) ok(3), of "\<lambda>k. c [k]" cr None] by blast
  then show ?thesis using False assms(3)
    by (cases r) (auto simp: stops_def exact_def declared_def eq live_matches_def slot_row_def)
qed (use assms(3) in \<open>auto simp: exact_def stops_def\<close>)

lemma evaluate_term_ok:
  assumes "finder (c_find cr)" "indexes_ok cr sn" "supports_exact (QTerm t)" "stops c E"
  shows "yields (evaluate_term sn c t) E (\<lambda>A. A = live_matches cr sn (QTerm t))"
proof (cases "\<exists>r. t = Resolved r")
  case True
  then obtain r where r: "t = Resolved r" by blast
  have "live_matches cr sn (QTerm t) = {s \<in> ss_live sn. rp_truth r (slot_row sn s) = Some True}"
    by (simp add: live_matches_def row_matches_def inner_term_def r)
  then show ?thesis using resolved_slots_ok [OF assms(2), of r] by (simp add: evaluate_term_def r)
next
  case False
  then have "evaluate_term sn c t =
      (if supports t
       then bind_outcome (exact (\<lambda>k. c [k]) t (ss_entries sn) (ss_live sn) (ss_numeric sn))
         (declared ''Numeric index cannot evaluate its declared field'')
       else metadata_answer sn (QTerm t))"
    by (cases t) (simp_all add: evaluate_term_def)
  moreover have "metadata_supports (QTerm t)" if "\<not> supports t" using that assms(3) False by (cases t) simp_all
  ultimately show ?thesis
    using numeric_answer_ok [OF assms(2) _ assms(4), of t cr] metadata_answer_ok [OF assms(1,2)] by simp
qed

lemma evaluate_exact_ok:
  fixes cr E
  assumes "finder (c_find cr)"
  shows "indexes_ok cr sn \<Longrightarrow> stops c E \<Longrightarrow> supports_exact q \<Longrightarrow>
      yields (evaluate_exact sn c q) E (\<lambda>A. A = live_matches cr sn q)"
    and "indexes_ok cr sn \<Longrightarrow> stops c E \<Longrightarrow> list_all supports_exact qs \<Longrightarrow>
      yields (exact_all sn c i qs result) E (\<lambda>A. A = {s \<in> result. \<forall>q \<in> set qs. s \<in> live_matches cr sn q})"
    and "indexes_ok cr sn \<Longrightarrow> stops c E \<Longrightarrow> list_all supports_exact qs \<Longrightarrow>
      yields (exact_any sn c i qs result) E (\<lambda>A. A = result \<union> (\<Union>q \<in> set qs. live_matches cr sn q))"
proof (induction sn c q and sn c i qs result and sn c i qs result rule: evaluate_exact_exact_all_exact_any.induct)
  case (1 sn c qs)
  then show ?case by (auto intro!: yields_guarded simp: live_matches_exact)
next
  case (2 sn c qs)
  then show ?case by (auto intro!: yields_guarded simp: live_matches_exact)
next
  case (3 sn c q)
  have "yields (evaluate_exact sn (subpolls 0 c) q) E (\<lambda>A. A = live_matches cr sn q)"
    using 3 stops_sub by simp
  then show ?case using 3(3,4) by (auto intro!: yields_guarded yields_bind simp: live_matches_exact)
next
  case (4 sn c t)
  then show ?case using evaluate_term_ok [OF assms 4(1,3,2)] by (simp add: yields_guarded)
next
  case (5 sn c)
  then show ?case using metadata_answer_ok [OF assms, of sn QAll] by (simp add: yields_guarded)
next
  case (7 sn c i q qs result)
  have "yields (evaluate_exact sn (subpolls i c) q) E (\<lambda>A. A = live_matches cr sn q)"
    using 7(1,3-5) stops_sub by simp
  then show ?case unfolding exact_all.simps
  proof (rule yields_bind)
    fix A assume A: "A = live_matches cr sn q"
    have "yields (exact_all sn c (i + 1) qs (result \<inter> A)) E (\<lambda>B. B = {s \<in> result \<inter> A. \<forall>q \<in> set qs. s \<in> live_matches cr sn q})"
      if "result \<inter> A \<noteq> {}" using 7(2) [OF that 7(3,4)] 7(5) by simp
    then show "yields (if result \<inter> A = {} then Some (Inr {}) else exact_all sn c (i + 1) qs (result \<inter> A)) E
        (\<lambda>B. B = {s \<in> result. \<forall>x \<in> set (q # qs). s \<in> live_matches cr sn x})"
      using A by (cases "result \<inter> A = {}") (auto elim!: yields_mono)
  qed
next
  case (9 sn c i q qs result)
  have "yields (evaluate_exact sn (subpolls i c) q) E (\<lambda>A. A = live_matches cr sn q)"
    using 9(1,3-5) stops_sub by simp
  then show ?case unfolding exact_any.simps
  proof (rule yields_bind)
    fix A assume A: "A = live_matches cr sn q"
    show "yields (exact_any sn c (i + 1) qs (result \<union> A)) E (\<lambda>B. B = result \<union> (\<Union>x \<in> set (q # qs). live_matches cr sn x))"
      using 9(2) [OF 9(3,4), of A] 9(5) A by (simp add: Un_assoc)
  qed
qed simp_all

lemma exact_matches_ok:
  assumes "finder (c_find cr)" "indexes_ok cr sn" "stops c E"
  shows "yields (exact_matches sn c q) E (\<lambda>r. r = (if supports_exact q then Some (live_matches cr sn q) else None))"
proof (cases "supports_exact q")
  case True
  then show ?thesis using evaluate_exact_ok(1) [OF assms(1,2) stops_sub [OF assms(3)], of q 0] assms(3)
    by (auto simp: exact_matches_def intro!: yields_guarded elim!: yields_bind)
qed (use assms(3) in \<open>simp add: exact_matches_def yields_guarded\<close>)


section \<open>Candidates contain the matching rows\<close>

lemma gram_postings_ok:
  assumes "\<forall>j. c j \<longrightarrow> E query_cancelled"
  shows "yields (gram_postings c trigrams k seen gs found) E (\<lambda>r. case r of
      None \<Rightarrow> \<exists>g \<in> set gs. posting_get trigram_key trigrams g = None
    | Some fs \<Rightarrow> \<forall>A \<in> set fs. A \<in> set found \<or> (\<exists>g \<in> set gs. posting_get trigram_key trigrams g = Some A))"
proof (induction gs arbitrary: k seen found)
  case (Cons g gs)
  show ?case
  proof (cases "c k")
    case False
    show ?thesis
    proof (cases "g \<in> set seen")
      case True
      then show ?thesis using False Cons.IH [of "k + 1" seen found] by (auto elim!: yields_mono split: option.splits)
    next
      case new: False
      show ?thesis
      proof (cases "posting_get trigram_key trigrams g")
        case (Some A)
        then show ?thesis using False new Cons.IH [of "k + 1" "g # seen" "found @ [A]"]
          by (auto elim!: yields_mono split: option.splits)
      qed (use False new in simp)
    qed
  qed (use assms in auto)
qed simp

lemma smallest_index_less: "smallest_index As = Some i \<Longrightarrow> i < length As"
  by (induction As arbitrary: i) (auto split: option.splits if_splits)

lemma smallest_index_None: "smallest_index As = None \<longleftrightarrow> As = []"
  by (cases As) (auto split: option.splits)

lemma swap_remove_set:
  assumes "i < length xs" "swap_remove i xs = (x, rest)"
  shows "x \<in> set xs" "set rest \<subseteq> set xs"
proof -
  show "x \<in> set xs" using assms by (auto simp: swap_remove_def)
  have "set rest \<subseteq> set (xs[i := last xs])" using assms by (auto simp: swap_remove_def dest: in_set_butlastD)
  also have "\<dots> \<subseteq> set xs" using assms(1) by (auto dest!: set_update_subset_insert [THEN subsetD] intro: last_in_set)
  finally show "set rest \<subseteq> set xs" .
qed

lemma intersect_loop_ok:
  assumes "\<forall>j. c j \<longrightarrow> E query_cancelled"
  shows "yields (intersect_loop c k As result) E (\<lambda>B. B \<subseteq> result \<and> (\<forall>s \<in> result. (\<forall>A \<in> set As. s \<in> A) \<longrightarrow> s \<in> B))"
proof (induction As arbitrary: k result)
  case (Cons A As)
  show ?case using Cons.IH [of "k + 1" "result \<inter> A"] assms by (auto elim!: yields_mono)
qed simp

text \<open>A row whose name contains every required literal is in every posting of their grams.\<close>

definition holds_literals :: "file_entry \<Rightarrow> query \<Rightarrow> bool" where
  "holds_literals f q \<longleftrightarrow> (\<forall>l \<in> set (required_name_literals q). occurs l (search_name f))"

lemma trigrams_posted:
  assumes "indexes_ok cr sn"
  shows "posted (posting_get trigram_key (ss_trigrams sn) g) s \<longleftrightarrow>
    s \<in> ss_live sn \<and> g \<in> text_grams 3 (search_name (slot_row sn s))"
proof -
  have "live_row sn s = None" if "s \<notin> ss_live sn" using that by (simp add: live_row_def)
  then show ?thesis
    using keyed_index_posted [OF indexes_okD(5) [OF assms, unfolded grams_index_def], of g s] live_row_slot [OF assms, of s]
    by (cases "s \<in> ss_live sn") auto
qed

lemma literal_grams:
  assumes "holds_literals f q" "g \<in> set (concat (map (\<lambda>t. windows 3 (as_bytes t)) (required_name_literals q)))"
  shows "g \<in> text_grams 3 (search_name f)"
proof -
  obtain l where l: "l \<in> set (required_name_literals q)" "g \<in> set (windows 3 (as_bytes l))" using assms(2) by auto
  then have g: "length g = 3" "occurs g (as_bytes l)" by (simp_all add: windows_iff)
  have "occurs (as_bytes l) (as_bytes (search_name f))" using assms(1) l(1) by (simp add: holds_literals_def occurs_as_bytes)
  then have "occurs g (as_bytes (search_name f))" using g(2) unfolding occurs_def by (metis append.assoc)
  then show ?thesis using g(1) by (simp add: text_grams_def windows_iff)
qed

lemma narrow_ok:
  assumes "indexes_ok cr sn" "stops c E"
  shows "yields (narrow sn c q) E (\<lambda>r. \<forall>A. r = Some A \<longrightarrow>
    A \<subseteq> ss_live sn \<and> (\<forall>s \<in> ss_live sn. holds_literals (slot_row sn s) q \<longrightarrow> s \<in> A))"
proof -
  let ?gs = "concat (map (\<lambda>t. windows 3 (as_bytes t)) (required_name_literals q))"
  let ?get = "posting_get trigram_key (ss_trigrams sn)"
  note posted = trigrams_posted [OF assms(1)]
  have hit: "posted (?get g) s" if "s \<in> ss_live sn" "holds_literals (slot_row sn s) q" "g \<in> set ?gs" for s g
    using that literal_grams posted by blast
  have rest: "yields (case found of
        None \<Rightarrow> Some (Inr (Some {}))
      | Some found \<Rightarrow>
          (case smallest_index found of
             None \<Rightarrow> Some (Inr None)
           | Some i \<Rightarrow>
               (case swap_remove i found of (result, rest) \<Rightarrow>
                  bind_outcome (intersect_loop (\<lambda>k. c [1, k]) 0 rest result) (\<lambda>A. Some (Inr (Some A)))))) E
      (\<lambda>r. \<forall>A. r = Some A \<longrightarrow> A \<subseteq> ss_live sn \<and> (\<forall>s \<in> ss_live sn. holds_literals (slot_row sn s) q \<longrightarrow> s \<in> A))"
    if found: "case found of None \<Rightarrow> \<exists>g \<in> set ?gs. ?get g = None
      | Some fs \<Rightarrow> \<forall>A \<in> set fs. A \<in> set [] \<or> (\<exists>g \<in> set ?gs. ?get g = Some A)" for found
  proof (cases found)
    case None
    then show ?thesis using found hit by (fastforce simp: posted_def)
  next
    case (Some fs)
    have fs: "A \<subseteq> ss_live sn" "s \<in> ss_live sn \<Longrightarrow> holds_literals (slot_row sn s) q \<Longrightarrow> s \<in> A" if A: "A \<in> set fs" for A s
    proof -
      obtain g where g: "g \<in> set ?gs" "?get g = Some A" using found A unfolding Some option.case by (auto simp del: set_concat)
      then have "s \<in> A \<longleftrightarrow> posted (?get g) s" for s by (simp add: posted_def)
      then show "A \<subseteq> ss_live sn" "s \<in> ss_live sn \<Longrightarrow> holds_literals (slot_row sn s) q \<Longrightarrow> s \<in> A"
        using posted hit [OF _ _ g(1)] by auto
    qed
    show ?thesis
    proof (cases "smallest_index fs")
      case i: (Some i)
      obtain x xs where x: "swap_remove i fs = (x, xs)" by fastforce
      note set = swap_remove_set [OF smallest_index_less [OF i] x]
      have "yields (intersect_loop (\<lambda>k. c [1, k]) 0 xs x) E (\<lambda>B. B \<subseteq> x \<and> (\<forall>s \<in> x. (\<forall>A \<in> set xs. s \<in> A) \<longrightarrow> s \<in> B))"
        by (rule intersect_loop_ok, rule stops_at [OF assms(2)])
      then show ?thesis unfolding Some option.case i x prod.case
      proof (rule yields_bind)
        fix B assume B: "B \<subseteq> x \<and> (\<forall>s \<in> x. (\<forall>A \<in> set xs. s \<in> A) \<longrightarrow> s \<in> B)"
        then have "B \<subseteq> ss_live sn" using fs(1) [OF set(1)] by blast
        moreover have "s \<in> B" if "s \<in> ss_live sn" "holds_literals (slot_row sn s) q" for s
          using B fs(2) [OF _ that] set by blast
        ultimately show "yields (Some (Inr (Some B))) E (\<lambda>r. \<forall>A. r = Some A \<longrightarrow>
            A \<subseteq> ss_live sn \<and> (\<forall>s \<in> ss_live sn. holds_literals (slot_row sn s) q \<longrightarrow> s \<in> A))" by simp
      qed
    qed (use Some in simp)
  qed
  have "yields (gram_postings (\<lambda>k. c [0, k]) (ss_trigrams sn) 0 [] ?gs []) E (\<lambda>found. case found of
      None \<Rightarrow> \<exists>g \<in> set ?gs. ?get g = None
    | Some fs \<Rightarrow> \<forall>A \<in> set fs. A \<in> set [] \<or> (\<exists>g \<in> set ?gs. ?get g = Some A))"
    by (rule gram_postings_ok, rule stops_at [OF assms(2)])
  then show ?thesis unfolding narrow_def by (rule yields_bind) (rule rest)
qed


text \<open>What an evaluator may accept, and the literals that are safe to require of it.\<close>

definition could_match :: "crates \<Rightarrow> file_entry \<Rightarrow> query \<Rightarrow> bool" where
  "could_match cr f q \<longleftrightarrow>
     (\<exists>content. matches_inner cr f content q = Inr True \<or> indexed_truth cr f content q = Inr (Some True))"

definition literals_safe :: "crates \<Rightarrow> file_entry \<Rightarrow> query \<Rightarrow> bool" where
  "literals_safe cr f q \<longleftrightarrow>
     (\<forall>t \<in> set (query_terms q). \<forall>content. inner_term cr f content t = Inr True \<longrightarrow> holds_literals f (QTerm t))"

lemma query_matches_could: "query_matches cr q f content = Inr True \<Longrightarrow> could_match cr f q"
  by (cases "indexed_truth cr f content q") (auto simp: could_match_def query_matches_def split: if_splits)

lemma matches_any_True: "matches_any cr f c qs = Inr True \<Longrightarrow> \<exists>q \<in> set qs. matches_inner cr f c q = Inr True"
proof (induction qs)
  case (Cons q qs)
  then show ?case by (cases "matches_inner cr f c q") (auto split: if_splits)
qed simp

lemma truth_loop_and: "truth_loop ev False u qs = Inr (Some True) \<Longrightarrow> \<forall>q \<in> set qs. ev q = Inr (Some True)"
proof (induction qs arbitrary: u)
  case (Cons q qs)
  then obtain v where v: "ev q = Inr v" "v \<noteq> Some False" "truth_loop ev False (u \<or> v = None) qs = Inr (Some True)"
    by (cases "ev q") (auto split: if_splits)
  have "v \<noteq> None"
  proof
    have "truth_loop ev False True qs \<noteq> Inr (Some True)" for qs
    proof (induction qs)
      case (Cons q qs)
      then show ?case by (cases "ev q") auto
    qed simp
    moreover assume "v = None"
    ultimately show False using v(3) by simp
  qed
  then have "v = Some True" using v(2) by auto
  then show ?case using v Cons.IH [of "u \<or> v = None"] by simp
qed simp

lemma truth_loop_or: "truth_loop ev True u qs = Inr (Some True) \<Longrightarrow> \<exists>q \<in> set qs. ev q = Inr (Some True)"
proof (induction qs arbitrary: u)
  case (Cons q qs)
  then show ?case by (cases "ev q") (auto split: if_splits)
qed (simp split: if_splits)

lemma could_match_and: "could_match cr f (QAnd qs) \<Longrightarrow> q \<in> set qs \<Longrightarrow> could_match cr f q"
  using matches_all_True truth_loop_and by (fastforce simp: could_match_def)

lemma could_match_or: "could_match cr f (QOr qs) \<Longrightarrow> \<exists>q \<in> set qs. could_match cr f q"
  using matches_any_True truth_loop_or unfolding could_match_def by (metis indexed_truth.simps(2) matches_inner.simps(3))

lemma literals_safe_sub:
  "literals_safe cr f (QAnd qs) \<Longrightarrow> q \<in> set qs \<Longrightarrow> literals_safe cr f q"
  "literals_safe cr f (QOr qs) \<Longrightarrow> q \<in> set qs \<Longrightarrow> literals_safe cr f q"
  by (auto simp: literals_safe_def)

lemma indexed_name_term:
  "indexed_term cr f content t = Inr (Some True) \<Longrightarrow> required_name_literals (QTerm t) \<noteq> [] \<Longrightarrow>
     inner_term cr f content t = Inr True"
proof -
  assume a: "indexed_term cr f content t = Inr (Some True)" "required_name_literals (QTerm t) \<noteq> []"
  have other: "bind_result r (\<lambda>b. Inr (Some b)) = Inr (Some True) \<Longrightarrow> r = Inr True" for r :: "bool result"
    by (cases r) auto
  show "inner_term cr f content t = Inr True"
  proof (cases t)
    case (Matched target m)
    then have "target = TField Name" using a(2) matched_literals [of target m] by (auto split: if_splits)
    then show ?thesis using a(1) Matched other by (auto simp: indexed_term_def split: if_splits)
  qed (use a other in \<open>auto simp: indexed_term_def split: if_splits\<close>)
qed

lemma could_match_literals: "literals_safe cr f q \<Longrightarrow> could_match cr f q \<Longrightarrow> holds_literals f q"
proof (induction q rule: query_terms.induct)
  case (2 qs)
  then have "holds_literals f q" if "q \<in> set qs" for q using that literals_safe_sub(1) could_match_and by blast
  then show ?case by (auto simp: holds_literals_def all_literals)
next
  case (5 t)
  show ?case
  proof (cases "required_name_literals (QTerm t) = []")
    case False
    obtain content where "inner_term cr f content t = Inr True \<or> indexed_term cr f content t = Inr (Some True)"
      using 5(2) by (auto simp: could_match_def)
    then have "inner_term cr f content t = Inr True" using indexed_name_term [OF _ False] by blast
    then show ?thesis using 5(1) unfolding literals_safe_def query_terms.simps by (metis list.set_intros(1))
  qed (unfold holds_literals_def, simp del: required_name_literals.simps)
qed (simp_all add: holds_literals_def)

lemma exact_could_match: "supports_exact q \<Longrightarrow> could_match cr f q \<longleftrightarrow> row_matches cr q f"
  by (simp add: could_match_def exact_inner exact_indexed)

text \<open>The set contains every live slot of a matching row, and only live slots.\<close>

definition reaches :: "crates \<Rightarrow> 's search_snapshot \<Rightarrow> query \<Rightarrow> nat set \<Rightarrow> bool" where
  "reaches cr sn q A \<longleftrightarrow>
     (\<forall>s \<in> ss_live sn. literals_safe cr (slot_row sn s) q \<longrightarrow> could_match cr (slot_row sn s) q \<longrightarrow> s \<in> A)"

definition covers_query :: "crates \<Rightarrow> 's search_snapshot \<Rightarrow> query \<Rightarrow> nat set \<Rightarrow> bool" where
  "covers_query cr sn q A \<longleftrightarrow> A \<subseteq> ss_live sn \<and> reaches cr sn q A"

lemma reaches_and: "reaches cr sn q A \<Longrightarrow> q \<in> set qs \<Longrightarrow> reaches cr sn (QAnd qs) A"
  using literals_safe_sub(1) could_match_and unfolding reaches_def by blast

lemma reaches_or: "\<forall>q \<in> set qs. reaches cr sn q A \<Longrightarrow> reaches cr sn (QOr qs) A"
  using literals_safe_sub(2) could_match_or unfolding reaches_def by blast

lemma covers_inter: "covers_query cr sn q A \<Longrightarrow> covers_query cr sn q B \<Longrightarrow> covers_query cr sn q (B \<inter> A)"
  by (auto simp: covers_query_def reaches_def)

lemma reaches_mono: "reaches cr sn q A \<Longrightarrow> A \<subseteq> B \<Longrightarrow> reaches cr sn q B"
  by (auto simp: reaches_def)

lemma covers_exact: "supports_exact q \<Longrightarrow> covers_query cr sn q (live_matches cr sn q)"
  by (auto simp: covers_query_def reaches_def live_matches_def exact_could_match)

lemma narrow_covers: "indexes_ok cr sn \<Longrightarrow> stops c E \<Longrightarrow> yields (narrow sn c q) E (\<lambda>r. \<forall>A. r = Some A \<longrightarrow> covers_query cr sn q A)"
  using narrow_ok [of cr sn c E q] could_match_literals by (auto simp: covers_query_def reaches_def elim!: yields_mono)

lemma candidates_first:
  assumes "finder (c_find cr)" "indexes_ok cr sn" "stops c E"
    "yields rest E (\<lambda>r. \<forall>A. r = Some A \<longrightarrow> covers_query cr sn q A)"
  shows "yields (bind_outcome (exact_matches sn (subpolls 0 c) q)
      (\<lambda>known. if known \<noteq> None then Some (Inr known) else rest)) E (\<lambda>r. \<forall>A. r = Some A \<longrightarrow> covers_query cr sn q A)"
  by (rule yields_bind [OF exact_matches_ok [OF assms(1,2) stops_sub [OF assms(3)]]])
    (use covers_exact assms(4) in \<open>auto split: if_splits\<close>)

lemma candidates_ok:
  fixes cr E
  assumes "finder (c_find cr)"
  shows "indexes_ok cr sn \<Longrightarrow> stops c E \<Longrightarrow>
      yields (candidates sn c q) E (\<lambda>r. \<forall>A. r = Some A \<longrightarrow> covers_query cr sn q A)"
    and "indexes_ok cr sn \<Longrightarrow> stops c E \<Longrightarrow> \<forall>B. acc = Some B \<longrightarrow> covers_query cr sn (QAnd (pre @ qs)) B \<Longrightarrow>
      yields (candidates_all sn c i qs acc) E (\<lambda>r. \<forall>A. r = Some A \<longrightarrow> covers_query cr sn (QAnd (pre @ qs)) A)"
    and "indexes_ok cr sn \<Longrightarrow> stops c E \<Longrightarrow> B \<subseteq> ss_live sn \<and> (\<forall>q \<in> set pre. reaches cr sn q B) \<Longrightarrow>
      yields (candidates_any sn c i qs B) E
        (\<lambda>r. \<forall>A. r = Some A \<longrightarrow> A \<subseteq> ss_live sn \<and> (\<forall>q \<in> set (pre @ qs). reaches cr sn q A))"
proof (induction sn c q and sn c i qs acc and sn c i qs B arbitrary: and pre and pre
    rule: candidates_candidates_all_candidates_any.induct)
  case (1 sn c qs)
  have "yields (candidates_all sn (subpolls 1 c) 0 qs None) E (\<lambda>r. \<forall>A. r = Some A \<longrightarrow> covers_query cr sn (QAnd ([] @ qs)) A)"
    using 1 stops_sub by blast
  then show ?case using candidates_first [OF assms 1(2,3)] by simp
next
  case (2 sn c qs)
  have "{} \<subseteq> ss_live sn \<and> (\<forall>q \<in> set []. reaches cr sn q {})" by simp
  then have "yields (candidates_any sn (subpolls 1 c) 0 qs {}) E
      (\<lambda>r. \<forall>A. r = Some A \<longrightarrow> A \<subseteq> ss_live sn \<and> (\<forall>q \<in> set ([] @ qs). reaches cr sn q A))"
    using 2 stops_sub by blast
  then have "yields (candidates_any sn (subpolls 1 c) 0 qs {}) E (\<lambda>r. \<forall>A. r = Some A \<longrightarrow> covers_query cr sn (QOr qs) A)"
    by (rule yields_mono) (simp add: covers_query_def reaches_or)
  then show ?case using candidates_first [OF assms 2(2,3)] by simp
next
  case (7 sn c i q qs acc)
  have sub: "covers_query cr sn (QAnd (pre @ q # qs)) A" if "covers_query cr sn q A" for A
    using that reaches_and [of cr sn q A "pre @ q # qs"] by (simp add: covers_query_def)
  have "yields (candidates sn (subpolls i c) q) E (\<lambda>r. \<forall>A. r = Some A \<longrightarrow> covers_query cr sn q A)"
    using 7(1,3,4) stops_sub by blast
  then show ?case unfolding candidates_all.simps
  proof (rule yields_bind)
    fix found assume f: "\<forall>A. found = Some A \<longrightarrow> covers_query cr sn q A"
    have "\<forall>B. (case found of None \<Rightarrow> acc | Some A \<Rightarrow> Some (case acc of None \<Rightarrow> A | Some B \<Rightarrow> B \<inter> A)) = Some B
        \<longrightarrow> covers_query cr sn (QAnd ((pre @ [q]) @ qs)) B"
      using f sub 7(5) by (cases found; cases acc) (simp_all add: covers_inter)
    from 7(2) [OF 7(3,4) this] show "yields (candidates_all sn c (i + 1) qs
        (case found of None \<Rightarrow> acc | Some A \<Rightarrow> Some (case acc of None \<Rightarrow> A | Some B \<Rightarrow> B \<inter> A))) E
        (\<lambda>r. \<forall>A. r = Some A \<longrightarrow> covers_query cr sn (QAnd (pre @ q # qs)) A)" by simp
  qed
next
  case (9 sn c i q qs B)
  have "yields (candidates sn (subpolls i c) q) E (\<lambda>r. \<forall>A. r = Some A \<longrightarrow> covers_query cr sn q A)"
    using 9(1,3,4) stops_sub by blast
  then show ?case unfolding candidates_any.simps
  proof (rule yields_bind)
    fix found assume f: "\<forall>A. found = Some A \<longrightarrow> covers_query cr sn q A"
    show "yields (case found of None \<Rightarrow> Some (Inr None) | Some A \<Rightarrow> candidates_any sn c (i + 1) qs (B \<union> A)) E
        (\<lambda>r. \<forall>A. r = Some A \<longrightarrow> A \<subseteq> ss_live sn \<and> (\<forall>x \<in> set (pre @ q # qs). reaches cr sn x A))"
    proof (cases found)
      case (Some A)
      have "B \<union> A \<subseteq> ss_live sn \<and> (\<forall>x \<in> set (pre @ [q]). reaches cr sn x (B \<union> A))"
        using f Some 9(5) reaches_mono [of cr sn _ B "B \<union> A"] reaches_mono [of cr sn q A "B \<union> A"] by (auto simp: covers_query_def)
      from 9(2) [OF 9(3,4) this] Some show ?thesis by simp
    qed simp
  qed
next
  case (3 sn c q)
  then show ?case using candidates_first [OF assms 3 narrow_covers [OF _ stops_sub]] by simp
next
  case (4 sn c t)
  then show ?case using candidates_first [OF assms 4 narrow_covers [OF _ stops_sub]] by simp
next
  case (5 sn c)
  then show ?case using candidates_first [OF assms 5 narrow_covers [OF _ stops_sub]] by simp
qed simp_all


section \<open>Which literals are safe\<close>

text \<open>Terms on the folded name require what they search; terms of wider modes need an ASCII name.\<close>

lemma compile_terms:
  "compile q = Some e \<Longrightarrow> t \<in> set (query_terms q) \<Longrightarrow> \<exists>needle. t = Text Name needle False"
  "compile_all qs = Some es \<Longrightarrow> q \<in> set qs \<Longrightarrow> t \<in> set (query_terms q) \<Longrightarrow> \<exists>needle. t = Text Name needle False"
proof (induction q and qs arbitrary: e and es q rule: compile_compile_all.induct)
  case (2 t')
  then show ?case by (cases t') (auto split: field.splits bool.splits)
next
  case (7 q' qs)
  then show ?case by (auto split: bind_splits)
qed (auto split: option.splits)

lemma compiled_literals_safe:
  assumes "finder (c_find cr)" "compile q = Some e"
  shows "literals_safe cr f q"
  unfolding literals_safe_def
proof (intro ballI allI impI)
  fix t content assume t: "t \<in> set (query_terms q)" "inner_term cr f content t = Inr True"
  obtain needle where n: "t = Text Name needle False" using compile_terms(1) [OF assms(2) t(1)] by blast
  then have "occurs needle (search_name f)"
    using t(2) finder.find_is_some [OF assms(1)] by (simp add: inner_term_def occurs_as_bytes)
  then show "holds_literals f (QTerm t)" by (simp add: holds_literals_def n)
qed

lemma wf_query_terms: "wf_query cr q \<Longrightarrow> t \<in> set (query_terms q) \<Longrightarrow> wf_term cr t"
  by (induction q rule: query_terms.induct) (auto simp: wf_queries_iff)

lemma ascii_literals_safe:
  assumes "finder (c_find cr)" "normalization_laws cr" "stored_folds cr f" "is_ascii (name f)"
    "wf_query cr q" "ascii_folded_literals q"
  shows "literals_safe cr f q"
  unfolding literals_safe_def holds_literals_def
  using literal_term [OF assms(1-4) wf_query_terms [OF assms(5)]] assms(6) by (fastforce simp: ascii_folded_literals_def)

lemma compiled_candidates_ok:
  assumes "finder (c_find cr)" "indexes_ok cr sn" "stops c E" "compile q = Some e"
  shows "yields (candidates sn c q) E (\<lambda>r. \<forall>A. r = Some A \<longrightarrow> A \<subseteq> ss_live sn \<and>
    (\<forall>s \<in> ss_live sn. \<forall>content. matches_inner cr (slot_row sn s) content q = Inr True \<longrightarrow> s \<in> A))"
proof (rule yields_mono [OF candidates_ok(1) [OF assms(1-3), of q]])
  fix r assume r: "\<forall>A. r = Some A \<longrightarrow> covers_query cr sn q A"
  have "s \<in> A" if "covers_query cr sn q A" "s \<in> ss_live sn" "matches_inner cr (slot_row sn s) content q = Inr True" for A s content
    using that compiled_literals_safe [OF assms(1,4), of "slot_row sn s"] by (auto simp: covers_query_def reaches_def could_match_def)
  moreover have "A \<subseteq> ss_live sn" if "covers_query cr sn q A" for A using that by (simp add: covers_query_def)
  ultimately show "\<forall>A. r = Some A \<longrightarrow> A \<subseteq> ss_live sn \<and>
      (\<forall>s \<in> ss_live sn. \<forall>content. matches_inner cr (slot_row sn s) content q = Inr True \<longrightarrow> s \<in> A)"
    using r by (cases r) (simp_all, blast)
qed

lemma match_name_columns_ok:
  assumes "finder (c_find cr)" "indexes_ok cr sn" "stops c E"
    "exclusions = [] \<longrightarrow> (\<forall>needle mode. path_substring q = Some (needle, mode) \<longrightarrow>
       path_laws cr \<and> (\<forall>s \<in> ss_live sn. split_view (mode_view mode (slot_row sn s))))"
  shows "yields (match_name_columns cr granted sn c q exclusions) E (\<lambda>r. case r of
      None \<Rightarrow> compile q = None \<or> compile_all exclusions = None
    | Some A \<Rightarrow> A = {s \<in> ss_live sn. matches_inner cr (slot_row sn s) content q = Inr True \<and>
        (\<forall>x \<in> set exclusions. matches_inner cr (slot_row sn s) content x = Inr False)})"
proof (cases "if exclusions = [] then path_substring q else None")
  note ok = indexes_okD [OF assms(2)]
  case (Some nm)
  then obtain needle mode where nm: "nm = (needle, mode)" "exclusions = []" "path_substring q = Some (needle, mode)"
    by (cases nm) (auto split: if_splits)
  have laws: "path_laws cr" "\<forall>s \<in> ss_live sn. split_view (mode_view mode (the (table_row (ss_entries sn) s)))"
    using assms(4) nm by (auto simp: slot_row_def)
  have "yields (match_paths cr (ss_entries sn) needle mode (ss_live sn) (\<lambda>k. c [0, k])) E
      (\<lambda>A. A = {s \<in> ss_live sn. matches_inner cr (the (table_row (ss_entries sn) s)) content q = Inr True})"
    by (rule match_paths_query [OF assms(1) laws(1) ok(1,3) nm(3) laws(2)], rule stops_at [OF assms(3)])
  then show ?thesis unfolding match_name_columns_def Some nm(1) option.case prod.case
    by (rule yields_bind) (simp add: nm(2) slot_row_def)
next
  note ok = indexes_okD [OF assms(2)]
  case None
  show ?thesis
  proof (cases "compile q = None \<or> compile_all exclusions = None")
    case True
    then show ?thesis using None by (auto simp: match_name_columns_def split: option.splits)
  next
    case False
    then obtain e ex where e: "compile q = Some e" "compile_all exclusions = Some ex" by auto
    have "yields (candidates sn (subpolls 1 c) q) E (\<lambda>r. \<forall>A. r = Some A \<longrightarrow> A \<subseteq> ss_live sn \<and>
        (\<forall>s \<in> ss_live sn. \<forall>content. matches_inner cr (slot_row sn s) content q = Inr True \<longrightarrow> s \<in> A))"
      by (rule compiled_candidates_ok [OF assms(1,2) stops_sub [OF assms(3)] e(1)])
    then show ?thesis unfolding match_name_columns_def None e option.case
    proof (rule yields_bind)
      fix found assume found: "\<forall>A. found = Some A \<longrightarrow> A \<subseteq> ss_live sn \<and>
        (\<forall>s \<in> ss_live sn. \<forall>content. matches_inner cr (slot_row sn s) content q = Inr True \<longrightarrow> s \<in> A)"
      let ?visible = "case found of None \<Rightarrow> ss_live sn | Some A \<Rightarrow> A \<inter> ss_live sn"
      have "?visible \<subseteq> {..<et_length (ss_names sn)}" using ok(3,9) by (auto split: option.splits)
      moreover have "wf_table (ss_names sn)" "et_length (ss_names sn) \<le> u32_max" using ok by simp_all
      moreover have "\<forall>w j. c [2, w, j] \<longrightarrow> E query_cancelled" using assms(3) by (auto simp: stops_def)
      ultimately have "yields (name_evaluate cr (ss_names sn) e ex ?visible granted (\<lambda>w k. c [2, w, k])) E
          (\<lambda>A. A = {s \<in> ?visible. matches_inner cr (the (table_row (ss_names sn) s)) content q = Inr True \<and>
            (\<forall>x \<in> set exclusions. matches_inner cr (the (table_row (ss_names sn) s)) content x = Inr False)})"
        by (intro name_evaluate_query assms(1) e)
      moreover have "{s \<in> ?visible. matches_inner cr (slot_row sn s) content q = Inr True \<and> R s} =
          {s \<in> ss_live sn. matches_inner cr (slot_row sn s) content q = Inr True \<and> R s}" for R
        using found by (cases found) auto
      ultimately show "yields (let visible = ?visible in
            bind_outcome (name_evaluate cr (ss_names sn) e ex visible granted (\<lambda>w k. c [2, w, k])) (\<lambda>A. Some (Inr (Some A)))) E
          (\<lambda>r. case r of None \<Rightarrow> Some e = None \<or> Some ex = None
            | Some A \<Rightarrow> A = {s \<in> ss_live sn. matches_inner cr (slot_row sn s) content q = Inr True \<and>
                (\<forall>x \<in> set exclusions. matches_inner cr (slot_row sn s) content x = Inr False)})"
        unfolding Let_def by (elim yields_bind) (simp add: slot_row_def ok(9))
    qed
  qed
qed


section \<open>A snapshot of one row\<close>

definition report_entry :: file_entry where
  "report_entry = sample_entry\<lparr>name := lit ''Report'', folded_name := lit ''report'', search_name := lit ''report''\<rparr>"

lemma report_row_ok: "row_ok report_entry" "row_small report_entry"
proof -
  show "row_ok report_entry" using sample_entry_ok(1) by (simp add: report_entry_def row_ok_def)
  show "row_small report_entry"
    by (simp add: row_small_def rows_need_def row_prefixes_def path_split_def report_entry_def sample_entry_def view_text_def
      view_of_str_def str_len_def as_bytes_def utf8_char_def lit_def text_need_def text_values_def path_values_def)
qed

lemma report_snapshot:
  "\<exists>sn :: unit search_snapshot. indexes_ok plain_crates sn \<and> ss_live sn = {0} \<and>
     to_owned_file (slot_row sn 0) = to_owned_file report_entry"
proof -
  obtain t where t: "wf_table t" "table_rows t = [to_owned_file report_entry]"
    using table_from_rows_ok [of "[report_entry]"] report_row_ok by (auto simp: u32_max_def)
  then have len: "et_length t = 1" using length_table_rows [of t] by simp
  obtain f where f: "table_row t 0 = Some f" using table_row_Some [OF t(1), of 0] len by auto
  have owned: "to_owned_file f = to_owned_file report_entry" using t(2) len f table_rows_nth [of 0 t] by simp
  have "search_name (to_owned_file f) = lit ''report''" unfolding owned by (simp add: to_owned_file_def report_entry_def)
  then have sname: "search_name f = lit ''report''" by (simp add: to_owned_file_def)
  obtain cs where cs: "columns_repr cs (table_rows t)" "columns_clean cs"
    using columns_build_ok [OF t(1)] len by auto
  have "inj_on (slot_id t) {..<et_length t}" using len by (simp add: inj_on_def)
  then obtain fs where fs: "slots_ok fs t (et_length t)"
    using slots_from_entries_ok [OF t(1)] len by (auto simp: yields_def u32_max_def split: option.splits sum.splits)
  let ?rows = "[0 \<mapsto> f]"
  have "keyed_index trigram_key ((\<lambda>s. {})(0 := text_grams 3 (search_name f)))
      (gram_apply trigram_key 3 0 [] (search_name f) default_postings)"
    by (rule gram_apply_index [OF keyed_index_default]) (simp add: text_grams_def)
  moreover have "(\<lambda>s. {})(0 := text_grams 3 (search_name f)) = row_keys (text_grams 3) (\<lambda>s. map_option search_name (?rows s))"
    by (rule ext) (simp add: row_keys_def)
  ultimately have tri: "grams_index trigram_key 3 (\<lambda>s. map_option search_name (?rows s))
      (gram_apply trigram_key 3 0 [] (search_name f) default_postings)" by (simp add: grams_index_def)
  have meta: "metadata_index plain_crates ?rows (metadata_insert plain_crates 0 f empty_metadata)"
    by (rule metadata_insert_index [OF metadata_index_empty]) (simp_all add: sname scalar_values_def lit_def)
  let ?sn = "\<lparr>ss_entries = t, ss_file_slots = fs, ss_live = {0},
      ss_trigrams = gram_apply trigram_key 3 0 [] (search_name f) default_postings,
      ss_name_order = from_vec [0], ss_path_order = from_vec [0], ss_path_ties = {},
      ss_metadata = metadata_insert plain_crates 0 f empty_metadata, ss_numeric = cs, ss_names = t,
      ss_generation = 0, ss_content_revision = 0\<rparr> :: unit search_snapshot"
  have "live_row ?sn = ?rows" by (rule ext) (simp add: live_row_def f)
  then have "indexes_ok plain_crates ?sn"
    using t(1) len fs tri meta cs unfolding indexes_ok_def by (simp add: u32_max_def)
  moreover have "to_owned_file (slot_row ?sn 0) = to_owned_file report_entry" using f owned by (simp add: slot_row_def)
  ultimately show ?thesis by (intro exI [of _ ?sn]) simp
qed

lemma report_fields:
  assumes "to_owned_file f = to_owned_file report_entry"
  shows "name f = lit ''Report''" "folded_name f = lit ''report''" "search_name f = lit ''report''" "\<not> is_dir f" "size f = 3"
  using arg_cong [OF assms, of name] arg_cong [OF assms, of folded_name] arg_cong [OF assms, of search_name]
    arg_cong [OF assms, of is_dir] arg_cong [OF assms, of size]
  by (simp_all add: to_owned_file_def report_entry_def sample_entry_def)

section \<open>Properties\<close>

text \<open>
  C6: the indexes answer exactly. A query over short names, extensions, types, numeric columns and resolved
  relationships is evaluated over the indexes alone to precisely the live slots whose rows the query evaluator
  accepts, whatever their content; any other query is declined. The only other outcome is the cancellation
  error, after the flag was raised; there is no panic and no internal error. The hypotheses are the contract of
  the substring search and that the indexes describe the live rows.
\<close>

theorem exact_matches_exact:
  assumes "finder (c_find cr)" "indexes_ok cr sn"
  shows "\<exists>r. exact_matches sn c q = Some r \<and>
    (case r of Inl e \<Rightarrow> e = query_cancelled \<and> (\<exists>p. c p)
     | Inr found \<Rightarrow> found =
         (if supports_exact q then Some {s \<in> ss_live sn. query_matches cr q (slot_row sn s) content = Inr True} else None))"
proof -
  let ?E = "\<lambda>e. e = query_cancelled \<and> (\<exists>p. c p)"
  have "stops c ?E" by (auto simp: stops_def)
  from exact_matches_ok [OF assms this, of q] show ?thesis
    by (auto simp: yields_def live_matches_def exact_query split: option.splits sum.splits)
qed

theorem exact_matches_exact_witness:
  "\<exists>sn :: unit search_snapshot.
    exact_matches sn (\<lambda>_. False) (QAnd [QTerm (IsDir False), QNot (QTerm (Text Name (lit ''x'') False))]) = Some (Inr (Some {0}))"
proof -
  let ?q = "QAnd [QTerm (IsDir False), QNot (QTerm (Text Name (lit ''x'') False))]"
  obtain sn :: "unit search_snapshot" where sn: "indexes_ok plain_crates sn" "ss_live sn = {0}"
    "to_owned_file (slot_row sn 0) = to_owned_file report_entry" using report_snapshot by blast
  have "finder (c_find plain_crates)" using naive.finder_axioms by (simp add: plain_crates_def)
  from exact_matches_exact [OF this sn(1), of "\<lambda>_. False" ?q None] obtain r where r: "exact_matches sn (\<lambda>_. False) ?q = Some r"
    "case r of Inl e \<Rightarrow> e = query_cancelled \<and> (\<exists>p :: nat list. False) | Inr found \<Rightarrow> found = (if supports_exact ?q
       then Some {s \<in> ss_live sn. query_matches plain_crates ?q (slot_row sn s) None = Inr True} else None)" by blast
  moreover have "supports_exact ?q" by (simp add: str_len_def as_bytes_def utf8_char_def lit_def)
  ultimately have "exact_matches sn (\<lambda>_. False) ?q = Some (Inr (Some {s \<in> {0}. query_matches plain_crates ?q (slot_row sn s) None = Inr True}))"
    using sn(2) by (cases r) simp_all
  moreover have "query_matches plain_crates ?q (slot_row sn 0) None = Inr True"
    using report_fields [OF sn(3)]
    by (simp add: query_matches_def inner_term_def plain_crates_def lit_def as_bytes_def utf8_char_def starts_with_def)
  then have "{s \<in> {0}. query_matches plain_crates ?q (slot_row sn s) None = Inr True} = {0}" by blast
  ultimately have "exact_matches sn (\<lambda>_. False) ?q = Some (Inr (Some {0}))" by simp
  then show ?thesis ..
qed

text \<open>
  C11: narrowing to candidates loses no matching row with an ASCII name. Combining exact answers, operands and
  the postings of the grams of required literals, smallest first and with early ends, gives a set of live
  slots that contains every row the query evaluator accepts with any content; or no narrowing, or the
  cancellation error. It never panics. The hypotheses on the query and on the row are those under which
  required literals are contained in matching names.
\<close>

theorem candidates_complete:
  assumes "finder (c_find cr)" "indexes_ok cr sn" "normalization_laws cr" "wf_query cr q" "ascii_folded_literals q"
  shows "\<exists>r. candidates sn c q = Some r \<and>
    (case r of Inl e \<Rightarrow> e = query_cancelled \<and> (\<exists>p. c p)
     | Inr None \<Rightarrow> True
     | Inr (Some A) \<Rightarrow> A \<subseteq> ss_live sn \<and>
         (\<forall>s \<in> ss_live sn. \<forall>content. is_ascii (name (slot_row sn s)) \<longrightarrow> stored_folds cr (slot_row sn s) \<longrightarrow>
            query_matches cr q (slot_row sn s) content = Inr True \<longrightarrow> s \<in> A))"
proof -
  let ?E = "\<lambda>e. e = query_cancelled \<and> (\<exists>p. c p)"
  have "stops c ?E" by (auto simp: stops_def)
  from candidates_ok(1) [OF assms(1,2) this, of q] obtain r where r: "candidates sn c q = Some r"
    "case r of Inl e \<Rightarrow> ?E e | Inr found \<Rightarrow> \<forall>A. found = Some A \<longrightarrow> covers_query cr sn q A"
    by (auto simp: yields_def split: option.splits)
  have "s \<in> A" if "covers_query cr sn q A" "s \<in> ss_live sn" "is_ascii (name (slot_row sn s))" "stored_folds cr (slot_row sn s)"
    "query_matches cr q (slot_row sn s) content = Inr True" for A s content
    using that ascii_literals_safe [OF assms(1,3) that(4,3) assms(4,5)] query_matches_could [OF that(5)]
    by (simp add: covers_query_def reaches_def)
  then show ?thesis using r by (cases r) (auto simp: covers_query_def split: option.splits)
qed

theorem candidates_complete_witness:
  "\<exists>(sn :: unit search_snapshot) r. candidates sn (\<lambda>_. False) (QTerm (Text Name (lit ''port'') False)) = Some (Inr r) \<and>
     (r = None \<or> (\<exists>A. r = Some A \<and> 0 \<in> A))"
proof -
  let ?q = "QTerm (Text Name (lit ''port'') False)"
  obtain sn :: "unit search_snapshot" where sn: "indexes_ok plain_crates sn" "ss_live sn = {0}"
    "to_owned_file (slot_row sn 0) = to_owned_file report_entry" using report_snapshot by blast
  have find: "finder (c_find plain_crates)" using naive.finder_axioms by (simp add: plain_crates_def)
  have norm: "normalization_laws plain_crates" by (simp add: normalization_laws_def plain_crates_def)
  have wf: "wf_query plain_crates ?q" "ascii_folded_literals ?q"
    by (auto simp: ascii_folded_literals_def fold_search_def is_ascii_def to_ascii_lowercase_def ascii_lower_def lit_def
      intro!: exI [of _ "lit ''port''"])
  note row = report_fields [OF sn(3)]
  have "is_ascii (name (slot_row sn 0))" "stored_folds plain_crates (slot_row sn 0)"
    by (simp_all add: row stored_folds_def fold_search_def fold_text_def is_ascii_def to_ascii_lowercase_def ascii_lower_def lit_def)
  moreover have "query_matches plain_crates ?q (slot_row sn 0) None = Inr True"
    by (simp add: row query_matches_def inner_term_def plain_crates_def lit_def as_bytes_def utf8_char_def starts_with_def)
  moreover obtain r where r: "candidates sn (\<lambda>_. False) ?q = Some r"
    "case r of Inl e \<Rightarrow> e = query_cancelled \<and> (\<exists>p :: nat list. False)
     | Inr None \<Rightarrow> True
     | Inr (Some A) \<Rightarrow> A \<subseteq> ss_live sn \<and>
         (\<forall>s \<in> ss_live sn. \<forall>content. is_ascii (name (slot_row sn s)) \<longrightarrow> stored_folds plain_crates (slot_row sn s) \<longrightarrow>
            query_matches plain_crates ?q (slot_row sn s) content = Inr True \<longrightarrow> s \<in> A)"
    using candidates_complete [OF find sn(1) norm wf, of "\<lambda>_. False"] by blast
  ultimately have "\<exists>found. r = Inr found \<and> (found = None \<or> (\<exists>A. found = Some A \<and> 0 \<in> A))"
    using sn(2) by (cases r) (auto split: option.splits)
  then show ?thesis using r(1) by blast
qed



end
