(* ===== verification/Snapshot_Build.thy ===== *)
theory Snapshot_Build
  imports Snapshot Std_Path "HOL-Library.AList"
begin

text \<open>
  Building a snapshot from rows, \<open>core/src/index_store.rs\<close>: the folded columns of a row (\<open>IndexedFile::prepare\<close>
  and \<open>prepare_replacement\<close>), the postings, the columns and the two orders over a table of prepared rows, with
  the slots whose paths are equal to others in the natural order. \<open>EntryTable::at\<close> of a slot is \<open>row_at\<close>; the
  lemmas show that every slot it is used on is in range.
\<close>

section \<open>Prepared rows\<close>

definition shared_search_fold :: "crates \<Rightarrow> str \<Rightarrow> str \<Rightarrow> str" where
  "shared_search_fold cr t folded =
     (if is_ascii t then folded
      else let searchable = fold_search cr t in if searchable = folded then folded else searchable)"

definition parent_or_default :: "str option \<Rightarrow> str" where
  "parent_or_default p = (case p of None \<Rightarrow> [] | Some s \<Rightarrow> s)"

definition prepare :: "crates \<Rightarrow> file_entry \<Rightarrow> file_entry" where
  "prepare cr f =
     (let path_text = view_text (path f); fname = fold_text cr (name f); fpath = fold_text cr path_text in
      f\<lparr>folded_name := fname, folded_extension := fold_text cr (extension f), folded_path := view_of_str fpath,
        search_name := shared_search_fold cr (name f) fname,
        search_path := view_of_str (shared_search_fold cr path_text fpath),
        parent := parent_or_default (path_parent path_text)\<rparr>)"

definition replace_names :: "crates \<Rightarrow> file_entry \<Rightarrow> file_entry \<Rightarrow> file_entry" where
  "replace_names cr previous f =
     (if name f = name previous
      then f\<lparr>folded_name := folded_name previous, search_name := search_name previous\<rparr>
      else let fname = fold_text cr (name f) in
        f\<lparr>folded_name := fname, search_name := shared_search_fold cr (name f) fname\<rparr>)"

definition replace_extension :: "crates \<Rightarrow> file_entry \<Rightarrow> file_entry \<Rightarrow> file_entry" where
  "replace_extension cr previous f =
     f\<lparr>folded_extension := (if extension f = extension previous then folded_extension previous
        else fold_text cr (extension f))\<rparr>"

definition replace_paths :: "crates \<Rightarrow> file_entry \<Rightarrow> file_entry \<Rightarrow> file_entry" where
  "replace_paths cr previous f =
     (let path_text = view_text (path f) in
      if view_eq_str (path previous) path_text
      then f\<lparr>folded_path := view_of_str (view_text (folded_path previous)),
             search_path := view_of_str (view_text (search_path previous)), parent := parent previous\<rparr>
      else let fpath = fold_text cr path_text; up = path_parent path_text in
        f\<lparr>folded_path := view_of_str fpath, search_path := view_of_str (shared_search_fold cr path_text fpath),
          parent := (if up = Some (parent previous) then parent previous else parent_or_default up)\<rparr>)"

definition prepare_replacement :: "crates \<Rightarrow> file_entry option \<Rightarrow> file_entry \<Rightarrow> file_entry" where
  "prepare_replacement cr previous f =
     (case previous of
        None \<Rightarrow> prepare cr f
      | Some p \<Rightarrow> replace_paths cr p (replace_extension cr p (replace_names cr p f)))"

section \<open>Indexes over a table\<close>

definition row_at :: "entry_table \<Rightarrow> nat \<Rightarrow> file_entry" where
  "row_at t s = the (table_row t s)"

definition table_views :: "entry_table \<Rightarrow> file_entry list option" where
  "table_views t = collect_options (map (\<lambda>(c, i). chunk_view c i) (table_iter t))"

text \<open>The map from grams to slots is a list of entries, in some order, as its conversion reads it.\<close>

definition add_gram :: "nat \<Rightarrow> byte list \<Rightarrow> (byte list \<times> nat set) list \<Rightarrow> (byte list \<times> nat set) list" where
  "add_gram slot g m = AList.update g (insert slot (case map_of m g of None \<Rightarrow> {} | Some A \<Rightarrow> A)) m"

definition name_grams :: "(nat \<times> file_entry) list \<Rightarrow> (byte list \<times> nat set) list" where
  "name_grams rows = fold (\<lambda>(slot, f). fold (add_gram slot) (windows 3 (as_bytes (search_name f)))) rows []"

definition compare_names :: "file_entry \<Rightarrow> file_entry \<Rightarrow> ordering" where
  "compare_names a b =
     then_with (natural_cmp_folded (as_bytes (folded_name a)) (as_bytes (folded_name b)))
       (then_with (view_cmp (path a) (path b)) (prim_cmp (id a) (id b)))"

definition same_natural_path :: "file_entry \<Rightarrow> file_entry \<Rightarrow> bool" where
  "same_natural_path a b \<longleftrightarrow> view_natural_cmp (folded_path a) (folded_path b) = Equal"

fun tie_pairs :: "('a \<Rightarrow> 'a \<Rightarrow> bool) \<Rightarrow> 'a list \<Rightarrow> 'a set \<Rightarrow> 'a set" where
  "tie_pairs same (a # b # ss) ties = tie_pairs same (b # ss) (if same a b then insert b (insert a ties) else ties)"
| "tie_pairs same ss ties = ties"

definition build_prepared_indexes ::
    "crates \<Rightarrow> entry_table \<Rightarrow> (byte list \<times> nat set) list \<Rightarrow> nat \<Rightarrow> 's search_snapshot option" where
  "build_prepared_indexes cr t grams generation = do {
     fs \<leftarrow> (case slots_from_entries t of Some (Inr fs) \<Rightarrow> Some fs | _ \<Rightarrow> None);
     views \<leftarrow> table_views t;
     numeric \<leftarrow> columns_build t;
     let all = [0..<et_length t mod 2 ^ 32];
     let by_name = sort_by (\<lambda>a b. compare_names (row_at t a) (row_at t b)) all;
     let by_path = sort_by (\<lambda>a b. order_compare order_path (row_at t a) (row_at t b)) all;
     let ties = tie_pairs (\<lambda>a b. same_natural_path (row_at t a) (row_at t b)) by_path {};
     Some \<lparr>ss_entries = t, ss_file_slots = fs, ss_live = set all, ss_trigrams = posting_from trigram_key grams,
       ss_name_order = from_vec by_name, ss_path_order = from_vec by_path, ss_path_ties = ties,
       ss_metadata = metadata_build cr (enumerate 0 views), ss_numeric = numeric, ss_names = t,
       ss_generation = generation, ss_content_revision = 0\<rparr> }"

definition build_compact_rows :: "crates \<Rightarrow> entry_table \<Rightarrow> nat \<Rightarrow> 's search_snapshot option" where
  "build_compact_rows cr t generation = do {
     views \<leftarrow> table_views t;
     build_prepared_indexes cr t (name_grams (enumerate 0 views)) generation }"

definition prepare_rows :: "crates \<Rightarrow> file_entry result list \<Rightarrow> entry_table outcome" where
  "prepare_rows cr rows = table_from_rows (map (map_sum (\<lambda>e. e) (prepare cr)) rows)"

definition snapshot_from_rows :: "crates \<Rightarrow> file_entry result list \<Rightarrow> nat \<Rightarrow> 's search_snapshot outcome" where
  "snapshot_from_rows cr rows generation =
     bind_outcome (prepare_rows cr rows) (\<lambda>t. fine (build_compact_rows cr t generation))"

section \<open>Preparing a row again gives the same columns\<close>

definition prepared :: "crates \<Rightarrow> file_entry \<Rightarrow> bool" where
  "prepared cr f \<longleftrightarrow> to_owned_file (prepare cr f) = to_owned_file f"

lemma view_text_of_str [simp]: "view_text (view_of_str s) = s"
  by (simp add: view_text_def view_of_str_def)

lemma prepared_iff:
  "prepared cr f \<longleftrightarrow>
     folded_name f = fold_text cr (name f) \<and> folded_extension f = fold_text cr (extension f) \<and>
     view_text (folded_path f) = fold_text cr (view_text (path f)) \<and>
     search_name f = shared_search_fold cr (name f) (fold_text cr (name f)) \<and>
     view_text (search_path f) = shared_search_fold cr (view_text (path f)) (fold_text cr (view_text (path f))) \<and>
     parent f = parent_or_default (path_parent (view_text (path f)))"
  by (cases f) (auto simp: prepared_def prepare_def to_owned_file_def Let_def)

lemma prepared_prepare [simp]: "prepared cr (prepare cr f)"
  by (simp add: prepared_iff prepare_def Let_def)

lemma prepared_owned [simp]: "prepared cr (to_owned_file f) \<longleftrightarrow> prepared cr f"
  by (simp add: prepared_iff to_owned_file_def)

lemma replace_names_eq:
  "prepared cr p \<Longrightarrow> replace_names cr p f = f\<lparr>folded_name := fold_text cr (name f),
     search_name := shared_search_fold cr (name f) (fold_text cr (name f))\<rparr>"
  by (auto simp: replace_names_def prepared_iff Let_def)

lemma replace_extension_eq: "prepared cr p \<Longrightarrow> replace_extension cr p f = f\<lparr>folded_extension := fold_text cr (extension f)\<rparr>"
  by (auto simp: replace_extension_def prepared_iff)

lemma replace_paths_eq:
  "prepared cr p \<Longrightarrow> replace_paths cr p f =
     (let path_text = view_text (path f); fpath = fold_text cr path_text in
      f\<lparr>folded_path := view_of_str fpath, search_path := view_of_str (shared_search_fold cr path_text fpath),
        parent := parent_or_default (path_parent path_text)\<rparr>)"
  by (cases "path_parent (view_text (path f))")
    (auto simp: replace_paths_def prepared_iff view_eq_str_text parent_or_default_def Let_def)

lemma prepare_replacement_eq:
  assumes "\<forall>p. previous = Some p \<longrightarrow> prepared cr p"
  shows "prepare_replacement cr previous f = prepare cr f"
proof (cases previous)
  case (Some p)
  then have "prepared cr p" using assms by simp
  then show ?thesis
    by (simp add: Some prepare_replacement_def replace_names_eq replace_extension_eq replace_paths_eq prepare_def Let_def)
qed (simp add: prepare_replacement_def)

lemma prepared_folds: "prepared cr f \<Longrightarrow> stored_folds cr f"
  by (simp add: prepared_iff stored_folds_def shared_search_fold_def fold_search_def fold_text_def Let_def)


section \<open>Tables as lists of views\<close>

lemma collect_options_Some: "collect_options (map Some xs) = Some xs"
  by (induction xs) simp_all

lemma table_views_ok: "wf_table t \<Longrightarrow> table_views t = Some (map (row_at t) [0..<et_length t])"
proof -
  assume wf: "wf_table t"
  have "map (table_row t) [0..<et_length t] = map Some (map (row_at t) [0..<et_length t])"
    using table_row_Some [OF wf] by (fastforce simp: row_at_def)
  then show ?thesis by (simp only: table_views_def table_iter_rows [OF wf] collect_options_Some)
qed

lemma map_of_enumerate:
  "map_of (enumerate n xs) i = (if n \<le> i \<and> i < n + length xs then Some (xs ! (i - n)) else None)"
proof (induction xs arbitrary: n)
  case (Cons x xs)
  then show ?case by (cases "i = n") (auto simp: nth_Cons')
qed simp

section \<open>Postings of the names of a table\<close>

lemma map_of_add_gram:
  "map_of (add_gram slot g m) = (map_of m)(g \<mapsto> insert slot (case map_of m g of None \<Rightarrow> {} | Some A \<Rightarrow> A))"
  by (simp add: add_gram_def update_conv')

lemma distinct_add_gram: "distinct (map fst m) \<Longrightarrow> distinct (map fst (add_gram slot g m))"
  by (simp add: add_gram_def distinct_update)

text \<open>The entries post a relation between grams and slots, without empty sets.\<close>

definition posts :: "(byte list \<times> nat set) list \<Rightarrow> (byte list \<Rightarrow> nat \<Rightarrow> bool) \<Rightarrow> bool" where
  "posts m R \<longleftrightarrow> distinct (map fst m) \<and> (\<forall>g s. posted (map_of m g) s \<longleftrightarrow> R g s) \<and> (\<forall>g. map_of m g \<noteq> Some {})"

lemma posts_add: "posts m R \<Longrightarrow> posts (add_gram slot g m) (\<lambda>h s. R h s \<or> s = slot \<and> h = g)"
proof -
  assume a: "posts m R"
  have "posted (map_of (add_gram slot g m) h) s \<longleftrightarrow> R h s \<or> s = slot \<and> h = g" for h s
  proof (cases "h = g")
    case True
    have "posted (map_of m g) s \<longleftrightarrow> R g s" using a by (simp add: posts_def)
    then show ?thesis using True by (cases "map_of m g") (auto simp: map_of_add_gram)
  qed (use a in \<open>simp add: posts_def map_of_add_gram\<close>)
  moreover have "map_of (add_gram slot g m) h \<noteq> Some {}" for h using a by (simp add: posts_def map_of_add_gram)
  ultimately show ?thesis using a by (simp add: posts_def distinct_add_gram)
qed

lemma posts_adds: "posts m R \<Longrightarrow> posts (fold (add_gram slot) gs m) (\<lambda>h s. R h s \<or> s = slot \<and> h \<in> set gs)"
proof (induction gs arbitrary: m R)
  case (Cons g gs)
  from Cons.IH [OF posts_add [OF Cons.prems, of slot g]] show ?case
    by (simp add: posts_def) blast
qed simp

lemma posts_rows:
  "posts m R \<Longrightarrow> posts (fold (\<lambda>(slot, f). fold (add_gram slot) (windows 3 (as_bytes (search_name f)))) rows m)
     (\<lambda>g s. R g s \<or> (\<exists>f. (s, f) \<in> set rows \<and> g \<in> text_grams 3 (search_name f)))"
proof (induction rows arbitrary: m R)
  case (Cons x rows)
  obtain slot f where x: "x = (slot, f)" by fastforce
  from Cons.IH [OF posts_adds [OF Cons.prems, of slot "windows 3 (as_bytes (search_name f))"]]
  have "posts (fold (\<lambda>(slot, f). fold (add_gram slot) (windows 3 (as_bytes (search_name f)))) (x # rows) m)
     (\<lambda>g s. (R g s \<or> s = slot \<and> g \<in> set (windows 3 (as_bytes (search_name f)))) \<or>
        (\<exists>f. (s, f) \<in> set rows \<and> g \<in> text_grams 3 (search_name f)))" by (simp add: x)
  then show ?case unfolding posts_def x text_grams_def by simp blast
qed simp

lemma posts_name_grams:
  "posts (name_grams rows) (\<lambda>g s. \<exists>f. (s, f) \<in> set rows \<and> g \<in> text_grams 3 (search_name f))"
proof -
  have "posts [] (\<lambda>g s. False)" by (simp add: posts_def)
  from posts_rows [OF this, of rows] show ?thesis by (simp add: name_grams_def)
qed

lemma posting_insert_get:
  assumes "postings_ok m"
  shows "postings_ok (snd (posting_insert pk k A m))"
    "posting_get pk (snd (posting_insert pk k A m)) = (posting_get pk m)(k \<mapsto> A)"
proof -
  show "postings_ok (snd (posting_insert pk k A m))" using assms by (simp add: posting_insert_def Let_def)
  show "posting_get pk (snd (posting_insert pk k A m)) = (posting_get pk m)(k \<mapsto> A)"
    using assms key_shard_less [of pk k] by (auto simp: fun_eq_iff posting_insert_def posting_get_def Let_def nth_list_update)
qed

lemma posting_from_get:
  assumes "distinct (map fst kvs)"
  shows "postings_ok (posting_from pk kvs)" "posting_get pk (posting_from pk kvs) = map_of kvs"
proof -
  have "distinct (map fst kvs) \<Longrightarrow> postings_ok m \<Longrightarrow>
      postings_ok (fold (\<lambda>(k, slots) m. snd (posting_insert pk k slots m)) kvs m) \<and>
      posting_get pk (fold (\<lambda>(k, slots) m. snd (posting_insert pk k slots m)) kvs m) = posting_get pk m ++ map_of kvs" for m
  proof (induction kvs arbitrary: m)
    case (Cons kv kvs)
    obtain k A where kv: "kv = (k, A)" by fastforce
    have k: "map_of kvs k = None" using Cons.prems(1) by (simp add: kv map_of_eq_None_iff)
    have "(posting_get pk m)(k \<mapsto> A) ++ map_of kvs = posting_get pk m ++ (map_of kvs)(k \<mapsto> A)"
      using k by (auto simp: fun_eq_iff map_add_def split: option.splits)
    then show ?case
      using Cons.IH [OF _ posting_insert_get(1) [OF Cons.prems(2)], of pk k A] Cons.prems posting_insert_get(2) [OF Cons.prems(2)]
      by (simp add: kv fun_upd_def del: map_add_upd)
  qed simp
  from this [OF assms, of default_postings]
  show "postings_ok (posting_from pk kvs)" "posting_get pk (posting_from pk kvs) = map_of kvs"
    by (simp_all add: posting_from_def fun_eq_iff map_add_def split: option.splits)
qed

lemma name_grams_index:
  assumes "\<And>s f. (s, f) \<in> set rows \<longleftrightarrow> R s = Some f"
  shows "grams_index trigram_key 3 (\<lambda>s. map_option search_name (R s)) (posting_from trigram_key (name_grams rows))"
proof -
  note posts = posts_name_grams [of rows, unfolded posts_def]
  note get = posting_from_get [OF posts [THEN conjunct1], of trigram_key]
  show ?thesis unfolding grams_index_def keyed_index_def
    using get posts by (auto simp: assms row_keys_def split: option.splits)
qed


section \<open>Orders of the live slots\<close>

lemma compare_names_order: "compare_names a b = order_compare order_name a b"
  by (cases "natural_cmp_folded (as_bytes (folded_name a)) (as_bytes (folded_name b))")
    (simp_all add: compare_names_def order_name_def)

lemma comparator_natural_path: "comparator (\<lambda>(a :: file_entry) (b :: file_entry). view_natural_cmp (folded_path a) (folded_path b))"
  using comparator_field [of SortPath] by (simp add: field_cmp.simps [abs_def])

lemma path_order_natural:
  "order_compare order_path a b \<noteq> Greater \<Longrightarrow> view_natural_cmp (folded_path a) (folded_path b) \<noteq> Greater"
  by (auto simp: order_path_def Let_def split: if_splits)

context comparator
begin

text \<open>Equal elements of a sorted list are neighbours, so that neighbours find all ties.\<close>

lemma sorted_ties_head:
  assumes "sorted_by cmp (a # b # xs)" "s \<in> set (b # xs)" "cmp a s = Equal"
  shows "cmp a b = Equal"
proof -
  have ab: "cmp a b \<noteq> Greater" using assms(1) by (simp add: sorted_by_Cons)
  have "cmp b s \<noteq> Greater" using assms(1,2) cmp_refl by (auto simp: sorted_by_Cons)
  moreover have "cmp s a \<noteq> Greater" using assms(3) cmp_swap [of s a] by simp
  ultimately have "cmp b a \<noteq> Greater" by (rule cmp_trans)
  then show ?thesis using ab cmp_swap [of b a] by (cases "cmp a b") simp_all
qed

lemma cmp_Equal_sym: "cmp a b = Equal \<Longrightarrow> cmp b a = Equal"
  using cmp_swap [of b a] by simp

lemma cmp_Equal_trans: "cmp a b = Equal \<Longrightarrow> cmp b c = Equal \<Longrightarrow> cmp a c = Equal"
proof -
  assume a: "cmp a b = Equal" "cmp b c = Equal"
  then have "cmp a c \<noteq> Greater" using cmp_trans [of a b c] by simp
  moreover have "cmp c a \<noteq> Greater" using a [THEN cmp_Equal_sym] cmp_trans [of c b a] by simp
  ultimately show ?thesis using cmp_swap [of a c] by (cases "cmp a c"; cases "cmp c a") simp_all
qed

lemma tie_pairs_sorted:
  "sorted_by cmp xs \<Longrightarrow> distinct xs \<Longrightarrow>
     tie_pairs (\<lambda>a b. cmp a b = Equal) xs T = T \<union> {s \<in> set xs. \<exists>s' \<in> set xs. s' \<noteq> s \<and> cmp s s' = Equal}"
proof (induction "\<lambda>a b. cmp a b = Equal" xs T rule: tie_pairs.induct)
  case (1 a b xs T)
  let ?T = "if cmp a b = Equal then insert b (insert a T) else T"
  let ?tied = "\<lambda>ss. {s \<in> set ss. \<exists>s' \<in> set ss. s' \<noteq> s \<and> cmp s s' = Equal}"
  have IH: "tie_pairs (\<lambda>a b. cmp a b = Equal) (b # xs) ?T = ?T \<union> ?tied (b # xs)"
    using 1 by (simp add: sorted_by_Cons)
  have ab: "a \<noteq> b" using 1(3) by auto
  have "?T \<union> ?tied (b # xs) = T \<union> ?tied (a # b # xs)"
  proof (cases "cmp a b = Equal")
    case True
    have "s = b \<or> s \<in> ?tied (b # xs)" if "s \<in> set (b # xs)" "cmp s a = Equal" for s
      using that cmp_Equal_trans [OF that(2) True] by auto
    moreover have "a \<in> ?tied (a # b # xs)" "b \<in> ?tied (a # b # xs)" using True ab cmp_Equal_sym by auto
    ultimately show ?thesis using True by auto
  next
    case False
    have "cmp a s \<noteq> Equal" "cmp s a \<noteq> Equal" if "s \<in> set (b # xs)" for s
      using sorted_ties_head [OF 1(2) that] False cmp_Equal_sym [of s a] by auto
    then show ?thesis using False by auto
  qed
  then show ?case using IH by simp
qed auto

end


text \<open>The two orders hold the live slots, sorted; the ties are the slots with an equal path among them.\<close>

definition order_ok :: "'s search_snapshot \<Rightarrow> result_order \<Rightarrow> 's slot_order \<Rightarrow> bool" where
  "order_ok sn ro so \<longleftrightarrow> wf_order so \<and> sorted_by (slot_compare (slot_row sn) ro) (to_vec so) \<and>
     mset (to_vec so) = mset_set (ss_live sn)"

definition path_equal :: "'s search_snapshot \<Rightarrow> nat \<Rightarrow> nat \<Rightarrow> bool" where
  "path_equal sn a b \<longleftrightarrow> same_natural_path (slot_row sn a) (slot_row sn b)"

definition ties_ok :: "'s search_snapshot \<Rightarrow> bool" where
  "ties_ok sn \<longleftrightarrow> ss_path_ties sn = {s \<in> ss_live sn. \<exists>s' \<in> ss_live sn. s' \<noteq> s \<and> path_equal sn s s'}"

definition orders_ok :: "'s search_snapshot \<Rightarrow> bool" where
  "orders_ok sn \<longleftrightarrow> order_ok sn order_name (ss_name_order sn) \<and> order_ok sn order_path (ss_path_order sn) \<and> ties_ok sn"

definition snapshot_ok :: "crates \<Rightarrow> 's search_snapshot \<Rightarrow> bool" where
  "snapshot_ok cr sn \<longleftrightarrow> indexes_ok cr sn \<and> orders_ok sn \<and> (\<forall>s < et_length (ss_entries sn). prepared cr (slot_row sn s))"

lemma comparator_slot_path: "comparator (\<lambda>a b. view_natural_cmp (folded_path (row a)) (folded_path (row b)))"
  for row :: "nat \<Rightarrow> file_entry"
  by (rule comparator_key [OF comparator_natural_path])

lemma sorted_by_path:
  "sorted_by (slot_compare row order_path) ss \<Longrightarrow>
     sorted_by (\<lambda>a b. view_natural_cmp (folded_path (row a)) (folded_path (row b))) ss"
  unfolding sorted_by_def slot_compare_def by (erule sorted_wrt_mono_rel [rotated]) (rule path_order_natural)

lemma ties_of_sorted:
  assumes "sorted_by (slot_compare row order_path) ss" "distinct ss"
  shows "tie_pairs (\<lambda>a b. same_natural_path (row a) (row b)) ss {} =
    {s \<in> set ss. \<exists>s' \<in> set ss. s' \<noteq> s \<and> same_natural_path (row s) (row s')}"
  using comparator.tie_pairs_sorted [OF comparator_slot_path sorted_by_path [OF assms(1)] assms(2), of "{}"]
  by (simp add: same_natural_path_def)

lemma order_ok_sort:
  assumes "mset ss = mset_set (ss_live sn)"
  shows "order_ok sn ro (from_vec (sort_by (slot_compare (slot_row sn) ro) ss))"
  using slot_rows.sorted_by_sort_by assms by (simp add: order_ok_def from_vec_correct(1,2) [OF refl])

section \<open>The built snapshot is consistent\<close>

lemma build_compact_rows_ok:
  assumes "wf_table t" "et_length t \<le> u32_max" "inj_on (slot_id t) {..<et_length t}"
    "\<forall>s < et_length t. scalar_values (search_name (row_at t s)) \<and> prepared cr (row_at t s)"
  shows "\<exists>sn :: 's search_snapshot. build_compact_rows cr t generation = Some sn \<and> snapshot_ok cr sn \<and>
    ss_entries sn = t \<and> ss_live sn = {..<et_length t} \<and> ss_generation sn = generation \<and> ss_content_revision sn = 0"
proof -
  let ?n = "et_length t" and ?row = "row_at t"
  let ?files = "enumerate 0 (map ?row [0..<?n])"
  have views: "table_views t = Some (map ?row [0..<?n])" by (rule table_views_ok [OF assms(1)])
  obtain fs where fs: "slots_from_entries t = Some (Inr fs)" "slots_ok fs t ?n"
    using slots_from_entries_ok [OF assms(1,2)] assms(3) by (auto simp: yields_def split: option.splits sum.splits)
  obtain cs where cs: "columns_build t = Some cs" "columns_repr cs (table_rows t)" "columns_clean cs"
    using columns_build_ok [OF assms(1)] assms(2) by (auto simp: u32_max_def)
  have all: "?n mod 4294967296 = ?n" using assms(2) by (simp add: u32_max_def)
  let ?sorted = "\<lambda>ro. sort_by (slot_compare ?row ro) [0..<?n]"
  have names: "sort_by (\<lambda>a b. compare_names (?row a) (?row b)) [0..<?n] = ?sorted order_name"
    by (simp add: compare_names_order slot_compare_def [abs_def])
  have paths: "sort_by (\<lambda>a b. order_compare order_path (?row a) (?row b)) [0..<?n] = ?sorted order_path"
    by (simp add: slot_compare_def [abs_def])
  let ?sn = "\<lparr>ss_entries = t, ss_file_slots = fs, ss_live = {..<?n}, ss_trigrams = posting_from trigram_key (name_grams ?files),
      ss_name_order = from_vec (?sorted order_name), ss_path_order = from_vec (?sorted order_path),
      ss_path_ties = tie_pairs (\<lambda>a b. same_natural_path (?row a) (?row b)) (?sorted order_path) {},
      ss_metadata = metadata_build cr ?files, ss_numeric = cs, ss_names = t,
      ss_generation = generation, ss_content_revision = 0\<rparr> :: 's search_snapshot"
  have built: "build_compact_rows cr t generation = Some ?sn"
    by (simp add: build_compact_rows_def build_prepared_indexes_def views fs(1) cs(1) all names paths Let_def atLeast0LessThan)
  have row: "slot_row ?sn = ?row" by (simp add: slot_row_def [abs_def] row_at_def [abs_def])
  have live: "live_row ?sn = map_of ?files"
    using table_row_Some [OF assms(1)] by (auto simp: fun_eq_iff live_row_def map_of_enumerate row_at_def)
  have dist: "distinct (map fst ?files)" by (simp add: map_fst_enumerate)
  have member: "(s, f) \<in> set ?files \<longleftrightarrow> live_row ?sn s = Some f" for s f
    unfolding live using map_of_eq_Some_iff [OF dist] by blast
  have "grams_index trigram_key 3 (\<lambda>s. map_option search_name (live_row ?sn s)) (posting_from trigram_key (name_grams ?files))"
    by (rule name_grams_index [OF member])
  moreover have "metadata_index cr (live_row ?sn) (metadata_build cr ?files)"
    unfolding live using assms(4) by (intro metadata_build_index [OF dist]) (auto simp: in_set_enumerate_eq)
  ultimately have "indexes_ok cr ?sn" using assms(1,2) fs(2) cs(2,3) by (simp add: indexes_ok_def)
  moreover have "orders_ok ?sn"
  proof -
    have m: "mset [0..<?n] = mset_set (ss_live ?sn)" by (simp add: lessThan_atLeast0)
    have "sorted_by (slot_compare ?row order_path) (?sorted order_path)" by (rule slot_rows.sorted_by_sort_by)
    moreover have "distinct (?sorted order_path)" using mset_eq_imp_distinct_iff [of "?sorted order_path" "[0..<?n]"] by simp
    ultimately have "tie_pairs (\<lambda>a b. same_natural_path (?row a) (?row b)) (?sorted order_path) {} =
        {s \<in> set (?sorted order_path). \<exists>s' \<in> set (?sorted order_path). s' \<noteq> s \<and> same_natural_path (?row s) (?row s')}"
      by (rule ties_of_sorted)
    then have "ties_ok ?sn" unfolding ties_ok_def path_equal_def row by (simp add: atLeast0LessThan)
    then show ?thesis using order_ok_sort [OF m] by (simp add: orders_ok_def row)
  qed
  ultimately have "snapshot_ok cr ?sn" using assms(4) by (simp add: snapshot_ok_def row)
  then show ?thesis using built by (intro exI [of _ ?sn]) simp
qed


lemma row_ok_prepare [simp]: "row_ok (prepare cr f) = row_ok f"
  by (simp add: row_ok_def prepare_def Let_def)

lemma owned_fields:
  assumes "to_owned_file f = to_owned_file g"
  shows "id f = id g" "name f = name g" "folded_name f = folded_name g" "search_name f = search_name g"
    "extension f = extension g" "folded_extension f = folded_extension g" "is_dir f = is_dir g" "is_symlink f = is_symlink g"
    "size f = size g" "modified f = modified g" "created f = created g"
    "view_text (path f) = view_text (path g)" "view_text (folded_path f) = view_text (folded_path g)"
  using arg_cong [OF assms, of id] arg_cong [OF assms, of name] arg_cong [OF assms, of folded_name]
    arg_cong [OF assms, of search_name] arg_cong [OF assms, of extension] arg_cong [OF assms, of folded_extension]
    arg_cong [OF assms, of is_dir] arg_cong [OF assms, of is_symlink] arg_cong [OF assms, of size]
    arg_cong [OF assms, of modified] arg_cong [OF assms, of created]
    arg_cong [OF assms, of "\<lambda>f. view_text (path f)"] arg_cong [OF assms, of "\<lambda>f. view_text (folded_path f)"]
  by (simp_all add: to_owned_file_def)

definition row_input_ok :: "crates \<Rightarrow> file_entry \<Rightarrow> bool" where
  "row_input_ok cr f \<longleftrightarrow> row_ok f \<and> row_small (prepare cr f) \<and> scalar_values (search_name (prepare cr f))"

lemma snapshot_from_rows_ok:
  assumes "list_all (row_input_ok cr) rows" "length rows \<le> u32_max" "distinct (map id rows)"
  shows "\<exists>sn :: 's search_snapshot. snapshot_from_rows cr (map Inr rows) generation = Some (Inr sn) \<and> snapshot_ok cr sn \<and>
    ss_generation sn = generation \<and> ss_live sn = {..<length rows} \<and>
    table_rows (ss_entries sn) = map (\<lambda>row. to_owned_file (prepare cr row)) rows \<and>
    (\<forall>s < length rows. to_owned_file (slot_row sn s) = to_owned_file (prepare cr (rows ! s)))"
proof -
  have "list_all (\<lambda>row. row_ok row \<and> row_small row) (map (prepare cr) rows)"
    using assms(1) by (simp add: list_all_iff row_input_ok_def)
  then obtain t where t: "table_from_rows (map Inr (map (prepare cr) rows)) = Some (Inr t)" "wf_table t"
    "table_rows t = map to_owned_file (map (prepare cr) rows)"
    using table_from_rows_ok [of "map (prepare cr) rows"] assms(2) by auto
  have len: "et_length t = length rows" using t(3) length_table_rows [of t] by (metis length_map)
  have row: "to_owned_file (row_at t s) = to_owned_file (prepare cr (rows ! s))" if "s < length rows" for s
    using that t(3) len table_rows_nth [of s t] by (simp add: row_at_def)
  have id: "slot_id t s = id (rows ! s)" if "s < length rows" for s
    using owned_fields(1) [OF row [OF that]] by (simp add: slot_id_def row_at_def prepare_def Let_def)
  have "inj_on (slot_id t) {..<et_length t}"
    using assms(3) id by (auto simp: inj_on_def len distinct_conv_nth)
  moreover have "scalar_values (search_name (row_at t s)) \<and> prepared cr (row_at t s)" if "s < et_length t" for s
  proof -
    have s: "s < length rows" using that len by simp
    have "prepared cr (to_owned_file (row_at t s))" unfolding row [OF s] by simp
    moreover have "row_input_ok cr (rows ! s)" using assms(1) s by (simp add: list_all_length)
    ultimately show ?thesis using owned_fields(4) [OF row [OF s]] by (simp add: row_input_ok_def)
  qed
  ultimately obtain sn :: "'s search_snapshot" where sn: "build_compact_rows cr t generation = Some sn" "snapshot_ok cr sn"
    "ss_entries sn = t" "ss_live sn = {..<et_length t}" "ss_generation sn = generation"
    using build_compact_rows_ok [OF t(2)] len assms(2) by metis
  moreover have "prepare_rows cr (map Inr rows) = Some (Inr t)" using t(1) by (simp add: prepare_rows_def comp_def)
  ultimately show ?thesis
    using row len t(3) by (intro exI [of _ sn]) (simp add: comp_def snapshot_from_rows_def fine_def slot_row_def row_at_def)
qed

section \<open>Properties\<close>

text \<open>
  C7: a snapshot built from rows is consistent. Preparing, storing, indexing and sorting rows with distinct
  persistent numbers never fails, and the snapshot holds exactly the prepared rows: the lookup by number, the
  trigrams, the metadata postings, the numeric columns and the name column describe them, both orders are
  sorted permutations of the slots, and the path ties are the slots whose path equals another one's in the
  natural order. The hypotheses bound the numbers and texts of the rows and their count.
\<close>

theorem built_snapshot_consistent:
  assumes "list_all (row_input_ok cr) rows" "length rows \<le> u32_max" "distinct (map id rows)"
  shows "\<exists>sn :: 's search_snapshot. snapshot_from_rows cr (map Inr rows) generation = Some (Inr sn) \<and> snapshot_ok cr sn \<and>
    ss_generation sn = generation \<and> ss_live sn = {..<length rows} \<and>
    (\<forall>s < length rows. to_owned_file (slot_row sn s) = to_owned_file (prepare cr (rows ! s)))"
  using snapshot_from_rows_ok [OF assms, of generation] by blast

theorem built_snapshot_consistent_witness:
  "\<exists>sn :: unit search_snapshot. snapshot_from_rows plain_crates [Inr report_entry] 5 = Some (Inr sn) \<and>
     ss_live sn = {0} \<and> snapshot_ok plain_crates sn"
proof -
  have "prepare plain_crates report_entry = report_entry"
    by (simp add: prepare_def report_entry_def sample_entry_def shared_search_fold_def fold_text_def is_ascii_def lit_def
        to_ascii_lowercase_def ascii_lower_def view_of_str_def view_text_def parent_or_default_def path_parent.simps
        trim_right.simps next_component_back_def before_body_def has_root_def include_cur_dir_def starts_with_def sep_def dot_def Let_def)
  then have "list_all (row_input_ok plain_crates) [report_entry]"
    using report_row_ok by (simp add: row_input_ok_def scalar_values_def report_entry_def lit_def)
  from built_snapshot_consistent [OF this, of 5, where ?'s = unit] show ?thesis
    by (auto simp: u32_max_def lessThan_Suc)
qed

end
