(* ===== verification/Order_Update.thy ===== *)
theory Order_Update
  imports Snapshot_Build
begin

text \<open>
  Carrying the sorted orders over a batch of changes, \<open>updated_order\<close> and \<open>updated_path_ties\<close> of
  \<open>core/src/index_store.rs\<close>: changed slots are taken out of the previous order and those that live are merged in
  again; the ties of paths are decided again only for changed slots and their neighbours.
\<close>

section \<open>Operations\<close>

definition lookup_work :: "nat set \<Rightarrow> nat \<Rightarrow> nat" where
  "lookup_work touched len = min u64_max (min u64_max (card touched * (ilog2 (max 1 len) + 1)) * 32)"

definition removed_by_search :: "'s slot_order \<Rightarrow> entry_table \<Rightarrow> nat set \<Rightarrow> result_order \<Rightarrow> nat list" where
  "removed_by_search so t touched ro =
     List.map_filter (\<lambda>slot.
       case table_row t slot of
         None \<Rightarrow> None
       | Some old \<Rightarrow>
           (case binary_search_by so (\<lambda>candidate. order_compare ro (row_at t candidate) old) of
              Inl _ \<Rightarrow> None
            | Inr place \<Rightarrow> Some place))
     (sorted_list_of_set touched)"

definition removed_by_scan :: "'s slot_order \<Rightarrow> nat set \<Rightarrow> nat list" where
  "removed_by_scan so touched =
     List.map_filter (\<lambda>(place, slot). if slot \<in> touched then Some place else None) (enumerate 0 (to_vec so))"

definition updated_order ::
    "'s slot_order \<Rightarrow> entry_table \<Rightarrow> nat set \<Rightarrow> nat set \<Rightarrow> entry_table \<Rightarrow> result_order \<Rightarrow> 's slot_order option" where
  "updated_order previous previous_entries touched live entries ro =
     (let compare = (\<lambda>a b. order_compare ro (row_at entries a) (row_at entries b));
          replacements = sort_by compare (filter (\<lambda>slot. slot \<in> live) (sorted_list_of_set touched));
          removed = (if lookup_work touched (order_len previous) < order_len previous
                     then removed_by_search previous previous_entries touched ro
                     else removed_by_scan previous touched)
      in updated previous removed replacements compare)"

definition compare_paths :: "file_entry \<Rightarrow> file_entry \<Rightarrow> ordering" where
  "compare_paths a b =
     then_with (view_natural_cmp (folded_path a) (folded_path b))
       (then_with (view_cmp (path a) (path b)) (prim_cmp (id a) (id b)))"

definition path_position :: "'s slot_order \<Rightarrow> entry_table \<Rightarrow> nat \<Rightarrow> nat option" where
  "path_position so t slot =
     (case table_row t slot of
        None \<Rightarrow> None
      | Some target \<Rightarrow>
          (case binary_search_by so (\<lambda>candidate. compare_paths (row_at t candidate) target) of
             Inl _ \<Rightarrow> None
           | Inr place \<Rightarrow> Some place))"

text \<open>\<open>order[place]\<close>, which panics out of range.\<close>

definition order_index :: "'s slot_order \<Rightarrow> nat \<Rightarrow> nat option" where
  "order_index so place = Option.bind (order_get so place) (\<lambda>slot. slot)"

fun insert_ranks :: "'s slot_order \<Rightarrow> nat list \<Rightarrow> nat set \<Rightarrow> nat set option" where
  "insert_ranks so [] found = Some found"
| "insert_ranks so (p # ps) found = Option.bind (order_index so p) (\<lambda>slot. insert_ranks so ps (insert slot found))"

definition include_order_neighbors :: "nat \<Rightarrow> 's slot_order \<Rightarrow> entry_table \<Rightarrow> nat set \<Rightarrow> nat set option" where
  "include_order_neighbors slot so t found =
     (case path_position so t slot of
        None \<Rightarrow> Some found
      | Some place \<Rightarrow> insert_ranks so [place - 1..<min (place + 2) (order_len so)] found)"

fun neighbor_loop ::
    "'s slot_order \<Rightarrow> entry_table \<Rightarrow> 's slot_order \<Rightarrow> entry_table \<Rightarrow> nat list \<Rightarrow> nat set \<Rightarrow> nat set option" where
  "neighbor_loop so t so' t' [] found = Some found"
| "neighbor_loop so t so' t' (s # ss) found =
     Option.bind (include_order_neighbors s so t found) (\<lambda>slots1.
       Option.bind (include_order_neighbors s so' t' slots1) (neighbor_loop so t so' t' ss))"

definition same_at :: "entry_table \<Rightarrow> 's slot_order \<Rightarrow> nat \<Rightarrow> nat \<Rightarrow> bool option" where
  "same_at t so slot place = map_option (\<lambda>other. same_natural_path (row_at t slot) (row_at t other)) (order_index so place)"

definition beside_equal :: "entry_table \<Rightarrow> 's slot_order \<Rightarrow> nat \<Rightarrow> nat \<Rightarrow> bool option" where
  "beside_equal t so slot place =
     Option.bind (if 0 < place then same_at t so slot (place - 1) else Some False) (\<lambda>before.
       if before then Some True
       else if place + 1 < order_len so then same_at t so slot (place + 1) else Some False)"

fun tie_loop :: "nat set \<Rightarrow> entry_table \<Rightarrow> 's slot_order \<Rightarrow> nat list \<Rightarrow> nat set \<Rightarrow> nat set option" where
  "tie_loop live t so [] ties = Some ties"
| "tie_loop live t so (slot # ss) ties =
     (if slot \<notin> live then tie_loop live t so ss (ties - {slot})
      else Option.bind (path_position so t slot) (\<lambda>place.
        Option.bind (beside_equal t so slot place) (\<lambda>tied.
          tie_loop live t so ss (if tied then insert slot (ties - {slot}) else ties - {slot}))))"

definition updated_path_ties :: "'s search_snapshot \<Rightarrow> nat set \<Rightarrow> nat set \<Rightarrow> entry_table \<Rightarrow> 's slot_order \<Rightarrow> nat set option" where
  "updated_path_ties previous touched live entries so =
     Option.bind
       (neighbor_loop (ss_path_order previous) (ss_entries previous) so entries (sorted_list_of_set touched) touched)
       (\<lambda>found. tie_loop live entries so (sorted_list_of_set found) (ss_path_ties previous))"

section \<open>Sorted orders of a set of slots\<close>

definition order_holds :: "(nat \<Rightarrow> file_entry) \<Rightarrow> result_order \<Rightarrow> nat set \<Rightarrow> 's slot_order \<Rightarrow> bool" where
  "order_holds row ro live so \<longleftrightarrow>
     wf_order so \<and> sorted_by (slot_compare row ro) (to_vec so) \<and> mset (to_vec so) = mset_set live"

lemma order_ok_holds: "order_ok sn ro so \<longleftrightarrow> order_holds (slot_row sn) ro (ss_live sn) so"
  by (simp add: order_ok_def order_holds_def)

lemma order_holdsD:
  assumes "order_holds row ro live so" "finite live"
  shows "wf_order so" "sorted_by (slot_compare row ro) (to_vec so)" "set (to_vec so) = live" "distinct (to_vec so)"
    "order_len so = length (to_vec so)"
proof -
  show wf: "wf_order so" and "sorted_by (slot_compare row ro) (to_vec so)" using assms(1) by (simp_all add: order_holds_def)
  have m: "mset (to_vec so) = mset_set live" using assms(1) by (simp add: order_holds_def)
  from arg_cong [OF m, of set_mset] show s: "set (to_vec so) = live" using assms(2) by simp
  have "length (to_vec so) = card live" by (metis m size_mset size_mset_set)
  then show "distinct (to_vec so)" using s by (intro card_distinct) simp
  show "order_len so = length (to_vec so)" by (rule order_len_to_vec [OF wf])
qed

lemma order_index_eq: "wf_order so \<Longrightarrow> place < length (to_vec so) \<Longrightarrow> order_index so place = Some (to_vec so ! place)"
  by (simp add: order_index_def order_get_eq)

text \<open>Searching a sorted order for a row finds the slot with its path and number.\<close>

context comparator
begin

lemma sorted_probe:
  "sorted_by cmp xs \<Longrightarrow> sorted (map (\<lambda>x. cmp x y) xs)"
proof (induction xs)
  case (Cons x xs)
  have "cmp x y \<le> cmp z y" if "z \<in> set xs" for z
  proof -
    have xz: "cmp x z \<noteq> Greater" using Cons.prems that by (simp add: sorted_by_Cons)
    show ?thesis
    proof (cases "cmp z y")
      case Less
      have "cmp y z = Greater" using Less cmp_swap [of y z] by simp
      then have "cmp y x = Greater" using cmp_trans [of y x z] xz by blast
      then show ?thesis using cmp_swap [of x y] Less by simp
    next
      case Equal
      then show ?thesis using cmp_trans [OF xz, of y] by simp
    next
      case Greater
      then show ?thesis by (cases "cmp x y") (simp_all add: less_eq_ordering_def)
    qed
  qed
  then show ?case using Cons by (simp add: sorted_by_Cons)
qed simp

end

lemma search_slot:
  assumes so: "order_holds row ro live so" "finite live" and inj: "inj_on (\<lambda>s. id (row s)) (insert slot live)"
  shows "case binary_search_by so (\<lambda>c. order_compare ro (row c) (row slot)) of
      Inl _ \<Rightarrow> slot \<notin> live
    | Inr place \<Rightarrow> place < length (to_vec so) \<and> to_vec so ! place = slot"
proof -
  note d = order_holdsD [OF so]
  let ?f = "\<lambda>c. order_compare ro (row c) (row slot)" and ?xs = "to_vec so"
  define n where "n = partition_point (\<lambda>x. ?f x = Less) ?xs"
  have "sorted (map ?f ?xs)"
    using slot_rows.sorted_probe [OF d(2), of slot] by (simp add: slot_compare_def)
  then have eq: "binary_search_by so ?f = (if n < length ?xs \<and> ?f (?xs ! n) = Equal then Inr n else Inl n)"
    by (simp add: binary_search_by_eq [OF d(1)] slice_binary_search_def n_def Let_def)
  show ?thesis
  proof (cases "n < length ?xs \<and> ?f (?xs ! n) = Equal")
    case True
    then have "?xs ! n \<in> live" using d(3) by auto
    moreover have "id (row (?xs ! n)) = id (row slot)" using True order_compare_Equal by blast
    ultimately have "?xs ! n = slot" using inj_onD [OF inj, of "?xs ! n" slot] by simp
    then show ?thesis using True eq by simp
  next
    case False
    have "slot \<notin> live"
    proof
      assume "slot \<in> live"
      then obtain i where i: "i < length ?xs" "?xs ! i = slot" using d(3) by (auto simp: in_set_conv_nth)
      have fi: "?f (?xs ! i) = Equal" using i row_order.cmp_refl by simp
      then have "\<not> i < n" using partition_point_before [of i "\<lambda>x. ?f x = Less" ?xs] by (auto simp: n_def)
      then have n: "n < length ?xs" "n \<le> i" using i by simp_all
      have "?f (?xs ! n) \<noteq> Less" using partition_point_at [of "\<lambda>x. ?f x = Less" ?xs] n(1) by (simp add: n_def)
      moreover have "?f (?xs ! n) \<noteq> Greater"
        using sorted_by_nth [OF d(2), of n i] n(2) i fi by (cases "n = i") (auto simp: slot_compare_def)
      ultimately have "?f (?xs ! n) = Equal" by (cases "?f (?xs ! n)") simp_all
      then show False using False n(1) by simp
    qed
    then show ?thesis using eq unfolding if_not_P [OF False] by simp
  qed
qed

text \<open>The ranks taken out are those of the touched slots, whichever way they are found.\<close>

lemma removed_by_scan_set: "set (removed_by_scan so touched) = {r. r < length (to_vec so) \<and> to_vec so ! r \<in> touched}"
  by (force simp: removed_by_scan_def List.map_filter_def in_set_enumerate_eq image_iff split: if_splits)

lemma map_filter_set: "set (List.map_filter f xs) = {y. \<exists>x \<in> set xs. f x = Some y}"
  by (force simp: List.map_filter_def)

lemma slot_id_row: "slot_id t = (\<lambda>s. id (row_at t s))"
  by (simp add: fun_eq_iff slot_id_def row_at_def)

lemma search_row:
  assumes so: "order_holds (row_at t) ro live so" "finite live" and t: "wf_table t" "live \<subseteq> {..<et_length t}"
    and inj: "inj_on (slot_id t) {..<et_length t}"
  shows "(case table_row t slot of None \<Rightarrow> None
    | Some old \<Rightarrow> (case binary_search_by so (\<lambda>c. order_compare ro (row_at t c) old) of Inl _ \<Rightarrow> None | Inr place \<Rightarrow> Some place)) = Some r \<longleftrightarrow>
    r < length (to_vec so) \<and> to_vec so ! r = slot"
proof -
  note d = order_holdsD [OF so]
  have row: "table_row t slot = (if slot < et_length t then Some (row_at t slot) else None)"
    using table_row_Some [OF t(1), of slot] by (auto simp: row_at_def table_row_def table_get_def)
  show ?thesis
  proof (cases "slot < et_length t")
    case True
    have "inj_on (\<lambda>s. id (row_at t s)) (insert slot live)"
      using inj_on_subset [OF inj, of "insert slot live"] t(2) True unfolding slot_id_row by simp
    note search = search_slot [OF so this]
    show ?thesis
    proof (cases "binary_search_by so (\<lambda>c. order_compare ro (row_at t c) (row_at t slot))")
      case (Inl n)
      then have "slot \<notin> set (to_vec so)" using search d(3) by simp
      then show ?thesis using Inl True by (auto simp: row)
    next
      case (Inr n)
      then have "n < length (to_vec so)" "to_vec so ! n = slot" using search by simp_all
      then show ?thesis using Inr True nth_eq_iff_index_eq [OF d(4)] by (auto simp: row)
    qed
  next
    case False
    then have "slot \<notin> set (to_vec so)" using t(2) d(3) by auto
    then show ?thesis using False by (auto simp: row)
  qed
qed

lemma removed_by_search_set:
  assumes "order_holds (row_at t) ro live so" "finite live" "wf_table t" "live \<subseteq> {..<et_length t}"
    "inj_on (slot_id t) {..<et_length t}" "finite touched"
  shows "set (removed_by_search so t touched ro) = {r. r < length (to_vec so) \<and> to_vec so ! r \<in> touched}"
  using search_row [OF assms(1-5)] assms(6) by (auto simp: removed_by_search_def map_filter_set)

lemma nths_touched:
  "nths xs (- {r. r < length xs \<and> xs ! r \<in> A}) = filter (\<lambda>s. s \<notin> A) xs"
  unfolding filter_eq_nths by (rule nths_same) auto

text \<open>The rows that are not touched compare as before.\<close>

definition same_order :: "result_order \<Rightarrow> (nat \<Rightarrow> file_entry) \<Rightarrow> (nat \<Rightarrow> file_entry) \<Rightarrow> nat set \<Rightarrow> bool" where
  "same_order ro row row' keep \<longleftrightarrow> (\<forall>a \<in> keep. \<forall>b \<in> keep. slot_compare row' ro a b = slot_compare row ro a b)"

lemma updated_order_ok:
  assumes so: "order_holds (row_at t) ro live so" "finite live" and t: "wf_table t" "live \<subseteq> {..<et_length t}"
    and inj: "inj_on (slot_id t) {..<et_length t}" and fin: "finite touched"
    and live': "live' - touched = live - touched" "finite live'" and same: "same_order ro (row_at t) (row_at t') (live - touched)"
  shows "\<exists>so'. updated_order so t touched live' t' ro = Some so' \<and> order_holds (row_at t') ro live' so'"
proof -
  note d = order_holdsD [OF so]
  let ?cmp = "slot_compare (row_at t') ro" and ?xs = "to_vec so"
  define removed where "removed = (if lookup_work touched (order_len so) < order_len so
    then removed_by_search so t touched ro else removed_by_scan so touched)"
  define reps where "reps = sort_by ?cmp (filter (\<lambda>slot. slot \<in> live') (sorted_list_of_set touched))"
  have removed: "set removed = {r. r < length ?xs \<and> ?xs ! r \<in> touched}"
    by (simp add: removed_def removed_by_search_set [OF so t inj fin] removed_by_scan_set)
  let ?kept = "filter (\<lambda>s. s \<notin> touched) ?xs"
  have kept: "nths ?xs (- set removed) = ?kept" unfolding removed by (rule nths_touched)
  have "sorted_by (slot_compare (row_at t) ro) ?kept" using d(2) by (rule sorted_by_filter)
  then have sorted: "sorted_by ?cmp ?kept"
    unfolding sorted_by_def using same d(3) by (elim sorted_wrt_mono_rel [rotated]) (auto simp: same_order_def)
  have "sorted_by ?cmp reps" unfolding reps_def by (rule slot_rows.sorted_by_sort_by)
  then obtain so' where so': "updated so removed reps ?cmp = Some so'" "wf_order so'" "sorted_by ?cmp (to_vec so')"
    "mset (to_vec so') = mset ?kept + mset reps"
    using updated_correct [OF slot_rows.comparator_axioms d(1), of "row_at t'" ro removed reps] sorted removed unfolding kept by auto
  have "mset (to_vec so') = mset_set live'"
  proof -
    have "mset ?kept = mset_set (live' - touched)"
      using mset_set_set [of ?kept] d(3,4) live'(1) by (simp add: set_diff_eq)
    moreover have "mset reps = mset_set (live' \<inter> touched)"
      using mset_set_set [of "filter (\<lambda>slot. slot \<in> live') (sorted_list_of_set touched)"] fin
      by (simp add: reps_def Int_def conj_commute)
    moreover have "mset_set (live' - touched) + mset_set (live' \<inter> touched) = mset_set live'"
      using mset_set_Union [of "live' - touched" "live' \<inter> touched"] live'(2) Un_Diff_Int [of live' touched]
      by (metis Diff_disjoint Int_Diff_disjoint finite_Diff finite_Int inf_commute)
    ultimately show ?thesis using so'(4) by simp
  qed
  then have "order_holds (row_at t') ro live' so'" using so'(2,3) by (simp add: order_holds_def)
  moreover have "updated_order so t touched live' t' ro = updated so removed reps ?cmp"
    by (simp add: updated_order_def removed_def reps_def slot_compare_def [abs_def] Let_def)
  ultimately show ?thesis using so'(1) by simp
qed

section \<open>Neighbours\<close>

lemma compare_paths_order: "compare_paths a b = order_compare order_path a b"
  by (cases "view_natural_cmp (folded_path a) (folded_path b)") (simp_all add: compare_paths_def order_path_def)

text \<open>The slots at a place of an order and beside it.\<close>

definition near :: "nat list \<Rightarrow> nat \<Rightarrow> nat set" where
  "near xs s = {xs ! p | p r. r < length xs \<and> xs ! r = s \<and> p < length xs \<and> p \<le> r + 1 \<and> r \<le> p + 1}"

lemma near_sym: "a \<in> near xs b \<Longrightarrow> b \<in> near xs a"
  by (auto simp: near_def)

text \<open>What the operations rely on: an order of the live slots of a table with distinct numbers.\<close>

definition path_sorted :: "entry_table \<Rightarrow> nat set \<Rightarrow> 's slot_order \<Rightarrow> bool" where
  "path_sorted t live so \<longleftrightarrow> order_holds (row_at t) order_path live so \<and> finite live \<and> wf_table t \<and>
     live \<subseteq> {..<et_length t} \<and> inj_on (slot_id t) {..<et_length t}"

lemma path_sortedD:
  assumes "path_sorted t live so"
  shows "path_position so t slot = Some r \<longleftrightarrow> r < length (to_vec so) \<and> to_vec so ! r = slot"
    "set (to_vec so) = live" "distinct (to_vec so)" "order_len so = length (to_vec so)"
    "r < length (to_vec so) \<Longrightarrow> order_index so r = Some (to_vec so ! r)"
    "sorted_by (\<lambda>a b. view_natural_cmp (folded_path (row_at t a)) (folded_path (row_at t b))) (to_vec so)"
proof -
  have a: "order_holds (row_at t) order_path live so" "finite live" "wf_table t" "live \<subseteq> {..<et_length t}"
    "inj_on (slot_id t) {..<et_length t}" using assms by (simp_all add: path_sorted_def)
  note d = order_holdsD [OF a(1,2)]
  show "path_position so t slot = Some r \<longleftrightarrow> r < length (to_vec so) \<and> to_vec so ! r = slot"
    unfolding path_position_def compare_paths_order by (rule search_row [OF a])
  show "set (to_vec so) = live" "distinct (to_vec so)" "order_len so = length (to_vec so)" using d by simp_all
  show "r < length (to_vec so) \<Longrightarrow> order_index so r = Some (to_vec so ! r)" using order_index_eq [OF d(1)] .
  show "sorted_by (\<lambda>a b. view_natural_cmp (folded_path (row_at t a)) (folded_path (row_at t b))) (to_vec so)"
    by (rule sorted_by_path [OF d(2)])
qed

lemma insert_ranks_ok:
  assumes "path_sorted t live so" "\<forall>p \<in> set ps. p < length (to_vec so)"
  shows "insert_ranks so ps found = Some (found \<union> (\<lambda>p. to_vec so ! p) ` set ps)"
  using assms(2) by (induction ps arbitrary: found) (auto simp: path_sortedD(5) [OF assms(1)])

lemma include_order_neighbors_ok:
  assumes so: "path_sorted t live so"
  shows "include_order_neighbors slot so t found = Some (found \<union> near (to_vec so) slot)"
proof (cases "path_position so t slot")
  case None
  then have "near (to_vec so) slot = {}" using path_sortedD(1) [OF so, of slot] by (auto simp: near_def)
  then show ?thesis using None by (simp add: include_order_neighbors_def)
next
  case (Some r)
  then have r: "r < length (to_vec so)" "to_vec so ! r = slot" using path_sortedD(1) [OF so] by simp_all
  let ?ps = "[r - 1..<min (r + 2) (length (to_vec so))]"
  have "near (to_vec so) slot = (\<lambda>p. to_vec so ! p) ` set ?ps"
    using nth_eq_iff_index_eq [OF path_sortedD(3) [OF so]] r by (force simp: near_def)
  moreover have "insert_ranks so ?ps found = Some (found \<union> (\<lambda>p. to_vec so ! p) ` set ?ps)"
    by (rule insert_ranks_ok [OF so]) auto
  ultimately show ?thesis using Some by (simp add: include_order_neighbors_def path_sortedD(4) [OF so])
qed

lemma neighbor_loop_ok:
  assumes "path_sorted t live so" "path_sorted t' live' so'"
  shows "neighbor_loop so t so' t' ss found = Some (found \<union> (\<Union>s \<in> set ss. near (to_vec so) s \<union> near (to_vec so') s))"
  by (induction ss arbitrary: found)
    (auto simp: include_order_neighbors_ok [OF assms(1)] include_order_neighbors_ok [OF assms(2)])

context comparator
begin

text \<open>An element with equals in a sorted list has one beside it.\<close>

lemma equal_beside:
  assumes "sorted_by cmp xs" "i < length xs" "j < length xs" "i \<noteq> j" "cmp (xs ! i) (xs ! j) = Equal"
  shows "0 < i \<and> cmp (xs ! i) (xs ! (i - 1)) = Equal \<or> i + 1 < length xs \<and> cmp (xs ! i) (xs ! (i + 1)) = Equal"
proof (cases "j < i")
  case True
  have ij: "cmp (xs ! (i - 1)) (xs ! i) \<noteq> Greater" using sorted_by_nth [OF assms(1), of "i - 1" i] True assms(2) by simp
  have "cmp (xs ! j) (xs ! (i - 1)) \<noteq> Greater"
    using sorted_by_nth [OF assms(1), of j "i - 1"] True assms(2) cmp_refl by (cases "j = i - 1") auto
  then have "cmp (xs ! i) (xs ! (i - 1)) \<noteq> Greater" using assms(5) cmp_trans [of "xs ! i" "xs ! j"] by simp
  then show ?thesis using ij True cmp_swap [of "xs ! (i - 1)" "xs ! i"] by (cases "cmp (xs ! i) (xs ! (i - 1))") simp_all
next
  case False
  then have j: "i + 1 \<le> j" using assms(4) by simp
  have ij: "cmp (xs ! i) (xs ! (i + 1)) \<noteq> Greater" using sorted_by_nth [OF assms(1), of i "i + 1"] j assms(3) by simp
  have "cmp (xs ! (i + 1)) (xs ! j) \<noteq> Greater"
    using sorted_by_nth [OF assms(1), of "i + 1" j] j assms(3) cmp_refl by (cases "j = i + 1") auto
  moreover have "cmp (xs ! j) (xs ! i) \<noteq> Greater" using cmp_Equal_sym [OF assms(5)] by simp
  ultimately have "cmp (xs ! (i + 1)) (xs ! i) \<noteq> Greater" using cmp_trans [of "xs ! (i + 1)" "xs ! j"] by blast
  then show ?thesis using ij j assms(3) cmp_swap [of "xs ! (i + 1)" "xs ! i"] by (cases "cmp (xs ! i) (xs ! (i + 1))") simp_all
qed

end

section \<open>Ties are decided by neighbours\<close>

definition tied :: "entry_table \<Rightarrow> nat set \<Rightarrow> nat \<Rightarrow> bool" where
  "tied t live s \<longleftrightarrow> (\<exists>s' \<in> live. s' \<noteq> s \<and> same_natural_path (row_at t s) (row_at t s'))"

lemma tied_beside:
  assumes so: "path_sorted t live so" and i: "i < length (to_vec so)" and tied: "tied t live (to_vec so ! i)"
  shows "0 < i \<and> same_natural_path (row_at t (to_vec so ! i)) (row_at t (to_vec so ! (i - 1))) \<or>
    i + 1 < length (to_vec so) \<and> same_natural_path (row_at t (to_vec so ! i)) (row_at t (to_vec so ! (i + 1)))"
proof -
  obtain j where "j < length (to_vec so)" "i \<noteq> j" "same_natural_path (row_at t (to_vec so ! i)) (row_at t (to_vec so ! j))"
    using tied path_sortedD(2) [OF so] unfolding tied_def by (metis in_set_conv_nth)
  then show ?thesis
    using comparator.equal_beside [OF comparator_slot_path path_sortedD(6) [OF so] i, of j] by (simp add: same_natural_path_def)
qed

lemma beside_equal_ok:
  assumes so: "path_sorted t live so" and i: "i < length (to_vec so)"
  shows "beside_equal t so (to_vec so ! i) i = Some (tied t live (to_vec so ! i))"
proof -
  let ?xs = "to_vec so" and ?same = "\<lambda>j. same_natural_path (row_at t (to_vec so ! i)) (row_at t (to_vec so ! j))"
  note d = path_sortedD [OF so]
  have other: "tied t live (?xs ! i)" if "?same j" "j < length ?xs" "j \<noteq> i" for j
    using that d(2) nth_eq_iff_index_eq [OF d(3) that(2) i] by (auto simp: tied_def)
  have tied: "tied t live (?xs ! i) \<longleftrightarrow> 0 < i \<and> ?same (i - 1) \<or> i + 1 < length ?xs \<and> ?same (i + 1)"
    using tied_beside [OF so i] other [of "i - 1"] other [of "i + 1"] i by auto
  show ?thesis unfolding tied
    using i by (auto simp: beside_equal_def same_at_def d(4,5))
qed

lemma tie_loop_ok:
  assumes so: "path_sorted t live so"
  shows "tie_loop live t so ss ties = Some (ties - set ss \<union> {s \<in> set ss \<inter> live. tied t live s})"
proof (induction ss arbitrary: ties)
  case (Cons s ss)
  note d = path_sortedD [OF so]
  show ?case
  proof (cases "s \<in> live")
    case True
    then obtain i where i: "i < length (to_vec so)" "to_vec so ! i = s" using d(2) by (metis in_set_conv_nth)
    then have "path_position so t s = Some i" "beside_equal t so s i = Some (tied t live s)"
      using d(1) beside_equal_ok [OF so i(1)] by simp_all
    then show ?thesis using True Cons.IH by auto
  qed (use Cons.IH in auto)
qed simp

text \<open>
  A slot that is neither touched nor beside a touched slot in either order keeps its tie: one of its equals is
  beside it, so that it is not touched either.
\<close>

lemma tied_unchanged:
  assumes so: "path_sorted t live so" "s \<in> live" "tied t live s" and keep: "live - touched = live' - touched"
    and s: "s \<notin> touched" "\<forall>n \<in> touched. s \<notin> near (to_vec so) n"
    and same: "\<forall>a \<in> live - touched. \<forall>b \<in> live - touched.
      same_natural_path (row_at t' a) (row_at t' b) = same_natural_path (row_at t a) (row_at t b)"
  shows "s \<in> live'" "tied t' live' s"
proof -
  note d = path_sortedD [OF so(1)]
  show "s \<in> live'" using so(2) keep s(1) by blast
  obtain i where i: "i < length (to_vec so)" "to_vec so ! i = s" using so(2) d(2) by (metis in_set_conv_nth)
  have "\<exists>j. j < length (to_vec so) \<and> j \<noteq> i \<and> j \<le> i + 1 \<and> i \<le> j + 1 \<and> same_natural_path (row_at t s) (row_at t (to_vec so ! j))"
    using tied_beside [OF so(1) i(1), unfolded i(2), OF so(3)]
  proof (elim disjE conjE)
    assume "0 < i" "same_natural_path (row_at t s) (row_at t (to_vec so ! (i - 1)))"
    then show ?thesis using i(1) by (intro exI [of _ "i - 1"]) auto
  next
    assume "i + 1 < length (to_vec so)" "same_natural_path (row_at t s) (row_at t (to_vec so ! (i + 1)))"
    then show ?thesis by (intro exI [of _ "i + 1"]) simp
  qed
  then obtain j where j: "j < length (to_vec so)" "j \<noteq> i" "j \<le> i + 1" "i \<le> j + 1"
    "same_natural_path (row_at t s) (row_at t (to_vec so ! j))" by blast
  let ?n = "to_vec so ! j"
  have n: "?n \<in> live" "?n \<noteq> s" using j(1,2) d(2) i nth_eq_iff_index_eq [OF d(3) j(1) i(1)] by auto
  have "?n \<in> near (to_vec so) s" using i j by (auto simp: near_def)
  then have "?n \<notin> touched" using s(2) near_sym by blast
  then show "tied t' live' s" using n j(5) same so(2) s(1) keep unfolding tied_def by blast
qed

lemma updated_path_ties_ok:
  assumes prev: "path_sorted (ss_entries sn) (ss_live sn) (ss_path_order sn)" "ties_ok sn"
    and so: "path_sorted t' live' so'" and fin: "finite touched"
    and keep: "live' - touched = ss_live sn - touched"
    and same: "\<forall>a \<in> ss_live sn - touched. \<forall>b \<in> ss_live sn - touched.
      same_natural_path (row_at t' a) (row_at t' b) = same_natural_path (row_at (ss_entries sn) a) (row_at (ss_entries sn) b)"
  shows "updated_path_ties sn touched live' t' so' = Some {s \<in> live'. tied t' live' s}"
proof -
  let ?t = "ss_entries sn" and ?live = "ss_live sn" and ?so = "ss_path_order sn"
  define C where "C = touched \<union> (\<Union>s \<in> touched. near (to_vec ?so) s \<union> near (to_vec so') s)"
  have "finite (near xs s)" for xs s
    by (rule finite_subset [of _ "set xs"]) (auto simp: near_def)
  then have C: "finite C" using fin by (simp add: C_def)
  have ties: "ss_path_ties sn = {s \<in> ?live. tied ?t ?live s}"
    using prev(2) by (simp add: ties_ok_def tied_def path_equal_def slot_row_def row_at_def)
  have same': "\<forall>a \<in> live' - touched. \<forall>b \<in> live' - touched.
      same_natural_path (row_at ?t a) (row_at ?t b) = same_natural_path (row_at t' a) (row_at t' b)"
    using same keep by simp
  have "s \<in> ?live \<and> tied ?t ?live s \<longleftrightarrow> s \<in> live' \<and> tied t' live' s" if "s \<notin> C" for s
  proof -
    have s: "s \<notin> touched" "\<forall>n \<in> touched. s \<notin> near (to_vec ?so) n" "\<forall>n \<in> touched. s \<notin> near (to_vec so') n"
      using that by (auto simp: C_def)
    show ?thesis
      using tied_unchanged [OF prev(1) _ _ keep [symmetric] s(1,2) same] tied_unchanged [OF so _ _ keep s(1,3) same'] by blast
  qed
  then have "ss_path_ties sn - C \<union> {s \<in> C \<inter> live'. tied t' live' s} = {s \<in> live'. tied t' live' s}"
    unfolding ties by blast
  then show ?thesis
    using neighbor_loop_ok [OF prev(1) so, of "sorted_list_of_set touched" touched] tie_loop_ok [OF so] C fin
    by (simp add: updated_path_ties_def C_def)
qed

context comparator
begin

text \<open>Two sorted lists of the same elements are equal when only equal elements of them compare equal.\<close>

lemma sorted_unique_on:
  "sorted_by cmp xs \<Longrightarrow> sorted_by cmp ys \<Longrightarrow> mset xs = mset ys \<Longrightarrow>
     (\<And>x y. x \<in> set xs \<Longrightarrow> y \<in> set xs \<Longrightarrow> cmp x y = Equal \<Longrightarrow> x = y) \<Longrightarrow> xs = ys"
proof (induction xs arbitrary: ys)
  case (Cons x xs)
  then obtain y ys' where ys: "ys = y # ys'" by (cases ys) auto
  have set: "set ys = set (x # xs)" using Cons.prems(3) by (metis set_mset_mset)
  have "x = y"
  proof (rule ccontr)
    assume "x \<noteq> y"
    then have mem: "x \<in> set ys'" "y \<in> set xs" using set ys by auto
    then have "cmp x y \<noteq> Greater" "cmp y x \<noteq> Greater"
      using Cons.prems(1,2) ys by (auto simp: sorted_by_Cons)
    then have "cmp x y = Equal" using cmp_swap [of y x] by (cases "cmp x y") auto
    then show False using Cons.prems(4) mem(2) \<open>x \<noteq> y\<close> by simp
  qed
  moreover have "xs = ys'"
    by (rule Cons.IH) (use Cons.prems ys \<open>x = y\<close> in \<open>auto simp: sorted_by_Cons\<close>)
  ultimately show ?case by (simp add: ys)
qed simp

end

lemma updated_order_sorts:
  assumes "order_holds (row_at t) ro live so" "finite live" "wf_table t" "live \<subseteq> {..<et_length t}"
    "inj_on (slot_id t) {..<et_length t}" "finite touched" "live' - touched = live - touched" "finite live'"
    "same_order ro (row_at t) (row_at t') (live - touched)" "inj_on (slot_id t') live'"
  shows "\<exists>so'. updated_order so t touched live' t' ro = Some so' \<and> wf_order so' \<and>
    to_vec so' = sort_by (slot_compare (row_at t') ro) (sorted_list_of_set live')"
proof -
  obtain so' where so': "updated_order so t touched live' t' ro = Some so'" "order_holds (row_at t') ro live' so'"
    using updated_order_ok [OF assms(1-9)] by blast
  note d = order_holdsD [OF so'(2) assms(8)]
  have "to_vec so' = sort_by (slot_compare (row_at t') ro) (sorted_list_of_set live')"
  proof (rule slot_rows.sorted_unique_on [OF d(2) slot_rows.sorted_by_sort_by])
    show "mset (to_vec so') = mset (sort_by (slot_compare (row_at t') ro) (sorted_list_of_set live'))"
      using so'(2) assms(8) mset_set_set [of "sorted_list_of_set live'"] by (simp add: order_holds_def)
    fix a b assume "a \<in> set (to_vec so')" "b \<in> set (to_vec so')" "slot_compare (row_at t') ro a b = Equal"
    then have "a \<in> live'" "b \<in> live'" "slot_id t' a = slot_id t' b"
      using d(3) order_compare_Equal by (auto simp: slot_compare_def slot_id_row)
    then show "a = b" using assms(10) by (auto dest: inj_onD)
  qed
  then show ?thesis using so'(1) d(1) by blast
qed

end
