(* ===== verification/Table_Space.thy ===== *)
theory Table_Space
  imports Entry_Table
begin

text \<open>
  How much text a changed row adds to its block of \<open>core/src/entry_table.rs\<close>: at most its own texts, and three
  labels, so that a bound on the texts of a batch gives every write of the batch its space.
\<close>

section \<open>Growth of a block\<close>

definition grows :: "nat \<Rightarrow> nat \<Rightarrow> entry_chunk \<Rightarrow> entry_chunk \<Rightarrow> bool" where
  "grows bytes labels c c' \<longleftrightarrow> str_len (ch_text c') \<le> str_len (ch_text c) + bytes \<and>
     length (ch_labels c') \<le> length (ch_labels c) + labels"

lemma grows_trans: "grows a i c d \<Longrightarrow> grows b j d e \<Longrightarrow> grows (a + b) (i + j) c e"
  by (auto simp: grows_def)

lemma grows_same: "ch_text c' = ch_text c \<Longrightarrow> ch_labels c' = ch_labels c \<Longrightarrow> grows b l c c'"
  by (simp add: grows_def)

lemma intern_update_grows: "intern_update c v = Some (c', r) \<Longrightarrow> grows (str_len v) 0 c c'"
  by (auto simp: intern_update_def grows_def text_append_def split: bind_splits option.splits if_splits)

text \<open>Updating a text column keeps the pool and the labels.\<close>

definition keeps :: "(('a \<Rightarrow> 'a) \<Rightarrow> entry_chunk \<Rightarrow> entry_chunk) \<Rightarrow> bool" where
  "keeps upd \<longleftrightarrow> (\<forall>f c. ch_text (upd f c) = ch_text c \<and> ch_labels (upd f c) = ch_labels c)"

lemma keeps_grows: "keeps upd \<Longrightarrow> grows b l c d \<Longrightarrow> grows b l c (upd f d)"
  by (simp add: keeps_def grows_def)

lemma set_text_grows:
  assumes "keeps upd" "set_text get upd slot v c = Some c'"
  shows "grows (str_len v) 0 c c'"
proof -
  consider "c' = c" | d r col where "intern_update c v = Some (d, r)" "c' = upd (\<lambda>_. col) d"
    using assms(2) by (auto simp: set_text_def split: bind_splits if_splits)
  then show ?thesis by cases (simp_all add: grows_same keeps_grows [OF assms(1)] intern_update_grows)
qed

lemma set_path_grows:
  assumes "keeps upd" "set_path get upd slot v c = Some c'"
  shows "grows (str_len (view_text v)) 0 c c'"
proof -
  consider "c' = c"
    | d r e q col where "intern_update c (fst (path_split (view_text v))) = Some (d, r)"
      "intern_update d (snd (path_split (view_text v))) = Some (e, q)" "c' = upd (\<lambda>_. col) e"
    using assms(2) by (auto simp: set_path_def with_str_text split: bind_splits if_splits)
  then show ?thesis
  proof cases
    case 2
    then have "grows (str_len (view_text v)) 0 c e"
      using grows_trans [OF 2(1,2) [THEN intern_update_grows]] by (simp add: str_len_split)
    then show ?thesis using 2(3) keeps_grows [OF assms(1)] by simp
  qed (simp add: grows_same)
qed

lemma set_parent_grows: "set_parent slot v c = Some c' \<Longrightarrow> grows (str_len v) 0 c c'"
  by (auto simp: set_parent_def grows_def split: bind_splits if_splits dest!: intern_update_grows)

lemma set_label_grows:
  assumes "keeps upd" "set_label get upd slot v c = Some c'"
  shows "grows 0 1 c c'"
proof -
  obtain d where "c' = upd (\<lambda>_. d) (fst (label c v))"
    using assms(2) by (auto simp: set_label_def split: bind_splits prod.splits)
  moreover have "grows 0 1 c (fst (label c v))" by (simp add: label_def grows_def split: option.splits)
  ultimately show ?thesis using keeps_grows [OF assms(1)] by simp
qed

lemma set_numbers_grows: "set_numbers slot row c = Some c' \<Longrightarrow> grows 0 0 c c'"
  by (auto simp: set_numbers_def grows_def split: bind_splits)

lemma set_properties_grows: "set_properties c slot row = Some c' \<Longrightarrow> grows 0 0 c c'"
  by (auto simp: set_properties_def grows_def Let_def split: bind_splits)

lemma chunk_set_grows:
  assumes "chunk_set c slot row = Some c'"
  shows "grows (text_need row) 3 c c'"
proof -
  obtain c1 c2 where top: "set_numbers slot row (c\<lparr>ch_section := None\<rparr>) = Some c1" "set_texts slot row c1 = Some c2"
    "set_labels slot row c2 = Some c'"
    using assms by (auto simp: chunk_set_def split: bind_splits)
  obtain d1 d2 d3 d4 d5 d6 where s:
    "set_text ch_search_name ch_search_name_update slot (search_name row) c1 = Some d1"
    "set_text ch_name ch_name_update slot (name row) d1 = Some d2"
    "set_text ch_folded_name ch_folded_name_update slot (folded_name row) d2 = Some d3"
    "set_path ch_path ch_path_update slot (path row) d3 = Some d4"
    "set_parent slot (parent row) d4 = Some d5"
    "set_path ch_folded_path ch_folded_path_update slot (folded_path row) d5 = Some d6"
    "set_path ch_search_path ch_search_path_update slot (search_path row) d6 = Some c2"
    using top(2) by (auto simp: set_texts_def split: bind_splits)
  obtain e1 e2 e3 where l: "set_label ch_extension ch_extension_update slot (extension row) c2 = Some e1"
    "set_label ch_folded_extension ch_folded_extension_update slot (folded_extension row) e1 = Some e2"
    "set_label ch_volume_id ch_volume_id_update slot (volume_id row) e2 = Some e3" "set_properties e3 slot row = Some c'"
    using top(3) by (auto simp: set_labels_def split: bind_splits)
  have "grows 0 0 c c1" using set_numbers_grows [OF top(1)] by (simp add: grows_def)
  note g = grows_trans [OF grows_trans [OF grows_trans [OF grows_trans [OF grows_trans [OF grows_trans [OF grows_trans [OF this
      set_text_grows [OF _ s(1)]] set_text_grows [OF _ s(2)]] set_text_grows [OF _ s(3)]] set_path_grows [OF _ s(4)]]
      set_parent_grows [OF s(5)]] set_path_grows [OF _ s(6)]] set_path_grows [OF _ s(7)]]
  have "grows (text_need row) 0 c c2" using g by (simp add: keeps_def text_need_def text_values_def path_values_def ac_simps)
  from grows_trans [OF grows_trans [OF grows_trans [OF grows_trans [OF this set_label_grows [OF _ l(1)]]
        set_label_grows [OF _ l(2)]] set_label_grows [OF _ l(3)]] set_properties_grows [OF l(4)]]
  show ?thesis by (simp add: keeps_def numeral_3_eq_3)
qed

section \<open>Room for a batch\<close>

definition roomy :: "entry_table \<Rightarrow> nat \<Rightarrow> nat \<Rightarrow> bool" where
  "roomy t bytes n \<longleftrightarrow> bytes \<le> u32_max \<and> 3 * n \<le> 2 ^ 32 \<and>
     (\<forall>c \<in> set (et_chunks t). str_len (ch_text c) + bytes \<le> u32_max \<and> length (ch_labels c) + 3 * n \<le> 2 ^ 32)"

lemma roomy_space:
  assumes "roomy t bytes n" "text_need row \<le> bytes" "0 < n"
  shows "has_space t slot row"
proof (cases "slot div chunk_length < length (et_chunks t)")
  case True
  then have "block_at t slot \<in> set (et_chunks t)" by (simp add: block_at_def)
  then show ?thesis using assms by (fastforce simp: roomy_def has_space_def)
next
  case False
  then show ?thesis using assms by (simp add: roomy_def has_space_def block_at_def default_chunk_def str_len_def)
qed

lemma grows_room:
  assumes "grows (text_need row) 3 c c'" "str_len (ch_text c) + (text_need row + bytes) \<le> u32_max"
    "length (ch_labels c) + 3 * Suc n \<le> 2 ^ 32"
  shows "str_len (ch_text c') + bytes \<le> u32_max \<and> length (ch_labels c') + 3 * n \<le> 2 ^ 32"
  using assms by (auto simp: grows_def)

lemma table_set_room:
  assumes "table_set t slot row = Some t'" "roomy t (text_need row + bytes) (Suc n)"
  shows "roomy t' bytes n"
proof -
  let ?b = "slot div chunk_length"
  obtain c where c: "et_chunks t ! ?b \<in> set (et_chunks t)" "chunk_set (et_chunks t ! ?b) (slot mod chunk_length) row = Some c"
    "et_chunks t' = (et_chunks t)[?b := c]"
    using assms(1) by (auto simp: table_set_def slice_get_def Let_def split: bind_splits if_splits)
  have "str_len (ch_text c) + bytes \<le> u32_max \<and> length (ch_labels c) + 3 * n \<le> 2 ^ 32"
    by (rule grows_room [OF chunk_set_grows [OF c(2)]]) (use assms(2) c(1) in \<open>auto simp: roomy_def\<close>)
  moreover have "x = c \<or> x \<in> set (et_chunks t)" if "x \<in> set (et_chunks t')" for x
    using that set_update_subset_insert [of "et_chunks t" ?b c] c(3) by auto
  ultimately show ?thesis using assms(2) by (force simp: roomy_def)
qed

lemma table_push_room:
  assumes "table_push t row = Some t'" "roomy t (text_need row + bytes) (Suc n)"
  shows "roomy t' bytes n"
proof -
  let ?cs = "if et_length t mod chunk_length = 0 then et_chunks t @ [default_chunk] else et_chunks t"
  obtain c where c: "?cs \<noteq> []" "chunk_set (last ?cs) (et_length t mod chunk_length) row = Some c" "et_chunks t' = butlast ?cs @ [c]"
    using assms(1) by (auto simp: table_push_def Let_def split: bind_splits if_splits)
  have cs: "str_len (ch_text d) + (text_need row + bytes) \<le> u32_max \<and> length (ch_labels d) + 3 * Suc n \<le> 2 ^ 32"
    if "d \<in> set ?cs" for d
    using that assms(2) by (auto simp: roomy_def default_chunk_def str_len_def split: if_splits)
  have "last ?cs \<in> set ?cs" using c(1) by (rule last_in_set)
  then have "str_len (ch_text c) + bytes \<le> u32_max \<and> length (ch_labels c) + 3 * n \<le> 2 ^ 32"
    using grows_room [OF chunk_set_grows [OF c(2)]] cs by blast
  moreover have "str_len (ch_text d) + bytes \<le> u32_max \<and> length (ch_labels d) + 3 * n \<le> 2 ^ 32" if "d \<in> set (butlast ?cs)" for d
    using cs [OF in_set_butlastD [OF that]] by auto
  ultimately show ?thesis using assms(2) c(3) by (auto simp: roomy_def)
qed

end
