(* ===== verification/Change_Step.thy ===== *)
theory Change_Step
  imports Order_Update Table_Space
begin

text \<open>
  One change of a batch, the body of the loop of \<open>apply_changes\<close> in \<open>core/src/index_store.rs\<close>. A change is the
  persistent number of a row with its new entry, or without one when the row is gone. Sharing of labels changes
  where values are stored, not the values. The lemmas show that each change keeps table, indexes and lookup in
  step, that what is not marked as changed is carried over, and what happens to the files.
\<close>

section \<open>One change\<close>

type_synonym snapshot_change = "int \<times> file_entry option"

record update_state =
  us_entries :: entry_table
  us_file_slots :: file_slots
  us_live :: "nat set"
  us_trigrams :: "byte list posting_map"
  us_metadata :: metadata_postings
  us_numeric :: numeric_columns
  us_order_changes :: "nat set"
  us_path_changes :: "nat set"
  us_changed :: "nat set"

text \<open>The slot of a change; \<open>None\<close> continues with the next change. \<open>slot as u32\<close> is exact, by the bound of \<open>append\<close>.\<close>

definition find_slot :: "snapshot_change \<Rightarrow> update_state \<Rightarrow> (nat option \<times> file_slots) outcome" where
  "find_slot ch u =
     bind_outcome (fine (slots_get (us_file_slots u) (us_entries u) (fst ch))) (\<lambda>found.
       case found of
         Some slot \<Rightarrow> Some (Inr (Some slot, us_file_slots u))
       | None \<Rightarrow>
           if snd ch \<noteq> None
           then bind_outcome (slots_append (fst ch) (us_entries u) (us_file_slots u)) (\<lambda>(slot, fs). Some (Inr (Some slot, fs)))
           else Some (Inr (None, us_file_slots u)))"

definition same_path :: "file_entry \<Rightarrow> file_entry \<Rightarrow> bool" where
  "same_path old new \<longleftrightarrow> view_eq_str (path old) (view_text (path new))"

text \<open>The tests \<open>match (old, replacement) \<dots> if was_live\<close>: what differs, or everything.\<close>

definition differs :: "bool \<Rightarrow> file_entry option \<Rightarrow> file_entry option \<Rightarrow> (file_entry \<Rightarrow> file_entry \<Rightarrow> bool) \<Rightarrow> bool" where
  "differs was_live old replacement test =
     (case old of None \<Rightarrow> True
      | Some o' \<Rightarrow> (case replacement of None \<Rightarrow> True | Some n \<Rightarrow> if was_live then test o' n else True))"

definition path_differs :: "file_entry \<Rightarrow> file_entry \<Rightarrow> bool" where
  "path_differs old new \<longleftrightarrow> \<not> same_path old new"

definition index_differs :: "file_entry \<Rightarrow> file_entry \<Rightarrow> bool" where
  "index_differs old new \<longleftrightarrow> name old \<noteq> name new \<or> \<not> same_path old new"

definition name_differs :: "file_entry \<Rightarrow> file_entry \<Rightarrow> bool" where
  "name_differs old new \<longleftrightarrow> name old \<noteq> name new"

definition metadata_differs :: "file_entry \<Rightarrow> file_entry \<Rightarrow> bool" where
  "metadata_differs old new \<longleftrightarrow> name old \<noteq> name new \<or> extension old \<noteq> extension new \<or>
     is_dir old \<noteq> is_dir new \<or> is_symlink old \<noteq> is_symlink new"

definition numeric_differs :: "file_entry \<Rightarrow> file_entry \<Rightarrow> bool" where
  "numeric_differs old new \<longleftrightarrow> size old \<noteq> size new \<or> modified old \<noteq> modified new \<or>
     created old \<noteq> created new \<or> is_dir old \<noteq> is_dir new"

definition none_or :: "'a option \<Rightarrow> ('a \<Rightarrow> bool) \<Rightarrow> bool" where
  "none_or x p = (case x of None \<Rightarrow> True | Some a \<Rightarrow> p a)"

text \<open>\<open>old.filter(|_| was_live)\<close>.\<close>

definition live_old :: "bool \<Rightarrow> file_entry option \<Rightarrow> file_entry option" where
  "live_old was_live old = (if was_live then old else None)"

definition old_search_name :: "file_entry option \<Rightarrow> str" where
  "old_search_name old = (case old of None \<Rightarrow> [] | Some f \<Rightarrow> search_name f)"

definition put_metadata :: "crates \<Rightarrow> nat \<Rightarrow> file_entry option \<Rightarrow> file_entry \<Rightarrow> metadata_postings \<Rightarrow> metadata_postings" where
  "put_metadata cr slot old entry mp =
     (case old of Some o' \<Rightarrow> metadata_update cr slot o' entry mp | None \<Rightarrow> metadata_insert cr slot entry mp)"

definition put_row :: "nat \<Rightarrow> file_entry \<Rightarrow> entry_table \<Rightarrow> entry_table option" where
  "put_row slot entry t = (if slot = et_length t then table_push t entry else table_set t slot entry)"

definition apply_replacement :: "crates \<Rightarrow> nat \<Rightarrow> file_entry option \<Rightarrow> bool \<Rightarrow> file_entry \<Rightarrow> update_state \<Rightarrow> update_state option" where
  "apply_replacement cr slot old was_live new u = do {
     let entry = prepare_replacement cr old new;
     numeric \<leftarrow> (if none_or old (\<lambda>o'. numeric_differs o' entry) then columns_set slot entry (us_numeric u) else Some (us_numeric u));
     entries \<leftarrow> put_row slot entry (us_entries u);
     Some (u\<lparr>us_entries := entries, us_numeric := numeric,
       us_metadata := (if differs was_live old (Some new) metadata_differs
         then put_metadata cr slot (live_old was_live old) entry (us_metadata u) else us_metadata u),
       us_trigrams := (if differs was_live old (Some new) name_differs
         then gram_apply trigram_key 3 slot (old_search_name (live_old was_live old)) (search_name entry) (us_trigrams u)
         else us_trigrams u),
       us_live := insert slot (us_live u)\<rparr>) }"

definition apply_removal :: "crates \<Rightarrow> nat \<Rightarrow> file_entry option \<Rightarrow> bool \<Rightarrow> update_state \<Rightarrow> update_state" where
  "apply_removal cr slot old was_live u =
     (case live_old was_live old of
        None \<Rightarrow> u\<lparr>us_live := us_live u - {slot}\<rparr>
      | Some o' \<Rightarrow> u\<lparr>us_metadata := metadata_remove cr slot o' (us_metadata u),
          us_trigrams := gram_apply trigram_key 3 slot (search_name o') [] (us_trigrams u),
          us_live := us_live u - {slot}\<rparr>)"

definition apply_change :: "crates \<Rightarrow> nat \<Rightarrow> file_entry option \<Rightarrow> update_state \<Rightarrow> update_state option" where
  "apply_change cr slot replacement u = do {
     let old = table_row (us_entries u) slot;
     let was_live = slot \<in> us_live u;
     u' \<leftarrow> (case replacement of
        Some new \<Rightarrow> apply_replacement cr slot old was_live new u
      | None \<Rightarrow> Some (apply_removal cr slot old was_live u));
     Some (u'\<lparr>us_changed := insert slot (us_changed u'),
       us_path_changes := (if differs was_live old replacement path_differs then insert slot (us_path_changes u') else us_path_changes u'),
       us_order_changes := (if differs was_live old replacement index_differs then insert slot (us_order_changes u') else us_order_changes u')\<rparr>) }"

definition change_step :: "crates \<Rightarrow> snapshot_change \<Rightarrow> update_state \<Rightarrow> update_state outcome" where
  "change_step cr ch u =
     bind_outcome (find_slot ch u) (\<lambda>(found, fs).
       case found of
         None \<Rightarrow> Some (Inr u)
       | Some slot \<Rightarrow> fine (apply_change cr slot (snd ch) (u\<lparr>us_file_slots := fs\<rparr>)))"

fun change_loop :: "crates \<Rightarrow> snapshot_change list \<Rightarrow> update_state \<Rightarrow> update_state outcome" where
  "change_loop cr [] u = Some (Inr u)"
| "change_loop cr (ch # chs) u = bind_outcome (change_step cr ch u) (change_loop cr chs)"

section \<open>Indexes see the texts of the rows\<close>

definition row_good :: "crates \<Rightarrow> file_entry \<Rightarrow> bool" where
  "row_good cr f \<longleftrightarrow> prepared cr f \<and> row_ok f \<and> row_small f \<and> scalar_values (search_name f)"

lemma row_good_owned [simp]: "row_good cr (to_owned_file f) = row_good cr f"
  unfolding row_good_def prepared_owned
  by (simp add: row_ok_def row_small_def rows_need_def row_prefixes_def text_need_def text_values_def path_values_def to_owned_file_def)

lemma row_good_prepare: "row_good cr (prepare cr f) \<longleftrightarrow> row_input_ok cr f"
  by (simp add: row_good_def row_input_ok_def)

definition same_keys :: "crates \<Rightarrow> file_entry \<Rightarrow> file_entry \<Rightarrow> bool" where
  "same_keys cr f g \<longleftrightarrow> search_name f = search_name g \<and> entry_extension cr f = entry_extension cr g \<and>
     is_dir f = is_dir g \<and> is_symlink f = is_symlink g"

lemma same_keys_owned: "to_owned_file f = to_owned_file g \<Longrightarrow> same_keys cr f g"
  using owned_fields [of f g] by (simp add: same_keys_def entry_extension_def)

lemma row_keys_cong:
  assumes "\<And>s. rel_option R (rows s) (rows' s)" "\<And>f h. R f h \<Longrightarrow> g f = g' h"
  shows "row_keys g rows = row_keys g' rows'"
proof
  fix s
  show "row_keys g rows s = row_keys g' rows' s"
    using assms(1) [of s] assms(2) by (cases "rows s"; cases "rows' s") (auto simp: row_keys_def)
qed

lemma metadata_index_cong:
  assumes "metadata_index cr rows mp" "\<And>s. rel_option (same_keys cr) (rows s) (rows' s)"
  shows "metadata_index cr rows' mp"
proof -
  note keys = row_keys_cong [OF assms(2)]
  have "row_keys (\<lambda>f. set (as_bytes (search_name f))) rows = row_keys (\<lambda>f. set (as_bytes (search_name f))) rows'"
    "row_keys (\<lambda>f. text_grams 2 (search_name f)) rows = row_keys (\<lambda>f. text_grams 2 (search_name f)) rows'"
    "row_keys (\<lambda>f. {entry_extension cr f}) rows = row_keys (\<lambda>f. {entry_extension cr f}) rows'"
    by (rule keys; simp add: same_keys_def)+
  moreover have "(\<exists>f. rows s = Some f \<and> p f) \<longleftrightarrow> (\<exists>f. rows' s = Some f \<and> p f)"
    if "\<And>f h. same_keys cr f h \<Longrightarrow> p f = p h" for p s
    using assms(2) [of s] that by (cases "rows s"; cases "rows' s") auto
  from this [of is_dir] this [of is_symlink]
  have "{s. \<exists>f. rows s = Some f \<and> is_dir f} = {s. \<exists>f. rows' s = Some f \<and> is_dir f}"
    "{s. \<exists>f. rows s = Some f \<and> is_symlink f} = {s. \<exists>f. rows' s = Some f \<and> is_symlink f}"
    by (simp_all add: same_keys_def)
  ultimately show ?thesis using assms(1) by (simp add: metadata_index_def)
qed

lemma grams_index_cong:
  "grams_index pk n texts m \<Longrightarrow> (\<And>s. row_keys (text_grams n) texts s = row_keys (text_grams n) texts' s) \<Longrightarrow> grams_index pk n texts' m"
proof -
  assume "\<And>s. row_keys (text_grams n) texts s = row_keys (text_grams n) texts' s"
  then have "row_keys (text_grams n) texts = row_keys (text_grams n) texts'" ..
  then show "grams_index pk n texts m \<Longrightarrow> grams_index pk n texts' m" by (simp add: grams_index_def)
qed

section \<open>What holds between changes\<close>

definition live_rows :: "nat set \<Rightarrow> file_entry list \<Rightarrow> nat \<Rightarrow> file_entry option" where
  "live_rows live rows s = (if s \<in> live then Some (rows ! s) else None)"

definition state_ok :: "crates \<Rightarrow> update_state \<Rightarrow> bool" where
  "state_ok cr u \<longleftrightarrow> wf_table (us_entries u) \<and> et_length (us_entries u) \<le> u32_max \<and>
     us_live u \<subseteq> {..<et_length (us_entries u)} \<and>
     grams_index trigram_key 3 (\<lambda>s. map_option search_name (live_rows (us_live u) (table_rows (us_entries u)) s)) (us_trigrams u) \<and>
     metadata_index cr (live_rows (us_live u) (table_rows (us_entries u))) (us_metadata u) \<and>
     columns_repr (us_numeric u) (table_rows (us_entries u)) \<and>
     (\<forall>r \<in> set (table_rows (us_entries u)). row_good cr r)"

definition list_put :: "'a list \<Rightarrow> nat \<Rightarrow> 'a \<Rightarrow> 'a list" where
  "list_put rows slot r = (if slot = length rows then rows @ [r] else rows[slot := r])"

lemma list_put_nth:
  "slot \<le> length rows \<Longrightarrow> s < length (list_put rows slot r) \<Longrightarrow> list_put rows slot r ! s = (if s = slot then r else rows ! s)"
  by (auto simp: list_put_def nth_append)

lemma length_list_put [simp]: "length (list_put rows slot r) = (if slot = length rows then Suc (length rows) else length rows)"
  by (simp add: list_put_def)

lemma set_list_put: "x \<in> set (list_put rows slot r) \<Longrightarrow> x = r \<or> x \<in> set rows"
  using set_update_subset_insert [of rows slot r] by (auto simp: list_put_def split: if_splits)

lemma put_row_ok:
  assumes "wf_table t" "slot \<le> et_length t" "row_ok f" "roomy t (text_need f + bytes) (Suc n)"
  shows "\<exists>t'. put_row slot f t = Some t' \<and> wf_table t' \<and> table_rows t' = list_put (table_rows t) slot (to_owned_file f) \<and> roomy t' bytes n"
proof -
  have space: "has_space t s f" for s using roomy_space [OF assms(4)] by simp
  show ?thesis
  proof (cases "slot = et_length t")
    case True
    then show ?thesis using table_push_ok [OF assms(1,3) space] table_push_room [OF _ assms(4)]
      by (auto simp: put_row_def list_put_def)
  next
    case False
    then show ?thesis using table_set_ok [OF assms(1) _ assms(3) space, of slot] table_set_room [OF _ assms(4)] assms(2)
      by (auto simp: put_row_def list_put_def)
  qed
qed

lemma put_numeric_ok:
  assumes "columns_repr cs rows" "length rows < 2 ^ 32" "slot \<le> length rows"
    "slot < length rows \<Longrightarrow> \<exists>o'. old = Some o' \<and> to_owned_file o' = rows ! slot" "slot = length rows \<Longrightarrow> old = None"
  shows "\<exists>cs'. (if none_or old (\<lambda>o'. numeric_differs o' f) then columns_set slot f cs else Some cs) = Some cs' \<and>
    columns_repr cs' (list_put rows slot (to_owned_file f))"
proof (cases "none_or old (\<lambda>o'. numeric_differs o' f)")
  case True
  then show ?thesis using columns_set_ok [OF assms(1-3), of f] by (simp add: list_put_def)
next
  case False
  then obtain o' where o': "old = Some o'" "\<not> numeric_differs o' f" by (auto simp: none_or_def split: option.splits)
  then have "slot < length rows" using assms(3,5) by (cases "slot = length rows") simp_all
  moreover from assms(4) [OF this] have "to_owned_file o' = rows ! slot" using o'(1) by simp
  ultimately have slot: "slot < length rows" "to_owned_file o' = rows ! slot" .
  have "row_value fld (rows ! slot) = row_value fld f" for fld
    using o'(2) unfolding slot(2) [symmetric] by (cases fld) (simp_all add: numeric_differs_def size_value_def)
  then have "map (row_value fld) (rows[slot := to_owned_file f]) = map (row_value fld) rows" for fld
    using slot(1) by (simp add: map_update list_update_same_conv)
  then show ?thesis using False assms(1) slot(1) by (simp add: list_put_def columns_repr_def)
qed

section \<open>One change keeps the state\<close>

definition same_owned :: "file_entry \<Rightarrow> file_entry \<Rightarrow> bool" where
  "same_owned f g \<longleftrightarrow> to_owned_file f = to_owned_file g"

lemma rel_keys: "rel_option same_owned x y \<Longrightarrow> rel_option (same_keys cr) x y"
  by (erule option.rel_mono_strong) (simp add: same_owned_def same_keys_owned)

lemma same_owned_to_owned [simp]: "same_owned f f" "same_owned (to_owned_file f) f" "same_owned f (to_owned_file f)"
  by (simp_all add: same_owned_def to_owned_file_def)

lemma prepare_keys:
  assumes "prepared cr o'" "name o' = name f" "extension o' = extension f"
  shows "search_name o' = search_name (prepare cr f)" "entry_extension cr o' = entry_extension cr (prepare cr f)"
  using assms by (simp_all add: prepared_iff prepare_def entry_extension_def Let_def)

text \<open>The row of a slot that is live is known to the indexes, as it is stored.\<close>

definition old_row :: "(nat \<Rightarrow> file_entry option) \<Rightarrow> nat \<Rightarrow> bool \<Rightarrow> file_entry option \<Rightarrow> bool" where
  "old_row rows slot was_live old \<longleftrightarrow> rel_option same_owned (rows slot) (live_old was_live old) \<and> (was_live \<longrightarrow> old \<noteq> None)"

lemma put_metadata_ok:
  assumes ix: "metadata_index cr rows mp" and old: "old_row rows slot was_live old"
    and good: "\<And>o'. old = Some o' \<Longrightarrow> row_good cr o'" and new: "row_input_ok cr f"
  shows "metadata_index cr (rows(slot \<mapsto> to_owned_file (prepare cr f)))
    (if differs was_live old (Some f) metadata_differs
     then put_metadata cr slot (live_old was_live old) (prepare cr f) mp else mp)"
proof -
  let ?new = "prepare cr f"
  have scalar: "scalar_values (search_name ?new)" using new by (simp add: row_input_ok_def)
  have "metadata_index cr (rows(slot \<mapsto> ?new))
    (if differs was_live old (Some f) metadata_differs then put_metadata cr slot (live_old was_live old) ?new mp else mp)"
  proof (cases "was_live")
    case True
    then obtain o' where o': "old = Some o'" "rel_option same_owned (rows slot) (Some o')"
      using old by (auto simp: old_row_def live_old_def)
    have ix': "metadata_index cr (rows(slot \<mapsto> o')) mp"
      by (rule metadata_index_cong [OF ix]) (use o'(2) rel_keys in \<open>auto simp: option.rel_refl same_keys_def\<close>)
    show ?thesis
    proof (cases "metadata_differs o' f")
      case True
      then show ?thesis
        using metadata_update_index [OF ix', of slot o' ?new] good [OF o'(1)] scalar \<open>was_live\<close> o'(1)
        by (simp add: differs_def put_metadata_def live_old_def row_good_def)
    next
      case False
      then have "same_keys cr o' ?new"
        using prepare_keys [of cr o' f] good [OF o'(1)]
        by (simp add: same_keys_def metadata_differs_def row_good_def) (simp add: prepare_def Let_def)
      then have "metadata_index cr (rows(slot \<mapsto> ?new)) mp"
        by (intro metadata_index_cong [OF ix']) (auto simp: option.rel_refl same_keys_def)
      then show ?thesis using False \<open>was_live\<close> o'(1) by (simp add: differs_def)
    qed
  next
    case False
    then have "rows slot = None" using old by (simp add: old_row_def live_old_def)
    from metadata_insert_index [OF ix this scalar] show ?thesis
      using False by (simp add: differs_def put_metadata_def live_old_def split: option.splits)
  qed
  then show ?thesis
    by (rule metadata_index_cong) (auto simp: option.rel_refl same_keys_def rel_keys intro: same_keys_owned)
qed

lemma put_grams_ok:
  assumes ix: "grams_index trigram_key 3 (\<lambda>s. map_option search_name (rows s)) m" and old: "old_row rows slot was_live old"
    and good: "\<And>o'. old = Some o' \<Longrightarrow> row_good cr o'"
  shows "grams_index trigram_key 3 (\<lambda>s. map_option search_name ((rows(slot \<mapsto> to_owned_file (prepare cr f))) s))
    (if differs was_live old (Some f) name_differs
     then gram_apply trigram_key 3 slot (old_search_name (live_old was_live old)) (search_name (prepare cr f)) m else m)"
proof -
  let ?new = "prepare cr f" and ?keys = "row_keys (text_grams 3) (\<lambda>s. map_option search_name (rows s))"
  let ?prev = "old_search_name (live_old was_live old)"
  have prev: "?keys slot = text_grams 3 ?prev"
    using old by (cases "rows slot"; cases "live_old was_live old")
      (auto simp: old_row_def row_keys_def old_search_name_def same_owned_def text_grams_def dest: owned_fields(4))
  have eq: "row_keys (text_grams 3) (\<lambda>s. map_option search_name ((rows(slot \<mapsto> to_owned_file ?new)) s)) =
      ?keys(slot := text_grams 3 (search_name ?new))"
    by (auto simp: fun_eq_iff row_keys_def to_owned_file_def)
  show ?thesis
  proof (cases "differs was_live old (Some f) name_differs")
    case True
    have "keyed_index trigram_key (?keys(slot := text_grams 3 (search_name ?new)))
        (gram_apply trigram_key 3 slot ?prev (search_name ?new) m)"
      using gram_apply_index [of trigram_key ?keys m slot 3 ?prev "search_name ?new"] ix prev
      by (simp add: grams_index_def)
    then show ?thesis unfolding grams_index_def eq using True by simp
  next
    case False
    then obtain o' where o': "was_live" "old = Some o'" "name o' = name f"
      by (auto simp: differs_def name_differs_def split: option.splits if_splits)
    have "search_name o' = search_name ?new"
      using good [OF o'(2)] o'(3) by (simp add: row_good_def prepared_iff prepare_def Let_def)
    then have "?keys slot = text_grams 3 (search_name ?new)" using prev o' by (simp add: old_search_name_def live_old_def)
    then have "?keys(slot := text_grams 3 (search_name ?new)) = ?keys" by (rule fun_upd_idem)
    then show ?thesis using False ix unfolding grams_index_def eq by simp
  qed
qed

lemma roomy_less: "roomy t b n \<Longrightarrow> b' \<le> b \<Longrightarrow> n' \<le> n \<Longrightarrow> roomy t b' n'"
  by (force simp: roomy_def)

definition change_need :: "crates \<Rightarrow> file_entry option \<Rightarrow> nat" where
  "change_need cr replacement = (case replacement of None \<Rightarrow> 0 | Some f \<Rightarrow> text_need (prepare cr f))"

text \<open>What a change does to the rows and to the live slots.\<close>

definition changed_rows :: "crates \<Rightarrow> nat \<Rightarrow> file_entry option \<Rightarrow> file_entry list \<Rightarrow> file_entry list" where
  "changed_rows cr slot replacement rows =
     (case replacement of None \<Rightarrow> rows | Some f \<Rightarrow> list_put rows slot (to_owned_file (prepare cr f)))"

definition changed_live :: "nat \<Rightarrow> file_entry option \<Rightarrow> nat set \<Rightarrow> nat set" where
  "changed_live slot replacement live = (if replacement = None then live - {slot} else insert slot live)"

lemma live_rows_put:
  "slot \<le> length rows \<Longrightarrow> live \<subseteq> {..<length rows} \<Longrightarrow>
     live_rows (insert slot live) (list_put rows slot r) = (live_rows live rows)(slot \<mapsto> r)"
  by (auto simp: fun_eq_iff live_rows_def list_put_def nth_append)

lemma live_rows_remove: "live_rows (live - {slot}) rows = (live_rows live rows)(slot := None)"
  by (auto simp: fun_eq_iff live_rows_def)

lemma state_old_row:
  assumes "state_ok cr u"
  shows "old_row (live_rows (us_live u) (table_rows (us_entries u))) slot (slot \<in> us_live u) (table_row (us_entries u) slot)"
    "table_row (us_entries u) slot = Some o' \<Longrightarrow> slot < et_length (us_entries u) \<and> to_owned_file o' = table_rows (us_entries u) ! slot \<and> row_good cr o'"
    "slot < et_length (us_entries u) \<Longrightarrow> table_row (us_entries u) slot \<noteq> None"
proof -
  let ?t = "us_entries u"
  have wf: "wf_table ?t" and live: "us_live u \<subseteq> {..<et_length ?t}" and good: "\<forall>r \<in> set (table_rows ?t). row_good cr r"
    using assms by (simp_all add: state_ok_def)
  have row: "\<exists>o'. table_row ?t s = Some o' \<and> to_owned_file o' = table_rows ?t ! s" if "s < et_length ?t" for s
    using table_row_owned [OF wf that] by (cases "table_row ?t s") auto
  show "slot < et_length ?t \<Longrightarrow> table_row ?t slot \<noteq> None" using row by auto
  show "old_row (live_rows (us_live u) (table_rows ?t)) slot (slot \<in> us_live u) (table_row ?t slot)"
  proof (cases "slot \<in> us_live u")
    case True
    then obtain o' where "table_row ?t slot = Some o'" "to_owned_file o' = table_rows ?t ! slot" using row live by blast
    then show ?thesis using True same_owned_to_owned(2) [of o'] by (simp add: old_row_def live_rows_def live_old_def)
  qed (simp add: old_row_def live_rows_def live_old_def)
  show "slot < et_length ?t \<and> to_owned_file o' = table_rows ?t ! slot \<and> row_good cr o'" if "table_row ?t slot = Some o'"
  proof -
    have slot: "slot < et_length ?t" using that by (auto simp: table_row_def table_get_def split: if_splits)
    have owned: "to_owned_file o' = table_rows ?t ! slot" using row [OF slot] that by simp
    have "row_good cr (to_owned_file o')" using good slot unfolding owned by simp
    then have "row_good cr o'" by (simp only: row_good_owned)
    then show ?thesis using slot owned by simp
  qed
qed

lemma apply_replacement_ok:
  assumes st: "state_ok cr u" and slot: "slot \<le> et_length (us_entries u)" "slot < u32_max"
    and new: "row_input_ok cr f" and room: "roomy (us_entries u) (text_need (prepare cr f) + bytes) (Suc n)"
  shows "\<exists>u'. apply_replacement cr slot (table_row (us_entries u) slot) (slot \<in> us_live u) f u = Some u' \<and> state_ok cr u' \<and>
    roomy (us_entries u') bytes n \<and> us_file_slots u' = us_file_slots u \<and> us_live u' = insert slot (us_live u) \<and>
    table_rows (us_entries u') = list_put (table_rows (us_entries u)) slot (to_owned_file (prepare cr f)) \<and>
    us_changed u' = us_changed u \<and> us_path_changes u' = us_path_changes u \<and> us_order_changes u' = us_order_changes u"
proof -
  let ?t = "us_entries u" and ?old = "table_row (us_entries u) slot" and ?w = "slot \<in> us_live u" and ?new = "prepare cr f"
  let ?rows = "table_rows (us_entries u)"
  have wf: "wf_table ?t" and len: "et_length ?t \<le> u32_max" and live: "us_live u \<subseteq> {..<et_length ?t}"
    and grams: "grams_index trigram_key 3 (\<lambda>s. map_option search_name (live_rows (us_live u) ?rows s)) (us_trigrams u)"
    and meta: "metadata_index cr (live_rows (us_live u) ?rows) (us_metadata u)"
    and num: "columns_repr (us_numeric u) ?rows" and good: "\<forall>r \<in> set ?rows. row_good cr r"
    using st by (simp_all add: state_ok_def)
  note old = state_old_row [OF st]
  have prep: "prepare_replacement cr ?old f = ?new"
    using old(2) by (intro prepare_replacement_eq) (auto simp: row_good_def)
  obtain t' where t': "put_row slot ?new ?t = Some t'" "wf_table t'"
    "table_rows t' = list_put ?rows slot (to_owned_file ?new)" "roomy t' bytes n"
    using put_row_ok [OF wf slot(1) _ room] new by (auto simp: row_input_ok_def)
  obtain cs where cs: "(if none_or ?old (\<lambda>o'. numeric_differs o' ?new) then columns_set slot ?new (us_numeric u) else Some (us_numeric u)) = Some cs"
    "columns_repr cs (list_put ?rows slot (to_owned_file ?new))"
  proof -
    have "\<exists>o'. ?old = Some o' \<and> to_owned_file o' = ?rows ! slot" if "slot < length ?rows"
    proof -
      obtain o' where "?old = Some o'" using old(3) [of slot] \<open>slot < length ?rows\<close> by (cases ?old) simp_all
      then show ?thesis using old(2) by blast
    qed
    moreover have "?old = None" if "slot = length ?rows" using that old(2) by (cases ?old) auto
    moreover have "length ?rows < 2 ^ 32" using len by (simp add: u32_max_def)
    ultimately show ?thesis using put_numeric_ok [OF num, of slot ?old ?new] slot(1) that by auto
  qed
  define u' where "u' = u\<lparr>us_entries := t', us_numeric := cs,
       us_metadata := (if differs ?w ?old (Some f) metadata_differs
         then put_metadata cr slot (live_old ?w ?old) ?new (us_metadata u) else us_metadata u),
       us_trigrams := (if differs ?w ?old (Some f) name_differs
         then gram_apply trigram_key 3 slot (old_search_name (live_old ?w ?old)) (search_name ?new) (us_trigrams u)
         else us_trigrams u),
       us_live := insert slot (us_live u)\<rparr>"
  have apply_eq: "apply_replacement cr slot ?old ?w f u = Some u'"
    unfolding apply_replacement_def Let_def prep cs(1) using t'(1) by (simp add: u'_def)
  have len': "et_length t' = (if slot = et_length ?t then Suc (et_length ?t) else et_length ?t)"
    using arg_cong [OF t'(3), of length] by simp
  have rows': "live_rows (insert slot (us_live u)) (table_rows t') = (live_rows (us_live u) ?rows)(slot \<mapsto> to_owned_file ?new)"
    unfolding t'(3) using slot(1) live by (intro live_rows_put) simp_all
  have good_old: "row_good cr o'" if "?old = Some o'" for o' using old(2) [OF that] by simp
  have "row_good cr (to_owned_file ?new)" using new by (simp add: row_good_prepare)
  then have "\<forall>r \<in> set (table_rows t'). row_good cr r"
    using good set_list_put unfolding t'(3) by fastforce
  moreover have "insert slot (us_live u) \<subseteq> {..<et_length t'}" using len' slot(1) live by auto
  moreover have us: "us_entries u' = t'" "us_live u' = insert slot (us_live u)" "us_numeric u' = cs"
    "us_metadata u' = (if differs ?w ?old (Some f) metadata_differs
       then put_metadata cr slot (live_old ?w ?old) ?new (us_metadata u) else us_metadata u)"
    "us_trigrams u' = (if differs ?w ?old (Some f) name_differs
       then gram_apply trigram_key 3 slot (old_search_name (live_old ?w ?old)) (search_name ?new) (us_trigrams u)
       else us_trigrams u)"
    by (simp_all add: u'_def)
  moreover have "metadata_index cr (live_rows (us_live u') (table_rows (us_entries u'))) (us_metadata u')"
    unfolding us rows' by (rule put_metadata_ok [OF meta old(1) good_old new])
  moreover have "grams_index trigram_key 3 (\<lambda>s. map_option search_name (live_rows (us_live u') (table_rows (us_entries u')) s)) (us_trigrams u')"
    unfolding us rows' by (rule put_grams_ok [OF grams old(1) good_old])
  moreover have "columns_repr (us_numeric u') (table_rows (us_entries u'))" unfolding us t'(3) by (rule cs(2))
  moreover have "et_length (us_entries u') \<le> u32_max" using len len' slot(2) us(1) by simp
  ultimately have "state_ok cr u'" using t'(2) unfolding state_ok_def us(1,2) by blast
  then show ?thesis using apply_eq t'(3,4) by (intro exI [of _ u']) (simp add: u'_def)
qed

lemma text_grams_Nil [simp]: "0 < n \<Longrightarrow> text_grams n [] = {}"
  by (simp add: text_grams_def as_bytes_def)

lemma apply_removal_ok:
  fixes slot :: nat
  assumes st: "state_ok cr u"
  defines "u' \<equiv> apply_removal cr slot (table_row (us_entries u) slot) (slot \<in> us_live u) u"
  shows "state_ok cr u'" "us_entries u' = us_entries u" "us_live u' = us_live u - {slot}" "us_file_slots u' = us_file_slots u"
    "us_changed u' = us_changed u" "us_path_changes u' = us_path_changes u" "us_order_changes u' = us_order_changes u"
proof -
  let ?old = "table_row (us_entries u) slot" and ?w = "slot \<in> us_live u"
  let ?M = "live_rows (us_live u) (table_rows (us_entries u))"
  have grams: "grams_index trigram_key 3 (\<lambda>s. map_option search_name (?M s)) (us_trigrams u)"
    and meta: "metadata_index cr ?M (us_metadata u)"
    using st by (simp_all add: state_ok_def)
  have old: "rel_option same_owned (?M slot) (live_old ?w ?old)" using state_old_row(1) [OF st] by (simp add: old_row_def)
  show us: "us_entries u' = us_entries u" "us_live u' = us_live u - {slot}" "us_file_slots u' = us_file_slots u"
    "us_changed u' = us_changed u" "us_path_changes u' = us_path_changes u" "us_order_changes u' = us_order_changes u"
    by (simp_all add: u'_def apply_removal_def split: option.splits)
  have num: "us_numeric u' = us_numeric u" by (simp add: u'_def apply_removal_def split: option.splits)
  have "metadata_index cr (?M(slot := None)) (us_metadata u') \<and>
    grams_index trigram_key 3 (\<lambda>s. map_option search_name ((?M(slot := None)) s)) (us_trigrams u')"
  proof (cases "live_old ?w ?old")
    case None
    then have "?M(slot := None) = ?M" using old by (intro fun_upd_idem) simp
    then show ?thesis using None meta grams by (simp add: u'_def apply_removal_def)
  next
    case (Some o')
    have "metadata_index cr (?M(slot \<mapsto> o')) (us_metadata u)"
      by (rule metadata_index_cong [OF meta]) (use old Some rel_keys in \<open>auto simp: option.rel_refl same_keys_def\<close>)
    from metadata_remove_index [OF this, of slot o'] have "metadata_index cr (?M(slot := None)) (us_metadata u')"
      using Some by (simp add: u'_def apply_removal_def)
    moreover have "row_keys (text_grams 3) (\<lambda>s. map_option search_name (?M s)) slot = text_grams 3 (search_name o')"
      using old Some by (cases "?M slot") (auto simp: row_keys_def same_owned_def dest: owned_fields(4))
    from gram_apply_index [OF grams [unfolded grams_index_def] this, of "[]"]
    have "keyed_index trigram_key ((row_keys (text_grams 3) (\<lambda>s. map_option search_name (?M s)))(slot := {})) (us_trigrams u')"
      using Some by (simp add: u'_def apply_removal_def)
    moreover have "(row_keys (text_grams 3) (\<lambda>s. map_option search_name (?M s)))(slot := {}) =
        row_keys (text_grams 3) (\<lambda>s. map_option search_name ((?M(slot := None)) s))"
      by (auto simp: fun_eq_iff row_keys_def)
    ultimately show ?thesis by (simp add: grams_index_def)
  qed
  then show "state_ok cr u'" using st unfolding state_ok_def us num live_rows_remove by blast
qed

section \<open>What an update carries over\<close>

text \<open>Outside a set of slots, the rows are those of before up to a relation, and as live as before.\<close>

definition carried :: "('r \<Rightarrow> 'r \<Rightarrow> bool) \<Rightarrow> nat set \<Rightarrow> 'r list \<Rightarrow> nat set \<Rightarrow> 'r list \<Rightarrow> nat set \<Rightarrow> bool" where
  "carried same S rows0 live0 rows live \<longleftrightarrow>
     (\<forall>s < length rows. s \<notin> S \<longrightarrow> s < length rows0 \<and> (s \<in> live \<longleftrightarrow> s \<in> live0) \<and> same (rows ! s) (rows0 ! s))"

definition equal_names :: "file_entry \<Rightarrow> file_entry \<Rightarrow> bool" where
  "equal_names f g \<longleftrightarrow> name f = name g \<and> view_text (path f) = view_text (path g)"

definition equal_paths :: "file_entry \<Rightarrow> file_entry \<Rightarrow> bool" where
  "equal_paths f g \<longleftrightarrow> view_text (path f) = view_text (path g)"

lemma transp_equal: "transp equal_names" "transp equal_paths" "transp (=)"
  by (auto simp: transp_def equal_names_def equal_paths_def)

lemma prepared_same [simp]: "name (prepare cr f) = name f" "path (prepare cr f) = path f" "id (prepare cr f) = id f"
  by (simp_all add: prepare_def Let_def)

lemma owned_same [simp]: "name (to_owned_file f) = name f" "view_text (path (to_owned_file f)) = view_text (path f)" "id (to_owned_file f) = id f"
  by (simp_all add: to_owned_file_def)

lemma carried_put:
  assumes "carried same S rows0 live0 rows live" "transp same" "slot \<le> length rows" "replacement = None \<longrightarrow> slot < length rows"
    "\<not> d \<Longrightarrow> slot < length rows \<and> slot \<in> live \<and> (\<exists>f. replacement = Some f \<and> same (to_owned_file (prepare cr f)) (rows ! slot))"
  shows "carried same (if d then insert slot S else S) rows0 live0 (changed_rows cr slot replacement rows) (changed_live slot replacement live)"
  unfolding carried_def
proof (intro allI impI)
  let ?rows = "changed_rows cr slot replacement rows" and ?live = "changed_live slot replacement live"
  fix s assume s: "s < length ?rows" "s \<notin> (if d then insert slot S else S)"
  show "s < length rows0 \<and> (s \<in> ?live \<longleftrightarrow> s \<in> live0) \<and> same (?rows ! s) (rows0 ! s)"
  proof (cases "s = slot")
    case True
    then have "\<not> d" using s(2) by auto
    then obtain f where f: "slot < length rows" "slot \<in> live" "replacement = Some f" "same (to_owned_file (prepare cr f)) (rows ! slot)"
      using assms(5) by blast
    have "s < length rows0 \<and> (s \<in> live \<longleftrightarrow> s \<in> live0) \<and> same (rows ! s) (rows0 ! s)"
      using assms(1) s(2) f(1) True by (auto simp: carried_def split: if_splits)
    then show ?thesis using f True transpD [OF assms(2) f(4), of "rows0 ! slot"]
      by (auto simp: changed_rows_def changed_live_def list_put_def)
  next
    case False
    then have "s < length rows" "?rows ! s = rows ! s" "s \<in> ?live \<longleftrightarrow> s \<in> live"
      using s(1) assms(3) by (auto simp: changed_rows_def changed_live_def list_put_def nth_append split: option.splits if_splits)
    then show ?thesis using assms(1) s(2) by (auto simp: carried_def split: if_splits)
  qed
qed

lemma carried_mono: "carried same S rows0 live0 rows live \<Longrightarrow> (\<And>f g. same f g \<Longrightarrow> same' f g) \<Longrightarrow> S \<subseteq> S' \<Longrightarrow>
    carried same' S' rows0 live0 rows live"
  by (auto simp: carried_def)

lemma carried_refl: "reflp same \<Longrightarrow> carried same S rows live rows live"
  by (simp add: carried_def reflpD)

text \<open>The files of a snapshot: the live rows by their numbers.\<close>

definition files_of :: "nat set \<Rightarrow> file_entry list \<Rightarrow> int \<Rightarrow> file_entry option" where
  "files_of live rows = map_of (map (\<lambda>s. (id (rows ! s), rows ! s)) (sorted_list_of_set live))"

definition numbered :: "nat set \<Rightarrow> file_entry list \<Rightarrow> bool" where
  "numbered live rows \<longleftrightarrow> live \<subseteq> {..<length rows} \<and> inj_on (\<lambda>s. id (rows ! s)) {..<length rows}"

lemma files_of_Some:
  assumes "numbered live rows"
  shows "files_of live rows key = Some f \<longleftrightarrow> (\<exists>s \<in> live. id (rows ! s) = key \<and> rows ! s = f)"
proof -
  have fin: "finite live" using assms finite_subset unfolding numbered_def by blast
  have "inj_on (\<lambda>s. id (rows ! s)) live" using assms inj_on_subset unfolding numbered_def by blast
  then have "distinct (map fst (map (\<lambda>s. (id (rows ! s), rows ! s)) (sorted_list_of_set live)))"
    using fin by (simp add: distinct_map comp_def)
  from map_of_eq_Some_iff [OF this, of key f] show ?thesis using fin by (auto simp: files_of_def)
qed

lemma files_of_None: "numbered live rows \<Longrightarrow> files_of live rows key = None \<longleftrightarrow> (\<forall>s \<in> live. id (rows ! s) \<noteq> key)"
  using files_of_Some [of live rows key] by (metis not_Some_eq)

lemma option_eqI: "(\<And>f. x = Some f \<longleftrightarrow> y = Some f) \<Longrightarrow> x = y"
  by (cases x; cases y) auto

lemma files_of_changed:
  assumes old: "numbered live rows" and new: "numbered (changed_live slot replacement live) (changed_rows cr slot replacement rows)"
    and slot: "slot \<le> length rows" "replacement = None \<Longrightarrow> slot < length rows \<and> id (rows ! slot) = key"
    "\<And>f. replacement = Some f \<Longrightarrow> id f = key" "slot < length rows \<Longrightarrow> id (rows ! slot) = key"
  shows "files_of (changed_live slot replacement live) (changed_rows cr slot replacement rows) =
    (files_of live rows)(key := map_option (\<lambda>f. to_owned_file (prepare cr f)) replacement)"
proof (rule ext, rule option_eqI)
  fix k f
  let ?rows = "changed_rows cr slot replacement rows" and ?live = "changed_live slot replacement live"
  have other: "s \<in> ?live \<longleftrightarrow> s \<in> live" "s \<in> live \<Longrightarrow> ?rows ! s = rows ! s" if "s \<noteq> slot" for s
    using that old by (auto simp: changed_rows_def changed_live_def list_put_def numbered_def nth_append split: option.splits)
  have mine: "slot \<in> ?live \<longleftrightarrow> replacement \<noteq> None" by (simp add: changed_live_def)
  have put: "?rows ! slot = to_owned_file (prepare cr g)" if "replacement = Some g" for g
    using that slot(1) by (simp add: changed_rows_def list_put_def)
  have key: "s = slot" if "s \<in> live" "id (rows ! s) = key" for s
  proof (rule ccontr)
    assume "s \<noteq> slot"
    have s: "s < length rows" using that(1) old by (auto simp: numbered_def)
    show False
    proof (cases "slot < length rows")
      case True
      then show False using \<open>s \<noteq> slot\<close> s that(2) slot(4) inj_onD [of "\<lambda>s. id (rows ! s)" "{..<length rows}" s slot] old
        by (simp add: numbered_def)
    next
      case False
      then obtain g where g: "replacement = Some g" using slot(2) by (cases replacement) auto
      have "s < length ?rows" "slot < length ?rows" using s slot(1) False g by (auto simp: changed_rows_def)
      moreover have "id (?rows ! s) = id (?rows ! slot)"
        using put [OF g] slot(3) [OF g] other(2) [OF \<open>s \<noteq> slot\<close> that(1)] that(2) by simp
      ultimately show False using \<open>s \<noteq> slot\<close> inj_onD [of "\<lambda>s. id (?rows ! s)" "{..<length ?rows}" s slot] new
        by (simp add: numbered_def)
    qed
  qed
  show "files_of ?live ?rows k = Some f \<longleftrightarrow> ((files_of live rows)(key := map_option (\<lambda>f. to_owned_file (prepare cr f)) replacement)) k = Some f"
  proof (cases "k = key")
    case True
    have "(\<exists>s \<in> ?live. id (?rows ! s) = key \<and> ?rows ! s = f) \<longleftrightarrow> (\<exists>g. replacement = Some g \<and> to_owned_file (prepare cr g) = f)"
    proof
      assume "\<exists>s \<in> ?live. id (?rows ! s) = key \<and> ?rows ! s = f"
      then obtain s where s: "s \<in> ?live" "id (?rows ! s) = key" "?rows ! s = f" by blast
      then have "s = slot" using other [of s] key [of s] by metis
      then show "\<exists>g. replacement = Some g \<and> to_owned_file (prepare cr g) = f" using s mine put by auto
    next
      assume "\<exists>g. replacement = Some g \<and> to_owned_file (prepare cr g) = f"
      then show "\<exists>s \<in> ?live. id (?rows ! s) = key \<and> ?rows ! s = f" using mine put slot(3) by (intro bexI [of _ slot]) auto
    qed
    then show ?thesis using True by (simp add: files_of_Some [OF new])
  next
    case False
    have "(\<exists>s \<in> ?live. id (?rows ! s) = k \<and> ?rows ! s = f) \<longleftrightarrow> (\<exists>s \<in> live. id (rows ! s) = k \<and> rows ! s = f)"
    proof -
      have "id (?rows ! slot) \<noteq> k" if "slot \<in> ?live" using that mine put slot(3) False by auto
      moreover have "id (rows ! slot) \<noteq> k" if "slot \<in> live"
        using slot(4) old that False by (auto simp: numbered_def)
      ultimately show ?thesis using other by metis
    qed
    then show ?thesis using False by (simp add: files_of_Some [OF new] files_of_Some [OF old])
  qed
qed

lemma state_ok_slots [simp]: "state_ok cr (u\<lparr>us_file_slots := fs\<rparr>) = state_ok cr u"
  by (simp add: state_ok_def)

lemma state_ok_marks [simp]:
  "state_ok cr (u\<lparr>us_changed := a, us_path_changes := b, us_order_changes := c\<rparr>) = state_ok cr u"
  by (simp add: state_ok_def)

text \<open>What one change leaves of a state, beside the lookup of numbers.\<close>

definition after_change :: "crates \<Rightarrow> nat \<Rightarrow> file_entry option \<Rightarrow> update_state \<Rightarrow> update_state \<Rightarrow> bool" where
  "after_change cr slot replacement u u' \<longleftrightarrow>
     (let old = table_row (us_entries u) slot; was_live = slot \<in> us_live u;
          mark = (\<lambda>test S. if differs was_live old replacement test then insert slot S else S) in
      state_ok cr u' \<and>
      table_rows (us_entries u') = changed_rows cr slot replacement (table_rows (us_entries u)) \<and>
      us_live u' = changed_live slot replacement (us_live u) \<and> us_changed u' = insert slot (us_changed u) \<and>
      us_path_changes u' = mark path_differs (us_path_changes u) \<and> us_order_changes u' = mark index_differs (us_order_changes u))"

lemma apply_change_ok:
  assumes st: "state_ok cr u" and slot: "slot \<le> et_length (us_entries u)" "slot < u32_max"
    and new: "\<And>f. replacement = Some f \<Longrightarrow> row_input_ok cr f"
    and room: "roomy (us_entries u) (change_need cr replacement + bytes) (Suc n)"
  shows "\<exists>u'. apply_change cr slot replacement u = Some u' \<and> after_change cr slot replacement u u' \<and>
    us_file_slots u' = us_file_slots u \<and> roomy (us_entries u') bytes n"
proof (cases replacement)
  case None
  note removal = apply_removal_ok [OF st, of slot]
  have "roomy (us_entries u) bytes n" using room None by (intro roomy_less [OF room]) simp_all
  then show ?thesis using None removal
    by (simp add: apply_change_def after_change_def changed_rows_def changed_live_def Let_def)
next
  case (Some f)
  obtain u1 where u1: "apply_replacement cr slot (table_row (us_entries u) slot) (slot \<in> us_live u) f u = Some u1" "state_ok cr u1"
    "roomy (us_entries u1) bytes n" "us_file_slots u1 = us_file_slots u" "us_live u1 = insert slot (us_live u)"
    "table_rows (us_entries u1) = list_put (table_rows (us_entries u)) slot (to_owned_file (prepare cr f))"
    "us_changed u1 = us_changed u" "us_path_changes u1 = us_path_changes u" "us_order_changes u1 = us_order_changes u"
    using apply_replacement_ok [OF st slot new [OF Some], of bytes n] room Some by (auto simp: change_need_def)
  then show ?thesis using Some
    by (simp add: apply_change_def after_change_def changed_rows_def changed_live_def Let_def)
qed

definition update_ok :: "crates \<Rightarrow> file_entry list \<Rightarrow> nat set \<Rightarrow> nat \<Rightarrow> nat \<Rightarrow> update_state \<Rightarrow> bool" where
  "update_ok cr rows0 live0 bytes n u \<longleftrightarrow>
     (let rows = table_rows (us_entries u); live = us_live u in
      state_ok cr u \<and> slots_ok (us_file_slots u) (us_entries u) (et_length (us_entries u)) \<and>
      roomy (us_entries u) bytes n \<and> et_length (us_entries u) + n \<le> u32_max \<and>
      carried (=) (us_changed u) rows0 live0 rows live \<and>
      carried equal_paths (us_path_changes u) rows0 live0 rows live \<and>
      carried equal_names (us_order_changes u) rows0 live0 rows live \<and>
      us_changed u \<subseteq> {..<length rows} \<and> us_path_changes u \<subseteq> us_changed u \<and> us_order_changes u \<subseteq> us_changed u \<and>
      length rows0 \<le> length rows \<and> (\<forall>s < length rows0. id (rows ! s) = id (rows0 ! s)))"

lemma slot_id_rows: "s < et_length t \<Longrightarrow> slot_id t s = id (table_rows t ! s)"
  by (simp add: slot_id_def table_rows_nth)

lemma slots_ok_cong: "slots_ok fs t n \<Longrightarrow> (\<And>s. s < n \<Longrightarrow> slot_id t' s = slot_id t s) \<Longrightarrow> slots_ok fs t' n"
  unfolding slots_ok_def by (auto simp: inj_on_def)

lemma state_numbered:
  assumes "state_ok cr u" "slots_ok fs (us_entries u) (et_length (us_entries u))"
  shows "numbered (us_live u) (table_rows (us_entries u))"
  using assms by (auto simp: numbered_def state_ok_def slots_ok_def inj_on_def slot_id_rows)

text \<open>Marking what differs keeps the rows that are not marked.\<close>

lemma after_change_carried:
  assumes st: "state_ok cr u" and after: "after_change cr slot replacement u u'"
    and slot: "slot \<le> et_length (us_entries u)" "replacement = None \<longrightarrow> slot < et_length (us_entries u)"
    and c: "carried same S rows0 live0 (table_rows (us_entries u)) (us_live u)" "transp same"
    and test: "\<And>o' f. \<not> test o' f \<Longrightarrow> same (to_owned_file (prepare cr f)) (to_owned_file o')"
  shows "carried same (if differs (slot \<in> us_live u) (table_row (us_entries u) slot) replacement test then insert slot S else S)
    rows0 live0 (table_rows (us_entries u')) (us_live u')"
proof -
  let ?rows = "table_rows (us_entries u)"
  have step: "slot < length ?rows \<and> slot \<in> us_live u \<and> (\<exists>f. replacement = Some f \<and> same (to_owned_file (prepare cr f)) (?rows ! slot))"
    if nd: "\<not> differs (slot \<in> us_live u) (table_row (us_entries u) slot) replacement test"
  proof -
    obtain o' f where o': "table_row (us_entries u) slot = Some o'" "replacement = Some f" "slot \<in> us_live u" "\<not> test o' f"
      using nd by (auto simp: differs_def split: option.splits if_splits)
    then show ?thesis using state_old_row(2) [OF st o'(1)] test [OF o'(4)] by auto
  qed
  have after_eq: "table_rows (us_entries u') = changed_rows cr slot replacement ?rows" "us_live u' = changed_live slot replacement (us_live u)"
    using after by (simp_all add: after_change_def Let_def)
  show ?thesis unfolding after_eq
    by (rule carried_put [OF c _ _ step]) (use slot in simp_all)
qed

lemma differs_always: "differs was_live old replacement (\<lambda>_ _. True)"
  by (simp add: differs_def split: option.splits)

lemma after_change_update:
  assumes ok: "update_ok cr rows0 live0 b (Suc n) u" and after: "after_change cr slot replacement u u'"
    and slot: "slot \<le> et_length (us_entries u)" "replacement = None \<longrightarrow> slot < et_length (us_entries u)"
    and id: "slot < et_length (us_entries u) \<Longrightarrow> \<forall>f. replacement = Some f \<longrightarrow> id f = id (table_rows (us_entries u) ! slot)"
    and slots: "slots_ok (us_file_slots u') (us_entries u') (et_length (us_entries u'))" and room: "roomy (us_entries u') bytes n"
  shows "update_ok cr rows0 live0 bytes n u'"
proof -
  let ?rows = "table_rows (us_entries u)" and ?rows' = "table_rows (us_entries u')"
  have st: "state_ok cr u" using ok by (simp add: update_ok_def Let_def)
  have a: "state_ok cr u'" "?rows' = changed_rows cr slot replacement ?rows" "us_live u' = changed_live slot replacement (us_live u)"
    "us_changed u' = insert slot (us_changed u)"
    "us_path_changes u' = (if differs (slot \<in> us_live u) (table_row (us_entries u) slot) replacement path_differs then insert slot (us_path_changes u) else us_path_changes u)"
    "us_order_changes u' = (if differs (slot \<in> us_live u) (table_row (us_entries u) slot) replacement index_differs then insert slot (us_order_changes u) else us_order_changes u)"
    using after by (simp_all add: after_change_def Let_def)
  have len: "length ?rows \<le> length ?rows'" "length ?rows' \<le> Suc (length ?rows)" "slot < length ?rows'"
    using a(2) slot by (auto simp: changed_rows_def split: option.splits)
  note c = after_change_carried [OF st after slot]
  have "carried equal_paths (us_path_changes u') rows0 live0 ?rows' (us_live u')"
    unfolding a(5) by (rule c) (use ok transp_equal in \<open>simp_all add: update_ok_def Let_def path_differs_def same_path_def view_eq_str_text equal_paths_def\<close>)
  moreover have "carried equal_names (us_order_changes u') rows0 live0 ?rows' (us_live u')"
    unfolding a(6) by (rule c) (use ok transp_equal in \<open>simp_all add: update_ok_def Let_def index_differs_def same_path_def view_eq_str_text equal_names_def\<close>)
  moreover have "carried (=) (us_changed u') rows0 live0 ?rows' (us_live u')"
    using c [of "(=)" "us_changed u" rows0 live0 "\<lambda>_ _. True"] ok transp_equal
    by (simp add: update_ok_def Let_def a(4) differs_always)
  moreover have "id (?rows' ! s) = id (?rows ! s)" if "s < length ?rows" for s
  proof (cases replacement)
    case (Some f)
    then have "slot < length ?rows \<Longrightarrow> id f = id (?rows ! slot)" using id by simp
    then show ?thesis using that slot(1) by (auto simp: a(2) Some changed_rows_def list_put_nth)
  qed (simp add: a(2) changed_rows_def)
  moreover have "et_length (us_entries u') + n \<le> u32_max" using ok len(2) by (simp add: update_ok_def Let_def)
  ultimately show ?thesis
    using ok a len slots room by (auto simp: update_ok_def Let_def)
qed

section \<open>A batch keeps the state and updates the files\<close>

definition changed_files :: "crates \<Rightarrow> snapshot_change \<Rightarrow> (int \<Rightarrow> file_entry option) \<Rightarrow> int \<Rightarrow> file_entry option" where
  "changed_files cr ch m = m(fst ch := map_option (\<lambda>f. to_owned_file (prepare cr f)) (snd ch))"

definition change_ok :: "crates \<Rightarrow> snapshot_change \<Rightarrow> bool" where
  "change_ok cr ch \<longleftrightarrow> (case snd ch of None \<Rightarrow> True | Some f \<Rightarrow> row_input_ok cr f \<and> id f = fst ch)"

definition state_files :: "update_state \<Rightarrow> int \<Rightarrow> file_entry option" where
  "state_files u = files_of (us_live u) (table_rows (us_entries u))"

lemma update_okD:
  assumes "update_ok cr rows0 live0 b n u"
  shows "state_ok cr u" "slots_ok (us_file_slots u) (us_entries u) (et_length (us_entries u))" "roomy (us_entries u) b n"
    "et_length (us_entries u) + n \<le> u32_max" "wf_table (us_entries u)" "numbered (us_live u) (table_rows (us_entries u))"
  using assms state_numbered by (auto simp: update_ok_def Let_def state_ok_def)

lemma update_ok_less: "update_ok cr rows0 live0 b n u \<Longrightarrow> b' \<le> b \<Longrightarrow> n' \<le> n \<Longrightarrow> update_ok cr rows0 live0 b' n' u"
  unfolding update_ok_def Let_def by (auto intro: roomy_less)

lemma length_changed_rows:
  "slot \<le> length rows \<Longrightarrow> replacement = None \<longrightarrow> slot < length rows \<Longrightarrow>
     length (changed_rows cr slot replacement rows) = (if slot = length rows then Suc (length rows) else length rows)"
  by (auto simp: changed_rows_def split: option.splits)

lemma changed_rows_id:
  assumes "slot \<le> length rows" "\<And>f. replacement = Some f \<Longrightarrow> id f = key" "slot < length rows \<Longrightarrow> id (rows ! slot) = key"
    "replacement = None \<Longrightarrow> slot < length rows"
  shows "s < length rows \<Longrightarrow> id (changed_rows cr slot replacement rows ! s) = id (rows ! s)"
    "id (changed_rows cr slot replacement rows ! slot) = key"
  using assms by (cases replacement; auto simp: changed_rows_def list_put_nth)+

text \<open>A change whose slot is known, or the next one, leaves a good state and the changed files.\<close>

lemma change_at_ok:
  assumes ok: "update_ok cr rows0 live0 (change_need cr replacement + bytes) (Suc n) u" and ch: "change_ok cr (key, replacement)"
    and slot: "slot \<le> et_length (us_entries u)" "replacement = None \<Longrightarrow> slot < et_length (us_entries u)"
      "slot < et_length (us_entries u) \<Longrightarrow> id (table_rows (us_entries u) ! slot) = key"
    and slots: "\<And>t. et_length t = (if slot = et_length (us_entries u) then Suc slot else et_length (us_entries u)) \<Longrightarrow>
      (\<forall>s < et_length (us_entries u). slot_id t s = slot_id (us_entries u) s) \<Longrightarrow> slot_id t slot = key \<Longrightarrow> slots_ok fs t (et_length t)"
  shows "\<exists>u'. apply_change cr slot replacement (u\<lparr>us_file_slots := fs\<rparr>) = Some u' \<and> update_ok cr rows0 live0 bytes n u' \<and>
    state_files u' = changed_files cr (key, replacement) (state_files u)"
proof -
  let ?u = "u\<lparr>us_file_slots := fs\<rparr>" and ?t = "us_entries u" and ?rows = "table_rows (us_entries u)"
  note d = update_okD [OF ok]
  have new: "row_input_ok cr f \<and> id f = key" if "replacement = Some f" for f using ch that by (simp add: change_ok_def)
  obtain u' where u': "apply_change cr slot replacement ?u = Some u'" "after_change cr slot replacement u u'"
    "roomy (us_entries u') bytes n" "us_file_slots u' = fs"
    using apply_change_ok [of cr ?u slot replacement bytes n] d new slot(1) by (auto simp: after_change_def)
  have rows': "table_rows (us_entries u') = changed_rows cr slot replacement ?rows" "us_live u' = changed_live slot replacement (us_live u)"
    using u'(2) by (simp_all add: after_change_def Let_def)
  have bounds: "slot \<le> length ?rows" "replacement = None \<Longrightarrow> slot < length ?rows" "slot < length ?rows \<Longrightarrow> id (?rows ! slot) = key"
    using slot by simp_all
  have key: "id f = key" if "replacement = Some f" for f using new [OF that] by simp
  have len: "et_length (us_entries u') = (if slot = et_length ?t then Suc slot else et_length ?t)"
    using arg_cong [OF rows'(1), of length] length_changed_rows [OF bounds(1), of replacement cr] bounds(2) by auto
  note ids = changed_rows_id [OF bounds(1) key bounds(3,2)]
  have "\<forall>s < et_length ?t. slot_id (us_entries u') s = slot_id ?t s" "slot_id (us_entries u') slot = key"
    using ids slot(1) by (simp_all add: slot_id_rows len rows'(1))
  from slots [OF len this] have sl: "slots_ok (us_file_slots u') (us_entries u') (et_length (us_entries u'))" by (simp add: u'(4))
  have up: "update_ok cr rows0 live0 bytes n u'"
    by (rule after_change_update [OF update_ok_less [OF ok] u'(2) _ _ _ sl u'(3)]) (use slot new in auto)
  moreover have "state_files u' = changed_files cr (key, replacement) (state_files u)"
    using files_of_changed [OF d(6) _ bounds(1), of replacement cr key] update_okD(6) [OF up] bounds key
    by (simp add: state_files_def changed_files_def rows')
  ultimately show ?thesis using u'(1) by blast
qed

lemma change_step_ok:
  assumes ok: "update_ok cr rows0 live0 (change_need cr (snd ch) + bytes) (Suc n) u" and ch: "change_ok cr ch"
  shows "\<exists>u'. change_step cr ch u = Some (Inr u') \<and> update_ok cr rows0 live0 bytes n u' \<and>
    state_files u' = changed_files cr ch (state_files u)"
proof -
  let ?t = "us_entries u" and ?fs = "us_file_slots u" and ?rows = "table_rows (us_entries u)"
  obtain key replacement where ch_eq: "ch = (key, replacement)" by fastforce
  note d = update_okD [OF ok]
  obtain found where found: "slots_get ?fs ?t key = Some found" "\<And>s. found = Some s \<longleftrightarrow> s < et_length ?t \<and> slot_id ?t s = key"
    using slots_get_ok [OF d(5,2) order_refl, of key] by blast
  have ok': "update_ok cr rows0 live0 (change_need cr replacement + bytes) (Suc n) u" and ch': "change_ok cr (key, replacement)"
    using ok ch by (simp_all add: ch_eq)
  consider (known) slot where "found = Some slot" | (gone) "found = None" "replacement = None"
    | (fresh) f where "found = None" "replacement = Some f"
    by (cases found; cases replacement) auto
  then show ?thesis
  proof cases
    case known
    then have "slot < et_length ?t \<and> slot_id ?t slot = key" using found(2) [of slot] by blast
    then have slot: "slot < et_length ?t" "id (?rows ! slot) = key" using slot_id_rows [of slot ?t] by simp_all
    have "\<exists>u'. apply_change cr slot replacement (u\<lparr>us_file_slots := ?fs\<rparr>) = Some u' \<and> update_ok cr rows0 live0 bytes n u' \<and>
        state_files u' = changed_files cr (key, replacement) (state_files u)"
      by (rule change_at_ok [OF ok' ch']) (use slot slots_ok_cong [OF d(2)] in auto)
    then show ?thesis using found(1) known by (auto simp: change_step_def find_slot_def ch_eq fine_def)
  next
    case gone
    then have step: "change_step cr ch u = Some (Inr u)" using found(1) by (simp add: change_step_def find_slot_def ch_eq fine_def)
    have "id (?rows ! s) \<noteq> key" if "s \<in> us_live u" for s
      using found(2) [of s] gone(1) that d(6) by (auto simp: numbered_def slot_id_rows)
    then have "state_files u key = None" using files_of_None [OF d(6)] by (simp add: state_files_def)
    then have "state_files u = changed_files cr ch (state_files u)"
      using gone(2) by (simp add: changed_files_def ch_eq fun_upd_idem)
    moreover have "update_ok cr rows0 live0 bytes n u" by (rule update_ok_less [OF ok]) simp_all
    ultimately show ?thesis using step by (intro exI [of _ u]) simp
  next
    case fresh
    let ?n = "et_length ?t"
    have unknown: "\<forall>s < ?n. slot_id ?t s \<noteq> key" using found(2) fresh(1) by auto
    have small: "?n \<le> u32_max" using d(4) by simp
    note append = slots_append_ok [OF d(5,2) order_refl small unknown]
    obtain t0 where t0: "\<forall>s < ?n. slot_id t0 s = slot_id ?t s" "slot_id t0 ?n = key"
    proof -
      have new: "row_input_ok cr f" "id f = key" using ch' fresh(2) by (simp_all add: change_ok_def)
      have "roomy ?t (text_need (prepare cr f) + bytes) (Suc n)" using d(3) fresh(2) by (simp add: change_need_def ch_eq)
      then obtain t' where t': "put_row ?n (prepare cr f) ?t = Some t'" "table_rows t' = list_put ?rows ?n (to_owned_file (prepare cr f))"
        using put_row_ok [OF d(5) order_refl, of "prepare cr f"] new(1) unfolding row_input_ok_def row_ok_prepare by blast
      have "et_length t' = Suc ?n" using arg_cong [OF t'(2), of length] by simp
      then show ?thesis using that [of t'] new(2) by (auto simp: slot_id_rows t'(2) list_put_def nth_append)
    qed
    obtain fs' where fs': "slots_append_at key ?t ?n ?fs = Some (Inr (?n, fs'))" using append [OF t0] by blast
    have slots: "slots_ok fs' t (Suc ?n)" if "\<forall>s < ?n. slot_id t s = slot_id ?t s" "slot_id t ?n = key" for t
      using append [OF that] fs' by auto
    have "\<exists>u'. apply_change cr ?n replacement (u\<lparr>us_file_slots := fs'\<rparr>) = Some u' \<and> update_ok cr rows0 live0 bytes n u' \<and>
        state_files u' = changed_files cr (key, replacement) (state_files u)"
      by (rule change_at_ok [OF ok' ch']) (use slots fresh in auto)
    then show ?thesis using found(1) fresh fs' by (auto simp: change_step_def find_slot_def ch_eq fine_def slots_append_def)
  qed
qed

definition changes_need :: "crates \<Rightarrow> snapshot_change list \<Rightarrow> nat" where
  "changes_need cr chs = sum_list (map (\<lambda>ch. change_need cr (snd ch)) chs)"

lemma change_loop_ok:
  "update_ok cr rows0 live0 (changes_need cr chs) (length chs) u \<Longrightarrow> list_all (change_ok cr) chs \<Longrightarrow>
     \<exists>u'. change_loop cr chs u = Some (Inr u') \<and> update_ok cr rows0 live0 0 0 u' \<and>
       state_files u' = fold (changed_files cr) chs (state_files u)"
proof (induction chs arbitrary: u)
  case Nil
  then show ?case by (simp add: changes_need_def)
next
  case (Cons ch chs)
  obtain u1 where u1: "change_step cr ch u = Some (Inr u1)" "update_ok cr rows0 live0 (changes_need cr chs) (length chs) u1"
    "state_files u1 = changed_files cr ch (state_files u)"
    using change_step_ok [of cr rows0 live0 ch "changes_need cr chs" "length chs" u] Cons.prems by (auto simp: changes_need_def)
  then show ?case using Cons.IH [OF u1(2)] Cons.prems(2) by simp
qed

end
