(* ===== verification/Snapshot_Update.thy ===== *)
theory Snapshot_Update
  imports Change_Step
begin

text \<open>
  The next snapshot from a batch of changes, \<open>from_changes\<close>, \<open>apply_changes\<close> and \<open>remap_changes\<close> of
  \<open>core/src/index_store.rs\<close>. Sharing of persisted sections changes where values are stored, not the values.
\<close>

section \<open>The next snapshot\<close>

definition begin_update :: "'s search_snapshot \<Rightarrow> update_state" where
  "begin_update sn = \<lparr>us_entries = ss_entries sn, us_file_slots = ss_file_slots sn, us_live = ss_live sn,
     us_trigrams = ss_trigrams sn, us_metadata = ss_metadata sn, us_numeric = ss_numeric sn,
     us_order_changes = {}, us_path_changes = {}, us_changed = {}\<rparr>"

text \<open>The orders the cache of the previous snapshot holds are carried over; they are an argument.\<close>

definition relevant_changes :: "'s search_snapshot \<Rightarrow> nat set \<Rightarrow> nat set \<Rightarrow> entry_table \<Rightarrow> result_order \<Rightarrow> nat set" where
  "relevant_changes previous touched live entries ro =
     {slot \<in> touched. (slot \<in> ss_live previous) \<noteq> (slot \<in> live) \<or>
       none_or (table_row (ss_entries previous) slot) (\<lambda>old. affected_by_change ro old (row_at entries slot))}"

fun update_orders :: "'s search_snapshot \<Rightarrow> nat set \<Rightarrow> nat set \<Rightarrow> entry_table \<Rightarrow> (result_order \<times> 's slot_order) list
    \<Rightarrow> (result_order \<times> 's slot_order) list option" where
  "update_orders previous touched live entries [] = Some []"
| "update_orders previous touched live entries ((ro, so) # orders) = do {
     let relevant = relevant_changes previous touched live entries ro;
     so' \<leftarrow> (if relevant = {} then Some so else updated_order so (ss_entries previous) relevant live entries ro);
     rest \<leftarrow> update_orders previous touched live entries orders;
     Some ((ro, so') # rest) }"

definition finish_changes :: "'s search_snapshot \<Rightarrow> (result_order \<times> 's slot_order) list \<Rightarrow> nat \<Rightarrow> update_state
    \<Rightarrow> ('s search_snapshot \<times> (result_order \<times> 's slot_order) list) option" where
  "finish_changes previous old_orders generation u = do {
     entries \<leftarrow> table_finish_update (us_entries u);
     let live = us_live u;
     name_order \<leftarrow> (if us_order_changes u = {} then Some (ss_name_order previous)
       else updated_order (ss_name_order previous) (ss_entries previous) (us_order_changes u) live entries order_name);
     numeric \<leftarrow> columns_finish_update entries (us_numeric u);
     (path_order, ties) \<leftarrow> (if us_path_changes u = {} then Some (ss_path_order previous, ss_path_ties previous)
       else do {
         so \<leftarrow> updated_order (ss_path_order previous) (ss_entries previous) (us_path_changes u) live entries order_path;
         ties \<leftarrow> updated_path_ties previous (us_path_changes u) live entries so;
         Some (so, ties) });
     orders \<leftarrow> update_orders previous (us_changed u) live entries old_orders;
     Some (\<lparr>ss_entries = entries, ss_file_slots = us_file_slots u, ss_live = live, ss_trigrams = us_trigrams u,
       ss_name_order = name_order, ss_path_order = path_order, ss_path_ties = ties, ss_metadata = us_metadata u,
       ss_numeric = numeric, ss_names = entries, ss_generation = generation,
       ss_content_revision = ss_content_revision previous\<rparr>, orders) }"

text \<open>Compaction: the live rows and the changes, merged by number. The last of several changes of a row is kept.\<close>

definition push_change :: "snapshot_change list \<Rightarrow> snapshot_change \<Rightarrow> snapshot_change list" where
  "push_change unique ch =
     (if unique \<noteq> [] \<and> fst (last unique) = fst ch then butlast unique @ [ch] else unique @ [ch])"

definition remap_change :: "crates \<Rightarrow> 's search_snapshot \<Rightarrow> snapshot_change \<Rightarrow> file_entry list option \<Rightarrow> file_entry list option" where
  "remap_change cr sn ch rest =
     (case snd ch of
        None \<Rightarrow> rest
      | Some row \<Rightarrow> do {
          found \<leftarrow> slot_for_id sn (fst ch);
          rows \<leftarrow> rest;
          Some (prepare_replacement cr (map_option (row_at (ss_entries sn)) found) row # rows) })"

fun remap_rows :: "crates \<Rightarrow> 's search_snapshot \<Rightarrow> nat list \<Rightarrow> snapshot_change list \<Rightarrow> file_entry list option" where
  "remap_rows cr sn [] [] = Some []"
| "remap_rows cr sn (s # ss) [] =
     map_option (\<lambda>rows. to_owned_file (row_at (ss_entries sn) s) # rows) (remap_rows cr sn ss [])"
| "remap_rows cr sn [] (ch # chs) = remap_change cr sn ch (remap_rows cr sn [] chs)"
| "remap_rows cr sn (s # ss) (ch # chs) =
     (if id (row_at (ss_entries sn) s) < fst ch
      then map_option (\<lambda>rows. to_owned_file (row_at (ss_entries sn) s) # rows) (remap_rows cr sn ss (ch # chs))
      else remap_change cr sn ch
        (if id (row_at (ss_entries sn) s) = fst ch then remap_rows cr sn ss chs else remap_rows cr sn (s # ss) chs))"

definition live_by_id :: "'s search_snapshot \<Rightarrow> nat list" where
  "live_by_id sn =
     (let old = sorted_list_of_set (ss_live sn) in
      if fs_prefix (ss_file_slots sn) \<noteq> et_length (ss_entries sn)
      then sort_key (\<lambda>s. id (row_at (ss_entries sn) s)) old else old)"

definition remap_changes :: "crates \<Rightarrow> snapshot_change list \<Rightarrow> nat \<Rightarrow> 's search_snapshot \<Rightarrow> 's search_snapshot option" where
  "remap_changes cr changes generation sn = do {
     let unique = foldl push_change [] (sort_key fst changes);
     rows \<leftarrow> remap_rows cr sn (live_by_id sn) unique;
     t \<leftarrow> (case table_from_rows (map Inr rows) of Some (Inr t) \<Rightarrow> Some t | _ \<Rightarrow> None);
     views \<leftarrow> table_views t;
     next_snapshot \<leftarrow> build_prepared_indexes cr t (name_grams (enumerate 0 views)) generation;
     Some (next_snapshot\<lparr>ss_content_revision := ss_content_revision sn\<rparr>) }"

definition sparse :: "'s search_snapshot \<Rightarrow> bool" where
  "sparse sn \<longleftrightarrow> et_length (ss_entries sn) > card (ss_live sn) + card (ss_live sn) div 4 + 10000"

definition incremental_limit :: "nat \<Rightarrow> nat" where
  "incremental_limit entry_count = max (entry_count div 8) 2000"

definition remap_reason :: "snapshot_change list \<Rightarrow> 's search_snapshot \<Rightarrow> string option" where
  "remap_reason changes sn =
     (if length changes > incremental_limit (card (ss_live sn)) then None
      else if sparse sn then Some ''inactive_slots_require_compaction'' else None)"

definition apply_snapshot_changes :: "crates \<Rightarrow> snapshot_change list \<Rightarrow> nat \<Rightarrow> 's search_snapshot
    \<Rightarrow> (result_order \<times> 's slot_order) list \<Rightarrow> ('s search_snapshot \<times> (result_order \<times> 's slot_order) list) outcome" where
  "apply_snapshot_changes cr changes generation sn old_orders =
     (if sparse sn then fine (map_option (\<lambda>next_snapshot. (next_snapshot, [])) (remap_changes cr changes generation sn))
      else bind_outcome (change_loop cr (sort_key fst changes) (begin_update sn))
        (\<lambda>u. fine (finish_changes sn old_orders generation u)))"

definition from_changes :: "crates \<Rightarrow> snapshot_change list \<Rightarrow> nat \<Rightarrow> 's search_snapshot
    \<Rightarrow> (result_order \<times> 's slot_order) list \<Rightarrow> ('s search_snapshot \<times> (result_order \<times> 's slot_order) list) outcome" where
  "from_changes cr changes generation sn old_orders =
     (if length changes > incremental_limit (card (ss_live sn)) then Some (Inl ''delta_exceeds_incremental_limit'')
      else apply_snapshot_changes cr changes generation sn old_orders)"

text \<open>Sorting by number keeps the order of changes of one row, so that the files come out the same.\<close>

lemma changed_files_at:
  "fold (changed_files cr) chs m key = fold (changed_files cr) (filter (\<lambda>ch. fst ch = key) chs) m key"
proof (induction chs arbitrary: m)
  case (Cons ch chs)
  have local: "m key = m' key \<Longrightarrow> fold (changed_files cr) cs m key = fold (changed_files cr) cs m' key" for cs m m'
  proof (induction cs arbitrary: m m')
    case (Cons c cs)
    from Cons.prems have "changed_files cr c m key = changed_files cr c m' key" by (simp add: changed_files_def)
    with Cons.IH [of "changed_files cr c m" "changed_files cr c m'"] show ?case by simp
  qed simp
  show ?case
  proof (cases "fst ch = key")
    case False
    then have "changed_files cr ch m key = m key" by (simp add: changed_files_def)
    with local [of "changed_files cr ch m" m chs] Cons.IH [of m] False show ?thesis by simp
  qed (simp add: Cons.IH)
qed simp

lemma changed_files_sorted: "fold (changed_files cr) (sort_key fst chs) m = fold (changed_files cr) chs m"
proof
  fix key
  have "filter (\<lambda>ch. fst ch = key) (sort_key fst chs) = filter (\<lambda>ch. fst ch = key) chs"
    by (rule sort_key_stable)
  then show "fold (changed_files cr) (sort_key fst chs) m key = fold (changed_files cr) chs m key"
    using changed_files_at [of cr "sort_key fst chs" m key] changed_files_at [of cr chs m key] by simp
qed

section \<open>The orders of the next snapshot\<close>

lemma row_at_owned: "s < et_length t \<Longrightarrow> to_owned_file (row_at t s) = table_rows t ! s"
  by (simp add: row_at_def table_rows_nth)

lemma row_at_good:
  assumes "\<forall>r \<in> set (table_rows t). row_good cr r" "s < et_length t"
  shows "row_good cr (row_at t s)"
proof -
  have "row_good cr (to_owned_file (row_at t s))" using assms by (simp add: row_at_owned)
  then show ?thesis by (simp only: row_good_owned)
qed

lemma same_order_unaffected:
  assumes "\<And>a. a \<in> keep \<Longrightarrow> \<not> affected_by_change ro (row a) (row' a)" "\<And>a. a \<in> keep \<Longrightarrow> prepared cr (row a) \<and> prepared cr (row' a)"
  shows "same_order ro row row' keep"
proof -
  have left: "order_compare ro (row' a) x = order_compare ro (row a) x" if "a \<in> keep" for a x
    using order_unchanged [OF assms(1) [OF that], of "fold_text cr" "fold_text cr" x] assms(2) [OF that] by (simp add: prepared_iff)
  have "order_compare ro (row' a) (row' b) = order_compare ro (row a) (row b)" if "a \<in> keep" "b \<in> keep" for a b
    using left [OF that(1), of "row' b"] left [OF that(2), of "row a"] row_order.cmp_swap [of ro "row a" "row' b"] row_order.cmp_swap [of ro "row a" "row b"]
    by simp
  then show ?thesis by (simp add: same_order_def slot_compare_def)
qed

lemma order_holds_same:
  assumes "order_holds row ro live so" "finite live" "same_order ro row row' live"
  shows "order_holds row' ro live so"
proof -
  note d = order_holdsD [OF assms(1,2)]
  have "sorted_by (slot_compare row' ro) (to_vec so)"
    using d(2) assms(3) d(3) unfolding sorted_by_def by (elim sorted_wrt_mono_rel [rotated]) (auto simp: same_order_def)
  then show ?thesis using assms(1) by (simp add: order_holds_def)
qed

definition snapshot_sound :: "crates \<Rightarrow> 's search_snapshot \<Rightarrow> bool" where
  "snapshot_sound cr sn \<longleftrightarrow> snapshot_ok cr sn \<and> (\<forall>r \<in> set (table_rows (ss_entries sn)). row_good cr r)"

lemma snapshot_soundD:
  assumes "snapshot_sound cr sn"
  shows "wf_table (ss_entries sn)" "et_length (ss_entries sn) \<le> u32_max" "ss_live sn \<subseteq> {..<et_length (ss_entries sn)}" "finite (ss_live sn)"
    "inj_on (slot_id (ss_entries sn)) {..<et_length (ss_entries sn)}" "\<forall>r \<in> set (table_rows (ss_entries sn)). row_good cr r"
    "orders_ok sn" "indexes_ok cr sn"
proof -
  have ix: "indexes_ok cr sn" "orders_ok sn" using assms by (simp_all add: snapshot_sound_def snapshot_ok_def)
  show "wf_table (ss_entries sn)" "et_length (ss_entries sn) \<le> u32_max" using indexes_okD(1,2) [OF ix(1)] .
  show live: "ss_live sn \<subseteq> {..<et_length (ss_entries sn)}" using indexes_okD(3) [OF ix(1)] .
  show "finite (ss_live sn)" by (rule finite_subset [OF live]) simp
  show "inj_on (slot_id (ss_entries sn)) {..<et_length (ss_entries sn)}"
    using indexes_okD(4) [OF ix(1)] by (simp add: slots_ok_def)
  show "\<forall>r \<in> set (table_rows (ss_entries sn)). row_good cr r" using assms by (simp add: snapshot_sound_def)
  show "orders_ok sn" "indexes_ok cr sn" by (rule ix)+
qed

lemma slot_row_at: "slot_row sn = row_at (ss_entries sn)"
  by (simp add: fun_eq_iff slot_row_def row_at_def)

text \<open>The rows of before and after: a table with the same numbers, sound rows, and the live slots.\<close>

definition succession :: "crates \<Rightarrow> 's search_snapshot \<Rightarrow> entry_table \<Rightarrow> nat set \<Rightarrow> bool" where
  "succession cr sn t live \<longleftrightarrow> wf_table t \<and> live \<subseteq> {..<et_length t} \<and> et_length (ss_entries sn) \<le> et_length t \<and>
     (\<forall>r \<in> set (table_rows t). row_good cr r) \<and>
     (\<forall>s < et_length (ss_entries sn). id (table_rows t ! s) = id (table_rows (ss_entries sn) ! s))"

text \<open>A set of slots outside of which nothing an order looks at has changed.\<close>

definition unaffected :: "'s search_snapshot \<Rightarrow> entry_table \<Rightarrow> nat set \<Rightarrow> nat set \<Rightarrow> result_order \<Rightarrow> bool" where
  "unaffected sn t live S ro \<longleftrightarrow> live - S = ss_live sn - S \<and>
     (\<forall>s \<in> ss_live sn - S. \<not> affected_by_change ro (row_at (ss_entries sn) s) (row_at t s))"

lemma carried_live:
  assumes "succession cr sn t live" "ss_live sn \<subseteq> {..<et_length (ss_entries sn)}"
    "carried same S (table_rows (ss_entries sn)) (ss_live sn) (table_rows t) live"
  shows "live - S = ss_live sn - S"
    "s \<in> ss_live sn - S \<Longrightarrow> same (table_rows t ! s) (table_rows (ss_entries sn) ! s)"
  using assms by (force simp: carried_def succession_def)+

lemma carried_unaffected:
  assumes succ: "succession cr sn t live" and sound: "snapshot_sound cr sn"
    and c: "carried same S (table_rows (ss_entries sn)) (ss_live sn) (table_rows t) live"
    and same: "\<And>f g. same f g \<Longrightarrow> id f = id g \<Longrightarrow> \<not> affected_by_change ro g f"
  shows "unaffected sn t live S ro"
proof -
  note d = snapshot_soundD [OF sound]
  have "\<not> affected_by_change ro (row_at (ss_entries sn) s) (row_at t s)" if s: "s \<in> ss_live sn - S" for s
  proof -
    have len: "s < et_length (ss_entries sn)" "s < et_length t" using s d(3) succ by (auto simp: succession_def)
    have "\<not> affected_by_change ro (table_rows (ss_entries sn) ! s) (table_rows t ! s)"
      using same [OF carried_live(2) [OF succ d(3) c s]] succ len(1) by (simp add: succession_def)
    then have "\<not> affected_by_change ro (to_owned_file (row_at (ss_entries sn) s)) (to_owned_file (row_at t s))"
      using len by (simp add: row_at_owned)
    moreover have "field_differs f (to_owned_file a) (to_owned_file b) = field_differs f a b" for f a b
      by (cases f) (simp_all add: to_owned_file_def)
    ultimately show ?thesis by (simp add: affected_by_change_def view_eq_text)
  qed
  then show ?thesis using carried_live(1) [OF succ d(3) c] by (simp add: unaffected_def)
qed

lemma unaffected_same_order:
  assumes succ: "succession cr sn t live" and sound: "snapshot_sound cr sn" and un: "unaffected sn t live S ro"
  shows "same_order ro (row_at (ss_entries sn)) (row_at t) (ss_live sn - S)"
proof (rule same_order_unaffected)
  note d = snapshot_soundD [OF sound]
  fix s assume s: "s \<in> ss_live sn - S"
  then show "\<not> affected_by_change ro (row_at (ss_entries sn) s) (row_at t s)" using un by (simp add: unaffected_def)
  have "s < et_length (ss_entries sn)" "s < et_length t" using s d(3) succ by (auto simp: succession_def)
  then show "prepared cr (row_at (ss_entries sn) s) \<and> prepared cr (row_at t s)"
    using row_at_good [OF d(6)] row_at_good [of t cr s] succ by (simp add: row_good_def succession_def)
qed

text \<open>An order is carried over, by leaving it as it is or by an update with enough slots.\<close>

lemma next_order:
  assumes succ: "succession cr sn t live" and sound: "snapshot_sound cr sn" and so: "order_ok sn ro so"
    and un: "unaffected sn t live S ro" and fin: "finite S"
  shows "\<exists>so'. (if S = {} then Some so else updated_order so (ss_entries sn) S live t ro) = Some so' \<and>
    order_holds (row_at t) ro live so'"
proof -
  note d = snapshot_soundD [OF sound]
  have so': "order_holds (row_at (ss_entries sn)) ro (ss_live sn) so" using so by (simp add: order_ok_holds slot_row_at)
  have keep: "live - S = ss_live sn - S" using un by (simp add: unaffected_def)
  have live: "finite live" using succ finite_subset [of live "{..<et_length t}"] by (simp add: succession_def)
  note same = unaffected_same_order [OF succ sound un]
  show ?thesis
  proof (cases "S = {}")
    case True
    then show ?thesis using order_holds_same [OF so' d(4)] same keep by simp
  next
    case False
    then show ?thesis using updated_order_ok [OF so' d(4,1,3,5) fin keep live same] by simp
  qed
qed

lemma next_orders:
  assumes succ: "succession cr sn t live" and sound: "snapshot_sound cr sn"
    and c: "carried (=) touched (table_rows (ss_entries sn)) (ss_live sn) (table_rows t) live" "finite touched"
    and orders: "\<forall>(ro, so) \<in> set orders. order_ok sn ro so"
  shows "\<exists>orders'. update_orders sn touched live t orders = Some orders' \<and> map fst orders' = map fst orders \<and>
    (\<forall>(ro, so) \<in> set orders'. order_holds (row_at t) ro live so)"
  using orders
proof (induction orders)
  case (Cons x orders)
  obtain ro so where x: "x = (ro, so)" by fastforce
  let ?S = "relevant_changes sn touched live t ro"
  note d = snapshot_soundD [OF sound]
  have all: "unaffected sn t live touched ro"
    by (rule carried_unaffected [OF succ sound c(1)]) (auto simp: affected_by_change_def view_eq_text list_ex_iff elim: field_differs.elims)
  have row: "table_row (ss_entries sn) s = Some (row_at (ss_entries sn) s)" if "s \<in> ss_live sn" for s
    using table_row_Some [OF d(1), of s] d(3) that by (auto simp: row_at_def)
  have "unaffected sn t live ?S ro"
    using all unfolding unaffected_def relevant_changes_def none_or_def by (fastforce simp: row)
  moreover have "finite ?S" using c(2) by (simp add: relevant_changes_def)
  moreover have "order_ok sn ro so" using Cons.prems by (simp add: x)
  ultimately obtain so' where so': "(if ?S = {} then Some so else updated_order so (ss_entries sn) ?S live t ro) = Some so'"
    "order_holds (row_at t) ro live so'"
    using next_order [OF succ sound] by blast
  then show ?case using Cons by (auto simp: x)
qed simp

lemma next_ties:
  assumes succ: "succession cr sn t live" and sound: "snapshot_sound cr sn"
    and c: "carried equal_paths S (table_rows (ss_entries sn)) (ss_live sn) (table_rows t) live" and fin: "finite S"
    and inj: "inj_on (slot_id t) {..<et_length t}" and so': "order_holds (row_at t) order_path live so'"
  shows "updated_path_ties sn S live t so' = Some {s \<in> live. tied t live s}"
    "S = {} \<Longrightarrow> ss_path_ties sn = {s \<in> live. tied t live s}"
proof -
  let ?t = "ss_entries sn" and ?live = "ss_live sn"
  note d = snapshot_soundD [OF sound]
  have t: "wf_table t" "live \<subseteq> {..<et_length t}" "et_length ?t \<le> et_length t" "\<forall>r \<in> set (table_rows t). row_good cr r"
    using succ by (simp_all add: succession_def)
  have keep: "live - S = ?live - S" by (rule carried_live(1) [OF succ d(3) c])
  have folded: "view_text (folded_path (row_at t s)) = view_text (folded_path (row_at ?t s))" if s: "s \<in> ?live - S" for s
  proof -
    have len: "s < et_length ?t" "s < et_length t" using s d(3) t(3) by auto
    have "view_text (path (to_owned_file (row_at t s))) = view_text (path (to_owned_file (row_at ?t s)))"
      using carried_live(2) [OF succ d(3) c s] len by (simp add: equal_paths_def row_at_owned)
    then show ?thesis using row_at_good [OF t(4) len(2)] row_at_good [OF d(6) len(1)] by (simp add: row_good_def prepared_iff)
  qed
  have same: "\<forall>a \<in> ?live - S. \<forall>b \<in> ?live - S.
      same_natural_path (row_at t a) (row_at t b) = same_natural_path (row_at ?t a) (row_at ?t b)"
    using folded by (simp add: same_natural_path_def view_natural_cmp_text)
  have ties: "ties_ok sn" and so: "order_holds (row_at ?t) order_path ?live (ss_path_order sn)"
    using d(7) by (simp_all add: orders_ok_def order_ok_holds slot_row_at)
  show "S = {} \<Longrightarrow> ss_path_ties sn = {s \<in> live. tied t live s}"
    using ties keep same by (auto simp: ties_ok_def tied_def path_equal_def slot_row_at)
  have "finite live" using t(2) finite_subset by blast
  then have "path_sorted t live so'" using so' t inj by (simp add: path_sorted_def)
  moreover have "path_sorted ?t ?live (ss_path_order sn)" using so d(1,3,4,5) by (simp add: path_sorted_def)
  ultimately show "updated_path_ties sn S live t so' = Some {s \<in> live. tied t live s}"
    using updated_path_ties_ok [OF _ ties _ fin keep same] by simp
qed

definition snapshot_files :: "'s search_snapshot \<Rightarrow> int \<Rightarrow> file_entry option" where
  "snapshot_files sn = files_of (ss_live sn) (table_rows (ss_entries sn))"

lemma indexes_live_rows:
  assumes "wf_table (ss_entries sn)" "ss_live sn \<subseteq> {..<et_length (ss_entries sn)}"
  shows "rel_option same_owned (live_rows (ss_live sn) (table_rows (ss_entries sn)) s) (live_row sn s)"
proof (cases "s \<in> ss_live sn")
  case True
  then have s: "s < et_length (ss_entries sn)" using assms(2) by auto
  obtain f where f: "table_row (ss_entries sn) s = Some f" using table_row_Some [OF assms(1) s] by blast
  then have "to_owned_file f = table_rows (ss_entries sn) ! s" using s by (simp add: table_rows_nth)
  then show ?thesis using True f same_owned_to_owned(2) [of f] by (simp add: live_rows_def live_row_def)
qed (simp add: live_rows_def live_row_def)

lemma grams_live_rows:
  assumes "wf_table (ss_entries sn)" "ss_live sn \<subseteq> {..<et_length (ss_entries sn)}"
  shows "grams_index pk n (\<lambda>s. map_option search_name (live_rows (ss_live sn) (table_rows (ss_entries sn)) s)) m \<longleftrightarrow>
    grams_index pk n (\<lambda>s. map_option search_name (live_row sn s)) m"
proof -
  have "map_option search_name (live_rows (ss_live sn) (table_rows (ss_entries sn)) s) = map_option search_name (live_row sn s)" for s
    using indexes_live_rows [OF assms, of s]
    by (cases "live_row sn s"; cases "live_rows (ss_live sn) (table_rows (ss_entries sn)) s")
      (auto simp: same_owned_def dest: owned_fields(4))
  then show ?thesis by simp
qed

lemma metadata_live_rows:
  assumes "wf_table (ss_entries sn)" "ss_live sn \<subseteq> {..<et_length (ss_entries sn)}"
  shows "metadata_index cr (live_rows (ss_live sn) (table_rows (ss_entries sn))) m \<longleftrightarrow> metadata_index cr (live_row sn) m"
proof
  have rel: "rel_option (same_keys cr) (live_rows (ss_live sn) (table_rows (ss_entries sn)) s) (live_row sn s)" for s
    by (rule rel_keys [OF indexes_live_rows [OF assms]])
  show "metadata_index cr (live_rows (ss_live sn) (table_rows (ss_entries sn))) m \<Longrightarrow> metadata_index cr (live_row sn) m"
    by (rule metadata_index_cong [OF _ rel])
  have "rel_option (same_keys cr) (live_row sn s) (live_rows (ss_live sn) (table_rows (ss_entries sn)) s)" for s
    using rel [of s] by (cases "live_row sn s"; cases "live_rows (ss_live sn) (table_rows (ss_entries sn)) s") (auto simp: same_keys_def)
  then show "metadata_index cr (live_row sn) m \<Longrightarrow> metadata_index cr (live_rows (ss_live sn) (table_rows (ss_entries sn))) m"
    by (rule metadata_index_cong [rotated])
qed

lemma begin_update_ok:
  assumes sound: "snapshot_sound cr sn" and room: "roomy (ss_entries sn) b n" "et_length (ss_entries sn) + n \<le> u32_max"
  shows "update_ok cr (table_rows (ss_entries sn)) (ss_live sn) b n (begin_update sn)" "state_files (begin_update sn) = snapshot_files sn"
proof -
  note d = snapshot_soundD [OF sound] and ix = indexes_okD [OF snapshot_soundD(8) [OF sound]]
  have "state_ok cr (begin_update sn)"
    using d ix grams_live_rows [OF d(1,3)] metadata_live_rows [OF d(1,3)] by (simp add: state_ok_def begin_update_def)
  moreover have "reflp equal_paths" "reflp equal_names" by (simp_all add: reflp_def equal_paths_def equal_names_def)
  ultimately show "update_ok cr (table_rows (ss_entries sn)) (ss_live sn) b n (begin_update sn)"
    using room ix(4) by (simp add: update_ok_def begin_update_def Let_def carried_refl)
  show "state_files (begin_update sn) = snapshot_files sn" by (simp add: state_files_def snapshot_files_def begin_update_def)
qed

lemma finish_changes_ok:
  assumes sound: "snapshot_sound cr sn" and ok: "update_ok cr (table_rows (ss_entries sn)) (ss_live sn) 0 0 u"
    and orders: "\<forall>(ro, so) \<in> set old_orders. order_ok sn ro so"
  shows "\<exists>sn' orders. finish_changes sn old_orders generation u = Some (sn', orders) \<and> snapshot_sound cr sn' \<and>
    snapshot_files sn' = state_files u \<and> ss_generation sn' = generation \<and> ss_content_revision sn' = ss_content_revision sn \<and>
    map fst orders = map fst old_orders \<and> (\<forall>(ro, so) \<in> set orders. order_ok sn' ro so)"
proof -
  let ?t0 = "ss_entries sn" and ?live = "us_live u"
  note d = snapshot_soundD [OF sound] and du = update_okD [OF ok]
  have "\<forall>c \<in> set (et_chunks (us_entries u)). str_len (ch_text c) \<le> u32_max" using du(3) by (simp add: roomy_def)
  then obtain t where t: "table_finish_update (us_entries u) = Some t" "wf_table t" "table_rows t = table_rows (us_entries u)"
    using finish_update_ok [OF du(5)] by blast
  have len: "et_length t = et_length (us_entries u)" using arg_cong [OF t(3), of length] by simp
  have ids: "slot_id t s = slot_id (us_entries u) s" if "s < et_length t" for s
    using that len t(3) by (simp add: slot_id_rows)
  have slots: "slots_ok (us_file_slots u) t (et_length t)" using slots_ok_cong [OF du(2)] ids len by simp
  then have inj: "inj_on (slot_id t) {..<et_length t}" by (simp add: slots_ok_def)
  have st: "?live \<subseteq> {..<et_length t}" "\<forall>r \<in> set (table_rows t). row_good cr r" "et_length t \<le> u32_max"
    using du(1) len t(3) by (simp_all add: state_ok_def)
  have c: "carried (=) (us_changed u) (table_rows ?t0) (ss_live sn) (table_rows t) ?live"
    "carried equal_paths (us_path_changes u) (table_rows ?t0) (ss_live sn) (table_rows t) ?live"
    "carried equal_names (us_order_changes u) (table_rows ?t0) (ss_live sn) (table_rows t) ?live"
    and sub: "us_changed u \<subseteq> {..<et_length t}" "us_path_changes u \<subseteq> us_changed u" "us_order_changes u \<subseteq> us_changed u"
    and same_ids: "et_length ?t0 \<le> et_length t" "\<forall>s < et_length ?t0. id (table_rows t ! s) = id (table_rows ?t0 ! s)"
    using ok by (simp_all add: update_ok_def Let_def t(3) len)
  have fin: "finite (us_changed u)" "finite (us_path_changes u)" "finite (us_order_changes u)"
    using sub finite_subset [OF sub(1)] by (auto intro: finite_subset)
  have succ: "succession cr sn t ?live" using t(2) st same_ids by (simp add: succession_def)
  have so: "order_ok sn order_name (ss_name_order sn)" "order_ok sn order_path (ss_path_order sn)"
    using d(7) by (simp_all add: orders_ok_def)
  obtain names where names: "(if us_order_changes u = {} then Some (ss_name_order sn)
      else updated_order (ss_name_order sn) ?t0 (us_order_changes u) ?live t order_name) = Some names"
    "order_holds (row_at t) order_name ?live names"
    using next_order [OF succ sound so(1) carried_unaffected [OF succ sound c(3)] fin(3)]
    by (auto simp: affected_by_change_def view_eq_text order_name_def equal_names_def)
  obtain paths where paths: "(if us_path_changes u = {} then Some (ss_path_order sn)
      else updated_order (ss_path_order sn) ?t0 (us_path_changes u) ?live t order_path) = Some paths"
    "order_holds (row_at t) order_path ?live paths"
    using next_order [OF succ sound so(2) carried_unaffected [OF succ sound c(2)] fin(2)]
    by (auto simp: affected_by_change_def view_eq_text order_path_def equal_paths_def)
  note ties = next_ties [OF succ sound c(2) fin(2) inj paths(2)]
  have path_part: "(if us_path_changes u = {} then Some (ss_path_order sn, ss_path_ties sn)
      else do {
        so \<leftarrow> updated_order (ss_path_order sn) ?t0 (us_path_changes u) ?live t order_path;
        ties \<leftarrow> updated_path_ties sn (us_path_changes u) ?live t so;
        Some (so, ties) }) = Some (paths, {s \<in> ?live. tied t ?live s})"
    using paths(1) ties by (cases "us_path_changes u = {}") simp_all
  obtain numeric where num: "columns_finish_update t (us_numeric u) = Some numeric" "columns_repr numeric (table_rows t)" "columns_clean numeric"
    using columns_finish_update_ok [OF t(2), of "us_numeric u"] du(1) t(3) by (auto simp: state_ok_def)
  obtain orders' where orders': "update_orders sn (us_changed u) ?live t old_orders = Some orders'" "map fst orders' = map fst old_orders"
    "\<forall>(ro, so) \<in> set orders'. order_holds (row_at t) ro ?live so"
    using next_orders [OF succ sound c(1) fin(1) orders] by blast
  define sn' where "sn' = \<lparr>ss_entries = t, ss_file_slots = us_file_slots u, ss_live = ?live, ss_trigrams = us_trigrams u,
       ss_name_order = names, ss_path_order = paths, ss_path_ties = {s \<in> ?live. tied t ?live s}, ss_metadata = us_metadata u,
       ss_numeric = numeric, ss_names = t, ss_generation = generation, ss_content_revision = ss_content_revision sn\<rparr>"
  have finish: "finish_changes sn old_orders generation u = Some (sn', orders')"
    unfolding finish_changes_def Let_def t(1) bind.bind_lunit names(1) path_part num(1) orders'(1)
    by (simp add: sn'_def)
  have f: "ss_entries sn' = t" "ss_live sn' = ?live" by (simp_all add: sn'_def)
  have "indexes_ok cr sn'"
  proof -
    have "grams_index trigram_key 3 (\<lambda>s. map_option search_name (live_row sn' s)) (us_trigrams u)"
      using grams_live_rows [of sn' trigram_key 3 "us_trigrams u"] du(1) t(2,3) st(1) by (simp add: f state_ok_def)
    moreover have "metadata_index cr (live_row sn') (us_metadata u)"
      using metadata_live_rows [of sn' cr "us_metadata u"] du(1) t(2,3) st(1) by (simp add: f state_ok_def)
    ultimately show ?thesis using t(2) st slots num by (simp add: indexes_ok_def sn'_def)
  qed
  moreover have "orders_ok sn'"
    using names(2) paths(2) by (simp add: orders_ok_def order_ok_holds slot_row_at ties_ok_def path_equal_def f tied_def) (simp add: sn'_def tied_def)
  moreover have "prepared cr (slot_row sn' s)" if "s < et_length t" for s
    using row_at_good [OF st(2) that] by (simp add: slot_row_at f row_good_def)
  ultimately have "snapshot_sound cr sn'" using st(2) by (simp add: snapshot_sound_def snapshot_ok_def f)
  moreover have "snapshot_files sn' = state_files u" by (simp add: snapshot_files_def state_files_def f t(3))
  moreover have "\<forall>(ro, so) \<in> set orders'. order_ok sn' ro so" using orders'(3) by (simp add: order_ok_holds slot_row_at f)
  moreover have "ss_generation sn' = generation" "ss_content_revision sn' = ss_content_revision sn" by (simp_all add: sn'_def)
  ultimately show ?thesis using finish orders'(2) by blast
qed

section \<open>Compaction\<close>

lemma changed_twice: "fst a = fst b \<Longrightarrow> changed_files cr b (changed_files cr a m) = changed_files cr b m"
  by (simp add: changed_files_def)

lemma push_change_simps:
  "push_change [] ch = [ch]"
  "push_change (us @ [u]) ch = (if fst u = fst ch then us @ [ch] else us @ [u, ch])"
  by (simp_all add: push_change_def)

lemma push_changes_ok:
  "sorted (map fst chs) \<Longrightarrow>
     sorted_wrt (<) (map fst (foldl push_change [] chs)) \<and> set (foldl push_change [] chs) \<subseteq> set chs \<and>
     length (foldl push_change [] chs) \<le> length chs \<and>
     fold (changed_files cr) (foldl push_change [] chs) m = fold (changed_files cr) chs m"
proof (induction chs rule: rev_induct)
  case (snoc ch chs)
  let ?U = "foldl push_change [] chs"
  have IH: "sorted_wrt (<) (map fst ?U)" "set ?U \<subseteq> set chs" "length ?U \<le> length chs"
    "fold (changed_files cr) ?U m = fold (changed_files cr) chs m"
    using snoc by (simp_all add: sorted_append)
  show ?case
  proof (cases "?U = []")
    case True
    then have "fold (changed_files cr) chs m = m" using IH(4) by simp
    then show ?thesis by (simp add: push_change_simps True)
  next
    case False
    then obtain us u where U: "?U = us @ [u]" by (cases ?U rule: rev_cases) auto
    have "u \<in> set chs" using IH(2) by (simp add: U)
    then have le: "fst u \<le> fst ch" using snoc.prems by (auto simp: sorted_append)
    show ?thesis
    proof (cases "fst u = fst ch")
      case True
      have "fold (changed_files cr) chs m = changed_files cr u (fold (changed_files cr) us m)"
        using IH(4) by (simp add: U)
      then show ?thesis using IH(1-3) True changed_twice [OF True] by (auto simp: U push_change_simps sorted_wrt_append)
    next
      case False
      have "fst v < fst ch" if "v \<in> set us" for v
        using IH(1) that le by (fastforce simp: U sorted_wrt_append)
      then show ?thesis using IH False le by (auto simp: U push_change_simps sorted_wrt_append)
    qed
  qed
qed simp

lemma changed_files_distinct:
  "distinct (map fst chs) \<Longrightarrow> fold (changed_files cr) chs m key =
     (case map_of chs key of None \<Rightarrow> m key | Some r \<Rightarrow> map_option (\<lambda>f. to_owned_file (prepare cr f)) r)"
proof (induction chs arbitrary: m)
  case (Cons ch chs)
  have "map_of chs (fst ch) = None" using Cons.prems by (simp add: map_of_eq_None_iff)
  then show ?case using Cons by (cases ch) (auto simp: changed_files_def split: option.splits)
qed simp

lemma live_by_id_ok:
  assumes sound: "snapshot_sound cr sn"
  shows "sorted_wrt (<) (map (\<lambda>s. id (row_at (ss_entries sn) s)) (live_by_id sn))" "set (live_by_id sn) = ss_live sn"
    "length (live_by_id sn) = card (ss_live sn)"
proof -
  let ?t = "ss_entries sn" and ?id = "\<lambda>s. id (row_at (ss_entries sn) s)"
  note d = snapshot_soundD [OF sound] and slots = indexes_okD(4) [OF snapshot_soundD(8) [OF sound]]
  show set: "set (live_by_id sn) = ss_live sn" "length (live_by_id sn) = card (ss_live sn)"
    using d(4) by (simp_all add: live_by_id_def Let_def)
  have "inj_on ?id (ss_live sn)" using inj_on_subset [OF d(5,3)] unfolding slot_id_row .
  moreover have "distinct (live_by_id sn)" using set by (intro card_distinct) simp
  ultimately have "distinct (map ?id (live_by_id sn))" by (simp add: distinct_map set)
  moreover have "sorted (map ?id (live_by_id sn))"
  proof (cases "fs_prefix (ss_file_slots sn) = et_length ?t")
    case True
    have mono: "?id a \<le> ?id b" if "a \<in> ss_live sn" "b \<in> ss_live sn" "a \<le> b" for a b
    proof (cases "a = b")
      case False
      then have "a < b" "b < fs_prefix (ss_file_slots sn)" using that d(3) True by auto
      then have "slot_id ?t a < slot_id ?t b" using slots by (simp add: slots_ok_def)
      then show ?thesis by (simp add: slot_id_row)
    qed simp
    have "sorted_wrt (\<le>) (sorted_list_of_set (ss_live sn))" by simp
    then have "sorted_wrt (\<lambda>a b. ?id a \<le> ?id b) (sorted_list_of_set (ss_live sn))"
      by (rule sorted_wrt_mono_rel [rotated]) (rule mono; simp add: d(4))
    then have "sorted (map ?id (sorted_list_of_set (ss_live sn)))" by (simp only: sorted_wrt_map)
    then show ?thesis using True by (simp add: live_by_id_def)
  qed (simp add: live_by_id_def Let_def)
  ultimately show "sorted_wrt (<) (map ?id (live_by_id sn))" by (simp only: strict_sorted_iff)
qed

text \<open>What the merge yields: the old rows without a change, and the new rows, by ascending numbers.\<close>

definition remapped :: "crates \<Rightarrow> 's search_snapshot \<Rightarrow> nat list \<Rightarrow> snapshot_change list \<Rightarrow> file_entry list \<Rightarrow> bool" where
  "remapped cr sn ss chs rows \<longleftrightarrow>
     sorted_wrt (<) (map id rows) \<and> length rows \<le> length ss + length chs \<and>
     set rows = {to_owned_file (row_at (ss_entries sn) s) | s. s \<in> set ss \<and> id (row_at (ss_entries sn) s) \<notin> fst ` set chs} \<union>
       {prepare cr f | k f. (k, Some f) \<in> set chs}"

lemma remapped_ids:
  "remapped cr sn ss chs rows \<Longrightarrow> list_all (change_ok cr) chs \<Longrightarrow> r \<in> set rows \<Longrightarrow>
     id r \<in> (\<lambda>s. id (row_at (ss_entries sn) s)) ` set ss \<or> id r \<in> fst ` set chs"
proof -
  assume rows: "remapped cr sn ss chs rows" "list_all (change_ok cr) chs" "r \<in> set rows"
  then consider s where "r = to_owned_file (row_at (ss_entries sn) s)" "s \<in> set ss"
    | k f where "r = prepare cr f" "(k, Some f) \<in> set chs"
    unfolding remapped_def by blast
  then show ?thesis
  proof cases
    case 2
    then have "change_ok cr (k, Some f)" using rows(2) by (auto simp: list_all_iff)
    then have "id r = k" using 2(1) by (simp add: change_ok_def)
    then show ?thesis using 2(2) by force
  qed simp
qed

lemma remap_change_ok:
  assumes sound: "snapshot_sound cr sn" and chs: "list_all (change_ok cr) (ch # chs)" "\<And>c. c \<in> set chs \<Longrightarrow> fst ch < fst c"
    and ss: "\<And>s. s \<in> set ss \<Longrightarrow> fst ch < id (row_at (ss_entries sn) s)" and rest: "remapped cr sn ss chs rows"
  shows "\<exists>rows'. remap_change cr sn ch (Some rows) = Some rows' \<and> remapped cr sn ss (ch # chs) rows'"
proof -
  obtain key replacement where ch: "ch = (key, replacement)" by fastforce
  note d = snapshot_soundD [OF sound] and slots = indexes_okD(4) [OF snapshot_soundD(8) [OF sound]]
  have above: "fst ch < id r" if "r \<in> set rows" for r
    using remapped_ids [OF rest _ that] chs ss by auto
  have same: "{to_owned_file (row_at (ss_entries sn) s) | s. s \<in> set ss \<and> id (row_at (ss_entries sn) s) \<notin> fst ` set (ch # chs)} =
      {to_owned_file (row_at (ss_entries sn) s) | s. s \<in> set ss \<and> id (row_at (ss_entries sn) s) \<notin> fst ` set chs}"
    using ss by fastforce
  show ?thesis
  proof (cases replacement)
    case None
    then show ?thesis using rest unfolding remapped_def same by (auto simp: remap_change_def ch)
  next
    case (Some f)
    obtain found where found: "slot_for_id sn key = Some found" "\<And>s. found = Some s \<longleftrightarrow> s < et_length (ss_entries sn) \<and> slot_id (ss_entries sn) s = key"
      using slots_get_ok [OF d(1) slots order_refl, of key] unfolding slot_for_id_def by blast
    have "prepared cr (row_at (ss_entries sn) s)" if "found = Some s" for s
      using row_at_good [OF d(6)] found(2) [of s] that by (simp add: row_good_def)
    then have "prepare_replacement cr (map_option (row_at (ss_entries sn)) found) f = prepare cr f"
      by (intro prepare_replacement_eq) auto
    then have "remap_change cr sn ch (Some rows) = Some (prepare cr f # rows)"
      by (simp add: remap_change_def ch Some found(1))
    moreover have "id f = key" using chs(1) by (simp add: change_ok_def ch Some)
    then have "sorted_wrt (<) (map id (prepare cr f # rows))"
      using rest above by (auto simp: remapped_def ch)
    moreover have "set (prepare cr f # rows) = {to_owned_file (row_at (ss_entries sn) s) | s. s \<in> set ss \<and> id (row_at (ss_entries sn) s) \<notin> fst ` set (ch # chs)} \<union>
       {prepare cr f | k f. (k, Some f) \<in> set (ch # chs)}"
      using rest unfolding remapped_def same by (auto simp: ch Some)
    ultimately show ?thesis using rest unfolding remapped_def by simp
  qed
qed

lemma remap_rows_ok:
  "snapshot_sound cr sn \<Longrightarrow> sorted_wrt (<) (map (\<lambda>s. id (row_at (ss_entries sn) s)) ss) \<Longrightarrow> sorted_wrt (<) (map fst chs) \<Longrightarrow>
    list_all (change_ok cr) chs \<Longrightarrow> \<exists>rows. remap_rows cr sn ss chs = Some rows \<and> remapped cr sn ss chs rows"
proof (induction cr sn ss chs rule: remap_rows.induct)
  case (1 cr sn)
  then show ?case by (simp add: remapped_def)
next
  case (2 cr sn s ss)
  then obtain rows where rows: "remap_rows cr sn ss [] = Some rows" "remapped cr sn ss [] rows" by auto
  then have "remapped cr sn (s # ss) [] (to_owned_file (row_at (ss_entries sn) s) # rows)"
    using 2 by (auto simp: remapped_def)
  then show ?case using rows(1) by simp
next
  case (3 cr sn ch chs)
  then obtain rows where "remap_rows cr sn [] chs = Some rows" "remapped cr sn [] chs rows" by auto
  then show ?case using remap_change_ok [OF 3(2), of ch chs "[]" rows] 3(4,5) by simp
next
  case (4 cr sn s ss ch chs)
  let ?id = "\<lambda>s. id (row_at (ss_entries sn) s)"
  have above: "?id s < ?id x" if "x \<in> set ss" for x using 4(5) that by simp
  have after: "fst ch < fst c" if "c \<in> set chs" for c using 4(6) that by simp
  consider (old) "?id s < fst ch" | (both) "?id s = fst ch" | (new) "fst ch < ?id s" by linarith
  then show ?case
  proof cases
    case old
    then obtain rows where rows: "remap_rows cr sn ss (ch # chs) = Some rows" "remapped cr sn ss (ch # chs) rows"
      using 4(1) 4(4-7) by auto
    have "?id s < id r" if "r \<in> set rows" for r
      using remapped_ids [OF rows(2) 4(7) that] above old after by fastforce
    moreover have "?id s \<notin> fst ` set (ch # chs)" using old after by fastforce
    ultimately have "remapped cr sn (s # ss) (ch # chs) (to_owned_file (row_at (ss_entries sn) s) # rows)"
      using rows(2) by (auto simp: remapped_def)
    then show ?thesis using rows(1) old by simp
  next
    case both
    then obtain rows where rows: "remap_rows cr sn ss chs = Some rows" "remapped cr sn ss chs rows"
      using 4(2) 4(4-7) by auto
    from remap_change_ok [OF 4(4,7) after _ rows(2)] above both
    obtain rows' where rows': "remap_change cr sn ch (Some rows) = Some rows'" "remapped cr sn ss (ch # chs) rows'" by auto
    have "remapped cr sn (s # ss) (ch # chs) rows'" using rows'(2) both by (auto simp: remapped_def)
    then show ?thesis using rows(1) rows'(1) both by simp
  next
    case new
    then obtain rows where rows: "remap_rows cr sn (s # ss) chs = Some rows" "remapped cr sn (s # ss) chs rows"
      using 4(3) 4(4-7) by auto
    have "fst ch < ?id x" if "x \<in> set (s # ss)" for x using that above new by fastforce
    from remap_change_ok [OF 4(4,7) after this rows(2)]
    show ?thesis using rows(1) new by simp
  qed
qed

lemma snapshot_revision [simp]:
  "snapshot_sound cr (sn\<lparr>ss_content_revision := r\<rparr>) = snapshot_sound cr sn"
proof -
  have "live_row (sn\<lparr>ss_content_revision := r\<rparr>) s = live_row sn s" for s by (cases "s \<in> ss_live sn") (simp_all add: live_row_def)
  then have "live_row (sn\<lparr>ss_content_revision := r\<rparr>) = live_row sn" ..
  then show ?thesis
    by (simp add: snapshot_sound_def snapshot_ok_def indexes_ok_def orders_ok_def order_ok_def ties_ok_def path_equal_def slot_row_at)
qed

lemma sound_numbered: "snapshot_sound cr sn \<Longrightarrow> numbered (ss_live sn) (table_rows (ss_entries sn))"
  using snapshot_soundD(3,5) [of cr sn] by (auto simp: numbered_def inj_on_def slot_id_rows)

lemma remapped_files:
  assumes sound: "snapshot_sound cr sn" and rows: "remapped cr sn (live_by_id sn) chs rows" "list_all (change_ok cr) chs"
    and dist: "sorted_wrt (<) (map fst chs)"
  shows "(\<exists>r \<in> set rows. id r = key \<and> to_owned_file r = f) \<longleftrightarrow> fold (changed_files cr) chs (snapshot_files sn) key = Some f"
proof -
  let ?t = "ss_entries sn"
  note d = snapshot_soundD [OF sound]
  have distinct: "distinct (map fst chs)" using dist strict_sorted_iff by blast
  have old: "snapshot_files sn key = Some f \<longleftrightarrow> (\<exists>s \<in> ss_live sn. id (row_at ?t s) = key \<and> to_owned_file (row_at ?t s) = f)"
  proof -
    have row: "table_rows ?t ! s = to_owned_file (row_at ?t s)" if "s \<in> ss_live sn" for s
      using row_at_owned [of s ?t, symmetric] d(3) that by auto
    then have "id (table_rows ?t ! s) = id (row_at ?t s)" if "s \<in> ss_live sn" for s using that by simp
    then show ?thesis using row by (auto simp: snapshot_files_def files_of_Some [OF sound_numbered [OF sound]])
  qed
  have twice: "to_owned_file (to_owned_file g) = to_owned_file g" for g by (simp add: to_owned_file_def)
  have set: "r \<in> set rows \<longleftrightarrow> (\<exists>s \<in> ss_live sn. id (row_at ?t s) \<notin> fst ` set chs \<and> r = to_owned_file (row_at ?t s)) \<or>
      (\<exists>k g. (k, Some g) \<in> set chs \<and> r = prepare cr g)" for r
    using rows(1) live_by_id_ok(2) [OF sound] by (auto simp: remapped_def)
  have number: "id g = k" if "(k, Some g) \<in> set chs" for k g using rows(2) that by (auto simp: list_all_iff change_ok_def)
  show ?thesis
  proof (cases "map_of chs key")
    case None
    then have unchanged: "key \<notin> fst ` set chs" by (simp add: map_of_eq_None_iff)
    then have "(\<exists>r \<in> set rows. id r = key \<and> to_owned_file r = f) \<longleftrightarrow> (\<exists>s \<in> ss_live sn. id (row_at ?t s) = key \<and> to_owned_file (row_at ?t s) = f)"
      using number by (fastforce simp: set twice Bex_def image_iff)
    then show ?thesis using changed_files_distinct [OF distinct, of cr "snapshot_files sn" key] None old by simp
  next
    case (Some replacement)
    then have mem: "(key, replacement) \<in> set chs" by (rule map_of_SomeD)
    then have only: "r' = replacement" if "(key, r') \<in> set chs" for r'
      using map_of_is_SomeI [OF distinct that] Some by simp
    have "key \<in> fst ` set chs" using mem by force
    have "(\<exists>r \<in> set rows. id r = key \<and> to_owned_file r = f) \<longleftrightarrow> (\<exists>g. replacement = Some g \<and> to_owned_file (prepare cr g) = f)"
    proof
      assume "\<exists>r \<in> set rows. id r = key \<and> to_owned_file r = f"
      then obtain r where r: "r \<in> set rows" "id r = key" "to_owned_file r = f" by blast
      from r(1) consider s where "id (row_at ?t s) \<notin> fst ` set chs" "r = to_owned_file (row_at ?t s)"
        | k g where "(k, Some g) \<in> set chs" "r = prepare cr g" unfolding set by blast
      then show "\<exists>g. replacement = Some g \<and> to_owned_file (prepare cr g) = f"
      proof cases
        case 1
        then show ?thesis using r(2) \<open>key \<in> fst ` set chs\<close> by simp
      next
        case 2
        then have "k = key" using number [OF 2(1)] r(2) by simp
        then show ?thesis using only [of "Some g"] 2 r(3) by auto
      qed
    next
      assume "\<exists>g. replacement = Some g \<and> to_owned_file (prepare cr g) = f"
      then obtain g where g: "(key, Some g) \<in> set chs" "to_owned_file (prepare cr g) = f" using mem by auto
      then have "prepare cr g \<in> set rows" using set by blast
      then show "\<exists>r \<in> set rows. id r = key \<and> to_owned_file r = f" using g(2) number [OF g(1)] by (intro bexI [of _ "prepare cr g"]) simp_all
    qed
    then show ?thesis using changed_files_distinct [OF distinct, of cr "snapshot_files sn" key] Some by simp
  qed
qed

lemma remap_changes_ok:
  assumes sound: "snapshot_sound cr sn" and chs: "list_all (change_ok cr) chs" and room: "card (ss_live sn) + length chs \<le> u32_max"
  shows "\<exists>sn'. remap_changes cr chs generation sn = Some sn' \<and> snapshot_sound cr sn' \<and>
    snapshot_files sn' = fold (changed_files cr) chs (snapshot_files sn) \<and> ss_generation sn' = generation \<and>
    ss_content_revision sn' = ss_content_revision sn \<and> ss_live sn' = {..<et_length (ss_entries sn')}"
proof -
  let ?unique = "foldl push_change [] (sort_key fst chs)"
  note d = snapshot_soundD [OF sound]
  have unique: "sorted_wrt (<) (map fst ?unique)" "set ?unique \<subseteq> set chs" "length ?unique \<le> length chs"
    "fold (changed_files cr) ?unique m = fold (changed_files cr) chs m" for m
    using push_changes_ok [of "sort_key fst chs" cr m] changed_files_sorted [of cr chs m] by simp_all
  have good: "list_all (change_ok cr) ?unique" using chs unique(2) by (auto simp: list_all_iff)
  obtain rows where rows: "remap_rows cr sn (live_by_id sn) ?unique = Some rows" "remapped cr sn (live_by_id sn) ?unique rows"
    using remap_rows_ok [OF sound live_by_id_ok(1) [OF sound] unique(1) good] by blast
  have row_good: "row_good cr r" if r: "r \<in> set rows" for r
  proof -
    consider s where "r = to_owned_file (row_at (ss_entries sn) s)" "s \<in> ss_live sn" | k f where "r = prepare cr f" "(k, Some f) \<in> set ?unique"
      using rows(2) r live_by_id_ok(2) [OF sound] unfolding remapped_def by blast
    then show ?thesis
    proof cases
      case 1
      then have "row_good cr (row_at (ss_entries sn) s)" using row_at_good [OF d(6)] d(3) by auto
      then show ?thesis using 1(1) by simp
    next
      case 2
      then have "change_ok cr (k, Some f)" using good by (auto simp: list_all_iff)
      then show ?thesis using 2(1) by (simp add: change_ok_def row_good_prepare)
    qed
  qed
  have "length rows \<le> u32_max" using rows(2) unique(3) room live_by_id_ok(3) [OF sound] by (simp add: remapped_def)
  moreover have "list_all (\<lambda>row. row_ok row \<and> row_small row) rows" using row_good by (simp add: list_all_iff row_good_def)
  ultimately obtain t where t: "table_from_rows (map Inr rows) = Some (Inr t)" "wf_table t" "table_rows t = map to_owned_file rows"
    using table_from_rows_ok by blast
  have len: "et_length t = length rows" using arg_cong [OF t(3), of length] by simp
  have row: "to_owned_file (row_at t s) = to_owned_file (rows ! s)" if "s < et_length t" for s
    using row_at_owned [OF that] t(3) that len by simp
  have "distinct (map id rows)" using rows(2) strict_sorted_iff by (auto simp: remapped_def)
  then have "inj_on (slot_id t) {..<et_length t}"
    using owned_fields(1) [OF row] len by (auto simp: inj_on_def slot_id_row distinct_conv_nth)
  moreover have good_t: "row_good cr (row_at t s)" if "s < et_length t" for s
  proof -
    have "row_good cr (to_owned_file (row_at t s))" unfolding row [OF that] using row_good [of "rows ! s"] that len by simp
    then show ?thesis by (simp only: row_good_owned)
  qed
  ultimately obtain sn' :: "'a search_snapshot" where sn': "build_compact_rows cr t generation = Some sn'" "snapshot_ok cr sn'"
    "ss_entries sn' = t" "ss_live sn' = {..<et_length t}" "ss_generation sn' = generation"
    using build_compact_rows_ok [OF t(2), of cr generation] len \<open>length rows \<le> u32_max\<close> unfolding row_good_def by metis
  have "\<forall>r \<in> set (table_rows t). row_good cr r" using row_good by (auto simp: t(3))
  then have sound': "snapshot_sound cr sn'" using sn'(2,3) by (simp add: snapshot_sound_def)
  let ?next = "sn'\<lparr>ss_content_revision := ss_content_revision sn\<rparr>"
  obtain views where views: "table_views t = Some views" "build_prepared_indexes cr t (name_grams (enumerate 0 views)) generation = Some sn'"
    using sn'(1) by (auto simp: build_compact_rows_def split: bind_splits)
  have remap: "remap_changes cr chs generation sn = Some ?next"
    using rows(1) t(1) views by (simp add: remap_changes_def)
  have "snapshot_files ?next = fold (changed_files cr) chs (snapshot_files sn)"
  proof (rule ext, rule option_eqI)
    fix key f
    have "snapshot_files ?next key = Some f \<longleftrightarrow> (\<exists>s < length rows. id (table_rows t ! s) = key \<and> table_rows t ! s = f)"
      using files_of_Some [OF sound_numbered [OF sound'], of key f] sn'(3,4) len by (auto simp: snapshot_files_def)
    also have "\<dots> \<longleftrightarrow> (\<exists>r \<in> set rows. id r = key \<and> to_owned_file r = f)"
    proof -
      have "(\<exists>r \<in> set rows. P r) \<longleftrightarrow> (\<exists>s < length rows. P (rows ! s))" for P by (metis in_set_conv_nth)
      then show ?thesis by (auto simp: t(3))
    qed
    finally show "snapshot_files ?next key = Some f \<longleftrightarrow> fold (changed_files cr) chs (snapshot_files sn) key = Some f"
      using remapped_files [OF sound rows(2) good unique(1), of key f] unique(4) by simp
  qed
  then show ?thesis using remap sound' sn' by (intro exI [of _ ?next]) simp
qed

section \<open>Batches\<close>

lemma changes_need_sorted: "changes_need cr (sort_key fst chs) = changes_need cr chs"
proof -
  have "sum_mset (image_mset (\<lambda>ch. change_need cr (snd ch)) (mset (sort_key fst chs))) =
      sum_mset (image_mset (\<lambda>ch. change_need cr (snd ch)) (mset chs))" by simp
  then show ?thesis unfolding changes_need_def by (simp only: mset_map [symmetric] sum_mset_sum_list)
qed

lemma apply_snapshot_changes_ok:
  assumes sound: "snapshot_sound cr sn" and chs: "list_all (change_ok cr) chs"
    and room: "roomy (ss_entries sn) (changes_need cr chs) (length chs)" "et_length (ss_entries sn) + length chs \<le> u32_max"
    and orders: "\<forall>(ro, so) \<in> set old_orders. order_ok sn ro so"
  shows "\<exists>sn' orders. apply_snapshot_changes cr chs generation sn old_orders = Some (Inr (sn', orders)) \<and> snapshot_sound cr sn' \<and>
    snapshot_files sn' = fold (changed_files cr) chs (snapshot_files sn) \<and>
    ss_generation sn' = generation \<and> ss_content_revision sn' = ss_content_revision sn \<and>
    map fst orders = (if sparse sn then [] else map fst old_orders) \<and> (\<forall>(ro, so) \<in> set orders. order_ok sn' ro so)"
proof (cases "sparse sn")
  case True
  have "card (ss_live sn) \<le> et_length (ss_entries sn)"
    using card_mono [OF _ snapshot_soundD(3) [OF sound]] by simp
  then obtain sn' where "remap_changes cr chs generation sn = Some sn'" "snapshot_sound cr sn'"
    "snapshot_files sn' = fold (changed_files cr) chs (snapshot_files sn)" "ss_generation sn' = generation"
    "ss_content_revision sn' = ss_content_revision sn"
    using remap_changes_ok [OF sound chs, of generation] room(2) by auto
  then show ?thesis using True by (simp add: apply_snapshot_changes_def fine_def)
next
  case False
  have sorted: "list_all (change_ok cr) (sort_key fst chs)" using chs by (simp add: list_all_iff)
  note start = begin_update_ok [OF sound room]
  obtain u where u: "change_loop cr (sort_key fst chs) (begin_update sn) = Some (Inr u)"
    "update_ok cr (table_rows (ss_entries sn)) (ss_live sn) 0 0 u"
    "state_files u = fold (changed_files cr) (sort_key fst chs) (snapshot_files sn)"
    using change_loop_ok [OF _ sorted, of "table_rows (ss_entries sn)" "ss_live sn" "begin_update sn"] start
    by (auto simp: changes_need_sorted)
  obtain sn' orders where "finish_changes sn old_orders generation u = Some (sn', orders)" "snapshot_sound cr sn'"
    "snapshot_files sn' = state_files u" "ss_generation sn' = generation" "ss_content_revision sn' = ss_content_revision sn"
    "map fst orders = map fst old_orders" "\<forall>(ro, so) \<in> set orders. order_ok sn' ro so"
    using finish_changes_ok [OF sound u(2) orders, of generation] by blast
  then show ?thesis using False u(1,3) by (simp add: apply_snapshot_changes_def fine_def changed_files_sorted)
qed

lemma built_sound:
  assumes "list_all (row_input_ok cr) rows" "length rows \<le> u32_max" "distinct (map id rows)"
  shows "\<exists>sn :: 's search_snapshot. snapshot_from_rows cr (map Inr rows) generation = Some (Inr sn) \<and> snapshot_sound cr sn \<and>
    ss_live sn = {..<length rows} \<and> table_rows (ss_entries sn) = map (\<lambda>row. to_owned_file (prepare cr row)) rows"
proof -
  obtain sn :: "'s search_snapshot" where sn: "snapshot_from_rows cr (map Inr rows) generation = Some (Inr sn)" "snapshot_ok cr sn"
    "ss_live sn = {..<length rows}" "table_rows (ss_entries sn) = map (\<lambda>row. to_owned_file (prepare cr row)) rows"
    using snapshot_from_rows_ok [OF assms, of generation] by blast
  then have "\<forall>r \<in> set (table_rows (ss_entries sn)). row_good cr r"
    using assms(1) by (auto simp: row_good_prepare list_all_iff)
  then show ?thesis using sn by (auto simp: snapshot_sound_def)
qed

lemma report_input_ok: "row_input_ok plain_crates report_entry"
proof -
  have "prepare plain_crates report_entry = report_entry"
    by (simp add: prepare_def report_entry_def sample_entry_def shared_search_fold_def fold_text_def is_ascii_def lit_def
        to_ascii_lowercase_def ascii_lower_def view_of_str_def view_text_def parent_or_default_def path_parent.simps
        trim_right.simps next_component_back_def before_body_def has_root_def include_cur_dir_def starts_with_def sep_def dot_def Let_def)
  then show ?thesis
    using report_row_ok by (simp add: row_input_ok_def scalar_values_def report_entry_def lit_def)
qed

lemma succession_self: "snapshot_sound cr sn \<Longrightarrow> succession cr sn (ss_entries sn) (ss_live sn)"
  using snapshot_soundD [of cr sn] by (simp add: succession_def)

section \<open>Properties\<close>

text \<open>
  C8: a batch of changes refines the update of the map from persistent numbers to files. It is refused exactly when
  it exceeds the incremental limit; otherwise the next snapshot, whether updated in place or compacted, is again
  consistent in all its indexes, orders and ties, and its files are those of before with the changes made one
  after the other, the last change of a row deciding; the orders that the cache holds are carried over sorted. No
  step panics. The hypotheses are a consistent snapshot, changes whose entries carry their numbers and are within
  the limits of a row, and room for the texts of the batch in every block and for its rows among the slots.
\<close>

theorem changes_refine_files:
  assumes "snapshot_sound cr sn" "list_all (change_ok cr) changes"
    "roomy (ss_entries sn) (changes_need cr changes) (length changes)" "et_length (ss_entries sn) + length changes \<le> u32_max"
    "\<forall>(ro, so) \<in> set old_orders. order_ok sn ro so"
  shows "if length changes > incremental_limit (card (ss_live sn))
    then from_changes cr changes generation sn old_orders = Some (Inl ''delta_exceeds_incremental_limit'')
    else \<exists>sn' orders. from_changes cr changes generation sn old_orders = Some (Inr (sn', orders)) \<and> snapshot_sound cr sn' \<and>
      snapshot_files sn' = fold (changed_files cr) changes (snapshot_files sn) \<and>
      ss_generation sn' = generation \<and> ss_content_revision sn' = ss_content_revision sn \<and>
      map fst orders = (if sparse sn then [] else map fst old_orders) \<and> (\<forall>(ro, so) \<in> set orders. order_ok sn' ro so)"
proof (cases "length changes > incremental_limit (card (ss_live sn))")
  case False
  then have "from_changes cr changes generation sn old_orders = apply_snapshot_changes cr changes generation sn old_orders"
    by (simp add: from_changes_def)
  with apply_snapshot_changes_ok [OF assms, of generation] False show ?thesis by (simp only: if_False)
qed (simp add: from_changes_def)

theorem changes_refine_files_witness:
  "\<exists>(sn :: unit search_snapshot) sn' orders. snapshot_from_rows plain_crates [] 1 = Some (Inr sn) \<and>
    from_changes plain_crates [(7, Some report_entry), (9, None)] 2 sn [] = Some (Inr (sn', orders)) \<and>
    snapshot_files sn' 7 = Some (to_owned_file (prepare plain_crates report_entry)) \<and> snapshot_files sn' 9 = None"
proof -
  let ?chs = "[(7, Some report_entry), (9, None)] :: snapshot_change list"
  obtain sn :: "unit search_snapshot" where sn: "snapshot_from_rows plain_crates (map Inr []) 1 = Some (Inr sn)"
    "snapshot_sound plain_crates sn" "ss_live sn = {..<length ([] :: file_entry list)}"
    "table_rows (ss_entries sn) = map (\<lambda>row. to_owned_file (prepare plain_crates row)) []"
    using built_sound [of plain_crates "[]" 1] by auto
  have len: "et_length (ss_entries sn) = 0" using arg_cong [OF sn(4), of length] by simp
  then have "et_chunks (ss_entries sn) = []"
    using snapshot_soundD(1) [OF sn(2)] by (simp add: wf_table_def chunk_length_def)
  moreover have "text_need (prepare plain_crates report_entry) \<le> 1048575"
    using report_input_ok by (simp add: row_input_ok_def row_small_def rows_need_def)
  ultimately have room: "roomy (ss_entries sn) (changes_need plain_crates ?chs) (length ?chs)"
    by (simp add: roomy_def changes_need_def change_need_def u32_max_def)
  have chs: "list_all (change_ok plain_crates) ?chs"
    using report_input_ok by (simp add: change_ok_def) (simp add: report_entry_def sample_entry_def)
  have few: "\<not> length ?chs > incremental_limit (card (ss_live sn))" by (simp add: incremental_limit_def)
  have "snapshot_files sn = Map.empty" using sn(3) by (simp add: snapshot_files_def files_of_def)
  moreover obtain sn' orders where "from_changes plain_crates ?chs 2 sn [] = Some (Inr (sn', orders))"
    "snapshot_files sn' = fold (changed_files plain_crates) ?chs (snapshot_files sn)"
    using changes_refine_files [OF sn(2) chs room, of "[]" 2] few len by (auto simp: u32_max_def)
  ultimately show ?thesis using sn(1)
    by (intro exI [of _ sn] exI [of _ sn'] exI [of _ orders]) (simp add: changed_files_def)
qed

text \<open>
  C9: carrying an order over a batch gives what sorting afresh gives. From any sorted order of the live slots, taking
  out the changed slots, found by search or by a scan, and merging in the live ones never panics and yields a
  well-formed order with exactly the slots in the sequence a full sort of the new rows has. The hypotheses are a
  consistent snapshot with the order, a next table with the same numbers and sound rows, and that outside the
  given set the live slots are the same and no row changed in a field the order looks at.
\<close>

theorem updated_order_is_sort:
  assumes "snapshot_sound cr sn" "order_ok sn ro so" "succession cr sn t live" "inj_on (slot_id t) live"
    "unaffected sn t live touched ro" "finite touched"
  shows "\<exists>so'. updated_order so (ss_entries sn) touched live t ro = Some so' \<and> wf_order so' \<and>
    to_vec so' = sort_by (slot_compare (row_at t) ro) (sorted_list_of_set live)"
proof -
  note d = snapshot_soundD [OF assms(1)]
  have "order_holds (row_at (ss_entries sn)) ro (ss_live sn) so" using assms(2) by (simp add: order_ok_holds slot_row_at)
  moreover have "live - touched = ss_live sn - touched" using assms(5) by (simp add: unaffected_def)
  moreover have "finite live" using assms(3) finite_subset [of live "{..<et_length t}"] by (simp add: succession_def)
  ultimately show ?thesis
    using updated_order_sorts [OF _ d(4,1,3,5) assms(6) _ _ unaffected_same_order [OF assms(3,1,5)] assms(4)] by blast
qed

theorem updated_order_is_sort_witness:
  "\<exists>(sn :: unit search_snapshot) so'. snapshot_from_rows plain_crates [Inr report_entry] 1 = Some (Inr sn) \<and>
    updated_order (ss_name_order sn) (ss_entries sn) {0} {0} (ss_entries sn) order_name = Some so' \<and> to_vec so' = [0]"
proof -
  obtain sn :: "unit search_snapshot" where sn: "snapshot_from_rows plain_crates (map Inr [report_entry]) 1 = Some (Inr sn)"
    "snapshot_sound plain_crates sn" "ss_live sn = {..<length [report_entry]}"
    using built_sound [of plain_crates "[report_entry]" 1] report_input_ok by (auto simp: u32_max_def)
  then have live: "ss_live sn = {0}" by (auto simp: lessThan_Suc)
  have so: "order_ok sn order_name (ss_name_order sn)" using snapshot_soundD(7) [OF sn(2)] by (simp add: orders_ok_def)
  have succ: "succession plain_crates sn (ss_entries sn) {0}" using succession_self [OF sn(2)] live by simp
  have un: "unaffected sn (ss_entries sn) {0} {0} order_name" by (simp add: unaffected_def live)
  from updated_order_is_sort [OF sn(2) so succ _ un] obtain so' where
    "updated_order (ss_name_order sn) (ss_entries sn) {0} {0} (ss_entries sn) order_name = Some so'" "to_vec so' = [0]" by auto
  then show ?thesis using sn(1) by (intro exI [of _ sn] exI [of _ so']) simp
qed

text \<open>
  C10: deciding the ties of paths again only for changed slots and their neighbours, in the order before and in the
  order after, gives exactly the ties that a scan of the whole new order finds, and every lookup of a live slot
  in the order succeeds. The hypotheses are those of carrying over the path order, with the paths as the field.
\<close>

theorem updated_ties_equal_scan:
  assumes "snapshot_sound cr sn" "succession cr sn t live" "inj_on (slot_id t) {..<et_length t}" "finite touched"
    "carried equal_paths touched (table_rows (ss_entries sn)) (ss_live sn) (table_rows t) live"
    "order_holds (row_at t) order_path live so"
  shows "updated_path_ties sn touched live t so =
    Some (tie_pairs (\<lambda>a b. same_natural_path (row_at t a) (row_at t b)) (to_vec so) {})"
proof -
  have "finite live" using assms(2) finite_subset [of live "{..<et_length t}"] by (simp add: succession_def)
  note d = order_holdsD [OF assms(6) this]
  show ?thesis
    using next_ties(1) [OF assms(2,1,5,4,3,6)] ties_of_sorted [OF d(2,4)] d(3) by (simp add: tied_def)
qed

theorem updated_ties_equal_scan_witness:
  "\<exists>sn :: unit search_snapshot. snapshot_from_rows plain_crates [Inr report_entry] 1 = Some (Inr sn) \<and>
    updated_path_ties sn {0} {0} (ss_entries sn) (ss_path_order sn) =
      Some (tie_pairs (\<lambda>a b. same_natural_path (row_at (ss_entries sn) a) (row_at (ss_entries sn) b)) (to_vec (ss_path_order sn)) {})"
proof -
  obtain sn :: "unit search_snapshot" where sn: "snapshot_from_rows plain_crates (map Inr [report_entry]) 1 = Some (Inr sn)"
    "snapshot_sound plain_crates sn" "ss_live sn = {..<length [report_entry]}"
    using built_sound [of plain_crates "[report_entry]" 1] report_input_ok by (auto simp: u32_max_def)
  then have live: "ss_live sn = {0}" by (auto simp: lessThan_Suc)
  note d = snapshot_soundD [OF sn(2)]
  have "order_holds (row_at (ss_entries sn)) order_path {0} (ss_path_order sn)"
    using d(7) live by (simp add: orders_ok_def order_ok_holds slot_row_at)
  moreover have "succession plain_crates sn (ss_entries sn) {0}" using succession_self [OF sn(2)] live by simp
  moreover have "carried equal_paths {0} (table_rows (ss_entries sn)) (ss_live sn) (table_rows (ss_entries sn)) {0}"
    unfolding live by (rule carried_refl) (simp add: reflp_def equal_paths_def)
  ultimately have "updated_path_ties sn {0} {0} (ss_entries sn) (ss_path_order sn) =
      Some (tie_pairs (\<lambda>a b. same_natural_path (row_at (ss_entries sn) a) (row_at (ss_entries sn) b)) (to_vec (ss_path_order sn)) {})"
    using updated_ties_equal_scan [OF sn(2) _ d(5)] by blast
  then show ?thesis using sn(1) by auto
qed

end
